(* ===== verification/Prelude.thy ===== *)
theory Prelude imports
  Main
  "HOL-Library.Word"
  "HOL-Library.Monad_Syntax"
begin

text \<open>
  Shared material: the collections of hints the component theories fill and use, bounds-checked
  list access, inversion of option binds, and the arithmetic of positional digits that the
  bit-partitioned trie rests on (shifts and masks as div and mod by powers of the node width).
\<close>

unbundle bit_operations_syntax

named_theorems bind_rules \<open>inversion of option binds\<close>
named_theorems store_rules \<open>reading back from the node store\<close>
named_theorems frame_rules \<open>what an operation leaves alone\<close>

type_synonym id32 = "32 word"

subsection \<open>Bounds-checked access\<close>

definition nth_opt :: "'a list \<Rightarrow> nat \<Rightarrow> 'a option" where
  "nth_opt xs i = (if i < length xs then Some (xs ! i) else None)"

lemma nth_opt_Some [simp]: "nth_opt xs i = Some x \<longleftrightarrow> i < length xs \<and> xs ! i = x"
  by (auto simp: nth_opt_def)

lemma nth_opt_None [simp]: "nth_opt xs i = None \<longleftrightarrow> length xs \<le> i"
  by (auto simp: nth_opt_def)

lemma nth_opt_Cons [simp]: "nth_opt (x # xs) 0 = Some x" "nth_opt (x # xs) (Suc i) = nth_opt xs i"
  by (simp_all add: nth_opt_def)

lemma nth_opt_in: "i < length xs \<Longrightarrow> nth_opt xs i = Some (xs ! i)"
  by simp

lemma nth_opt_update: "nth_opt (xs[j := y]) i = (if i = j \<and> i < length xs then Some y else nth_opt xs i)"
  by (auto simp: nth_opt_def)

lemma bind_SomeD [bind_rules]:
  "Option.bind m f = Some y \<longleftrightarrow> (\<exists>x. m = Some x \<and> f x = Some y)"
  by (cases m) auto

lemma if_None_SomeD [bind_rules]:
  "(if c then None else m) = Some y \<longleftrightarrow> \<not> c \<and> m = Some y"
  "(if c then m else None) = Some y \<longleftrightarrow> c \<and> m = Some y"
  by auto

subsection \<open>Shifts, masks and digits\<close>

lemma and_mask_nat: "(n::nat) AND (2 ^ b - 1) = n mod 2 ^ b"
  by (simp add: take_bit_eq_mod [symmetric] take_bit_eq_mask mask_eq_exp_minus_1)

lemma drop_bit_mult_nat: "drop_bit (k * b) (n::nat) = n div (2 ^ b) ^ k"
  by (simp add: drop_bit_eq_div power_mult [symmetric] mult.commute)

lemma div_power_Suc: "(n::nat) div w ^ Suc k = n div w ^ k div w"
  by (simp only: power_Suc2 div_mult2_eq)

lemma digit_recombine: "(n div w ^ Suc k) * w + n div w ^ k mod w = (n::nat) div w ^ k"
  by (simp only: div_power_Suc) (simp add: mult.commute)

lemma digit_of_child:
  assumes "j < (w::nat)" "n div w = q * w + j"
  shows "n div w mod w = j \<and> n div w div w = q"
  using assms by simp

lemma div_eq_mod_eq: "(a::nat) div w = b div w \<Longrightarrow> a mod w = b mod w \<Longrightarrow> a = b"
  by (metis div_mult_mod_eq)

lemma div_less_power: "n < w ^ Suc k \<Longrightarrow> (n::nat) div w ^ Suc k = 0"
  by simp

subsection \<open>Rounding to multiples\<close>

text \<open>Two multiples less than one step apart are equal.\<close>

lemma multiple_le: "(w::nat) dvd x \<Longrightarrow> w dvd y \<Longrightarrow> x < y + w \<Longrightarrow> x \<le> y"
proof (elim dvdE)
  fix p q assume e: "x = w * p" "y = w * q" and l: "x < y + w"
  then have "w * p < w * Suc q" by simp
  then have "p < Suc q" by (rule mult_less_cancel1 [THEN iffD1, THEN conjunct2])
  then show "x \<le> y" using e by simp
qed

lemma multiple_eq: "(w::nat) dvd x \<Longrightarrow> w dvd y \<Longrightarrow> x < y + w \<Longrightarrow> y < x + w \<Longrightarrow> x = y"
  using multiple_le by (metis le_antisym)

lemma round_up_bounds:
  assumes "0 < (w::nat)"
  shows "w dvd (a + (w - 1)) div w * w" "a \<le> (a + (w - 1)) div w * w" "(a + (w - 1)) div w * w < a + w"
proof -
  let ?x = "a + (w - 1)"
  have e: "?x div w * w + ?x mod w = ?x" and l: "?x mod w < w" using assms by simp_all
  show "w dvd ?x div w * w" by simp
  show "a \<le> ?x div w * w" "?x div w * w < a + w" using e l assms by linarith+
qed

lemma round_down_bounds:
  assumes "0 < (w::nat)"
  shows "w dvd b div w * w" "b div w * w \<le> b" "b < b div w * w + w"
proof -
  have e: "b div w * w + b mod w = b" and l: "b mod w < w" using assms by simp_all
  show "w dvd b div w * w" by simp
  show "b div w * w \<le> b" "b < b div w * w + w" using e l by linarith+
qed

end
