(* ===== verification/Bp_Node.thy ===== *)
theory Bp_Node imports
  Prelude
begin

text \<open>
  The nodes of the bit-partitioned trie (\<open>bp_node\<close> of contentious/bp_vector.h) and the store they
  live in. Nodes are shared between vectors through intrusive pointers and written in place, so
  the store is explicit: a map from addresses to nodes with an allocation limit. Reference counts
  only decide when memory is given back; the store never gives any back.

  A null pointer, a union read at the wrong member or an index outside the fixed arrays is
  undefined behaviour of the source; every such access is None here, so a theorem that an
  operation returns Some says that it performs none of them.

  The shape of the store is kept by a typing \<open>T\<close> of addresses with positions, extended by every
  operation: \<open>T a = Some (k, q)\<close> says that the node at \<open>a\<close> is \<open>k\<close> levels above the leaves and covers
  the indices whose quotient by \<open>w ^ (k + 1)\<close> is \<open>q\<close>.
\<close>

section \<open>Constants (contentious/bp_vector_constants.h)\<close>

text \<open>BP_BITS is a compile-time setting (CTTS_BPBITS, 10 when unset) and a parameter here.
  BP_WIDTH and BP_MASK are 16-bit, hence the range of \<open>bits_ok\<close>.\<close>

definition bits_ok :: "nat \<Rightarrow> bool" where
  "bits_ok B \<longleftrightarrow> 0 < B \<and> B < 16"

definition BP_WIDTH :: "nat \<Rightarrow> nat" where
  "BP_WIDTH B = push_bit B 1"

definition BP_MASK :: "nat \<Rightarrow> nat" where
  "BP_MASK B = BP_WIDTH B - 1"

text \<open>The slot of index \<open>i\<close> in a node at shift \<open>s\<close>: \<open>i >> s & BP_MASK\<close>.\<close>

definition slot :: "nat \<Rightarrow> nat \<Rightarrow> nat \<Rightarrow> nat" where
  "slot B i s = (drop_bit s i) AND (BP_MASK B)"

lemma bits_okD: "bits_ok B \<Longrightarrow> 0 < B"
  by (simp add: bits_ok_def)

lemma BP_WIDTH_eq: "BP_WIDTH B = 2 ^ B"
  by (simp add: BP_WIDTH_def push_bit_eq_mult)

lemma BP_WIDTH_pos [simp]: "0 < BP_WIDTH B"
  by (simp add: BP_WIDTH_eq)

lemma BP_WIDTH_neq_0 [simp]: "BP_WIDTH B \<noteq> 0"
  by (simp add: BP_WIDTH_eq)

lemma BP_WIDTH_gt1: "0 < B \<Longrightarrow> 1 < BP_WIDTH B"
  by (simp only: BP_WIDTH_eq one_less_power)

lemma BP_WIDTH_u16: "bits_ok B \<Longrightarrow> BP_WIDTH B < 2 ^ 16"
  by (simp only: BP_WIDTH_eq bits_ok_def power_strict_increasing)

lemma and_BP_MASK: "i AND BP_MASK B = i mod BP_WIDTH B"
  by (simp add: BP_MASK_def BP_WIDTH_eq and_mask_nat [simplified])

lemma slot_level: "slot B i (k * B) = i div BP_WIDTH B ^ k mod BP_WIDTH B"
  by (simp only: slot_def and_BP_MASK drop_bit_mult_nat) (simp add: BP_WIDTH_eq)

lemma slot_less [simp]: "slot B i s < BP_WIDTH B"
  by (simp add: slot_def and_BP_MASK)

lemma index_less [simp]: "i AND BP_MASK B < BP_WIDTH B"
  by (simp add: and_BP_MASK)

section \<open>Nodes\<close>

type_synonym addr = nat

datatype bp_node_t = branches | leaves | uninitialized

text \<open>The union \<open>_u\<close> together with its tag \<open>_u_type\<close>; a branch is a possibly null pointer.\<close>

datatype 'a bp_union =
    U_branches "addr option list"
  | U_leaves "'a list"
  | U_none

record 'a bp_node =
  u :: "'a bp_union"
  nid :: id32

record 'a store =
  cells :: "addr \<Rightarrow> 'a bp_node option"
  fresh :: addr

definition empty_store :: "'a store" where
  "empty_store = \<lparr>cells = (\<lambda>_. None), fresh = 0\<rparr>"

text \<open>The constructor \<open>bp_node(bp_node_t, int32_t)\<close>: the arrays are value-initialised.\<close>

definition new_node :: "nat \<Rightarrow> bp_node_t \<Rightarrow> id32 \<Rightarrow> ('a::zero) bp_node" where
  "new_node B t i =
    \<lparr>u = (case t of
        branches \<Rightarrow> U_branches (replicate (BP_WIDTH B) None)
      | leaves \<Rightarrow> U_leaves (replicate (BP_WIDTH B) 0)
      | uninitialized \<Rightarrow> U_none), nid = i\<rparr>"

text \<open>The copying constructor \<open>bp_node(const bp_node &, int32_t)\<close>.\<close>

definition copy_node :: "'a bp_node \<Rightarrow> id32 \<Rightarrow> 'a bp_node" where
  "copy_node n i = \<lparr>u = u n, nid = i\<rparr>"

definition as_branches :: "'a bp_node \<Rightarrow> addr option list option" where
  "as_branches n = (case u n of U_branches bs \<Rightarrow> Some bs | _ \<Rightarrow> None)"

definition as_leaves :: "'a bp_node \<Rightarrow> 'a list option" where
  "as_leaves n = (case u n of U_leaves xs \<Rightarrow> Some xs | _ \<Rightarrow> None)"

lemma as_branches_Some [simp]: "as_branches n = Some bs \<longleftrightarrow> u n = U_branches bs"
  by (auto simp: as_branches_def split: bp_union.splits)

lemma as_leaves_Some [simp]: "as_leaves n = Some xs \<longleftrightarrow> u n = U_leaves xs"
  by (auto simp: as_leaves_def split: bp_union.splits)

lemma copy_node_sel [simp]: "u (copy_node n i) = u n" "nid (copy_node n i) = i"
  by (simp_all add: copy_node_def)

lemma new_node_sel [simp]:
  "nid (new_node B t i) = i"
  "u (new_node B branches i) = U_branches (replicate (BP_WIDTH B) None)"
  "u (new_node B leaves i) = U_leaves (replicate (BP_WIDTH B) 0)"
  by (simp_all add: new_node_def)

lemma as_copy_node [simp]:
  "as_branches (copy_node n i) = as_branches n" "as_leaves (copy_node n i) = as_leaves n"
  by (simp_all add: as_branches_def as_leaves_def)

section \<open>The store\<close>

definition alloc :: "'a store \<Rightarrow> 'a bp_node \<Rightarrow> addr \<times> 'a store" where
  "alloc h n = (fresh h, h\<lparr>cells := (cells h)(fresh h \<mapsto> n), fresh := Suc (fresh h)\<rparr>)"

definition load_branch :: "'a store \<Rightarrow> addr \<Rightarrow> nat \<Rightarrow> addr option" where
  "load_branch h a j = do {
     n \<leftarrow> cells h a; bs \<leftarrow> as_branches n; p \<leftarrow> nth_opt bs j; p }"

definition store_branch :: "'a store \<Rightarrow> addr \<Rightarrow> nat \<Rightarrow> addr \<Rightarrow> 'a store option" where
  "store_branch h a j c = do {
     n \<leftarrow> cells h a; bs \<leftarrow> as_branches n;
     if j < length bs then Some (h\<lparr>cells := (cells h)(a \<mapsto> n\<lparr>u := U_branches (bs[j := Some c])\<rparr>)\<rparr>)
     else None }"

definition load_leaf :: "'a store \<Rightarrow> addr \<Rightarrow> nat \<Rightarrow> 'a option" where
  "load_leaf h a j = do { n \<leftarrow> cells h a; xs \<leftarrow> as_leaves n; nth_opt xs j }"

definition store_leaf :: "'a store \<Rightarrow> addr \<Rightarrow> nat \<Rightarrow> 'a \<Rightarrow> 'a store option" where
  "store_leaf h a j x = do {
     n \<leftarrow> cells h a; xs \<leftarrow> as_leaves n;
     if j < length xs then Some (h\<lparr>cells := (cells h)(a \<mapsto> n\<lparr>u := U_leaves (xs[j := x])\<rparr>)\<rparr>)
     else None }"

lemma alloc_sel [simp]:
  "fst (alloc h n) = fresh h"
  "cells (snd (alloc h n)) = (cells h)(fresh h \<mapsto> n)"
  "fresh (snd (alloc h n)) = Suc (fresh h)"
  by (simp_all add: alloc_def)

lemma load_branch_Some [store_rules]:
  "load_branch h a j = Some c \<longleftrightarrow>
    (\<exists>n bs. cells h a = Some n \<and> u n = U_branches bs \<and> j < length bs \<and> bs ! j = Some c)"
  by (auto simp: load_branch_def bind_rules)

lemma load_leaf_Some [store_rules]:
  "load_leaf h a j = Some x \<longleftrightarrow>
    (\<exists>n xs. cells h a = Some n \<and> u n = U_leaves xs \<and> j < length xs \<and> xs ! j = x)"
  by (auto simp: load_leaf_def bind_rules)

lemma store_branch_Some [store_rules]:
  "store_branch h a j c = Some h' \<longleftrightarrow>
    (\<exists>n bs. cells h a = Some n \<and> u n = U_branches bs \<and> j < length bs \<and>
      h' = h\<lparr>cells := (cells h)(a \<mapsto> n\<lparr>u := U_branches (bs[j := Some c])\<rparr>)\<rparr>)"
  by (auto simp: store_branch_def bind_rules)

lemma store_leaf_Some [store_rules]:
  "store_leaf h a j x = Some h' \<longleftrightarrow>
    (\<exists>n xs. cells h a = Some n \<and> u n = U_leaves xs \<and> j < length xs \<and>
      h' = h\<lparr>cells := (cells h)(a \<mapsto> n\<lparr>u := U_leaves (xs[j := x])\<rparr>)\<rparr>)"
  by (auto simp: store_leaf_def bind_rules)

text \<open>Reading back after a write.\<close>

lemma load_branch_store_branch:
  "store_branch h a j c = Some h' \<Longrightarrow>
   load_branch h' b m = (if b = a \<and> m = j then Some c else load_branch h b m)"
  by (auto simp: store_rules load_branch_def as_branches_def nth_opt_update)

lemma load_leaf_store_branch: "store_branch h a j c = Some h' \<Longrightarrow> load_leaf h' b m = load_leaf h b m"
  by (auto simp: store_rules load_leaf_def as_leaves_def)

lemma load_leaf_store_leaf:
  "store_leaf h a j x = Some h' \<Longrightarrow>
   load_leaf h' b m = (if b = a \<and> m = j then Some x else load_leaf h b m)"
  by (auto simp: store_rules load_leaf_def as_leaves_def nth_opt_update)

lemma load_branch_store_leaf: "store_leaf h a j x = Some h' \<Longrightarrow> load_branch h' b m = load_branch h b m"
  by (auto simp: store_rules load_branch_def as_branches_def)

lemma cells_store_branch:
  "store_branch h a j c = Some h' \<Longrightarrow> b \<noteq> a \<Longrightarrow> cells h' b = cells h b"
  "store_branch h a j c = Some h' \<Longrightarrow> cells h' b = None \<longleftrightarrow> cells h b = None"
  by (auto simp: store_rules split: if_splits)

lemma cells_store_leaf:
  "store_leaf h a j x = Some h' \<Longrightarrow> b \<noteq> a \<Longrightarrow> cells h' b = cells h b"
  "store_leaf h a j x = Some h' \<Longrightarrow> cells h' b = None \<longleftrightarrow> cells h b = None"
  by (auto simp: store_rules split: if_splits)

lemma load_cong:
  "cells h a = cells h' a \<Longrightarrow> load_branch h a j = load_branch h' a j"
  "cells h a = cells h' a \<Longrightarrow> load_leaf h a j = load_leaf h' a j"
  by (simp_all add: load_branch_def load_leaf_def)

section \<open>Store typing\<close>

type_synonym typing = "addr \<Rightarrow> (nat \<times> nat) option"

definition node_ok :: "nat \<Rightarrow> typing \<Rightarrow> 'a bp_node \<Rightarrow> nat \<Rightarrow> nat \<Rightarrow> bool" where
  "node_ok B T n k q = (case u n of
      U_leaves xs \<Rightarrow> k = 0 \<and> length xs = BP_WIDTH B
    | U_branches bs \<Rightarrow> 0 < k \<and> length bs = BP_WIDTH B \<and>
        (\<forall>j c. j < BP_WIDTH B \<longrightarrow> bs ! j = Some c \<longrightarrow> T c = Some (k - 1, q * BP_WIDTH B + j))
    | U_none \<Rightarrow> False)"

lemma node_ok_0:
  "node_ok B T n 0 q \<longleftrightarrow> (\<exists>xs. u n = U_leaves xs \<and> length xs = BP_WIDTH B)"
  by (cases "u n") (auto simp: node_ok_def)

lemma node_ok_Suc:
  "node_ok B T n (Suc k) q \<longleftrightarrow> (\<exists>bs. u n = U_branches bs \<and> length bs = BP_WIDTH B \<and>
    (\<forall>j c. j < BP_WIDTH B \<longrightarrow> bs ! j = Some c \<longrightarrow> T c = Some (k, q * BP_WIDTH B + j)))"
  by (cases "u n") (auto simp: node_ok_def)

definition store_ok :: "nat \<Rightarrow> typing \<Rightarrow> 'a store \<Rightarrow> bool" where
  "store_ok B T h \<longleftrightarrow>
    (\<forall>a. case cells h a of
        None \<Rightarrow> T a = None
      | Some n \<Rightarrow> (\<exists>k q. T a = Some (k, q) \<and> node_ok B T n k q)) \<and>
    (\<forall>a \<ge> fresh h. cells h a = None)"

definition extends :: "typing \<Rightarrow> typing \<Rightarrow> bool" where
  "extends T T' \<longleftrightarrow> (\<forall>a p. T a = Some p \<longrightarrow> T' a = Some p)"

lemma extends_refl [simp]: "extends T T"
  by (simp add: extends_def)

lemma extends_trans: "extends T T' \<Longrightarrow> extends T' T'' \<Longrightarrow> extends T T''"
  by (simp add: extends_def)

lemma extendsD: "extends T T' \<Longrightarrow> T a = Some p \<Longrightarrow> T' a = Some p"
  unfolding extends_def by blast

lemma store_okD:
  assumes "store_ok B T h" "T a = Some (k, q)"
  shows "\<exists>n. cells h a = Some n \<and> node_ok B T n k q"
proof -
  from assms(1) have "case cells h a of None \<Rightarrow> T a = None
      | Some n \<Rightarrow> (\<exists>k q. T a = Some (k, q) \<and> node_ok B T n k q)"
    unfolding store_ok_def by blast
  with assms(2) show ?thesis by (auto split: option.splits)
qed

lemma store_ok_typed:
  assumes "store_ok B T h" "cells h a = Some n"
  shows "\<exists>k q. T a = Some (k, q) \<and> node_ok B T n k q"
proof -
  from assms(1) have "case cells h a of None \<Rightarrow> T a = None
      | Some n \<Rightarrow> (\<exists>k q. T a = Some (k, q) \<and> node_ok B T n k q)"
    unfolding store_ok_def by blast
  with assms(2) show ?thesis by auto
qed

lemma store_ok_fresh:
  assumes "store_ok B T h"
  shows "cells h (fresh h) = None" "T (fresh h) = None"
proof -
  show f: "cells h (fresh h) = None" using assms by (simp add: store_ok_def)
  from assms have "case cells h (fresh h) of None \<Rightarrow> T (fresh h) = None
      | Some n \<Rightarrow> (\<exists>k q. T (fresh h) = Some (k, q) \<and> node_ok B T n k q)"
    unfolding store_ok_def by blast
  with f show "T (fresh h) = None" by simp
qed

lemma store_ok_leaf:
  assumes "store_ok B T h" "T a = Some (0, q)"
  shows "\<exists>n xs. cells h a = Some n \<and> u n = U_leaves xs \<and> length xs = BP_WIDTH B"
  using store_okD [OF assms] by (auto simp: node_ok_0)

lemma store_ok_branch:
  assumes "store_ok B T h" "T a = Some (Suc k, q)"
  shows "\<exists>n bs. cells h a = Some n \<and> u n = U_branches bs \<and> length bs = BP_WIDTH B \<and>
    (\<forall>j c. j < BP_WIDTH B \<longrightarrow> bs ! j = Some c \<longrightarrow> T c = Some (k, q * BP_WIDTH B + j))"
  using store_okD [OF assms] by (auto simp: node_ok_Suc)

lemma load_branch_typed:
  assumes "store_ok B T h" "T a = Some (Suc k, q)" "load_branch h a j = Some c"
  shows "j < BP_WIDTH B \<and> T c = Some (k, q * BP_WIDTH B + j)"
  using store_ok_branch [OF assms(1,2)] assms(3) by (auto simp: store_rules)

lemma node_ok_mono: "extends T T' \<Longrightarrow> node_ok B T n k q \<Longrightarrow> node_ok B T' n k q"
  by (auto simp: node_ok_def extends_def split: bp_union.splits)

lemma node_ok_cong: "u n = u n' \<Longrightarrow> node_ok B T n k q = node_ok B T n' k q"
  by (simp add: node_ok_def)

lemma store_ok_empty: "store_ok B Map.empty empty_store"
  by (simp add: store_ok_def empty_store_def)

lemma store_ok_alloc:
  assumes "store_ok B T h" "node_ok B T n k q"
  shows "store_ok B (T(fresh h \<mapsto> (k, q))) (snd (alloc h n))" "extends T (T(fresh h \<mapsto> (k, q)))"
proof -
  let ?T = "T(fresh h \<mapsto> (k, q))"
  show e: "extends T ?T"
    using store_ok_fresh [OF assms(1)] by (auto simp: extends_def)
  have "case cells (snd (alloc h n)) a of None \<Rightarrow> ?T a = None
      | Some m \<Rightarrow> (\<exists>k q. ?T a = Some (k, q) \<and> node_ok B ?T m k q)" for a
  proof (cases "a = fresh h")
    case True
    then show ?thesis using node_ok_mono [OF e assms(2)] by simp
  next
    case False
    from assms(1) have "case cells h a of None \<Rightarrow> T a = None
      | Some n \<Rightarrow> (\<exists>k q. T a = Some (k, q) \<and> node_ok B T n k q)"
      unfolding store_ok_def by blast
    with False show ?thesis using node_ok_mono [OF e] by (auto split: option.splits)
  qed
  moreover have "\<forall>a \<ge> fresh (snd (alloc h n)). cells (snd (alloc h n)) a = None"
    using assms(1) by (auto simp: store_ok_def)
  ultimately show "store_ok B ?T (snd (alloc h n))"
    unfolding store_ok_def by blast
qed

text \<open>Replacing a node by one that is well formed at the same position.\<close>

lemma store_ok_replace:
  assumes "store_ok B T h" "T a = Some (k, q)" "node_ok B T n k q"
  shows "store_ok B T (h\<lparr>cells := (cells h)(a \<mapsto> n)\<rparr>)"
proof -
  have "cells h a \<noteq> None" using store_okD [OF assms(1,2)] by auto
  then have "a < fresh h" using assms(1) unfolding store_ok_def by (meson not_le)
  with assms show ?thesis unfolding store_ok_def by auto
qed

lemma store_branch_ok:
  assumes "store_ok B T h" "T a = Some (Suc k, q)" "j < BP_WIDTH B"
    "T c = Some (k, q * BP_WIDTH B + j)"
  shows "\<exists>h'. store_branch h a j c = Some h' \<and> store_ok B T h'"
proof -
  from store_ok_branch [OF assms(1,2)] obtain n bs where
    n: "cells h a = Some n" "u n = U_branches bs" "length bs = BP_WIDTH B"
      "\<forall>j c. j < BP_WIDTH B \<longrightarrow> bs ! j = Some c \<longrightarrow> T c = Some (k, q * BP_WIDTH B + j)"
    by blast
  have "node_ok B T (n\<lparr>u := U_branches (bs[j := Some c])\<rparr>) (Suc k) q"
    using n assms(3,4) by (auto simp: node_ok_def nth_list_update)
  from store_ok_replace [OF assms(1,2) this] n assms(3) show ?thesis
    by (auto simp: store_rules)
qed

lemma store_leaf_ok:
  assumes "store_ok B T h" "T a = Some (0, q)" "j < BP_WIDTH B"
  shows "\<exists>h'. store_leaf h a j x = Some h' \<and> store_ok B T h'"
proof -
  from store_ok_leaf [OF assms(1,2)] obtain n xs where
    n: "cells h a = Some n" "u n = U_leaves xs" "length xs = BP_WIDTH B" by blast
  then have "node_ok B T (n\<lparr>u := U_leaves (xs[j := x])\<rparr>) 0 q"
    by (simp add: node_ok_def)
  from store_ok_replace [OF assms(1,2) this] n assms(3) show ?thesis
    by (auto simp: store_rules)
qed

lemma store_ok_unique: "store_ok B T h \<Longrightarrow> T a = Some p \<Longrightarrow> cells h a \<noteq> None"
  using store_okD by (cases p) fastforce

end
