(* ===== verification/Bp_Store.thy ===== *)
theory Bp_Store imports
  Bp_Node
begin

text \<open>
  The loops that walk a trie from a node towards a leaf, reading (\<open>operator[]\<close>) or copying the
  nodes the running vector may not write (\<open>set\<close>, \<open>push_back\<close>, \<open>mut_set\<close>, the mutable iterators and
  \<open>get_branch\<close> all share this loop), and the view of a trie they are reasoned about with:
  \<open>val B h a k i\<close> is what index \<open>i\<close> reads below the node \<open>a\<close>, \<open>k\<close> levels above the leaves.
\<close>

section \<open>Which nodes a vector may write\<close>

text \<open>The three vector classes differ in \<open>node_copy_impl\<close> only.\<close>

datatype vec_kind = bp_vector | ps_vector | tr_vector

fun node_copy :: "vec_kind \<Rightarrow> id32 \<Rightarrow> id32 \<Rightarrow> bool" where
  "node_copy bp_vector own other = False"
| "node_copy ps_vector own other = True"
| "node_copy tr_vector own other = (own \<noteq> other)"

section \<open>The walks\<close>

text \<open>\<open>for (s = shift; s > 0; s -= BP_BITS) node = node->as_branches()[i >> s & BP_MASK]\<close>.
  A shift that is no multiple of BP_BITS would wrap around below zero; it is undefined here.\<close>

function walk :: "nat \<Rightarrow> 'a store \<Rightarrow> addr \<Rightarrow> nat \<Rightarrow> nat \<Rightarrow> addr option" where
  "walk B h a s i =
    (if s = 0 then Some a
     else if B = 0 \<or> s < B then None
     else do { c \<leftarrow> load_branch h a (slot B i s); walk B h c (s - B) i })"
  by pat_completeness auto
termination by (relation "measure (\<lambda>(B, h, a, s, i). s)") auto

text \<open>One step of the copying loop: \<open>next\<close> is replaced by a copy owned by the vector when the
  vector may not write it.\<close>

definition cow_child ::
    "vec_kind \<Rightarrow> id32 \<Rightarrow> 'a store \<Rightarrow> addr \<Rightarrow> nat \<Rightarrow> (addr \<times> 'a store) option" where
  "cow_child kd own h a j = do {
     c \<leftarrow> load_branch h a j;
     n \<leftarrow> cells h c;
     if node_copy kd own (nid n)
     then (let (c', h') = alloc h (copy_node n own)
           in do { h'' \<leftarrow> store_branch h' a j c'; Some (c', h'') })
     else Some (c, h) }"

definition cow_root ::
    "vec_kind \<Rightarrow> id32 \<Rightarrow> 'a store \<Rightarrow> addr \<Rightarrow> (addr \<times> 'a store) option" where
  "cow_root kd own h r = do {
     n \<leftarrow> cells h r;
     if node_copy kd own (nid n) then Some (alloc h (copy_node n own)) else Some (r, h) }"

text \<open>The copying loop down to the leaf, and the one of \<open>push_back\<close> that stops after
  \<open>depth_ins\<close> levels.\<close>

function cow_walk ::
    "nat \<Rightarrow> vec_kind \<Rightarrow> id32 \<Rightarrow> 'a store \<Rightarrow> addr \<Rightarrow> nat \<Rightarrow> nat \<Rightarrow> (addr \<times> 'a store) option" where
  "cow_walk B kd own h a s i =
    (if s = 0 then Some (a, h)
     else if B = 0 \<or> s < B then None
     else do { (c, h') \<leftarrow> cow_child kd own h a (slot B i s); cow_walk B kd own h' c (s - B) i })"
  by pat_completeness auto
termination by (relation "measure (\<lambda>(B, kd, own, h, a, s, i). s)") auto

fun descend ::
    "nat \<Rightarrow> vec_kind \<Rightarrow> id32 \<Rightarrow> 'a store \<Rightarrow> addr \<Rightarrow> nat \<Rightarrow> nat \<Rightarrow> nat \<Rightarrow>
      (addr \<times> nat \<times> 'a store) option" where
  "descend B kd own h a s i 0 = Some (a, s, h)"
| "descend B kd own h a s i (Suc n) =
    do { (c, h') \<leftarrow> cow_child kd own h a (slot B i s);
         if s < B then None else descend B kd own h' c (s - B) i n }"

declare walk.simps [simp del] cow_walk.simps [simp del]

section \<open>The view of a trie\<close>

primrec node_at :: "nat \<Rightarrow> 'a store \<Rightarrow> addr \<Rightarrow> nat \<Rightarrow> nat \<Rightarrow> nat \<Rightarrow> addr option" where
  "node_at B h a k i 0 = Some a"
| "node_at B h a k i (Suc n) =
    do { b \<leftarrow> node_at B h a k i n; load_branch h b (slot B i ((k - n) * B)) }"

definition val :: "nat \<Rightarrow> 'a store \<Rightarrow> addr \<Rightarrow> nat \<Rightarrow> nat \<Rightarrow> 'a option" where
  "val B h a k i = do { l \<leftarrow> node_at B h a k i k; load_leaf h l (i AND BP_MASK B) }"

lemma node_at_step:
  "node_at B h a (Suc k) i (Suc n) =
    do { c \<leftarrow> load_branch h a (slot B i (Suc k * B)); node_at B h c k i n }"
proof (induction n)
  case 0
  then show ?case by (cases "load_branch h a (slot B i (Suc k * B))") simp_all
next
  case (Suc n)
  have "node_at B h a (Suc k) i (Suc (Suc n)) =
      do { b \<leftarrow> node_at B h a (Suc k) i (Suc n); load_branch h b (slot B i ((k - n) * B)) }"
    by simp
  also have "\<dots> = do { c \<leftarrow> load_branch h a (slot B i (Suc k * B)); node_at B h c k i (Suc n) }"
    by (simp only: Suc.IH) (simp add: Option.bind_assoc)
  finally show ?case .
qed

lemma val_0: "val B h a 0 i = load_leaf h a (i AND BP_MASK B)"
  by (simp add: val_def)

lemma val_Suc:
  "val B h a (Suc k) i = do { c \<leftarrow> load_branch h a (slot B i (Suc k * B)); val B h c k i }"
  unfolding val_def node_at_step by (simp add: Option.bind_assoc)

lemma node_at_add:
  "n + m \<le> k \<Longrightarrow>
   node_at B h a k i (n + m) = do { b \<leftarrow> node_at B h a k i n; node_at B h b (k - n) i m }"
proof (induction m)
  case (Suc m)
  then have "k - (n + m) = k - n - m" by simp
  with Suc show ?case by (simp add: Option.bind_assoc)
qed simp

lemma walk_0 [simp]: "walk B h a 0 i = Some a"
  by (simp add: walk.simps)

lemma walk_step:
  "0 < B \<Longrightarrow> walk B h a (Suc k * B) i =
    do { c \<leftarrow> load_branch h a (slot B i (Suc k * B)); walk B h c (k * B) i }"
  by (subst walk.simps) simp

lemma walk_node_at: "0 < B \<Longrightarrow> walk B h a (k * B) i = node_at B h a k i k"
proof (induction k arbitrary: a)
  case (Suc k)
  then show ?case by (simp only: walk_step node_at_step)
qed simp

lemma walk_val:
  "0 < B \<Longrightarrow> do { l \<leftarrow> walk B h a (k * B) i; load_leaf h l (i AND BP_MASK B) } = val B h a k i"
  by (simp add: walk_node_at val_def)

lemma cow_walk_descend:
  "0 < B \<Longrightarrow> cow_walk B kd own h a (k * B) i =
    map_option (\<lambda>(a, s, h). (a, h)) (descend B kd own h a (k * B) i k)"
proof (induction k arbitrary: a h)
  case 0
  then show ?case by (simp add: cow_walk.simps)
next
  case (Suc k)
  show ?case
    apply (subst cow_walk.simps)
    using Suc by (cases "cow_child kd own h a (slot B i (Suc k * B))") auto
qed

text \<open>A path only depends on the digits it reads.\<close>

lemma slot_cong:
  "i div BP_WIDTH B ^ k = i' div BP_WIDTH B ^ k \<Longrightarrow> slot B i (k * B) = slot B i' (k * B)"
  by (simp add: slot_level)

lemma div_power_mono:
  assumes "(i::nat) div w ^ k = i' div w ^ k" "k \<le> m"
  shows "i div w ^ m = i' div w ^ m"
proof -
  from assms(2) obtain d where "m = k + d" using le_Suc_ex by blast
  with assms(1) show ?thesis by (simp add: power_add div_mult2_eq)
qed

lemma node_at_cong:
  assumes "n \<le> k" "i div BP_WIDTH B ^ Suc (k - n) = i' div BP_WIDTH B ^ Suc (k - n)"
  shows "node_at B h a k i n = node_at B h a k i' n"
  using assms
proof (induction n)
  case (Suc n)
  have e: "Suc (k - Suc n) = k - n" using Suc.prems(1) by simp
  have "i div BP_WIDTH B ^ Suc (k - n) = i' div BP_WIDTH B ^ Suc (k - n)"
    by (rule div_power_mono [OF Suc.prems(2)]) (simp add: e)
  with Suc have "node_at B h a k i n = node_at B h a k i' n" by simp
  moreover have "slot B i ((k - n) * B) = slot B i' ((k - n) * B)"
    using slot_cong [of i B "k - n" i'] Suc.prems(2) e by simp
  ultimately show ?case by simp
qed simp

section \<open>Positions of the nodes on a path\<close>

lemma child_position:
  assumes "store_ok B T h" "T a = Some (Suc k, q)" "q = i div BP_WIDTH B ^ Suc (Suc k)"
    "load_branch h a (slot B i (Suc k * B)) = Some c"
  shows "T c = Some (k, i div BP_WIDTH B ^ Suc k)"
  using load_branch_typed [OF assms(1,2,4)] assms(3) digit_recombine [of i "BP_WIDTH B" "Suc k"]
  by (simp only: slot_level)

lemma node_at_position:
  assumes "store_ok B T h" "T a = Some (k, q)" "q = i div BP_WIDTH B ^ Suc k"
    "node_at B h a k i n = Some b" "n \<le> k"
  shows "T b = Some (k - n, i div BP_WIDTH B ^ Suc (k - n))"
  using assms(4,5)
proof (induction n arbitrary: b)
  case 0
  with assms(2,3) show ?case by simp
next
  case (Suc n)
  then obtain c where c: "node_at B h a k i n = Some c"
    "load_branch h c (slot B i ((k - n) * B)) = Some b" by (auto simp: bind_rules)
  obtain m where m: "k - n = Suc m" "k - Suc n = m" using Suc.prems(2) by (cases "k - n") auto
  from Suc.IH [OF c(1)] Suc.prems(2) have "T c = Some (k - n, i div BP_WIDTH B ^ Suc (k - n))"
    by simp
  with child_position [OF assms(1), of c m _ i b] c(2) m show ?case by simp
qed

section \<open>What an operation may write\<close>

text \<open>Relative to the store \<open>h0\<close> an operation started from: \<open>protected\<close> nodes are the ones it has to
  copy, everything else (its own nodes, the ones it allocated) is \<open>writable\<close>.\<close>

definition protected :: "vec_kind \<Rightarrow> id32 \<Rightarrow> 'a store \<Rightarrow> addr \<Rightarrow> bool" where
  "protected kd own h0 a \<longleftrightarrow> (\<exists>n. cells h0 a = Some n \<and> node_copy kd own (nid n))"

definition keeps :: "vec_kind \<Rightarrow> id32 \<Rightarrow> 'a store \<Rightarrow> 'a store \<Rightarrow> bool" where
  "keeps kd own h0 h \<longleftrightarrow>
    (\<forall>a. protected kd own h0 a \<longrightarrow> cells h a = cells h0 a) \<and>
    (\<forall>a n. cells h0 a = Some n \<longrightarrow> (\<exists>m. cells h a = Some m \<and> nid m = nid n)) \<and>
    (\<forall>a m. cells h0 a = None \<longrightarrow> cells h a = Some m \<longrightarrow> nid m = own)"

definition same_view :: "nat \<Rightarrow> 'a store \<Rightarrow> 'a store \<Rightarrow> bool" where
  "same_view B h h' \<longleftrightarrow> (\<forall>a k i. cells h a \<noteq> None \<longrightarrow> cells h' a \<noteq> None \<and> val B h' a k i = val B h a k i)"

lemma keeps_refl [simp]: "keeps kd own h h"
  by (auto simp: keeps_def)

lemma keeps_protected: "keeps kd own h0 h \<Longrightarrow> protected kd own h0 a \<Longrightarrow> cells h a = cells h0 a"
  by (simp add: keeps_def)

lemma keeps_dom: "keeps kd own h0 h \<Longrightarrow> cells h0 a = Some n \<Longrightarrow> \<exists>m. cells h a = Some m \<and> nid m = nid n"
  unfolding keeps_def by blast

lemma keeps_None: "keeps kd own h0 h \<Longrightarrow> cells h a = None \<Longrightarrow> cells h0 a = None"
  using keeps_dom by (metis not_Some_eq option.distinct(1))

lemma keeps_trans:
  assumes "keeps kd own h0 h" "keeps kd own h h'"
  shows "keeps kd own h0 h'"
proof -
  have "cells h' a = cells h0 a" if p: "protected kd own h0 a" for a
  proof -
    have e: "cells h a = cells h0 a" using keeps_protected [OF assms(1) p] .
    then have "protected kd own h a" using p by (auto simp: protected_def)
    then show ?thesis using keeps_protected [OF assms(2)] e by simp
  qed
  moreover have "\<exists>m. cells h' a = Some m \<and> nid m = nid n" if "cells h0 a = Some n" for a n
    using keeps_dom [OF assms(1) that] keeps_dom [OF assms(2)] by metis
  moreover have "nid m = own" if "cells h0 a = None" "cells h' a = Some m" for a m
  proof (cases "cells h a")
    case None
    then show ?thesis using that(2) assms(2) by (simp add: keeps_def)
  next
    case (Some n)
    then have "nid n = own" using that(1) assms(1) by (simp add: keeps_def)
    with Some that(2) show ?thesis using keeps_dom [OF assms(2) Some] by auto
  qed
  ultimately show ?thesis unfolding keeps_def by blast
qed

lemma same_view_refl [simp]: "same_view B h h"
  by (simp add: same_view_def)

lemma same_view_trans: "same_view B h h' \<Longrightarrow> same_view B h' h'' \<Longrightarrow> same_view B h h''"
  by (simp add: same_view_def)

lemma keeps_alloc:
  assumes "keeps kd own h0 h" "store_ok B T h" "nid n = own"
  shows "keeps kd own h0 (snd (alloc h n))" "\<not> protected kd own h0 (fresh h)"
proof -
  have f: "cells h0 (fresh h) = None"
    using keeps_None [OF assms(1)] store_ok_fresh [OF assms(2)] by simp
  then show np: "\<not> protected kd own h0 (fresh h)" by (simp add: protected_def)
  have "cells (snd (alloc h n)) a = cells h0 a" if "protected kd own h0 a" for a
    using that np keeps_protected [OF assms(1) that] by auto
  moreover have "\<exists>m. cells (snd (alloc h n)) a = Some m \<and> nid m = nid n'"
    if "cells h0 a = Some n'" for a n'
    using that f keeps_dom [OF assms(1) that] by auto
  moreover have "nid m = own" if "cells h0 a = None" "cells (snd (alloc h n)) a = Some m" for a m
    using that assms(1,3) by (cases "a = fresh h") (simp_all add: keeps_def)
  ultimately show "keeps kd own h0 (snd (alloc h n))" unfolding keeps_def by blast
qed

text \<open>Overwriting the union of a writable node keeps its id, hence the frame.\<close>

lemma keeps_write:
  assumes "keeps kd own h0 h" "\<not> protected kd own h0 a" "cells h a = Some n" "nid n' = nid n"
  shows "keeps kd own h0 (h\<lparr>cells := (cells h)(a \<mapsto> n')\<rparr>)"
  using assms unfolding keeps_def
  by (auto 0 4)

lemma keeps_store_branch:
  "keeps kd own h0 h \<Longrightarrow> \<not> protected kd own h0 a \<Longrightarrow> store_branch h a j c = Some h' \<Longrightarrow>
   keeps kd own h0 h'"
  by (auto simp: store_rules intro: keeps_write)

lemma keeps_store_leaf:
  "keeps kd own h0 h \<Longrightarrow> \<not> protected kd own h0 a \<Longrightarrow> store_leaf h a j x = Some h' \<Longrightarrow>
   keeps kd own h0 h'"
  by (auto simp: store_rules intro: keeps_write)

section \<open>Views under single writes\<close>

lemma same_view_alloc:
  assumes "store_ok B T h"
  shows "same_view B h (snd (alloc h n))"
proof -
  have "val B (snd (alloc h n)) a k i = val B h a k i" if "cells h a \<noteq> None" for a k i
    using that
  proof (induction k arbitrary: a)
    case 0
    then show ?case
      using store_ok_fresh [OF assms] by (auto simp: val_0 intro!: load_cong)
  next
    case (Suc k)
    have l: "load_branch (snd (alloc h n)) a j = load_branch h a j" for j
      using Suc.prems store_ok_fresh [OF assms] by (intro load_cong) auto
    show ?case
    proof (cases "load_branch h a (slot B i (Suc k * B))")
      case None
      with l show ?thesis by (simp add: val_Suc)
    next
      case (Some c)
      obtain k' q where "T a = Some (k', q)"
        using store_ok_typed [OF assms] Suc.prems by fastforce
      moreover obtain k'' where "k' = Suc k''"
        using store_okD [OF assms calculation] Some
        by (cases k') (auto simp: store_rules node_ok_0)
      ultimately have "cells h c \<noteq> None"
        using load_branch_typed [OF assms _ Some] store_ok_unique [OF assms] by blast
      with Suc.IH l Some show ?thesis by (simp add: val_Suc)
    qed
  qed
  then show ?thesis
    using store_ok_fresh [OF assms] by (auto simp: same_view_def)
qed

text \<open>Redirecting a branch to a node that reads the same does not change any view.\<close>

lemma same_view_store_branch:
  assumes "store_branch h a j c' = Some h'" "load_branch h a j = Some c"
    "u (the (cells h c')) = u (the (cells h c))" "cells h c' \<noteq> None" "cells h c \<noteq> None"
    "c \<noteq> a" "c' \<noteq> a"
  shows "same_view B h h'"
proof -
  have cc: "load_branch h c' m = load_branch h c m" "load_leaf h c' m = load_leaf h c m" for m
    using assms(3,4,5)
    by (auto simp: load_branch_def load_leaf_def as_branches_def as_leaves_def)
  have vc: "val B h c' k i = val B h c k i" for k i
    by (cases k) (simp_all add: val_0 val_Suc cc)
  have "val B h' b k i = val B h b k i" for b k i
  proof (induction k arbitrary: b)
    case 0
    show ?case by (simp add: val_0 load_leaf_store_branch [OF assms(1)])
  next
    case (Suc k)
    show ?case
    proof (cases "b = a \<and> slot B i (Suc k * B) = j")
      case True
      with Suc assms(2) show ?thesis
        by (simp add: val_Suc load_branch_store_branch [OF assms(1)] vc)
    next
      case False
      then have "load_branch h' b (slot B i (Suc k * B)) = load_branch h b (slot B i (Suc k * B))"
        by (auto simp: load_branch_store_branch [OF assms(1)])
      with Suc show ?thesis by (simp add: val_Suc)
    qed
  qed
  moreover have "cells h' b \<noteq> None" if "cells h b \<noteq> None" for b
    using that cells_store_branch(2) [OF assms(1)] by simp
  ultimately show ?thesis by (simp add: same_view_def)
qed

text \<open>Writing a value of a leaf is seen exactly on the paths that end in this leaf.\<close>

lemma node_at_store_leaf:
  "store_leaf h l j x = Some h' \<Longrightarrow> node_at B h' a k i n = node_at B h a k i n"
  by (induction n) (simp_all add: load_branch_store_leaf)

lemma val_store_leaf:
  assumes "store_leaf h l j x = Some h'"
  shows "val B h' a k i =
    (if node_at B h a k i k = Some l \<and> i AND BP_MASK B = j then Some x else val B h a k i)"
  unfolding val_def node_at_store_leaf [OF assms]
  by (cases "node_at B h a k i k") (auto simp: load_leaf_store_leaf [OF assms])

section \<open>The copying steps\<close>

text \<open>What every copying step guarantees: started in \<open>h\<close> on behalf of an operation that began in
  \<open>h0\<close>, the result store is well typed by an extension of the typing, every view is as before, no
  protected node is touched and no node above level \<open>k\<close> is.\<close>

definition cow_result ::
    "nat \<Rightarrow> vec_kind \<Rightarrow> id32 \<Rightarrow> 'a store \<Rightarrow> typing \<Rightarrow> 'a store \<Rightarrow> nat \<Rightarrow> typing \<Rightarrow> 'a store \<Rightarrow> bool" where
  "cow_result B kd own h0 T h k T' h' \<longleftrightarrow>
    store_ok B T' h' \<and> extends T T' \<and> keeps kd own h0 h' \<and> same_view B h h' \<and>
    (\<forall>b m q. T b = Some (m, q) \<longrightarrow> k < m \<longrightarrow> cells h' b = cells h b)"

lemma cow_resultD:
  assumes "cow_result B kd own h0 T h k T' h'"
  shows "store_ok B T' h'" "extends T T'" "keeps kd own h0 h'" "same_view B h h'"
    "\<And>b m q. T b = Some (m, q) \<Longrightarrow> k < m \<Longrightarrow> cells h' b = cells h b"
  using assms unfolding cow_result_def by blast+

lemma cow_result_refl:
  "store_ok B T h \<Longrightarrow> keeps kd own h0 h \<Longrightarrow> cow_result B kd own h0 T h k T h"
  by (simp add: cow_result_def)

lemma cow_result_trans:
  assumes "cow_result B kd own h0 T h k T' h'" "cow_result B kd own h0 T' h' k' T'' h''" "k' \<le> k"
  shows "cow_result B kd own h0 T h k T'' h''"
proof -
  have "cells h'' b = cells h b" if "T b = Some (m, q)" "k < m" for b m q
    using cow_resultD(5) [OF assms(1) that]
      cow_resultD(5) [OF assms(2) extendsD [OF cow_resultD(2) [OF assms(1)] that(1)]] that(2) assms(3)
    by simp
  then show ?thesis
    using assms(1,2) extends_trans same_view_trans unfolding cow_result_def by blast
qed

lemma cow_child_ok:
  assumes ok: "store_ok B T h" "keeps kd own h0 h"
    and a: "T a = Some (Suc k, q)" "\<not> protected kd own h0 a"
    and c: "load_branch h a j = Some c"
  shows "\<exists>c' h' T'. cow_child kd own h a j = Some (c', h') \<and>
    cow_result B kd own h0 T h (Suc k) T' h' \<and>
    T' c' = Some (k, q * BP_WIDTH B + j) \<and> \<not> protected kd own h0 c' \<and>
    load_branch h' a j = Some c'"
proof -
  have tc: "j < BP_WIDTH B" "T c = Some (k, q * BP_WIDTH B + j)"
    using load_branch_typed [OF ok(1) a(1) c] by auto
  obtain n where n: "cells h c = Some n" "node_ok B T n k (q * BP_WIDTH B + j)"
    using store_okD [OF ok(1) tc(2)] by blast
  show ?thesis
  proof (cases "node_copy kd own (nid n)")
    case False
    have "\<not> protected kd own h0 c"
      using False n(1) keeps_dom [OF ok(2)] by (fastforce simp: protected_def)
    with False show ?thesis
      using c n tc cow_result_refl [OF ok] by (auto simp: cow_child_def)
  next
    case True
    let ?n = "copy_node n own" and ?f = "fresh h"
    let ?h1 = "snd (alloc h ?n)" and ?T = "T(fresh h \<mapsto> (k, q * BP_WIDTH B + j))"
    have f: "cells h ?f = None" "T ?f = None" using store_ok_fresh [OF ok(1)] by auto
    have ok1: "store_ok B ?T ?h1" "extends T ?T"
      using store_ok_alloc [OF ok(1), of ?n] n(2) node_ok_cong [of ?n n] by auto
    have k1: "keeps kd own h0 ?h1" "\<not> protected kd own h0 ?f"
      using keeps_alloc [OF ok(2,1), of ?n] by auto
    have na: "a \<noteq> ?f" "a \<noteq> c" using a(1) f(2) tc(2) by auto
    have c1: "load_branch ?h1 a j = Some c" using c na load_cong [of ?h1 a h] by simp
    obtain h2 where h2: "store_branch ?h1 a j ?f = Some h2" "store_ok B ?T h2"
      using store_branch_ok [OF ok1(1), of a k q j ?f] a(1) na tc(1) by auto
    have "same_view B ?h1 h2"
      using same_view_store_branch [OF h2(1) c1] n(1) na f by auto
    then have v: "same_view B h h2"
      using same_view_trans [OF same_view_alloc [OF ok(1)]] by blast
    have "cells h2 b = cells h b" if "T b = Some (m, r)" "Suc k < m" for b m r
    proof -
      have "b \<noteq> a" "b \<noteq> ?f" using that a(1) f(2) by auto
      then show ?thesis using cells_store_branch(1) [OF h2(1), of b] by simp
    qed
    then have "cow_result B kd own h0 T h (Suc k) ?T h2"
      unfolding cow_result_def
      using h2(2) ok1(2) v keeps_store_branch [OF k1(1) a(2) h2(1)] by auto
    moreover have "cow_child kd own h a j = Some (?f, h2)"
      using True c n(1) h2(1) by (simp add: cow_child_def alloc_def)
    moreover have "load_branch h2 a j = Some ?f"
      by (simp add: load_branch_store_branch [OF h2(1)])
    ultimately show ?thesis using k1(2) by auto
  qed
qed

lemma cow_root_ok:
  assumes ok: "store_ok B T h" "keeps kd own h0 h" and r: "T r = Some (k, q)"
  shows "\<exists>r' h' T'. cow_root kd own h r = Some (r', h') \<and>
    cow_result B kd own h0 T h m T' h' \<and> T' r' = Some (k, q) \<and> \<not> protected kd own h0 r' \<and>
    (\<forall>j i. val B h' r' j i = val B h r j i)"
proof -
  obtain n where n: "cells h r = Some n" "node_ok B T n k q" using store_okD [OF ok(1) r] by blast
  show ?thesis
  proof (cases "node_copy kd own (nid n)")
    case False
    have "\<not> protected kd own h0 r"
      using False n(1) keeps_dom [OF ok(2)] by (fastforce simp: protected_def)
    with False show ?thesis
      using n r cow_result_refl [OF ok] by (auto simp: cow_root_def)
  next
    case True
    let ?n = "copy_node n own" and ?f = "fresh h"
    let ?h1 = "snd (alloc h ?n)"
    have f: "cells h ?f = None" "T ?f = None" using store_ok_fresh [OF ok(1)] by auto
    have ok1: "store_ok B (T(?f \<mapsto> (k, q))) ?h1" "extends T (T(?f \<mapsto> (k, q)))"
      using store_ok_alloc [OF ok(1), of ?n] n(2) node_ok_cong [of ?n n] by auto
    have v: "same_view B h ?h1" by (rule same_view_alloc [OF ok(1)])
    have l: "load_branch ?h1 ?f j = load_branch ?h1 r j" "load_leaf ?h1 ?f j = load_leaf ?h1 r j" for j
      using n(1) f by (auto simp: load_branch_def load_leaf_def as_branches_def as_leaves_def)
    have "val B ?h1 ?f j i = val B ?h1 r j i" for j i
      by (cases j) (simp_all add: val_0 val_Suc l)
    then have "val B ?h1 ?f j i = val B h r j i" for j i
      using v n(1) by (simp add: same_view_def)
    moreover have "cow_result B kd own h0 T h m (T(?f \<mapsto> (k, q))) ?h1"
      unfolding cow_result_def using ok1 v keeps_alloc(1) [OF ok(2,1), of ?n] f(2) by auto
    moreover have "cow_root kd own h r = Some (?f, ?h1)"
      using True n(1) by (simp add: cow_root_def alloc_def)
    ultimately show ?thesis using keeps_alloc(2) [OF ok(2,1), of ?n] by auto
  qed
qed

text \<open>Paths above the level a step works at stay as they are.\<close>

lemma node_at_above:
  assumes "store_ok B T h" "T a = Some (k, q)" "q = i div BP_WIDTH B ^ Suc k"
    "node_at B h a k i n = Some b" "n \<le> k"
    "\<And>b m q. T b = Some (m, q) \<Longrightarrow> k - n < m \<Longrightarrow> cells h' b = cells h b"
  shows "node_at B h' a k i n = Some b"
proof -
  have "node_at B h' a k i d = node_at B h a k i d" if "d \<le> n" for d
    using that
  proof (induction d)
    case (Suc d)
    obtain c where c: "node_at B h a k i d = Some c"
    proof -
      have "n = d + (n - d)" using Suc.prems by simp
      then have "node_at B h a k i (d + (n - d)) = Some b" using assms(4) by simp
      then have "Option.bind (node_at B h a k i d) (\<lambda>b. node_at B h b (k - d) i (n - d)) = Some b"
        using node_at_add [of d "n - d" k B h a i] assms(5) Suc.prems by simp
      then obtain c where "node_at B h a k i d = Some c" by (cases "node_at B h a k i d") simp_all
      then show ?thesis by (rule that)
    qed
    have "T c = Some (k - d, i div BP_WIDTH B ^ Suc (k - d))"
      using node_at_position [OF assms(1-3) c] Suc.prems assms(5) by simp
    moreover have "k - n < k - d" using Suc.prems assms(5) by simp
    ultimately have "cells h' c = cells h c" using assms(6) by blast
    then have "load_branch h' c j = load_branch h c j" for j by (rule load_cong)
    with c Suc show ?case by simp
  qed simp
  with assms(4) show ?thesis by simp
qed

lemma descend_ok:
  assumes "store_ok B T h" "keeps kd own h0 h"
    and "T a = Some (k, q)" "q = i div BP_WIDTH B ^ Suc k" "\<not> protected kd own h0 a"
    and "val B h a k i' \<noteq> None" "i' div BP_WIDTH B ^ Suc (k - n) = i div BP_WIDTH B ^ Suc (k - n)"
    and "n \<le> k"
  shows "\<exists>b h' T'. descend B kd own h a (k * B) i n = Some (b, (k - n) * B, h') \<and>
    cow_result B kd own h0 T h k T' h' \<and>
    T' b = Some (k - n, i div BP_WIDTH B ^ Suc (k - n)) \<and> \<not> protected kd own h0 b \<and>
    node_at B h' a k i n = Some b"
  using assms
proof (induction n arbitrary: a k q h T)
  case 0
  then show ?case using cow_result_refl by fastforce
next
  case (Suc n)
  then obtain m where m: "k = Suc m" by (cases k) auto
  let ?j = "slot B i (k * B)"
  have dg: "i' div BP_WIDTH B ^ k = i div BP_WIDTH B ^ k"
    using div_power_mono [OF Suc.prems(7), of k] Suc.prems(8) by (simp add: Suc_diff_Suc)
  then have sl: "slot B i' (k * B) = ?j" by (rule slot_cong)
  with Suc.prems(6) m obtain c where c: "load_branch h a ?j = Some c"
    by (cases "load_branch h a ?j") (auto simp: val_Suc)
  obtain c' h1 T1 where s: "cow_child kd own h a ?j = Some (c', h1)"
    "cow_result B kd own h0 T h k T1 h1" "T1 c' = Some (m, q * BP_WIDTH B + ?j)"
    "\<not> protected kd own h0 c'" "load_branch h1 a ?j = Some c'"
    using cow_child_ok [OF Suc.prems(1,2), of a m q ?j c] Suc.prems(3,5) c m by auto
  have a1: "T1 a = Some (Suc m, q)"
    using extendsD [OF cow_resultD(2) [OF s(2)] Suc.prems(3)] m by simp
  have tc': "T1 c' = Some (m, i div BP_WIDTH B ^ Suc m)"
    using child_position [OF cow_resultD(1) [OF s(2)] a1 _ ] Suc.prems(4) s(5) m by simp
  have "cells h a \<noteq> None" using store_ok_unique [OF Suc.prems(1,3)] .
  then have "val B h1 a k i' \<noteq> None"
    using Suc.prems(6) cow_resultD(4) [OF s(2)] by (simp add: same_view_def)
  then have reach: "val B h1 c' m i' \<noteq> None"
    using s(5) sl m by (simp add: val_Suc)
  obtain b h2 T2 where d: "descend B kd own h1 c' (m * B) i n = Some (b, (m - n) * B, h2)"
    "cow_result B kd own h0 T1 h1 m T2 h2"
    "T2 b = Some (m - n, i div BP_WIDTH B ^ Suc (m - n))" "\<not> protected kd own h0 b"
    "node_at B h2 c' m i n = Some b"
    using Suc.IH [OF cow_resultD(1,3) [OF s(2)] tc' refl s(4) reach] Suc.prems(7,8) m by auto
  have "cells h2 a = cells h1 a" using cow_resultD(5) [OF d(2) a1] by simp
  then have "load_branch h2 a ?j = Some c'" using s(5) load_cong(1) by metis
  then have "node_at B h2 a k i (Suc n) = Some b"
    using d(5) unfolding m node_at_step by simp
  moreover have "descend B kd own h a (k * B) i (Suc n) = Some (b, (k - Suc n) * B, h2)"
    using s(1) d(1) m by simp
  moreover have "cow_result B kd own h0 T h k T2 h2"
    using cow_result_trans [OF s(2) d(2)] m by simp
  ultimately show ?case using d(3,4) m by auto
qed

end
