(* ===== verification/Bp_Vector.thy ===== *)
theory Bp_Vector imports
  Bp_Store
begin

text \<open>
  \<open>bp_vector_base\<close> (contentious/bp_vector.h, contentious/bp_vector_base-impl.h): the vector record,
  element access, \<open>set\<close> and \<open>push_back\<close>, shared by the three vector classes, which differ in
  \<open>node_copy\<close> only. \<open>vec_ok\<close> is the well-formedness of one vector in a well-typed store and
  \<open>vlist\<close> the list of values it holds; the theorems say what each operation does to that list and to
  the lists of all the other vectors of the store.
\<close>

section \<open>The vector\<close>

record vec =
  sz :: nat
  shift :: nat
  root :: addr
  vid :: id32

definition calc_depth :: "nat \<Rightarrow> vec \<Rightarrow> nat" where
  "calc_depth B v = shift v div B + 1"

definition capacity :: "nat \<Rightarrow> vec \<Rightarrow> nat" where
  "capacity B v = BP_WIDTH B ^ calc_depth B v"

text \<open>The constructor \<open>bp_vector_base(int32_t)\<close>; the default constructor is the one with id 0.\<close>

definition new_vec :: "nat \<Rightarrow> id32 \<Rightarrow> ('a::zero) store \<Rightarrow> vec \<times> 'a store" where
  "new_vec B i h = (let (r, h') = alloc h (new_node B leaves i)
    in (\<lparr>sz = 0, shift = 0, root = r, vid = i\<rparr>, h'))"

text \<open>\<open>operator[]\<close>: unchecked access.\<close>

definition vget :: "nat \<Rightarrow> 'a store \<Rightarrow> vec \<Rightarrow> nat \<Rightarrow> 'a option" where
  "vget B h v i = do {
     l \<leftarrow> walk B h (root v) (shift v) i;
     load_leaf h l (i AND BP_MASK B) }"

datatype vec_error = Out_of_range nat nat | Undefined

definition vat :: "nat \<Rightarrow> 'a store \<Rightarrow> vec \<Rightarrow> nat \<Rightarrow> vec_error + 'a" where
  "vat B h v i =
    (if sz v \<le> i then Inl (Out_of_range (sz v) i)
     else case vget B h v i of None \<Rightarrow> Inl Undefined | Some x \<Rightarrow> Inr x)"

section \<open>set\<close>

definition vset ::
    "nat \<Rightarrow> vec_kind \<Rightarrow> 'a store \<Rightarrow> vec \<Rightarrow> nat \<Rightarrow> 'a \<Rightarrow> (vec \<times> 'a store) option" where
  "vset B kd h v i x = do {
     (r, h1) \<leftarrow> cow_root kd (vid v) h (root v);
     (l, h2) \<leftarrow> cow_walk B kd (vid v) h1 r (shift v) i;
     h3 \<leftarrow> store_leaf h2 l (i AND BP_MASK B) x;
     Some (v\<lparr>root := r\<rparr>, h3) }"

section \<open>push\_back\<close>

text \<open>\<open>while (sz & (depth_cap-1)) { ++depth_ins; depth_cap >>= BP_BITS; }\<close>. With \<open>depth_cap\<close> 0 the
  mask would be all ones and the loop would not end; the loop never gets there from a power of the
  width.\<close>

function depth_loop :: "nat \<Rightarrow> nat \<Rightarrow> int \<Rightarrow> nat \<Rightarrow> int option" where
  "depth_loop B n ins cap =
    (if cap = 0 \<or> B = 0 then None
     else if n AND (cap - 1) \<noteq> 0 then depth_loop B n (ins + 1) (drop_bit B cap)
     else Some ins)"
  by pat_completeness auto
termination
  by (relation "measure (\<lambda>(B, n, ins, cap). cap)")
    (auto simp: drop_bit_eq_div intro!: div_less_dividend BP_WIDTH_gt1 [unfolded BP_WIDTH_eq])

declare depth_loop.simps [simp del]

text \<open>The last loop of \<open>push_back\<close>: fresh nodes from \<open>node\<close> down to a new leaf.\<close>

function grow ::
    "nat \<Rightarrow> id32 \<Rightarrow> ('a::zero) store \<Rightarrow> addr \<Rightarrow> nat \<Rightarrow> nat \<Rightarrow> (addr \<times> 'a store) option" where
  "grow B own h a s i =
    (if s = 0 then Some (a, h)
     else if B = 0 \<or> s < B then None
     else if B < s then
       (let (c, h1) = alloc h (new_node B branches own)
        in do { h2 \<leftarrow> store_branch h1 a (slot B i s) c; grow B own h2 c (s - B) i })
     else
       (let (c, h1) = alloc h (new_node B leaves own)
        in do { h2 \<leftarrow> store_branch h1 a (slot B i s) c; Some (c, h2) }))"
  by pat_completeness auto
termination by (relation "measure (\<lambda>(B, own, h, a, s, i). s)") auto

declare grow.simps [simp del]

text \<open>\<open>ret.shift += BP_BITS\<close> and the new root over the old one.\<close>

definition rotate_root ::
    "nat \<Rightarrow> id32 \<Rightarrow> ('a::zero) store \<Rightarrow> addr \<Rightarrow> (addr \<times> 'a store) option" where
  "rotate_root B own h r =
    (let (t, h1) = alloc h (new_node B branches own)
     in do { h2 \<leftarrow> store_branch h1 t 0 r; Some (t, h2) })"

text \<open>The choice of the depth, the new root of a full trie, and the walk to the node under which
  the path of the new index leaves the trie: the result is the new root and shift, that node and
  its shift.\<close>

definition push_descend ::
    "nat \<Rightarrow> vec_kind \<Rightarrow> id32 \<Rightarrow> ('a::zero) store \<Rightarrow> vec \<Rightarrow>
      (addr \<times> nat \<times> addr \<times> nat \<times> 'a store) option" where
  "push_descend B kd own h v = do {
     ins \<leftarrow> depth_loop B (sz v) (-1) (capacity B v);
     (r1, h1) \<leftarrow> cow_root kd own h (root v);
     (r2, s2, h2) \<leftarrow>
       (if ins = -1 then do { (t, h2) \<leftarrow> rotate_root B own h1 r1; Some (t, shift v + B, h2) }
        else Some (r1, shift v, h1));
     (a, s, h3) \<leftarrow> descend B kd own h2 r2 s2 (sz v) (nat ins);
     Some (r2, s2, a, s, h3) }"

text \<open>The part of \<open>push_back\<close> that constructs nodes and adds the value. The vector classes' own
  \<open>mut_push_back\<close> repeat this code.\<close>

definition push_new ::
    "nat \<Rightarrow> vec_kind \<Rightarrow> id32 \<Rightarrow> ('a::zero) store \<Rightarrow> vec \<Rightarrow> 'a \<Rightarrow> (vec \<times> 'a store) option" where
  "push_new B kd own h v x = do {
     (r, s, a, t, h1) \<leftarrow> push_descend B kd own h v;
     (l, h2) \<leftarrow> grow B own h1 a t (sz v);
     h3 \<leftarrow> store_leaf h2 l (sz v AND BP_MASK B) x;
     Some (v\<lparr>sz := Suc (sz v), shift := s, root := r\<rparr>, h3) }"

definition push_back ::
    "nat \<Rightarrow> vec_kind \<Rightarrow> ('a::zero) store \<Rightarrow> vec \<Rightarrow> 'a \<Rightarrow> (vec \<times> 'a store) option" where
  "push_back B kd h v x =
    (if sz v AND BP_MASK B \<noteq> 0
     then do { (r, h') \<leftarrow> vset B kd h v (sz v) x; Some (r\<lparr>sz := Suc (sz r)\<rparr>, h') }
     else push_new B kd (vid v) h v x)"

section \<open>Well-formed vectors and the list they hold\<close>

definition vec_ok :: "nat \<Rightarrow> typing \<Rightarrow> 'a store \<Rightarrow> vec \<Rightarrow> bool" where
  "vec_ok B T h v \<longleftrightarrow> (\<exists>K. shift v = K * B \<and> T (root v) = Some (K, 0) \<and>
     sz v \<le> BP_WIDTH B ^ Suc K \<and> (\<forall>i < sz v. val B h (root v) K i \<noteq> None))"

definition vlist :: "nat \<Rightarrow> 'a store \<Rightarrow> vec \<Rightarrow> 'a list" where
  "vlist B h v = map (\<lambda>i. the (vget B h v i)) [0..<sz v]"

lemma length_vlist [simp]: "length (vlist B h v) = sz v"
  by (simp add: vlist_def)

lemma vget_val: "0 < B \<Longrightarrow> shift v = K * B \<Longrightarrow> vget B h v i = val B h (root v) K i"
  by (simp add: vget_def walk_val)

lemma vlist_val:
  "0 < B \<Longrightarrow> shift v = K * B \<Longrightarrow> vlist B h v = map (\<lambda>i. the (val B h (root v) K i)) [0..<sz v]"
  by (simp add: vlist_def vget_val)

lemma vec_ok_get:
  assumes "0 < B" "vec_ok B T h v" "i < sz v"
  shows "vget B h v i = Some (vlist B h v ! i)"
proof -
  from assms(2) obtain K where "shift v = K * B" "\<forall>i < sz v. val B h (root v) K i \<noteq> None"
    by (auto simp: vec_ok_def)
  with assms(1,3) have "vget B h v i \<noteq> None" by (simp add: vget_val)
  with assms(3) show ?thesis by (auto simp: vlist_def)
qed

lemma capacity_eq: "0 < B \<Longrightarrow> shift v = K * B \<Longrightarrow> capacity B v = BP_WIDTH B ^ Suc K"
  by (simp add: capacity_def calc_depth_def)

text \<open>The vectors an operation must not disturb: on their live paths it may write no node.\<close>

primrec guarded :: "nat \<Rightarrow> vec_kind \<Rightarrow> id32 \<Rightarrow> 'a store \<Rightarrow> addr \<Rightarrow> nat \<Rightarrow> nat \<Rightarrow> bool" where
  "guarded B kd own h a 0 i = protected kd own h a"
| "guarded B kd own h a (Suc k) i = (protected kd own h a \<and>
    (case load_branch h a (slot B i (Suc k * B)) of
       None \<Rightarrow> True | Some c \<Rightarrow> guarded B kd own h c k i))"

definition unshared :: "nat \<Rightarrow> vec_kind \<Rightarrow> id32 \<Rightarrow> 'a store \<Rightarrow> vec \<Rightarrow> bool" where
  "unshared B kd own h w \<longleftrightarrow> (\<forall>i < sz w. guarded B kd own h (root w) (shift w div B) i)"

lemma guarded_val:
  "keeps kd own h h' \<Longrightarrow> guarded B kd own h a k i \<Longrightarrow> val B h' a k i = val B h a k i"
proof (induction k arbitrary: a)
  case 0
  then have "cells h' a = cells h a" by (simp add: keeps_protected)
  then show ?case by (auto simp: val_0 intro: load_cong)
next
  case (Suc k)
  then have "cells h' a = cells h a" by (simp add: keeps_protected)
  then have "load_branch h' a j = load_branch h a j" for j by (rule load_cong)
  with Suc show ?case by (cases "load_branch h a (slot B i (Suc k * B))") (simp_all add: val_Suc)
qed

lemma guarded_ps:
  "val B h a k i \<noteq> None \<Longrightarrow> guarded B ps_vector own h a k i"
proof (induction k arbitrary: a)
  case 0
  then show ?case by (cases "cells h a") (auto simp: val_0 load_leaf_def protected_def)
next
  case (Suc k)
  then have "protected ps_vector own h a"
    by (cases "cells h a") (auto simp: val_Suc load_branch_def protected_def)
  with Suc show ?case by (auto simp: val_Suc split: option.splits)
qed

lemma unshared_ps: "0 < B \<Longrightarrow> vec_ok B T h w \<Longrightarrow> unshared B ps_vector own h w"
  by (auto simp: unshared_def vec_ok_def intro!: guarded_ps)

text \<open>The frame every operation inherits: undisturbed vectors keep their list.\<close>

lemma unshared_frame:
  assumes "0 < B" "vec_ok B T h w" "unshared B kd own h w" "keeps kd own h h'" "extends T T'"
  shows "vec_ok B T' h' w" "vlist B h' w = vlist B h w"
proof -
  from assms(2) obtain K where K: "shift w = K * B" "T (root w) = Some (K, 0)"
     "sz w \<le> BP_WIDTH B ^ Suc K" "\<forall>i < sz w. val B h (root w) K i \<noteq> None"
    by (auto simp: vec_ok_def)
  have v: "val B h' (root w) K i = val B h (root w) K i" if "i < sz w" for i
    using that assms(1,3) K(1) guarded_val [OF assms(4)] by (simp add: unshared_def)
  with K extendsD [OF assms(5) K(2)] show "vec_ok B T' h' w" by (auto simp: vec_ok_def)
  show "vlist B h' w = vlist B h w"
    using v assms(1) K(1) by (auto simp: vlist_def vget_val)
qed

section \<open>set writes one index\<close>

lemma leaf_index:
  assumes "i' div BP_WIDTH B = i div BP_WIDTH B" "i' AND BP_MASK B = i AND BP_MASK B"
  shows "i' = i"
  using div_eq_mod_eq [OF assms(1)] assms(2) by (simp add: and_BP_MASK)

text \<open>The write through an already reached leaf, seen from the root above it.\<close>

lemma leaf_write_view:
  assumes "store_ok B T h" "T r = Some (K, 0)" "i < BP_WIDTH B ^ Suc K"
    and "node_at B h r K i K = Some l" "store_leaf h l (i AND BP_MASK B) x = Some h'"
    and "i' < BP_WIDTH B ^ Suc K"
  shows "val B h' r K i' = (if i' = i then Some x else val B h r K i')"
proof (cases "i' = i")
  case True
  with assms(4) show ?thesis by (simp add: val_store_leaf [OF assms(5)])
next
  case False
  have tl: "T l = Some (0, i div BP_WIDTH B)"
    using node_at_position [OF assms(1,2) _ assms(4)] assms(3) by simp
  have "\<not> (node_at B h r K i' K = Some l \<and> i' AND BP_MASK B = i AND BP_MASK B)"
  proof
    assume a: "node_at B h r K i' K = Some l \<and> i' AND BP_MASK B = i AND BP_MASK B"
    then have "T l = Some (0, i' div BP_WIDTH B)"
      using node_at_position [OF assms(1,2), of i' K l] assms(6) by simp
    with tl have "i' div BP_WIDTH B = i div BP_WIDTH B" by simp
    with a have "i' = i" using leaf_index by blast
    with False show False by simp
  qed
  with False show ?thesis by (simp only: val_store_leaf [OF assms(5)] if_False)
qed

text \<open>The set loop from a writable root: \<open>i'\<close> is any index of the same leaf that is present.\<close>

lemma cow_walk_write:
  assumes B: "0 < B" and ok: "store_ok B T h" "keeps kd own h0 h"
    and r: "T r = Some (K, 0)" "\<not> protected kd own h0 r" and i: "i < BP_WIDTH B ^ Suc K"
    and p: "val B h r K i' \<noteq> None" "i' div BP_WIDTH B = i div BP_WIDTH B"
  shows "\<exists>l h1 h' T'. cow_walk B kd own h r (K * B) i = Some (l, h1) \<and>
    store_leaf h1 l (i AND BP_MASK B) x = Some h' \<and> store_ok B T' h' \<and> extends T T' \<and>
    keeps kd own h0 h' \<and>
    (\<forall>i' < BP_WIDTH B ^ Suc K. val B h' r K i' = (if i' = i then Some x else val B h r K i'))"
proof -
  have q: "0 = i div BP_WIDTH B ^ Suc K" using i by simp
  obtain l h1 T1 where d: "descend B kd own h r (K * B) i K = Some (l, (K - K) * B, h1)"
    "cow_result B kd own h0 T h K T1 h1" "T1 l = Some (0, i div BP_WIDTH B)"
    "\<not> protected kd own h0 l" "node_at B h1 r K i K = Some l"
    using descend_ok [OF ok r(1) q r(2) p(1), of K] p(2) by auto
  have r1: "T1 r = Some (K, 0)" using extendsD [OF cow_resultD(2) [OF d(2)] r(1)] .
  obtain h' where h': "store_leaf h1 l (i AND BP_MASK B) x = Some h'" "store_ok B T1 h'"
    using store_leaf_ok [OF cow_resultD(1) [OF d(2)] d(3) index_less] by blast
  have "val B h1 r K j = val B h r K j" for j
    using cow_resultD(4) [OF d(2)] store_ok_unique [OF ok(1) r(1)] by (simp add: same_view_def)
  then have "\<forall>i' < BP_WIDTH B ^ Suc K. val B h' r K i' = (if i' = i then Some x else val B h r K i')"
    using leaf_write_view [OF cow_resultD(1) [OF d(2)] r1 i d(5) h'(1)] by simp
  moreover have "keeps kd own h0 h'"
    using keeps_store_leaf [OF cow_resultD(3) [OF d(2)] d(4) h'(1)] .
  ultimately show ?thesis
    using d(1) cow_resultD(2) [OF d(2)] h' by (auto simp: cow_walk_descend [OF B])
qed

lemma vset_ok:
  assumes B: "0 < B" and ok: "store_ok B T h"
    and v: "shift v = K * B" "T (root v) = Some (K, 0)" and i: "i < BP_WIDTH B ^ Suc K"
    and p: "val B h (root v) K i' \<noteq> None" "i' div BP_WIDTH B = i div BP_WIDTH B"
  shows "\<exists>r h' T'. vset B kd h v i x = Some (v\<lparr>root := r\<rparr>, h') \<and> store_ok B T' h' \<and>
    extends T T' \<and> keeps kd (vid v) h h' \<and> T' r = Some (K, 0) \<and>
    (\<forall>j < BP_WIDTH B ^ Suc K. val B h' r K j = (if j = i then Some x else val B h (root v) K j))"
proof -
  obtain r h1 T1 where c: "cow_root kd (vid v) h (root v) = Some (r, h1)"
    "cow_result B kd (vid v) h T h K T1 h1" "T1 r = Some (K, 0)" "\<not> protected kd (vid v) h r"
    "\<forall>j i. val B h1 r j i = val B h (root v) j i"
    using cow_root_ok [OF ok keeps_refl v(2)] by blast
  obtain l h2 h' T' where w: "cow_walk B kd (vid v) h1 r (K * B) i = Some (l, h2)"
    "store_leaf h2 l (i AND BP_MASK B) x = Some h'" "store_ok B T' h'" "extends T1 T'"
    "keeps kd (vid v) h h'"
    "\<forall>j < BP_WIDTH B ^ Suc K. val B h' r K j = (if j = i then Some x else val B h1 r K j)"
    using cow_walk_write [OF B cow_resultD(1,3) [OF c(2)] c(3,4) i _ p(2)] p(1) c(5) by metis
  have "vset B kd h v i x = Some (v\<lparr>root := r\<rparr>, h')"
    using c(1) w(1,2) v(1) by (simp add: vset_def)
  moreover have "extends T T'" using extends_trans [OF cow_resultD(2) [OF c(2)] w(4)] .
  moreover have "T' r = Some (K, 0)" using extendsD [OF w(4) c(3)] .
  ultimately show ?thesis
    using w(3,5,6) c(5) by (intro exI [of _ r] exI [of _ h'] exI [of _ T']) simp
qed

text \<open>\<open>set\<close> within the vector: the new version holds the updated list.\<close>

lemma vset_list:
  assumes B: "0 < B" and ok: "store_ok B T h" "vec_ok B T h v" and i: "i < sz v"
  shows "\<exists>v' h' T'. vset B kd h v i x = Some (v', h') \<and> store_ok B T' h' \<and> extends T T' \<and>
    keeps kd (vid v) h h' \<and> vec_ok B T' h' v' \<and> vlist B h' v' = (vlist B h v)[i := x] \<and>
    sz v' = sz v \<and> vid v' = vid v"
proof -
  from ok(2) obtain K where K: "shift v = K * B" "T (root v) = Some (K, 0)"
     "sz v \<le> BP_WIDTH B ^ Suc K" "\<forall>i < sz v. val B h (root v) K i \<noteq> None"
    by (auto simp: vec_ok_def)
  obtain r h' T' where s: "vset B kd h v i x = Some (v\<lparr>root := r\<rparr>, h')" "store_ok B T' h'"
    "extends T T'" "keeps kd (vid v) h h'" "T' r = Some (K, 0)"
    "\<forall>j < BP_WIDTH B ^ Suc K. val B h' r K j = (if j = i then Some x else val B h (root v) K j)"
    using vset_ok [OF B ok(1) K(1,2), of i i kd x] K(3,4) i by auto
  have vals: "val B h' r K j = (if j = i then Some x else val B h (root v) K j)" if "j < sz v" for j
    using s(6) that K(3) by simp
  then have "vec_ok B T' h' (v\<lparr>root := r\<rparr>)"
    using K s(5) by (auto simp: vec_ok_def)
  moreover have "vlist B h' (v\<lparr>root := r\<rparr>) = (vlist B h v)[i := x]"
    using vals i K(1) vlist_val [OF B, of "v\<lparr>root := r\<rparr>" K h'] vlist_val [OF B K(1), of h]
    by (auto simp: nth_list_update intro!: nth_equalityI)
  ultimately show ?thesis using s by auto
qed

end
