(* ===== verification/Bp_Push.thy ===== *)
theory Bp_Push imports
  Bp_Vector
begin

text \<open>
  Correctness of the node-constructing half of \<open>push_back\<close>: the depth loop finds the level at which
  the path of the new index leaves the existing trie, the copying walk goes down to that level, and
  the last loop builds the missing nodes without touching any index below the old size.
\<close>

section \<open>The depth loop\<close>

lemma depth_loop_ok:
  assumes "0 < B"
  shows "\<exists>k \<le> m. depth_loop B n ins (BP_WIDTH B ^ m) = Some (ins + int (m - k)) \<and>
    BP_WIDTH B ^ k dvd n \<and> (k = m \<or> \<not> BP_WIDTH B ^ Suc k dvd n)"
proof (induction m arbitrary: ins)
  case 0
  show ?case by (subst depth_loop.simps) (simp add: assms)
next
  case (Suc m)
  have mask: "n AND (BP_WIDTH B ^ Suc m - 1) = n mod BP_WIDTH B ^ Suc m"
    using and_mask_nat [of n "B * Suc m"] by (simp only: BP_WIDTH_eq power_mult)
  have drop: "drop_bit B (BP_WIDTH B ^ Suc m) = BP_WIDTH B ^ m"
    by (simp add: BP_WIDTH_eq drop_bit_eq_div)
  have pos: "BP_WIDTH B ^ Suc m \<noteq> 0" by (simp only: power_eq_0_iff) simp
  show ?case
  proof (cases "n mod BP_WIDTH B ^ Suc m = 0")
    case True
    with assms have "depth_loop B n ins (BP_WIDTH B ^ Suc m) = Some ins"
      by (subst depth_loop.simps) (simp only: mask pos, simp)
    with True show ?thesis by (intro exI [of _ "Suc m"]) (simp add: mod_0_imp_dvd)
  next
    case False
    with assms have
      "depth_loop B n ins (BP_WIDTH B ^ Suc m) = depth_loop B n (ins + 1) (BP_WIDTH B ^ m)"
      by (subst depth_loop.simps) (simp only: mask pos drop, simp)
    moreover obtain k where "k \<le> m"
      "depth_loop B n (ins + 1) (BP_WIDTH B ^ m) = Some (ins + 1 + int (m - k))"
      "BP_WIDTH B ^ k dvd n" "k = m \<or> \<not> BP_WIDTH B ^ Suc k dvd n"
      using Suc.IH [of "ins + 1"] by blast
    moreover have "\<not> BP_WIDTH B ^ Suc m dvd n" using False by (simp add: dvd_eq_mod_eq_0)
    ultimately show ?thesis by (intro exI [of _ k]) (auto simp: Suc_diff_le)
  qed
qed

section \<open>Constructing the missing nodes\<close>

text \<open>Redirecting the branch of index \<open>i\<close> is only seen by the indices below that branch.\<close>

lemma store_branch_view:
  assumes "store_ok B T h" "T a = Some (Suc k, i div BP_WIDTH B ^ Suc (Suc k))"
    and "store_branch h a (slot B i (Suc k * B)) c = Some h'"
    and "i' div BP_WIDTH B ^ Suc k \<noteq> i div BP_WIDTH B ^ Suc k"
    and "T b = Some (m, i' div BP_WIDTH B ^ Suc m)"
  shows "val B h' b m i' = val B h b m i'"
  using assms(5)
proof (induction m arbitrary: b)
  case 0
  show ?case by (simp add: val_0 load_leaf_store_branch [OF assms(3)])
next
  case (Suc m)
  have "\<not> (b = a \<and> slot B i' (Suc m * B) = slot B i (Suc k * B))"
  proof
    assume e: "b = a \<and> slot B i' (Suc m * B) = slot B i (Suc k * B)"
    with Suc.prems assms(2) have m: "m = k"
      "i' div BP_WIDTH B ^ Suc (Suc k) = i div BP_WIDTH B ^ Suc (Suc k)" by auto
    with e have "i' div BP_WIDTH B ^ Suc k mod BP_WIDTH B = i div BP_WIDTH B ^ Suc k mod BP_WIDTH B"
      by (simp only: slot_level)
    with m(2) have "i' div BP_WIDTH B ^ Suc k = i div BP_WIDTH B ^ Suc k"
      using digit_recombine [of i "BP_WIDTH B" "Suc k"] digit_recombine [of i' "BP_WIDTH B" "Suc k"]
      by metis
    with assms(4) show False by simp
  qed
  then have l: "load_branch h' b (slot B i' (Suc m * B)) = load_branch h b (slot B i' (Suc m * B))"
    by (simp only: load_branch_store_branch [OF assms(3)] if_False)
  show ?case
  proof (cases "load_branch h b (slot B i' (Suc m * B))")
    case None
    with l show ?thesis by (simp only: val_Suc bind.bind_lzero)
  next
    case (Some d)
    have "T d = Some (m, i' div BP_WIDTH B ^ Suc m)"
      using child_position [OF assms(1) Suc.prems _ Some] by simp
    with l Some Suc.IH show ?thesis by (simp only: val_Suc bind.bind_lunit)
  qed
qed

lemma grow_step:
  assumes "0 < B"
  shows "grow B own h a (Suc k * B) i =
    (let (c, h1) = alloc h (new_node B (if k = 0 then leaves else branches) own)
     in do { h2 \<leftarrow> store_branch h1 a (slot B i (Suc k * B)) c; grow B own h2 c (k * B) i })"
proof (cases "k = 0")
  case True
  with assms show ?thesis
    by (subst grow.simps) (simp add: grow.simps [of B own _ _ 0])
next
  case False
  with assms have "B < Suc k * B" "\<not> Suc k * B < B" "Suc k * B - B = k * B" by auto
  with False assms show ?thesis by (subst grow.simps) (simp del: mult_Suc)
qed

text \<open>Level \<open>k\<close> of the start decides which indices may change: those that share the quotient by
  \<open>w ^ k\<close> with the new one, none when the start is a leaf.\<close>

definition grown ::
    "nat \<Rightarrow> typing \<Rightarrow> 'a store \<Rightarrow> nat \<Rightarrow> nat \<Rightarrow> 'a store \<Rightarrow> bool" where
  "grown B T h k i h' \<longleftrightarrow>
    (\<forall>b m q. T b = Some (m, q) \<longrightarrow> k < m \<longrightarrow> cells h' b = cells h b) \<and>
    (\<forall>b m i'. T b = Some (m, i' div BP_WIDTH B ^ Suc m) \<longrightarrow>
      (k = 0 \<or> i' div BP_WIDTH B ^ k \<noteq> i div BP_WIDTH B ^ k) \<longrightarrow> val B h' b m i' = val B h b m i')"

lemma new_node_ok: "node_ok B T (new_node B (if k = 0 then leaves else branches) i) k q"
  by (cases k) (auto simp: node_ok_0 node_ok_Suc)

lemma grow_first_step:
  assumes "store_ok B T h" "keeps kd own h0 h"
    and "T a = Some (Suc k, i div BP_WIDTH B ^ Suc (Suc k))" "\<not> protected kd own h0 a"
    and c: "alloc h (new_node B (if k = 0 then leaves else branches) own) = (c, h1)"
  shows "\<exists>h2 T2. store_branch h1 a (slot B i (Suc k * B)) c = Some h2 \<and> store_ok B T2 h2 \<and>
    extends T T2 \<and> keeps kd own h0 h2 \<and> T2 c = Some (k, i div BP_WIDTH B ^ Suc k) \<and>
    \<not> protected kd own h0 c \<and> load_branch h2 a (slot B i (Suc k * B)) = Some c \<and>
    grown B T h (Suc k) i h2"
proof -
  let ?n = "new_node B (if k = 0 then leaves else branches) own"
  let ?j = "slot B i (Suc k * B)" and ?q = "i div BP_WIDTH B ^ Suc k"
  let ?T = "T(fresh h \<mapsto> (k, ?q))"
  have c1: "c = fresh h" "h1 = snd (alloc h ?n)" using c by (auto simp: alloc_def)
  have ok1: "store_ok B ?T h1" "extends T ?T"
    using store_ok_alloc [OF assms(1) new_node_ok] c1 by auto
  have k1: "keeps kd own h0 h1" "\<not> protected kd own h0 c"
    using keeps_alloc [OF assms(2,1), of ?n] c1 by auto
  have ac: "a \<noteq> c" "T c = None" using assms(3) store_ok_fresh [OF assms(1)] c1 by auto
  have "?T c = Some (k, i div BP_WIDTH B ^ Suc (Suc k) * BP_WIDTH B + ?j)"
    using c1 digit_recombine [of i "BP_WIDTH B" "Suc k"] by (simp only: slot_level) simp
  then obtain h2 where h2: "store_branch h1 a ?j c = Some h2" "store_ok B ?T h2"
    using store_branch_ok [OF ok1(1) extendsD [OF ok1(2) assms(3)] slot_less] by blast
  have v1: "same_view B h h1" using same_view_alloc [OF assms(1)] c1 by simp
  have "cells h2 b = cells h b" if "T b = Some (m, q)" "Suc k < m" for b m q
  proof -
    have "b \<noteq> a" "b \<noteq> c" using that assms(3) ac by auto
    then show ?thesis using cells_store_branch(1) [OF h2(1)] c1 by simp
  qed
  moreover have "val B h2 b m i' = val B h b m i'"
    if b: "T b = Some (m, i' div BP_WIDTH B ^ Suc m)" "i' div BP_WIDTH B ^ Suc k \<noteq> ?q" for b m i'
  proof -
    have "val B h2 b m i' = val B h1 b m i'"
      using store_branch_view [OF ok1(1) extendsD [OF ok1(2) assms(3)] h2(1) b(2)
          extendsD [OF ok1(2) b(1)]] .
    also have "\<dots> = val B h b m i'"
      using v1 store_ok_unique [OF assms(1) b(1)] by (simp add: same_view_def)
    finally show ?thesis .
  qed
  ultimately have "grown B T h (Suc k) i h2" unfolding grown_def by blast
  then show ?thesis
    using h2 ok1(2) keeps_store_branch [OF k1(1) assms(4) h2(1)] k1(2) c1
    by (intro exI [of _ h2] exI [of _ ?T]) (simp add: load_branch_store_branch [OF h2(1)])
qed

lemma grown_trans:
  assumes "grown B T h (Suc k) i h2" "extends T T2" "grown B T2 h2 k i h'"
  shows "grown B T h (Suc k) i h'"
proof -
  have "cells h' b = cells h b" if "T b = Some (m, q)" "Suc k < m" for b m q
    using assms(1,3) that extendsD [OF assms(2) that(1)] unfolding grown_def
    by (metis Suc_lessD)
  moreover have "val B h' b m i' = val B h b m i'"
    if b: "T b = Some (m, i' div BP_WIDTH B ^ Suc m)"
      "i' div BP_WIDTH B ^ Suc k \<noteq> i div BP_WIDTH B ^ Suc k" for b m i'
  proof -
    have "i' div BP_WIDTH B ^ k \<noteq> i div BP_WIDTH B ^ k"
      using b(2) div_power_mono [of i' "BP_WIDTH B" k i "Suc k"] by auto
    then have "val B h' b m i' = val B h2 b m i'"
      using assms(3) extendsD [OF assms(2) b(1)] unfolding grown_def by blast
    also have "\<dots> = val B h b m i'" using assms(1) b unfolding grown_def by blast
    finally show ?thesis .
  qed
  ultimately show ?thesis unfolding grown_def by blast
qed

lemma grow_ok:
  assumes "0 < B" "store_ok B T h" "keeps kd own h0 h"
    and "T a = Some (k, i div BP_WIDTH B ^ Suc k)" "\<not> protected kd own h0 a"
  shows "\<exists>l h' T'. grow B own h a (k * B) i = Some (l, h') \<and> store_ok B T' h' \<and> extends T T' \<and>
    keeps kd own h0 h' \<and> T' l = Some (0, i div BP_WIDTH B) \<and> \<not> protected kd own h0 l \<and>
    node_at B h' a k i k = Some l \<and> grown B T h k i h'"
  using assms(2-)
proof (induction k arbitrary: a h T)
  case 0
  then show ?case
    by (intro exI [of _ a] exI [of _ h] exI [of _ T]) (simp add: grow.simps grown_def)
next
  case (Suc k)
  obtain c h1 where c: "alloc h (new_node B (if k = 0 then leaves else branches) own) = (c, h1)"
    by fastforce
  let ?j = "slot B i (Suc k * B)"
  obtain h2 T2 where s: "store_branch h1 a ?j c = Some h2" "store_ok B T2 h2" "extends T T2"
    "keeps kd own h0 h2" "T2 c = Some (k, i div BP_WIDTH B ^ Suc k)" "\<not> protected kd own h0 c"
    "load_branch h2 a ?j = Some c" "grown B T h (Suc k) i h2"
    using grow_first_step [OF Suc.prems c] by blast
  obtain l h' T' where g: "grow B own h2 c (k * B) i = Some (l, h')" "store_ok B T' h'"
    "extends T2 T'" "keeps kd own h0 h'" "T' l = Some (0, i div BP_WIDTH B)"
    "\<not> protected kd own h0 l" "node_at B h' c k i k = Some l" "grown B T2 h2 k i h'"
    using Suc.IH [OF s(2,4,5,6)] by blast
  have "cells h' a = cells h2 a"
    using g(8) extendsD [OF s(3) Suc.prems(3)] unfolding grown_def by blast
  then have "load_branch h' a ?j = Some c" using s(7) load_cong(1) by metis
  then have "node_at B h' a (Suc k) i (Suc k) = Some l" using g(7) unfolding node_at_step by simp
  moreover have "grow B own h a (Suc k * B) i = Some (l, h')"
    using c s(1) g(1) unfolding grow_step [OF assms(1)] by simp
  ultimately show ?case
    using g extends_trans [OF s(3) g(3)] grown_trans [OF s(8,3) g(8)] by blast
qed

section \<open>From the turning point to the written value\<close>

lemma multiple_quotient_less:
  assumes "(0::nat) < w" "w dvd n" "j < n"
  shows "j div w \<noteq> n div w"
proof -
  obtain m where m: "n = m * w" using assms(2) by (metis dvdE mult.commute)
  have "j div w < m" using assms(3) m by (simp add: less_mult_imp_div_less)
  with m assms(1) show ?thesis by simp
qed

lemma push_tail:
  assumes B: "0 < B" and ok: "store_ok B T h" "keeps kd own h0 h"
    and r: "T r = Some (K, 0)" and n: "n < BP_WIDTH B ^ Suc K" "BP_WIDTH B ^ k dvd n"
    and k: "1 \<le> k" "k \<le> K"
    and a: "T a = Some (k, n div BP_WIDTH B ^ Suc k)" "\<not> protected kd own h0 a"
      "node_at B h r K n (K - k) = Some a"
  shows "\<exists>l h4 h5 T'. grow B own h a (k * B) n = Some (l, h4) \<and>
    store_leaf h4 l (n AND BP_MASK B) x = Some h5 \<and> store_ok B T' h5 \<and> extends T T' \<and>
    keeps kd own h0 h5 \<and> T' r = Some (K, 0) \<and> val B h5 r K n = Some x \<and>
    (\<forall>j < n. val B h5 r K j = val B h r K j)"
proof -
  obtain l h4 T' where g: "grow B own h a (k * B) n = Some (l, h4)" "store_ok B T' h4"
    "extends T T'" "keeps kd own h0 h4" "T' l = Some (0, n div BP_WIDTH B)"
    "\<not> protected kd own h0 l" "node_at B h4 a k n k = Some l" "grown B T h k n h4"
    using grow_ok [OF B ok a(1,2)] by blast
  have q: "0 = n div BP_WIDTH B ^ Suc K" using n(1) by simp
  have "node_at B h4 r K n (K - k) = Some a"
  proof (rule node_at_above [OF ok(1) r q a(3)])
    show "K - k \<le> K" by simp
    show "cells h4 b = cells h b" if "T b = Some (m, q)" "K - (K - k) < m" for b m q
      using g(8) that k(2) unfolding grown_def by fastforce
  qed
  then have p: "node_at B h4 r K n K = Some l"
    using node_at_add [of "K - k" k K B h4 r n] g(7) k(2) by simp
  obtain h5 where w: "store_leaf h4 l (n AND BP_MASK B) x = Some h5" "store_ok B T' h5"
    using store_leaf_ok [OF g(2,5) index_less] by blast
  have r': "T' r = Some (K, 0)" using extendsD [OF g(3) r] .
  note view = leaf_write_view [OF g(2) r' n(1) p w(1)]
  have "val B h5 r K j = val B h r K j" if j: "j < n" for j
  proof -
    have "j < BP_WIDTH B ^ Suc K" using j n(1) by simp
    moreover from this have "j div BP_WIDTH B ^ Suc K = 0" by simp
    moreover have "j div BP_WIDTH B ^ k \<noteq> n div BP_WIDTH B ^ k"
      using multiple_quotient_less [OF _ n(2) j] by simp
    ultimately show ?thesis
      using view [of j] j g(8) r unfolding grown_def by auto
  qed
  moreover have "val B h5 r K n = Some x" using view [OF n(1)] by simp
  ultimately show ?thesis
    using g(1,3) w r' keeps_store_leaf [OF g(4,6) w(1)] by blast
qed

section \<open>A full trie gets a new root\<close>

lemma val_below:
  assumes "store_ok B T h" "T b = Some (m, q)"
    and "\<And>c n q. T c = Some (n, q) \<Longrightarrow> n \<le> m \<Longrightarrow> cells h' c = cells h c"
  shows "val B h' b m i = val B h b m i"
  using assms(2,3)
proof (induction m arbitrary: b q)
  case 0
  then have "cells h' b = cells h b" by blast
  then show ?case by (auto simp: val_0 intro: load_cong)
next
  case (Suc m)
  then have "cells h' b = cells h b" by blast
  then have l: "load_branch h' b j = load_branch h b j" for j by (rule load_cong)
  show ?case
  proof (cases "load_branch h b (slot B i (Suc m * B))")
    case None
    with l show ?thesis by (simp add: val_Suc)
  next
    case (Some c)
    then have "T c = Some (m, q * BP_WIDTH B + slot B i (Suc m * B))"
      using load_branch_typed [OF assms(1) Suc.prems(1)] by blast
    with Suc.IH Suc.prems(2) l Some show ?thesis by (simp add: val_Suc)
  qed
qed

lemma rotate_root_ok:
  assumes B: "0 < B" and ok: "store_ok B T h" "keeps kd own h0 h" and r: "T r = Some (K, 0)"
  shows "\<exists>t h' T'. rotate_root B own h r = Some (t, h') \<and> store_ok B T' h' \<and> extends T T' \<and>
    keeps kd own h0 h' \<and> T' t = Some (Suc K, 0) \<and> \<not> protected kd own h0 t \<and>
    (\<forall>j < BP_WIDTH B ^ Suc K. val B h' t (Suc K) j = val B h r K j)"
proof -
  let ?n = "new_node B branches own" and ?t = "fresh h"
  let ?h1 = "snd (alloc h ?n)" and ?T = "T(fresh h \<mapsto> (Suc K, 0))"
  have ok1: "store_ok B ?T ?h1" "extends T ?T"
    using store_ok_alloc [OF ok(1), of ?n "Suc K" 0] new_node_ok [of B T "Suc K" own 0] by auto
  have k1: "keeps kd own h0 ?h1" "\<not> protected kd own h0 ?t"
    using keeps_alloc [OF ok(2,1), of ?n] by auto
  have t1: "?T ?t = Some (Suc K, 0)" by simp
  have r1: "?T r = Some (K, 0 * BP_WIDTH B + 0)" using extendsD [OF ok1(2) r] by simp
  obtain h2 where h2: "store_branch ?h1 ?t 0 r = Some h2" "store_ok B ?T h2"
    using store_branch_ok [OF ok1(1) t1 BP_WIDTH_pos r1] by blast
  have "val B h2 ?t (Suc K) j = val B h r K j" if j: "j < BP_WIDTH B ^ Suc K" for j
  proof -
    have jq: "j div BP_WIDTH B ^ Suc K = 0" using j by simp
    have "slot B j (Suc K * B) = 0" using jq by (simp only: slot_level) simp
    then have "val B h2 ?t (Suc K) j = val B h2 r K j"
      by (simp add: val_Suc load_branch_store_branch [OF h2(1)])
    also have "\<dots> = val B ?h1 r K j"
    proof (rule val_below [OF ok1(1) r1])
      show "cells h2 c = cells ?h1 c" if "?T c = Some (m, q)" "m \<le> K" for c m q
        using that by (intro cells_store_branch(1) [OF h2(1)]) (auto split: if_splits)
    qed
    also have "\<dots> = val B h r K j"
      using same_view_alloc [OF ok(1)] store_ok_unique [OF ok(1) r] by (simp add: same_view_def)
    finally show ?thesis .
  qed
  then show ?thesis
    using h2 ok1 k1 keeps_store_branch [OF k1 h2(1)]
    by (intro exI [of _ ?t] exI [of _ h2] exI [of _ ?T]) (simp add: rotate_root_def alloc_def)
qed

section \<open>push\_back of a value that needs new nodes\<close>

text \<open>What the copying half of the operation hands to the constructing half.\<close>

lemma push_prepare:
  assumes B: "0 < B" and ok: "store_ok B T h"
    and v: "shift v = K * B" "T (root v) = Some (K, 0)" "sz v \<le> BP_WIDTH B ^ Suc K"
      "\<forall>i < sz v. val B h (root v) K i \<noteq> None"
    and al: "BP_WIDTH B dvd sz v"
  shows "\<exists>r K' a k h3 T3. push_descend B kd own h v = Some (r, K' * B, a, k * B, h3) \<and>
    store_ok B T3 h3 \<and> keeps kd own h h3 \<and> extends T T3 \<and> T3 r = Some (K', 0) \<and>
    sz v < BP_WIDTH B ^ Suc K' \<and> BP_WIDTH B ^ k dvd sz v \<and> 1 \<le> k \<and> k \<le> K' \<and>
    T3 a = Some (k, sz v div BP_WIDTH B ^ Suc k) \<and> \<not> protected kd own h a \<and>
    node_at B h3 r K' (sz v) (K' - k) = Some a \<and>
    (\<forall>j < sz v. val B h3 r K' j = val B h (root v) K j)"
proof -
  let ?n = "sz v" and ?w = "BP_WIDTH B"
  obtain k where d: "k \<le> Suc K" "depth_loop B ?n (-1) (?w ^ Suc K) = Some (-1 + int (Suc K - k))"
    "?w ^ k dvd ?n" "k = Suc K \<or> \<not> ?w ^ Suc k dvd ?n"
    using depth_loop_ok [OF B, of "Suc K" ?n "-1"] by blast
  have k1: "1 \<le> k" using d(4) al by (cases k) auto
  obtain r1 h1 T1 where c: "cow_root kd own h (root v) = Some (r1, h1)"
    "cow_result B kd own h T h K T1 h1" "T1 r1 = Some (K, 0)" "\<not> protected kd own h r1"
    "\<forall>j i. val B h1 r1 j i = val B h (root v) j i"
    using cow_root_ok [OF ok keeps_refl v(2)] by blast
  note c' = cow_resultD [OF c(2)]
  have cap: "depth_loop B ?n (-1) (capacity B v) = Some (-1 + int (Suc K - k))"
    using d(2) capacity_eq [OF B v(1)] by simp
  show ?thesis
  proof (cases "k = Suc K")
    case True
    obtain t h2 T2 where r: "rotate_root B own h1 r1 = Some (t, h2)" "store_ok B T2 h2"
      "extends T1 T2" "keeps kd own h h2" "T2 t = Some (Suc K, 0)" "\<not> protected kd own h t"
      "\<forall>j < ?w ^ Suc K. val B h2 t (Suc K) j = val B h1 r1 K j"
      using rotate_root_ok [OF B c'(1,3) c(3)] by blast
    have lt: "?n < ?w ^ Suc (Suc K)"
      using v(3) BP_WIDTH_gt1 [OF B] power_strict_increasing [of "Suc K" "Suc (Suc K)" ?w]
      by linarith
    have "\<forall>j < ?n. val B h2 t (Suc K) j = val B h (root v) K j"
      using r(7) v(3) c(5) by simp
    moreover have "push_descend B kd own h v = Some (t, Suc K * B, t, Suc K * B, h2)"
      using cap c(1) r(1) v(1) True by (simp add: push_descend_def add.commute)
    moreover have "?n div ?w ^ Suc (Suc K) = 0" using lt by simp
    ultimately show ?thesis
      using r(2-6) d(3) k1 True lt extends_trans [OF c'(2) r(3)]
      by (intro exI [of _ t] exI [of _ "Suc K"] exI [of _ t] exI [of _ "Suc K"] exI [of _ h2]
          exI [of _ T2] conjI) simp_all
  next
    case False
    then have kK: "k \<le> K" and nd: "\<not> ?w ^ Suc k dvd ?n" using d(1,4) by auto
    then have pos: "0 < ?n" by (cases ?n) auto
    have lt: "?n < ?w ^ Suc K"
    proof -
      have "?w ^ Suc k dvd ?w ^ Suc K" using kK by (intro le_imp_power_dvd) simp
      then have "?n \<noteq> ?w ^ Suc K" using nd by auto
      with v(3) show ?thesis by simp
    qed
    have "(?n - 1) div ?w ^ Suc k = ?n div ?w ^ Suc k"
      using nd pos by (metis Suc_pred' div_Suc dvd_eq_mod_eq_0)
    moreover have "val B h1 r1 K (?n - 1) \<noteq> None" using v(4) c(5) pos by simp
    ultimately obtain a h3 T3 where ds:
      "descend B kd own h1 r1 (K * B) ?n (K - k) = Some (a, (K - (K - k)) * B, h3)"
      "cow_result B kd own h T1 h1 K T3 h3"
      "T3 a = Some (K - (K - k), ?n div ?w ^ Suc (K - (K - k)))" "\<not> protected kd own h a"
      "node_at B h3 r1 K ?n (K - k) = Some a"
      using descend_ok [OF c'(1,3) c(3) _ c(4), of ?n "?n - 1" "K - k"] lt kK by auto
    note ds' = cow_resultD [OF ds(2)]
    have "\<forall>j < ?n. val B h3 r1 K j = val B h (root v) K j"
      using ds'(4) c(5) store_ok_unique [OF c'(1) c(3)] by (simp add: same_view_def)
    moreover have "push_descend B kd own h v = Some (r1, K * B, a, k * B, h3)"
    proof -
      have "nat (-1 + int (Suc K - k)) = K - k" "-1 + int (Suc K - k) \<noteq> -1" "K - (K - k) = k"
        using kK by auto
      then show ?thesis using cap c(1) ds(1) v(1) by (simp only: push_descend_def) simp
    qed
    moreover have "T3 a = Some (k, ?n div ?w ^ Suc k)" using ds(3) kK by simp
    ultimately show ?thesis
      using ds(4,5) ds'(1,3) d(3) k1 kK lt extends_trans [OF c'(2) ds'(2)]
        extendsD [OF ds'(2) c(3)]
      by blast
  qed
qed

lemma push_new_ok:
  assumes B: "0 < B" and ok: "store_ok B T h" "vec_ok B T h v"
    and al: "BP_WIDTH B dvd sz v"
  shows "\<exists>v' h' T'. push_new B kd own h v x = Some (v', h') \<and> store_ok B T' h' \<and>
    extends T T' \<and> keeps kd own h h' \<and> vec_ok B T' h' v' \<and>
    vlist B h' v' = vlist B h v @ [x] \<and> vid v' = vid v"
proof -
  let ?n = "sz v"
  from ok(2) obtain K where K: "shift v = K * B" "T (root v) = Some (K, 0)"
     "?n \<le> BP_WIDTH B ^ Suc K" "\<forall>i < ?n. val B h (root v) K i \<noteq> None"
    by (auto simp: vec_ok_def)
  obtain r K' a k h3 T3 where p: "push_descend B kd own h v = Some (r, K' * B, a, k * B, h3)"
    "store_ok B T3 h3" "keeps kd own h h3" "extends T T3" "T3 r = Some (K', 0)"
    "?n < BP_WIDTH B ^ Suc K'" "BP_WIDTH B ^ k dvd ?n" "1 \<le> k" "k \<le> K'"
    "T3 a = Some (k, ?n div BP_WIDTH B ^ Suc k)" "\<not> protected kd own h a"
    "node_at B h3 r K' ?n (K' - k) = Some a"
    "\<forall>j < ?n. val B h3 r K' j = val B h (root v) K j"
    using push_prepare [OF B ok(1) K al] by blast
  obtain l h4 h5 T' where t: "grow B own h3 a (k * B) ?n = Some (l, h4)"
    "store_leaf h4 l (?n AND BP_MASK B) x = Some h5" "store_ok B T' h5" "extends T3 T'"
    "keeps kd own h h5" "T' r = Some (K', 0)" "val B h5 r K' ?n = Some x"
    "\<forall>j < ?n. val B h5 r K' j = val B h3 r K' j"
    using push_tail [OF B p(2,3,5,6,7,8,9,10,11,12)] by blast
  let ?v = "v\<lparr>sz := Suc ?n, shift := K' * B, root := r\<rparr>"
  have vals: "val B h5 r K' j = (if j = ?n then Some x else val B h (root v) K j)" if "j < Suc ?n" for j
    using that t(7,8) p(13) by (auto simp: less_Suc_eq)
  have "push_new B kd own h v x = Some (?v, h5)"
    using p(1) t(1,2) by (simp add: push_new_def)
  moreover have "vec_ok B T' h5 ?v"
    unfolding vec_ok_def using vals K(4) t(6) p(6)
    by (intro exI [of _ K']) (auto simp: less_Suc_eq)
  moreover have "vlist B h5 ?v = vlist B h v @ [x]"
    using vals vlist_val [OF B, of ?v K' h5] vlist_val [OF B K(1), of h] by (auto simp: less_Suc_eq)
  ultimately show ?thesis using t(3,5) extends_trans [OF p(4) t(4)] by auto
qed

text \<open>\<open>push_back\<close> on every path: a set inside the last leaf, or new nodes.\<close>

lemma push_set_ok:
  assumes B: "0 < B" and ok: "store_ok B T h" "vec_ok B T h v"
    and al: "\<not> BP_WIDTH B dvd sz v"
  shows "\<exists>v' h' T'. vset B kd h v (sz v) x = Some (v', h') \<and> store_ok B T' h' \<and>
    extends T T' \<and> keeps kd (vid v) h h' \<and> vec_ok B T' h' (v'\<lparr>sz := Suc (sz v')\<rparr>) \<and>
    vlist B h' (v'\<lparr>sz := Suc (sz v')\<rparr>) = vlist B h v @ [x] \<and> vid v' = vid v \<and> sz v' = sz v"
proof -
  let ?n = "sz v"
  from ok(2) obtain K where K: "shift v = K * B" "T (root v) = Some (K, 0)"
     "?n \<le> BP_WIDTH B ^ Suc K" "\<forall>i < ?n. val B h (root v) K i \<noteq> None"
    by (auto simp: vec_ok_def)
  have pos: "0 < ?n" using al by (cases ?n) auto
  have "?n \<noteq> BP_WIDTH B ^ Suc K" using al by auto
  with K(3) have lt: "?n < BP_WIDTH B ^ Suc K" by simp
  have q: "(?n - 1) div BP_WIDTH B = ?n div BP_WIDTH B"
    using al pos by (metis Suc_pred' div_Suc dvd_eq_mod_eq_0)
  obtain r h' T' where s: "vset B kd h v ?n x = Some (v\<lparr>root := r\<rparr>, h')" "store_ok B T' h'"
    "extends T T'" "keeps kd (vid v) h h'" "T' r = Some (K, 0)"
    "\<forall>j < BP_WIDTH B ^ Suc K. val B h' r K j = (if j = ?n then Some x else val B h (root v) K j)"
    using vset_ok [OF B ok(1) K(1,2) lt _ q, of kd x] K(4) pos by auto
  let ?v = "v\<lparr>root := r, sz := Suc ?n\<rparr>"
  have vals: "val B h' r K j = (if j = ?n then Some x else val B h (root v) K j)" if "j < Suc ?n" for j
    using that s(6) lt by simp
  have "vec_ok B T' h' ?v"
    unfolding vec_ok_def using vals K s(5) lt by (intro exI [of _ K]) (auto simp: less_Suc_eq)
  moreover have "vlist B h' ?v = vlist B h v @ [x]"
    using vals vlist_val [OF B, of ?v K h'] vlist_val [OF B K(1), of h] K(1)
    by (auto simp: less_Suc_eq)
  ultimately show ?thesis using s(1-4) by auto
qed

lemma push_back_list:
  assumes B: "0 < B" and ok: "store_ok B T h" "vec_ok B T h v"
  shows "\<exists>v' h' T'. push_back B kd h v x = Some (v', h') \<and> store_ok B T' h' \<and>
    extends T T' \<and> keeps kd (vid v) h h' \<and> vec_ok B T' h' v' \<and>
    vlist B h' v' = vlist B h v @ [x] \<and> vid v' = vid v"
proof (cases "BP_WIDTH B dvd sz v")
  case True
  then have "sz v AND BP_MASK B = 0" by (simp add: and_BP_MASK dvd_eq_mod_eq_0)
  then show ?thesis using push_new_ok [OF B ok True] by (simp add: push_back_def)
next
  case False
  then have "sz v AND BP_MASK B \<noteq> 0" by (simp add: and_BP_MASK dvd_eq_mod_eq_0)
  with push_set_ok [OF B ok False, of kd x] show ?thesis by (fastforce simp: push_back_def)
qed

end
