(* ===== verification/Vec_Classes.thy ===== *)
theory Vec_Classes imports
  Bp_Push
begin

text \<open>
  The three vector classes (contentious/bp_vector.h, bp_vector-impl.h, tr_vector-impl.h): the
  unique-id counter, the constructors and conversions, and the mutators \<open>mut_set\<close> and
  \<open>mut_push_back\<close> of \<open>bp_vector\<close> and \<open>tr_vector\<close>.

  \<open>vecs_ok B h vs\<close> is the invariant of a store with the live vectors \<open>vs\<close>; every operation keeps it.
\<close>

section \<open>Ids (\<open>bp_vector_glob\<close>)\<close>

text \<open>\<open>unique_id++\<close> on an atomic 32-bit counter: the old value, wrapping around. It starts at 1;
  0 is the id of the persistent vectors.\<close>

definition initial_unique_id :: id32 where
  "initial_unique_id = 1"

definition get_unique_id :: "id32 \<Rightarrow> id32 \<times> id32" where
  "get_unique_id c = (c, c + 1)"

section \<open>Constructors and conversions\<close>

text \<open>\<open>tr_vector()\<close>, \<open>ps_vector()\<close>.\<close>

definition tr_new :: "nat \<Rightarrow> ('a::zero) store \<Rightarrow> id32 \<Rightarrow> vec \<times> 'a store \<times> id32" where
  "tr_new B h c = (let (i, c') = get_unique_id c; (v, h') = new_vec B i h in (v, h', c'))"

definition ps_new :: "nat \<Rightarrow> ('a::zero) store \<Rightarrow> vec \<times> 'a store" where
  "ps_new B h = new_vec B 0 h"

text \<open>\<open>tr_vector(const ps_vector &)\<close>, reached through \<open>make_transient\<close>: same nodes, a new id.\<close>

definition make_transient :: "id32 \<Rightarrow> vec \<Rightarrow> vec \<times> id32" where
  "make_transient c v = (let (i, c') = get_unique_id c in (v\<lparr>vid := i\<rparr>, c'))"

text \<open>\<open>ps_vector(const tr_vector &)\<close>, reached through \<open>make_persistent\<close>.\<close>

definition make_persistent :: "vec \<Rightarrow> vec" where
  "make_persistent v = v\<lparr>vid := 0\<rparr>"

definition new_id :: "id32 \<Rightarrow> vec \<Rightarrow> vec \<times> id32" where
  "new_id c v = (let (i, c') = get_unique_id c in (v\<lparr>vid := i\<rparr>, c'))"

section \<open>The mutators\<close>

definition bp_mut_set :: "nat \<Rightarrow> 'a store \<Rightarrow> vec \<Rightarrow> nat \<Rightarrow> 'a \<Rightarrow> 'a store option" where
  "bp_mut_set B h v i x = do {
     l \<leftarrow> walk B h (root v) (shift v) i;
     store_leaf h l (i AND BP_MASK B) x }"

text \<open>\<open>bp_vector\<close> builds nodes with the one-argument constructor, which leaves the id of the node
  uninitialised: \<open>junk\<close>.\<close>

definition bp_mut_push_back ::
    "nat \<Rightarrow> id32 \<Rightarrow> ('a::zero) store \<Rightarrow> vec \<Rightarrow> 'a \<Rightarrow> (vec \<times> 'a store) option" where
  "bp_mut_push_back B junk h v x =
    (if sz v AND BP_MASK B \<noteq> 0 then do {
       h' \<leftarrow> bp_mut_set B h v (sz v) x; Some (v\<lparr>sz := Suc (sz v)\<rparr>, h') }
     else if sz v < BP_WIDTH B then do {
       h' \<leftarrow> store_leaf h (root v) (sz v) x; Some (v\<lparr>sz := Suc (sz v)\<rparr>, h') }
     else push_new B bp_vector junk h v x)"

definition tr_mut_set ::
    "nat \<Rightarrow> 'a store \<Rightarrow> vec \<Rightarrow> nat \<Rightarrow> 'a \<Rightarrow> (vec \<times> 'a store) option" where
  "tr_mut_set B h v i x = do {
     (r, h1) \<leftarrow> cow_root tr_vector (vid v) h (root v);
     (l, h2) \<leftarrow> cow_walk B tr_vector (vid v) h1 r (shift v) i;
     h3 \<leftarrow> store_leaf h2 l (i AND BP_MASK B) x;
     Some (v\<lparr>root := r\<rparr>, h3) }"

text \<open>The first value of an empty vector goes straight into the root leaf, whoever owns it.\<close>

definition tr_mut_push_back ::
    "nat \<Rightarrow> ('a::zero) store \<Rightarrow> vec \<Rightarrow> 'a \<Rightarrow> (vec \<times> 'a store) option" where
  "tr_mut_push_back B h v x =
    (if sz v AND BP_MASK B \<noteq> 0 then do {
       (v', h') \<leftarrow> tr_mut_set B h v (sz v) x; Some (v'\<lparr>sz := Suc (sz v)\<rparr>, h') }
     else if sz v < BP_WIDTH B then do {
       h' \<leftarrow> store_leaf h (root v) (sz v) x; Some (v\<lparr>sz := Suc (sz v)\<rparr>, h') }
     else push_new B tr_vector (vid v) h v x)"

section \<open>The invariant\<close>

definition vecs_ok :: "nat \<Rightarrow> 'a store \<Rightarrow> vec list \<Rightarrow> bool" where
  "vecs_ok B h vs \<longleftrightarrow> bits_ok B \<and> (\<exists>T. store_ok B T h \<and> (\<forall>v \<in> set vs. vec_ok B T h v))"

lemma vecs_okE:
  assumes "vecs_ok B h vs"
  obtains T where "0 < B" "store_ok B T h" "\<forall>v \<in> set vs. vec_ok B T h v"
proof -
  from assms obtain T where "store_ok B T h" "\<forall>v \<in> set vs. vec_ok B T h v" "bits_ok B"
    unfolding vecs_ok_def by blast
  then show ?thesis using that bits_okD by blast
qed

lemma vecs_ok_subset: "vecs_ok B h vs \<Longrightarrow> set ws \<subseteq> set vs \<Longrightarrow> vecs_ok B h ws"
  by (auto simp: vecs_ok_def)

lemma vecs_ok_empty: "bits_ok B \<Longrightarrow> vecs_ok B empty_store []"
  using store_ok_empty by (auto simp: vecs_ok_def)

lemma vec_ok_vid [simp]: "vec_ok B T h (v\<lparr>vid := i\<rparr>) = vec_ok B T h v"
  by (simp add: vec_ok_def)

lemma vget_vid [simp]: "vget B h (v\<lparr>vid := i\<rparr>) = vget B h v"
  by (simp add: vget_def fun_eq_iff)

lemma vlist_vid [simp]: "vlist B h (v\<lparr>vid := i\<rparr>) = vlist B h v"
  by (simp add: vlist_def)

lemma unshared_vid [simp]: "unshared B kd own h (v\<lparr>vid := i\<rparr>) = unshared B kd own h v"
  by (simp add: unshared_def)

lemma vecs_ok_vid: "vecs_ok B h vs \<Longrightarrow> v \<in> set vs \<Longrightarrow> vecs_ok B h (v\<lparr>vid := i\<rparr> # vs)"
  by (auto simp: vecs_ok_def)

text \<open>A result vector joins the undisturbed ones.\<close>

lemma vecs_ok_step:
  assumes "vecs_ok B h vs" "store_ok B T h" "store_ok B T' h'" "extends T T'" "keeps kd own h h'"
    and "vec_ok B T' h' v'" "\<And>w. w \<in> set vs \<Longrightarrow> vec_ok B T h w \<and> unshared B kd own h w"
  shows "vecs_ok B h' (v' # vs)" "\<forall>w \<in> set vs. vlist B h' w = vlist B h w"
proof -
  have B: "bits_ok B" "0 < B" using assms(1) by (auto simp: vecs_ok_def dest: bits_okD)
  note frame = unshared_frame [OF B(2) _ _ assms(5,4)]
  have "\<forall>w \<in> set (v' # vs). vec_ok B T' h' w" using assms(6,7) frame(1) by simp
  then show "vecs_ok B h' (v' # vs)" using B assms(3) unfolding vecs_ok_def by blast
  show "\<forall>w \<in> set vs. vlist B h' w = vlist B h w" using assms(7) frame(2) by blast
qed

lemma new_vec_ok:
  assumes "vecs_ok B (h::('a::zero) store) vs" "new_vec B i h = (v, h')"
  shows "vecs_ok B h' (v # vs)" "vlist B h' v = []" "\<forall>w \<in> set vs. vlist B h' w = vlist B h w"
    "sz v = 0" "shift v = 0" "vid v = i" "cells h' (root v) = Some (new_node B leaves i)"
proof -
  from assms(1) obtain T where T: "0 < B" "store_ok B T h" "\<forall>v \<in> set vs. vec_ok B T h v"
    by (rule vecs_okE)
  let ?n = "new_node B leaves i :: 'a bp_node" and ?T = "T(fresh h \<mapsto> (0, 0))"
  have v: "v = \<lparr>sz = 0, shift = 0, root = fresh h, vid = i\<rparr>" "h' = snd (alloc h ?n)"
    using assms(2) by (auto simp: new_vec_def alloc_def)
  then show "sz v = 0" "shift v = 0" "vid v = i" "cells h' (root v) = Some ?n" by simp_all
  have ok: "store_ok B ?T h'" "extends T ?T"
    using store_ok_alloc [OF T(2), of ?n 0 0] v(2) by (auto simp: node_ok_0)
  have "keeps ps_vector i h h'" using keeps_alloc(1) [OF keeps_refl T(2), of ?n] v(2) by simp
  moreover have "vec_ok B ?T h' v" using v(1) by (simp add: vec_ok_def)
  moreover have "\<And>w. w \<in> set vs \<Longrightarrow> vec_ok B T h w \<and> unshared B ps_vector i h w"
    using T(1,3) unshared_ps by blast
  ultimately show "vecs_ok B h' (v # vs)" "\<forall>w \<in> set vs. vlist B h' w = vlist B h w"
    using vecs_ok_step [OF assms(1) T(2) ok] by blast+
  show "vlist B h' v = []" using v(1) by (simp add: vlist_def)
qed

section \<open>Element access\<close>

lemma vat_ok:
  assumes "vecs_ok B h vs" "v \<in> set vs"
  shows "vat B h v i =
    (if i < length (vlist B h v) then Inr (vlist B h v ! i) else Inl (Out_of_range (sz v) i))"
proof -
  from assms(1) obtain T where T: "0 < B" "store_ok B T h" "\<forall>v \<in> set vs. vec_ok B T h v"
    by (rule vecs_okE)
  show ?thesis
    using vec_ok_get [OF T(1) bspec [OF T(3) assms(2)], of i] by (simp add: vat_def)
qed

section \<open>Persistent vectors: every live vector keeps its list\<close>

lemma ps_set_ok:
  assumes "vecs_ok B h vs" "v \<in> set vs" "i < length (vlist B h v)"
  shows "\<exists>v' h'. vset B ps_vector h v i x = Some (v', h') \<and> vecs_ok B h' (v' # vs) \<and>
    vlist B h' v' = (vlist B h v)[i := x] \<and> (\<forall>w \<in> set vs. vlist B h' w = vlist B h w)"
proof -
  from assms(1) obtain T where T: "0 < B" "store_ok B T h" "\<forall>v \<in> set vs. vec_ok B T h v"
    by (rule vecs_okE)
  obtain v' h' T' where s: "vset B ps_vector h v i x = Some (v', h')" "store_ok B T' h'"
    "extends T T'" "keeps ps_vector (vid v) h h'" "vec_ok B T' h' v'"
    "vlist B h' v' = (vlist B h v)[i := x]"
    using vset_list [OF T(1,2) bspec [OF T(3) assms(2)], of i ps_vector x] assms(3) by auto
  have "\<And>w. w \<in> set vs \<Longrightarrow> vec_ok B T h w \<and> unshared B ps_vector (vid v) h w"
    using T(1,3) unshared_ps by blast
  from vecs_ok_step [OF assms(1) T(2) s(2-5) this] s(1,6) show ?thesis by blast
qed

lemma ps_push_back_ok:
  assumes "vecs_ok B h vs" "v \<in> set vs"
  shows "\<exists>v' h'. push_back B ps_vector h v x = Some (v', h') \<and> vecs_ok B h' (v' # vs) \<and>
    vlist B h' v' = vlist B h v @ [x] \<and> (\<forall>w \<in> set vs. vlist B h' w = vlist B h w)"
proof -
  from assms(1) obtain T where T: "0 < B" "store_ok B T h" "\<forall>v \<in> set vs. vec_ok B T h v"
    by (rule vecs_okE)
  obtain v' h' T' where s: "push_back B ps_vector h v x = Some (v', h')" "store_ok B T' h'"
    "extends T T'" "keeps ps_vector (vid v) h h'" "vec_ok B T' h' v'"
    "vlist B h' v' = vlist B h v @ [x]"
    using push_back_list [OF T(1,2) bspec [OF T(3) assms(2)], of ps_vector x] by auto
  have "\<And>w. w \<in> set vs \<Longrightarrow> vec_ok B T h w \<and> unshared B ps_vector (vid v) h w"
    using T(1,3) unshared_ps by blast
  from vecs_ok_step [OF assms(1) T(2) s(2-5) this] s(1,6) show ?thesis by blast
qed

section \<open>The persistent-vector interface\<close>

text \<open>What a client of \<open>ps_vector\<close> relies on: \<open>inv s vs\<close> is the invariant of a store with live versions
  \<open>vs\<close>, \<open>list\<close> reads a version. Both operations are total on live versions, return a new one and
  leave all others as they are.\<close>

locale persistent_vector =
  fixes inv :: "'s \<Rightarrow> 'v list \<Rightarrow> bool"
    and list :: "'s \<Rightarrow> 'v \<Rightarrow> 'a list"
    and push :: "'s \<Rightarrow> 'v \<Rightarrow> 'a \<Rightarrow> ('v \<times> 's) option"
    and upd :: "'s \<Rightarrow> 'v \<Rightarrow> nat \<Rightarrow> 'a \<Rightarrow> ('v \<times> 's) option"
  assumes inv_subset: "inv s vs \<Longrightarrow> set ws \<subseteq> set vs \<Longrightarrow> inv s ws"
    and push_law: "inv s vs \<Longrightarrow> v \<in> set vs \<Longrightarrow>
      \<exists>v' s'. push s v x = Some (v', s') \<and> inv s' (v' # vs) \<and> list s' v' = list s v @ [x] \<and>
        (\<forall>w \<in> set vs. list s' w = list s w)"
    and upd_law: "inv s vs \<Longrightarrow> v \<in> set vs \<Longrightarrow> i < length (list s v) \<Longrightarrow>
      \<exists>v' s'. upd s v i x = Some (v', s') \<and> inv s' (v' # vs) \<and> list s' v' = (list s v)[i := x] \<and>
        (\<forall>w \<in> set vs. list s' w = list s w)"

text \<open>The loops \<open>for (...) v = v.push_back(x)\<close> and \<open>for (...) v = v.set(i, x)\<close>, keeping every version.\<close>

fun push_all :: "('s \<Rightarrow> 'v \<Rightarrow> 'a \<Rightarrow> ('v \<times> 's) option) \<Rightarrow> 's \<Rightarrow> 'v \<Rightarrow> 'a list \<Rightarrow>
    ('v list \<times> 's) option" where
  "push_all push s v [] = Some ([v], s)"
| "push_all push s v (x # xs) = do {
     (v', s') \<leftarrow> push s v x; (vs, s'') \<leftarrow> push_all push s' v' xs; Some (v # vs, s'') }"

fun upd_all :: "('s \<Rightarrow> 'v \<Rightarrow> nat \<Rightarrow> 'a \<Rightarrow> ('v \<times> 's) option) \<Rightarrow> 's \<Rightarrow> 'v \<Rightarrow> (nat \<times> 'a) list \<Rightarrow>
    ('v \<times> 's) option" where
  "upd_all upd s v [] = Some (v, s)"
| "upd_all upd s v ((i, x) # us) = do { (v', s') \<leftarrow> upd s v i x; upd_all upd s' v' us }"

context persistent_vector
begin

text \<open>The \<open>k\<close>-th version holds the first \<open>k\<close> pushed values, even after all the later pushes.\<close>

lemma push_all_versions:
  assumes "inv s ws" "v \<in> set ws"
  shows "\<exists>vs s'. push_all push s v xs = Some (vs, s') \<and> inv s' (vs @ ws) \<and>
    length vs = Suc (length xs) \<and>
    (\<forall>k \<le> length xs. list s' (vs ! k) = list s v @ take k xs) \<and>
    (\<forall>w \<in> set ws. list s' w = list s w)"
  using assms
proof (induction xs arbitrary: s v ws)
  case Nil
  then show ?case using inv_subset [OF Nil(1), of "v # ws"] by auto
next
  case (Cons x xs)
  obtain v1 s1 where p: "push s v x = Some (v1, s1)" "inv s1 (v1 # ws)"
    "list s1 v1 = list s v @ [x]" "\<forall>w \<in> set ws. list s1 w = list s w"
    using push_law [OF Cons.prems] by blast
  obtain vs s' where q: "push_all push s1 v1 xs = Some (vs, s')" "inv s' (vs @ v1 # ws)"
    "length vs = Suc (length xs)" "\<forall>k \<le> length xs. list s' (vs ! k) = list s1 v1 @ take k xs"
    "\<forall>w \<in> set (v1 # ws). list s' w = list s1 w"
    using Cons.IH [OF p(2), of v1] by auto
  have v: "list s' v = list s v" using q(5) p(4) Cons.prems(2) by simp
  have "list s' ((v # vs) ! k) = list s v @ take k (x # xs)" if "k \<le> length (x # xs)" for k
    using that v q(4) p(3) by (cases k) auto
  moreover have "inv s' ((v # vs) @ ws)"
    by (rule inv_subset [OF q(2)]) (use Cons.prems(2) in auto)
  ultimately show ?case using p q by fastforce
qed

lemma upd_all_list:
  assumes "inv s ws" "v \<in> set ws" "\<forall>(i, x) \<in> set us. i < length (list s v)"
  shows "\<exists>v' s'. upd_all upd s v us = Some (v', s') \<and>
    list s' v' = fold (\<lambda>(i, x) xs. xs[i := x]) us (list s v) \<and>
    (\<forall>w \<in> set ws. list s' w = list s w)"
  using assms
proof (induction us arbitrary: s v ws)
  case (Cons u us)
  obtain i x where u: "u = (i, x)" by (cases u)
  with Cons.prems(3) have "i < length (list s v)" by simp
  then obtain v' s' where s: "upd s v i x = Some (v', s')" "inv s' (v' # ws)"
    "list s' v' = (list s v)[i := x]" "\<forall>w \<in> set ws. list s' w = list s w"
    using upd_law [OF Cons.prems(1,2)] by blast
  have "\<forall>(i, x) \<in> set us. i < length (list s' v')" using Cons.prems(3) s(3) by auto
  from Cons.IH [OF s(2) _ this] s u show ?case by fastforce
qed simp

end

interpretation ps: persistent_vector "vecs_ok B" "vlist B" "push_back B ps_vector" "vset B ps_vector"
  for B :: nat
  by unfold_locales (rule vecs_ok_subset ps_push_back_ok ps_set_ok; assumption)+

section \<open>Properties\<close>

lemma fresh_vec:
  assumes "bits_ok B"
  obtains v h where "ps_new B (empty_store::('a::zero) store) = (v, h)" "vecs_ok B h [v]"
    "vlist B h v = []" "sz v = 0"
proof -
  obtain v h where n: "new_vec B 0 (empty_store::'a store) = (v, h)" by fastforce
  show ?thesis using that [of v h] new_vec_ok [OF vecs_ok_empty [OF assms] n] n
    by (simp add: ps_new_def)
qed

lemma bits_ok_small: "bits_ok 1" "bits_ok 2" "bits_ok 3"
  by (simp_all add: bits_ok_def)

text \<open>C22. \<open>push_back\<close> on a persistent vector: in every state with live vectors \<open>vs\<close> it returns a new
  version holding the old values and the pushed one, performs no undefined access, keeps the
  invariant of all vectors and leaves the contents of every live vector, the pushed-to one
  included, as they were. This covers the append inside a leaf, the new leaf under existing nodes,
  the new inner nodes and the growth of the trie by a level.\<close>

theorem push_back_persistent:
  assumes "vecs_ok B (h :: ('a::zero) store) vs" and "v \<in> set vs"
  shows "\<exists>v' h'. push_back B ps_vector h v x = Some (v', h') \<and> vecs_ok B h' (v' # vs) \<and>
    vlist B h' v' = vlist B h v @ [x] \<and> (\<forall>w \<in> set vs. vlist B h' w = vlist B h w)"
  by (rule ps.push_law [OF assms])

theorem push_back_persistent_witness:
  "\<exists>v h v' h'. ps_new 2 empty_store = (v, h) \<and> push_back 2 ps_vector h v (7::int) = Some (v', h') \<and>
     vlist 2 h' v' = [7] \<and> vlist 2 h' v = []"
proof -
  obtain v h where n: "ps_new 2 (empty_store::int store) = (v, h)" "vecs_ok 2 h [v]" "vlist 2 h v = []"
    by (rule fresh_vec [OF bits_ok_small(2)])
  show ?thesis using push_back_persistent [OF n(2), of v 7] n by auto
qed

text \<open>C23. \<open>set\<close> on a persistent vector at an index below its size returns a version with that one
  value replaced; every live vector keeps its contents.\<close>

theorem set_persistent:
  assumes "vecs_ok B (h :: ('a::zero) store) vs" and "v \<in> set vs" and "i < length (vlist B h v)"
  shows "\<exists>v' h'. vset B ps_vector h v i x = Some (v', h') \<and> vecs_ok B h' (v' # vs) \<and>
    vlist B h' v' = (vlist B h v)[i := x] \<and> (\<forall>w \<in> set vs. vlist B h' w = vlist B h w)"
  by (rule ps.upd_law [OF assms])

theorem set_persistent_witness:
  "\<exists>v0 h0 v h w h'. ps_new 2 empty_store = (v0, h0) \<and>
     push_back 2 ps_vector h0 v0 (7::int) = Some (v, h) \<and>
     vset 2 ps_vector h v 0 9 = Some (w, h') \<and> vlist 2 h' w = [9] \<and> vlist 2 h' v = [7]"
proof -
  obtain v0 h0 where n: "ps_new 2 (empty_store::int store) = (v0, h0)" "vecs_ok 2 h0 [v0]"
    "vlist 2 h0 v0 = []" by (rule fresh_vec [OF bits_ok_small(2)])
  obtain v h where p: "push_back 2 ps_vector h0 v0 7 = Some (v, h)" "vecs_ok 2 h [v, v0]"
    "vlist 2 h v = [7]" using ps_push_back_ok [OF n(2), of v0 7] n(3) by auto
  show ?thesis using set_persistent [OF p(2), of v 0 9] n(1) p by auto
qed

text \<open>Building a vector by repeated \<open>push_back\<close> and keeping every version: the k-th version holds
  the starting values and the first k pushed ones, in the final store, for any number of pushes.\<close>

theorem push_back_versions:
  assumes "vecs_ok B (h :: ('a::zero) store) ws" and "v \<in> set ws"
  shows "\<exists>vs h'. push_all (push_back B ps_vector) h v xs = Some (vs, h') \<and>
    vecs_ok B h' (vs @ ws) \<and> length vs = Suc (length xs) \<and>
    (\<forall>k \<le> length xs. vlist B h' (vs ! k) = vlist B h v @ take k xs) \<and>
    (\<forall>w \<in> set ws. vlist B h' w = vlist B h w)"
  by (rule ps.push_all_versions [OF assms])

theorem push_back_versions_witness:
  "\<exists>v h vs h'. ps_new 1 empty_store = (v, h) \<and>
     push_all (push_back 1 ps_vector) h v [3, 1, 4, 1, 5::int] = Some (vs, h') \<and>
     vlist 1 h' (vs ! 3) = [3, 1, 4] \<and> vlist 1 h' (vs ! 5) = [3, 1, 4, 1, 5]"
proof -
  obtain v h where n: "ps_new 1 (empty_store::int store) = (v, h)" "vecs_ok 1 h [v]" "vlist 1 h v = []"
    by (rule fresh_vec [OF bits_ok_small(1)])
  obtain vs h' where r: "push_all (push_back 1 ps_vector) h v [3, 1, 4, 1, 5::int] = Some (vs, h')"
    "\<forall>k \<le> 5. vlist 1 h' (vs ! k) = take k [3, 1, 4, 1, 5::int]"
    using push_back_versions [OF n(2), of v "[3, 1, 4, 1, 5::int]"] n(3) by auto
  then have "vlist 1 h' (vs ! 3) = [3, 1, 4]" "vlist 1 h' (vs ! 5) = [3, 1, 4, 1, 5]" by auto
  with n(1) r(1) show ?thesis by blast
qed

text \<open>\<open>at\<close>: the value of the index below the size, and the out_of_range error with size and index
  otherwise; never an undefined access.\<close>

theorem at_checked:
  assumes "vecs_ok B h vs" and "v \<in> set vs"
  shows "vat B h v i =
    (if i < length (vlist B h v) then Inr (vlist B h v ! i) else Inl (Out_of_range (sz v) i))"
  by (rule vat_ok [OF assms])

theorem at_checked_witness:
  "\<exists>v h. ps_new 3 (empty_store::int store) = (v, h) \<and> vat 3 h v 4 = Inl (Out_of_range 0 4)"
proof -
  obtain v h where n: "ps_new 3 (empty_store::int store) = (v, h)" "vecs_ok 3 h [v]"
    "vlist 3 h v = []" "sz v = 0" by (rule fresh_vec [OF bits_ok_small(3)])
  show ?thesis using at_checked [OF n(2), of v 4] n by auto
qed

end
