(* ===== verification/Transient.thy ===== *)
theory Transient imports
  Vec_Classes
begin

text \<open>
  Transient vectors: a batch of in-place writes on a vector with an id of its own does to its list
  what the same batch does to a list, and no vector without nodes of that id notices. The id comes
  from the counter, whose invariant \<open>ids_below\<close> says that every node carries an older id.
\<close>

section \<open>Fresh ids\<close>

definition ids_below :: "id32 \<Rightarrow> 'a store \<Rightarrow> bool" where
  "ids_below c h \<longleftrightarrow> (\<forall>a n. cells h a = Some n \<longrightarrow> nid n < c)"

lemma ids_below_empty: "ids_below c empty_store"
  by (simp add: ids_below_def empty_store_def)

lemma ids_below_keeps:
  assumes "ids_below c h" "keeps kd own h h'" "own < c"
  shows "ids_below c h'"
  unfolding ids_below_def
proof (intro allI impI)
  fix a n assume n: "cells h' a = Some n"
  show "nid n < c"
  proof (cases "cells h a")
    case None
    then have "nid n = own" using assms(2) n unfolding keeps_def by blast
    with assms(3) show ?thesis by simp
  next
    case (Some m)
    then have "nid n = nid m" using keeps_dom [OF assms(2) Some] n by auto
    with assms(1) Some show ?thesis by (simp add: ids_below_def)
  qed
qed

lemma get_unique_id_fresh:
  assumes "ids_below c h" "c \<noteq> - 1" "get_unique_id c = (i, c')"
  shows "i < c' \<and> ids_below c' h \<and> (\<forall>a n. cells h a = Some n \<longrightarrow> nid n \<noteq> i)"
proof -
  have c: "i = c" "c' = c + 1" using assms(3) by (auto simp: get_unique_id_def)
  have "1 + c \<noteq> 0" using assms(2) by (simp add: eq_neg_iff_add_eq_0 add.commute)
  then have "c < c + 1" by (simp add: word_less_nat_alt unatSuc add.commute)
  with assms(1) c show ?thesis by (fastforce simp: ids_below_def)
qed

lemma guarded_fresh:
  assumes "\<forall>a n. cells h a = Some n \<longrightarrow> nid n \<noteq> i" "val B h a k j \<noteq> None"
  shows "guarded B tr_vector i h a k j"
  using assms(2)
proof (induction k arbitrary: a)
  case 0
  then show ?case
    using assms(1) by (cases "cells h a") (auto simp: val_0 load_leaf_def protected_def)
next
  case (Suc k)
  then have "protected tr_vector i h a"
    using assms(1) by (cases "cells h a") (auto simp: val_Suc load_branch_def protected_def)
  with Suc show ?case by (auto simp: val_Suc split: option.splits)
qed

lemma unshared_fresh:
  "0 < B \<Longrightarrow> vec_ok B T h w \<Longrightarrow> \<forall>a n. cells h a = Some n \<longrightarrow> nid n \<noteq> i \<Longrightarrow>
   unshared B tr_vector i h w"
  by (auto simp: unshared_def vec_ok_def intro!: guarded_fresh)

lemma guarded_keeps:
  assumes "keeps kd own h h'"
  shows "guarded B kd own h a k i \<Longrightarrow> guarded B kd own h' a k i"
proof (induction k arbitrary: a)
  case 0
  then show ?case using keeps_protected [OF assms] by (auto simp: protected_def)
next
  case (Suc k)
  then have c: "cells h' a = cells h a" using keeps_protected [OF assms] by simp
  then have "load_branch h' a j = load_branch h a j" for j by (rule load_cong)
  with Suc c show ?case by (auto simp: protected_def split: option.splits)
qed

lemma unshared_keeps: "keeps kd own h h' \<Longrightarrow> unshared B kd own h w \<Longrightarrow> unshared B kd own h' w"
  using guarded_keeps by (fastforce simp: unshared_def)

section \<open>Single mutations\<close>

text \<open>\<open>mut_set\<close> and \<open>set\<close> are the same code on a transient.\<close>

lemma tr_mut_set_vset: "tr_mut_set B h v i x = vset B tr_vector h v i x"
  by (simp add: tr_mut_set_def vset_def)

text \<open>A transient is open for writing when the empty one owns its root leaf; \<open>tr_inv\<close> is the
  invariant of a transient \<open>v\<close> among undisturbed vectors \<open>ws\<close>.\<close>

definition owns_root :: "'a store \<Rightarrow> vec \<Rightarrow> bool" where
  "owns_root h v \<longleftrightarrow> (\<forall>n. cells h (root v) = Some n \<longrightarrow> nid n = vid v)"

definition tr_inv :: "nat \<Rightarrow> 'a store \<Rightarrow> vec \<Rightarrow> vec list \<Rightarrow> bool" where
  "tr_inv B h v ws \<longleftrightarrow> vecs_ok B h (v # ws) \<and>
    (\<forall>w \<in> set ws. unshared B tr_vector (vid v) h w) \<and>
    (sz v = 0 \<longrightarrow> shift v = 0 \<and> owns_root h v)"

definition tr_step_ok :: "nat \<Rightarrow> 'a store \<Rightarrow> vec \<Rightarrow> vec list \<Rightarrow> vec \<Rightarrow> 'a store \<Rightarrow> 'a list \<Rightarrow> bool" where
  "tr_step_ok B h v ws v' h' xs \<longleftrightarrow> tr_inv B h' v' ws \<and> vid v' = vid v \<and> vlist B h' v' = xs \<and>
    keeps tr_vector (vid v) h h' \<and> (\<forall>w \<in> set ws. vlist B h' w = vlist B h w)"

lemma tr_step_okI:
  assumes inv: "tr_inv B h v ws" and T: "store_ok B T h" "\<forall>w \<in> set (v # ws). vec_ok B T h w"
    and r: "store_ok B T' h'" "extends T T'" "keeps tr_vector (vid v) h h'" "vec_ok B T' h' v'"
      "vlist B h' v' = xs" "vid v' = vid v" "xs \<noteq> []"
  shows "tr_step_ok B h v ws v' h' xs"
proof -
  have un: "\<forall>w \<in> set ws. unshared B tr_vector (vid v) h w" and ok: "vecs_ok B h (v # ws)"
    using inv by (auto simp: tr_inv_def)
  have w: "vec_ok B T h w \<and> unshared B tr_vector (vid v) h w" if "w \<in> set ws" for w
    using that un T(2) by simp
  have ws: "vecs_ok B h ws" using vecs_ok_subset [OF ok] by auto
  have "sz v' \<noteq> 0" using r(5,7) by (metis length_0_conv length_vlist)
  then show ?thesis
    using vecs_ok_step [OF ws T(1) r(1,2,3,4) w] un r(3,5,6) unshared_keeps [OF r(3)]
    by (auto simp: tr_step_ok_def tr_inv_def)
qed

lemma tr_mut_set_ok:
  assumes "tr_inv B h v ws" "i < length (vlist B h v)"
  shows "\<exists>v' h'. tr_mut_set B h v i x = Some (v', h') \<and>
    tr_step_ok B h v ws v' h' ((vlist B h v)[i := x])"
proof -
  have "vecs_ok B h (v # ws)" using assms(1) by (simp add: tr_inv_def)
  then obtain T where T: "0 < B" "store_ok B T h" "\<forall>w \<in> set (v # ws). vec_ok B T h w"
    by (rule vecs_okE)
  obtain v' h' T' where s: "vset B tr_vector h v i x = Some (v', h')" "store_ok B T' h'"
    "extends T T'" "keeps tr_vector (vid v) h h'" "vec_ok B T' h' v'"
    "vlist B h' v' = (vlist B h v)[i := x]" "vid v' = vid v"
    using vset_list [OF T(1,2), of v i tr_vector x] T(3) assms(2) by auto
  have "(vlist B h v)[i := x] \<noteq> []"
    using assms(2) by (metis less_nat_zero_code list.size(3) list_update_nonempty)
  from tr_step_okI [OF assms(1) T(2,3) s(2-7) this] s(1) show ?thesis
    by (auto simp: tr_mut_set_vset)
qed

lemma tr_mut_push_back_ok:
  assumes inv: "tr_inv B h v ws"
  shows "\<exists>v' h'. tr_mut_push_back B h v x = Some (v', h') \<and>
    tr_step_ok B h v ws v' h' (vlist B h v @ [x])"
proof -
  have "vecs_ok B h (v # ws)" using inv by (simp add: tr_inv_def)
  then obtain T where T: "0 < B" "store_ok B T h" "\<forall>w \<in> set (v # ws). vec_ok B T h w"
    by (rule vecs_okE)
  then have vok: "vec_ok B T h v" by simp
  note step = tr_step_okI [OF inv T(2,3)]
  consider (tail) "\<not> BP_WIDTH B dvd sz v" | (first) "sz v = 0"
    | (nodes) "BP_WIDTH B dvd sz v" "BP_WIDTH B \<le> sz v"
    using dvd_imp_le by blast
  then show ?thesis
  proof cases
    case tail
    obtain v' h' T' where s: "vset B tr_vector h v (sz v) x = Some (v', h')" "store_ok B T' h'"
      "extends T T'" "keeps tr_vector (vid v) h h'" "vec_ok B T' h' (v'\<lparr>sz := Suc (sz v')\<rparr>)"
      "vlist B h' (v'\<lparr>sz := Suc (sz v')\<rparr>) = vlist B h v @ [x]" "vid v' = vid v" "sz v' = sz v"
      using push_set_ok [OF T(1,2) vok tail, of tr_vector x] by blast
    have "sz v AND BP_MASK B \<noteq> 0" using tail by (simp add: and_BP_MASK dvd_eq_mod_eq_0)
    then have "tr_mut_push_back B h v x = Some (v'\<lparr>sz := Suc (sz v')\<rparr>, h')"
      using s(1,8) by (simp add: tr_mut_push_back_def tr_mut_set_vset)
    moreover have "tr_step_ok B h v ws (v'\<lparr>sz := Suc (sz v')\<rparr>) h' (vlist B h v @ [x])"
      using step [OF s(2-6)] s(7) by simp
    ultimately show ?thesis by blast
  next
    case first
    have v0: "shift v = 0" "owns_root h v" using inv first by (auto simp: tr_inv_def)
    with vok obtain K where "T (root v) = Some (K, 0)" "K * B = 0" by (auto simp: vec_ok_def)
    with T(1) have r: "T (root v) = Some (0, 0)" by simp
    obtain h' where h': "store_leaf h (root v) 0 x = Some h'" "store_ok B T h'"
      using store_leaf_ok [OF T(2) r BP_WIDTH_pos] by blast
    have "\<not> protected tr_vector (vid v) h (root v)"
      using v0(2) by (auto simp: protected_def owns_root_def)
    then have k: "keeps tr_vector (vid v) h h'" using keeps_store_leaf [OF keeps_refl _ h'(1)] by blast
    let ?v = "v\<lparr>sz := Suc 0\<rparr>"
    have "val B h' (root v) 0 0 = Some x"
      using val_store_leaf [OF h'(1), of B "root v" 0 0] by simp
    then have "vec_ok B T h' ?v" "vlist B h' ?v = vlist B h v @ [x]"
      using r v0(1) first vlist_val [OF T(1), of ?v 0 h'] by (auto simp: vec_ok_def vlist_def Suc_le_eq)
    then have "tr_step_ok B h v ws ?v h' (vlist B h v @ [x])"
      using step [OF h'(2) extends_refl k] by simp
    moreover have "tr_mut_push_back B h v x = Some (?v, h')"
      using first h'(1) by (simp add: tr_mut_push_back_def)
    ultimately show ?thesis by blast
  next
    case nodes
    obtain v' h' T' where s: "push_new B tr_vector (vid v) h v x = Some (v', h')" "store_ok B T' h'"
      "extends T T'" "keeps tr_vector (vid v) h h'" "vec_ok B T' h' v'"
      "vlist B h' v' = vlist B h v @ [x]" "vid v' = vid v"
      using push_new_ok [OF T(1,2) vok nodes(1), of tr_vector "vid v" x] by blast
    have "tr_mut_push_back B h v x = Some (v', h')"
      using s(1) nodes by (simp add: tr_mut_push_back_def and_BP_MASK dvd_eq_mod_eq_0)
    moreover have "tr_step_ok B h v ws v' h' (vlist B h v @ [x])"
      using step [OF s(2-7)] by simp
    ultimately show ?thesis by blast
  qed
qed

section \<open>Batches\<close>

datatype 'a tr_op = Mut_set nat 'a | Mut_push_back 'a

fun tr_apply :: "nat \<Rightarrow> ('a::zero) store \<Rightarrow> vec \<Rightarrow> 'a tr_op \<Rightarrow> (vec \<times> 'a store) option" where
  "tr_apply B h v (Mut_set i x) = tr_mut_set B h v i x"
| "tr_apply B h v (Mut_push_back x) = tr_mut_push_back B h v x"

fun tr_run :: "nat \<Rightarrow> ('a::zero) store \<Rightarrow> vec \<Rightarrow> 'a tr_op list \<Rightarrow> (vec \<times> 'a store) option" where
  "tr_run B h v [] = Some (v, h)"
| "tr_run B h v (op # ops) = do { (v', h') \<leftarrow> tr_apply B h v op; tr_run B h' v' ops }"

text \<open>The same batch on lists; None when an index is out of range.\<close>

fun list_apply :: "'a list \<Rightarrow> 'a tr_op \<Rightarrow> 'a list option" where
  "list_apply xs (Mut_set i x) = (if i < length xs then Some (xs[i := x]) else None)"
| "list_apply xs (Mut_push_back x) = Some (xs @ [x])"

fun list_run :: "'a list \<Rightarrow> 'a tr_op list \<Rightarrow> 'a list option" where
  "list_run xs [] = Some xs"
| "list_run xs (op # ops) = do { ys \<leftarrow> list_apply xs op; list_run ys ops }"

lemma tr_apply_ok:
  assumes "tr_inv B h v ws" "list_apply (vlist B h v) op = Some ys"
  shows "\<exists>v' h'. tr_apply B h v op = Some (v', h') \<and> tr_step_ok B h v ws v' h' ys"
proof (cases op)
  case (Mut_set i x)
  with assms(2) have "i < length (vlist B h v)" "ys = (vlist B h v)[i := x]"
    by (auto split: if_splits)
  with Mut_set tr_mut_set_ok [OF assms(1), of i x] show ?thesis by simp
next
  case (Mut_push_back x)
  with assms(2) tr_mut_push_back_ok [OF assms(1), of x] show ?thesis by simp
qed

lemma tr_run_ok:
  assumes "tr_inv B h v ws" "list_run (vlist B h v) ops = Some ys"
  shows "\<exists>v' h'. tr_run B h v ops = Some (v', h') \<and> tr_step_ok B h v ws v' h' ys"
  using assms
proof (induction ops arbitrary: h v)
  case Nil
  then show ?case by (simp add: tr_step_ok_def)
next
  case (Cons op ops)
  from Cons.prems(2) obtain xs where xs: "list_apply (vlist B h v) op = Some xs"
    "list_run xs ops = Some ys" by (auto simp: bind_rules)
  obtain v1 h1 where s: "tr_apply B h v op = Some (v1, h1)" "tr_step_ok B h v ws v1 h1 xs"
    using tr_apply_ok [OF Cons.prems(1) xs(1)] by blast
  then obtain v' h' where t: "tr_run B h1 v1 ops = Some (v', h')" "tr_step_ok B h1 v1 ws v' h' ys"
    using Cons.IH [of h1 v1] xs(2) by (auto simp: tr_step_ok_def)
  have "tr_step_ok B h v ws v' h' ys"
    using s(2) t(2) keeps_trans [of tr_vector "vid v" h h1 h'] by (auto simp: tr_step_ok_def)
  with s(1) t(1) show ?case by simp
qed

text \<open>The start of a batch: a transient of a non-empty vector, and a new one.\<close>

lemma make_transient_inv:
  assumes "vecs_ok B h vs" "v \<in> set vs" "sz v \<noteq> 0"
    and "\<forall>a n. cells h a = Some n \<longrightarrow> nid n \<noteq> c" "make_transient c v = (t, c')"
  shows "tr_inv B h t vs \<and> vlist B h t = vlist B h v"
proof -
  have t: "t = v\<lparr>vid := c\<rparr>" using assms(5) by (auto simp: make_transient_def get_unique_id_def)
  obtain T where T: "0 < B" "store_ok B T h" "\<forall>v \<in> set vs. vec_ok B T h v"
    using assms(1) by (rule vecs_okE)
  then have "\<forall>w \<in> set vs. unshared B tr_vector c h w" using unshared_fresh assms(4) by blast
  with t vecs_ok_vid [OF assms(1,2)] assms(3) show ?thesis by (simp add: tr_inv_def)
qed

lemma tr_new_inv:
  assumes "vecs_ok B h vs" "\<forall>a n. cells h a = Some n \<longrightarrow> nid n \<noteq> c" "tr_new B h c = (t, h', c')"
  shows "tr_inv B h' t vs \<and> vlist B h' t = [] \<and> (\<forall>w \<in> set vs. vlist B h' w = vlist B h w)"
proof -
  have n: "new_vec B c h = (t, h')"
    using assms(3) by (auto simp: tr_new_def get_unique_id_def split: prod.splits)
  note t = new_vec_ok [OF assms(1) n]
  obtain T where T: "0 < B" "store_ok B T h" "\<forall>v \<in> set vs. vec_ok B T h v"
    using assms(1) by (rule vecs_okE)
  have "h' = snd (alloc h (new_node B leaves c))"
    using n by (auto simp: new_vec_def alloc_def)
  then have "keeps tr_vector c h h'" using keeps_alloc(1) [OF keeps_refl T(2), of "new_node B leaves c"]
    by simp
  moreover have "\<forall>w \<in> set vs. unshared B tr_vector c h w" using T unshared_fresh assms(2) by blast
  ultimately have "\<forall>w \<in> set vs. unshared B tr_vector c h' w" using unshared_keeps by blast
  with t show ?thesis by (auto simp: tr_inv_def owns_root_def)
qed

end
