(* ===== verification/Bp_Iterator.thy ===== *)
theory Bp_Iterator imports
  Transient
begin

text \<open>
  The iterators of contentious/bp_vector_iterator.h. An iterator keeps the leaf it is in and the
  offset in it (\<open>cur\<close>, with \<open>end\<close> always the end of that leaf); only \<open>cur\<close> is compared. The const
  iterator reads; the mutable one copies, while it moves, the nodes its vector does not own, by
  comparing ids whatever the class of the vector.
\<close>

section \<open>const\_iterator\<close>

record iter =
  it_root :: addr
  it_shift :: nat
  it_i :: nat
  it_sz :: nat
  it_id :: id32
  it_leaf :: addr
  it_off :: nat

definition it_eq :: "iter \<Rightarrow> iter \<Rightarrow> bool" where
  "it_eq a b \<longleftrightarrow> it_leaf a = it_leaf b \<and> it_off a = it_off b"

definition it_deref :: "'a store \<Rightarrow> iter \<Rightarrow> 'a option" where
  "it_deref h it = load_leaf h (it_leaf it) (it_off it)"

definition cbegin :: "nat \<Rightarrow> 'a store \<Rightarrow> vec \<Rightarrow> iter option" where
  "cbegin B h v = do {
     l \<leftarrow> walk B h (root v) (shift v) 0;
     Some \<lparr>it_root = root v, it_shift = shift v, it_i = 0, it_sz = sz v, it_id = vid v,
       it_leaf = l, it_off = 0 AND BP_MASK B\<rparr> }"

definition citer_inc :: "nat \<Rightarrow> 'a store \<Rightarrow> iter \<Rightarrow> iter option" where
  "citer_inc B h it =
    (if it_off it + 1 \<noteq> BP_WIDTH B then Some (it\<lparr>it_off := it_off it + 1\<rparr>)
     else if it_i it + BP_WIDTH B = it_sz it then
       Some (it\<lparr>it_off := it_off it + 1, it_i := it_i it + BP_WIDTH B\<rparr>)
     else do {
       l \<leftarrow> walk B h (it_root it) (it_shift it) (it_i it + BP_WIDTH B);
       Some (it\<lparr>it_i := it_i it + BP_WIDTH B, it_leaf := l, it_off := 0\<rparr>) })"

text \<open>Where \<open>operator+\<close> and \<open>operator+=\<close> go when they leave the leaf: the index to look up, cut to the
  last one, and the extra step past it.\<close>

definition add_target :: "nat \<Rightarrow> iter \<Rightarrow> nat \<Rightarrow> nat \<times> nat" where
  "add_target B it n =
    (let i = it_i it + (BP_WIDTH B - (BP_WIDTH B - it_off it) + n)
     in if it_sz it \<le> i then (it_sz it - 1, 1) else (i, 0))"

definition citer_add :: "nat \<Rightarrow> 'a store \<Rightarrow> iter \<Rightarrow> nat \<Rightarrow> iter option" where
  "citer_add B h it n =
    (if it_sz it = 0 \<or> n = 0 then Some it
     else if n < BP_WIDTH B - it_off it then Some (it\<lparr>it_off := it_off it + n\<rparr>)
     else (let (i, plusplus) = add_target B it n in do {
       l \<leftarrow> walk B h (it_root it) (it_shift it) i;
       Some (it\<lparr>it_leaf := l, it_off := (i AND BP_MASK B) + plusplus,
         it_i := i - (i AND BP_MASK B)\<rparr>) }))"

definition cend :: "nat \<Rightarrow> 'a store \<Rightarrow> vec \<Rightarrow> iter option" where
  "cend B h v = do { it \<leftarrow> cbegin B h v; citer_add B h it (sz v) }"

text \<open>The loop \<open>for (it = first; it != e; ++it)\<close> over the values.\<close>

partial_function (option) collect :: "nat \<Rightarrow> 'a store \<Rightarrow> iter \<Rightarrow> iter \<Rightarrow> 'a list option" where
  "collect B h it e =
    (if it_eq it e then Some []
     else do { x \<leftarrow> it_deref h it; it' \<leftarrow> citer_inc B h it;
               xs \<leftarrow> collect B h it' e; Some (x # xs) })"

declare collect.simps [code]

section \<open>Mutable iterator\<close>

text \<open>The constructor copies the path of index 0 and, if need be, the root of the vector itself.\<close>

definition it_begin :: "nat \<Rightarrow> 'a store \<Rightarrow> vec \<Rightarrow> (iter \<times> vec \<times> 'a store) option" where
  "it_begin B h v = do {
     (r, h1) \<leftarrow> cow_root tr_vector (vid v) h (root v);
     (l, h2) \<leftarrow> cow_walk B tr_vector (vid v) h1 r (shift v) 0;
     Some (\<lparr>it_root = r, it_shift = shift v, it_i = 0, it_sz = sz v, it_id = vid v,
       it_leaf = l, it_off = 0\<rparr>, v\<lparr>root := r\<rparr>, h2) }"

definition iter_inc :: "nat \<Rightarrow> 'a store \<Rightarrow> iter \<Rightarrow> (iter \<times> 'a store) option" where
  "iter_inc B h it =
    (if it_off it + 1 \<noteq> BP_WIDTH B then Some (it\<lparr>it_off := it_off it + 1\<rparr>, h)
     else if it_i it + BP_WIDTH B = it_sz it then
       Some (it\<lparr>it_off := it_off it + 1, it_i := it_i it + BP_WIDTH B\<rparr>, h)
     else do {
       (l, h') \<leftarrow> cow_walk B tr_vector (it_id it) h (it_root it) (it_shift it) (it_i it + BP_WIDTH B);
       Some (it\<lparr>it_i := it_i it + BP_WIDTH B, it_leaf := l, it_off := 0\<rparr>, h') })"

definition iter_add :: "nat \<Rightarrow> 'a store \<Rightarrow> iter \<Rightarrow> nat \<Rightarrow> (iter \<times> 'a store) option" where
  "iter_add B h it n =
    (if it_sz it = 0 \<or> n = 0 then Some (it, h)
     else if n < BP_WIDTH B - it_off it then Some (it\<lparr>it_off := it_off it + n\<rparr>, h)
     else (let (i, plusplus) = add_target B it n in do {
       (l, h') \<leftarrow> cow_walk B tr_vector (it_id it) h (it_root it) (it_shift it) i;
       Some (it\<lparr>it_leaf := l, it_off := (i AND BP_MASK B) + plusplus,
         it_i := i - (i AND BP_MASK B)\<rparr>, h') }))"

definition it_assign :: "'a store \<Rightarrow> iter \<Rightarrow> 'a \<Rightarrow> 'a store option" where
  "it_assign h it x = store_leaf h (it_leaf it) (it_off it) x"

section \<open>Where an iterator stands\<close>

text \<open>\<open>cur_at B h v it n\<close>: \<open>it\<close> walks \<open>v\<close> and its \<open>cur\<close> is the place of index \<open>n\<close>, or one past the
  last index when \<open>n\<close> is the size.\<close>

definition cur_at :: "nat \<Rightarrow> 'a store \<Rightarrow> vec \<Rightarrow> iter \<Rightarrow> nat \<Rightarrow> bool" where
  "cur_at B h v it n \<longleftrightarrow> it_root it = root v \<and> it_shift it = shift v \<and> it_sz it = sz v \<and>
    (if n < sz v
     then walk B h (root v) (shift v) n = Some (it_leaf it) \<and> it_off it = n mod BP_WIDTH B \<and>
       it_i it + it_off it = n
     else n = sz v \<and> (0 < n \<longrightarrow> walk B h (root v) (shift v) (n - 1) = Some (it_leaf it) \<and>
       it_off it = (n - 1) mod BP_WIDTH B + 1))"

lemma walk_leaf:
  assumes "0 < B" "vec_ok B T h v" "i < sz v"
  shows "\<exists>l. walk B h (root v) (shift v) i = Some l \<and>
    load_leaf h l (i mod BP_WIDTH B) = Some (vlist B h v ! i)"
  using vec_ok_get [OF assms] by (auto simp: vget_def bind_rules and_BP_MASK)

lemma walk_leaf_position:
  assumes "0 < B" "store_ok B T h" "vec_ok B T h v" "i < sz v" "walk B h (root v) (shift v) i = Some l"
  shows "T l = Some (0, i div BP_WIDTH B)"
proof -
  obtain K where K: "shift v = K * B" "T (root v) = Some (K, 0)" "sz v \<le> BP_WIDTH B ^ Suc K"
    using assms(3) by (auto simp: vec_ok_def)
  have "0 = i div BP_WIDTH B ^ Suc K" using K(3) assms(4) by simp
  from node_at_position [OF assms(2) K(2) this, of K l] assms(1,5) K(1) show ?thesis
    by (simp add: walk_node_at)
qed

lemma cur_at_deref:
  assumes "0 < B" "vec_ok B T h v" "cur_at B h v it n" "n < sz v"
  shows "it_deref h it = Some (vlist B h v ! n)"
  using walk_leaf [OF assms(1,2,4)] assms(3,4) by (auto simp: cur_at_def it_deref_def)

lemma mod_width_step:
  assumes "0 < (w::nat)"
  shows "n mod w + 1 \<noteq> w \<Longrightarrow> Suc n mod w = Suc (n mod w) \<and> Suc n div w = n div w"
    and "n mod w + 1 = w \<Longrightarrow> Suc n mod w = 0 \<and> n - n mod w + w = Suc n"
  using assms by (auto simp: mod_Suc div_Suc)

lemma cur_at_begin:
  assumes "0 < B" "vec_ok B T h v" "0 < sz v"
  shows "\<exists>it. cbegin B h v = Some it \<and> cur_at B h v it 0"
  using walk_leaf [OF assms] assms(3) by (auto simp: cbegin_def cur_at_def)

text \<open>Indices of one leaf reach the same node.\<close>

lemma walk_same_leaf:
  assumes "0 < B" "vec_ok B T h v" "i div BP_WIDTH B = j div BP_WIDTH B"
  shows "walk B h (root v) (shift v) i = walk B h (root v) (shift v) j"
proof -
  obtain K where K: "shift v = K * B" using assms(2) by (auto simp: vec_ok_def)
  show ?thesis
    unfolding K walk_node_at [OF assms(1)] by (rule node_at_cong) (simp_all add: assms(3))
qed

lemma cur_at_inc:
  assumes "0 < B" "vec_ok B T h v" "cur_at B h v it n" "n < sz v"
  shows "\<exists>it'. citer_inc B h it = Some it' \<and> cur_at B h v it' (Suc n)"
proof -
  let ?w = "BP_WIDTH B"
  have it: "it_root it = root v" "it_shift it = shift v" "it_sz it = sz v"
    "walk B h (root v) (shift v) n = Some (it_leaf it)" "it_off it = n mod ?w" "it_i it + it_off it = n"
    using assms(3,4) by (auto simp: cur_at_def)
  show ?thesis
  proof (cases "it_off it + 1 = ?w")
    case False
    then have m: "Suc n mod ?w = Suc (n mod ?w)" "Suc n div ?w = n div ?w"
      using mod_width_step(1) [OF BP_WIDTH_pos, of n B] it(5) by auto
    have "walk B h (root v) (shift v) (Suc n) = Some (it_leaf it)"
      using walk_same_leaf [OF assms(1,2) m(2)] it(4) by simp
    with False m it assms(4) show ?thesis
      by (auto simp: citer_inc_def cur_at_def)
  next
    case True
    then have m: "Suc n mod ?w = 0" "it_i it + ?w = Suc n"
      using mod_width_step(2) [OF BP_WIDTH_pos, of n B] it(5,6) by auto
    show ?thesis
    proof (cases "Suc n < sz v")
      case False
      then have "sz v = Suc n" using assms(4) by simp
      with True m it show ?thesis by (auto simp: citer_inc_def cur_at_def)
    next
      case less: True
      obtain l where "walk B h (root v) (shift v) (Suc n) = Some l"
        using walk_leaf [OF assms(1,2) less] by blast
      with True m it less show ?thesis by (auto simp: citer_inc_def cur_at_def)
    qed
  qed
qed

text \<open>\<open>cbegin() + n\<close>.\<close>

lemma cur_at_add:
  assumes "0 < B" "vec_ok B T h v" "cur_at B h v it 0" "n \<le> sz v" "0 < sz v"
  shows "\<exists>it'. citer_add B h it n = Some it' \<and> cur_at B h v it' n"
proof -
  let ?w = "BP_WIDTH B"
  have it: "it_root it = root v" "it_shift it = shift v" "it_sz it = sz v"
    "walk B h (root v) (shift v) 0 = Some (it_leaf it)" "it_off it = 0" "it_i it = 0"
    using assms(3,5) by (auto simp: cur_at_def)
  show ?thesis
  proof (cases "n < ?w")
    case True
    have "walk B h (root v) (shift v) i = Some (it_leaf it)" if "i < ?w" for i
      using walk_same_leaf [OF assms(1,2), of i 0] that it(4) by simp
    moreover have "n - 1 < ?w" using True by simp
    ultimately show ?thesis
      using True it assms(3,4,5) by (cases "n = 0") (auto simp: citer_add_def cur_at_def)
  next
    case False
    then have n0: "0 < n" by (cases n) auto
    let ?i = "if sz v \<le> n then sz v - 1 else n"
    have "?i < sz v" using assms(5) by simp
    from walk_leaf [OF assms(1,2) this]
    obtain l where l: "walk B h (root v) (shift v) ?i = Some l" by blast
    have m: "i mod ?w \<le> i" for i by simp
    from l False n0 it assms(4,5) m show ?thesis
      by (auto simp: citer_add_def add_target_def cur_at_def and_BP_MASK Let_def split: if_splits)
  qed
qed

text \<open>Different positions have different \<open>cur\<close>s, since a leaf has only one position.\<close>

lemma cur_at_neq_end:
  assumes "0 < B" "store_ok B T h" "vec_ok B T h v"
    and "cur_at B h v it n" "n < m" "cur_at B h v e m" "m \<le> sz v"
  shows "\<not> it_eq it e"
proof
  assume eq: "it_eq it e"
  let ?w = "BP_WIDTH B"
  have it: "walk B h (root v) (shift v) n = Some (it_leaf it)" "it_off it = n mod ?w"
    using assms(4,5,7) by (auto simp: cur_at_def)
  have n: "T (it_leaf it) = Some (0, n div ?w)"
    using walk_leaf_position [OF assms(1-3) _ it(1)] assms(5,7) by simp
  show False
  proof (cases "m < sz v")
    case True
    then have e: "walk B h (root v) (shift v) m = Some (it_leaf e)" "it_off e = m mod ?w"
      using assms(6) by (auto simp: cur_at_def)
    have "T (it_leaf e) = Some (0, m div ?w)" using walk_leaf_position [OF assms(1-3) True e(1)] .
    with n eq it(2) e(2) have "n = m" by (intro div_eq_mod_eq [of n ?w m]) (auto simp: it_eq_def)
    with assms(5) show False by simp
  next
    case False
    then have m: "m = sz v" "0 < m" using assms(5,7) by auto
    then have e: "walk B h (root v) (shift v) (m - 1) = Some (it_leaf e)" "it_off e = (m - 1) mod ?w + 1"
      using assms(6) by (auto simp: cur_at_def)
    have "T (it_leaf e) = Some (0, (m - 1) div ?w)"
      using walk_leaf_position [OF assms(1-3) _ e(1)] m by simp
    with n eq have d: "n div ?w = (m - 1) div ?w" by (auto simp: it_eq_def)
    have "n mod ?w = (m - 1) mod ?w + 1" using eq it(2) e(2) by (simp add: it_eq_def)
    with d have "n = m - 1 + 1" by (metis add.assoc div_mult_mod_eq)
    with assms(5) show False by simp
  qed
qed

text \<open>The loop from position \<open>n\<close> to position \<open>m\<close> reads exactly that slice.\<close>

lemma cur_at_unique:
  "cur_at B h v it n \<Longrightarrow> cur_at B h v e n \<Longrightarrow> 0 < sz v \<Longrightarrow> it_eq it e"
  by (auto simp: cur_at_def it_eq_def split: if_splits)

lemma collect_slice:
  assumes "0 < B" "store_ok B T h" "vec_ok B T h v" "0 < sz v"
    and "cur_at B h v e m" "m \<le> sz v"
  shows "cur_at B h v it n \<Longrightarrow> n \<le> m \<Longrightarrow>
    collect B h it e = Some (take (m - n) (drop n (vlist B h v)))"
proof (induction "m - n" arbitrary: it n)
  case 0
  then have "n = m" by simp
  then have "it_eq it e" using cur_at_unique [OF 0(2)] assms(4,5) by simp
  with \<open>n = m\<close> show ?case by (simp add: collect.simps)
next
  case (Suc k)
  then have lt: "n < m" "n < sz v" using assms(6) by auto
  have ne: "\<not> it_eq it e" using cur_at_neq_end [OF assms(1-3) Suc(3) lt(1) assms(5,6)] .
  obtain it' where it': "citer_inc B h it = Some it'" "cur_at B h v it' (Suc n)"
    using cur_at_inc [OF assms(1,3) Suc(3) lt(2)] by blast
  have "collect B h it' e = Some (take (m - Suc n) (drop (Suc n) (vlist B h v)))"
    using Suc(1) [OF _ it'(2)] Suc(2) lt(1) by simp
  moreover have "take (m - n) (drop n (vlist B h v)) =
      vlist B h v ! n # take (m - Suc n) (drop (Suc n) (vlist B h v))"
    using lt by (simp add: Cons_nth_drop_Suc [symmetric] Suc_diff_Suc [symmetric])
  ultimately show ?case
    using ne it'(1) cur_at_deref [OF assms(1,3) Suc(3) lt(2)] by (subst collect.simps) simp
qed

lemma cend_ok:
  assumes "0 < B" "vec_ok B T h v" "0 < sz v"
  shows "\<exists>it e. cbegin B h v = Some it \<and> cend B h v = Some e \<and> cur_at B h v it 0 \<and>
    cur_at B h v e (sz v)"
  using cur_at_begin [OF assms] cur_at_add [OF assms(1,2) _ le_refl assms(3)]
  by (fastforce simp: cend_def)

lemma cbegin_empty:
  assumes "sz v = 0" "shift v = 0"
  shows "\<exists>it. cbegin B h v = Some it \<and> cend B h v = Some it"
  using assms by (simp add: cbegin_def cend_def citer_add_def)

text \<open>A loop from \<open>cbegin() + a\<close> to \<open>cbegin() + b\<close>.\<close>

definition read_range :: "nat \<Rightarrow> 'a store \<Rightarrow> vec \<Rightarrow> nat \<Rightarrow> nat \<Rightarrow> 'a list option" where
  "read_range B h v a b = do {
     it0 \<leftarrow> cbegin B h v;
     it \<leftarrow> citer_add B h it0 a;
     e \<leftarrow> citer_add B h it0 b;
     collect B h it e }"

lemma read_range_ok:
  assumes "vecs_ok B h vs" "v \<in> set vs" "a \<le> b" "b \<le> sz v" "0 < sz v"
  shows "read_range B h v a b = Some (take (b - a) (drop a (vlist B h v)))"
proof -
  obtain T where T: "0 < B" "store_ok B T h" "\<forall>v \<in> set vs. vec_ok B T h v"
    using assms(1) by (rule vecs_okE)
  then have v: "vec_ok B T h v" using assms(2) by blast
  obtain it0 where it0: "cbegin B h v = Some it0" "cur_at B h v it0 0"
    using cur_at_begin [OF T(1) v assms(5)] by blast
  obtain it e where "citer_add B h it0 a = Some it" "cur_at B h v it a"
    "citer_add B h it0 b = Some e" "cur_at B h v e b"
    using cur_at_add [OF T(1) v it0(2) _ assms(5)] assms(3,4) by (meson le_trans)
  then show ?thesis
    using it0(1) collect_slice [OF T(1,2) v assms(5) _ assms(4) _ assms(3)]
    by (simp add: read_range_def)
qed

section \<open>Properties\<close>

text \<open>C24. The range loop over a persistent vector: starting at \<open>cbegin()\<close> and incrementing until
  \<open>cend()\<close> terminates, reads no undefined place, and yields exactly the values of the vector in
  index order; the end iterator is recognised by its \<open>cur\<close> alone.\<close>

theorem iterate_all:
  assumes "vecs_ok B h vs" and "v \<in> set vs" and "sz v = 0 \<longrightarrow> shift v = 0"
  shows "\<exists>it e. cbegin B h v = Some it \<and> cend B h v = Some e \<and> collect B h it e = Some (vlist B h v)"
proof (cases "sz v = 0")
  case True
  then show ?thesis using cbegin_empty [of v B h] assms(3)
    by (auto simp: vlist_def it_eq_def collect.simps)
next
  case False
  obtain T where T: "0 < B" "store_ok B T h" "\<forall>v \<in> set vs. vec_ok B T h v"
    using assms(1) by (rule vecs_okE)
  then have v: "vec_ok B T h v" using assms(2) by blast
  obtain it e where it: "cbegin B h v = Some it" "cend B h v = Some e" "cur_at B h v it 0"
    "cur_at B h v e (sz v)" using cend_ok [OF T(1) v] False by blast
  then show ?thesis using collect_slice [OF T(1,2) v _ it(4) _ it(3)] False by auto
qed

theorem iterate_all_witness:
  "\<exists>v h it e. cbegin 2 h v = Some it \<and> cend 2 h v = Some e \<and>
     collect 2 h it e = Some [3, 1, 4, 1, 5::int]"
proof -
  obtain v h where n: "ps_new 2 (empty_store::int store) = (v, h)" "vecs_ok 2 h [v]" "vlist 2 h v = []"
    by (rule fresh_vec [OF bits_ok_small(2)])
  obtain vs h' where r: "vecs_ok 2 h' (vs @ [v])" "length vs = 6"
    "\<forall>k \<le> 5. vlist 2 h' (vs ! k) = take k [3, 1, 4, 1, 5::int]"
    using ps.push_all_versions [OF n(2), of v "[3, 1, 4, 1, 5::int]"] n(3) by auto
  then have w: "vs ! 5 \<in> set (vs @ [v])" "vlist 2 h' (vs ! 5) = [3, 1, 4, 1, 5]" by auto
  have "length (vlist 2 h' (vs ! 5)) = 5" by (simp only: w(2)) simp
  then have "sz (vs ! 5) \<noteq> 0" by simp
  then show ?thesis using iterate_all [OF r(1) w(1)] w(2) by auto
qed

text \<open>The loop over a chunk, from \<open>cbegin() + a\<close> to \<open>cbegin() + b\<close> as the parallel operations
  split a vector, reads exactly the values of the indices from a below b.\<close>

theorem iterate_range:
  assumes "vecs_ok B h vs" and "v \<in> set vs" and "a \<le> b" and "b \<le> sz v" and "0 < sz v"
  shows "read_range B h v a b = Some (take (b - a) (drop a (vlist B h v)))"
  by (rule read_range_ok [OF assms])

theorem iterate_range_witness:
  "\<exists>v h. read_range 1 h v 1 4 = Some [1, 4, 1::int]"
proof -
  obtain v h where n: "ps_new 1 (empty_store::int store) = (v, h)" "vecs_ok 1 h [v]" "vlist 1 h v = []"
    by (rule fresh_vec [OF bits_ok_small(1)])
  obtain vs h' where r: "vecs_ok 1 h' (vs @ [v])" "length vs = 6"
    "\<forall>k \<le> 5. vlist 1 h' (vs ! k) = take k [3, 1, 4, 1, 5::int]"
    using ps.push_all_versions [OF n(2), of v "[3, 1, 4, 1, 5::int]"] n(3) by auto
  then have w: "vs ! 5 \<in> set (vs @ [v])" "vlist 1 h' (vs ! 5) = [3, 1, 4, 1, 5]" by auto
  have "length (vlist 1 h' (vs ! 5)) = 5" by (simp only: w(2)) simp
  then have "sz (vs ! 5) = 5" by simp
  then show ?thesis using iterate_range [OF r(1) w(1), of 1 4] w(2) by auto
qed

end
