(* ===== verification/Bp_Assign.thy ===== *)
theory Bp_Assign imports
  Bp_Iterator
begin

text \<open>
  \<open>bp_vector_base::assign\<close> (contentious/bp_vector_base-impl.h) and its helpers: the copy of a range of
  values from another vector, which takes over whole branches where the range covers them.
  Vector operations here return the vector with its possibly new root.
\<close>

section \<open>Helpers\<close>

text \<open>\<open>next_multiple\<close> of util.h, on 64-bit integers that stay far from the limits.\<close>

definition next_multiple :: "int \<Rightarrow> int \<Rightarrow> int" where
  "next_multiple i m = (i + m - 1) AND NOT (m - 1)"

definition next_mult :: "nat \<Rightarrow> nat \<Rightarrow> nat" where
  "next_mult i m = nat (next_multiple (int i) (int m))"

text \<open>A branch pointer that may be null, and \<open>None\<close> for an undefined access.\<close>

definition branch_ptr :: "'a store \<Rightarrow> addr option \<Rightarrow> nat \<Rightarrow> addr option option" where
  "branch_ptr h p j = do { a \<leftarrow> p; n \<leftarrow> cells h a; bs \<leftarrow> as_branches n; nth_opt bs j }"

function contained_loop ::
    "nat \<Rightarrow> 'a store \<Rightarrow> nat \<Rightarrow> nat \<Rightarrow> nat \<Rightarrow> addr option \<Rightarrow> addr option \<Rightarrow> nat option" where
  "contained_loop B h a b s na nb =
    (if s = 0 then Some s
     else if na \<noteq> nb then Some s
     else if B = 0 \<or> s < B then None
     else do {
       na' \<leftarrow> branch_ptr h na (slot B a s);
       nb' \<leftarrow> branch_ptr h na (slot B b s);
       contained_loop B h a b (s - B) na' nb' })"
  by pat_completeness auto
termination by (relation "measure (\<lambda>(B, h, a, b, s, na, nb). s)") auto

declare contained_loop.simps [simp del]

definition contained_at_shift :: "nat \<Rightarrow> 'a store \<Rightarrow> vec \<Rightarrow> nat \<Rightarrow> nat \<Rightarrow> nat option" where
  "contained_at_shift B h v a b =
    (if a < b then contained_loop B h a b (shift v) (Some (root v)) (Some (root v)) else None)"

text \<open>\<open>get_branch\<close>: the node at a depth of the path of an index, by counting an 8-bit depth down.\<close>

function branch_loop ::
    "nat \<Rightarrow> 'a store \<Rightarrow> addr \<Rightarrow> nat \<Rightarrow> 8 word \<Rightarrow> nat \<Rightarrow> (addr \<times> 8 word) option" where
  "branch_loop B h a s d i =
    (if s = 0 then Some (a, d)
     else if d - 1 = 0 then Some (a, d - 1)
     else if B = 0 \<or> s < B then None
     else do { c \<leftarrow> load_branch h a (slot B i s); branch_loop B h c (s - B) (d - 1) i })"
  by pat_completeness auto
termination by (relation "measure (\<lambda>(B, h, a, s, d, i). s)") auto

function cow_branch_loop ::
    "nat \<Rightarrow> vec_kind \<Rightarrow> id32 \<Rightarrow> 'a store \<Rightarrow> addr \<Rightarrow> nat \<Rightarrow> 8 word \<Rightarrow> nat \<Rightarrow>
      (addr \<times> 8 word \<times> 'a store) option" where
  "cow_branch_loop B kd own h a s d i =
    (if s = 0 then Some (a, d, h)
     else if d - 1 = 0 then Some (a, d - 1, h)
     else if B = 0 \<or> s < B then None
     else do { (c, h') \<leftarrow> cow_child kd own h a (slot B i s);
               cow_branch_loop B kd own h' c (s - B) (d - 1) i })"
  by pat_completeness auto
termination by (relation "measure (\<lambda>(B, kd, own, h, a, s, d, i). s)") auto

declare branch_loop.simps [simp del] cow_branch_loop.simps [simp del]

text \<open>\<open>assert(depth == 0)\<close> and the branches of the node, which must be an inner one.\<close>

definition inner_node :: "'a store \<Rightarrow> addr \<Rightarrow> 8 word \<Rightarrow> addr option" where
  "inner_node h a d =
    (if d \<noteq> 0 then None else do { n \<leftarrow> cells h a; bs \<leftarrow> as_branches n; Some a })"

definition get_branch_const :: "nat \<Rightarrow> 'a store \<Rightarrow> vec \<Rightarrow> nat \<Rightarrow> nat \<Rightarrow> addr option" where
  "get_branch_const B h v depth i = do {
     (a, d) \<leftarrow> branch_loop B h (root v) (shift v) (word_of_nat depth) i;
     inner_node h a d }"

definition get_branch ::
    "nat \<Rightarrow> vec_kind \<Rightarrow> 'a store \<Rightarrow> vec \<Rightarrow> nat \<Rightarrow> nat \<Rightarrow> (addr \<times> vec \<times> 'a store) option" where
  "get_branch B kd h v depth i = do {
     (r, h1) \<leftarrow> cow_root kd (vid v) h (root v);
     (a, d, h2) \<leftarrow> cow_branch_loop B kd (vid v) h1 r (shift v) (word_of_nat depth) i;
     b \<leftarrow> inner_node h2 a d;
     Some (b, v\<lparr>root := r\<rparr>, h2) }"

section \<open>Copying values\<close>

text \<open>\<open>std::copy\<close> over iterators ends with the source range, the written-out loops with the
  destination range.\<close>

partial_function (option) copy_src ::
    "nat \<Rightarrow> 'a store \<Rightarrow> iter \<Rightarrow> iter \<Rightarrow> iter \<Rightarrow> 'a store option" where
  "copy_src B h it e d =
    (if it_eq it e then Some h
     else do { x \<leftarrow> it_deref h it; h1 \<leftarrow> it_assign h d x;
               (d', h2) \<leftarrow> iter_inc B h1 d; it' \<leftarrow> citer_inc B h2 it; copy_src B h2 it' e d' })"

partial_function (option) copy_dst ::
    "nat \<Rightarrow> 'a store \<Rightarrow> iter \<Rightarrow> iter \<Rightarrow> iter \<Rightarrow> 'a store option" where
  "copy_dst B h it d e =
    (if it_eq d e then Some h
     else do { x \<leftarrow> it_deref h it; h1 \<leftarrow> it_assign h d x;
               (d', h2) \<leftarrow> iter_inc B h1 d; it' \<leftarrow> citer_inc B h2 it; copy_dst B h2 it' d' e })"

declare copy_src.simps [code] copy_dst.simps [code]

text \<open>\<open>std::copy(other.cbegin() + a, other.cbegin() + b, this->begin() + a)\<close>.\<close>

definition copy_values_src ::
    "nat \<Rightarrow> 'a store \<Rightarrow> vec \<Rightarrow> vec \<Rightarrow> nat \<Rightarrow> nat \<Rightarrow> (vec \<times> 'a store) option" where
  "copy_values_src B h v w a b = do {
     c0 \<leftarrow> cbegin B h w;
     it \<leftarrow> citer_add B h c0 a;
     e \<leftarrow> citer_add B h c0 b;
     (d0, v1, h1) \<leftarrow> it_begin B h v;
     (d, h2) \<leftarrow> iter_add B h1 d0 a;
     h3 \<leftarrow> copy_src B h2 it e d;
     Some (v1, h3) }"

text \<open>\<open>end = this->begin() + b; for (it = this->begin() + a; it != end; ++it, ++step) *it = *step\<close>.\<close>

definition copy_values_dst ::
    "nat \<Rightarrow> 'a store \<Rightarrow> vec \<Rightarrow> vec \<Rightarrow> nat \<Rightarrow> nat \<Rightarrow> (vec \<times> 'a store) option" where
  "copy_values_dst B h v w a b = do {
     c0 \<leftarrow> cbegin B h w;
     it \<leftarrow> citer_add B h c0 a;
     (d0, v1, h1) \<leftarrow> it_begin B h v;
     (e, h2) \<leftarrow> iter_add B h1 d0 b;
     (d1, v2, h3) \<leftarrow> it_begin B h2 v1;
     (d, h4) \<leftarrow> iter_add B h3 d1 a;
     h5 \<leftarrow> copy_dst B h4 it d e;
     Some (v2, h5) }"

section \<open>Copying branches\<close>

text \<open>\<open>std::copy\<close> of the branches \<open>[x, y)\<close> of one node over those of another.\<close>

definition copy_slots :: "'a store \<Rightarrow> addr \<Rightarrow> addr \<Rightarrow> nat \<Rightarrow> nat \<Rightarrow> 'a store option" where
  "copy_slots h src dst x y = do {
     n \<leftarrow> cells h src; bs \<leftarrow> as_branches n;
     m \<leftarrow> cells h dst; cs \<leftarrow> as_branches m;
     if x \<le> y \<and> y \<le> length bs \<and> y \<le> length cs
     then Some (h\<lparr>cells := (cells h)(dst \<mapsto> m\<lparr>u := U_branches
       (take x cs @ take (y - x) (drop x bs) @ drop y cs)\<rparr>)\<rparr>)
     else None }"

text \<open>\<open>std::copy(other.get_branch(d, i).cbegin() + x, other.get_branch(d, j).cbegin() + y,
  this->get_branch(d, i).begin() + x)\<close>; the two source nodes must be one.\<close>

definition copy_branches ::
    "nat \<Rightarrow> vec_kind \<Rightarrow> 'a store \<Rightarrow> vec \<Rightarrow> vec \<Rightarrow> nat \<Rightarrow> nat \<Rightarrow> nat \<Rightarrow> nat \<Rightarrow> nat \<Rightarrow>
      (vec \<times> 'a store) option" where
  "copy_branches B kd h v w d i j x y = do {
     src \<leftarrow> get_branch_const B h w d i;
     src' \<leftarrow> get_branch_const B h w d j;
     (dst, v', h1) \<leftarrow> get_branch B kd h v d i;
     if src \<noteq> src' then None
     else do { h2 \<leftarrow> copy_slots h1 src dst x y; Some (v', h2) } }"

section \<open>assign\<close>

text \<open>Phase 2, upwards: the result is the last interval reached and the vector.\<close>

partial_function (option) assign_up ::
    "nat \<Rightarrow> vec_kind \<Rightarrow> 'a store \<Rightarrow> vec \<Rightarrow> vec \<Rightarrow> nat \<Rightarrow> nat \<Rightarrow> nat \<Rightarrow> nat \<Rightarrow> (vec \<times> 'a store) option" where
  "assign_up B kd h v w interval last_interval ar s =
    (if interval = last_interval then Some (v, h)
     else (let interval = push_bit B interval;
               ai = ar;
               ar = next_mult ai interval;
               s = s + B;
               d = s div B
       in if ai = ar then assign_up B kd h v w interval last_interval ar s
          else (let d = calc_depth B v - d; ai_off = slot B ai s; ar_off = slot B ar s
            in if ai_off = 0 \<or> ar_off \<noteq> 0 then None
               else do {
                 (v', h') \<leftarrow> copy_branches B kd h v w d ai (ar - 1) ai_off (BP_WIDTH B);
                 assign_up B kd h' v' w interval last_interval ar s })))"

text \<open>Phase 3: the branches of the node in which \<open>a\<close> and \<open>b\<close> part.\<close>

definition edge_off :: "nat \<Rightarrow> vec \<Rightarrow> nat \<Rightarrow> nat \<Rightarrow> nat" where
  "edge_off B v i s = (if slot B i s = 0 \<and> i = sz v then BP_WIDTH B else slot B i s)"

definition assign_mid ::
    "nat \<Rightarrow> vec_kind \<Rightarrow> 'a store \<Rightarrow> vec \<Rightarrow> vec \<Rightarrow> nat \<Rightarrow> nat \<Rightarrow> nat \<Rightarrow> nat \<Rightarrow> (vec \<times> 'a store) option" where
  "assign_mid B kd h v w last_s last_d ar br =
    (if ar = br then Some (v, h)
     else copy_branches B kd h v w last_d ar br (edge_off B v ar last_s) (edge_off B v br last_s))"

text \<open>Phase 4, downwards: the result is also the last \<open>br\<close>.\<close>

partial_function (option) assign_down ::
    "nat \<Rightarrow> vec_kind \<Rightarrow> 'a store \<Rightarrow> vec \<Rightarrow> vec \<Rightarrow> nat \<Rightarrow> nat \<Rightarrow> nat \<Rightarrow> nat \<Rightarrow>
      (vec \<times> 'a store \<times> nat) option" where
  "assign_down B kd h v w interval b br s =
    (if interval = BP_WIDTH B then Some (v, h, br)
     else (let interval = drop_bit B interval;
               bi = br;
               br = next_mult b interval;
               s = s - B;
               d = s div B;
               br = (if b \<noteq> br then br - interval else br)
       in if bi = br then assign_down B kd h v w interval b br s
          else (let d = calc_depth B v - d; bi_off = slot B bi s;
                    br_off = (if slot B br s = 0 \<and> bi \<noteq> br then BP_WIDTH B else slot B br s)
            in if bi_off \<noteq> 0 then None
               else do {
                 (v', h') \<leftarrow> copy_branches B kd h v w d bi (br - 1) bi_off br_off;
                 assign_down B kd h' v' w interval b br s })))"

declare assign_up.simps [code] assign_down.simps [code]

definition assign ::
    "nat \<Rightarrow> vec_kind \<Rightarrow> 'a store \<Rightarrow> vec \<Rightarrow> vec \<Rightarrow> nat \<Rightarrow> nat \<Rightarrow> (vec \<times> 'a store) option" where
  "assign B kd h v w a b =
    (if \<not> a < b then None
     else if b - a < BP_WIDTH B then do {
       split \<leftarrow> Some (min (next_mult a (BP_WIDTH B)) b);
       (v1, h1) \<leftarrow> copy_values_src B h v w a split;
       copy_values_src B h1 v1 w split b }
     else do {
       ar \<leftarrow> Some (next_mult a (BP_WIDTH B));
       (v1, h1) \<leftarrow> (if 0 < ar - a then copy_values_dst B h v w a ar else Some (v, h));
       c \<leftarrow> contained_at_shift B h1 v1 a b;
       last_s \<leftarrow> Some (c + B);
       last_d \<leftarrow> Some (last_s div B);
       last_interval \<leftarrow> Some (BP_WIDTH B ^ last_d);
       (v2, h2) \<leftarrow> assign_up B kd h1 v1 w (BP_WIDTH B) last_interval ar 0;
       br \<leftarrow> Some (let br = next_mult b last_interval in if br \<noteq> b then br - last_interval else br);
       (v3, h3) \<leftarrow> assign_mid B kd h2 v2 w last_s (calc_depth B v2 - last_d) (next_mult a last_interval) br;
       (v4, h4, br) \<leftarrow> assign_down B kd h3 v3 w last_interval b br last_s;
       if 0 < b - br then copy_values_dst B h4 v4 w br b else Some (v4, h4) })"

end
