(* ===== verification/Vec_System.thy ===== *)
theory Vec_System imports
  Transient
begin

text \<open>
  Programs over the vector classes: a step relation on the shared store, the id counter and the
  live persistent vectors, with whole transient batches as steps. Its invariant gives the promise
  of the library: no step of a program changes a live vector.
\<close>

section \<open>States and steps\<close>

record 'a vec_state =
  heap :: "'a store"
  next_id :: id32
  live :: "vec list"

definition vec_init :: "'a vec_state" where
  "vec_init = \<lparr>heap = empty_store, next_id = initial_unique_id, live = []\<rparr>"

text \<open>A batch is \<open>make_transient\<close>, mutations, \<open>make_persistent\<close>, and no use of the transient after
  that. The counter must not have run through all its 32 bits.\<close>

inductive vec_step :: "nat \<Rightarrow> ('a::zero) vec_state \<Rightarrow> 'a vec_state \<Rightarrow> bool" for B where
  Step_new: "ps_new B (heap s) = (v, h) \<Longrightarrow> vec_step B s (s\<lparr>heap := h, live := v # live s\<rparr>)"
| Step_push: "v \<in> set (live s) \<Longrightarrow> push_back B ps_vector (heap s) v x = Some (v', h) \<Longrightarrow>
    vec_step B s (s\<lparr>heap := h, live := v' # live s\<rparr>)"
| Step_set: "v \<in> set (live s) \<Longrightarrow> i < sz v \<Longrightarrow> vset B ps_vector (heap s) v i x = Some (v', h) \<Longrightarrow>
    vec_step B s (s\<lparr>heap := h, live := v' # live s\<rparr>)"
| Step_batch: "v \<in> set (live s) \<Longrightarrow> sz v \<noteq> 0 \<Longrightarrow> next_id s \<noteq> - 1 \<Longrightarrow>
    make_transient (next_id s) v = (t, c) \<Longrightarrow> list_run (vlist B (heap s) v) ops \<noteq> None \<Longrightarrow>
    tr_run B (heap s) t ops = Some (t', h) \<Longrightarrow>
    vec_step B s (s\<lparr>heap := h, next_id := c, live := make_persistent t' # live s\<rparr>)"
| Step_new_batch: "next_id s \<noteq> - 1 \<Longrightarrow> tr_new B (heap s) (next_id s) = (t, h0, c) \<Longrightarrow>
    list_run [] ops \<noteq> None \<Longrightarrow> tr_run B h0 t ops = Some (t', h) \<Longrightarrow>
    vec_step B s (s\<lparr>heap := h, next_id := c, live := make_persistent t' # live s\<rparr>)"
| Step_drop: "set ws \<subseteq> set (live s) \<Longrightarrow> vec_step B s (s\<lparr>live := ws\<rparr>)"

definition vec_inv :: "nat \<Rightarrow> 'a vec_state \<Rightarrow> bool" where
  "vec_inv B s \<longleftrightarrow> vecs_ok B (heap s) (live s) \<and> ids_below (next_id s) (heap s) \<and>
    0 < next_id s \<and> (\<forall>v \<in> set (live s). vid v = 0)"

lemma vec_invD:
  assumes "vec_inv B s"
  shows "vecs_ok B (heap s) (live s)" "ids_below (next_id s) (heap s)" "0 < next_id s"
    "v \<in> set (live s) \<Longrightarrow> vid v = 0"
  using assms by (auto simp: vec_inv_def)

lemma vec_init_inv: "bits_ok B \<Longrightarrow> vec_inv B vec_init"
  by (simp add: vec_inv_def vec_init_def vecs_ok_empty ids_below_empty initial_unique_id_def)

section \<open>The writes of each operation\<close>

lemma new_vec_keeps:
  assumes "store_ok B T h" "new_vec B i h = (v, h')"
  shows "keeps kd i h h'"
proof -
  have "h' = snd (alloc h (new_node B leaves i))" using assms(2) by (auto simp: new_vec_def alloc_def)
  then show ?thesis using keeps_alloc(1) [OF keeps_refl assms(1), of "new_node B leaves i"] by simp
qed

lemma ps_push_back_keeps:
  assumes "vecs_ok B h vs" "v \<in> set vs" "push_back B kd h v x = Some (v', h')"
  shows "keeps kd (vid v) h h'" "vid v' = vid v"
proof -
  from assms(1) obtain T where T: "0 < B" "store_ok B T h" "\<forall>v \<in> set vs. vec_ok B T h v"
    by (rule vecs_okE)
  show "keeps kd (vid v) h h'" "vid v' = vid v"
    using push_back_list [OF T(1,2) bspec [OF T(3) assms(2)], of kd x] assms(3) by auto
qed

lemma ps_set_keeps:
  assumes "vecs_ok B h vs" "v \<in> set vs" "i < sz v" "vset B kd h v i x = Some (v', h')"
  shows "keeps kd (vid v) h h'" "vid v' = vid v"
proof -
  from assms(1) obtain T where T: "0 < B" "store_ok B T h" "\<forall>v \<in> set vs. vec_ok B T h v"
    by (rule vecs_okE)
  show "keeps kd (vid v) h h'" "vid v' = vid v"
    using vset_list [OF T(1,2) bspec [OF T(3) assms(2)], of i kd x] assms(3,4) by auto
qed

section \<open>The transient session\<close>

lemma make_persistent_ok:
  assumes "tr_inv B h t ws"
  shows "vecs_ok B h (make_persistent t # ws)"
proof -
  have "vecs_ok B h (t # ws)" using assms by (simp add: tr_inv_def)
  then have "vecs_ok B h (make_persistent t # t # ws)"
    using vecs_ok_vid [of B h "t # ws" t 0] by (simp add: make_persistent_def)
  then show ?thesis by (rule vecs_ok_subset) auto
qed

text \<open>What a session leaves: its list, the other vectors, the ids.\<close>

lemma session_ok:
  assumes "tr_inv B h t ws" "list_run (vlist B h t) ops = Some ys" "ids_below c' h" "vid t < c'"
  shows "\<exists>t' h'. tr_run B h t ops = Some (t', h') \<and> vecs_ok B h' (make_persistent t' # ws) \<and>
    vlist B h' (make_persistent t') = ys \<and> (\<forall>w \<in> set ws. vlist B h' w = vlist B h w) \<and>
    ids_below c' h'"
proof -
  obtain t' h' where r: "tr_run B h t ops = Some (t', h')" "tr_step_ok B h t ws t' h' ys"
    using tr_run_ok [OF assms(1,2)] by blast
  then show ?thesis
    using make_persistent_ok ids_below_keeps [OF assms(3) _ assms(4)]
    by (auto simp: tr_step_ok_def make_persistent_def)
qed

lemma transient_session:
  assumes "vecs_ok B h vs" "v \<in> set vs" "sz v \<noteq> 0" "ids_below c h" "c \<noteq> - 1"
    and "make_transient c v = (t, c')" "list_run (vlist B h v) ops = Some ys"
  shows "\<exists>t' h'. tr_run B h t ops = Some (t', h') \<and> vecs_ok B h' (make_persistent t' # vs) \<and>
    vlist B h' (make_persistent t') = ys \<and> (\<forall>w \<in> set vs. vlist B h' w = vlist B h w) \<and>
    ids_below c' h'"
proof -
  have t: "t = v\<lparr>vid := c\<rparr>" "get_unique_id c = (c, c')"
    using assms(6) by (auto simp: make_transient_def get_unique_id_def)
  note fresh = get_unique_id_fresh [OF assms(4,5) t(2)]
  have inv: "tr_inv B h t vs" "vlist B h t = vlist B h v"
    using make_transient_inv [OF assms(1-3) _ assms(6)] fresh by auto
  show ?thesis using session_ok [OF inv(1), of ops ys c'] inv(2) assms(7) fresh t(1) by simp
qed

lemma new_transient_session:
  assumes "vecs_ok B h vs" "ids_below c h" "c \<noteq> - 1"
    and "tr_new B h c = (t, h0, c')" "list_run [] ops = Some ys"
  shows "\<exists>t' h'. tr_run B h0 t ops = Some (t', h') \<and> vecs_ok B h' (make_persistent t' # vs) \<and>
    vlist B h' (make_persistent t') = ys \<and> (\<forall>w \<in> set vs. vlist B h' w = vlist B h w) \<and>
    ids_below c' h'"
proof -
  have n: "new_vec B c h = (t, h0)" "get_unique_id c = (c, c')"
    using assms(4) by (auto simp: tr_new_def get_unique_id_def split: prod.splits)
  note fresh = get_unique_id_fresh [OF assms(2,3) n(2)]
  obtain T where "store_ok B T h" using assms(1) by (rule vecs_okE)
  then have "keeps tr_vector c h h0" using new_vec_keeps [OF _ n(1)] by blast
  then have ids: "ids_below c' h0" using ids_below_keeps fresh by blast
  have t: "vid t = c" using new_vec_ok(6) [OF assms(1) n(1)] .
  have inv: "tr_inv B h0 t vs" "vlist B h0 t = []" "\<forall>w \<in> set vs. vlist B h0 w = vlist B h w"
    using tr_new_inv [OF assms(1) _ assms(4)] fresh by auto
  show ?thesis using session_ok [OF inv(1), of ops ys c'] inv(2,3) assms(5) ids t fresh by auto
qed

section \<open>No step changes a live vector\<close>

definition vec_kept :: "nat \<Rightarrow> 'a vec_state \<Rightarrow> 'a vec_state \<Rightarrow> bool" where
  "vec_kept B s s' \<longleftrightarrow> vec_inv B s' \<and>
    (\<forall>w \<in> set (live s). vlist B (heap s') w = vlist B (heap s) w)"

lemma vec_step_kept:
  assumes "vec_step B s s'" "vec_inv B s"
  shows "vec_kept B s s'"
  using assms
proof (induction rule: vec_step.induct)
  case (Step_new s v h)
  note I = vec_invD [OF Step_new(2)]
  have n: "new_vec B 0 (heap s) = (v, h)" using Step_new(1) by (simp add: ps_new_def)
  obtain T where "store_ok B T (heap s)" using I(1) by (rule vecs_okE)
  then have "ids_below (next_id s) h" using ids_below_keeps I(2,3) new_vec_keeps [OF _ n] by blast
  then show ?case using new_vec_ok [OF I(1) n] I(3,4) by (simp add: vec_kept_def vec_inv_def)
next
  case (Step_push v s x v' h)
  note I = vec_invD [OF Step_push(3)]
  note k = ps_push_back_keeps [OF I(1) Step_push(1,2)]
  have "ids_below (next_id s) h" "vid v' = 0"
    using ids_below_keeps [OF I(2) k(1)] I(3) I(4) [OF Step_push(1)] k(2) by simp_all
  then show ?case using ps_push_back_ok [OF I(1) Step_push(1), of x] Step_push(2) I(3,4)
    by (auto simp: vec_kept_def vec_inv_def)
next
  case (Step_set v s i x v' h)
  note I = vec_invD [OF Step_set(4)]
  note k = ps_set_keeps [OF I(1) Step_set(1,2,3)]
  have "ids_below (next_id s) h" "vid v' = 0"
    using ids_below_keeps [OF I(2) k(1)] I(3) I(4) [OF Step_set(1)] k(2) by simp_all
  moreover have "i < length (vlist B (heap s) v)" using Step_set(2) by simp
  ultimately show ?case using ps_set_ok [OF I(1) Step_set(1), of i x] Step_set(3) I(3,4)
    by (auto simp: vec_kept_def vec_inv_def)
next
  case (Step_batch v s t c ops t' h)
  note I = vec_invD [OF Step_batch(7)]
  have c: "0 < c" using Step_batch(4) get_unique_id_fresh [OF I(2) Step_batch(3)] word_gt_0
    by (fastforce simp: make_transient_def get_unique_id_def)
  obtain ys where ys: "list_run (vlist B (heap s) v) ops = Some ys" using Step_batch(5) by blast
  show ?case
    using transient_session [OF I(1) Step_batch(1,2) I(2) Step_batch(3,4) ys] Step_batch(6) c I(4)
    by (auto simp: vec_kept_def vec_inv_def make_persistent_def)
next
  case (Step_new_batch s t h0 c ops t' h)
  note I = vec_invD [OF Step_new_batch(5)]
  have c: "0 < c" using Step_new_batch(2) get_unique_id_fresh [OF I(2) Step_new_batch(1)] word_gt_0
    by (fastforce simp: tr_new_def get_unique_id_def split: prod.splits)
  obtain ys where ys: "list_run [] ops = Some ys" using Step_new_batch(3) by blast
  show ?case
    using new_transient_session [OF I(1,2) Step_new_batch(1,2) ys] Step_new_batch(4) c I(4)
    by (auto simp: vec_kept_def vec_inv_def make_persistent_def)
next
  case (Step_drop ws s)
  note I = vec_invD [OF Step_drop(2)]
  show ?case using vecs_ok_subset [OF I(1) Step_drop(1)] I(2,3,4) Step_drop(1)
    by (auto simp: vec_kept_def vec_inv_def)
qed

text \<open>A run never dropping \<open>w\<close> keeps what it holds.\<close>

inductive vec_steps :: "nat \<Rightarrow> vec \<Rightarrow> ('a::zero) vec_state \<Rightarrow> 'a vec_state \<Rightarrow> bool" for B w where
  Steps_refl: "vec_steps B w s s"
| Steps_step: "vec_steps B w s s' \<Longrightarrow> vec_step B s' s'' \<Longrightarrow> w \<in> set (live s'') \<Longrightarrow> vec_steps B w s s''"

lemma vec_steps_kept:
  "vec_steps B w s s' \<Longrightarrow> vec_inv B s \<Longrightarrow> w \<in> set (live s) \<Longrightarrow>
   vec_inv B s' \<and> w \<in> set (live s') \<and> vlist B (heap s') w = vlist B (heap s) w"
proof (induction rule: vec_steps.induct)
  case (Steps_step s s' s'')
  then show ?case using vec_step_kept [of B s' s''] by (auto simp: vec_kept_def)
qed simp

section \<open>Properties\<close>


lemma one_element_vec:
  obtains v h where "vecs_ok 1 (h :: int store) [v]" "vlist 1 h v = [7]" "ids_below 1 h" "sz v = 1"
proof -
  obtain v0 h0 where n: "ps_new 1 (empty_store::int store) = (v0, h0)" "vecs_ok 1 h0 [v0]"
    "vlist 1 h0 v0 = []" by (rule fresh_vec [OF bits_ok_small(1)])
  then have new: "vec_step 1 vec_init (vec_init\<lparr>heap := h0, live := [v0]\<rparr>)"
    using Step_new [of 1 "vec_init :: int vec_state" v0 h0] by (simp add: vec_init_def)
  let ?s = "vec_init\<lparr>heap := h0, live := [v0]\<rparr>"
  have I0: "vec_inv 1 ?s"
    using vec_step_kept [OF new vec_init_inv [OF bits_ok_small(1)]] by (simp add: vec_kept_def)
  obtain v h where p: "push_back 1 ps_vector h0 v0 7 = Some (v, h)" "vecs_ok 1 h [v, v0]"
    "vlist 1 h v = [7]" using ps_push_back_ok [OF n(2), of v0 7] n(3) by auto
  have "vec_step 1 ?s (?s\<lparr>heap := h, live := [v, v0]\<rparr>)"
    using Step_push [of v0 ?s 1 7 v h] p(1) by simp
  from vec_step_kept [OF this I0] have "ids_below 1 h"
    by (simp add: vec_kept_def vec_inv_def vec_init_def initial_unique_id_def)
  moreover have "vecs_ok 1 h [v]" using vecs_ok_subset [OF p(2)] by simp
  moreover have "sz v = 1" using p(3) by (metis length_vlist length_Cons list.size(3) One_nat_def)
  ultimately show ?thesis using that p(3) by blast
qed


text \<open>A session on a new \<open>tr_vector()\<close>: the pushes and writes build exactly the list the same
  operations build from the empty one, and no vector that was live changes.\<close>

theorem new_transient_batch:
  assumes "vecs_ok B (h :: ('a::zero) store) vs" and "ids_below c h" and "c \<noteq> - 1"
    and "tr_new B h c = (t, h0, c')" and "list_run [] ops = Some ys"
  shows "\<exists>t' h'. tr_run B h0 t ops = Some (t', h') \<and> vecs_ok B h' (make_persistent t' # vs) \<and>
    vlist B h' (make_persistent t') = ys \<and> (\<forall>w \<in> set vs. vlist B h' w = vlist B h w) \<and>
    ids_below c' h'"
  by (rule new_transient_session [OF assms])

theorem new_transient_batch_witness:
  "\<exists>t h0 c t' h'. tr_new 2 (empty_store :: int store) 1 = (t, h0, c) \<and>
     tr_run 2 h0 t [Mut_push_back 5, Mut_push_back 6, Mut_set 0 4] = Some (t', h') \<and>
     vlist 2 h' (make_persistent t') = [4, 6]"
proof -
  obtain t h0 c where n: "tr_new 2 (empty_store :: int store) 1 = (t, h0, c)" by (metis prod_cases3)
  show ?thesis
    using new_transient_batch [OF vecs_ok_empty [OF bits_ok_small(2)] ids_below_empty _ n,
        of "[Mut_push_back 5, Mut_push_back 6, Mut_set 0 4]"] n by auto
qed



end
