(* ===== verification/Bp_Diff.thy ===== *)
theory Bp_Diff imports
  Vec_System
begin

text \<open>
  \<open>next_diff_ids\<close> (contentious/bp_vector_base-impl.h): the next index whose leaf differs, found by
  comparing the ids of the nodes on the path and skipping a whole subtree when they agree, and the
  loop of \<open>cont_vector::resolve\<close> that visits the changed indices with it.
\<close>

section \<open>next\_diff\_ids\<close>

definition node_id :: "'a store \<Rightarrow> addr \<Rightarrow> id32 option" where
  "node_id h a = map_option nid (cells h a)"

text \<open>The size_t result is returned as an int32_t, and converted back by the caller.\<close>

definition to_int32 :: "nat \<Rightarrow> int" where
  "to_int32 n = sint (word_of_nat n :: 32 word)"

definition size_of_int32 :: "int \<Rightarrow> nat" where
  "size_of_int32 c = unat (word_of_int c :: 64 word)"

text \<open>The loop over the levels: \<open>Some j\<close> when the nodes of a level agree and the search goes on at
  \<open>j\<close>, \<open>None\<close> when it reaches the leaf.\<close>

function diff_loop ::
    "nat \<Rightarrow> 'a store \<Rightarrow> nat \<Rightarrow> nat \<Rightarrow> nat \<Rightarrow> addr \<Rightarrow> addr \<Rightarrow> nat option option" where
  "diff_loop B h i s interval a b =
    (if s = 0 then Some None
     else if B = 0 \<or> s < B then None
     else do {
       a' \<leftarrow> load_branch h a (slot B i s);
       b' \<leftarrow> load_branch h b (slot B i s);
       ia \<leftarrow> node_id h a';
       ib \<leftarrow> node_id h b';
       if ia = ib then Some (Some (i + interval))
       else diff_loop B h i (s - B) (drop_bit B interval) a' b' })"
  by pat_completeness auto
termination by (relation "measure (\<lambda>(B, h, i, s, interval, a, b). s)") auto

declare diff_loop.simps [simp del]

partial_function (option) next_diff_ids :: "nat \<Rightarrow> 'a store \<Rightarrow> vec \<Rightarrow> vec \<Rightarrow> nat \<Rightarrow> int option" where
  "next_diff_ids B h v w i =
    (if sz v \<le> i then Some (to_int32 (sz v))
     else do {
       ia \<leftarrow> node_id h (root v);
       ib \<leftarrow> node_id h (root w);
       if ia = ib then Some (to_int32 (sz v))
       else do {
         r \<leftarrow> diff_loop B h i (shift v) (drop_bit B (capacity B v)) (root v) (root w);
         (case r of None \<Rightarrow> Some (to_int32 i) | Some j \<Rightarrow> next_diff_ids B h v w j) } })"

declare next_diff_ids.simps [code]

lemma int32_small:
  assumes "n < 2 ^ 31"
  shows "to_int32 n = int n" "size_of_int32 (int n) = n"
proof -
  have "signed_take_bit 31 (int n) = int n"
    by (rule signed_take_bit_int_eq_self) (use assms in auto)
  then show "to_int32 n = int n" by (simp add: to_int32_def signed_of_nat)
  have "n < 2 ^ 64" using assms by simp
  then show "size_of_int32 (int n) = n"
    by (simp add: size_of_int32_def unsigned_of_nat take_bit_nat_eq_self)
qed

section \<open>Agreement of ids\<close>

text \<open>\<open>id_agree\<close>: where two vectors have nodes of the same id at the same position, it is the same
  node. \<open>apart n i\<close>: the nodes at depth \<open>n\<close> of the path of \<open>i\<close> have different ids.\<close>

definition id_agree :: "nat \<Rightarrow> 'a store \<Rightarrow> vec \<Rightarrow> vec \<Rightarrow> bool" where
  "id_agree B h v w \<longleftrightarrow> shift w = shift v \<and> sz w = sz v \<and>
    (\<forall>i < sz v. \<forall>n \<le> shift v div B. \<forall>a b.
      node_at B h (root v) (shift v div B) i n = Some a \<longrightarrow>
      node_at B h (root w) (shift v div B) i n = Some b \<longrightarrow> node_id h a = node_id h b \<longrightarrow> a = b)"

definition apart :: "nat \<Rightarrow> 'a store \<Rightarrow> vec \<Rightarrow> vec \<Rightarrow> nat \<Rightarrow> nat \<Rightarrow> nat \<Rightarrow> bool" where
  "apart B h v w K n i \<longleftrightarrow> (\<exists>a b ia ib. node_at B h (root v) K i n = Some a \<and>
    node_at B h (root w) K i n = Some b \<and> node_id h a = Some ia \<and> node_id h b = Some ib \<and> ia \<noteq> ib)"

text \<open>A cursor from which no changed index is skipped: at every level it is at the start of a node,
  or in a node that differs.\<close>

definition cursor_ok :: "nat \<Rightarrow> 'a store \<Rightarrow> vec \<Rightarrow> vec \<Rightarrow> nat \<Rightarrow> nat \<Rightarrow> bool" where
  "cursor_ok B h v w K i \<longleftrightarrow> (\<forall>n. 0 < n \<longrightarrow> n \<le> K \<longrightarrow>
    BP_WIDTH B ^ (Suc K - n) dvd i \<or> apart B h v w K n i)"

lemma val_prefix:
  assumes "val B h a k i \<noteq> None" "n \<le> k"
  shows "\<exists>b. node_at B h a k i n = Some b"
proof -
  obtain l where "node_at B h a k i (n + (k - n)) = Some l"
    using assms by (auto simp: val_def bind_rules)
  then show ?thesis
    using node_at_add [of n "k - n" k B h a i] assms(2) by (cases "node_at B h a k i n") simp_all
qed

text \<open>The nodes of a path exist in the store.\<close>

lemma path_nodes:
  assumes "store_ok B T h" "T a = Some (k, 0)" "i < BP_WIDTH B ^ Suc k" "val B h a k i \<noteq> None" "n \<le> k"
  shows "\<exists>b j. node_at B h a k i n = Some b \<and> node_id h b = Some j"
proof -
  obtain b where b: "node_at B h a k i n = Some b" using val_prefix [OF assms(4,5)] by blast
  have "T b = Some (k - n, i div BP_WIDTH B ^ Suc (k - n))"
    using node_at_position [OF assms(1,2) _ b assms(5)] assms(3) by simp
  then have "cells h b \<noteq> None" using store_ok_unique [OF assms(1)] by blast
  with b show ?thesis by (auto simp: node_id_def)
qed

text \<open>The two vectors of a comparison.\<close>

definition pair_ok :: "nat \<Rightarrow> typing \<Rightarrow> 'a store \<Rightarrow> vec \<Rightarrow> vec \<Rightarrow> nat \<Rightarrow> bool" where
  "pair_ok B T h v w K \<longleftrightarrow> 0 < B \<and> store_ok B T h \<and> vec_ok B T h v \<and> vec_ok B T h w \<and>
    id_agree B h v w \<and> shift v = K * B"

lemma pair_okD:
  assumes "pair_ok B T h v w K"
  shows "0 < B" "shift v = K * B" "shift w = K * B" "sz w = sz v"
    "i < sz v \<Longrightarrow> n \<le> K \<Longrightarrow> \<exists>b j. node_at B h (root v) K i n = Some b \<and> node_id h b = Some j"
    "i < sz v \<Longrightarrow> n \<le> K \<Longrightarrow> \<exists>b j. node_at B h (root w) K i n = Some b \<and> node_id h b = Some j"
    "i < sz v \<Longrightarrow> n \<le> K \<Longrightarrow> node_at B h (root v) K i n = Some a \<Longrightarrow>
      node_at B h (root w) K i n = Some b \<Longrightarrow> node_id h a = node_id h b \<Longrightarrow> a = b"
proof -
  note P = assms [unfolded pair_ok_def]
  show B: "0 < B" "shift v = K * B" "shift w = K * B" "sz w = sz v"
    using P by (auto simp: id_agree_def)
  have V: "T (root v) = Some (K, 0)" "sz v \<le> BP_WIDTH B ^ Suc K"
    "\<forall>i < sz v. val B h (root v) K i \<noteq> None"
    using P B(1) by (auto simp: vec_ok_def)
  have W: "T (root w) = Some (K, 0)" "\<forall>i < sz v. val B h (root w) K i \<noteq> None"
    using P B by (auto simp: vec_ok_def)
  show "i < sz v \<Longrightarrow> n \<le> K \<Longrightarrow> \<exists>b j. node_at B h (root v) K i n = Some b \<and> node_id h b = Some j"
    "i < sz v \<Longrightarrow> n \<le> K \<Longrightarrow> \<exists>b j. node_at B h (root w) K i n = Some b \<and> node_id h b = Some j"
    using path_nodes [of B T h _ K i n] P V W by auto
  show "i < sz v \<Longrightarrow> n \<le> K \<Longrightarrow> node_at B h (root v) K i n = Some a \<Longrightarrow>
      node_at B h (root w) K i n = Some b \<Longrightarrow> node_id h a = node_id h b \<Longrightarrow> a = b"
    using P B unfolding id_agree_def by (metis nonzero_mult_div_cancel_right not_gr_zero)
qed

lemma apart_cases:
  assumes "pair_ok B T h v w K" "i < sz v" "n \<le> K"
  shows "apart B h v w K n i \<or> (\<exists>a. node_at B h (root v) K i n = Some a \<and> node_at B h (root w) K i n = Some a)"
  using pair_okD(5-7) [OF assms] by (metis apart_def)

text \<open>Where the paths meet in one node, the values below agree.\<close>

lemma meet_agree:
  assumes "pair_ok B T h v w K" "n \<le> K"
    and "node_at B h (root v) K i n = Some a" "node_at B h (root w) K i n = Some a"
    and "m div BP_WIDTH B ^ (Suc K - n) = i div BP_WIDTH B ^ (Suc K - n)" "m < sz v"
  shows "vlist B h v ! m = vlist B h w ! m"
proof -
  have e: "Suc (K - n) = Suc K - n" using assms(2) by simp
  have "node_at B h (root v) K m n = Some a" "node_at B h (root w) K m n = Some a"
    using trans [OF node_at_cong [OF assms(2) assms(5) [folded e]] assms(3)]
      trans [OF node_at_cong [OF assms(2) assms(5) [folded e]] assms(4)] .
  then have "node_at B h (root v) K m K = node_at B h (root w) K m K"
    using node_at_add [of n "K - n" K B h "root v" m] node_at_add [of n "K - n" K B h "root w" m]
      assms(2) by simp
  then have "val B h (root v) K m = val B h (root w) K m" by (simp add: val_def)
  then show ?thesis
    using pair_okD(1-4) [OF assms(1)] assms(6) vlist_val [of B v K h] vlist_val [of B w K h] by simp
qed

section \<open>What the search finds\<close>

definition meet :: "nat \<Rightarrow> 'a store \<Rightarrow> vec \<Rightarrow> vec \<Rightarrow> nat \<Rightarrow> nat \<Rightarrow> nat \<Rightarrow> bool" where
  "meet B h v w K m i \<longleftrightarrow> (\<exists>c. node_at B h (root v) K i m = Some c \<and> node_at B h (root w) K i m = Some c)"

definition apart_between :: "nat \<Rightarrow> 'a store \<Rightarrow> vec \<Rightarrow> vec \<Rightarrow> nat \<Rightarrow> nat \<Rightarrow> nat \<Rightarrow> nat \<Rightarrow> bool" where
  "apart_between B h v w K i n m \<longleftrightarrow> (\<forall>n'. n < n' \<longrightarrow> n' < m \<longrightarrow> apart B h v w K n' i)"

definition skips :: "nat \<Rightarrow> 'a store \<Rightarrow> vec \<Rightarrow> vec \<Rightarrow> nat \<Rightarrow> nat \<Rightarrow> nat \<Rightarrow> nat \<Rightarrow> nat \<Rightarrow> bool" where
  "skips B h v w K i n j m \<longleftrightarrow> n < m \<and> m \<le> K \<and> j = i + BP_WIDTH B ^ (Suc K - m) \<and>
    apart_between B h v w K i n m \<and> meet B h v w K m i"

definition loop_result :: "nat \<Rightarrow> 'a store \<Rightarrow> vec \<Rightarrow> vec \<Rightarrow> nat \<Rightarrow> nat \<Rightarrow> nat \<Rightarrow> nat option \<Rightarrow> bool" where
  "loop_result B h v w K i n r \<longleftrightarrow> (case r of
     None \<Rightarrow> apart_between B h v w K i n (Suc K) | Some j \<Rightarrow> (\<exists>m. skips B h v w K i n j m))"

lemma apart_between_Suc:
  "apart B h v w K (Suc n) i \<Longrightarrow> apart_between B h v w K i (Suc n) m \<Longrightarrow> apart_between B h v w K i n m"
  unfolding apart_between_def by (metis Suc_lessI)

lemma loop_result_Suc:
  assumes "apart B h v w K (Suc n) i" "loop_result B h v w K i (Suc n) r"
  shows "loop_result B h v w K i n r"
proof (cases r)
  case None
  then show ?thesis using assms by (simp add: loop_result_def apart_between_Suc)
next
  case (Some j)
  then obtain m where "skips B h v w K i (Suc n) j m" using assms(2) by (auto simp: loop_result_def)
  then have "skips B h v w K i n j m" using apart_between_Suc [OF assms(1)] by (simp add: skips_def)
  with Some show ?thesis by (auto simp: loop_result_def)
qed

lemma diff_loop_ok:
  assumes "pair_ok B T h v w K" "i < sz v"
    and "node_at B h (root v) K i n = Some a" "node_at B h (root w) K i n = Some b"
    and "d = K - n" "n \<le> K"
  shows "\<exists>r. diff_loop B h i (d * B) (BP_WIDTH B ^ d) a b = Some r \<and> loop_result B h v w K i n r"
  using assms(3-6)
proof (induction d arbitrary: n a b)
  case 0
  then show ?case by (simp add: diff_loop.simps loop_result_def apart_between_def)
next
  case (Suc d)
  note B = pair_okD(1) [OF assms(1)]
  have n: "Suc n \<le> K" "d = K - Suc n" "K - n = Suc d" using Suc.prems(3) by auto
  obtain a' ia where a: "node_at B h (root v) K i (Suc n) = Some a'" "node_id h a' = Some ia"
    using pair_okD(5) [OF assms(1,2) n(1)] by blast
  obtain b' ib where b: "node_at B h (root w) K i (Suc n) = Some b'" "node_id h b' = Some ib"
    using pair_okD(6) [OF assms(1,2) n(1)] by blast
  have l: "load_branch h a (slot B i (Suc d * B)) = Some a'"
    "load_branch h b (slot B i (Suc d * B)) = Some b'"
    using a(1) b(1) Suc.prems(1,2) n(3) by auto
  have w: "drop_bit B (BP_WIDTH B ^ Suc d) = BP_WIDTH B ^ d"
    by (simp add: drop_bit_eq_div BP_WIDTH_eq)
  have s: "diff_loop B h i (Suc d * B) (BP_WIDTH B ^ Suc d) a b =
      (if ia = ib then Some (Some (i + BP_WIDTH B ^ Suc d))
       else diff_loop B h i (d * B) (BP_WIDTH B ^ d) a' b')"
    using B l a(2) b(2) w by (subst diff_loop.simps) simp
  show ?case
  proof (cases "ia = ib")
    case True
    then have "a' = b'" using pair_okD(7) [OF assms(1,2) n(1) a(1) b(1)] a(2) b(2) by simp
    moreover have "Suc d = Suc K - Suc n" using n by simp
    ultimately have "skips B h v w K i n (i + BP_WIDTH B ^ Suc d) (Suc n)"
      using a(1) b(1) n(1) unfolding skips_def meet_def apart_between_def by (simp del: node_at.simps)
    then have "loop_result B h v w K i n (Some (i + BP_WIDTH B ^ Suc d))"
      unfolding loop_result_def by auto
    with s True show ?thesis by simp
  next
    case False
    then have ap: "apart B h v w K (Suc n) i" unfolding apart_def using a b by blast
    obtain r where r: "diff_loop B h i (d * B) (BP_WIDTH B ^ d) a' b' = Some r"
      "loop_result B h v w K i (Suc n) r" using Suc.IH [OF a(1) b(1) n(2,1)] by blast
    then show ?thesis using s False loop_result_Suc [OF ap] by auto
  qed
qed

text \<open>The result of the search from \<open>i\<close>, before its conversion: nothing differs before it, and its
  path differs at every level.\<close>

definition diff_found :: "nat \<Rightarrow> 'a store \<Rightarrow> vec \<Rightarrow> vec \<Rightarrow> nat \<Rightarrow> nat \<Rightarrow> nat \<Rightarrow> bool" where
  "diff_found B h v w K i j \<longleftrightarrow> j \<le> sz v \<and> (if i < sz v then i \<le> j else j = sz v) \<and>
    (\<forall>m < sz v. i \<le> m \<longrightarrow> m < j \<longrightarrow> vlist B h v ! m = vlist B h w ! m) \<and>
    (j < sz v \<longrightarrow> (\<forall>n \<le> K. apart B h v w K n j))"

lemma apart_cong:
  assumes "n \<le> K" "m div BP_WIDTH B ^ (Suc K - n) = i div BP_WIDTH B ^ (Suc K - n)"
  shows "apart B h v w K n m = apart B h v w K n i"
proof -
  have e: "Suc (K - n) = Suc K - n" using assms(1) by simp
  show ?thesis
    unfolding apart_def using node_at_cong [OF assms(1), of m B i h] assms(2) unfolding e by simp
qed

lemma cursor_ok_0: "cursor_ok B h v w K 0"
  by (simp add: cursor_ok_def)

text \<open>After a changed index the next one is a good cursor, and after a skipped node too.\<close>

lemma Suc_same_block: "\<not> w dvd Suc j \<Longrightarrow> Suc j div w = j div (w::nat)"
  by (simp add: div_Suc dvd_eq_mod_eq_0 mod_Suc split: if_splits)

lemma cursor_ok_Suc:
  assumes "\<forall>n \<le> K. apart B h v w K n j"
  shows "cursor_ok B h v w K (Suc j)"
  unfolding cursor_ok_def
  using assms apart_cong [of _ K "Suc j" B j] Suc_same_block by blast

lemma block_of_sum:
  assumes "0 < (d::nat)" "d dvd i" "\<not> d * q dvd i + d"
  shows "(i + d) div (d * q) = i div (d * q)"
proof -
  obtain p where p: "i = d * p" using assms(2) by (auto simp: dvd_def)
  then have j: "i + d = d * Suc p" by simp
  then have "\<not> q dvd Suc p" using assms(3) by (metis mult_dvd_mono dvd_refl)
  then have "Suc p div q = p div q" by (rule Suc_same_block)
  then show ?thesis unfolding j unfolding p using assms(1) by (simp del: mult_Suc_right)
qed

lemma cursor_ok_skip:
  assumes "cursor_ok B h v w K i" "skips B h v w K i 0 j m"
  shows "cursor_ok B h v w K j" "BP_WIDTH B ^ (Suc K - m) dvd i"
proof -
  let ?d = "BP_WIDTH B ^ (Suc K - m)"
  have m: "0 < m" "m \<le> K" "j = i + ?d" "apart_between B h v w K i 0 m" "meet B h v w K m i"
    using assms(2) by (auto simp: skips_def)
  have "\<not> apart B h v w K m i" using m(5) by (auto simp: apart_def meet_def)
  then show al: "?d dvd i" using assms(1) m(1,2) unfolding cursor_ok_def by blast
  show "cursor_ok B h v w K j"
    unfolding cursor_ok_def
  proof (intro allI impI)
    fix n assume n: "0 < n" "n \<le> K"
    let ?w = "BP_WIDTH B ^ (Suc K - n)"
    show "?w dvd j \<or> apart B h v w K n j"
    proof (cases "n < m")
      case False
      then have "?w dvd ?d" using m(2) by (intro le_imp_power_dvd) simp
      then show ?thesis using al m(3) by (meson dvd_add dvd_trans)
    next
      case True
      then have ap: "apart B h v w K n i" using m(4) n(1) by (simp add: apart_between_def)
      have "?d dvd ?w" using True by (intro le_imp_power_dvd) simp
      then obtain q where q: "?w = ?d * q" by (auto simp: dvd_def)
      have "j div ?w = i div ?w" if "\<not> ?w dvd j"
        using block_of_sum [OF _ al, of q] that unfolding q m(3) by simp
      then show ?thesis using apart_cong [OF n(2), of j B i h v w] ap by blast
    qed
  qed
qed

text \<open>The values of a skipped block agree.\<close>

lemma skips_agree:
  assumes "pair_ok B T h v w K" "skips B h v w K i 0 j m" "BP_WIDTH B ^ (Suc K - m) dvd i"
    and "i \<le> x" "x < j" "x < sz v"
  shows "vlist B h v ! x = vlist B h w ! x"
proof -
  let ?e = "BP_WIDTH B ^ (Suc K - m)"
  obtain c where m: "m \<le> K" "j = i + ?e" "node_at B h (root v) K i m = Some c"
    "node_at B h (root w) K i m = Some c" using assms(2) by (auto simp: skips_def meet_def)
  obtain p where p: "i = ?e * p" using assms(3) by (auto simp: dvd_def)
  have "?e * p \<le> x" "x < ?e * Suc p" using assms(4,5) m(2) p by auto
  then have "x div ?e = p" by (intro div_nat_eqI)
  moreover have "i div ?e = p" using p by (intro div_nat_eqI) simp_all
  ultimately show ?thesis using meet_agree [OF assms(1) m(1,3,4) _ assms(6)] by simp
qed

lemma next_diff_found:
  assumes P: "pair_ok B T h v w K"
  shows "cursor_ok B h v w K i \<Longrightarrow>
    \<exists>j. next_diff_ids B h v w i = Some (to_int32 j) \<and> diff_found B h v w K i j"
proof (induction "sz v - i" arbitrary: i rule: less_induct)
  case less
  show ?case
  proof (cases "i < sz v")
    case False
    then show ?thesis
      by (intro exI [of _ "sz v"]) (simp add: next_diff_ids.simps diff_found_def)
  next
    case i: True
    obtain ia ib where id: "node_id h (root v) = Some ia" "node_id h (root w) = Some ib"
      using pair_okD(5) [OF P i, of 0] pair_okD(6) [OF P i, of 0] by auto
    have cap: "drop_bit B (capacity B v) = BP_WIDTH B ^ K"
      using capacity_eq [OF pair_okD(1,2) [OF P]] by (simp add: drop_bit_eq_div BP_WIDTH_eq)
    show ?thesis
    proof (cases "ia = ib")
      case True
      then have "root v = root w" using pair_okD(7) [OF P i, of 0] id by simp
      moreover have "sz v \<le> BP_WIDTH B ^ Suc K" using P pair_okD(1,2) [OF P]
        by (auto simp: pair_ok_def vec_ok_def)
      ultimately have "vlist B h v ! m = vlist B h w ! m" if "m < sz v" for m
        using meet_agree [OF P, of 0 i "root v" m] that i
        by (metis div_less less_le_trans node_at.simps(1) diff_zero zero_le)
      with True id i show ?thesis
        by (intro exI [of _ "sz v"]) (subst next_diff_ids.simps, simp add: diff_found_def)
    next
      case ne: False
      obtain r where r: "diff_loop B h i (K * B) (BP_WIDTH B ^ K) (root v) (root w) = Some r"
        "loop_result B h v w K i 0 r" using diff_loop_ok [OF P i, of 0 _ _ K] by auto
      have ap0: "apart B h v w K 0 i" using ne id by (auto simp: apart_def)
      have nd: "next_diff_ids B h v w i =
          (case r of None \<Rightarrow> Some (to_int32 i) | Some j \<Rightarrow> next_diff_ids B h v w j)"
        using i id ne r(1) cap pair_okD(2) [OF P] by (subst next_diff_ids.simps) simp
      show ?thesis
      proof (cases r)
        case None
        then have "apart_between B h v w K i 0 (Suc K)" using r(2) by (simp add: loop_result_def)
        then have "\<forall>n \<le> K. apart B h v w K n i"
          unfolding apart_between_def using ap0 by (metis less_Suc_eq_le neq0_conv)
        with nd None i show ?thesis by (auto simp: diff_found_def)
      next
        case (Some j)
        then obtain m where m: "skips B h v w K i 0 j m" using r(2) by (auto simp: loop_result_def)
        have j: "i < j" using m by (simp add: skips_def)
        note c = cursor_ok_skip [OF less.prems m]
        obtain j' where j': "next_diff_ids B h v w j = Some (to_int32 j')" "diff_found B h v w K j j'"
          using less.hyps [OF diff_less_mono2 [OF j i] c(1)] by blast
        have "vlist B h v ! x = vlist B h w ! x" if "i \<le> x" "x < j'" "x < sz v" for x
          using skips_agree [OF P m c(2) that(1) _ that(3)] j'(2) that unfolding diff_found_def
          by (cases "x < j") auto
        then have "diff_found B h v w K i j'"
          using j'(2) i j unfolding diff_found_def by (auto split: if_splits)
        then show ?thesis using nd Some j'(1) by auto
      qed
    qed
  qed
qed

section \<open>Ids agree after a session of writes\<close>

text \<open>\<open>shadows own h h'\<close>: in \<open>h'\<close> a path from a node of \<open>h\<close> leads to the node it led to in \<open>h\<close>, or
  to one of the writing vector's own nodes.\<close>

definition owned :: "id32 \<Rightarrow> 'a store \<Rightarrow> addr \<Rightarrow> bool" where
  "owned own h b \<longleftrightarrow> node_id h b = Some own"

definition shadows :: "nat \<Rightarrow> id32 \<Rightarrow> 'a store \<Rightarrow> 'a store \<Rightarrow> bool" where
  "shadows B own h h' \<longleftrightarrow> (\<forall>x k i n b. cells h x \<noteq> None \<longrightarrow> node_at B h' x k i n = Some b \<longrightarrow>
    owned own h' b \<or> node_at B h x k i n = Some b)"

lemma shadows_refl [simp]: "shadows B own h h"
  by (simp add: shadows_def)

lemma owned_keeps:
  assumes "keeps kd own h h'" "owned own' h b"
  shows "owned own' h' b"
proof -
  obtain n where n: "cells h b = Some n" "nid n = own'" using assms(2) by (auto simp: owned_def node_id_def)
  from keeps_dom [OF assms(1) n(1)] n(2) show ?thesis by (auto simp: owned_def node_id_def)
qed

lemma shadows_trans:
  assumes "shadows B own h h'" "shadows B own h' h''" "keeps kd own h h'" "keeps kd own h' h''"
  shows "shadows B own h h''"
  unfolding shadows_def
proof (intro allI impI)
  fix x k i n b
  assume x: "cells h x \<noteq> None" and b: "node_at B h'' x k i n = Some b"
  have "cells h' x \<noteq> None" 
  proof
    assume "cells h' x = None"
    from keeps_None [OF assms(3) this] x show False by simp
  qed
  then have "owned own h'' b \<or> node_at B h' x k i n = Some b"
    using assms(2) b unfolding shadows_def by blast
  then show "owned own h'' b \<or> node_at B h x k i n = Some b"
    using assms(1) x owned_keeps [OF assms(4), of own b] unfolding shadows_def by blast
qed

text \<open>Every node of a well-typed store leads to nodes of the store.\<close>

lemma load_branch_closed:
  assumes "store_ok B T h" "load_branch h a j = Some c"
  shows "cells h c \<noteq> None"
proof -
  obtain n where "cells h a = Some n" using assms(2) by (auto simp: store_rules)
  then obtain k q where t: "T a = Some (k, q)" "node_ok B T n k q" "cells h a = Some n"
    using store_ok_typed [OF assms(1)] by blast
  have "k \<noteq> 0" using t(2,3) assms(2) by (auto simp: store_rules node_ok_0 intro!: gr0I)
  then obtain k' where "k = Suc k'" by (cases k) auto
  then have "T c = Some (k', q * BP_WIDTH B + j)"
    using load_branch_typed [OF assms(1) _ assms(2), of k' q] t(1) by simp
  then show ?thesis by (rule store_ok_unique [OF assms(1)])
qed

lemma node_at_alloc:
  assumes "store_ok B T h" "cells h x \<noteq> None"
  shows "node_at B (snd (alloc h m)) x k i n = node_at B h x k i n \<and>
    (\<forall>b. node_at B h x k i n = Some b \<longrightarrow> cells h b \<noteq> None)"
proof (induction n)
  case 0
  then show ?case using assms(2) by simp
next
  case (Suc n)
  have e: "load_branch (snd (alloc h m)) b j = load_branch h b j" if "cells h b \<noteq> None" for b j
    using that store_ok_fresh [OF assms(1)] by (intro load_cong) auto
  show ?case
  proof (cases "node_at B h x k i n")
    case None
    with Suc show ?thesis by simp
  next
    case (Some b)
    with Suc have "cells h b \<noteq> None" by blast
    with Some Suc e load_branch_closed [OF assms(1), of b] show ?thesis by auto
  qed
qed

lemma node_at_redirect:
  assumes "store_branch h a j c' = Some h'" "load_branch h a j = Some c"
    and "\<And>m. load_branch h c' m = load_branch h c m" "c' \<noteq> a"
  shows "node_at B h' x k i n = Some b \<Longrightarrow> b = c' \<and> node_at B h x k i n = Some c \<or> node_at B h x k i n = Some b"
proof (induction n arbitrary: b)
  case (Suc n)
  let ?s = "slot B i ((k - n) * B)"
  obtain y where y: "node_at B h' x k i n = Some y" "load_branch h' y ?s = Some b"
    using Suc.prems by (auto simp: bind_rules)
  have l: "load_branch h' y ?s = (if y = a \<and> ?s = j then Some c' else load_branch h y ?s)"
    using load_branch_store_branch [OF assms(1)] by auto
  from Suc.IH [OF y(1)] show ?case
  proof
    assume "y = c' \<and> node_at B h x k i n = Some c"
    then show ?thesis using y(2) l assms(3,4) by simp
  next
    assume n: "node_at B h x k i n = Some y"
    then show ?thesis using y(2) l assms(2) by (cases "y = a \<and> ?s = j") auto
  qed
qed simp

lemma cow_child_shadows:
  assumes "store_ok B T h" "cow_child tr_vector own h a j = Some (c', h')"
  shows "shadows B own h h'"
proof -
  obtain c n where c: "load_branch h a j = Some c" "cells h c = Some n"
    using assms(2) by (auto simp: cow_child_def bind_rules)
  show ?thesis
  proof (cases "own = nid n")
    case True
    then show ?thesis using assms(2) c by (simp add: cow_child_def)
  next
    case False
    let ?n = "copy_node n own" and ?f = "fresh h"
    let ?h1 = "snd (alloc h ?n)"
    have s: "store_branch ?h1 a j ?f = Some h'" "c' = ?f"
      using assms(2) c False by (auto simp: cow_child_def alloc_def bind_rules)
    have f: "cells h ?f = None" using store_ok_fresh [OF assms(1)] by simp
    have ne: "a \<noteq> ?f" "c \<noteq> ?f" using f c by (auto simp: store_rules)
    have la: "load_branch ?h1 a j = Some c" using c(1) ne load_cong(1) [of ?h1 a h] by simp
    have lc: "load_branch ?h1 ?f m = load_branch ?h1 c m" for m
      using c(2) ne by (auto simp: load_branch_def as_branches_def)
    have own: "owned own h' ?f"
      using s(1) ne cells_store_branch(1) [OF s(1), of ?f] by (auto simp: owned_def node_id_def)
    show ?thesis
      unfolding shadows_def
    proof (intro allI impI)
      fix x k i m b
      assume x: "cells h x \<noteq> None" and b: "node_at B h' x k i m = Some b"
      from node_at_redirect [OF s(1) la lc ne(1) [symmetric] b]
      have "b = ?f \<or> node_at B ?h1 x k i m = Some b" by blast
      then show "owned own h' b \<or> node_at B h x k i m = Some b"
        using own node_at_alloc [OF assms(1) x] by metis
    qed
  qed
qed

lemma not_protected_keeps:
  assumes "keeps tr_vector own h h'" "\<not> protected tr_vector own h a"
  shows "\<not> protected tr_vector own h' a"
proof
  assume "protected tr_vector own h' a"
  then obtain m where m: "cells h' a = Some m" "nid m \<noteq> own" by (auto simp: protected_def)
  then obtain n where "cells h a = Some n" using assms(1) unfolding keeps_def by (metis not_Some_eq)
  then show False using keeps_dom [OF assms(1)] m assms(2) by (fastforce simp: protected_def)
qed

lemma cow_walk_shadows:
  assumes "0 < B" "store_ok B T h" "T a = Some (k, q)" "q = i div BP_WIDTH B ^ Suc k"
    and "\<not> protected tr_vector own h a"
    and "val B h a k i \<noteq> None" "cow_walk B tr_vector own h a (k * B) i = Some (l, h')"
  shows "shadows B own h h' \<and> keeps tr_vector own h h'"
  using assms(2-7)
proof (induction k arbitrary: a q h T)
  case 0
  then show ?case by (simp add: cow_walk.simps)
next
  case (Suc k)
  let ?j = "slot B i (Suc k * B)"
  from Suc.prems(6) obtain c1 h1 where s: "cow_child tr_vector own h a ?j = Some (c1, h1)"
    "cow_walk B tr_vector own h1 c1 (k * B) i = Some (l, h')"
    using assms(1) by (subst (asm) cow_walk.simps) (auto simp: bind_rules split: if_splits)
  obtain c where c: "load_branch h a ?j = Some c" using Suc.prems(5) by (auto simp: val_Suc bind_rules)
  obtain T1 where t: "cow_result B tr_vector own h T h (Suc k) T1 h1"
    "T1 c1 = Some (k, q * BP_WIDTH B + ?j)" "\<not> protected tr_vector own h c1"
    "load_branch h1 a ?j = Some c1"
    using cow_child_ok [OF Suc.prems(1) keeps_refl Suc.prems(2,4) c] s(1) by auto
  note k1 = cow_resultD(3) [OF t(1)]
  have p: "T1 c1 = Some (k, i div BP_WIDTH B ^ Suc k)"
    using child_position [OF cow_resultD(1) [OF t(1)] extendsD [OF cow_resultD(2) [OF t(1)] Suc.prems(2)]
      Suc.prems(3) t(4)] .
  have "val B h1 a (Suc k) i \<noteq> None"
    using Suc.prems(5) cow_resultD(4) [OF t(1)] store_ok_unique [OF Suc.prems(1,2)]
    by (simp add: same_view_def)
  then have "val B h1 c1 k i \<noteq> None" using t(4) by (simp add: val_Suc)
  then have w: "shadows B own h1 h'" "keeps tr_vector own h1 h'"
    using Suc.IH [OF cow_resultD(1) [OF t(1)] p refl not_protected_keeps [OF k1 t(3)] _ s(2)] by auto
  have "shadows B own h h1" using cow_child_shadows [OF Suc.prems(1) s(1)] .
  then show ?case using shadows_trans w k1 keeps_trans by blast
qed

lemma cow_root_shadows:
  assumes "store_ok B T h" "cow_root tr_vector own h r = Some (r', h')"
  shows "shadows B own h h'" "keeps tr_vector own h h'"
    "node_at B h' r' k i n = Some b \<Longrightarrow> owned own h' b \<or> node_at B h r k i n = Some b"
proof -
  obtain m where m: "cells h r = Some m" using assms(2) by (auto simp: cow_root_def bind_rules)
  let ?n = "copy_node m own" and ?f = "fresh h"
  let ?h1 = "snd (alloc h ?n)"
  have f: "cells h ?f = None" using store_ok_fresh [OF assms(1)] by simp
  have r: "r' = r \<and> h' = h \<or> r' = ?f \<and> h' = ?h1"
    using assms(2) m by (auto simp: cow_root_def alloc_def split: if_splits)
  show sh: "shadows B own h h'"
    using r node_at_alloc [OF assms(1)] unfolding shadows_def by fastforce
  show "keeps tr_vector own h h'"
    using r keeps_alloc(1) [OF keeps_refl assms(1), of ?n] by auto
  have l: "load_branch ?h1 ?f j = load_branch h r j" for j
    using m f by (auto simp: load_branch_def as_branches_def)
  have "n = 0 \<and> b = ?f \<or> node_at B h r k i n = Some b" if "node_at B ?h1 ?f k i n = Some b" for b
    using that
  proof (induction n arbitrary: b)
    case (Suc n)
    let ?s = "slot B i ((k - n) * B)"
    obtain y where y: "node_at B ?h1 ?f k i n = Some y" "load_branch ?h1 y ?s = Some b"
      using Suc.prems by (auto simp: bind_rules)
    from Suc.IH [OF y(1)] show ?case
    proof
      assume "n = 0 \<and> y = ?f"
      then show ?thesis using y(2) l by simp
    next
      assume n: "node_at B h r k i n = Some y"
      then have "cells h y \<noteq> None" using node_at_alloc [OF assms(1), of r] m by blast
      then have "load_branch ?h1 y ?s = load_branch h y ?s" using f by (intro load_cong) auto
      with n y(2) show ?thesis by simp
    qed
  qed simp
  then show "node_at B h' r' k i n = Some b \<Longrightarrow> owned own h' b \<or> node_at B h r k i n = Some b"
    using r by (auto simp: owned_def node_id_def)
qed

text \<open>One write by the vector with the fresh id \<open>c\<close>, relative to the vector \<open>v0\<close> of the store \<open>h0\<close> it
  started from.\<close>

definition derived :: "nat \<Rightarrow> id32 \<Rightarrow> 'a store \<Rightarrow> vec \<Rightarrow> 'a store \<Rightarrow> vec \<Rightarrow> nat \<Rightarrow> bool" where
  "derived B c h0 v0 h v K \<longleftrightarrow> vid v = c \<and> shift v = K * B \<and> sz v = sz v0 \<and>
    (\<forall>i n b. node_at B h (root v) K i n = Some b \<longrightarrow>
      owned c h b \<or> node_at B h0 (root v0) K i n = Some b)"

lemma node_at_store_leaf_owned:
  assumes "store_leaf h l j x = Some h'"
  shows "node_at B h' a k i n = node_at B h a k i n" "owned c h' b = owned c h b"
proof -
  show "node_at B h' a k i n = node_at B h a k i n" by (rule node_at_store_leaf [OF assms])
  obtain n xs where "cells h l = Some n" "h' = h\<lparr>cells := (cells h)(l \<mapsto> n\<lparr>u := U_leaves xs\<rparr>)\<rparr>"
    using assms by (auto simp: store_rules split: if_splits)
  then show "owned c h' b = owned c h b" by (simp add: owned_def node_id_def)
qed

lemma vset_derived:
  assumes "0 < B" "store_ok B T h" "vec_ok B T h v" "i < sz v"
    and "derived B c h0 v0 h v K" "vset B tr_vector h v i x = Some (v', h')"
  shows "derived B c h0 v0 h' v' K"
proof -
  have d: "vid v = c" "shift v = K * B" "sz v = sz v0"
    "\<And>i n b. node_at B h (root v) K i n = Some b \<Longrightarrow> owned c h b \<or> node_at B h0 (root v0) K i n = Some b"
    using assms(5) by (auto simp: derived_def)
  have V: "T (root v) = Some (K, 0)" "i < BP_WIDTH B ^ Suc K" "val B h (root v) K i \<noteq> None"
    using assms(1,3,4) d(2) by (auto simp: vec_ok_def)
  obtain r h1 l h2 where s: "cow_root tr_vector c h (root v) = Some (r, h1)"
    "cow_walk B tr_vector c h1 r (K * B) i = Some (l, h2)"
    "store_leaf h2 l (i AND BP_MASK B) x = Some h'" "v' = v\<lparr>root := r\<rparr>"
    using assms(6) d(1,2) by (auto simp: vset_def bind_rules)
  obtain T1 where t: "cow_result B tr_vector c h T h K T1 h1" "T1 r = Some (K, 0)"
    "\<not> protected tr_vector c h r" "\<forall>j i. val B h1 r j i = val B h (root v) j i"
    using cow_root_ok [OF assms(2) keeps_refl V(1), of tr_vector c K] s(1) by auto
  note k1 = cow_resultD(3) [OF t(1)]
  have w: "shadows B c h1 h2" "keeps tr_vector c h1 h2"
    using cow_walk_shadows [OF assms(1) cow_resultD(1) [OF t(1)] t(2) _ not_protected_keeps [OF k1 t(3)] _ s(2)]
      V(2,3) t(4) by auto
  have r1: "cells h1 r \<noteq> None" using store_ok_unique [OF cow_resultD(1) [OF t(1)] t(2)] .
  have "owned c h' b \<or> node_at B h0 (root v0) K j n = Some b" if b: "node_at B h' r K j n = Some b" for j n b
  proof -
    have "node_at B h2 r K j n = Some b" using b node_at_store_leaf_owned(1) [OF s(3)] by simp
    then have "owned c h2 b \<or> node_at B h1 r K j n = Some b" using w(1) r1 unfolding shadows_def by blast
    then have "owned c h2 b \<or> owned c h1 b \<or> node_at B h (root v) K j n = Some b"
      using cow_root_shadows(3) [OF assms(2) s(1)] by blast
    then have "owned c h2 b \<or> node_at B h0 (root v0) K j n = Some b"
      using d(4) owned_keeps [OF w(2)] owned_keeps [OF k1] by blast
    then show ?thesis using node_at_store_leaf_owned(2) [OF s(3)] by blast
  qed
  then show ?thesis using s(4) d(1-3) by (auto simp: derived_def)
qed

text \<open>A session of writes: \<open>mut_set\<close> only, the size stays.\<close>

fun writes_only :: "'a tr_op list \<Rightarrow> bool" where
  "writes_only [] = True"
| "writes_only (Mut_set i x # ops) = writes_only ops"
| "writes_only (Mut_push_back x # ops) = False"

lemma tr_run_derived:
  assumes "writes_only ops" "tr_inv B h v ws" "derived B c h0 v0 h v K"
    and "list_run (vlist B h v) ops = Some ys" "tr_run B h v ops = Some (v', h')"
  shows "derived B c h0 v0 h' v' K"
  using assms
proof (induction ops arbitrary: h v rule: writes_only.induct)
  case (2 i x ops)
  have i: "i < length (vlist B h v)" "list_run ((vlist B h v)[i := x]) ops = Some ys"
    using 2(5) by (auto simp: bind_rules split: if_splits)
  obtain v1 h1 where s: "tr_mut_set B h v i x = Some (v1, h1)"
    "tr_step_ok B h v ws v1 h1 ((vlist B h v)[i := x])" "tr_run B h1 v1 ops = Some (v', h')"
    using tr_mut_set_ok [OF 2(3) i(1), of x] 2(6) by auto
  have "vecs_ok B h (v # ws)" using 2(3) by (simp add: tr_inv_def)
  then obtain T where T: "0 < B" "store_ok B T h" "\<forall>w \<in> set (v # ws). vec_ok B T h w"
    by (rule vecs_okE)
  have "derived B c h0 v0 h1 v1 K"
    using vset_derived [OF T(1,2) _ _ 2(4), of i x v1 h1] T(3) i(1) s(1) by (simp add: tr_mut_set_vset)
  then show ?case using 2(1) [OF _ _ _ _ s(3)] 2(2) s(2) i(2) by (auto simp: tr_step_ok_def)
qed auto

text \<open>The vector the session started from and the one it made agree in ids.\<close>

lemma guarded_node_at:
  assumes "keeps kd own h h'" "guarded B kd own h a k i" "n \<le> k"
  shows "node_at B h' a k i n = node_at B h a k i n \<and>
    (\<forall>b. node_at B h a k i n = Some b \<longrightarrow> protected kd own h b)"
  using assms(2,3)
proof (induction n arbitrary: a k)
  case 0
  then show ?case by (cases k) auto
next
  case (Suc n)
  then obtain k' where k: "k = Suc k'" by (cases k) auto
  have "cells h' a = cells h a" using keeps_protected [OF assms(1)] Suc.prems(1) k by simp
  then have "load_branch h' a j = load_branch h a j" for j by (rule load_cong)
  with Suc k show ?case unfolding k node_at_step
    by (cases "load_branch h a (slot B i (Suc k' * B))") auto
qed

lemma session_id_agree:
  assumes "vecs_ok B h vs" "v \<in> set vs" "sz v \<noteq> 0"
    and fresh: "\<forall>a n. cells h a = Some n \<longrightarrow> nid n \<noteq> c" and t: "make_transient c v = (t, c')"
    and ops: "writes_only ops" "list_run (vlist B h v) ops = Some ys" "tr_run B h t ops = Some (t', h')"
  shows "id_agree B h' v t'"
proof -
  obtain T where T: "0 < B" "store_ok B T h" "\<forall>v \<in> set vs. vec_ok B T h v"
    using assms(1) by (rule vecs_okE)
  obtain K where K: "shift v = K * B" using T(3) assms(2) by (auto simp: vec_ok_def)
  have tv: "t = v\<lparr>vid := c\<rparr>" using t by (auto simp: make_transient_def get_unique_id_def)
  have inv: "tr_inv B h t vs" "vlist B h t = vlist B h v"
    using make_transient_inv [OF assms(1-3) fresh t] by auto
  have "derived B c h v h t K" using tv K by (simp add: derived_def)
  then have d: "derived B c h v h' t' K"
    using tr_run_derived [OF ops(1) inv(1) _ _ ops(3)] ops(2) inv(2) by simp
  have keeps: "keeps tr_vector c h h'"
    using tr_run_ok [OF inv(1), of ops ys] ops(2,3) inv(2) tv by (auto simp: tr_step_ok_def)
  have un: "unshared B tr_vector c h v" using unshared_fresh [OF T(1) _ fresh] T(3) assms(2) by blast
  have Kdiv: "shift v div B = K" using K T(1) by simp
  have "a = b" if i: "i < sz v" "n \<le> K" and a: "node_at B h' (root v) K i n = Some a"
    and b: "node_at B h' (root t') K i n = Some b" and id: "node_id h' a = node_id h' b" for i n a b
  proof -
    have g: "node_at B h (root v) K i n = Some a" "protected tr_vector c h a"
      using guarded_node_at [OF keeps _ i(2), of B "root v" i] un i(1) a Kdiv by (auto simp: unshared_def)
    then have "\<not> owned c h' a"
      using keeps_protected [OF keeps g(2)] by (auto simp: owned_def node_id_def protected_def)
    then have "\<not> owned c h' b" using id by (simp add: owned_def)
    then have "node_at B h (root v) K i n = Some b" using d b unfolding derived_def by blast
    then show ?thesis using g(1) by simp
  qed
  then show ?thesis using d K Kdiv by (auto simp: id_agree_def derived_def)
qed

text \<open>The search cursors of the loop \<open>c = next_diff_ids(w, 0); ...; c = next_diff_ids(w, ++c)\<close>.\<close>

inductive search_cursor :: "nat \<Rightarrow> 'a store \<Rightarrow> vec \<Rightarrow> vec \<Rightarrow> nat \<Rightarrow> bool" for B h v w where
  Search_start: "search_cursor B h v w 0"
| Search_next: "search_cursor B h v w i \<Longrightarrow> next_diff_ids B h v w i = Some (int j) \<Longrightarrow> j < sz v \<Longrightarrow>
    search_cursor B h v w (Suc j)"

lemma next_diff_small:
  assumes "pair_ok B T h v w K" "cursor_ok B h v w K i" "sz v < 2 ^ 31"
  shows "\<exists>j. next_diff_ids B h v w i = Some (int j) \<and> diff_found B h v w K i j"
proof -
  obtain j where j: "next_diff_ids B h v w i = Some (to_int32 j)" "diff_found B h v w K i j"
    using next_diff_found [OF assms(1,2)] by blast
  then have "j < 2 ^ 31" using assms(3) by (simp add: diff_found_def)
  with j int32_small(1) show ?thesis by auto
qed

lemma search_cursor_ok:
  assumes "pair_ok B T h v w K" "sz v < 2 ^ 31" "search_cursor B h v w i"
  shows "cursor_ok B h v w K i"
  using assms(3)
proof induction
  case (Search_next i j)
  obtain j' where "next_diff_ids B h v w i = Some (int j')" "diff_found B h v w K i j'"
    using next_diff_small [OF assms(1) Search_next(4) assms(2)] by blast
  with Search_next(2,3) have "\<forall>n \<le> K. apart B h v w K n j" by (simp add: diff_found_def)
  then show ?case by (rule cursor_ok_Suc)
qed (rule cursor_ok_0)

text \<open>The vectors of a session are a pair the search works on.\<close>

lemma pair_okI:
  assumes "vecs_ok B h vs" "v \<in> set vs" "w \<in> set vs" "id_agree B h v w"
  obtains T K where "pair_ok B T h v w K"
proof -
  obtain T where T: "0 < B" "store_ok B T h" "\<forall>v \<in> set vs. vec_ok B T h v"
    using assms(1) by (rule vecs_okE)
  moreover obtain K where "shift v = K * B" using T(3) assms(2) by (auto simp: vec_ok_def)
  ultimately show ?thesis using that [of T K] assms(2-4) by (simp add: pair_ok_def)
qed

section \<open>Properties\<close>

text \<open>C25. The search for changes that \<open>resolve\<close> relies on. After any session of in-place writes on a
  transient of a live vector \<open>v\<close>, \<open>next_diff_ids\<close> from any cursor the resolution loop can be at
  terminates, returns an index not before the cursor (or the size), and every index it passes over
  holds the same value in both vectors, although only node ids are compared.\<close>

theorem next_diff_after_session:
  assumes "vecs_ok B (h :: ('a::zero) store) vs" and "v \<in> set vs" and "0 < sz v" and "sz v < 2 ^ 31"
    and "ids_below c h" and "c \<noteq> - 1" and "make_transient c v = (t, c')" and "writes_only ops"
    and "list_run (vlist B h v) ops = Some ys" and "tr_run B h t ops = Some (t', h')"
    and "search_cursor B h' v t' i"
  shows "\<exists>j \<le> sz v. next_diff_ids B h' v t' i = Some (int j) \<and> (i < sz v \<longrightarrow> i \<le> j) \<and>
    (\<forall>m. i \<le> m \<longrightarrow> m < j \<longrightarrow> ys ! m = vlist B h v ! m)"
proof -
  have "get_unique_id c = (c, c')" using assms(7) by (auto simp: make_transient_def get_unique_id_def)
  note fresh = get_unique_id_fresh [OF assms(5,6) this]
  have nz: "sz v \<noteq> 0" using assms(3) by simp
  have inv: "tr_inv B h t vs" "vlist B h t = vlist B h v"
    using make_transient_inv [OF assms(1,2) nz _ assms(7)] fresh by auto
  have r: "vecs_ok B h' (t' # vs)" "vlist B h' t' = ys" "vlist B h' v = vlist B h v"
    using tr_run_ok [OF inv(1), of ops ys] inv(2) assms(2,9,10) by (auto simp: tr_step_ok_def tr_inv_def)
  have "id_agree B h' v t'" using session_id_agree [OF assms(1,2) nz _ assms(7-10)] fresh by blast
  then obtain T K where P: "pair_ok B T h' v t' K" using pair_okI [OF r(1), of v t'] assms(2) by auto
  obtain j where j: "next_diff_ids B h' v t' i = Some (int j)" "diff_found B h' v t' K i j"
    using next_diff_small [OF P search_cursor_ok [OF P assms(4,11)] assms(4)] by blast
  have "ys ! m = vlist B h v ! m" if "i \<le> m" "m < j" for m
    using j(2) that r(2,3) unfolding diff_found_def by (metis less_le_trans)
  with j show ?thesis unfolding diff_found_def by (metis order_refl)
qed

theorem next_diff_after_session_witness:
  "\<exists>v h t t' h'. vlist 1 h v = [7::int] \<and> make_transient 1 v = (t, 2) \<and>
     tr_run 1 h t [Mut_set 0 1] = Some (t', h') \<and> next_diff_ids 1 h' v t' 0 = Some 0"
proof -
  obtain v h where v: "vecs_ok 1 (h :: int store) [v]" "vlist 1 h v = [7]" "ids_below 1 h" "sz v = 1"
    by (rule one_element_vec)
  have t: "make_transient 1 v = (v\<lparr>vid := 1\<rparr>, 2)"
    by (simp add: make_transient_def get_unique_id_def)
  have l: "list_run (vlist 1 h v) [Mut_set 0 1] = Some [1]" using v(2) by simp
  obtain t' h' where r: "tr_run 1 h (v\<lparr>vid := 1\<rparr>) [Mut_set 0 1] = Some (t', h')"
    using transient_session [OF v(1) _ _ v(3) _ t l] v(4) by auto
  obtain j where j: "next_diff_ids 1 h' v t' 0 = Some (int j)"
    "\<forall>m. 0 \<le> m \<longrightarrow> m < j \<longrightarrow> [1::int] ! m = vlist 1 h v ! m"
    using next_diff_after_session [OF v(1) _ _ _ v(3) _ t _ l r Search_start] v(4) by auto
  have "j = 0"
  proof (rule ccontr)
    assume "j \<noteq> 0"
    then have "[1::int] ! 0 = vlist 1 h v ! 0" using j(2) by blast
    then show False using v(2) by simp
  qed
  then have "next_diff_ids 1 h' v t' 0 = Some 0" using j(1) by simp
  with v(2) t r show ?thesis by blast
qed

end
