(* ===== verification/Bp_Mut_Iter.thy ===== *)
theory Bp_Mut_Iter imports
  Bp_Diff Bp_Iterator
begin

text \<open>
  The mutable iterators of contentious/bp_vector_iterator.h at work: while they move they copy the
  nodes their vector does not own, so an iterator always stands in a leaf of its vector, on a path of
  nodes it may write, and stays there whatever its vector does afterwards. The lemmas give the view
  of the vector before and after each operation of an iterator.
\<close>

section \<open>Paths of owned nodes\<close>

text \<open>\<open>evolves\<close>: no branch to an owned node is redirected.\<close>

definition evolves :: "id32 \<Rightarrow> 'a store \<Rightarrow> 'a store \<Rightarrow> bool" where
  "evolves own h h' \<longleftrightarrow> keeps tr_vector own h h' \<and>
    (\<forall>y s d. load_branch h y s = Some d \<longrightarrow> owned own h d \<longrightarrow> load_branch h' y s = Some d)"

definition own_path :: "nat \<Rightarrow> id32 \<Rightarrow> 'a store \<Rightarrow> addr \<Rightarrow> nat \<Rightarrow> nat \<Rightarrow> addr \<Rightarrow> bool" where
  "own_path B own h a k i l \<longleftrightarrow> node_at B h a k i k = Some l \<and>
    (\<forall>m b. m \<le> k \<longrightarrow> node_at B h a k i m = Some b \<longrightarrow> owned own h b)"

lemma evolves_refl [simp]: "evolves own h h"
  by (simp add: evolves_def)

lemma evolves_trans: "evolves own h h' \<Longrightarrow> evolves own h' h'' \<Longrightarrow> evolves own h h''"
  unfolding evolves_def using keeps_trans owned_keeps by metis

lemma evolves_keeps: "evolves own h h' \<Longrightarrow> keeps tr_vector own h h'"
  by (simp add: evolves_def)

lemma own_path_owned: "own_path B own h a k i l \<Longrightarrow> owned own h a" "own_path B own h a k i l \<Longrightarrow> owned own h l"
  by (force simp: own_path_def)+

lemma own_path_evolves:
  assumes "evolves own h h'" "own_path B own h a k i l"
  shows "own_path B own h' a k i l"
proof -
  have ex: "node_at B h a k i m \<noteq> None" if "m \<le> k" for m
    using assms(2) node_at_add [of m "k - m" k B h a i] that
    by (cases "node_at B h a k i m") (auto simp: own_path_def)
  have own: "owned own h b" if "m \<le> k" "node_at B h a k i m = Some b" for m b
    using assms(2) that by (auto simp: own_path_def)
  have e: "m \<le> k \<Longrightarrow> node_at B h' a k i m = node_at B h a k i m" for m
  proof (induction m)
    case (Suc m)
    obtain c where c: "node_at B h a k i (Suc m) = Some c" using ex [OF Suc.prems] by blast
    then obtain b where b: "node_at B h a k i m = Some b"
      "load_branch h b (slot B i ((k - m) * B)) = Some c" by (auto simp: bind_rules)
    then have "owned own h c" using own [of "Suc m" c] Suc.prems by simp
    then have "load_branch h' b (slot B i ((k - m) * B)) = Some c"
      using b(2) assms(1) unfolding evolves_def by blast
    with Suc b show ?case by simp
  qed simp
  show ?thesis
    using assms(2) e own owned_keeps [OF evolves_keeps [OF assms(1)]] unfolding own_path_def by simp
qed

lemma owned_not_protected:
  assumes "keeps tr_vector own h0 h" "owned own h b"
  shows "\<not> protected tr_vector own h0 b"
proof
  assume "protected tr_vector own h0 b"
  then obtain n where n: "cells h0 b = Some n" "nid n \<noteq> own" by (auto simp: protected_def)
  from keeps_dom [OF assms(1) n(1)] assms(2) n(2) show False by (auto simp: owned_def node_id_def)
qed

lemma not_protected_owned:
  assumes "keeps tr_vector own h0 h" "\<not> protected tr_vector own h0 b" "cells h b \<noteq> None"
  shows "owned own h b"
proof -
  obtain m where m: "cells h b = Some m" using assms(3) by blast
  have "nid m = own"
  proof (cases "cells h0 b")
    case None
    then show ?thesis using assms(1) m unfolding keeps_def by blast
  next
    case (Some n)
    then show ?thesis using keeps_dom [OF assms(1) Some] assms(2) m by (auto simp: protected_def)
  qed
  with m show ?thesis by (simp add: owned_def node_id_def)
qed

lemma evolves_store_leaf:
  assumes "store_leaf h l j x = Some h'" "owned own h l"
  shows "evolves own h h'"
  using keeps_store_leaf [OF keeps_refl owned_not_protected [OF keeps_refl assms(2)] assms(1)]
    load_branch_store_leaf [OF assms(1)] by (simp add: evolves_def)

lemma evolves_alloc:
  assumes "store_ok B T h" "nid n = own"
  shows "evolves own h (snd (alloc h n))"
proof -
  have "load_branch (snd (alloc h n)) y s = load_branch h y s" if "load_branch h y s = Some d" for y s d
  proof (rule load_cong)
    have "cells h y \<noteq> None" using that by (auto simp: store_rules)
    then have "y \<noteq> fresh h" using store_ok_fresh [OF assms(1)] by auto
    then show "cells (snd (alloc h n)) y = cells h y" by simp
  qed
  then show ?thesis
    using keeps_alloc(1) [OF keeps_refl assms(1,2), of tr_vector] by (simp add: evolves_def)
qed

lemma cow_child_evolves:
  assumes "store_ok B T h" "owned own h a" "cow_child tr_vector own h a j = Some (c', h')"
  shows "evolves own h h'" "owned own h' c'"
proof -
  obtain c n where c: "load_branch h a j = Some c" "cells h c = Some n"
    using assms(3) by (auto simp: cow_child_def bind_rules)
  have "evolves own h h' \<and> owned own h' c'"
  proof (cases "own = nid n")
    case True
    then show ?thesis using assms(3) c by (simp add: cow_child_def owned_def node_id_def)
  next
    case False
    let ?n = "copy_node n own"
    let ?h1 = "snd (alloc h ?n)"
    have s: "store_branch ?h1 a j (fresh h) = Some h'" "c' = fresh h"
      using assms(3) c False by (auto simp: cow_child_def alloc_def bind_rules)
    have ne: "a \<noteq> fresh h" "c \<noteq> fresh h"
      using c store_ok_fresh [OF assms(1)] by (auto simp: store_rules)
    have e1: "evolves own h ?h1" by (rule evolves_alloc [OF assms(1)]) simp
    have own1: "owned own ?h1 a" using owned_keeps [OF evolves_keeps [OF e1] assms(2)] .
    have k: "keeps tr_vector own ?h1 h'"
      by (rule keeps_store_branch [OF keeps_refl owned_not_protected [OF keeps_refl own1] s(1)])
    have lc: "load_branch ?h1 a j = Some c" using c(1) ne load_cong(1) [of ?h1 a h] by simp
    have "\<not> owned own ?h1 c" using c(2) ne False by (auto simp: owned_def node_id_def)
    then have "evolves own ?h1 h'"
      using k lc unfolding evolves_def by (auto simp: load_branch_store_branch [OF s(1)])
    moreover have "owned own ?h1 (fresh h)" by (simp add: owned_def node_id_def)
    ultimately show ?thesis using e1 evolves_trans owned_keeps [OF k] s(2) by blast
  qed
  then show "evolves own h h'" "owned own h' c'" by auto
qed

lemma cow_root_evolves:
  assumes "store_ok B T h" "cow_root tr_vector own h r = Some (r', h')"
  shows "evolves own h h'" "owned own h' r'" "owned own h r \<Longrightarrow> r' = r \<and> h' = h"
proof -
  obtain m where m: "cells h r = Some m" using assms(2) by (auto simp: cow_root_def bind_rules)
  have e: "evolves own h (snd (alloc h (copy_node m own)))" by (rule evolves_alloc [OF assms(1)]) simp
  have "evolves own h h' \<and> owned own h' r' \<and> (owned own h r \<longrightarrow> r' = r \<and> h' = h)"
    using assms(2) m e by (auto simp: cow_root_def alloc_def owned_def node_id_def split: if_splits)
  then show "evolves own h h'" "owned own h' r'" "owned own h r \<Longrightarrow> r' = r \<and> h' = h" by auto
qed

text \<open>The copying walk ends in a leaf on a path of owned nodes.\<close>

lemma cow_walk_own:
  assumes "0 < B" "store_ok B T h" "keeps tr_vector own h0 h"
    and "T a = Some (k, q)" "q = i div BP_WIDTH B ^ Suc k" "owned own h a" "val B h a k i \<noteq> None"
  shows "\<exists>l h' T'. cow_walk B tr_vector own h a (k * B) i = Some (l, h') \<and>
    cow_result B tr_vector own h0 T h k T' h' \<and> evolves own h h' \<and> own_path B own h' a k i l"
  using assms(2-7)
proof (induction k arbitrary: a q h T)
  case 0
  then show ?case
    using cow_result_refl by (fastforce simp: cow_walk.simps own_path_def)
next
  case (Suc k)
  let ?j = "slot B i (Suc k * B)"
  obtain c where c: "load_branch h a ?j = Some c" using Suc.prems(6) by (auto simp: val_Suc bind_rules)
  obtain c1 h1 T1 where s: "cow_child tr_vector own h a ?j = Some (c1, h1)"
    "cow_result B tr_vector own h0 T h (Suc k) T1 h1" "load_branch h1 a ?j = Some c1"
    using cow_child_ok [OF Suc.prems(1,2,3) owned_not_protected [OF Suc.prems(2,5)] c] by blast
  note e1 = cow_child_evolves [OF Suc.prems(1,5) s(1)]
  have p: "T1 c1 = Some (k, i div BP_WIDTH B ^ Suc k)"
    using child_position [OF cow_resultD(1) [OF s(2)] extendsD [OF cow_resultD(2) [OF s(2)] Suc.prems(3)]
      Suc.prems(4) s(3)] .
  have "val B h1 a (Suc k) i \<noteq> None"
    using Suc.prems(6) cow_resultD(4) [OF s(2)] store_ok_unique [OF Suc.prems(1,3)]
    by (simp add: same_view_def)
  then have v: "val B h1 c1 k i \<noteq> None" using s(3) by (simp add: val_Suc)
  obtain l h' T' where w: "cow_walk B tr_vector own h1 c1 (k * B) i = Some (l, h')"
    "cow_result B tr_vector own h0 T1 h1 k T' h'" "evolves own h1 h'" "own_path B own h' c1 k i l"
    using Suc.IH [OF cow_resultD(1,3) [OF s(2)] p refl e1(2) v] by blast
  have l: "load_branch h' a ?j = Some c1" using w(3) s(3) e1(2) unfolding evolves_def by blast
  have own: "owned own h' a"
    using owned_keeps [OF evolves_keeps [OF evolves_trans [OF e1(1) w(3)]] Suc.prems(5)] .
  have "own_path B own h' a (Suc k) i l"
    unfolding own_path_def
  proof (intro conjI allI impI)
    show "node_at B h' a (Suc k) i (Suc k) = Some l"
      using w(4) l unfolding node_at_step by (simp add: own_path_def)
    fix m b assume m: "m \<le> Suc k" "node_at B h' a (Suc k) i m = Some b"
    show "owned own h' b"
    proof (cases m)
      case 0
      then show ?thesis using m(2) own by simp
    next
      case (Suc n)
      then have "node_at B h' c1 k i n = Some b" using m(2) l unfolding Suc node_at_step by simp
      then show ?thesis using w(4) m(1) Suc by (auto simp: own_path_def)
    qed
  qed
  moreover have "cow_walk B tr_vector own h a (Suc k * B) i = Some (l, h')"
    using s(1) w(1) assms(1) by (subst cow_walk.simps) simp
  ultimately show ?case
    using cow_result_trans [OF s(2) w(2)] evolves_trans [OF e1(1) w(3)] by auto
qed

section \<open>A vector under mutation\<close>

text \<open>\<open>mut_state\<close>: started from the store \<open>h0\<close>, the trie of root \<open>r\<close> with \<open>N\<close> values and \<open>Suc K\<close>
  levels now reads \<open>f\<close>, and only nodes of id \<open>own\<close> were written.\<close>

definition mut_state ::
    "nat \<Rightarrow> id32 \<Rightarrow> typing \<Rightarrow> 'a store \<Rightarrow> 'a store \<Rightarrow> addr \<Rightarrow> nat \<Rightarrow> nat \<Rightarrow> (nat \<Rightarrow> 'a option) \<Rightarrow> bool" where
  "mut_state B own T0 h0 h r K N f \<longleftrightarrow> 0 < B \<and> keeps tr_vector own h0 h \<and> N \<le> BP_WIDTH B ^ Suc K \<and>
    (\<forall>i < N. f i \<noteq> None) \<and> (\<forall>i < N. val B h r K i = f i) \<and>
    (\<exists>T. store_ok B T h \<and> extends T0 T \<and> T r = Some (K, 0))"

text \<open>\<open>mpos\<close>: the iterator \<open>it\<close> of that trie stands at index \<open>n\<close>, or past the last one.\<close>

definition mpos :: "nat \<Rightarrow> id32 \<Rightarrow> 'a store \<Rightarrow> addr \<Rightarrow> nat \<Rightarrow> nat \<Rightarrow> iter \<Rightarrow> nat \<Rightarrow> bool" where
  "mpos B own h r K N it n \<longleftrightarrow> it_root it = r \<and> it_shift it = K * B \<and> it_sz it = N \<and> it_id it = own \<and>
    (if n < N
     then own_path B own h r K n (it_leaf it) \<and> it_off it = n mod BP_WIDTH B \<and> it_i it + it_off it = n
     else n = N \<and> 0 < N \<and> own_path B own h r K (n - 1) (it_leaf it) \<and>
       it_off it = (n - 1) mod BP_WIDTH B + 1)"

lemma mut_stateD:
  assumes "mut_state B own T0 h0 h r K N f"
  shows "0 < B" "keeps tr_vector own h0 h" "N \<le> BP_WIDTH B ^ Suc K" "i < N \<Longrightarrow> f i \<noteq> None"
    "i < N \<Longrightarrow> val B h r K i = f i"
    "\<exists>T. store_ok B T h \<and> extends T0 T \<and> T r = Some (K, 0)"
  using assms unfolding mut_state_def by blast+

lemma mpos_evolves: "evolves own h h' \<Longrightarrow> mpos B own h r K N it n \<Longrightarrow> mpos B own h' r K N it n"
  by (auto simp: mpos_def intro: own_path_evolves split: if_splits)

lemma mpos_le: "mpos B own h r K N it n \<Longrightarrow> n \<le> N"
  by (auto simp: mpos_def split: if_splits)

lemma mpos_unique: "mpos B own h r K N it n \<Longrightarrow> mpos B own h r K N e n \<Longrightarrow> it_eq it e"
  by (auto simp: mpos_def it_eq_def own_path_def split: if_splits)

lemma own_path_position:
  assumes "mut_state B own T0 h0 h r K N f" "own_path B own h r K i l" "i < N"
    and "store_ok B T h" "T r = Some (K, 0)"
  shows "T l = Some (0, i div BP_WIDTH B)"
proof -
  have "0 = i div BP_WIDTH B ^ Suc K" using mut_stateD(3) [OF assms(1)] assms(3) by simp
  from node_at_position [OF assms(4,5) this, of K l] assms(2) show ?thesis by (simp add: own_path_def)
qed

lemma mpos_neq:
  assumes M: "mut_state B own T0 h0 h r K N f"
    and "mpos B own h r K N it n" "mpos B own h r K N e m" "n < m"
  shows "\<not> it_eq it e"
proof
  assume eq: "it_eq it e"
  let ?w = "BP_WIDTH B"
  obtain T where T: "store_ok B T h" "T r = Some (K, 0)" using mut_stateD(6) [OF M] by blast
  note pos = own_path_position [OF M _ _ T]
  have nN: "n < N" using assms(3,4) mpos_le by fastforce
  then have it: "T (it_leaf it) = Some (0, n div ?w)" "it_off it = n mod ?w"
    using assms(2) pos by (auto simp: mpos_def)
  show False
  proof (cases "m < N")
    case True
    then have "T (it_leaf e) = Some (0, m div ?w)" "it_off e = m mod ?w"
      using assms(3) pos by (auto simp: mpos_def)
    with it eq have "n = m" by (intro div_eq_mod_eq [of n ?w m]) (auto simp: it_eq_def)
    with assms(4) show False by simp
  next
    case False
    then have e: "m = N" "0 < N" "own_path B own h r K (N - 1) (it_leaf e)" "it_off e = (N - 1) mod ?w + 1"
      using assms(3) by (auto simp: mpos_def)
    then have "T (it_leaf e) = Some (0, (N - 1) div ?w)" using pos [of "N - 1"] by simp
    with it eq have "n div ?w = (N - 1) div ?w" by (auto simp: it_eq_def)
    moreover have "n mod ?w = (N - 1) mod ?w + 1" using eq it(2) e(4) by (simp add: it_eq_def)
    ultimately have "n = N - 1 + 1" by (metis add.assoc div_mult_mod_eq)
    with nN show False by simp
  qed
qed

text \<open>Indices of one leaf share their path.\<close>

lemma own_path_same_leaf:
  assumes "i div BP_WIDTH B = j div BP_WIDTH B"
  shows "own_path B own h r K i l = own_path B own h r K j l"
proof -
  have "node_at B h r K i m = node_at B h r K j m" if "m \<le> K" for m
    by (rule node_at_cong [OF that], rule div_power_mono [of i "BP_WIDTH B" 1 j])
      (simp_all add: assms)
  then show ?thesis unfolding own_path_def by auto
qed

section \<open>The operations of the iterator\<close>

lemma mut_state_walk:
  assumes M: "mut_state B own T0 h0 h r K N f" and "owned own h r" "i < N"
  shows "\<exists>l h'. cow_walk B tr_vector own h r (K * B) i = Some (l, h') \<and>
    mut_state B own T0 h0 h' r K N f \<and> evolves own h h' \<and> own_path B own h' r K i l"
proof -
  obtain T where T: "store_ok B T h" "extends T0 T" "T r = Some (K, 0)"
    using mut_stateD(6) [OF M] by blast
  have i: "i < BP_WIDTH B ^ Suc K" using mut_stateD(3) [OF M] assms(3) by simp
  then have q: "0 = i div BP_WIDTH B ^ Suc K" by simp
  have v: "val B h r K i \<noteq> None" using mut_stateD(4) [OF M assms(3)] mut_stateD(5) [OF M assms(3)] by simp
  obtain l h' T' where w: "cow_walk B tr_vector own h r (K * B) i = Some (l, h')"
    "cow_result B tr_vector own h0 T h K T' h'" "evolves own h h'" "own_path B own h' r K i l"
    using cow_walk_own [OF mut_stateD(1) [OF M] T(1) mut_stateD(2) [OF M] T(3) q assms(2) v] by blast
  have "val B h' r K j = val B h r K j" for j
    using cow_resultD(4) [OF w(2)] store_ok_unique [OF T(1,3)] by (simp add: same_view_def)
  moreover have "store_ok B T' h' \<and> extends T0 T' \<and> T' r = Some (K, 0)"
    using cow_resultD(1,2) [OF w(2)] extends_trans [OF T(2)] extendsD [of T T' r] T(3) by blast
  ultimately have "mut_state B own T0 h0 h' r K N f"
    using M cow_resultD(3) [OF w(2)] unfolding mut_state_def by auto
  with w show ?thesis by blast
qed

lemma mpos_of_path:
  assumes "own_path B own h r K n l" "n < N" "it_root it = r" "it_shift it = K * B" "it_sz it = N"
    "it_id it = own" "it_leaf it = l" "it_off it = n mod BP_WIDTH B" "it_i it + it_off it = n"
  shows "mpos B own h r K N it n"
  using assms by (simp add: mpos_def)

lemma mpos_owned: "mpos B own h r K N it n \<Longrightarrow> owned own h r"
  by (auto simp: mpos_def split: if_splits dest: own_path_owned)

text \<open>\<open>++it\<close>\<close>

lemma iter_inc_mpos:
  assumes M: "mut_state B own T0 h0 h r K N f" and it: "mpos B own h r K N it n" and n: "n < N"
  shows "\<exists>it' h'. iter_inc B h it = Some (it', h') \<and> mut_state B own T0 h0 h' r K N f \<and>
    evolves own h h' \<and> mpos B own h' r K N it' (Suc n)"
proof -
  let ?w = "BP_WIDTH B"
  have p: "it_root it = r" "it_shift it = K * B" "it_sz it = N" "it_id it = own"
    "own_path B own h r K n (it_leaf it)" "it_off it = n mod ?w" "it_i it + it_off it = n"
    using it n by (auto simp: mpos_def)
  show ?thesis
  proof (cases "it_off it + 1 = ?w")
    case False
    then have m: "Suc n mod ?w = Suc (n mod ?w)" "Suc n div ?w = n div ?w"
      using mod_width_step(1) [OF BP_WIDTH_pos, of n B] p(6) by auto
    have "own_path B own h r K (Suc n) (it_leaf it)" using own_path_same_leaf [OF m(2)] p(5) by blast
    with False m p n M show ?thesis by (auto simp: iter_inc_def mpos_def)
  next
    case True
    then have m: "Suc n mod ?w = 0" "it_i it + ?w = Suc n"
      using mod_width_step(2) [OF BP_WIDTH_pos, of n B] p(6,7) by auto
    show ?thesis
    proof (cases "Suc n < N")
      case False
      then have "N = Suc n" using n by simp
      with True m p M show ?thesis by (auto simp: iter_inc_def mpos_def)
    next
      case less: True
      obtain l h' where w: "cow_walk B tr_vector own h r (K * B) (Suc n) = Some (l, h')"
        "mut_state B own T0 h0 h' r K N f" "evolves own h h'" "own_path B own h' r K (Suc n) l"
        using mut_state_walk [OF M mpos_owned [OF it] less] by blast
      let ?it = "it\<lparr>it_i := Suc n, it_leaf := l, it_off := 0\<rparr>"
      have "mpos B own h' r K N ?it (Suc n)" using less m p w(4) by (simp add: mpos_def)
      moreover have "iter_inc B h it = Some (?it, h')"
        using True m p less w(1) by (simp add: iter_inc_def)
      ultimately show ?thesis using w by blast
    qed
  qed
qed

text \<open>\<open>begin() + n\<close>\<close>

lemma iter_add_mpos:
  assumes M: "mut_state B own T0 h0 h r K N f" and it: "mpos B own h r K N it 0" and n: "n \<le> N" "0 < N"
  shows "\<exists>it' h'. iter_add B h it n = Some (it', h') \<and> mut_state B own T0 h0 h' r K N f \<and>
    evolves own h h' \<and> mpos B own h' r K N it' n"
proof -
  let ?w = "BP_WIDTH B"
  have p: "it_root it = r" "it_shift it = K * B" "it_sz it = N" "it_id it = own"
    "own_path B own h r K 0 (it_leaf it)" "it_off it = 0" "it_i it = 0"
    using it n by (auto simp: mpos_def)
  show ?thesis
  proof (cases "n < ?w")
    case True
    have "own_path B own h r K i (it_leaf it)" if "i < ?w" for i
      using own_path_same_leaf [of i B 0 own h r K] that p(5) by simp
    moreover have "n - 1 < ?w" using True by simp
    ultimately show ?thesis
      using True p n M it by (cases "n = 0") (auto simp: iter_add_def mpos_def)
  next
    case False
    then have n0: "0 < n" by (cases n) auto
    let ?i = "if N \<le> n then N - 1 else n"
    have "?i < N" using n by simp
    from mut_state_walk [OF M mpos_owned [OF it] this]
    obtain l h' where w: "cow_walk B tr_vector own h r (K * B) ?i = Some (l, h')"
      "mut_state B own T0 h0 h' r K N f" "evolves own h h'" "own_path B own h' r K ?i l" by blast
    let ?it = "it\<lparr>it_leaf := l, it_off := (?i AND BP_MASK B) + (if N \<le> n then 1 else 0),
      it_i := ?i - (?i AND BP_MASK B)\<rparr>"
    have m: "i mod ?w \<le> i" for i by simp
    have "mpos B own h' r K N ?it n"
      using w(4) p n n0 m by (auto simp: mpos_def and_BP_MASK split: if_splits)
    moreover have "iter_add B h it n = Some (?it, h')"
      using False n0 n p w(1) by (auto simp: iter_add_def add_target_def Let_def)
    ultimately show ?thesis using w by blast
  qed
qed

text \<open>\<open>*it\<close> and \<open>*it = x\<close>\<close>

lemma mpos_deref:
  assumes "mut_state B own T0 h0 h r K N f" "mpos B own h r K N it n" "n < N"
  shows "it_deref h it = f n"
proof -
  have "node_at B h r K n K = Some (it_leaf it)" "it_off it = n mod BP_WIDTH B"
    using assms(2,3) by (auto simp: mpos_def own_path_def)
  then have "val B h r K n = it_deref h it" by (simp add: val_def it_deref_def and_BP_MASK)
  then show ?thesis using mut_stateD(3,5) [OF assms(1)] assms(3) by simp
qed

lemma mpos_assign:
  assumes M: "mut_state B own T0 h0 h r K N f" and "mpos B own h r K N it n" "n < N"
  shows "\<exists>h'. it_assign h it x = Some h' \<and> mut_state B own T0 h0 h' r K N (f(n := Some x)) \<and> evolves own h h'"
proof -
  let ?l = "it_leaf it"
  obtain T where T: "store_ok B T h" "extends T0 T" "T r = Some (K, 0)"
    using mut_stateD(6) [OF M] by blast
  have p: "own_path B own h r K n ?l" "it_off it = n AND BP_MASK B"
    using assms(2,3) by (auto simp: mpos_def and_BP_MASK)
  have n: "n < BP_WIDTH B ^ Suc K" using mut_stateD(3) [OF M] assms(3) by simp
  have l: "T ?l = Some (0, n div BP_WIDTH B)" using own_path_position [OF M p(1) assms(3) T(1,3)] .
  obtain h' where h': "store_leaf h ?l (n AND BP_MASK B) x = Some h'" "store_ok B T h'"
    using store_leaf_ok [OF T(1) l index_less] by blast
  have e: "evolves own h h'" using evolves_store_leaf [OF h'(1) own_path_owned(2) [OF p(1)]] .
  have "val B h' r K i = (f(n := Some x)) i" if "i < N" for i
    using leaf_write_view [OF T(1,3) n _ h'(1), of i] p(1) mut_stateD(3) [OF M] mut_stateD(5) [OF M that] that
    by (simp add: own_path_def)
  then have "mut_state B own T0 h0 h' r K N (f(n := Some x))"
    using M h'(2) T(2,3) keeps_trans [OF mut_stateD(2) [OF M] evolves_keeps [OF e]]
    by (auto simp: mut_state_def)
  with h'(1) e show ?thesis by (auto simp: it_assign_def p(2))
qed

text \<open>\<open>begin()\<close>\<close>

lemma it_begin_mpos:
  assumes M: "mut_state B (vid v) T0 h0 h (root v) K (sz v) f" and v: "shift v = K * B" "0 < sz v"
  shows "\<exists>it r h'. it_begin B h v = Some (it, v\<lparr>root := r\<rparr>, h') \<and>
    mut_state B (vid v) T0 h0 h' r K (sz v) f \<and> evolves (vid v) h h' \<and>
    mpos B (vid v) h' r K (sz v) it 0 \<and> (owned (vid v) h (root v) \<longrightarrow> r = root v)"
proof -
  let ?own = "vid v"
  obtain T where T: "store_ok B T h" "extends T0 T" "T (root v) = Some (K, 0)"
    using mut_stateD(6) [OF M] by blast
  obtain r h1 T1 where c: "cow_root tr_vector ?own h (root v) = Some (r, h1)"
    "cow_result B tr_vector ?own h0 T h K T1 h1" "T1 r = Some (K, 0)"
    "\<forall>j i. val B h1 r j i = val B h (root v) j i"
    using cow_root_ok [OF T(1) mut_stateD(2) [OF M] T(3)] by blast
  note e = cow_root_evolves [OF T(1) c(1)]
  have "store_ok B T1 h1 \<and> extends T0 T1 \<and> T1 r = Some (K, 0)"
    using cow_resultD(1,2) [OF c(2)] extends_trans [OF T(2)] c(3) by blast
  then have M1: "mut_state B ?own T0 h0 h1 r K (sz v) f"
    using M c(4) cow_resultD(3) [OF c(2)] unfolding mut_state_def by auto
  obtain l h2 where w: "cow_walk B tr_vector ?own h1 r (K * B) 0 = Some (l, h2)"
    "mut_state B ?own T0 h0 h2 r K (sz v) f" "evolves ?own h1 h2" "own_path B ?own h2 r K 0 l"
    using mut_state_walk [OF M1 e(2) v(2)] by blast
  let ?it = "\<lparr>it_root = r, it_shift = shift v, it_i = 0, it_sz = sz v, it_id = ?own,
    it_leaf = l, it_off = 0\<rparr>"
  have "it_begin B h v = Some (?it, v\<lparr>root := r\<rparr>, h2)"
    using c(1) w(1) v(1) by (simp add: it_begin_def)
  moreover have "mpos B ?own h2 r K (sz v) ?it 0" using w(4) v by (simp add: mpos_def)
  ultimately show ?thesis using w(2,3) e(1,3) evolves_trans by blast
qed

section \<open>Reading another vector meanwhile\<close>

text \<open>\<open>source\<close>: a vector \<open>w\<close> without nodes of the writing id, in the store \<open>h0\<close>.\<close>

definition source :: "nat \<Rightarrow> id32 \<Rightarrow> typing \<Rightarrow> 'a store \<Rightarrow> vec \<Rightarrow> bool" where
  "source B own T0 h0 w \<longleftrightarrow> 0 < B \<and> store_ok B T0 h0 \<and> vec_ok B T0 h0 w \<and> unshared B tr_vector own h0 w"

lemma source_walk:
  assumes "source B own T0 h0 w" "keeps tr_vector own h0 h" "i < sz w"
  shows "walk B h (root w) (shift w) i = walk B h0 (root w) (shift w) i"
proof -
  obtain K where K: "shift w = K * B" using assms(1) by (auto simp: source_def vec_ok_def)
  have B: "0 < B" using assms(1) by (simp add: source_def)
  have "guarded B tr_vector own h0 (root w) K i"
    using assms(1,3) K B by (simp add: source_def unshared_def)
  then show ?thesis
    using guarded_node_at [OF assms(2), of B "root w" K i K] B unfolding K by (simp add: walk_node_at)
qed

lemma source_cur_at:
  assumes "source B own T0 h0 w" "keeps tr_vector own h0 h"
  shows "cur_at B h w it n = cur_at B h0 w it n"
proof (cases "n < sz w")
  case True
  then show ?thesis using source_walk [OF assms True] by (simp add: cur_at_def)
next
  case False
  then show ?thesis using source_walk [OF assms, of "n - 1"] by (auto simp: cur_at_def)
qed

lemma source_later:
  assumes "source B own T0 h0 w" "mut_state B own T0 h0 h r K N f"
  obtains T where "store_ok B T h" "vec_ok B T h w" "vlist B h w = vlist B h0 w"
proof -
  obtain T where T: "store_ok B T h" "extends T0 T" using mut_stateD(6) [OF assms(2)] by blast
  have "vec_ok B T h w" "vlist B h w = vlist B h0 w"
    using unshared_frame [OF _ _ _ mut_stateD(2) [OF assms(2)] T(2)] assms(1) by (auto simp: source_def)
  with T(1) that show ?thesis by blast
qed

text \<open>One step of a read iterator in a later store.\<close>

lemma source_step:
  assumes S: "source B own T0 h0 w" and M: "mut_state B own T0 h0 h r K N f"
    and "cur_at B h0 w it n" "n < sz w"
  shows "it_deref h it = Some (vlist B h0 w ! n)"
    "\<exists>it'. citer_inc B h it = Some it' \<and> cur_at B h0 w it' (Suc n)"
proof -
  obtain T where T: "store_ok B T h" "vec_ok B T h w" "vlist B h w = vlist B h0 w"
    using source_later [OF S M] .
  note B = mut_stateD(1,2) [OF M]
  have it: "cur_at B h w it n" using assms(3) source_cur_at [OF S B(2)] by simp
  show "it_deref h it = Some (vlist B h0 w ! n)"
    using cur_at_deref [OF B(1) T(2) it assms(4)] T(3) by simp
  show "\<exists>it'. citer_inc B h it = Some it' \<and> cur_at B h0 w it' (Suc n)"
    using cur_at_inc [OF B(1) T(2) it assms(4)] source_cur_at [OF S B(2)] by simp
qed

lemma source_neq:
  assumes "source B own T0 h0 w" "cur_at B h0 w it n" "cur_at B h0 w e m" "n < m" "m \<le> sz w"
  shows "\<not> it_eq it e"
  using cur_at_neq_end [of B T0 h0 w it n m e] assms by (auto simp: source_def)

end
