(* ===== verification/Assign_Correct.thy ===== *)
theory Assign_Correct imports
  Bp_Assign Bp_Mut_Iter
begin

text \<open>
  \<open>assign\<close> copies exactly the range: afterwards the vector holds the other vector's values between
  \<open>a\<close> and \<open>b\<close> and its own elsewhere. The proof follows the code: single values up to the first leaf
  boundary, whole branches going up the trie, at the node where the paths of \<open>a\<close> and \<open>b\<close> part, and
  going down again, and single values in the last leaf.
\<close>

section \<open>Patched views\<close>

definition patch :: "nat \<Rightarrow> nat \<Rightarrow> (nat \<Rightarrow> 'b) \<Rightarrow> (nat \<Rightarrow> 'b) \<Rightarrow> nat \<Rightarrow> 'b" where
  "patch a b g f i = (if a \<le> i \<and> i < b then g i else f i)"

lemma patch_empty [simp]: "b \<le> a \<Longrightarrow> patch a b g f = f"
  by (auto simp: patch_def fun_eq_iff)

lemma patch_step: "a < b \<Longrightarrow> patch (Suc a) b g (f(a := g a)) = patch a b g f"
  by (auto simp: patch_def fun_eq_iff)

lemma patch_patch: "a \<le> b \<Longrightarrow> b \<le> c \<Longrightarrow> patch b c g (patch a b g f) = patch a c g f"
  by (auto simp: patch_def fun_eq_iff)

definition values_of :: "nat \<Rightarrow> 'a store \<Rightarrow> vec \<Rightarrow> nat \<Rightarrow> 'a option" where
  "values_of B h w i = Some (vlist B h w ! i)"

section \<open>Copying values\<close>

lemma copy_dst_ok:
  assumes S: "source B own T0 h0 w" and N: "N = sz w" "m \<le> N"
  shows "mut_state B own T0 h0 h r K N f \<Longrightarrow> cur_at B h0 w it n \<Longrightarrow> mpos B own h r K N d n \<Longrightarrow>
    mpos B own h r K N e m \<Longrightarrow> n \<le> m \<Longrightarrow>
    \<exists>h'. copy_dst B h it d e = Some h' \<and> mut_state B own T0 h0 h' r K N (patch n m (values_of B h0 w) f) \<and>
      evolves own h h'"
proof (induction "m - n" arbitrary: h f it d n)
  case 0
  then have "n = m" by simp
  then have "it_eq d e" using mpos_unique 0 by blast
  then show ?case using 0 \<open>n = m\<close> by (auto simp: copy_dst.simps)
next
  case (Suc k)
  then have n: "n < m" "n < N" and k: "k = m - Suc n" using N(2) by auto
  note M = Suc.prems(1)
  have ne: "\<not> it_eq d e" using mpos_neq [OF M Suc.prems(3,4) n(1)] .
  have x: "it_deref h it = Some (vlist B h0 w ! n)"
    using source_step(1) [OF S M Suc.prems(2)] n(2) N(1) by simp
  obtain h1 where a: "it_assign h d (vlist B h0 w ! n) = Some h1"
    "mut_state B own T0 h0 h1 r K N (f(n := values_of B h0 w n))" "evolves own h h1"
    using mpos_assign [OF M Suc.prems(3) n(2), of "vlist B h0 w ! n"] by (auto simp: values_of_def)
  obtain d' h2 where b: "iter_inc B h1 d = Some (d', h2)"
    "mut_state B own T0 h0 h2 r K N (f(n := values_of B h0 w n))" "evolves own h1 h2"
    "mpos B own h2 r K N d' (Suc n)"
    using iter_inc_mpos [OF a(2) mpos_evolves [OF a(3) Suc.prems(3)] n(2)] by blast
  obtain it' where c: "citer_inc B h2 it = Some it'" "cur_at B h0 w it' (Suc n)"
    using source_step(2) [OF S b(2) Suc.prems(2)] n(2) N(1) by auto
  have e: "mpos B own h2 r K N e m" using mpos_evolves [OF b(3) mpos_evolves [OF a(3) Suc.prems(4)]] .
  obtain h' where "copy_dst B h2 it' d' e = Some h'"
    "mut_state B own T0 h0 h' r K N (patch (Suc n) m (values_of B h0 w) (f(n := values_of B h0 w n)))"
    "evolves own h2 h'"
    using Suc.hyps(1) [OF k b(2) c(2) b(4) e] n(1) by (meson Suc_leI)
  then show ?case
    using ne x a b c n(1) evolves_trans [OF evolves_trans [OF a(3) b(3)]]
    by (subst copy_dst.simps) (auto simp: patch_step)
qed

lemma copy_src_ok:
  assumes S: "source B own T0 h0 w" and N: "N = sz w" "m \<le> N"
  shows "mut_state B own T0 h0 h r K N f \<Longrightarrow> cur_at B h0 w it n \<Longrightarrow> cur_at B h0 w e m \<Longrightarrow>
    mpos B own h r K N d n \<Longrightarrow> n \<le> m \<Longrightarrow>
    \<exists>h'. copy_src B h it e d = Some h' \<and> mut_state B own T0 h0 h' r K N (patch n m (values_of B h0 w) f) \<and>
      evolves own h h'"
proof (induction "m - n" arbitrary: h f it d n)
  case 0
  then have "n = m" by simp
  moreover have "0 < sz w" using N(1) 0(5) by (auto simp: mpos_def split: if_splits)
  ultimately have "it_eq it e" using cur_at_unique 0 by blast
  then show ?case using 0 \<open>n = m\<close> by (auto simp: copy_src.simps)
next
  case (Suc k)
  then have n: "n < m" "n < N" and k: "k = m - Suc n" using N(2) by auto
  note M = Suc.prems(1)
  have ne: "\<not> it_eq it e" using source_neq [OF S Suc.prems(2,3) n(1)] N by simp
  have x: "it_deref h it = Some (vlist B h0 w ! n)"
    using source_step(1) [OF S M Suc.prems(2)] n(2) N(1) by simp
  obtain h1 where a: "it_assign h d (vlist B h0 w ! n) = Some h1"
    "mut_state B own T0 h0 h1 r K N (f(n := values_of B h0 w n))" "evolves own h h1"
    using mpos_assign [OF M Suc.prems(4) n(2), of "vlist B h0 w ! n"] by (auto simp: values_of_def)
  obtain d' h2 where b: "iter_inc B h1 d = Some (d', h2)"
    "mut_state B own T0 h0 h2 r K N (f(n := values_of B h0 w n))" "evolves own h1 h2"
    "mpos B own h2 r K N d' (Suc n)"
    using iter_inc_mpos [OF a(2) mpos_evolves [OF a(3) Suc.prems(4)] n(2)] by blast
  obtain it' where c: "citer_inc B h2 it = Some it'" "cur_at B h0 w it' (Suc n)"
    using source_step(2) [OF S b(2) Suc.prems(2)] n(2) N(1) by auto
  obtain h' where "copy_src B h2 it' e d' = Some h'"
    "mut_state B own T0 h0 h' r K N (patch (Suc n) m (values_of B h0 w) (f(n := values_of B h0 w n)))"
    "evolves own h2 h'"
    using Suc.hyps(1) [OF k b(2) c(2) Suc.prems(3) b(4)] n(1) by (meson Suc_leI)
  then show ?case
    using ne x a b c n(1) evolves_trans [OF evolves_trans [OF a(3) b(3)]]
    by (subst copy_src.simps) (auto simp: patch_step)
qed

text \<open>The state of an assignment to \<open>v\<close>: its view is \<open>f\<close>.\<close>

definition asg :: "nat \<Rightarrow> vec \<Rightarrow> typing \<Rightarrow> 'a store \<Rightarrow> nat \<Rightarrow> 'a store \<Rightarrow> vec \<Rightarrow> (nat \<Rightarrow> 'a option) \<Rightarrow> bool" where
  "asg B v0 T0 h0 K h v f \<longleftrightarrow> v = v0\<lparr>root := root v\<rparr> \<and> shift v0 = K * B \<and> 0 < sz v0 \<and>
    mut_state B (vid v0) T0 h0 h (root v) K (sz v0) f"

lemma asgD:
  assumes "asg B v0 T0 h0 K h v f"
  shows "mut_state B (vid v) T0 h0 h (root v) K (sz v) f" "shift v = K * B" "0 < sz v"
    "sz v = sz v0" "vid v = vid v0"
proof -
  have v: "v = v0\<lparr>root := root v\<rparr>" "shift v0 = K * B" "0 < sz v0"
    "mut_state B (vid v0) T0 h0 h (root v) K (sz v0) f" using assms by (auto simp: asg_def)
  have "vid v = vid v0" by (subst v(1)) simp
  moreover have "sz v = sz v0" by (subst v(1)) simp
  moreover have "shift v = shift v0" by (subst v(1)) simp
  ultimately show "mut_state B (vid v) T0 h0 h (root v) K (sz v) f" "shift v = K * B" "0 < sz v"
    "sz v = sz v0" "vid v = vid v0" using v by simp_all
qed

lemma asg_root:
  assumes "asg B v0 T0 h0 K h v f" "mut_state B (vid v0) T0 h0 h' r K (sz v0) f'"
  shows "asg B v0 T0 h0 K h' (v\<lparr>root := r\<rparr>) f'"
proof -
  have "v = v0\<lparr>root := root v\<rparr>" using assms(1) by (simp add: asg_def)
  then have "v\<lparr>root := r\<rparr> = v0\<lparr>root := r\<rparr>" by (metis vec.update_convs(3) vec.surjective vec.ext_inject)
  with assms show ?thesis by (simp add: asg_def)
qed

lemma copy_values_dst_ok:
  assumes A: "asg B v0 T0 h0 K h v f" and S: "source B (vid v0) T0 h0 w" and N: "sz w = sz v0"
    and "a \<le> b" "b \<le> sz w"
  shows "\<exists>v' h'. copy_values_dst B h v w a b = Some (v', h') \<and>
    asg B v0 T0 h0 K h' v' (patch a b (values_of B h0 w) f)"
proof -
  note V = asgD [OF A]
  let ?own = "vid v" and ?N = "sz v"
  have S': "source B ?own T0 h0 w" using S V(5) by simp
  obtain T where T: "store_ok B T h" "vec_ok B T h w" using source_later [OF S' V(1)] .
  note k = mut_stateD(1,2) [OF V(1)]
  have N': "0 < sz w" using N V(3,4) by simp
  obtain c0 where c0: "cbegin B h w = Some c0" "cur_at B h w c0 0"
    using cur_at_begin [OF k(1) T(2) N'] by blast
  obtain it where it: "citer_add B h c0 a = Some it" "cur_at B h w it a"
    using cur_at_add [OF k(1) T(2) c0(2) _ N', of a] assms(4,5) by auto
  have it0: "cur_at B h0 w it a" using it(2) source_cur_at [OF S' k(2)] by simp
  obtain d0 r h1 where d0: "it_begin B h v = Some (d0, v\<lparr>root := r\<rparr>, h1)"
    "mut_state B ?own T0 h0 h1 r K ?N f" "evolves ?own h h1" "mpos B ?own h1 r K ?N d0 0"
    using it_begin_mpos [OF V(1,2,3)] by blast
  obtain e h2 where e: "iter_add B h1 d0 b = Some (e, h2)" "mut_state B ?own T0 h0 h2 r K ?N f"
    "evolves ?own h1 h2" "mpos B ?own h2 r K ?N e b"
    using iter_add_mpos [OF d0(2,4) _ V(3), of b] assms(5) N V(4) by auto
  let ?v = "v\<lparr>root := r\<rparr>"
  have own: "owned ?own h2 r" using mpos_owned [OF e(4)] .
  obtain d1 h3 where d1: "it_begin B h2 ?v = Some (d1, ?v, h3)"
    "mut_state B ?own T0 h0 h3 r K ?N f" "evolves ?own h2 h3" "mpos B ?own h3 r K ?N d1 0"
    using it_begin_mpos [of B ?v T0 h0 h2 K f] e(2) V(2,3) own by auto
  obtain d h4 where d: "iter_add B h3 d1 a = Some (d, h4)" "mut_state B ?own T0 h0 h4 r K ?N f"
    "evolves ?own h3 h4" "mpos B ?own h4 r K ?N d a"
    using iter_add_mpos [OF d1(2,4) _ V(3), of a] assms(4,5) N V(4) by auto
  have e4: "mpos B ?own h4 r K ?N e b" using e(4) d1(3) d(3) mpos_evolves by blast
  obtain h5 where "copy_dst B h4 it d e = Some h5"
    "mut_state B ?own T0 h0 h5 r K ?N (patch a b (values_of B h0 w) f)"
    using copy_dst_ok [OF S' _ _ d(2) it0 d(4) e4 assms(4)] N V(4) assms(5) by auto
  then show ?thesis
    using c0(1) it(1) d0(1) e(1) d1(1) d(1) asg_root [OF A] V(4,5) by (simp add: copy_values_dst_def)
qed

lemma copy_values_src_ok:
  assumes A: "asg B v0 T0 h0 K h v f" and S: "source B (vid v0) T0 h0 w" and N: "sz w = sz v0"
    and "a \<le> b" "b \<le> sz w"
  shows "\<exists>v' h'. copy_values_src B h v w a b = Some (v', h') \<and>
    asg B v0 T0 h0 K h' v' (patch a b (values_of B h0 w) f)"
proof -
  note V = asgD [OF A]
  let ?own = "vid v" and ?N = "sz v"
  have S': "source B ?own T0 h0 w" using S V(5) by simp
  obtain T where T: "store_ok B T h" "vec_ok B T h w" using source_later [OF S' V(1)] .
  note k = mut_stateD(1,2) [OF V(1)]
  have N': "0 < sz w" using N V(3,4) by simp
  obtain c0 where c0: "cbegin B h w = Some c0" "cur_at B h w c0 0"
    using cur_at_begin [OF k(1) T(2) N'] by blast
  obtain it e where it: "citer_add B h c0 a = Some it" "cur_at B h w it a"
    "citer_add B h c0 b = Some e" "cur_at B h w e b"
    using cur_at_add [OF k(1) T(2) c0(2) _ N'] assms(4,5) by (meson le_trans)
  have it0: "cur_at B h0 w it a" "cur_at B h0 w e b" using it source_cur_at [OF S' k(2)] by simp_all
  obtain d0 r h1 where d0: "it_begin B h v = Some (d0, v\<lparr>root := r\<rparr>, h1)"
    "mut_state B ?own T0 h0 h1 r K ?N f" "mpos B ?own h1 r K ?N d0 0"
    using it_begin_mpos [OF V(1,2,3)] by blast
  obtain d h2 where d: "iter_add B h1 d0 a = Some (d, h2)" "mut_state B ?own T0 h0 h2 r K ?N f"
    "mpos B ?own h2 r K ?N d a"
    using iter_add_mpos [OF d0(2,3) _ V(3), of a] assms(4,5) N V(4) by auto
  obtain h3 where "copy_src B h2 it e d = Some h3"
    "mut_state B ?own T0 h0 h3 r K ?N (patch a b (values_of B h0 w) f)"
    using copy_src_ok [OF S' _ _ d(2) it0 d(3) assms(4)] N V(4) assms(5) by auto
  then show ?thesis
    using c0(1) it(1,3) d0(1) d(1) asg_root [OF A] V(4,5) by (simp add: copy_values_src_def)
qed

section \<open>Finding the branches\<close>

lemma word8_step:
  "(word_of_nat (Suc n) :: 8 word) - 1 = word_of_nat n"
  "Suc n < 256 \<Longrightarrow> (word_of_nat (Suc n) :: 8 word) \<noteq> 0"
  by (simp, simp add: word_of_nat_eq_0_iff nat_dvd_not_less del: of_nat_Suc)

lemma branch_loop_node_at:
  assumes "0 < B"
  shows "n < k \<Longrightarrow> Suc n < 256 \<Longrightarrow>
    branch_loop B h a (k * B) (word_of_nat (Suc n)) i = map_option (\<lambda>b. (b, 0)) (node_at B h a k i n)"
proof (induction n arbitrary: a k)
  case 0
  then show ?case using assms by (subst branch_loop.simps) simp
next
  case (Suc n)
  then obtain m where m: "k = Suc m" by (cases k) auto
  have d: "(word_of_nat (Suc (Suc n)) :: 8 word) - 1 = word_of_nat (Suc n)"
    "(word_of_nat (Suc n) :: 8 word) \<noteq> 0"
    using word8_step(1) [of "Suc n"] word8_step(2) [of n] Suc.prems by auto
  show ?case
    unfolding m node_at_step using assms Suc.IH [of m] Suc.prems m d
    by (subst branch_loop.simps) (cases "load_branch h a (slot B i (Suc m * B))"; simp del: of_nat_Suc)
qed

lemma cow_branch_loop_descend:
  assumes "0 < B"
  shows "n < k \<Longrightarrow> Suc n < 256 \<Longrightarrow>
    cow_branch_loop B kd own h a (k * B) (word_of_nat (Suc n)) i =
      map_option (\<lambda>(b, s, h). (b, 0, h)) (descend B kd own h a (k * B) i n)"
proof (induction n arbitrary: a k h)
  case 0
  then show ?case using assms by (subst cow_branch_loop.simps) simp
next
  case (Suc n)
  then obtain m where m: "k = Suc m" by (cases k) auto
  have d: "(word_of_nat (Suc (Suc n)) :: 8 word) - 1 = word_of_nat (Suc n)"
    "(word_of_nat (Suc n) :: 8 word) \<noteq> 0"
    using word8_step(1) [of "Suc n"] word8_step(2) [of n] Suc.prems by auto
  show ?case
    unfolding m using assms Suc.IH [of m] Suc.prems m d
    by (subst cow_branch_loop.simps)
      (cases "cow_child kd own h a (slot B i (Suc m * B))"; auto simp del: of_nat_Suc)
qed

lemma inner_node_ok:
  assumes "store_ok B T h" "T a = Some (k, q)" "0 < k"
  shows "inner_node h a 0 = Some a"
proof -
  obtain m where "k = Suc m" using assms(3) by (cases k) auto
  with store_ok_branch [OF assms(1), of a m q] assms(2) show ?thesis
    by (auto simp: inner_node_def as_branches_def)
qed

text \<open>The node of level \<open>m\<close> on the path of \<open>i\<close>, in the vector assigned to and in the source.\<close>

lemma get_branch_ok:
  assumes A: "asg B v0 T0 h0 K h v f" and m: "0 < m" "m \<le> K" "K < 255"
    and p: "p < sz v0" "p div BP_WIDTH B ^ Suc m = i div BP_WIDTH B ^ Suc m"
  shows "\<exists>a r h' T. get_branch B tr_vector h v (Suc K - m) i = Some (a, v\<lparr>root := r\<rparr>, h') \<and>
    mut_state B (vid v0) T0 h0 h' r K (sz v0) f \<and> owned (vid v0) h' a \<and>
    store_ok B T h' \<and> extends T0 T \<and> T r = Some (K, 0) \<and> T a = Some (m, i div BP_WIDTH B ^ Suc m) \<and>
    node_at B h' r K i (K - m) = Some a"
proof -
  note V = asgD [OF A]
  let ?own = "vid v0"
  have M: "mut_state B ?own T0 h0 h (root v) K (sz v0) f" using V(1,4,5) by simp
  note MD = mut_stateD [OF M]
  obtain T where T: "store_ok B T h" "extends T0 T" "T (root v) = Some (K, 0)" using MD(6) by blast
  obtain r h1 T1 where c: "cow_root tr_vector ?own h (root v) = Some (r, h1)"
    "cow_result B tr_vector ?own h0 T h K T1 h1" "T1 r = Some (K, 0)"
    "\<not> protected tr_vector ?own h0 r" "\<forall>j i. val B h1 r j i = val B h (root v) j i"
    using cow_root_ok [OF T(1) MD(2) T(3)] by blast
  have pl: "p < BP_WIDTH B ^ Suc K" using p(1) MD(3) by simp
  have v: "val B h1 r K p \<noteq> None" using c(5) MD(4,5) p(1) by simp
  have "i div BP_WIDTH B ^ Suc K = p div BP_WIDTH B ^ Suc K"
    using div_power_mono [OF p(2), of "Suc K"] m(2) by simp
  then have q: "0 = i div BP_WIDTH B ^ Suc K" using pl by simp
  have km: "K - (K - m) = m" using m(2) by simp
  obtain a h2 T2 where d: "descend B tr_vector ?own h1 r (K * B) i (K - m) = Some (a, m * B, h2)"
    "cow_result B tr_vector ?own h0 T1 h1 K T2 h2" "T2 a = Some (m, i div BP_WIDTH B ^ Suc m)"
    "\<not> protected tr_vector ?own h0 a" "node_at B h2 r K i (K - m) = Some a"
    using descend_ok [OF cow_resultD(1,3) [OF c(2)] c(3) q c(4) v, of "K - m"] p(2) unfolding km by auto
  have e: "extends T1 T2" "store_ok B T2 h2" "keeps tr_vector ?own h0 h2" using cow_resultD [OF d(2)] by auto
  have T2: "extends T0 T2" "T2 r = Some (K, 0)"
    using extends_trans [OF T(2) extends_trans [OF cow_resultD(2) [OF c(2)] e(1)]]
      extendsD [OF e(1) c(3)] by auto
  have "val B h2 r K j = val B h (root v) K j" for j
    using cow_resultD(4) [OF d(2)] store_ok_unique [OF cow_resultD(1) [OF c(2)] c(3)] c(5)
    by (simp add: same_view_def)
  then have M2: "mut_state B ?own T0 h0 h2 r K (sz v0) f"
    using M e(2,3) T2 unfolding mut_state_def by auto
  have lt: "K - m < K" "Suc (K - m) < 256" using m by auto
  have "cow_branch_loop B tr_vector ?own h1 r (K * B) (word_of_nat (Suc (K - m))) i = Some (a, 0, h2)"
    by (simp only: cow_branch_loop_descend [OF MD(1) lt] d(1)) simp
  moreover have "Suc K - m = Suc (K - m)" using m(2) by simp
  ultimately have "get_branch B tr_vector h v (Suc K - m) i = Some (a, v\<lparr>root := r\<rparr>, h2)"
    using c(1) V(2,5) inner_node_ok [OF e(2) d(3) m(1)] by (simp add: get_branch_def del: of_nat_Suc)
  moreover have "owned ?own h2 a"
    using not_protected_owned [OF e(3) d(4) store_ok_unique [OF e(2) d(3)]] .
  ultimately show ?thesis using M2 e(2) T2 d(3,5) by blast
qed

lemma source_branch:
  assumes S: "source B own T0 h0 w" and w: "shift w = K * B" and k: "keeps tr_vector own h0 h"
    and m: "0 < m" "m \<le> K" "K < 255"
    and p: "p < sz w" "p div BP_WIDTH B ^ Suc m = i div BP_WIDTH B ^ Suc m"
  shows "\<exists>a. get_branch_const B h w (Suc K - m) i = Some a \<and> node_at B h0 (root w) K i (K - m) = Some a \<and>
    T0 a = Some (m, i div BP_WIDTH B ^ Suc m) \<and> protected tr_vector own h0 a"
proof -
  have B: "0 < B" "store_ok B T0 h0" "vec_ok B T0 h0 w" using S by (auto simp: source_def)
  then have W: "T0 (root w) = Some (K, 0)" "sz w \<le> BP_WIDTH B ^ Suc K" "val B h0 (root w) K p \<noteq> None"
    using w p(1) by (auto simp: vec_ok_def)
  obtain a where a: "node_at B h0 (root w) K p (K - m) = Some a" using val_prefix [OF W(3)] by fastforce
  have "Suc (K - (K - m)) = Suc m" using m(2) by simp
  then have e: "node_at B g b K i (K - m) = node_at B g b K p (K - m)" for g :: "'a store" and b
    using node_at_cong [of "K - m" K i B p g b] p(2) by simp
  have g: "guarded B tr_vector own h0 (root w) K p"
    using S w p(1) B(1) by (simp add: source_def unshared_def)
  from guarded_node_at [OF k g, of "K - m"] a
  have n: "node_at B h (root w) K i (K - m) = Some a" "protected tr_vector own h0 a" using e by auto
  have "0 = p div BP_WIDTH B ^ Suc K" using p(1) W(2) by simp
  from node_at_position [OF B(2) W(1) this a] have ta: "T0 a = Some (m, i div BP_WIDTH B ^ Suc m)"
    using m(2) p(2) by simp
  have lt: "K - m < K" "Suc (K - m) < 256" using m by auto
  have "inner_node h0 a 0 = Some a" using inner_node_ok [OF B(2) ta m(1)] .
  then have "inner_node h a 0 = Some a" using keeps_protected [OF k n(2)] by (simp add: inner_node_def)
  moreover have "branch_loop B h (root w) (K * B) (word_of_nat (Suc (K - m))) i = Some (a, 0)"
    by (simp only: branch_loop_node_at [OF B(1) lt] n(1)) simp
  moreover have "Suc K - m = Suc (K - m)" using m(2) by simp
  ultimately show ?thesis
    using w ta n(2) a e by (simp add: get_branch_const_def del: of_nat_Suc)
qed

section \<open>Copying branches\<close>

text \<open>Changing one node of level \<open>m\<close> is not seen below the other nodes of that level.\<close>

lemma val_lower:
  assumes ok: "store_ok B T h" and d: "T dst = Some (m, qd)" and e: "\<And>b. b \<noteq> dst \<Longrightarrow> cells h' b = cells h b"
  shows "T c = Some (k, q) \<Longrightarrow> k < m \<Longrightarrow> val B h' c k i = val B h c k i"
proof (induction k arbitrary: c q)
  case 0
  then have "c \<noteq> dst" using d by auto
  then show ?case by (simp add: val_0 load_cong(2) [OF e])
next
  case (Suc k)
  then have "c \<noteq> dst" using d by auto
  then have l: "load_branch h' c j = load_branch h c j" for j by (rule load_cong(1) [OF e])
  show ?case
  proof (cases "load_branch h c (slot B i (Suc k * B))")
    case (Some b)
    then have "T b = Some (k, q * BP_WIDTH B + slot B i (Suc k * B))"
      using load_branch_typed [OF ok Suc.prems(1)] by blast
    with Suc Some l show ?thesis by (simp add: val_Suc)
  qed (simp add: val_Suc l)
qed

lemma val_split: "n \<le> k \<Longrightarrow> val B h a k i = do { b \<leftarrow> node_at B h a k i n; val B h b (k - n) i }"
  unfolding val_def using node_at_add [of n "k - n" k B h a i] by (simp add: Option.bind_assoc)

text \<open>The paths down to level \<open>m\<close> do not pass the changed node.\<close>

lemma node_at_upper:
  assumes ok: "store_ok B T h" and r: "T r = Some (K, 0)" "i < BP_WIDTH B ^ Suc K"
    and d: "T dst = Some (m, qd)" and e: "\<And>b. b \<noteq> dst \<Longrightarrow> cells h' b = cells h b"
  shows "n + m \<le> K \<Longrightarrow> node_at B h' r K i n = node_at B h r K i n"
proof (induction n)
  case (Suc n)
  show ?case
  proof (cases "node_at B h r K i n")
    case (Some b)
    have "T b = Some (K - n, i div BP_WIDTH B ^ Suc (K - n))"
      using node_at_position [OF ok r(1) _ Some] r(2) Suc.prems by simp
    then have "b \<noteq> dst" using d Suc.prems by auto
    then have "load_branch h' b j = load_branch h b j" for j by (rule load_cong(1) [OF e])
    with Some Suc show ?thesis by simp
  qed (use Suc in simp)
qed simp

lemma copy_slots_ok:
  assumes ok: "store_ok B T h" and T: "T src = Some (Suc m, q)" "T dst = Some (Suc m, q)"
    and xy: "x \<le> y" "y \<le> BP_WIDTH B"
  shows "\<exists>h'. copy_slots h src dst x y = Some h' \<and> store_ok B T h' \<and>
    (\<forall>b. b \<noteq> dst \<longrightarrow> cells h' b = cells h b) \<and>
    (\<exists>n n'. cells h dst = Some n \<and> h' = h\<lparr>cells := (cells h)(dst \<mapsto> n')\<rparr> \<and> nid n' = nid n) \<and>
    (\<forall>j < BP_WIDTH B. load_branch h' dst j = (if x \<le> j \<and> j < y then load_branch h src j else load_branch h dst j))"
proof -
  obtain n bs where n: "cells h src = Some n" "u n = U_branches bs" "length bs = BP_WIDTH B"
    "\<forall>j c. j < BP_WIDTH B \<longrightarrow> bs ! j = Some c \<longrightarrow> T c = Some (m, q * BP_WIDTH B + j)"
    using store_ok_branch [OF ok T(1)] by blast
  obtain k cs where k: "cells h dst = Some k" "u k = U_branches cs" "length cs = BP_WIDTH B"
    "\<forall>j c. j < BP_WIDTH B \<longrightarrow> cs ! j = Some c \<longrightarrow> T c = Some (m, q * BP_WIDTH B + j)"
    using store_ok_branch [OF ok T(2)] by blast
  let ?ds = "take x cs @ take (y - x) (drop x bs) @ drop y cs"
  let ?k = "k\<lparr>u := U_branches ?ds\<rparr>"
  let ?h = "h\<lparr>cells := (cells h)(dst \<mapsto> ?k)\<rparr>"
  have len: "length ?ds = BP_WIDTH B" using xy n(3) k(3) by simp
  have nth: "?ds ! j = (if x \<le> j \<and> j < y then bs ! j else cs ! j)" if "j < BP_WIDTH B" for j
    using that xy n(3) k(3) by (auto simp: nth_append min_absorb2)
  have "node_ok B T ?k (Suc m) q" using len nth n(4) k(4) by (simp add: node_ok_def)
  then have "store_ok B T ?h" using store_ok_replace [OF ok T(2)] by simp
  moreover have "copy_slots h src dst x y = Some ?h"
    using n k xy by (simp add: copy_slots_def as_branches_def)
  moreover have "load_branch ?h dst j = (if x \<le> j \<and> j < y then load_branch h src j else load_branch h dst j)"
    if "j < BP_WIDTH B" for j
    using that len nth n k by (simp add: load_branch_def as_branches_def nth_opt_in)
  ultimately show ?thesis using k(1) by auto
qed

text \<open>Copying the branches \<open>[x, y)\<close> of the node of level \<open>m\<close> with position \<open>q\<close>.\<close>

definition in_branches :: "nat \<Rightarrow> nat \<Rightarrow> nat \<Rightarrow> nat \<Rightarrow> nat \<Rightarrow> nat \<Rightarrow> bool" where
  "in_branches B m q x y i \<longleftrightarrow> i div BP_WIDTH B ^ Suc m = q \<and>
    x \<le> slot B i (m * B) \<and> slot B i (m * B) < y"

lemma copy_slots_view:
  assumes ok: "store_ok B T h" and T: "T src = Some (m, q)" "T dst = Some (m, q)" "0 < m" "m \<le> K"
    and ne: "src \<noteq> dst" and r: "T r = Some (K, 0)" "i < BP_WIDTH B ^ Suc K"
    and dst: "\<And>j. j div BP_WIDTH B ^ Suc m = q \<Longrightarrow> node_at B h r K j (K - m) = Some dst"
    and c: "store_ok B T h'" "\<forall>b. b \<noteq> dst \<longrightarrow> cells h' b = cells h b"
      "\<forall>j < BP_WIDTH B. load_branch h' dst j = (if x \<le> j \<and> j < y then load_branch h src j else load_branch h dst j)"
  shows "val B h' r K i = (if in_branches B m q x y i then val B h src m i else val B h r K i)"
proof -
  have e: "\<And>b. b \<noteq> dst \<Longrightarrow> cells h' b = cells h b" using c(2) by simp
  obtain m' where m': "m = Suc m'" using T(3) by (cases m) auto
  have n: "node_at B h' r K i (K - m) = node_at B h r K i (K - m)"
    using node_at_upper [OF ok r T(2) e, of "K - m"] T(4) by simp
  have low: "load_branch h b j = Some d \<Longrightarrow> T b = Some (m, p) \<Longrightarrow> val B h' d m' i = val B h d m' i" for b j d p
    using val_lower [OF ok T(2) e, of d m'] load_branch_typed [OF ok, of b m' p j d] m' by auto
  let ?s = "slot B i (m * B)"
  show ?thesis
  proof (cases "node_at B h r K i (K - m)")
    case None
    then have "i div BP_WIDTH B ^ Suc m \<noteq> q" using dst by fastforce
    then show ?thesis
      using None n T(4) by (simp add: val_split [of "K - m" K] in_branches_def)
  next
    case (Some b)
    have tb: "T b = Some (m, i div BP_WIDTH B ^ Suc m)"
      using node_at_position [OF ok r(1) _ Some] r(2) T(4) by simp
    have v: "val B h' r K i = val B h' b m i" "val B h r K i = val B h b m i"
      using Some n T(4) by (simp_all add: val_split [of "K - m" K])
    show ?thesis
    proof (cases "i div BP_WIDTH B ^ Suc m = q")
      case True
      then have b: "b = dst" using dst Some by fastforce
      have "val B h' dst m i = do { d \<leftarrow> load_branch h' dst ?s; val B h' d m' i }"
        unfolding m' by (simp add: val_Suc)
      also have "\<dots> = (if x \<le> ?s \<and> ?s < y then do { d \<leftarrow> load_branch h src ?s; val B h d m' i }
          else do { d \<leftarrow> load_branch h dst ?s; val B h d m' i })"
      proof (cases "x \<le> ?s \<and> ?s < y")
        case True
        then have "load_branch h' dst ?s = load_branch h src ?s" using c(3) by simp
        with True show ?thesis using low [OF _ T(1)] by (cases "load_branch h src ?s") auto
      next
        case False
        then have "load_branch h' dst ?s = load_branch h dst ?s" using c(3) by auto
        with False show ?thesis using low [OF _ T(2)] by (cases "load_branch h dst ?s") auto
      qed
      finally show ?thesis using v True unfolding b in_branches_def by (simp add: m' val_Suc)
    next
      case False
      then have "b \<noteq> dst" using tb T(2) by auto
      then have l: "load_branch h' b j = load_branch h b j" for j by (rule load_cong(1) [OF e])
      have "val B h' b m i = val B h b m i"
        unfolding m' using l low [OF _ tb] m' by (cases "load_branch h b ?s") (auto simp: val_Suc)
      with v False show ?thesis by (simp add: in_branches_def)
    qed
  qed
qed

lemma copy_branches_ok:
  assumes A: "asg B v0 T0 h0 K h v f" and S: "source B (vid v0) T0 h0 w" "shift w = K * B" "sz w = sz v0"
    and m: "0 < m" "m \<le> K" "K < 255"
    and p: "p < sz v0" "p div BP_WIDTH B ^ Suc m = q" "i div BP_WIDTH B ^ Suc m = q" "j div BP_WIDTH B ^ Suc m = q"
    and xy: "x \<le> y" "y \<le> BP_WIDTH B"
  shows "\<exists>v' h'. copy_branches B tr_vector h v w (Suc K - m) i j x y = Some (v', h') \<and>
    asg B v0 T0 h0 K h' v' (\<lambda>k. if in_branches B m q x y k then val B h0 (root w) K k else f k)"
proof -
  note V = asgD [OF A]
  let ?own = "vid v0"
  have k: "keeps tr_vector ?own h0 h" using mut_stateD(2) [OF V(1)] V(5) by simp
  have B: "0 < B" "store_ok B T0 h0" "vec_ok B T0 h0 w" using S(1) by (auto simp: source_def)
  then have W: "T0 (root w) = Some (K, 0)" "sz w \<le> BP_WIDTH B ^ Suc K"
    "\<And>i. i < sz w \<Longrightarrow> val B h0 (root w) K i \<noteq> None" using S(2) by (auto simp: vec_ok_def)
  obtain src where src: "get_branch_const B h w (Suc K - m) i = Some src"
    "node_at B h0 (root w) K i (K - m) = Some src" "T0 src = Some (m, q)" "protected tr_vector ?own h0 src"
    using source_branch [OF S(1,2) k m, of p i] p S(3) by auto
  obtain src' where src': "get_branch_const B h w (Suc K - m) j = Some src'"
    "node_at B h0 (root w) K j (K - m) = Some src'"
    using source_branch [OF S(1,2) k m, of p j] p S(3) by auto
  have sc: "Suc (K - (K - m)) = Suc m" using m(2) by simp
  have same: "node_at B g a K k (K - m) = node_at B g a K i (K - m)" if "k div BP_WIDTH B ^ Suc m = q"
    for g :: "'a store" and a k
    using node_at_cong [of "K - m" K k B i g a] that p(3) unfolding sc by simp
  have ss: "src' = src" using src(2) src'(2) same [OF p(4)] by simp
  obtain dst r h1 T where d: "get_branch B tr_vector h v (Suc K - m) i = Some (dst, v\<lparr>root := r\<rparr>, h1)"
    "mut_state B ?own T0 h0 h1 r K (sz v0) f" "owned ?own h1 dst" "store_ok B T h1" "extends T0 T"
    "T r = Some (K, 0)" "T dst = Some (m, q)" "node_at B h1 r K i (K - m) = Some dst"
    using get_branch_ok [OF A m p(1), of i] p(2,3) by auto
  note k1 = mut_stateD(2) [OF d(2)]
  have ts: "T src = Some (m, q)" using extendsD [OF d(5) src(3)] .
  have ne: "src \<noteq> dst" using owned_not_protected [OF k1 d(3)] src(4) by auto
  obtain m' where m': "m = Suc m'" using m(1) by (cases m) auto
  obtain h2 where h2: "copy_slots h1 src dst x y = Some h2" "store_ok B T h2"
    "\<forall>b. b \<noteq> dst \<longrightarrow> cells h2 b = cells h1 b"
    "\<exists>n n'. cells h1 dst = Some n \<and> h2 = h1\<lparr>cells := (cells h1)(dst \<mapsto> n')\<rparr> \<and> nid n' = nid n"
    "\<forall>j < BP_WIDTH B. load_branch h2 dst j = (if x \<le> j \<and> j < y then load_branch h1 src j else load_branch h1 dst j)"
    using copy_slots_ok [OF d(4) ts [unfolded m'] d(7) [unfolded m'] xy] by blast
  have k2: "keeps tr_vector ?own h0 h2"
    using h2(4) keeps_write [OF k1 owned_not_protected [OF k1 d(3)]] by blast
  have dst: "node_at B h1 r K k (K - m) = Some dst" if "k div BP_WIDTH B ^ Suc m = q" for k
    using same [OF that] d(8) by simp
  have w1: "val B h1 src m k = val B h0 (root w) K k" if "in_branches B m q x y k" "k < sz v0" for k
  proof -
    have g: "guarded B tr_vector ?own h0 (root w) K k"
      using S that(2) B(1) by (simp add: source_def unshared_def)
    have "node_at B h0 (root w) K k (K - m) = Some src"
      using same src(2) that(1) by (simp add: in_branches_def)
    then have "node_at B h1 (root w) K k (K - m) = Some src"
      using guarded_node_at [OF k1 g, of "K - m"] by simp
    then have "val B h1 (root w) K k = val B h1 src m k"
      using val_split [of "K - m" K B h1 "root w" k] m(2) by simp
    then show ?thesis using guarded_val [OF k1 g] by simp
  qed
  have v: "val B h2 r K k = (if in_branches B m q x y k then val B h0 (root w) K k else f k)"
    if "k < sz v0" for k
    using copy_slots_view [OF d(4) ts d(7) m(1,2) ne d(6) _ dst h2(2,3,5)] w1 [OF _ that]
      mut_stateD(3) [OF d(2)] mut_stateD(5) [OF d(2) that] that by simp
  have "mut_state B ?own T0 h0 h2 r K (sz v0) (\<lambda>k. if in_branches B m q x y k then val B h0 (root w) K k else f k)"
    using d(2,5,6) k2 h2(2) v W(3) S(3) unfolding mut_state_def by auto
  from asg_root [OF A this] show ?thesis
    using src(1) src'(1) ss d(1) h2(1) by (simp add: copy_branches_def)
qed

section \<open>Multiples of the powers of the width\<close>

definition up :: "nat \<Rightarrow> nat \<Rightarrow> nat \<Rightarrow> nat" where
  "up B t a = (a + (BP_WIDTH B ^ t - 1)) div BP_WIDTH B ^ t * BP_WIDTH B ^ t"

definition dn :: "nat \<Rightarrow> nat \<Rightarrow> nat \<Rightarrow> nat" where
  "dn B t b = b div BP_WIDTH B ^ t * BP_WIDTH B ^ t"

lemma and_not_mask_int: "(x::int) AND NOT (2 ^ e - 1) = x div 2 ^ e * 2 ^ e"
proof -
  have "x AND NOT (mask e) = push_bit e (drop_bit e x)"
    by (rule bit_eqI) (auto simp: bit_simps)
  then show ?thesis
    by (simp add: mask_eq_exp_minus_1 push_bit_eq_mult drop_bit_eq_div)
qed

lemma next_mult_up: "next_mult a (BP_WIDTH B ^ t) = up B t a"
proof -
  define w where "w = BP_WIDTH B ^ t"
  have w: "0 < w" "int w = 2 ^ (B * t)" by (simp_all add: w_def BP_WIDTH_eq power_mult)
  have e: "int a + int w - 1 = int (a + (w - 1))" using w(1) by simp
  have "next_multiple (int a) (int w) = (int a + int w - 1) div int w * int w"
    unfolding next_multiple_def w(2) by (rule and_not_mask_int)
  then have "nat (next_multiple (int a) (int w)) = nat (int ((a + (w - 1)) div w * w))"
    unfolding e by (simp only: zdiv_int of_nat_mult)
  then show ?thesis unfolding next_mult_def up_def w_def by (simp only: nat_int)
qed

lemma up_props:
  "BP_WIDTH B ^ t dvd up B t a" "a \<le> up B t a" "up B t a < a + BP_WIDTH B ^ t"
  unfolding up_def by (rule round_up_bounds; simp)+

lemma dn_props:
  "BP_WIDTH B ^ t dvd dn B t b" "dn B t b \<le> b" "b < dn B t b + BP_WIDTH B ^ t"
  unfolding dn_def by (rule round_down_bounds; simp)+

lemma up_least: "BP_WIDTH B ^ t dvd c \<Longrightarrow> a \<le> c \<Longrightarrow> up B t a \<le> c"
  by (rule multiple_le [OF up_props(1)]) (auto intro: less_le_trans [OF up_props(3)])

lemma dn_greatest: "BP_WIDTH B ^ t dvd c \<Longrightarrow> c \<le> b \<Longrightarrow> c \<le> dn B t b"
  by (rule multiple_le [OF _ dn_props(1)]) (auto intro: le_less_trans [OF _ dn_props(3)])

lemma power_dvd: "t \<le> t' \<Longrightarrow> BP_WIDTH B ^ t dvd BP_WIDTH B ^ t'"
  by (rule le_imp_power_dvd)

lemma up_dvd: "t \<le> t' \<Longrightarrow> BP_WIDTH B ^ t dvd up B t' a"
  by (rule dvd_trans [OF power_dvd up_props(1)])

lemma dn_dvd: "t \<le> t' \<Longrightarrow> BP_WIDTH B ^ t dvd dn B t' a"
  by (rule dvd_trans [OF power_dvd dn_props(1)])

lemma up_mono: "t \<le> t' \<Longrightarrow> up B t a \<le> up B t' a"
  by (rule up_least [OF up_dvd up_props(2)])

lemma dn_mono: "t \<le> t' \<Longrightarrow> dn B t' b \<le> dn B t b"
  by (rule dn_greatest [OF dn_dvd dn_props(2)])

lemma up_up:
  assumes "t \<le> t'"
  shows "up B t' (up B t a) = up B t' a"
proof (rule le_antisym)
  show "up B t' (up B t a) \<le> up B t' a" by (rule up_least [OF up_props(1) up_mono [OF assms]])
  show "up B t' a \<le> up B t' (up B t a)"
    by (rule up_least [OF up_props(1) order_trans [OF up_props(2) up_props(2)]])
qed

text \<open>\<open>br = next_multiple(b, interval); if (b != br) br -= interval\<close>\<close>

lemma next_mult_dn:
  "(if next_mult b (BP_WIDTH B ^ t) \<noteq> b then next_mult b (BP_WIDTH B ^ t) - BP_WIDTH B ^ t
    else next_mult b (BP_WIDTH B ^ t)) = dn B t b"
proof (cases "BP_WIDTH B ^ t dvd b")
  case True
  then have "up B t b \<le> b" "b \<le> dn B t b" using up_least dn_greatest by simp_all
  then have "up B t b = b" "dn B t b = b" using up_props(2) dn_props(2) le_antisym by blast+
  then show ?thesis by (simp add: next_mult_up)
next
  case False
  then have "dn B t b \<noteq> b" "up B t b \<noteq> b" using dn_props(1) up_props(1) by metis+
  then have s: "dn B t b < b" "b < up B t b" using dn_props(2) [of B t b] up_props(2) [of b B t] by auto
  have "up B t b = dn B t b + BP_WIDTH B ^ t"
    by (rule multiple_eq [OF up_props(1)])
      (use dn_props(1) [of B t b] dn_props(3) [of b B t] up_props(3) [of B t b] s in auto)
  with s(2) show ?thesis by (simp add: next_mult_up)
qed

section \<open>Copying an interval of branches\<close>

lemma asg_cong: "asg B v0 T0 h0 K h v f \<Longrightarrow> (\<And>i. i < sz v0 \<Longrightarrow> f i = f' i) \<Longrightarrow> asg B v0 T0 h0 K h v f'"
  by (simp add: asg_def mut_state_def)

lemma source_val:
  assumes "source B own T0 h0 w" "shift w = K * B" "i < sz w"
  shows "val B h0 (root w) K i = values_of B h0 w i"
  using vec_ok_get [of B T0 h0 w i] assms vget_val [of B w K h0 i] by (simp add: source_def values_of_def)

lemma in_branches_interval:
  assumes "y \<le> BP_WIDTH B"
  shows "in_branches B m q x y i \<longleftrightarrow>
    (q * BP_WIDTH B + x) * BP_WIDTH B ^ m \<le> i \<and> i < (q * BP_WIDTH B + y) * BP_WIDTH B ^ m"
proof -
  let ?w = "BP_WIDTH B" and ?t = "i div BP_WIDTH B ^ m"
  have w: "0 < ?w ^ m" by simp
  have t: "i div ?w ^ Suc m = ?t div ?w" by (rule div_power_Suc)
  have "?t div ?w = q \<and> x \<le> ?t mod ?w \<and> ?t mod ?w < y \<longleftrightarrow> q * ?w + x \<le> ?t \<and> ?t < q * ?w + y"
  proof
    assume a: "?t div ?w = q \<and> x \<le> ?t mod ?w \<and> ?t mod ?w < y"
    have "q * ?w + ?t mod ?w = ?t" using a div_mult_mod_eq [of ?t ?w] by simp
    with a show "q * ?w + x \<le> ?t \<and> ?t < q * ?w + y" by linarith
  next
    assume a: "q * ?w + x \<le> ?t \<and> ?t < q * ?w + y"
    then have "?w * q \<le> ?t" "?t < ?w * Suc q" using assms by (simp_all add: mult.commute)
    then have "?t div ?w = q" by (rule div_nat_eqI)
    then show "?t div ?w = q \<and> x \<le> ?t mod ?w \<and> ?t mod ?w < y"
      using a div_mult_mod_eq [of ?t ?w] by auto
  qed
  moreover have "q * ?w + x \<le> ?t \<longleftrightarrow> (q * ?w + x) * ?w ^ m \<le> i"
    by (rule less_eq_div_iff_mult_less_eq [OF w])
  moreover have "?t < q * ?w + y \<longleftrightarrow> i < (q * ?w + y) * ?w ^ m"
    by (rule div_less_iff_less_mult [OF w])
  ultimately show ?thesis unfolding in_branches_def slot_level t by blast
qed

text \<open>The interval from \<open>lo\<close> to \<open>hi\<close>, both multiples of the width of a branch, in one node.\<close>

lemma copy_interval:
  assumes A: "asg B v0 T0 h0 K h v f" and S: "source B (vid v0) T0 h0 w" "shift w = K * B" "sz w = sz v0"
    and m: "0 < m" "m \<le> K" "K < 255"
    and lo: "lo = (q * BP_WIDTH B + x) * BP_WIDTH B ^ m" and hi: "hi = (q * BP_WIDTH B + y) * BP_WIDTH B ^ m"
    and xy: "x < y" "y \<le> BP_WIDTH B" "hi \<le> sz v0"
    and j: "j div BP_WIDTH B ^ Suc m = q"
  shows "\<exists>v' h'. copy_branches B tr_vector h v w (Suc K - m) lo j x y = Some (v', h') \<and>
    asg B v0 T0 h0 K h' v' (patch lo hi (values_of B h0 w) f)"
proof -
  have w: "0 < BP_WIDTH B ^ m" by simp
  have "lo div BP_WIDTH B ^ m = q * BP_WIDTH B + x" using w unfolding lo by simp
  moreover have "x < BP_WIDTH B" using xy by simp
  ultimately have q: "lo div BP_WIDTH B ^ Suc m = q" by (simp only: div_power_Suc) simp
  have "lo < hi" unfolding lo hi using xy(1) w by simp
  then have l: "lo < sz v0" using xy(3) by simp
  have "x \<le> y" using xy by simp
  from copy_branches_ok [OF A S m l q q j this xy(2)]
  obtain v' h' where r: "copy_branches B tr_vector h v w (Suc K - m) lo j x y = Some (v', h')"
    "asg B v0 T0 h0 K h' v' (\<lambda>k. if in_branches B m q x y k then val B h0 (root w) K k else f k)" by blast
  have "asg B v0 T0 h0 K h' v' (patch lo hi (values_of B h0 w) f)"
    by (rule asg_cong [OF r(2)])
      (use in_branches_interval [OF xy(2), of m q x] lo hi source_val [OF S(1,2)] S(3) in
        \<open>auto simp: patch_def\<close>)
  with r(1) show ?thesis by blast
qed

section \<open>Going up\<close>

text \<open>A multiple of the branch width: its block and its offset in it.\<close>

lemma block_offset:
  assumes "BP_WIDTH B ^ m dvd c"
  shows "c = (c div BP_WIDTH B ^ Suc m * BP_WIDTH B + slot B c (m * B)) * BP_WIDTH B ^ m"
proof -
  have "c = c div BP_WIDTH B ^ m * BP_WIDTH B ^ m" using assms by simp
  also have "c div BP_WIDTH B ^ m = c div BP_WIDTH B ^ Suc m * BP_WIDTH B + slot B c (m * B)"
    unfolding slot_level by (rule digit_recombine [symmetric])
  finally show ?thesis .
qed

lemma slot_zero:
  assumes "BP_WIDTH B ^ m dvd c"
  shows "slot B c (m * B) = 0 \<longleftrightarrow> BP_WIDTH B ^ Suc m dvd c"
proof -
  have "slot B c (m * B) = 0 \<longleftrightarrow> BP_WIDTH B dvd c div BP_WIDTH B ^ m"
    unfolding slot_level by (simp only: dvd_eq_mod_eq_0)
  also have "\<dots> \<longleftrightarrow> BP_WIDTH B ^ Suc m dvd c"
    using assms by (auto simp: dvd_div_iff_mult mult.commute)
  finally show ?thesis .
qed

lemma next_block:
  assumes "up B k l = U" "l \<noteq> U"
  shows "U = Suc (l div BP_WIDTH B ^ k) * BP_WIDTH B ^ k" "(U - 1) div BP_WIDTH B ^ k = l div BP_WIDTH B ^ k"
proof -
  define V where "V = BP_WIDTH B ^ k"
  let ?q = "l div V"
  have V: "0 < V" by (simp add: V_def)
  have U: "V dvd U" "l < U" "U < l + V"
    using up_props [of B k l] up_props(2) [of l B k] assms by (auto simp: V_def)
  have q: "?q * V \<le> l" "l < Suc ?q * V"
    using round_down_bounds [OF V, of l] by simp_all
  have "U < Suc ?q * V + V" "Suc ?q * V < U + V" using U q unfolding mult_Suc by linarith+
  then have e: "U = Suc ?q * V" by (intro multiple_eq [OF U(1)]) simp_all
  moreover have "(U - 1) div V = ?q" by (rule div_nat_eqI) (use e V in \<open>auto simp: mult.commute\<close>)
  ultimately show "U = Suc (l div BP_WIDTH B ^ k) * BP_WIDTH B ^ k"
    "(U - 1) div BP_WIDTH B ^ k = l div BP_WIDTH B ^ k" by (simp_all only: V_def)
qed

lemma calc_depth_asg:
  assumes "asg B v0 T0 h0 K h v f"
  shows "calc_depth B v = Suc K"
  using asgD(2) [OF assms] mut_stateD(1) [OF asgD(1) [OF assms]] by (simp add: calc_depth_def)

lemma assign_up_ok:
  assumes S: "source B (vid v0) T0 h0 w" "shift w = K * B" "sz w = sz v0"
    and L: "L \<le> K" "K < 255" "up B L a \<le> sz v0"
  shows "asg B v0 T0 h0 K h v (patch a (up B t a) (values_of B h0 w) f) \<Longrightarrow> 0 < t \<Longrightarrow> t \<le> L \<Longrightarrow>
    \<exists>v' h'. assign_up B tr_vector h v w (BP_WIDTH B ^ t) (BP_WIDTH B ^ L) (up B t a) ((t - 1) * B) = Some (v', h') \<and>
      asg B v0 T0 h0 K h' v' (patch a (up B L a) (values_of B h0 w) f)"
proof (induction "L - t" arbitrary: h v t)
  case 0
  then show ?case by (subst assign_up.simps) simp
next
  case (Suc k)
  note A = Suc.prems(1)
  have t: "t < L" "0 < t" "k = L - Suc t" using Suc.hyps(2) Suc.prems by auto
  note B = mut_stateD(1) [OF asgD(1) [OF A]]
  let ?w = "BP_WIDTH B" and ?g = "values_of B h0 w"
  have w1: "1 < ?w" by (rule BP_WIDTH_gt1 [OF B])
  have ne: "?w ^ t \<noteq> ?w ^ L" using t(1) w1 by simp
  have i: "push_bit B (?w ^ t) = ?w ^ Suc t" by (simp add: push_bit_eq_mult BP_WIDTH_eq mult.commute)
  have ar: "next_mult (up B t a) (?w ^ Suc t) = up B (Suc t) a" by (simp add: next_mult_up up_up del: power_Suc)
  have s: "(t - 1) * B + B = t * B" using t(2) by (cases t) simp_all
  have d: "t * B div B = t" using B by simp
  have step: "assign_up B tr_vector h v w (?w ^ t) (?w ^ L) (up B t a) ((t - 1) * B) =
      (if up B t a = up B (Suc t) a then assign_up B tr_vector h v w (?w ^ Suc t) (?w ^ L) (up B (Suc t) a) (t * B)
       else if slot B (up B t a) (t * B) = 0 \<or> slot B (up B (Suc t) a) (t * B) \<noteq> 0 then None
       else do { (v', h') \<leftarrow> copy_branches B tr_vector h v w (Suc K - t) (up B t a) (up B (Suc t) a - 1)
                    (slot B (up B t a) (t * B)) ?w;
                 assign_up B tr_vector h' v' w (?w ^ Suc t) (?w ^ L) (up B (Suc t) a) (t * B) })"
    by (subst assign_up.simps) (simp only: ne i ar s d if_False Let_def calc_depth_asg [OF A])
  show ?case
  proof (cases "up B t a = up B (Suc t) a")
    case True
    then show ?thesis using Suc.hyps(1) [of "Suc t" h v] t A step by simp
  next
    case False
    let ?q = "up B t a div ?w ^ Suc t" and ?x = "slot B (up B t a) (t * B)"
    have lo: "up B t a = (?q * ?w + ?x) * ?w ^ t" by (rule block_offset [OF up_props(1)])
    have "\<not> ?w ^ Suc t dvd up B t a"
      using False up_least [of B "Suc t" "up B t a" a] up_props(2) [of a B t] up_mono [of t "Suc t" B a] by auto
    then have x: "?x \<noteq> 0" using slot_zero [OF up_props(1)] by blast
    have z: "slot B (up B (Suc t) a) (t * B) = 0" using slot_zero [OF up_dvd] up_props(1) by (metis le_SucI le_refl)
    note U = next_block [OF up_up [of t "Suc t" B a, OF le_SucI [OF le_refl]] False]
    have hi: "up B (Suc t) a = (?q * ?w + ?w) * ?w ^ t" using U(1) by (simp add: algebra_simps)
    have j: "(up B (Suc t) a - 1) div ?w ^ Suc t = ?q" using U(2) .
    have le: "up B (Suc t) a \<le> sz v0" using up_mono [of "Suc t" L B a] t(1) L(3) by simp
    have xw: "?x < ?w" by simp
    obtain v' h' where c: "copy_branches B tr_vector h v w (Suc K - t) (up B t a) (up B (Suc t) a - 1) ?x ?w = Some (v', h')"
      "asg B v0 T0 h0 K h' v' (patch (up B t a) (up B (Suc t) a) ?g (patch a (up B t a) ?g f))"
      using copy_interval [OF A S t(2) _ L(2) lo hi xw le_refl le j] t(1) L(1) by auto
    have "patch (up B t a) (up B (Suc t) a) ?g (patch a (up B t a) ?g f) = patch a (up B (Suc t) a) ?g f"
      by (rule patch_patch [OF up_props(2) up_mono]) simp
    then show ?thesis
      using Suc.hyps(1) [of "Suc t" h' v'] t c step False x z by simp
  qed
qed

section \<open>Going down\<close>

lemma down_block:
  assumes "dn B (Suc m) b \<noteq> dn B m b"
  shows "slot B (dn B (Suc m) b) (m * B) = 0" "slot B (dn B m b) (m * B) \<noteq> 0"
    "dn B (Suc m) b = (b div BP_WIDTH B ^ Suc m * BP_WIDTH B + 0) * BP_WIDTH B ^ m"
    "dn B m b = (b div BP_WIDTH B ^ Suc m * BP_WIDTH B + slot B (dn B m b) (m * B)) * BP_WIDTH B ^ m"
    "(dn B m b - 1) div BP_WIDTH B ^ Suc m = b div BP_WIDTH B ^ Suc m"
proof -
  let ?w = "BP_WIDTH B" and ?q = "b div BP_WIDTH B ^ Suc m"
  show "slot B (dn B (Suc m) b) (m * B) = 0"
    using slot_zero [OF dn_dvd] dn_props(1) by (metis le_SucI le_refl)
  have lt: "dn B (Suc m) b < dn B m b" using assms dn_mono [of m "Suc m" B b] by simp
  have "\<not> ?w ^ Suc m dvd dn B m b" using lt dn_greatest [of B "Suc m" "dn B m b" b] dn_props(2) [of B m b] by auto
  then show z: "slot B (dn B m b) (m * B) \<noteq> 0" using slot_zero [OF dn_props(1)] by blast
  show "dn B (Suc m) b = (?q * ?w + 0) * ?w ^ m" by (simp add: dn_def algebra_simps)
  have q: "?w ^ Suc m * ?q = dn B (Suc m) b" "?w ^ Suc m * Suc ?q = dn B (Suc m) b + ?w ^ Suc m"
    by (simp_all add: dn_def algebra_simps)
  have "?w ^ Suc m * ?q \<le> dn B m b" "dn B m b < ?w ^ Suc m * Suc ?q"
    using lt dn_props(2) [of B m b] dn_props(3) [of b B "Suc m"] unfolding q by linarith+
  then have d: "dn B m b div ?w ^ Suc m = ?q" by (rule div_nat_eqI)
  show "dn B m b = (?q * ?w + slot B (dn B m b) (m * B)) * ?w ^ m"
    using block_offset [OF dn_props(1), of B m b] d by simp
  have "?w ^ Suc m * ?q \<le> dn B m b - 1" "dn B m b - 1 < ?w ^ Suc m * Suc ?q"
    using lt dn_props(2) [of B m b] dn_props(3) [of b B "Suc m"] unfolding q by linarith+
  then show "(dn B m b - 1) div ?w ^ Suc m = ?q" by (rule div_nat_eqI)
qed

lemma assign_down_ok:
  assumes S: "source B (vid v0) T0 h0 w" "shift w = K * B" "sz w = sz v0"
    and K: "K < 255" "b \<le> sz v0"
  shows "asg B v0 T0 h0 K h v (patch a (dn B t b) (values_of B h0 w) f) \<Longrightarrow> 0 < t \<Longrightarrow> t \<le> K \<Longrightarrow> a \<le> dn B t b \<Longrightarrow>
    \<exists>v' h'. assign_down B tr_vector h v w (BP_WIDTH B ^ t) b (dn B t b) (t * B) = Some (v', h', dn B 1 b) \<and>
      asg B v0 T0 h0 K h' v' (patch a (dn B 1 b) (values_of B h0 w) f)"
proof (induction t arbitrary: h v)
  case (Suc t)
  note A = Suc.prems(1)
  note B = mut_stateD(1) [OF asgD(1) [OF A]]
  let ?w = "BP_WIDTH B" and ?g = "values_of B h0 w"
  have w1: "1 < ?w" by (rule BP_WIDTH_gt1 [OF B])
  show ?case
  proof (cases "t = 0")
    case True
    then show ?thesis using A by (subst assign_down.simps) simp
  next
    case False
    have ne: "?w ^ Suc t \<noteq> ?w" using w1 False by simp
    have i: "drop_bit B (?w ^ Suc t) = ?w ^ t" by (simp add: drop_bit_eq_div BP_WIDTH_eq)
    have s: "Suc t * B - B = t * B" "t * B div B = t" using B by simp_all
    have br: "(if b \<noteq> next_mult b (?w ^ t) then next_mult b (?w ^ t) - ?w ^ t else next_mult b (?w ^ t)) = dn B t b"
      using next_mult_dn [of b B t] by (simp add: eq_commute)
    have step: "assign_down B tr_vector h v w (?w ^ Suc t) b (dn B (Suc t) b) (Suc t * B) =
        (if dn B (Suc t) b = dn B t b then assign_down B tr_vector h v w (?w ^ t) b (dn B t b) (t * B)
         else if slot B (dn B (Suc t) b) (t * B) \<noteq> 0 then None
         else do { (v', h') \<leftarrow> copy_branches B tr_vector h v w (Suc K - t) (dn B (Suc t) b) (dn B t b - 1)
                      (slot B (dn B (Suc t) b) (t * B))
                      (if slot B (dn B t b) (t * B) = 0 \<and> dn B (Suc t) b \<noteq> dn B t b then ?w else slot B (dn B t b) (t * B));
                   assign_down B tr_vector h' v' w (?w ^ t) b (dn B t b) (t * B) })"
      by (subst assign_down.simps) (simp only: ne i s br if_False Let_def calc_depth_asg [OF A])
    have le: "a \<le> dn B t b" using Suc.prems(4) dn_mono [of t "Suc t" B b] by simp
    show ?thesis
    proof (cases "dn B (Suc t) b = dn B t b")
      case True
      then show ?thesis using Suc.IH [of h v] Suc.prems(3) A step False le by simp
    next
      case ne: False
      note D = down_block [OF ne]
      let ?y = "slot B (dn B t b) (t * B)"
      have sz: "dn B t b \<le> sz v0" using dn_props(2) [of B t b] K(2) by simp
      obtain v' h' where c: "copy_branches B tr_vector h v w (Suc K - t) (dn B (Suc t) b) (dn B t b - 1) 0 ?y = Some (v', h')"
        "asg B v0 T0 h0 K h' v' (patch (dn B (Suc t) b) (dn B t b) ?g (patch a (dn B (Suc t) b) ?g f))"
        using copy_interval [OF A S _ _ K(1) D(3,4) _ less_imp_le [OF slot_less] sz D(5)] D(2) False Suc.prems(3)
        by auto
      have "patch (dn B (Suc t) b) (dn B t b) ?g (patch a (dn B (Suc t) b) ?g f) = patch a (dn B t b) ?g f"
        by (rule patch_patch [OF Suc.prems(4) dn_mono]) simp
      then show ?thesis
        using Suc.IH [of h' v'] c step ne D(1,2) False Suc.prems(3) le by simp
    qed
  qed
qed simp

section \<open>Where the paths part\<close>

lemma contained_loop_ok:
  assumes B: "0 < B" "store_ok B T h" "T r = Some (K, 0)"
    and ab: "a < BP_WIDTH B ^ Suc K" "b < BP_WIDTH B ^ Suc K" "a div BP_WIDTH B \<noteq> b div BP_WIDTH B"
    and pres: "\<forall>n \<le> K. node_at B h r K a n \<noteq> None"
  shows "m \<le> K \<Longrightarrow> m < K \<longrightarrow> a div BP_WIDTH B ^ Suc (Suc m) = b div BP_WIDTH B ^ Suc (Suc m) \<Longrightarrow>
    0 < K \<Longrightarrow> na = node_at B h r K a (K - m) \<Longrightarrow> nb = node_at B h r K b (K - m) \<Longrightarrow>
    \<exists>c. contained_loop B h a b (m * B) na nb = Some (c * B) \<and> Suc c \<le> K \<and>
      a div BP_WIDTH B ^ Suc c \<noteq> b div BP_WIDTH B ^ Suc c \<and>
      a div BP_WIDTH B ^ Suc (Suc c) = b div BP_WIDTH B ^ Suc (Suc c)"
proof (induction m arbitrary: na nb)
  case 0
  then show ?case using ab(3) by (intro exI [of _ 0]) (simp add: contained_loop.simps)
next
  case (Suc m)
  let ?w = "BP_WIDTH B" and ?d = "K - Suc m"
  have "node_at B h r K a ?d \<noteq> None" using pres by simp
  then obtain l where l: "na = Some l" using Suc.prems(4) by auto
  have e: "Suc (K - ?d) = Suc (Suc m)" "K - m = Suc ?d" "K - ?d = Suc m" using Suc.prems(1) by auto
  have la: "T l = Some (Suc m, a div ?w ^ Suc (Suc m))"
    using node_at_position [OF B(2,3), of a ?d l] ab(1) Suc.prems(1,4) l unfolding e by simp
  show ?case
  proof (cases "na = nb")
    case False
    have ne: "a div ?w ^ Suc (Suc m) \<noteq> b div ?w ^ Suc (Suc m)"
    proof
      assume "a div ?w ^ Suc (Suc m) = b div ?w ^ Suc (Suc m)"
      then have "node_at B h r K a ?d = node_at B h r K b ?d" by (intro node_at_cong) (simp_all only: e diff_le_self)
      with False Suc.prems(4,5) show False by simp
    qed
    then have "Suc m < K" using Suc.prems(1) ab(1,2) by (cases "Suc m = K") auto
    then show ?thesis using False ne Suc.prems(2) B(1)
      by (intro exI [of _ "Suc m"]) (subst contained_loop.simps, simp)
  next
    case True
    then have lb: "T l = Some (Suc m, b div ?w ^ Suc (Suc m))"
      using node_at_position [OF B(2,3), of b ?d l] ab(2) Suc.prems(1,5) l unfolding e by simp
    have same: "a div ?w ^ Suc (Suc m) = b div ?w ^ Suc (Suc m)" using la lb by simp
    obtain n bs where n: "cells h l = Some n" "u n = U_branches bs" "length bs = ?w"
      using store_ok_branch [OF B(2) la] by blast
    then have p: "branch_ptr h (Some l) s = Some (bs ! s)" "load_branch h l s = bs ! s" if "s < ?w" for s
      using that by (auto simp: branch_ptr_def load_branch_def as_branches_def nth_opt_in)
    have na: "node_at B h r K a ?d = Some l" "node_at B h r K b ?d = Some l"
      using Suc.prems(4,5) l True by simp_all
    have nx: "node_at B h r K a (K - m) = bs ! slot B a (Suc m * B)"
      "node_at B h r K b (K - m) = bs ! slot B b (Suc m * B)"
      unfolding e(2) node_at.simps e(3) na by (simp_all only: Option.bind.bind_lunit p(2) [OF slot_less])
    have "contained_loop B h a b (Suc m * B) na nb =
        contained_loop B h a b (m * B) (bs ! slot B a (Suc m * B)) (bs ! slot B b (Suc m * B))"
      using B(1) True l p(1) by (subst contained_loop.simps) simp
    then show ?thesis
      using Suc.IH [OF _ _ Suc.prems(3) nx [symmetric]] Suc.prems(1) same by simp
  qed
qed

lemma contained_ok:
  assumes A: "asg B v0 T0 h0 K h v f" and ab: "a < b" "b \<le> sz v0" "b < BP_WIDTH B ^ Suc K" "BP_WIDTH B \<le> b - a"
  shows "\<exists>L. contained_at_shift B h v a b = Some ((L - 1) * B) \<and> 0 < L \<and> L \<le> K \<and>
    a div BP_WIDTH B ^ L \<noteq> b div BP_WIDTH B ^ L \<and> a div BP_WIDTH B ^ Suc L = b div BP_WIDTH B ^ Suc L"
proof -
  note V = asgD [OF A]
  note M = mut_stateD [OF V(1)]
  let ?w = "BP_WIDTH B"
  obtain T where T: "store_ok B T h" "T (root v) = Some (K, 0)" using M(6) by blast
  have al: "a < ?w ^ Suc K" using ab(1,3) by simp
  have "a + ?w \<le> b" using ab(1,4) by linarith
  then have "(a + ?w) div ?w \<le> b div ?w" by (rule div_le_mono)
  moreover have "(a + ?w) div ?w = Suc (a div ?w)" using div_add_self2 [of ?w a] BP_WIDTH_pos [of B] by linarith
  ultimately have ne: "a div ?w \<noteq> b div ?w" by linarith
  have "K \<noteq> 0"
  proof
    assume "K = 0"
    then have "b < ?w" using ab(3) by simp
    with ab(4) show False by linarith
  qed
  then have K: "0 < K" by simp
  have "val B h (root v) K a \<noteq> None" using M(4,5) [of a] V(4) ab(1,2) by simp
  then have pres: "\<forall>n \<le> K. node_at B h (root v) K a n \<noteq> None" using val_prefix by fastforce
  obtain c where c: "contained_loop B h a b (K * B) (Some (root v)) (Some (root v)) = Some (c * B)" "Suc c \<le> K"
    "a div ?w ^ Suc c \<noteq> b div ?w ^ Suc c" "a div ?w ^ Suc (Suc c) = b div ?w ^ Suc (Suc c)"
    using contained_loop_ok [OF M(1) T al ab(3) ne pres, of K] K by auto
  then show ?thesis
    using ab(1) V(2) by (intro exI [of _ "Suc c"]) (simp add: contained_at_shift_def del: power_Suc)
qed

lemma part_order:
  assumes "a \<le> b" "a div BP_WIDTH B ^ L \<noteq> b div BP_WIDTH B ^ L"
  shows "up B L a \<le> dn B L b"
proof -
  let ?w = "BP_WIDTH B ^ L"
  have "a div ?w \<le> b div ?w" by (rule div_le_mono [OF assms(1)])
  with assms(2) have "Suc (a div ?w) \<le> b div ?w" by simp
  then have "Suc (a div ?w) * ?w \<le> dn B L b" unfolding dn_def by (rule mult_le_mono1)
  moreover have "up B L a \<le> Suc (a div ?w) * ?w"
    using round_down_bounds(3) [of ?w a] by (intro up_least) simp_all
  ultimately show ?thesis by simp
qed

lemma assign_mid_ok:
  assumes A: "asg B v0 T0 h0 K h v (patch a (up B L a) (values_of B h0 w) f)"
    and S: "source B (vid v0) T0 h0 w" "shift w = K * B" "sz w = sz v0"
    and L: "0 < L" "L \<le> K" "K < 255" and ab: "a < b" "b \<le> sz v0"
    and part: "a div BP_WIDTH B ^ L \<noteq> b div BP_WIDTH B ^ L" "a div BP_WIDTH B ^ Suc L = b div BP_WIDTH B ^ Suc L"
  shows "\<exists>v' h'. assign_mid B tr_vector h v w (L * B) (Suc K - L) (up B L a) (dn B L b) = Some (v', h') \<and>
    asg B v0 T0 h0 K h' v' (patch a (dn B L b) (values_of B h0 w) f)"
proof (cases "up B L a = dn B L b")
  case True
  with A show ?thesis by (simp add: assign_mid_def)
next
  case False
  let ?w = "BP_WIDTH B" and ?g = "values_of B h0 w" and ?q = "b div BP_WIDTH B ^ Suc L"
  have le: "up B L a \<le> dn B L b" using part_order [OF _ part(1)] ab(1) by simp
  with False have lt: "up B L a < dn B L b" by simp
  have db: "dn B L b \<le> b" by (rule dn_props(2))
  have q: "c div ?w ^ Suc L = ?q" if "a \<le> c" "c \<le> b" for c
    using div_le_mono [OF that(1), of "?w ^ Suc L"] div_le_mono [OF that(2), of "?w ^ Suc L"] part(2) by simp
  have ua: "a \<le> up B L a" by (rule up_props(2))
  have qs: "up B L a div ?w ^ Suc L = ?q" "dn B L b div ?w ^ Suc L = ?q"
    by (rule q [OF ua order_trans [OF le db]], rule q [OF order_trans [OF ua le] db])
  let ?x = "slot B (up B L a) (L * B)" and ?y = "slot B (dn B L b) (L * B)"
  have lo: "up B L a = (?q * ?w + ?x) * ?w ^ L" 
    using block_offset [OF up_props(1), of B L a] unfolding qs(1) .
  have hi: "dn B L b = (?q * ?w + ?y) * ?w ^ L"
    using block_offset [OF dn_props(1), of B L b] unfolding qs(2) .
  have "(?q * ?w + ?x) * ?w ^ L < (?q * ?w + ?y) * ?w ^ L"
    using lt by (simp only: lo [symmetric] hi [symmetric])
  then have xy: "?x < ?y" by simp
  have sz: "dn B L b \<le> sz v0" using db ab(2) by simp
  have ed: "edge_off B v (up B L a) (L * B) = ?x" "edge_off B v (dn B L b) (L * B) = ?y"
    using xy lt sz asgD(4) [OF A] by (auto simp: edge_off_def)
  obtain v' h' where c: "copy_branches B tr_vector h v w (Suc K - L) (up B L a) (dn B L b) ?x ?y = Some (v', h')"
    "asg B v0 T0 h0 K h' v' (patch (up B L a) (dn B L b) ?g (patch a (up B L a) ?g f))"
    using copy_interval [OF A S L lo hi xy less_imp_le [OF slot_less] sz qs(2)] by blast
  have "patch (up B L a) (dn B L b) ?g (patch a (up B L a) ?g f) = patch a (dn B L b) ?g f"
    by (rule patch_patch [OF up_props(2) le])
  with c ed False show ?thesis by (simp add: assign_mid_def)
qed

section \<open>The whole assignment\<close>

lemma assign_ok:
  assumes A: "asg B v0 T0 h0 K h v f" and S: "source B (vid v0) T0 h0 w" "shift w = K * B" "sz w = sz v0"
    and K: "K < 255" and ab: "a < b" "b \<le> sz v0" "b < BP_WIDTH B ^ Suc K"
  shows "\<exists>v' h'. assign B tr_vector h v w a b = Some (v', h') \<and>
    asg B v0 T0 h0 K h' v' (patch a b (values_of B h0 w) f)"
proof (cases "b - a < BP_WIDTH B")
  case True
  let ?s = "min (next_mult a (BP_WIDTH B)) b" and ?g = "values_of B h0 w"
  have "a \<le> next_mult a (BP_WIDTH B)" using next_mult_up [of a B 1] up_props(2) [of a B 1] by simp
  then have s: "a \<le> ?s" "?s \<le> b" using ab(1) by auto
  obtain v1 h1 where c1: "copy_values_src B h v w a ?s = Some (v1, h1)"
    "asg B v0 T0 h0 K h1 v1 (patch a ?s ?g f)"
    using copy_values_src_ok [OF A S(1,3) s(1)] s(2) ab(2) S(3) by auto
  obtain v2 h2 where c2: "copy_values_src B h1 v1 w ?s b = Some (v2, h2)"
    "asg B v0 T0 h0 K h2 v2 (patch ?s b ?g (patch a ?s ?g f))"
    using copy_values_src_ok [OF c1(2) S(1,3) s(2)] ab(2) S(3) by auto
  have "asg B v0 T0 h0 K h2 v2 (patch a b ?g f)" using c2(2) by (simp only: patch_patch [OF s])
  then show ?thesis using True c1(1) c2(1) ab(1) by (simp add: assign_def)
next
  case False
  let ?w = "BP_WIDTH B" and ?g = "values_of B h0 w"
  note B = mut_stateD(1) [OF asgD(1) [OF A]]
  have u1: "next_mult a ?w = up B 1 a" using next_mult_up [of a B 1] by simp
  have ul: "a \<le> up B 1 a" "up B 1 a < a + ?w" using up_props [of B 1 a] up_props(2) [of a B 1] by auto
  then have "up B 1 a \<le> b" using False ab(1) by linarith
  then have "up B 1 a \<le> sz w" using ab(2) S(3) by simp
  then obtain v1 h1 where p1: "(if 0 < up B 1 a - a then copy_values_dst B h v w a (up B 1 a) else Some (v, h)) = Some (v1, h1)"
    "asg B v0 T0 h0 K h1 v1 (patch a (up B 1 a) ?g f)"
    using copy_values_dst_ok [OF A S(1,3) ul(1)] A by (cases "0 < up B 1 a - a") auto
  obtain L where L: "contained_at_shift B h1 v1 a b = Some ((L - 1) * B)" "0 < L" "L \<le> K"
    "a div ?w ^ L \<noteq> b div ?w ^ L" "a div ?w ^ Suc L = b div ?w ^ Suc L"
    using contained_ok [OF p1(2) ab(1,2,3)] False by auto
  have ls: "(L - 1) * B + B = L * B" "L * B div B = L" using L(2) B by (cases L; simp)+
  have le: "up B L a \<le> dn B L b" "dn B L b \<le> b" using part_order [OF _ L(4)] ab(1) dn_props(2) by auto
  obtain v2 h2 where p2: "assign_up B tr_vector h1 v1 w ?w (?w ^ L) (up B 1 a) 0 = Some (v2, h2)"
    "asg B v0 T0 h0 K h2 v2 (patch a (up B L a) ?g f)"
    using assign_up_ok [OF S L(3) K _ p1(2)] le ab(2) L(2) by auto
  obtain v3 h3 where p3: "assign_mid B tr_vector h2 v2 w (L * B) (Suc K - L) (up B L a) (dn B L b) = Some (v3, h3)"
    "asg B v0 T0 h0 K h3 v3 (patch a (dn B L b) ?g f)"
    using assign_mid_ok [OF p2(2) S L(2,3) K ab(1,2) L(4,5)] by blast
  have al: "a \<le> dn B L b" using le(1) up_props(2) [of a B L] by simp
  obtain v4 h4 where p4: "assign_down B tr_vector h3 v3 w (?w ^ L) b (dn B L b) (L * B) = Some (v4, h4, dn B 1 b)"
    "asg B v0 T0 h0 K h4 v4 (patch a (dn B 1 b) ?g f)"
    using assign_down_ok [OF S K ab(2) p3(2) L(2,3) al] by blast
  have d1: "dn B 1 b \<le> b" "a \<le> dn B 1 b" using dn_props(2) al dn_mono [of 1 L B b] L(2) by auto
  have "b \<le> sz w" using ab(2) S(3) by simp
  then obtain v5 h5 where p5: "(if 0 < b - dn B 1 b then copy_values_dst B h4 v4 w (dn B 1 b) b else Some (v4, h4)) = Some (v5, h5)"
    "asg B v0 T0 h0 K h5 v5 (patch (dn B 1 b) b ?g (patch a (dn B 1 b) ?g f))"
    using copy_values_dst_ok [OF p4(2) S(1,3) d1(1)] p4(2) by (cases "0 < b - dn B 1 b") auto
  have br: "(let br = up B L b in if br \<noteq> b then br - ?w ^ L else br) = dn B L b"
    unfolding Let_def using next_mult_dn [of b B L] by (simp only: next_mult_up)
  have "assign B tr_vector h v w a b = Some (v5, h5)"
    unfolding assign_def
    by (simp only: ab(1) False not_True_eq_False if_False if_True Option.bind.bind_lunit prod.case u1 p1(1)
        L(1) ls p2(1) next_mult_up br calc_depth_asg [OF p2(2)] p3(1) p4(1) p5(1))
  moreover have "asg B v0 T0 h0 K h5 v5 (patch a b ?g f)" using p5(2) by (simp only: patch_patch [OF d1(2,1)])
  ultimately show ?thesis by blast
qed

text \<open>In terms of typed stores, and of the invariant of transients.\<close>

lemma assign_typed:
  assumes T: "0 < B" "store_ok B T h" "vec_ok B T h v" "vec_ok B T h w"
    and un: "unshared B tr_vector (vid v) h w" and w: "sz w = sz v" "shift w = shift v"
    and ab: "a < b" "b \<le> sz v" "b < capacity B v" "calc_depth B v \<le> 255"
  shows "\<exists>v' h' T'. assign B tr_vector h v w a b = Some (v', h') \<and> store_ok B T' h' \<and> extends T T' \<and>
    keeps tr_vector (vid v) h h' \<and> vec_ok B T' h' v' \<and> vid v' = vid v \<and> sz v' = sz v \<and> shift v' = shift v \<and>
    vlist B h' v' = take a (vlist B h v) @ take (b - a) (drop a (vlist B h w)) @ drop b (vlist B h v)"
proof -
  obtain K where K: "shift v = K * B" "T (root v) = Some (K, 0)" "sz v \<le> BP_WIDTH B ^ Suc K"
    "\<forall>i < sz v. val B h (root v) K i \<noteq> None" using T(3) by (auto simp: vec_ok_def)
  let ?f = "\<lambda>i. val B h (root v) K i"
  have A: "asg B v T h K h v ?f"
    using K T(1,2) ab(1,2) by (auto simp: asg_def mut_state_def extends_def)
  have S: "source B (vid v) T h w" using T un by (simp add: source_def)
  have d: "K < 255" "b < BP_WIDTH B ^ Suc K"
    using ab(3,4) K(1) T(1) capacity_eq [OF T(1) K(1)] by (simp_all add: calc_depth_def)
  obtain v' h' where r: "assign B tr_vector h v w a b = Some (v', h')"
    "asg B v T h K h' v' (patch a b (values_of B h w) ?f)"
    using assign_ok [OF A S _ _ d(1) ab(1,2) d(2)] w K(1) by auto
  note V = asgD [OF r(2)]
  note M = mut_stateD [OF V(1)]
  obtain T' where T': "store_ok B T' h'" "extends T T'" "T' (root v') = Some (K, 0)" using M(6) by blast
  let ?xs = "take a (vlist B h v) @ take (b - a) (drop a (vlist B h w)) @ drop b (vlist B h v)"
  have len: "length ?xs = sz v" using w(1) ab(1,2) by simp
  have v: "vec_ok B T' h' v'" using V(2,4) K(3) M(3,4,5) T'(3) by (auto simp: vec_ok_def)
  have l: "vlist B h' v' = ?xs"
  proof (rule nth_equalityI)
    show "length (vlist B h' v') = length ?xs" using V(4) len by simp
    fix i assume "i < length (vlist B h' v')"
    then have i: "i < sz v" using V(4) by simp
    have "vlist B h' v' ! i = the (patch a b (values_of B h w) ?f i)"
      using M(5) [of i] i V(4) vlist_val [OF T(1) V(2), of h'] by simp
    moreover have "vlist B h v ! i = the (?f i)" using i vlist_val [OF T(1) K(1), of h] by simp
    ultimately show "vlist B h' v' ! i = ?xs ! i"
      using i ab(1,2) w(1) by (auto simp: nth_append patch_def values_of_def min_absorb2)
  qed
  show ?thesis using r(1) T'(1,2) M(2) V(2,4,5) K(1) v l by auto
qed

lemma assign_step_ok:
  assumes I: "tr_inv B h v ws" and w: "w \<in> set ws" "sz w = sz v" "shift w = shift v"
    and ab: "a < b" "b \<le> sz v" "b < capacity B v" "calc_depth B v \<le> 255"
  shows "\<exists>v' h'. assign B tr_vector h v w a b = Some (v', h') \<and>
    tr_step_ok B h v ws v' h' (take a (vlist B h v) @ take (b - a) (drop a (vlist B h w)) @ drop b (vlist B h v))"
proof -
  have "vecs_ok B h (v # ws)" using I by (simp add: tr_inv_def)
  then obtain T where T: "0 < B" "store_ok B T h" "\<forall>w \<in> set (v # ws). vec_ok B T h w"
    by (rule vecs_okE)
  have ok: "vec_ok B T h v" "vec_ok B T h w" "unshared B tr_vector (vid v) h w"
    using T(3) w(1) I by (auto simp: tr_inv_def)
  let ?xs = "take a (vlist B h v) @ take (b - a) (drop a (vlist B h w)) @ drop b (vlist B h v)"
  obtain v' h' T' where r: "assign B tr_vector h v w a b = Some (v', h')" "store_ok B T' h'" "extends T T'"
    "keeps tr_vector (vid v) h h'" "vec_ok B T' h' v'" "vid v' = vid v" "vlist B h' v' = ?xs"
    using assign_typed [OF T(1,2) ok w(2,3) ab] by blast
  have "length ?xs = sz v" using w(2) ab(1,2) by simp
  then have ne: "?xs \<noteq> []" using ab(1,2) by (metis gr_implies_not0 le_zero_eq list.size(3))
  show ?thesis using r(1) tr_step_okI [OF I T(2,3) r(2-5,7,6) ne] by blast
qed

section \<open>Properties\<close>

text \<open>C10. \<open>assign\<close> copies exactly the range: for two vectors of the same size and depth and
  \<open>a < b\<close>, \<open>b\<close> at most the size and below the capacity, it accesses nothing undefined, fails no
  assertion, terminates, and leaves the vector with the other's values in [a, b) and its own outside,
  although whole branches of the other vector become shared; the other vector, and every vector
  without nodes of the writer's id, keeps its contents.\<close>

theorem assign_range:
  assumes "tr_inv B h v ws" and "w \<in> set ws" and "sz w = sz v" and "shift w = shift v"
    and "a < b" and "b \<le> sz v" and "b < capacity B v" and "calc_depth B v \<le> 255"
  shows "\<exists>v' h'. assign B tr_vector h v w a b = Some (v', h') \<and>
    tr_step_ok B h v ws v' h' (take a (vlist B h v) @ take (b - a) (drop a (vlist B h w)) @ drop b (vlist B h v))"
  by (rule assign_step_ok [OF assms])

lemma two_vectors:
  obtains v w h where "tr_inv 1 (h :: int store) v [w]" "vlist 1 h v = [7]" "vlist 1 h w = [7]"
    "shift v = 0" "shift w = 0" "sz v = 1" "sz w = 1"
proof -
  obtain t h0 c where n: "tr_new 1 (empty_store :: int store) 1 = (t, h0, c)" by (metis prod_cases3)
  then have nv: "new_vec 1 1 (empty_store :: int store) = (t, h0)"
    by (auto simp: tr_new_def get_unique_id_def split: prod.splits)
  note t = new_vec_ok [OF vecs_ok_empty [OF bits_ok_small(1)] nv]
  have I: "tr_inv 1 h0 t []" using t(1,4,5,6,7) by (auto simp: tr_inv_def owns_root_def)
  obtain w h where p: "tr_mut_push_back 1 h0 t 7 = Some (w, h)" "tr_step_ok 1 h0 t [] w h [7]"
    using tr_mut_push_back_ok [OF I, of 7] t(2) by auto
  have w: "shift w = 0" "sz w = 1"
    using p(1) t(4,5) by (auto simp: tr_mut_push_back_def BP_WIDTH_eq bind_rules)
  have k: "keeps tr_vector 1 h0 h" "vecs_ok 1 h [w]" "vlist 1 h w = [7]"
    using p(2) t(6) by (auto simp: tr_step_ok_def tr_inv_def)
  have "h0 = snd (alloc empty_store (new_node 1 leaves 1))"
    using nv by (auto simp: new_vec_def alloc_def)
  then have "ids_below 2 h0" by (auto simp: ids_below_def alloc_def empty_store_def split: if_splits)
  then have "ids_below 2 h" using ids_below_keeps [OF _ k(1)] by simp
  then have f: "\<forall>a n. cells h a = Some n \<longrightarrow> nid n \<noteq> 2"
    unfolding ids_below_def by (metis order.irrefl)
  have m: "make_transient 2 w = (w\<lparr>vid := 2\<rparr>, 3)" by (simp add: make_transient_def get_unique_id_def)
  show ?thesis
    using that [of h "w\<lparr>vid := 2\<rparr>" w] make_transient_inv [OF k(2) _ _ f m] w k(3) by simp
qed

theorem assign_range_witness:
  "\<exists>v w h v' h'. vlist 1 h v = [5] \<and> vlist 1 h w = [7 :: int] \<and>
     assign 1 tr_vector h v w 0 1 = Some (v', h') \<and> vlist 1 h' v' = [7] \<and> vlist 1 h' w = [7]"
proof -
  obtain v w h where v: "tr_inv 1 (h :: int store) v [w]" "vlist 1 h v = [7]" "vlist 1 h w = [7]"
    "shift v = 0" "shift w = 0" "sz v = 1" "sz w = 1" by (rule two_vectors)
  obtain v1 h1 where m: "tr_mut_set 1 h v 0 5 = Some (v1, h1)" "tr_step_ok 1 h v [w] v1 h1 [5]"
    using tr_mut_set_ok [OF v(1), of 0 5] v(2,6) by auto
  have v1: "shift v1 = 0" "sz v1 = 1" using m(1) v(4,6) by (auto simp: tr_mut_set_def bind_rules)
  have s: "tr_inv 1 h1 v1 [w]" "vlist 1 h1 v1 = [5]" "vlist 1 h1 w = [7]"
    using m(2) v(3) by (auto simp: tr_step_ok_def)
  have "capacity 1 v1 = 2" "calc_depth 1 v1 = 1" using v1(1) by (simp_all add: capacity_def calc_depth_def BP_WIDTH_eq)
  then obtain v' h' where "assign 1 tr_vector h1 v1 w 0 1 = Some (v', h')" "tr_step_ok 1 h1 v1 [w] v' h' [7]"
    using assign_range [OF s(1), of w 0 1] v(5,7) v1 s(2,3) by auto
  then show ?thesis using s(2,3)
    by (intro exI [of _ v1] exI [of _ w] exI [of _ h1] exI [of _ v'] exI [of _ h']) (simp add: tr_step_ok_def)
qed

text \<open>C27. The bound on \<open>b\<close> is needed: a one-leaf vector that is exactly full (1024 values with the
  default width) cannot be assigned as a whole; the code takes its root leaf for an inner node,
  which is undefined behaviour.\<close>

theorem assign_full_leaf_undefined:
  assumes "0 < B" and "shift v = 0" and "shift w = 0" and "sz v = BP_WIDTH B"
    and "cells h (root w) = Some n" and "u n = U_leaves xs"
  shows "assign B kd h v w 0 (BP_WIDTH B) = None"
proof -
  have "next_mult 0 (BP_WIDTH B) = 0" "next_mult (BP_WIDTH B) (BP_WIDTH B) = BP_WIDTH B"
    using next_mult_up [of 0 B 1] next_mult_up [of "BP_WIDTH B" B 1] up_least [of B 1 0 0]
      up_least [of B 1 "BP_WIDTH B" "BP_WIDTH B"] up_props(2) [of "BP_WIDTH B" B 1] by simp_all
  moreover have "get_branch_const B h w 0 0 = None"
    using assms(3,5,6) by (simp add: get_branch_const_def branch_loop.simps inner_node_def as_branches_def)
  ultimately show ?thesis
    using assms(1,2)
    by (simp add: assign_def contained_at_shift_def contained_loop.simps assign_up.simps assign_mid_def
        copy_branches_def calc_depth_def Let_def)
qed

theorem assign_full_leaf_undefined_witness:
  "assign 2 tr_vector \<lparr>cells = [0 \<mapsto> \<lparr>u = U_leaves [1, 2, 3, 4 :: int], nid = 1\<rparr>,
       1 \<mapsto> \<lparr>u = U_leaves [5, 6, 7, 8], nid = 2\<rparr>], fresh = 2\<rparr>
     \<lparr>sz = 4, shift = 0, root = 0, vid = 1\<rparr> \<lparr>sz = 4, shift = 0, root = 1, vid = 2\<rparr> 0 4 = None"
  using assign_full_leaf_undefined [of 2 "\<lparr>sz = 4, shift = 0, root = 0, vid = 1\<rparr>"
      "\<lparr>sz = 4, shift = 0, root = 1, vid = 2\<rparr>"
      "\<lparr>cells = [0 \<mapsto> \<lparr>u = U_leaves [1, 2, 3, 4 :: int], nid = 1\<rparr>,
       1 \<mapsto> \<lparr>u = U_leaves [5, 6, 7, 8], nid = 2\<rparr>], fresh = 2\<rparr>"
      "\<lparr>u = U_leaves [5, 6, 7, 8], nid = 2\<rparr>" "[5, 6, 7, 8]" tr_vector]
  by (simp add: BP_WIDTH_eq)

end
