(* ===== verification/Vec_Typed.thy ===== *)
theory Vec_Typed imports
  Vec_Classes Bp_Push
begin

text \<open>
  The union in a node is read as what its level says: a store has a typing that gives every node its
  level and position, a node of level 0 holds values and any other one branches to nodes one level
  down. Writes through any kind of vector keep such a typing, and in a typed store no access to a
  union takes the wrong member.
\<close>

inductive trie_step :: "nat \<Rightarrow> vec_kind \<Rightarrow> ('a::zero) store \<times> vec \<Rightarrow> 'a store \<times> vec \<Rightarrow> bool" for B kd where
  Vec_set: "i < sz v \<Longrightarrow> vset B kd h v i x = Some (v', h') \<Longrightarrow> trie_step B kd (h, v) (h', v')"
| Vec_push: "push_back B kd h v x = Some (v', h') \<Longrightarrow> trie_step B kd (h, v) (h', v')"

inductive_cases trie_stepE: "trie_step B kd (h, v) s"

definition typed :: "nat \<Rightarrow> typing \<Rightarrow> 'a store \<times> vec \<Rightarrow> bool" where
  "typed B T s \<longleftrightarrow> store_ok B T (fst s) \<and> vec_ok B T (fst s) (snd s)"

lemma trie_step_preserves:
  assumes "0 < B" "typed B T s" "trie_step B kd s s'"
  shows "\<exists>T'. typed B T' s' \<and> extends T T'"
proof -
  obtain h v where s: "s = (h, v)" by fastforce
  have ok: "store_ok B T h" "vec_ok B T h v" using assms(2) s by (auto simp: typed_def)
  consider (set) i x v' h' where "s' = (h', v')" "i < sz v" "vset B kd h v i x = Some (v', h')"
    | (push) x v' h' where "s' = (h', v')" "push_back B kd h v x = Some (v', h')"
    using assms(3) unfolding s by (auto elim!: trie_stepE)
  then show ?thesis
  proof cases
    case set
    then show ?thesis using vset_list [OF assms(1) ok set(2), of kd x] by (auto simp: typed_def)
  next
    case push
    then show ?thesis using push_back_list [OF assms(1) ok, of kd x] by (auto simp: typed_def)
  qed
qed

lemma trie_steps_preserve:
  assumes "(trie_step B kd)\<^sup>*\<^sup>* s s'" "0 < B" "typed B T s"
  shows "\<exists>T'. typed B T' s' \<and> extends T T'"
  using assms(1)
proof induction
  case base
  then show ?case using assms(3) by auto
next
  case (step s1 s2)
  then obtain T1 where T1: "typed B T1 s1" "extends T T1" by blast
  from trie_step_preserves [OF assms(2) T1(1) step(2)] T1(2) show ?case using extends_trans by blast
qed

text \<open>C18. Type safety of the tries: from a typed store and vector, any sequence of \<open>set\<close>s and
  \<open>push_back\<close>s leads to a store with an extended typing in which the vector is typed again, and there
  every read in range, every \<open>set\<close> in range and every \<open>push_back\<close> is defined: none takes the
  branches of a leaf, the values of an inner node, a null pointer or an index out of range.\<close>

theorem vec_type_safe:
  assumes "0 < B" and "store_ok B T h" and "vec_ok B T h v" and "(trie_step B kd)\<^sup>*\<^sup>* (h, v) (h', v')"
  shows "(\<exists>T'. store_ok B T' h' \<and> vec_ok B T' h' v' \<and> extends T T') \<and>
    (\<forall>i < sz v'. vget B h' v' i \<noteq> None \<and> (\<forall>x. vset B kd h' v' i x \<noteq> None)) \<and>
    (\<forall>x. push_back B kd h' v' x \<noteq> None)"
proof -
  have "typed B T (h, v)" using assms(2,3) by (simp add: typed_def)
  from trie_steps_preserve [OF assms(4,1) this]
  obtain T' where T': "store_ok B T' h'" "vec_ok B T' h' v'" "extends T T'" by (auto simp: typed_def)
  have "vget B h' v' i \<noteq> None \<and> vset B kd h' v' i x \<noteq> None" if "i < sz v'" for i x
    using vec_ok_get [OF assms(1) T'(2) that] vset_list [OF assms(1) T'(1,2) that, of kd x] by auto
  moreover have "push_back B kd h' v' x \<noteq> None" for x
    using push_back_list [OF assms(1) T'(1,2), of kd x] by auto
  ultimately show ?thesis using T' by blast
qed

theorem vec_type_safe_witness:
  "\<exists>h v h' v'. trie_step 1 ps_vector (h :: int store, v) (h', v') \<and> vlist 1 h' v' = [7] \<and>
     push_back 1 ps_vector h' v' 8 \<noteq> None"
proof -
  obtain v h where n: "new_vec 1 0 (empty_store :: int store) = (v, h)" by fastforce
  note v = new_vec_ok [OF vecs_ok_empty [OF bits_ok_small(1)] n]
  have "vecs_ok 1 h [v]" using v(1) by simp
  then obtain T where T: "store_ok 1 T h" "vec_ok 1 T h v" by (auto elim: vecs_okE)
  obtain v' h' where p: "push_back 1 ps_vector h v 7 = Some (v', h')" "vlist 1 h' v' = vlist 1 h v @ [7]"
    using push_back_list [OF _ T, of ps_vector 7] by auto
  have s: "trie_step 1 ps_vector (h, v) (h', v')" by (rule Vec_push [OF p(1)])
  have "push_back 1 ps_vector h' v' 8 \<noteq> None"
    using vec_type_safe [OF _ T r_into_rtranclp [of "trie_step 1 ps_vector", OF s]] by simp
  moreover have "vlist 1 h' v' = [7]" using p(2) v(2) by simp
  ultimately show ?thesis using s by blast
qed

end
