(* ===== verification/Vec_Share.thy ===== *)
theory Vec_Share imports
  Bp_Mut_Iter
begin

text \<open>
  Several vectors written at the same time: each writer has an id of its own and no other vector has
  a node of that id on a live path. The invariant is kept by every write of one of them, so the
  writes of the threads do not disturb each other, in whatever order they come.
\<close>

section \<open>The invariant\<close>

definition share_ok :: "nat \<Rightarrow> typing \<Rightarrow> 'a store \<Rightarrow> vec set \<Rightarrow> vec set \<Rightarrow> bool" where
  "share_ok B T h W R \<longleftrightarrow> 0 < B \<and> store_ok B T h \<and> (\<forall>v \<in> W \<union> R. vec_ok B T h v) \<and>
    inj_on vid W \<and> (\<forall>w \<in> W. \<forall>y \<in> R. vid y \<noteq> vid w) \<and>
    (\<forall>w \<in> W. \<forall>y \<in> W \<union> R. vid y \<noteq> vid w \<longrightarrow> unshared B tr_vector (vid w) h y)"

lemma share_okD:
  assumes "share_ok B T h W R"
  shows "0 < B" "store_ok B T h" "v \<in> W \<union> R \<Longrightarrow> vec_ok B T h v"
    "w \<in> W \<Longrightarrow> y \<in> W \<union> R \<Longrightarrow> y \<noteq> w \<Longrightarrow> vid y \<noteq> vid w \<and> unshared B tr_vector (vid w) h y"
  using assms unfolding share_ok_def inj_on_def by blast+

lemma share_neq: "share_ok B T h W R \<Longrightarrow> w \<in> W \<Longrightarrow> y \<in> R \<Longrightarrow> y \<noteq> w"
  unfolding share_ok_def by metis

text \<open>A vector that holds the paths of \<open>v0\<close>, or nodes of its own.\<close>

definition path_from ::
    "nat \<Rightarrow> id32 \<Rightarrow> 'a store \<Rightarrow> vec \<Rightarrow> 'a store \<Rightarrow> vec \<Rightarrow> bool" where
  "path_from B own h v h' v' \<longleftrightarrow> (\<forall>i < sz v'. \<forall>n \<le> shift v' div B. \<forall>b.
     node_at B h' (root v') (shift v' div B) i n = Some b \<longrightarrow> owned own h' b \<or>
     (i < sz v \<and> shift v' = shift v \<and> node_at B h (root v) (shift v div B) i n = Some b))"

definition forked :: "nat \<Rightarrow> 'a store \<Rightarrow> vec \<Rightarrow> vec \<Rightarrow> bool" where
  "forked B h v0 v \<longleftrightarrow> sz v = sz v0 \<and> shift v = shift v0 \<and> path_from B (vid v) h v0 h v"

text \<open>A write: from \<open>w\<close> in \<open>h\<close> to \<open>w'\<close> in \<open>h'\<close>.\<close>

definition wrote ::
    "nat \<Rightarrow> typing \<Rightarrow> 'a store \<Rightarrow> vec \<Rightarrow> typing \<Rightarrow> 'a store \<Rightarrow> vec \<Rightarrow> bool" where
  "wrote B T h w T' h' w' \<longleftrightarrow> store_ok B T' h' \<and> extends T T' \<and> keeps tr_vector (vid w) h h' \<and>
    vec_ok B T' h' w' \<and> vid w' = vid w \<and> path_from B (vid w) h w h' w'"

lemma wroteD:
  assumes "wrote B T h w T' h' w'"
  shows "store_ok B T' h'" "extends T T'" "keeps tr_vector (vid w) h h'" "vec_ok B T' h' w'"
    "vid w' = vid w" "path_from B (vid w) h w h' w'"
  using assms by (auto simp: wrote_def)

lemma wrote_refl: "store_ok B T h \<Longrightarrow> vec_ok B T h w \<Longrightarrow> wrote B T h w T h w"
  by (auto simp: wrote_def path_from_def)

lemma wrote_trans:
  assumes "wrote B T h w T1 h1 w1" "wrote B T1 h1 w1 T2 h2 w2"
  shows "wrote B T h w T2 h2 w2"
proof -
  note a = wroteD [OF assms(1)] and b = wroteD [OF assms(2)]
  have "path_from B (vid w) h w h2 w2"
    using a(6) b(6) owned_keeps [OF b(3)] unfolding path_from_def a(5) by metis
  then show ?thesis
    using a b extends_trans keeps_trans unfolding wrote_def a(5) by metis
qed

section \<open>Paths of vectors the write does not touch\<close>

lemma guarded_iff:
  assumes "val B h a k i \<noteq> None"
  shows "guarded B kd own h a k i \<longleftrightarrow>
    (\<forall>n \<le> k. \<forall>b. node_at B h a k i n = Some b \<longrightarrow> protected kd own h b)"
  using assms
proof (induction k arbitrary: a)
  case (Suc k)
  obtain c where c: "load_branch h a (slot B i (Suc k * B)) = Some c" "val B h c k i \<noteq> None"
    using Suc.prems by (auto simp: val_Suc bind_rules)
  have s: "node_at B h a (Suc k) i (Suc n) = node_at B h c k i n" for n
    using c(1) unfolding node_at_step by simp
  have "(\<forall>n \<le> Suc k. \<forall>b. node_at B h a (Suc k) i n = Some b \<longrightarrow> protected kd own h b) \<longleftrightarrow>
      protected kd own h a \<and> (\<forall>n \<le> k. \<forall>b. node_at B h c k i n = Some b \<longrightarrow> protected kd own h b)"
    unfolding s [symmetric] by (metis Suc_le_mono node_at.simps(1) not0_implies_Suc option.inject zero_le)
  then show ?case using c Suc.IH [OF c(2)] by simp
qed simp

lemma unshared_iff:
  assumes "0 < B" "vec_ok B T h w"
  shows "unshared B tr_vector own h w \<longleftrightarrow> (\<forall>i < sz w. \<forall>n \<le> shift w div B. \<forall>b.
    node_at B h (root w) (shift w div B) i n = Some b \<longrightarrow> protected tr_vector own h b)"
proof -
  have "val B h (root w) (shift w div B) i \<noteq> None" if "i < sz w" for i
    using assms that by (auto simp: vec_ok_def)
  then show ?thesis unfolding unshared_def using guarded_iff by metis
qed

lemma unshared_node_at:
  assumes "keeps tr_vector own h h'" "unshared B tr_vector own h w" "i < sz w" "n \<le> shift w div B"
  shows "node_at B h' (root w) (shift w div B) i n = node_at B h (root w) (shift w div B) i n"
  using guarded_node_at [OF assms(1) _ assms(4)] assms(2,3) by (simp add: unshared_def)

lemma protected_keeps:
  assumes "keeps tr_vector own' h h'" "protected tr_vector own h b"
  shows "protected tr_vector own h' b"
proof -
  obtain n where n: "cells h b = Some n" "nid n \<noteq> own" using assms(2) by (auto simp: protected_def)
  from keeps_dom [OF assms(1) n(1)] n(2) show ?thesis by (auto simp: protected_def)
qed

text \<open>A vector no node of which is written keeps being unshared with every other writer.\<close>

lemma unshared_foreign:
  assumes "0 < B" "vec_ok B T h y" "keeps tr_vector own h h'" "extends T T'"
    and "unshared B tr_vector own h y" "unshared B tr_vector own' h y"
  shows "unshared B tr_vector own' h' y"
proof -
  have "vec_ok B T' h' y" by (rule unshared_frame(1) [OF assms(1,2,5,3,4)])
  then show ?thesis
    using assms(6) unshared_node_at [OF assms(3,5)] protected_keeps [OF assms(3)]
    unfolding unshared_iff [OF assms(1,2)] by (subst unshared_iff [OF assms(1)]) auto
qed

lemma owned_protected: "owned own h b \<Longrightarrow> own \<noteq> own' \<Longrightarrow> protected tr_vector own' h b"
  by (auto simp: owned_def node_id_def protected_def)

lemma unshared_wrote:
  assumes "0 < B" "vec_ok B T h w" "wrote B T h w T' h' w'" "unshared B tr_vector own' h w" "own' \<noteq> vid w"
  shows "unshared B tr_vector own' h' w'"
proof -
  note d = wroteD [OF assms(3)]
  show ?thesis
    unfolding unshared_iff [OF assms(1) d(4)]
  proof (intro allI impI)
    fix i n b
    assume i: "i < sz w'" "n \<le> shift w' div B" "node_at B h' (root w') (shift w' div B) i n = Some b"
    then consider "owned (vid w) h' b"
      | "i < sz w" "shift w' = shift w" "node_at B h (root w) (shift w div B) i n = Some b"
      using d(6) unfolding path_from_def by blast
    then show "protected tr_vector own' h' b"
    proof cases
      case 1
      then show ?thesis using owned_protected assms(5) by metis
    next
      case 2
      then have "protected tr_vector own' h b"
        using assms(4) i(2) unfolding unshared_iff [OF assms(1,2)] by auto
      then show ?thesis by (rule protected_keeps [OF d(3)])
    qed
  qed
qed

section \<open>A write keeps the invariant\<close>

lemma share_step:
  assumes S: "share_ok B T h W R" and w: "w \<in> W"
    and d: "store_ok B T' h'" "extends T T'" "keeps tr_vector (vid w) h h'" "vec_ok B T' h' w'" "vid w' = vid w"
    and un: "\<And>x. x \<in> W \<Longrightarrow> x \<noteq> w \<Longrightarrow> unshared B tr_vector (vid x) h' w'"
  shows "share_ok B T' h' (insert w' (W - {w})) R"
    "y \<in> W \<union> R \<Longrightarrow> y \<noteq> w \<Longrightarrow> vlist B h' y = vlist B h y"
proof -
  note D = share_okD [OF S]
  have other: "vid y \<noteq> vid w \<and> unshared B tr_vector (vid w) h y" if "y \<in> W \<union> R" "y \<noteq> w" for y
    using D(4) [OF w] that by blast
  have frame: "vec_ok B T' h' y \<and> vlist B h' y = vlist B h y" if "y \<in> W \<union> R" "y \<noteq> w" for y
    using unshared_frame [OF D(1) D(3) _ d(3,2)] other [OF that] that(1) by blast
  then show "y \<in> W \<union> R \<Longrightarrow> y \<noteq> w \<Longrightarrow> vlist B h' y = vlist B h y" by blast
  have R: "w \<notin> R" using S w by (auto simp: share_ok_def)
  have un': "unshared B tr_vector (vid x) h' y"
    if x: "x \<in> insert w' (W - {w})" and y: "y \<in> insert w' (W - {w}) \<union> R" and ne: "vid y \<noteq> vid x" for x y
  proof (cases "y = w'")
    case True
    then show ?thesis using un x ne by auto
  next
    case False
    then have y: "y \<in> W \<union> R" "y \<noteq> w" using y R by auto
    then have uw: "unshared B tr_vector (vid w) h y" using other by blast
    show ?thesis
    proof (cases "x = w'")
      case True
      then show ?thesis using unshared_keeps [OF d(3) uw] d(5) by simp
    next
      case False
      then have x: "x \<in> W" "y \<noteq> x" using x ne by auto
      then have "unshared B tr_vector (vid x) h y" using D(4) y(1) by blast
      then show ?thesis using unshared_foreign [OF D(1) D(3) d(3,2) uw] y(1) by blast
    qed
  qed
  have inj: "inj_on vid (insert w' (W - {w}))"
    using S w d(5) by (auto simp: share_ok_def inj_on_def)
  have "\<forall>x \<in> insert w' (W - {w}). \<forall>y \<in> R. vid y \<noteq> vid x"
    using S w d(5) by (auto simp: share_ok_def)
  then show "share_ok B T' h' (insert w' (W - {w})) R"
    unfolding share_ok_def using D(1) d(1,4) inj un' frame R by blast
qed

lemma share_write:
  assumes S: "share_ok B T h W R" and w: "w \<in> W" "wrote B T h w T' h' w'"
  shows "share_ok B T' h' (insert w' (W - {w})) R"
    "y \<in> W \<union> R \<Longrightarrow> y \<noteq> w \<Longrightarrow> vlist B h' y = vlist B h y"
proof -
  note D = share_okD [OF S] and d = wroteD [OF w(2)]
  have un: "unshared B tr_vector (vid x) h' w'" if "x \<in> W" "x \<noteq> w" for x
    using unshared_wrote [OF D(1) D(3) w(2)] D(4) [OF that(1), of w] w(1) that(2) by auto
  show "share_ok B T' h' (insert w' (W - {w})) R"
    by (rule share_step(1) [OF S w(1) d(1-5) un])
  show "y \<in> W \<union> R \<Longrightarrow> y \<noteq> w \<Longrightarrow> vlist B h' y = vlist B h y"
    using share_step(2) [OF S w(1) d(1-5) un] by blast
qed

text \<open>A writer that stops writing.\<close>

lemma share_retire:
  assumes "share_ok B T h (insert w W) R" "w \<notin> W"
  shows "share_ok B T h W (insert w R)"
proof -
  have "vid x \<noteq> vid w" if "x \<in> W" for x
    using assms that by (auto simp: share_ok_def inj_on_def)
  then show ?thesis using assms(1) unfolding share_ok_def by (auto simp: inj_on_def)
qed

lemma share_mono: "share_ok B T h W R \<Longrightarrow> W' \<subseteq> W \<Longrightarrow> R' \<subseteq> R \<Longrightarrow> share_ok B T h W' R'"
  unfolding share_ok_def by (meson Un_mono in_mono inj_on_subset)

text \<open>A new writer: an existing vector under a fresh id.\<close>

lemma share_fork:
  assumes S: "share_ok B T h W R" and v: "v \<in> R" and c: "ids_below c h" "\<forall>y \<in> W \<union> R. vid y < c"
  shows "share_ok B T h (insert (v\<lparr>vid := c\<rparr>) W) R" "forked B h v (v\<lparr>vid := c\<rparr>)"
proof -
  note D = share_okD [OF S]
  have f: "\<forall>a n. cells h a = Some n \<longrightarrow> nid n \<noteq> c" using c(1) unfolding ids_below_def by fastforce
  have un: "unshared B tr_vector c h y" if "y \<in> W \<union> R" for y
    by (rule unshared_fresh [OF D(1) D(3) [OF that] f])
  have ne: "vid y \<noteq> c" if "y \<in> W \<union> R" for y using c(2) that by fastforce
  have "vec_ok B T h (v\<lparr>vid := c\<rparr>)" using D(3) [of v] v by simp
  moreover have "unshared B tr_vector (vid w) h (v\<lparr>vid := c\<rparr>)" if "w \<in> W" for w
    using S v that unfolding share_ok_def by auto
  moreover have "inj_on vid (insert (v\<lparr>vid := c\<rparr>) W)"
    using S ne by (auto simp: share_ok_def inj_on_def)
  ultimately show "share_ok B T h (insert (v\<lparr>vid := c\<rparr>) W) R"
    using S un ne unfolding share_ok_def by auto
  show "forked B h v (v\<lparr>vid := c\<rparr>)" by (simp add: forked_def path_from_def)
qed

text \<open>A fork keeps being one, whether it is written or another vector is.\<close>

lemma forked_written:
  assumes S: "share_ok B T h W R" and w: "w \<in> W" "wrote B T h w T' h' w'" "sz w' = sz w" "shift w' = shift w"
    and f: "forked B h v0 w" "v0 \<in> W \<union> R" "v0 \<noteq> w"
  shows "forked B h' v0 w'"
proof -
  note d = wroteD [OF w(2)]
  have un: "unshared B tr_vector (vid w) h v0" using share_okD(4) [OF S w(1) f(2,3)] by blast
  have s: "sz w = sz v0" "shift w = shift v0" using f(1) by (auto simp: forked_def)
  have "path_from B (vid w) h' v0 h' w'"
    unfolding path_from_def
  proof (intro allI impI)
    fix i n b
    assume i: "i < sz w'" "n \<le> shift w' div B" "node_at B h' (root w') (shift w' div B) i n = Some b"
    then have "owned (vid w) h' b \<or> node_at B h (root w) (shift w div B) i n = Some b"
      using d(6) unfolding path_from_def by blast
    then have "owned (vid w) h' b \<or> owned (vid w) h b \<or> node_at B h (root v0) (shift v0 div B) i n = Some b"
      using f(1) i(1,2) w(3,4) unfolding forked_def path_from_def by metis
    then have "owned (vid w) h' b \<or> node_at B h (root v0) (shift v0 div B) i n = Some b"
      using owned_keeps [OF d(3)] by blast
    then show "owned (vid w) h' b \<or> i < sz v0 \<and> shift w' = shift v0 \<and>
        node_at B h' (root v0) (shift v0 div B) i n = Some b"
      using unshared_node_at [OF d(3) un] i(1,2) w(3,4) s by simp
  qed
  then show ?thesis using s w(3,4) d(5) by (simp add: forked_def)
qed

lemma forked_other:
  assumes S: "share_ok B T h W R" and w: "w \<in> W" "wrote B T h w T' h' w'"
    and f: "forked B h v0 v" "v0 \<in> W \<union> R" "v0 \<noteq> w" "v \<in> W \<union> R" "v \<noteq> w"
  shows "forked B h' v0 v"
proof -
  note d = wroteD [OF w(2)]
  have un: "unshared B tr_vector (vid w) h v0" "unshared B tr_vector (vid w) h v"
    using share_okD(4) [OF S w(1)] f(2-5) by blast+
  have s: "sz v = sz v0" "shift v = shift v0" using f(1) by (auto simp: forked_def)
  have "path_from B (vid v) h' v0 h' v"
    unfolding path_from_def
  proof (intro allI impI)
    fix i n b
    assume i: "i < sz v" "n \<le> shift v div B" "node_at B h' (root v) (shift v div B) i n = Some b"
    then have "node_at B h (root v) (shift v div B) i n = Some b"
      using unshared_node_at [OF d(3) un(2)] by simp
    then have "owned (vid v) h b \<or> node_at B h (root v0) (shift v0 div B) i n = Some b"
      using f(1) i(1,2) unfolding forked_def path_from_def by blast
    then show "owned (vid v) h' b \<or> i < sz v0 \<and> shift v = shift v0 \<and>
        node_at B h' (root v0) (shift v0 div B) i n = Some b"
      using owned_keeps [OF d(3)] unshared_node_at [OF d(3) un(1)] i(1,2) s by auto
  qed
  with s show ?thesis by (simp add: forked_def)
qed

text \<open>What the search for changes needs.\<close>

lemma forked_id_agree:
  assumes "share_ok B T h W R" "v \<in> W" "v0 \<in> R" "forked B h v0 v"
  shows "id_agree B h v0 v"
proof -
  have "vid v0 \<noteq> vid v" using assms(1-3) by (auto simp: share_ok_def)
  then have un: "unshared B tr_vector (vid v) h v0"
    using share_okD(4) [OF assms(1,2)] assms(3) by blast
  have s: "sz v = sz v0" "shift v = shift v0" using assms(4) by (auto simp: forked_def)
  have "a = b" if i: "i < sz v0" "n \<le> shift v0 div B" and a: "node_at B h (root v0) (shift v0 div B) i n = Some a"
    and b: "node_at B h (root v) (shift v0 div B) i n = Some b" and id: "node_id h a = node_id h b" for i n a b
  proof -
    have "protected tr_vector (vid v) h a"
      using un i a unshared_iff [OF share_okD(1,3) [OF assms(1)]] assms(3) by blast
    then have "\<not> owned (vid v) h a" by (auto simp: owned_def node_id_def protected_def)
    then have "\<not> owned (vid v) h b" using id by (simp add: owned_def)
    then have "node_at B h (root v0) (shift v0 div B) i n = Some b"
      using assms(4) i b unfolding forked_def path_from_def s by blast
    with a show ?thesis by simp
  qed
  then show ?thesis using s unfolding id_agree_def by blast
qed

section \<open>A writer at work\<close>

text \<open>\<open>writing\<close>: from \<open>w\<close> in \<open>h\<close>, its iterators and writes have led to the root \<open>r\<close> and the view \<open>f\<close> in
  \<open>h1\<close>.\<close>

definition writing ::
    "nat \<Rightarrow> typing \<Rightarrow> 'a store \<Rightarrow> vec \<Rightarrow> nat \<Rightarrow> 'a store \<Rightarrow> addr \<Rightarrow> (nat \<Rightarrow> 'a option) \<Rightarrow> bool" where
  "writing B T h w K h1 r f \<longleftrightarrow> shift w = K * B \<and> mut_state B (vid w) T h h1 r K (sz w) f \<and>
    path_from B (vid w) h w h1 (w\<lparr>root := r\<rparr>)"

lemma writingD:
  assumes "writing B T h w K h1 r f"
  shows "shift w = K * B" "mut_state B (vid w) T h h1 r K (sz w) f"
    "path_from B (vid w) h w h1 (w\<lparr>root := r\<rparr>)"
  using assms by (auto simp: writing_def)

lemma writing_start:
  assumes "0 < B" "store_ok B T h" "vec_ok B T h w"
  obtains K where "writing B T h w K h (root w) (\<lambda>i. val B h (root w) K i)"
    "\<And>i. i < sz w \<Longrightarrow> val B h (root w) K i = Some (vlist B h w ! i)"
proof -
  obtain K where K: "shift w = K * B" "T (root w) = Some (K, 0)" "sz w \<le> BP_WIDTH B ^ Suc K"
    "\<forall>i < sz w. val B h (root w) K i \<noteq> None" using assms(3) by (auto simp: vec_ok_def)
  have "writing B T h w K h (root w) (\<lambda>i. val B h (root w) K i)"
    using K assms(1,2) by (auto simp: writing_def mut_state_def path_from_def)
  moreover have "val B h (root w) K i = Some (vlist B h w ! i)" if "i < sz w" for i
    using vec_ok_get [OF assms(1,3) that] vget_val [OF assms(1) K(1), of h i] by simp
  ultimately show ?thesis using that by blast
qed

lemma root_update_eq [simp]: "w\<lparr>root := a\<rparr> = w\<lparr>root := b\<rparr> \<longleftrightarrow> a = b"
  by (cases w) simp

lemma path_shadows:
  assumes "path_from B own h v h1 v1" "shadows B own h1 h2" "keeps tr_vector own h1 h2"
    and "cells h1 (root v1) \<noteq> None"
  shows "path_from B own h v h2 v1"
  using assms owned_keeps [OF assms(3)] unfolding path_from_def shadows_def by metis

lemma mut_state_root: "mut_state B own T h h1 r K N f \<Longrightarrow> cells h1 r \<noteq> None"
  using mut_stateD(6) [of B own T h h1 r K N f] store_ok_unique by blast

lemma shadows_walk:
  assumes M: "mut_state B own T0 h0 h r K N f" and "owned own h r" "i < N"
    and w: "cow_walk B tr_vector own h r (K * B) i = Some (l, h')"
  shows "shadows B own h h'"
proof -
  obtain T where T: "store_ok B T h" "T r = Some (K, 0)" using mut_stateD(6) [OF M] by blast
  have i: "0 = i div BP_WIDTH B ^ Suc K" using mut_stateD(3) [OF M] assms(3) by simp
  have "\<not> protected tr_vector own h r" by (rule owned_not_protected [OF keeps_refl assms(2)])
  moreover have "val B h r K i \<noteq> None"
    using mut_stateD(4) [OF M assms(3)] mut_stateD(5) [OF M assms(3)] by simp
  ultimately show ?thesis using cow_walk_shadows [OF mut_stateD(1) [OF M] T(1,2) i _ _ w] by blast
qed

lemma writing_begin:
  assumes W: "writing B T h w K h1 r f" and "0 < sz w"
  shows "\<exists>it r' h'. it_begin B h1 (w\<lparr>root := r\<rparr>) = Some (it, w\<lparr>root := r'\<rparr>, h') \<and>
    writing B T h w K h' r' f \<and> evolves (vid w) h1 h' \<and> mpos B (vid w) h' r' K (sz w) it 0 \<and>
    (owned (vid w) h1 r \<longrightarrow> r' = r)"
proof -
  note D = writingD [OF W]
  let ?v = "w\<lparr>root := r\<rparr>"
  have M: "mut_state B (vid ?v) T h h1 (root ?v) K (sz ?v) f" using D(2) by simp
  obtain it r' h' where b: "it_begin B h1 ?v = Some (it, w\<lparr>root := r'\<rparr>, h')"
    "mut_state B (vid w) T h h' r' K (sz w) f" "evolves (vid w) h1 h'" "mpos B (vid w) h' r' K (sz w) it 0"
    "owned (vid w) h1 r \<longrightarrow> r' = r"
    using it_begin_mpos [OF M] D(1) assms(2) by auto
  obtain r1 h2 l where c: "cow_root tr_vector (vid w) h1 r = Some (r1, h2)"
    "cow_walk B tr_vector (vid w) h2 r1 (K * B) 0 = Some (l, h')" "r' = r1"
    using b(1) D(1) by (auto simp: it_begin_def bind_rules)
  obtain T1 where T1: "store_ok B T1 h1" "extends T T1" "T1 r = Some (K, 0)"
    using mut_stateD(6) [OF D(2)] by blast
  note e = cow_root_evolves [OF T1(1) c(1)] and s = cow_root_shadows [OF T1(1) c(1)]
  obtain r2 h3 T2 where c2: "cow_root tr_vector (vid w) h1 r = Some (r2, h3)"
    "cow_result B tr_vector (vid w) h T1 h1 K T2 h3" "T2 r2 = Some (K, 0)"
    "\<forall>j i. val B h3 r2 j i = val B h1 r j i"
    using cow_root_ok [OF T1(1) mut_stateD(2) [OF D(2)] T1(3)] by blast
  then have r2: "r2 = r1" "h3 = h2" using c(1) by auto
  have "store_ok B T2 h2 \<and> extends T T2 \<and> T2 r1 = Some (K, 0)"
    using cow_resultD(1,2) [OF c2(2)] extends_trans [OF T1(2)] c2(3) r2 by blast
  then have M2: "mut_state B (vid w) T h h2 r1 K (sz w) f"
    using D(2) c2(4) cow_resultD(3) [OF c2(2)] r2 unfolding mut_state_def by auto
  have p2: "path_from B (vid w) h w h2 (w\<lparr>root := r1\<rparr>)"
    unfolding path_from_def
  proof (intro allI impI)
    fix i n b
    assume i: "i < sz (w\<lparr>root := r1\<rparr>)" "n \<le> shift (w\<lparr>root := r1\<rparr>) div B"
      "node_at B h2 (root (w\<lparr>root := r1\<rparr>)) (shift (w\<lparr>root := r1\<rparr>) div B) i n = Some b"
    then have "owned (vid w) h2 b \<or> node_at B h1 r (shift w div B) i n = Some b" using s(3) by simp
    moreover have "owned (vid w) h1 b \<or> node_at B h (root w) (shift w div B) i n = Some b"
      if "node_at B h1 r (shift w div B) i n = Some b"
      using D(3) i(1,2) that by (simp add: path_from_def)
    ultimately show "owned (vid w) h2 b \<or> i < sz w \<and> shift (w\<lparr>root := r1\<rparr>) = shift w \<and>
        node_at B h (root w) (shift w div B) i n = Some b"
      using i(1) owned_keeps [OF s(2)] by auto
  qed
  have sh: "shadows B (vid w) h2 h'" by (rule shadows_walk [OF M2 e(2) assms(2) c(2)])
  obtain l2 h4 where w4: "cow_walk B tr_vector (vid w) h2 r1 (K * B) 0 = Some (l2, h4)" "evolves (vid w) h2 h4"
    using mut_state_walk [OF M2 e(2) assms(2)] by blast
  then have "keeps tr_vector (vid w) h2 h'" using c(2) evolves_keeps by auto
  then have "path_from B (vid w) h w h' (w\<lparr>root := r'\<rparr>)"
    using path_shadows [OF p2 sh] mut_state_root [OF M2] c(3) by simp
  then have "writing B T h w K h' r' f" using b(2) D(1) by (simp add: writing_def)
  with b show ?thesis by blast
qed

lemma writing_step:
  assumes W: "writing B T h w K h1 r f" and "mut_state B (vid w) T h h' r K (sz w) f'"
    and "shadows B (vid w) h1 h'" "evolves (vid w) h1 h'"
  shows "writing B T h w K h' r f'"
  using writingD [OF W] path_shadows [OF _ assms(3) evolves_keeps [OF assms(4)]] assms(2)
    mut_state_root by (fastforce simp: writing_def)

lemma writing_add:
  assumes W: "writing B T h w K h1 r f" and it: "mpos B (vid w) h1 r K (sz w) it 0" and n: "n \<le> sz w" "0 < sz w"
  shows "\<exists>it' h'. iter_add B h1 it n = Some (it', h') \<and> writing B T h w K h' r f \<and>
    evolves (vid w) h1 h' \<and> mpos B (vid w) h' r K (sz w) it' n"
proof -
  note M = writingD(2) [OF W]
  obtain it' h' where a: "iter_add B h1 it n = Some (it', h')" "mut_state B (vid w) T h h' r K (sz w) f"
    "evolves (vid w) h1 h'" "mpos B (vid w) h' r K (sz w) it' n"
    using iter_add_mpos [OF M it n] by blast
  have it0: "it_root it = r" "it_shift it = K * B" "it_sz it = sz w" "it_id it = vid w"
    using it n by (auto simp: mpos_def)
  have "shadows B (vid w) h1 h'"
  proof (cases "h' = h1")
    case False
    then obtain i l where i: "cow_walk B tr_vector (vid w) h1 r (K * B) i = Some (l, h')" "i < sz w"
      using a(1) it0 n by (auto simp: iter_add_def add_target_def Let_def bind_rules split: if_splits)
    show ?thesis by (rule shadows_walk [OF M mpos_owned [OF it] i(2,1)])
  qed simp
  with a writing_step [OF W a(2) _ a(3)] show ?thesis by blast
qed

lemma writing_inc:
  assumes W: "writing B T h w K h1 r f" and it: "mpos B (vid w) h1 r K (sz w) it n" and n: "n < sz w"
  shows "\<exists>it' h'. iter_inc B h1 it = Some (it', h') \<and> writing B T h w K h' r f \<and>
    evolves (vid w) h1 h' \<and> mpos B (vid w) h' r K (sz w) it' (Suc n)"
proof -
  note M = writingD(2) [OF W]
  obtain it' h' where a: "iter_inc B h1 it = Some (it', h')" "mut_state B (vid w) T h h' r K (sz w) f"
    "evolves (vid w) h1 h'" "mpos B (vid w) h' r K (sz w) it' (Suc n)"
    using iter_inc_mpos [OF M it n] by blast
  have it0: "it_root it = r" "it_shift it = K * B" "it_sz it = sz w" "it_id it = vid w"
    "it_i it + it_off it = n" "it_off it = n mod BP_WIDTH B"
    using it n by (auto simp: mpos_def)
  have "shadows B (vid w) h1 h'"
  proof (cases "h' = h1")
    case False
    then obtain l where i: "cow_walk B tr_vector (vid w) h1 r (K * B) (it_i it + BP_WIDTH B) = Some (l, h')"
      "it_off it + 1 = BP_WIDTH B" "it_i it + BP_WIDTH B \<noteq> sz w"
      using a(1) it0 n by (auto simp: iter_inc_def bind_rules split: if_splits)
    have "it_i it + BP_WIDTH B < sz w" using i(2,3) it0(5) n by simp
    from shadows_walk [OF M mpos_owned [OF it] this i(1)] show ?thesis .
  qed simp
  with a writing_step [OF W a(2) _ a(3)] show ?thesis by blast
qed

lemma shadows_store_leaf: "store_leaf h l j x = Some h' \<Longrightarrow> shadows B own h h'"
  by (simp add: shadows_def node_at_store_leaf_owned(1))

lemma writing_assign:
  assumes W: "writing B T h w K h1 r f" and it: "mpos B (vid w) h1 r K (sz w) it n" and n: "n < sz w"
  shows "\<exists>h'. it_assign h1 it x = Some h' \<and> writing B T h w K h' r (f(n := Some x)) \<and> evolves (vid w) h1 h'"
proof -
  obtain h' where a: "it_assign h1 it x = Some h'" "mut_state B (vid w) T h h' r K (sz w) (f(n := Some x))"
    "evolves (vid w) h1 h'" using mpos_assign [OF writingD(2) [OF W] it n] by blast
  have "shadows B (vid w) h1 h'" using a(1) shadows_store_leaf by (auto simp: it_assign_def)
  with a writing_step [OF W a(2) _ a(3)] show ?thesis by blast
qed

lemma writing_deref:
  "writing B T h w K h1 r f \<Longrightarrow> mpos B (vid w) h1 r K (sz w) it n \<Longrightarrow> n < sz w \<Longrightarrow> it_deref h1 it = f n"
  using mpos_deref writingD(2) by blast

lemma writing_wrote:
  assumes W: "writing B T h w K h1 r f"
  obtains T1 where "wrote B T h w T1 h1 (w\<lparr>root := r\<rparr>)"
    "\<And>i. i < sz w \<Longrightarrow> Some (vlist B h1 (w\<lparr>root := r\<rparr>) ! i) = f i"
proof -
  note D = writingD [OF W] and M = mut_stateD [OF writingD(2) [OF W]]
  let ?w = "w\<lparr>root := r\<rparr>"
  obtain T1 where T1: "store_ok B T1 h1" "extends T T1" "T1 r = Some (K, 0)" using M(6) by blast
  have v: "vec_ok B T1 h1 ?w" using T1(3) D(1) M(3,4,5) by (auto simp: vec_ok_def)
  then have "wrote B T h w T1 h1 ?w" using T1 M(2) D(3) by (simp add: wrote_def)
  moreover have "Some (vlist B h1 ?w ! i) = f i" if "i < sz w" for i
    using vec_ok_get [OF M(1) v, of i] vget_val [OF M(1), of ?w K h1 i] D(1) M(5) that by simp
  ultimately show ?thesis using that by blast
qed

text \<open>The same for \<open>mut_set\<close>.\<close>

lemma tr_mut_set_wrote:
  assumes "0 < B" "store_ok B T h" "vec_ok B T h w" "i < sz w"
  shows "\<exists>r h' T'. tr_mut_set B h w i x = Some (w\<lparr>root := r\<rparr>, h') \<and> wrote B T h w T' h' (w\<lparr>root := r\<rparr>) \<and>
    vlist B h' (w\<lparr>root := r\<rparr>) = (vlist B h w)[i := x]"
proof -
  obtain w' h' T' where s: "vset B tr_vector h w i x = Some (w', h')" "store_ok B T' h'" "extends T T'"
    "keeps tr_vector (vid w) h h'" "vec_ok B T' h' w'" "vlist B h' w' = (vlist B h w)[i := x]" "vid w' = vid w"
    using vset_list [OF assms, of tr_vector x] by blast
  obtain r where r: "w' = w\<lparr>root := r\<rparr>" using s(1) by (auto simp: vset_def bind_rules)
  obtain K where K: "shift w = K * B" using assms(3) by (auto simp: vec_ok_def)
  have "derived B (vid w) h w h w K" using K by (simp add: derived_def)
  from vset_derived [OF assms this s(1)] have "path_from B (vid w) h w h' w'"
    using K r assms(1) by (auto simp: derived_def path_from_def)
  then have "wrote B T h w T' h' w'" using s by (simp add: wrote_def)
  with s(1,6) r show ?thesis by (auto simp: tr_mut_set_vset)
qed

end
