(* ===== verification/Contentious.thy ===== *)
theory Contentious imports
  Prelude
  Complex_Main
  "HOL-Library.Signed_Division"
  "HOL-Library.Multiset"
begin

text \<open>
  The helpers of contentious/contentious.h and contentious/contentious.cc: the partition of a vector
  into chunks, the index maps with \<open>safe_mapping\<close>, and the operators with their inverses. \<open>H\<close> is
  HWCONC, the number of workers.

  What \<open>cont_vector\<close> needs of an operator is the locale \<open>invertible_op\<close>: a change can be measured
  with the inverse and applied elsewhere, and changes can be applied in any order. \<open>plus\<close> satisfies
  it; \<open>mult\<close> on integers does not.
\<close>

section \<open>partition\<close>

text \<open>\<open>ceil(static_cast<double>(sz)/HWCONC)\<close>. The double quotient of sizes below \<open>2 ^ 53\<close> has the
  same ceiling as the exact one.\<close>

definition chunk_sz :: "nat \<Rightarrow> nat \<Rightarrow> nat" where
  "chunk_sz H n = nat \<lceil>real n / real H\<rceil>"

definition partition :: "nat \<Rightarrow> nat \<Rightarrow> nat \<Rightarrow> nat \<times> nat" where
  "partition H p n = (chunk_sz H n * p, min (chunk_sz H n * (p + 1)) n)"

lemma chunk_sz_eq [code]: "chunk_sz H n = (if H = 0 then 0 else (n + (H - 1)) div H)"
proof (cases "H = 0")
  case False
  then have H: "0 < H" by simp
  have "\<lceil>real n / real H\<rceil> = - (- int n div int H)"
    using ceiling_divide_eq_div [of "int n" "int H"] by simp
  also have "\<dots> = int ((n + (H - 1)) div H)"
  proof (cases "n mod H = 0")
    case True
    then obtain q where n: "n = H * q" by auto
    have "- int n = int H * - int q" by (simp add: n)
    then have "- int n div int H = - int q" using H by (metis nonzero_mult_div_cancel_left of_nat_0_eq_iff less_numeral_extra(3))
    moreover have "(n + (H - 1)) div H = q" using H by (intro div_nat_eqI) (simp_all add: n)
    ultimately show ?thesis by simp
  next
    case False
    then have d: "- int n div int H = - int (n div H) - 1"
      using zdiv_zminus1_eq_if [of "int H" "int n"] H by (simp add: zdiv_int flip: of_nat_mod)
    have "(n + (H - 1)) div H = Suc (n div H)"
    proof (rule div_nat_eqI)
      have n: "n = H * (n div H) + n mod H" by simp
      show "H * Suc (n div H) \<le> n + (H - 1)" using False H n by (simp, linarith)
      have "n mod H < H" using H by simp
      then show "n + (H - 1) < H * Suc (Suc (n div H))" using n by (simp, linarith)
    qed
    then show ?thesis using d by simp
  qed
  finally show ?thesis using False by (simp add: chunk_sz_def)
qed (simp add: chunk_sz_def)

lemma chunk_sz_covers: "0 < H \<Longrightarrow> n \<le> chunk_sz H n * H"
  using dividend_less_times_div [of H "n + (H - 1)"] by (simp add: chunk_sz_eq mult.commute)

text \<open>The chunks of the workers, in order, are the indices of the vector.\<close>

lemma chunks_prefix:
  "concat (map (\<lambda>p. [fst (partition H p n)..<snd (partition H p n)]) [0..<k]) = [0..<min (chunk_sz H n * k) n]"
proof (induction k)
  case (Suc k)
  let ?c = "chunk_sz H n"
  have "[0..<min (?c * k) n] @ [?c * k..<min (?c * Suc k) n] = [0..<min (?c * Suc k) n]"
  proof (cases "?c * k \<le> n")
    case True
    then have "?c * k \<le> min (?c * Suc k) n" by simp
    then obtain d where "min (?c * Suc k) n = ?c * k + d" using le_iff_add by blast
    then show ?thesis using upt_add_eq_append [of 0 "?c * k" d] True by (simp add: min_absorb1)
  next
    case False
    then show ?thesis by simp
  qed
  with Suc show ?case by (simp add: partition_def)
qed simp

section \<open>Index maps\<close>

type_synonym imap_fp = "int \<Rightarrow> int"

definition identity :: imap_fp where "identity i = i"

definition offset :: "int \<Rightarrow> imap_fp" where "offset ofs i = i - ofs"

definition alltoone :: "int \<Rightarrow> imap_fp" where "alltoone i j = i"

definition is_monotonic :: "imap_fp \<Rightarrow> bool" where
  "is_monotonic imap \<longleftrightarrow> imap 0 < imap 1"

text \<open>The index that maps to \<open>i\<close>, and \<open>i\<close> itself, moved together into \<open>[lo, hi]\<close>.\<close>

definition safe_mapping :: "imap_fp \<Rightarrow> int \<Rightarrow> int \<Rightarrow> int \<Rightarrow> int \<times> int" where
  "safe_mapping imap i lo hi =
    (let imapped = imap i;
         ofs = i - imapped;
         idom = i + ofs;
         iran = i;
         (idom, iran) = (if idom < lo then (idom + (lo - idom), iran + (lo - idom)) else (idom, iran));
         (idom, iran) = (if hi \<le> idom then (idom - (idom - hi), iran - (idom - hi)) else (idom, iran))
     in (idom, iran))"

lemma safe_mapping_cases:
  assumes "lo \<le> hi"
  shows "safe_mapping imap i lo hi =
    (let d = max lo (min hi (i + (i - imap i))) in (d, d - (i - imap i)))"
  using assms by (auto simp: safe_mapping_def Let_def)

section \<open>Operators\<close>

record 'a ct_op =
  op_identity :: 'a
  op_f :: "'a \<Rightarrow> 'a \<Rightarrow> 'a"
  op_inv :: "'a \<Rightarrow> 'a \<Rightarrow> 'a"

definition plus_fp :: "('a::plus) \<Rightarrow> 'a \<Rightarrow> 'a" where "plus_fp a b = a + b"
definition minus_fp :: "('a::minus) \<Rightarrow> 'a \<Rightarrow> 'a" where "minus_fp a b = a - b"
definition multiplies_fp :: "('a::times) \<Rightarrow> 'a \<Rightarrow> 'a" where "multiplies_fp a b = a * b"

text \<open>C division of integers rounds towards zero.\<close>

definition divides_fp :: "int \<Rightarrow> int \<Rightarrow> int" where "divides_fp a b = a sdiv b"

definition multplus_fp :: "('a::{plus,times}) \<Rightarrow> 'a \<Rightarrow> 'a \<Rightarrow> 'a" where
  "multplus_fp a b c = a + c * b"

definition ct_plus :: "('a::{zero,plus,minus}) ct_op" where
  "ct_plus = \<lparr>op_identity = 0, op_f = plus_fp, op_inv = minus_fp\<rparr>"

definition ct_mult :: "int ct_op" where
  "ct_mult = \<lparr>op_identity = 1, op_f = multiplies_fp, op_inv = divides_fp\<rparr>"

text \<open>The operator \<open>stencil\<close> freezes with for a coefficient: \<open>multplus_fp(_1, _2, coeff)\<close>.\<close>

definition stencil_op :: "('a::{zero,plus,minus,times}) \<Rightarrow> 'a ct_op" where
  "stencil_op coeff = \<lparr>op_identity = 0, op_f = (\<lambda>a b. multplus_fp a b coeff), op_inv = minus_fp\<rparr>"

text \<open>The change from \<open>old\<close> to \<open>new\<close>, applied to a target the way \<open>reattach\<close> and \<open>resolve\<close> do.\<close>

definition apply_diff :: "'a ct_op \<Rightarrow> 'a \<Rightarrow> 'a \<Rightarrow> 'a \<Rightarrow> 'a" where
  "apply_diff p new old target =
    (let diff = op_inv p new old
     in if diff \<noteq> op_identity p then op_f p target diff else target)"

locale invertible_op =
  fixes p :: "'a ct_op"
  assumes inv_self: "op_inv p x x = op_identity p"
    and f_inv: "op_f p x (op_inv p y x) = y"
    and f_identity: "op_f p x (op_identity p) = x"
    and f_swap: "op_f p (op_f p x a) b = op_f p (op_f p x b) a"
    and f_chunk: "op_f p t (op_inv p (op_f p y a) x) = op_f p (op_f p t (op_inv p y x)) a"

context invertible_op
begin

lemma apply_diff_f: "apply_diff p new old t = op_f p t (op_inv p new old)"
  by (simp add: apply_diff_def Let_def f_identity)

lemma apply_diff_same: "apply_diff p x x t = t"
  by (simp add: apply_diff_f inv_self f_identity)

lemma apply_diff_to_old: "apply_diff p new old old = new"
  by (simp add: apply_diff_f f_inv)

lemma apply_diff_swap:
  "apply_diff p n1 o1 (apply_diff p n2 o2 t) = apply_diff p n2 o2 (apply_diff p n1 o1 t)"
  by (simp add: apply_diff_f f_swap)

text \<open>A worker that folds its chunk into a copy of \<open>x\<close> changes it by what the chunk alone does.\<close>

lemma apply_diff_fold: "apply_diff p (foldl (op_f p) x xs) x t = foldl (op_f p) t xs"
proof (induction xs rule: rev_induct)
  case Nil
  show ?case by (simp add: apply_diff_same)
next
  case (snoc a xs)
  then show ?case by (simp add: apply_diff_f f_chunk)
qed

text \<open>Changes can be applied in any order.\<close>

lemma apply_diffs_perm:
  assumes "mset ds = mset ds'"
  shows "foldl (\<lambda>t (n, old). apply_diff p n old t) t ds = foldl (\<lambda>t (n, old). apply_diff p n old t) t ds'"
proof -
  have "fold (\<lambda>(n, old) t. apply_diff p n old t) ds = fold (\<lambda>(n, old) t. apply_diff p n old t) ds'"
    by (rule fold_multiset_equiv [OF _ assms]) (auto simp: fun_eq_iff apply_diff_swap)
  then show ?thesis by (simp add: foldl_conv_fold split_def)
qed

text \<open>The parallel reduction: each worker folds its chunk, the changes arrive in any order.\<close>

lemma parallel_fold:
  assumes "mset ps = mset [0..<length cs]"
  shows "foldl (\<lambda>t q. apply_diff p (foldl (op_f p) x (cs ! q)) x t) t ps = foldl (op_f p) t (concat cs)"
proof -
  let ?step = "\<lambda>q t. apply_diff p (foldl (op_f p) x (cs ! q)) x t"
  have "fold ?step ps = fold ?step [0..<length cs]"
    by (rule fold_multiset_equiv [OF _ assms]) (auto simp: fun_eq_iff apply_diff_swap)
  moreover have "fold (\<lambda>c t. foldl (op_f p) t c) ds t = foldl (op_f p) t (concat ds)" for ds t
    by (induction ds arbitrary: t) simp_all
  moreover have "fold ?step [0..<length cs] t = fold (\<lambda>c t. foldl (op_f p) t c) (map ((!) cs) [0..<length cs]) t"
    by (simp only: fold_map o_def apply_diff_fold)
  ultimately show ?thesis by (simp only: foldl_conv_fold map_nth)
qed

end

lemma plus_laws:
  "invertible_op (ct_plus :: ('a::ab_group_add) ct_op)"
  by unfold_locales (simp_all add: ct_plus_def plus_fp_def minus_fp_def algebra_simps)

interpretation ct: invertible_op "ct_plus :: ('a::ab_group_add) ct_op"
  by (rule plus_laws)

section \<open>Properties\<close>

text \<open>C26. \<open>partition\<close>: the chunks of the workers 0 to H - 1 put together are all the indices of the
  vector, each exactly once and in order, for every size and every positive number of workers. (A
  chunk past the end is empty: its bounds may be reversed.)\<close>

theorem partition_covers:
  assumes "0 < H"
  shows "concat (map (\<lambda>p. [fst (partition H p n)..<snd (partition H p n)]) [0..<H]) = [0..<n]"
  using chunks_prefix [of H n H] chunk_sz_covers [OF assms] by (simp add: min_absorb2)

theorem partition_covers_witness:
  "concat (map (\<lambda>p. [fst (partition 4 p 5)..<snd (partition 4 p 5)]) [0..<4]) = [0, 1, 2, 3, 4]"
  using partition_covers [of 4 5] by (simp add: upt_rec)

text \<open>A worker can be given reversed bounds: with 4 workers and 5 values the last chunk is
  from 6 to 5, which \<open>assign\<close> (asserting \<open>a < b\<close>) does not accept.\<close>

theorem partition_reversed: "partition 4 3 5 = (6, 5)"
  by (simp add: partition_def chunk_sz_eq)

text \<open>\<open>safe_mapping\<close> keeps the two indices at the distance the index map prescribes, puts the
  domain index into [lo, hi], and leaves an index alone whose preimage is inside.\<close>

theorem safe_mapping_bounds:
  assumes "lo \<le> hi" and "safe_mapping imap i lo hi = (d, r)"
  shows "lo \<le> d \<and> d \<le> hi \<and> d - r = i - imap i \<and>
    (lo \<le> i + (i - imap i) \<and> i + (i - imap i) \<le> hi \<longrightarrow> r = i)"
  using assms(1) assms(2) [unfolded safe_mapping_cases [OF assms(1)]]
  by (auto simp: Let_def max_def min_def split: if_splits)

theorem safe_mapping_bounds_witness: "safe_mapping (offset 2) 9 0 10 = (10, 8)"
proof -
  obtain d r where s: "safe_mapping (offset 2) 9 0 10 = (d, r)" by fastforce
  then have "d \<le> 10 \<and> d - r = 2"
    using safe_mapping_bounds [OF _ s] by (simp add: offset_def)
  moreover have "d = 10" using s by (auto simp: safe_mapping_def offset_def Let_def)
  ultimately show ?thesis using s by simp
qed

text \<open>The operator \<open>mult\<close> on integers has no inverse: the change from 2 to 3 is measured as
  3 / 2 = 1, the identity, and is lost.\<close>

theorem ct_mult_loses_changes: "apply_diff ct_mult 3 2 2 = 2"
  by (simp add: apply_diff_def ct_mult_def divides_fp_def signed_divide_int_def sgn_if)

section \<open>Chunks\<close>

text \<open>Every worker has at least one index.\<close>

definition chunks_strict :: "nat \<Rightarrow> nat \<Rightarrow> bool" where
  "chunks_strict H n \<longleftrightarrow> 0 < H \<and> chunk_sz H n * (H - 1) < n"

definition in_chunk :: "nat \<Rightarrow> nat \<Rightarrow> nat \<Rightarrow> nat \<Rightarrow> bool" where
  "in_chunk H n p i \<longleftrightarrow> fst (partition H p n) \<le> i \<and> i < snd (partition H p n)"

lemma strict_bounds:
  assumes "chunks_strict H n" "p < H" "partition H p n = (a, b)"
  shows "a < b" "b \<le> n"
proof -
  have "chunk_sz H n * p \<le> chunk_sz H n * (H - 1)" using assms(2) by (intro mult_le_mono2) simp
  then have "chunk_sz H n * p < n" using assms(1) unfolding chunks_strict_def by (meson le_less_trans)
  moreover have "0 < chunk_sz H n"
    using assms(1) chunk_sz_covers [of H n] by (cases "chunk_sz H n") (auto simp: chunks_strict_def)
  ultimately show "a < b" "b \<le> n" using assms(3) by (auto simp: partition_def)
qed

lemma chunk_of: "in_chunk H n p i \<Longrightarrow> p = i div chunk_sz H n"
  by (intro div_nat_eqI [symmetric]) (auto simp: in_chunk_def partition_def)

lemma chunk_exists:
  assumes "0 < H" "i < n"
  shows "i div chunk_sz H n < H" "in_chunk H n (i div chunk_sz H n) i"
proof -
  have n: "n \<le> chunk_sz H n * H" by (rule chunk_sz_covers [OF assms(1)])
  then have c: "0 < chunk_sz H n" using assms by (cases "chunk_sz H n") auto
  have "i < H * chunk_sz H n" using n assms(2) by (simp add: mult.commute)
  then show "i div chunk_sz H n < H" using c by (simp add: div_less_iff_less_mult)
  show "in_chunk H n (i div chunk_sz H n) i"
    using assms(2) c dividend_less_times_div [of "chunk_sz H n" i] by (simp add: in_chunk_def partition_def)
qed

end
