(* ===== verification/Cont_Vector.thy ===== *)
theory Cont_Vector imports
  Bp_Assign Bp_Diff Contentious
begin

text \<open>
  \<open>cont_vector\<close> and \<open>splt_vector\<close> (contentious/cont_vector.h, contentious/cont_vector-impl.h). The
  objects live in a \<open>world\<close>: the node store and id counter of the vectors, the \<open>cont_vector\<close>s by
  address (dependents are tracked by address), and the closures submitted as resolutions. The three
  folly hash maps are finite maps here. An operation returns \<open>None\<close> where the code exits, fails an
  assertion, blocks on a latch or has undefined behaviour.
\<close>

section \<open>State\<close>

type_synonym caddr = nat

record 'a splt_vector =
  sdata :: vec
  sops :: "'a ct_op list"

record 'a tracker =
  used :: "vec list"
  ops :: "'a ct_op list"
  imaps :: "imap_fp list"
  icontended :: "int set list"
  frozen :: "caddr list"

record 'a cont =
  data :: vec
  orig :: vec
  trackers :: "caddr \<Rightarrow> 'a tracker option"
  latches :: "caddr \<Rightarrow> nat option"
  splinters :: "id32 \<Rightarrow> bool option"
  contended :: "int set"
  abandoned :: bool
  resolved :: bool

datatype resolution = Resolve caddr caddr | Resolve_monotonic caddr caddr

record 'a world =
  wheap :: "'a store"
  wnext :: id32
  conts :: "caddr \<Rightarrow> 'a cont option"
  wfresh :: caddr
  resns :: "resolution list"

definition put_cont :: "caddr \<Rightarrow> 'a cont \<Rightarrow> 'a world \<Rightarrow> 'a world" where
  "put_cont a c w = w\<lparr>conts := (conts w)(a \<mapsto> c)\<rparr>"

definition put_tracker :: "caddr \<Rightarrow> caddr \<Rightarrow> 'a tracker \<Rightarrow> 'a world \<Rightarrow> 'a world option" where
  "put_tracker this dep t w = do {
     c \<leftarrow> conts w this; Some (put_cont this (c\<lparr>trackers := (trackers c)(dep \<mapsto> t)\<rparr>) w) }"

definition find_tracker :: "caddr \<Rightarrow> caddr \<Rightarrow> 'a world \<Rightarrow> 'a tracker option" where
  "find_tracker this dep w = do { c \<leftarrow> conts w this; trackers c dep }"

section \<open>Construction\<close>

text \<open>\<open>std::array<tr_vector<T>, HWCONC>\<close>: each element takes an id.\<close>

fun new_vecs :: "nat \<Rightarrow> nat \<Rightarrow> ('a::zero) store \<Rightarrow> id32 \<Rightarrow> vec list \<times> 'a store \<times> id32" where
  "new_vecs B 0 h c = ([], h, c)"
| "new_vecs B (Suc n) h c =
    (let (v, h, c) = tr_new B h c; (vs, h, c) = new_vecs B n h c in (v # vs, h, c))"

definition new_tracker ::
    "nat \<Rightarrow> nat \<Rightarrow> imap_fp \<Rightarrow> 'a ct_op \<Rightarrow> ('a::zero) world \<Rightarrow> 'a tracker \<times> 'a world" where
  "new_tracker B H imap op w =
    (let (vs, h, c) = new_vecs B H (wheap w) (wnext w)
     in (\<lparr>used = vs, ops = [op], imaps = [imap], icontended = [{}], frozen = []\<rparr>,
         w\<lparr>wheap := h, wnext := c\<rparr>))"

definition empty_cont :: "vec \<Rightarrow> vec \<Rightarrow> 'a cont" where
  "empty_cont d og = \<lparr>data = d, orig = og, trackers = (\<lambda>_. None), latches = (\<lambda>_. None),
     splinters = (\<lambda>_. None), contended = {}, abandoned = False, resolved = False\<rparr>"

definition add_cont :: "'a cont \<Rightarrow> 'a world \<Rightarrow> caddr \<times> 'a world" where
  "add_cont c w = (wfresh w, (put_cont (wfresh w) c w)\<lparr>wfresh := Suc (wfresh w)\<rparr>)"

text \<open>\<open>cont_vector()\<close> and \<open>cont_vector(const cont_vector &)\<close>.\<close>

definition cont_new :: "nat \<Rightarrow> ('a::zero) world \<Rightarrow> caddr \<times> 'a world" where
  "cont_new B w =
    (let (d, h, c) = tr_new B (wheap w) (wnext w); (og, h, c) = tr_new B h c
     in add_cont (empty_cont d og) (w\<lparr>wheap := h, wnext := c\<rparr>))"

definition cont_copy :: "nat \<Rightarrow> caddr \<Rightarrow> ('a::zero) world \<Rightarrow> (caddr \<times> 'a world) option" where
  "cont_copy B other w = do {
     oc \<leftarrow> conts w other;
     Some (let (d, c) = new_id (wnext w) (data oc); (og, h, c) = tr_new B (wheap w) c
           in add_cont (empty_cont d og) (w\<lparr>wheap := h, wnext := c\<rparr>)) }"

text \<open>
  \<open>operator=\<close> takes its argument by value. The destructor waits on every latch; one that is not open
  blocks.
\<close>

definition cont_assign :: "nat \<Rightarrow> caddr \<Rightarrow> caddr \<Rightarrow> ('a::zero) world \<Rightarrow> 'a world option" where
  "cont_assign B this other w = do {
     (cp, w1) \<leftarrow> cont_copy B other w;
     oc \<leftarrow> conts w1 cp; c \<leftarrow> conts w1 this;
     (d, n) \<leftarrow> Some (new_id (wnext w1) (data oc));
     Some (w1\<lparr>conts := (conts w1)(this \<mapsto> c\<lparr>data := d\<rparr>, cp := None), wnext := n\<rparr>) }"

definition cont_destroy :: "caddr \<Rightarrow> 'a world \<Rightarrow> 'a world option" where
  "cont_destroy this w = do {
     c \<leftarrow> conts w this;
     if list_all (\<lambda>d. latches c d \<in> {None, Some 0}) [0..<wfresh w]
     then Some (w\<lparr>conts := (conts w)(this := None)\<rparr>) else None }"

definition unprotected_set :: "nat \<Rightarrow> caddr \<Rightarrow> nat \<Rightarrow> 'a \<Rightarrow> 'a world \<Rightarrow> 'a world option" where
  "unprotected_set B a i x w = do {
     c \<leftarrow> conts w a; (d, h) \<leftarrow> tr_mut_set B (wheap w) (data c) i x;
     Some (put_cont a (c\<lparr>data := d\<rparr>) (w\<lparr>wheap := h\<rparr>)) }"

definition unprotected_push_back :: "nat \<Rightarrow> caddr \<Rightarrow> 'a \<Rightarrow> ('a::zero) world \<Rightarrow> 'a world option" where
  "unprotected_push_back B a x w = do {
     c \<leftarrow> conts w a; (d, h) \<leftarrow> tr_mut_push_back B (wheap w) (data c) x;
     Some (put_cont a (c\<lparr>data := d\<rparr>) (w\<lparr>wheap := h\<rparr>)) }"

text \<open>\<open>splt_vector\<close>: a new id for the vector it works on, and \<open>comp\<close> / \<open>mut_comp\<close>.\<close>

definition splt_new :: "id32 \<Rightarrow> vec \<Rightarrow> 'a ct_op list \<Rightarrow> 'a splt_vector \<times> id32" where
  "splt_new c v os = (let (d, c') = new_id c v in (\<lparr>sdata = d, sops = os\<rparr>, c'))"

definition splt_mut_comp :: "nat \<Rightarrow> 'a store \<Rightarrow> 'a splt_vector \<Rightarrow> nat \<Rightarrow> 'a \<Rightarrow> ('a splt_vector \<times> 'a store) option" where
  "splt_mut_comp B h s i x = do {
     op \<leftarrow> nth_opt (sops s) 0; y \<leftarrow> vget B h (sdata s) i;
     (d, h') \<leftarrow> tr_mut_set B h (sdata s) i (op_f op y x);
     Some (s\<lparr>sdata := d\<rparr>, h') }"

section \<open>freeze\<close>

text \<open>\<open>emplace\<close> keeps an entry that exists.\<close>

definition emplace :: "'k \<Rightarrow> 'v \<Rightarrow> ('k \<Rightarrow> 'v option) \<Rightarrow> 'k \<Rightarrow> 'v option" where
  "emplace k x m = (if m k = None then m(k \<mapsto> x) else m)"

definition add_latch :: "caddr \<Rightarrow> nat \<Rightarrow> 'a world \<Rightarrow> 'a world option" where
  "add_latch dep n w = do {
     d \<leftarrow> conts w dep; Some (put_cont dep (d\<lparr>latches := emplace dep n (latches d)\<rparr>) w) }"

definition emplace_tracker ::
    "nat \<Rightarrow> nat \<Rightarrow> caddr \<Rightarrow> caddr \<Rightarrow> imap_fp \<Rightarrow> 'a ct_op \<Rightarrow> ('a::zero) world \<Rightarrow> (bool \<times> 'a world) option" where
  "emplace_tracker B H this dep imap op w =
    (case find_tracker this dep w of
       Some t \<Rightarrow> Some (False, w)
     | None \<Rightarrow> (let (t, w1) = new_tracker B H imap op w
               in do { w2 \<leftarrow> put_tracker this dep t w1; Some (True, w2) }))"

definition freeze ::
    "nat \<Rightarrow> nat \<Rightarrow> caddr \<Rightarrow> caddr \<Rightarrow> imap_fp \<Rightarrow> 'a ct_op \<Rightarrow> bool \<Rightarrow> ('a::zero) world \<Rightarrow> 'a world option" where
  "freeze B H this dep imap op onto w = do {
     (ins, w1) \<leftarrow> emplace_tracker B H this dep imap op w;
     w2 \<leftarrow> add_latch dep H w1;
     if is_monotonic imap then Some w2
     else do {
       c \<leftarrow> conts w2 this;
       (d, n) \<leftarrow> Some (new_id (wnext w2) (data c));
       w3 \<leftarrow> Some (put_cont this (c\<lparr>orig := data c, data := d\<rparr>) (w2\<lparr>wnext := n\<rparr>));
       if onto then do {
         dc \<leftarrow> conts w3 dep;
         (e, n) \<leftarrow> Some (new_id (wnext w3) d);
         Some (put_cont dep (dc\<lparr>data := e\<rparr>) (w3\<lparr>wnext := n\<rparr>)) }
       else Some w3 } }"

text \<open>The other \<open>freeze\<close>: a further dependency of \<open>dep\<close>, on \<open>this\<close> beside \<open>cont\<close>.\<close>

definition freeze_on ::
    "nat \<Rightarrow> nat \<Rightarrow> caddr \<Rightarrow> caddr \<Rightarrow> caddr \<Rightarrow> imap_fp \<Rightarrow> 'a ct_op \<Rightarrow> ('a::zero) world \<Rightarrow> 'a world option" where
  "freeze_on B H this cont dep imap op w = do {
     (ins, w1) \<leftarrow> emplace_tracker B H this dep imap op w;
     w2 \<leftarrow> (if \<not> ins
       then do {
         t \<leftarrow> find_tracker this dep w1;
         put_tracker this dep (t\<lparr>imaps := imaps t @ [imap], icontended := icontended t @ [{}],
           ops := ops t @ [op]\<rparr>) w1 }
       else do {
         t \<leftarrow> find_tracker cont dep w1;
         put_tracker cont dep (t\<lparr>frozen := frozen t @ [this]\<rparr>) w1 });
     add_latch dep 0 w2 }"

section \<open>detach and refresh\<close>

definition set_used :: "nat \<Rightarrow> vec \<Rightarrow> 'a tracker \<Rightarrow> 'a tracker option" where
  "set_used p v t = (if p < length (used t) then Some (t\<lparr>used := (used t)[p := v]\<rparr>) else None)"

definition detach :: "caddr \<Rightarrow> caddr \<Rightarrow> nat \<Rightarrow> 'a world \<Rightarrow> ('a splt_vector \<times> 'a world) option" where
  "detach this dep p w = do {
     c \<leftarrow> conts w this;
     t \<leftarrow> trackers c dep;
     imap \<leftarrow> nth_opt (imaps t) 0;
     (v, c1, w1) \<leftarrow> Some (if \<not> is_monotonic imap then (orig c, c, w)
       else (let (d, n) = new_id (wnext w) (data c) in (data c, c\<lparr>data := d\<rparr>, w\<lparr>wnext := n\<rparr>)));
     t1 \<leftarrow> set_used p v t;
     w2 \<leftarrow> Some (put_cont this (c1\<lparr>trackers := (trackers c1)(dep \<mapsto> t1)\<rparr>) w1);
     (s, n) \<leftarrow> Some (splt_new (wnext w2) v (ops t1));
     d \<leftarrow> conts w2 dep;
     Some (s, put_cont dep (d\<lparr>splinters := emplace (vid (sdata s)) False (splinters d)\<rparr>)
       (w2\<lparr>wnext := n\<rparr>)) }"

definition refresh :: "nat \<Rightarrow> caddr \<Rightarrow> caddr \<Rightarrow> nat \<Rightarrow> nat \<Rightarrow> nat \<Rightarrow> 'a world \<Rightarrow> 'a world option" where
  "refresh B this dep p a b w = do {
     c \<leftarrow> conts w this;
     case trackers c dep of
       None \<Rightarrow> Some w
     | Some t \<Rightarrow> do {
         v \<leftarrow> nth_opt (used t) p;
         (v', h) \<leftarrow> assign B tr_vector (wheap w) v (data c) a b;
         t' \<leftarrow> set_used p v' t;
         put_tracker this dep t' (w\<lparr>wheap := h\<rparr>) } }"

section \<open>reattach\<close>

text \<open>\<open>for (i = a; i < b; ++i)\<close>: the change of the splinter at \<open>i\<close> goes onto the dependent.\<close>

function merge_loop ::
    "nat \<Rightarrow> 'a ct_op \<Rightarrow> 'a store \<Rightarrow> vec \<Rightarrow> vec \<Rightarrow> vec \<Rightarrow> nat \<Rightarrow> nat \<Rightarrow> (vec \<times> 'a store) option" where
  "merge_loop B op h dv sv uv i b =
    (if b \<le> i then Some (dv, h)
     else do {
       x \<leftarrow> vget B h sv i; y \<leftarrow> vget B h uv i;
       diff \<leftarrow> Some (op_inv op x y);
       (dv', h') \<leftarrow> (if diff \<noteq> op_identity op
         then do { z \<leftarrow> vget B h dv i; tr_mut_set B h dv i (op_f op z diff) }
         else Some (dv, h));
       merge_loop B op h' dv' sv uv (Suc i) b })"
  by pat_completeness auto
termination by (relation "measure (\<lambda>(B, op, h, dv, sv, uv, i, b). b - i)") auto

declare merge_loop.simps [simp del]

text \<open>The part of \<open>reattach\<close> under the lock of \<open>dep\<close>.\<close>

definition join_splinter ::
    "nat \<Rightarrow> 'a splt_vector \<Rightarrow> 'a tracker \<Rightarrow> nat \<Rightarrow> nat \<Rightarrow> nat \<Rightarrow> 'a store \<Rightarrow> vec \<Rightarrow> (vec \<times> 'a store) option" where
  "join_splinter B s t p a b h dv = do {
     op \<leftarrow> nth_opt (ops t) 0;
     imap \<leftarrow> nth_opt (imaps t) 0;
     if is_monotonic imap then assign B tr_vector h dv (sdata s) a b
     else do { u \<leftarrow> nth_opt (used t) p; merge_loop B op h dv (sdata s) u a b } }"

text \<open>\<open>count_down\<close> (which asserts that the count is positive) and \<open>try_wait\<close>.\<close>

definition count_down :: "caddr \<Rightarrow> 'a world \<Rightarrow> (bool \<times> 'a world) option" where
  "count_down dep w = do {
     d \<leftarrow> conts w dep;
     n \<leftarrow> latches d dep;
     if n = 0 then None
     else Some (n = 1, put_cont dep (d\<lparr>latches := (latches d)(dep \<mapsto> n - 1)\<rparr>) w) }"

definition reattach ::
    "nat \<Rightarrow> 'a splt_vector \<Rightarrow> caddr \<Rightarrow> caddr \<Rightarrow> nat \<Rightarrow> nat \<Rightarrow> nat \<Rightarrow> 'a world \<Rightarrow> 'a world option" where
  "reattach B s this dep p a b w = do {
     t \<leftarrow> find_tracker this dep w;
     d \<leftarrow> conts w dep;
     w1 \<leftarrow> (case splinters d (vid (sdata s)) of
         None \<Rightarrow> Some w
       | Some f \<Rightarrow> do {
           (dv, h) \<leftarrow> join_splinter B s t p a b (wheap w) (data d);
           Some (put_cont dep (d\<lparr>data := dv, splinters := (splinters d)(vid (sdata s) \<mapsto> True)\<rparr>)
             (w\<lparr>wheap := h\<rparr>)) });
     (fin, w2) \<leftarrow> count_down dep w1;
     imap \<leftarrow> nth_opt (imaps t) 0;
     Some (if fin
       then w2\<lparr>resns := resns w2 @
         [if is_monotonic imap then Resolve_monotonic this dep else Resolve this dep]\<rparr>
       else w2) }"

section \<open>resolve\<close>

text \<open>An int64_t added to an iterator becomes a size_t.\<close>

definition size_of_int64 :: "int \<Rightarrow> nat" where
  "size_of_int64 c = unat (word_of_int c :: 64 word)"

text \<open>The value at \<open>cbegin() + c\<close>.\<close>

definition read_at :: "nat \<Rightarrow> 'a store \<Rightarrow> vec \<Rightarrow> nat \<Rightarrow> 'a option" where
  "read_at B h v c = do { it \<leftarrow> cbegin B h v; it' \<leftarrow> citer_add B h it c; it_deref h it' }"

text \<open>The loop over the changed indices; \<open>tgt\<close> is the place of the target.\<close>

partial_function (option) resolve_loop ::
    "nat \<Rightarrow> 'a ct_op \<Rightarrow> 'a store \<Rightarrow> vec \<Rightarrow> vec \<Rightarrow> iter \<Rightarrow> nat \<Rightarrow> 'a store option" where
  "resolve_loop B op h ov cv tgt c =
    (if c = sz cv then Some h
     else do {
       x \<leftarrow> read_at B h cv c;
       y \<leftarrow> read_at B h ov c;
       diff \<leftarrow> Some (op_inv op x y);
       h' \<leftarrow> (if diff \<noteq> op_identity op
         then do { z \<leftarrow> it_deref h tgt; it_assign h tgt (op_f op z diff) }
         else Some h);
       j \<leftarrow> next_diff_ids B h' ov cv (Suc c);
       resolve_loop B op h' ov cv tgt (size_of_int32 j) })"

declare resolve_loop.simps [code]

text \<open>\<open>resolved = true; if (abandoned) delete this\<close>\<close>

definition mark_resolved :: "caddr \<Rightarrow> 'a world \<Rightarrow> 'a world option" where
  "mark_resolved this w = do {
     c \<leftarrow> conts w this;
     Some (if abandoned c then w\<lparr>conts := (conts w)(this := None)\<rparr>
       else put_cont this (c\<lparr>resolved := True\<rparr>) w) }"

definition resolve_onto :: "nat \<Rightarrow> caddr \<Rightarrow> caddr \<Rightarrow> 'a world \<Rightarrow> 'a world option" where
  "resolve_onto B this dep w = do {
     c \<leftarrow> conts w this; t \<leftarrow> trackers c dep;
     op \<leftarrow> nth_opt (ops t) 0; imap \<leftarrow> nth_opt (imaps t) 0;
     d \<leftarrow> conts w dep;
     (it, dv, h1) \<leftarrow> it_begin B (wheap w) (data d);
     (tgt, h2) \<leftarrow> iter_add B h1 it (size_of_int64 (imap 0));
     j \<leftarrow> next_diff_ids B h2 (orig c) (data c) 0;
     h3 \<leftarrow> resolve_loop B op h2 (orig c) (data c) tgt (size_of_int32 j);
     mark_resolved this (put_cont dep (d\<lparr>data := dv\<rparr>) (w\<lparr>wheap := h3\<rparr>)) }"

section \<open>resolve\_monotonic\<close>

text \<open>The indices whose images lie in other chunks than they themselves.\<close>

definition contended_cells :: "nat \<Rightarrow> nat \<Rightarrow> imap_fp \<Rightarrow> int list" where
  "contended_cells H n imap = concat (map (\<lambda>p.
     (let (a, b) = partition H p n;
          (adom, aran) = safe_mapping imap (int a) 0 (int n);
          (bdom, bran) = safe_mapping imap (int b) 0 (int n)
      in [adom..aran - 1] @ [bran..bdom - 1])) [0..<H])"

text \<open>The last worker whose chunk contains an index, or else \<open>p0\<close>.\<close>

definition chunk_owner :: "nat \<Rightarrow> nat \<Rightarrow> int \<Rightarrow> nat \<Rightarrow> nat" where
  "chunk_owner H n cmap p0 = foldl (\<lambda>p pi. let (a, b) = partition H pi n
     in if int a \<le> cmap \<and> cmap < int b then pi else p) p0 [0..<H]"

text \<open>One index: the change from \<open>used[p]\<close> to \<open>this\<close> at \<open>c\<close> goes onto \<open>dep\<close> at \<open>cmap\<close>.\<close>

definition resolve_cell ::
    "nat \<Rightarrow> 'a ct_op \<Rightarrow> vec \<Rightarrow> vec list \<Rightarrow> nat \<Rightarrow> int \<Rightarrow> int \<Rightarrow> vec \<times> 'a store \<times> int set \<Rightarrow>
      (vec \<times> 'a store \<times> int set) option" where
  "resolve_cell B op cv us p c cmap s = (case s of (dv, h, acc) \<Rightarrow> do {
     (it0, dv, h) \<leftarrow> it_begin B h dv;
     (it, h) \<leftarrow> iter_add B h it0 (size_of_int64 cmap);
     x \<leftarrow> read_at B h cv (size_of_int64 c);
     uv \<leftarrow> nth_opt us p;
     y \<leftarrow> read_at B h uv (size_of_int64 c);
     diff \<leftarrow> Some (op_inv op x y);
     if diff \<noteq> op_identity op
     then do { z \<leftarrow> it_deref h it; h \<leftarrow> it_assign h it (op_f op z diff); Some (dv, h, insert cmap acc) }
     else Some (dv, h, acc) })"

definition out_of_dep :: "int \<Rightarrow> vec \<Rightarrow> bool" where
  "out_of_dep cmap dv \<longleftrightarrow> cmap < 0 \<or> int (sz dv) < cmap"

text \<open>The loop over the contended indices of an index map, which asserts that a chunk is found, and
  the loop over the indices earlier resolutions changed, which does not and keeps \<open>p\<close>.\<close>

fun resolve_icontended ::
    "nat \<Rightarrow> nat \<Rightarrow> 'a ct_op \<Rightarrow> imap_fp \<Rightarrow> vec \<Rightarrow> vec list \<Rightarrow> int list \<Rightarrow> nat \<times> vec \<times> 'a store \<times> int set \<Rightarrow>
      (nat \<times> vec \<times> 'a store \<times> int set) option" where
  "resolve_icontended B H op imap cv us [] s = Some s"
| "resolve_icontended B H op imap cv us (c # cs) (p, dv, h, acc) =
    (if out_of_dep (imap c) dv then resolve_icontended B H op imap cv us cs (H, dv, h, acc)
     else (let p = chunk_owner H (sz cv) (imap c) H
       in if p = H then None
          else do { s \<leftarrow> resolve_cell B op cv us p c (imap c) (dv, h, acc);
                    resolve_icontended B H op imap cv us cs (p, s) }))"

fun resolve_contended ::
    "nat \<Rightarrow> nat \<Rightarrow> 'a ct_op \<Rightarrow> imap_fp \<Rightarrow> vec \<Rightarrow> vec list \<Rightarrow> int set \<Rightarrow> int list \<Rightarrow>
      nat \<times> vec \<times> 'a store \<times> int set \<Rightarrow> (nat \<times> vec \<times> 'a store \<times> int set) option" where
  "resolve_contended B H op imap cv us ic [] s = Some s"
| "resolve_contended B H op imap cv us ic (c # cs) (p, dv, h, acc) =
    (if out_of_dep (imap c) dv \<or> c \<in> ic then resolve_contended B H op imap cv us ic cs (p, dv, h, acc)
     else (let p = chunk_owner H (sz cv) (imap c) p
       in do { s \<leftarrow> resolve_cell B op cv us p c (imap c) (dv, h, acc);
               resolve_contended B H op imap cv us ic cs (p, s) }))"

text \<open>One index map \<open>i\<close> of the tracker; sets are iterated in order.\<close>

definition resolve_imap :: "nat \<Rightarrow> nat \<Rightarrow> caddr \<Rightarrow> caddr \<Rightarrow> nat \<Rightarrow> 'a world \<Rightarrow> 'a world option" where
  "resolve_imap B H this dep i w = do {
     c \<leftarrow> conts w this; t \<leftarrow> trackers c dep;
     op \<leftarrow> nth_opt (ops t) i; imap \<leftarrow> nth_opt (imaps t) i; ic0 \<leftarrow> nth_opt (icontended t) i;
     ic \<leftarrow> Some (ic0 \<union> set (contended_cells H (sz (data c)) imap));
     w1 \<leftarrow> put_tracker this dep (t\<lparr>icontended := (icontended t)[i := ic]\<rparr>) w;
     d \<leftarrow> conts w1 dep;
     s \<leftarrow> resolve_icontended B H op imap (data c) (used t) (sorted_list_of_set ic)
       (H, data d, wheap w1, contended d);
     (p, dv, h, acc) \<leftarrow> resolve_contended B H op imap (data c) (used t) ic
       (sorted_list_of_set (contended c)) s;
     Some (put_cont dep (d\<lparr>data := dv, contended := acc\<rparr>) (w1\<lparr>wheap := h\<rparr>)) }"

fun resolve_imaps :: "nat \<Rightarrow> nat \<Rightarrow> caddr \<Rightarrow> caddr \<Rightarrow> nat list \<Rightarrow> 'a world \<Rightarrow> 'a world option" where
  "resolve_imaps B H this dep [] w = Some w"
| "resolve_imaps B H this dep (i # is) w =
    do { w1 \<leftarrow> resolve_imap B H this dep i w; resolve_imaps B H this dep is w1 }"

definition resolve_monotonic_onto :: "nat \<Rightarrow> nat \<Rightarrow> caddr \<Rightarrow> caddr \<Rightarrow> 'a world \<Rightarrow> 'a world option" where
  "resolve_monotonic_onto B H this dep w = do {
     t \<leftarrow> find_tracker this dep w;
     w1 \<leftarrow> resolve_imaps B H this dep [0..<length (imaps t)] w;
     mark_resolved this w1 }"

section \<open>The two resolutions, after the helper dependencies\<close>

datatype resolve_call = Res caddr | Drain caddr

text \<open>\<open>while (frozen.size() > 0) { ff = front; erase; ff->resolve(dep); }\<close> and the rest. A latch that
  is not open blocks.\<close>

partial_function (option) resolve_with ::
    "(caddr \<Rightarrow> caddr \<Rightarrow> 'a world \<Rightarrow> 'a world option) \<Rightarrow> caddr \<Rightarrow> resolve_call \<Rightarrow> 'a world \<Rightarrow> 'a world option" where
  "resolve_with onto dep call w =
    (case call of
       Res this \<Rightarrow> do {
         t \<leftarrow> find_tracker this dep w;
         d \<leftarrow> conts w dep; n \<leftarrow> latches d dep;
         if n \<noteq> 0 then None
         else do { w1 \<leftarrow> resolve_with onto dep (Drain this) w; onto this dep w1 } }
     | Drain this \<Rightarrow> do {
         t \<leftarrow> find_tracker this dep w;
         case frozen t of
           [] \<Rightarrow> Some w
         | ff # fs \<Rightarrow> do {
             w1 \<leftarrow> put_tracker this dep (t\<lparr>frozen := fs\<rparr>) w;
             w2 \<leftarrow> resolve_with onto dep (Res ff) w1;
             resolve_with onto dep (Drain this) w2 } })"

declare resolve_with.simps [code]

definition resolve :: "nat \<Rightarrow> caddr \<Rightarrow> caddr \<Rightarrow> 'a world \<Rightarrow> 'a world option" where
  "resolve B this dep = resolve_with (resolve_onto B) dep (Res this)"

definition resolve_monotonic :: "nat \<Rightarrow> nat \<Rightarrow> caddr \<Rightarrow> caddr \<Rightarrow> 'a world \<Rightarrow> 'a world option" where
  "resolve_monotonic B H this dep = resolve_with (resolve_monotonic_onto B H) dep (Res this)"

definition abandon :: "caddr \<Rightarrow> 'a world \<Rightarrow> 'a world option" where
  "abandon this w = do {
     c \<leftarrow> conts w this; Some (put_cont this (c\<lparr>resolved := False, abandoned := True\<rparr>) w) }"

end
