(* ===== verification/Cont_Splt.thy ===== *)
theory Cont_Splt imports
  Cont_Vector
begin

text \<open>
  The work of the threads on a \<open>cont_vector\<close> (the \<open>_splt\<close> functions of contentious/contentious.h)
  and the operations that start it: \<open>reduce\<close>, \<open>foreach\<close> and \<open>stencil\<close> of
  contentious/cont_vector-impl.h. The closures they submit are values of \<open>task\<close>, queued per worker.
\<close>

section \<open>Loops over iterators\<close>

text \<open>\<open>temp += *it\<close>, \<open>*it *= val\<close>, \<open>*it *= *trck\<close>.\<close>

partial_function (option) sum_loop :: "nat \<Rightarrow> ('a::plus) store \<Rightarrow> 'a \<Rightarrow> iter \<Rightarrow> iter \<Rightarrow> 'a option" where
  "sum_loop B h temp it e =
    (if it_eq it e then Some temp
     else do { x \<leftarrow> it_deref h it; it' \<leftarrow> citer_inc B h it; sum_loop B h (temp + x) it' e })"

partial_function (option) scale_loop :: "nat \<Rightarrow> ('a::times) store \<Rightarrow> 'a \<Rightarrow> iter \<Rightarrow> iter \<Rightarrow> 'a store option" where
  "scale_loop B h x it e =
    (if it_eq it e then Some h
     else do { y \<leftarrow> it_deref h it; h1 \<leftarrow> it_assign h it (y * x);
               (it', h2) \<leftarrow> iter_inc B h1 it; scale_loop B h2 x it' e })"

partial_function (option) times_loop ::
    "nat \<Rightarrow> ('a::times) store \<Rightarrow> iter \<Rightarrow> iter \<Rightarrow> iter \<Rightarrow> 'a store option" where
  "times_loop B h trck it e =
    (if it_eq it e then Some h
     else do { y \<leftarrow> it_deref h it; x \<leftarrow> it_deref h trck; h1 \<leftarrow> it_assign h it (y * x);
               (it', h2) \<leftarrow> iter_inc B h1 it; trck' \<leftarrow> citer_inc B h2 trck;
               times_loop B h2 trck' it' e })"

text \<open>\<open>target += 0.4 * (*(trck) + -2 * *(trck+1) + *(trck+2))\<close>; the factor is \<open>k\<close>.\<close>

definition stencil_value :: "nat \<Rightarrow> ('a::comm_ring_1) store \<Rightarrow> 'a \<Rightarrow> iter \<Rightarrow> 'a option" where
  "stencil_value B h k trck = do {
     x0 \<leftarrow> it_deref h trck;
     t1 \<leftarrow> citer_add B h trck 1; x1 \<leftarrow> it_deref h t1;
     t2 \<leftarrow> citer_add B h trck 2; x2 \<leftarrow> it_deref h t2;
     Some (k * (x0 + - 2 * x1 + x2)) }"

partial_function (option) stencil_loop ::
    "nat \<Rightarrow> ('a::comm_ring_1) store \<Rightarrow> 'a \<Rightarrow> iter \<Rightarrow> iter \<Rightarrow> iter \<Rightarrow> 'a store option" where
  "stencil_loop B h k trck it e =
    (if it_eq it e then Some h
     else do { y \<leftarrow> it_deref h it; x \<leftarrow> stencil_value B h k trck; h1 \<leftarrow> it_assign h it (y + x);
               (it', h2) \<leftarrow> iter_inc B h1 it; trck' \<leftarrow> citer_inc B h2 trck;
               stencil_loop B h2 k trck' it' e })"

declare sum_loop.simps [code] scale_loop.simps [code] times_loop.simps [code] stencil_loop.simps [code]

section \<open>The tasks\<close>

definition data_size :: "caddr \<Rightarrow> 'a world \<Rightarrow> nat option" where
  "data_size this w = do { c \<leftarrow> conts w this; Some (sz (data c)) }"

definition used_at :: "caddr \<Rightarrow> caddr \<Rightarrow> nat \<Rightarrow> 'a world \<Rightarrow> vec option" where
  "used_at this dep p w = do { t \<leftarrow> find_tracker this dep w; nth_opt (used t) p }"

text \<open>\<open>begin() + a\<close> and \<open>begin() + b\<close> of a splinter, the end first.\<close>

definition mut_range ::
    "nat \<Rightarrow> 'a store \<Rightarrow> vec \<Rightarrow> nat \<Rightarrow> nat \<Rightarrow> (iter \<times> iter \<times> vec \<times> 'a store) option" where
  "mut_range B h v a b = do {
     (e0, v, h) \<leftarrow> it_begin B h v; (e, h) \<leftarrow> iter_add B h e0 b;
     (i0, v, h) \<leftarrow> it_begin B h v; (it, h) \<leftarrow> iter_add B h i0 a;
     Some (it, e, v, h) }"

text \<open>The part of \<open>reduce_splt\<close> before \<open>reattach\<close>, on the worker's own splinter.\<close>

definition reduce_work ::
    "nat \<Rightarrow> nat \<Rightarrow> caddr \<Rightarrow> caddr \<Rightarrow> nat \<Rightarrow> ('a::plus) world \<Rightarrow> ('a splt_vector \<times> 'a world) option" where
  "reduce_work B H this dep p w = do {
     n \<leftarrow> data_size this w;
     (a, b) \<leftarrow> Some (partition H p n);
     (s, w1) \<leftarrow> detach this dep p w;
     uv \<leftarrow> used_at this dep p w1;
     op \<leftarrow> nth_opt (sops s) 0;
     (it, sv, h1) \<leftarrow> it_begin B (wheap w1) (sdata s);
     temp \<leftarrow> it_deref h1 it;
     u0 \<leftarrow> cbegin B h1 uv;
     e \<leftarrow> citer_add B h1 u0 b;
     u1 \<leftarrow> citer_add B h1 u0 a;
     temp \<leftarrow> sum_loop B h1 temp u1 e;
     h2 \<leftarrow> it_assign h1 it temp;
     Some (s\<lparr>sdata := sv\<rparr>, w1\<lparr>wheap := h2\<rparr>) }"

definition reduce_splt :: "nat \<Rightarrow> nat \<Rightarrow> caddr \<Rightarrow> caddr \<Rightarrow> nat \<Rightarrow> ('a::plus) world \<Rightarrow> 'a world option" where
  "reduce_splt B H this dep p w = do {
     (s, w1) \<leftarrow> reduce_work B H this dep p w;
     reattach B s this dep p 0 1 w1 }"

text \<open>The same split of \<open>foreach_splt\<close>; the bounds of the chunk come with the splinter.\<close>

definition foreach_work ::
    "nat \<Rightarrow> nat \<Rightarrow> caddr \<Rightarrow> caddr \<Rightarrow> nat \<Rightarrow> 'a \<Rightarrow> ('a::times) world \<Rightarrow>
      (('a splt_vector \<times> nat \<times> nat) \<times> 'a world) option" where
  "foreach_work B H this dep p x w = do {
     n \<leftarrow> data_size this w;
     (a, b) \<leftarrow> Some (partition H p n);
     (s, w1) \<leftarrow> detach this dep p w;
     op \<leftarrow> nth_opt (sops s) 0;
     (it, e, sv, h1) \<leftarrow> mut_range B (wheap w1) (sdata s) a b;
     h2 \<leftarrow> scale_loop B h1 x it e;
     Some ((s\<lparr>sdata := sv\<rparr>, a, b), w1\<lparr>wheap := h2\<rparr>) }"

definition foreach_splt :: "nat \<Rightarrow> nat \<Rightarrow> caddr \<Rightarrow> caddr \<Rightarrow> nat \<Rightarrow> 'a \<Rightarrow> ('a::times) world \<Rightarrow> 'a world option" where
  "foreach_splt B H this dep p x w = do {
     ((s, a, b), w1) \<leftarrow> foreach_work B H this dep p x w;
     reattach B s this dep p a b w1 }"

definition foreach_splt_cvec ::
    "nat \<Rightarrow> nat \<Rightarrow> caddr \<Rightarrow> caddr \<Rightarrow> nat \<Rightarrow> caddr \<Rightarrow> ('a::times) world \<Rightarrow> 'a world option" where
  "foreach_splt_cvec B H this dep p other w = do {
     n \<leftarrow> data_size this w;
     (a, b) \<leftarrow> Some (partition H p n);
     t \<leftarrow> find_tracker other dep w;
     imap \<leftarrow> nth_opt (imaps t) 0;
     (adom, aran) \<leftarrow> Some (safe_mapping imap (int a) 0 (int n));
     (bdom, bran) \<leftarrow> Some (safe_mapping imap (int b) 0 (int n));
     (s, w1) \<leftarrow> detach this dep p w;
     op \<leftarrow> nth_opt (sops s) 0;
     oc \<leftarrow> conts w1 other;
     t0 \<leftarrow> cbegin B (wheap w1) (data oc);
     trck \<leftarrow> citer_add B (wheap w1) t0 (size_of_int64 adom);
     (it, e, sv, h1) \<leftarrow> mut_range B (wheap w1) (sdata s) (size_of_int64 aran) (size_of_int64 bran);
     h2 \<leftarrow> times_loop B h1 trck it e;
     reattach B (s\<lparr>sdata := sv\<rparr>) this dep p a b (w1\<lparr>wheap := h2\<rparr>) }"

definition stencil_work ::
    "nat \<Rightarrow> nat \<Rightarrow> nat \<Rightarrow> 'a \<Rightarrow> caddr \<Rightarrow> caddr \<Rightarrow> nat \<Rightarrow> ('a::comm_ring_1) world \<Rightarrow>
      (('a splt_vector \<times> nat \<times> nat) \<times> 'a world) option" where
  "stencil_work B H NS k this dep p w = do {
     n \<leftarrow> data_size this w;
     (a, b) \<leftarrow> Some (partition H p n);
     t \<leftarrow> find_tracker this dep w;
     if NS = 0 \<or> length (imaps t) \<le> NS then None
     else do {
       is \<leftarrow> Some (take NS (drop 1 (imaps t)));
       arans \<leftarrow> Some (map (\<lambda>imap. snd (safe_mapping imap (int a) 0 (int n))) is);
       brans \<leftarrow> Some (map (\<lambda>imap. snd (safe_mapping imap (int b) 0 (int n))) is);
       os0 \<leftarrow> Some (int a - hd is (int a));
       ap \<leftarrow> Some (Max (set arans));
       bp \<leftarrow> Some (Min (set brans));
       (s, w1) \<leftarrow> detach this dep p w;
       uv \<leftarrow> used_at this dep p w1;
       t0 \<leftarrow> cbegin B (wheap w1) uv;
       trck \<leftarrow> citer_add B (wheap w1) t0 (size_of_int64 (ap + os0));
       (it, e, sv, h1) \<leftarrow> mut_range B (wheap w1) (sdata s) (size_of_int64 ap) (size_of_int64 bp);
       h2 \<leftarrow> stencil_loop B h1 k trck it e;
       Some ((s\<lparr>sdata := sv\<rparr>, a, b), w1\<lparr>wheap := h2\<rparr>) } }"

definition stencil_splt ::
    "nat \<Rightarrow> nat \<Rightarrow> nat \<Rightarrow> 'a \<Rightarrow> caddr \<Rightarrow> caddr \<Rightarrow> nat \<Rightarrow> ('a::comm_ring_1) world \<Rightarrow> 'a world option" where
  "stencil_splt B H NS k this dep p w = do {
     ((s, a, b), w1) \<leftarrow> stencil_work B H NS k this dep p w;
     reattach B s this dep p a b w1 }"

datatype 'a task =
    Reduce_splt caddr caddr nat
  | Foreach_splt caddr caddr nat 'a
  | Foreach_splt_cvec caddr caddr nat caddr
  | Stencil_splt nat 'a caddr caddr nat

fun run_task :: "nat \<Rightarrow> nat \<Rightarrow> ('a::comm_ring_1) task \<Rightarrow> 'a world \<Rightarrow> 'a world option" where
  "run_task B H (Reduce_splt this dep p) w = reduce_splt B H this dep p w"
| "run_task B H (Foreach_splt this dep p x) w = foreach_splt B H this dep p x w"
| "run_task B H (Foreach_splt_cvec this dep p other) w = foreach_splt_cvec B H this dep p other w"
| "run_task B H (Stencil_splt NS k this dep p) w = stencil_splt B H NS k this dep p w"

fun run_resolution :: "nat \<Rightarrow> nat \<Rightarrow> resolution \<Rightarrow> 'a world \<Rightarrow> 'a world option" where
  "run_resolution B H (Resolve this dep) w = resolve B this dep w"
| "run_resolution B H (Resolve_monotonic this dep) w = resolve_monotonic B H this dep w"

section \<open>Starting the work\<close>

text \<open>The state with the queues of the workers, and \<open>exec_par\<close>.\<close>

record 'a ct_sys =
  wld :: "'a world"
  queues :: "'a task list list"

definition exec_par :: "(nat \<Rightarrow> 'a task) \<Rightarrow> 'a ct_sys \<Rightarrow> 'a ct_sys" where
  "exec_par f s = s\<lparr>queues := map (\<lambda>p. queues s ! p @ [f p]) [0..<length (queues s)]\<rparr>"

definition ct_reduce :: "nat \<Rightarrow> nat \<Rightarrow> 'a ct_op \<Rightarrow> caddr \<Rightarrow> ('a::zero) ct_sys \<Rightarrow> (caddr \<times> 'a ct_sys) option" where
  "ct_reduce B H op this s = do {
     (dep, w1) \<leftarrow> Some (cont_new B (wld s));
     w2 \<leftarrow> unprotected_push_back B dep (op_identity op) w1;
     w3 \<leftarrow> freeze B H this dep (alltoone 0) op False w2;
     Some (dep, exec_par (Reduce_splt this dep) (s\<lparr>wld := w3\<rparr>)) }"

definition ct_foreach ::
    "nat \<Rightarrow> nat \<Rightarrow> 'a ct_op \<Rightarrow> 'a \<Rightarrow> caddr \<Rightarrow> ('a::zero) ct_sys \<Rightarrow> (caddr \<times> 'a ct_sys) option" where
  "ct_foreach B H op x this s = do {
     (dep, w1) \<leftarrow> cont_copy B this (wld s);
     w2 \<leftarrow> freeze B H this dep identity op False w1;
     Some (dep, exec_par (\<lambda>p. Foreach_splt this dep p x) (s\<lparr>wld := w2\<rparr>)) }"

definition ct_foreach_cvec ::
    "nat \<Rightarrow> nat \<Rightarrow> 'a ct_op \<Rightarrow> caddr \<Rightarrow> caddr \<Rightarrow> ('a::zero) ct_sys \<Rightarrow> (caddr \<times> 'a ct_sys) option" where
  "ct_foreach_cvec B H op other this s = do {
     (dep, w1) \<leftarrow> cont_copy B this (wld s);
     w2 \<leftarrow> freeze B H this dep identity op False w1;
     w3 \<leftarrow> freeze_on B H other this dep identity op w2;
     Some (dep, exec_par (\<lambda>p. Foreach_splt_cvec this dep p other) (s\<lparr>wld := w3\<rparr>)) }"

text \<open>The loop over the offsets of a stencil freezes one more dependency for each.\<close>

fun freeze_offsets ::
    "nat \<Rightarrow> nat \<Rightarrow> caddr \<Rightarrow> caddr \<Rightarrow> int list \<Rightarrow> 'a list \<Rightarrow> ('a::comm_ring_1) world \<Rightarrow> 'a world option" where
  "freeze_offsets B H this dep (ofs # os) (k # ks) w = do {
     w1 \<leftarrow> freeze_on B H this this dep (offset ofs) (stencil_op k) w;
     freeze_offsets B H this dep os ks w1 }"
| "freeze_offsets B H this dep [] ks w = Some w"
| "freeze_offsets B H this dep (ofs # os) [] w = None"

definition ct_stencil ::
    "nat \<Rightarrow> nat \<Rightarrow> int list \<Rightarrow> 'a list \<Rightarrow> 'a \<Rightarrow> 'a ct_op \<Rightarrow> caddr \<Rightarrow> ('a::comm_ring_1) ct_sys \<Rightarrow>
      (caddr \<times> 'a ct_sys) option" where
  "ct_stencil B H offs coeffs k op2 this s = do {
     (dep, w1) \<leftarrow> cont_copy B this (wld s);
     w2 \<leftarrow> freeze B H this dep identity op2 False w1;
     w3 \<leftarrow> freeze_offsets B H this dep offs coeffs w2;
     Some (dep, exec_par (Stencil_splt (length offs) k this dep) (s\<lparr>wld := w3\<rparr>)) }"

section \<open>The earlier stencils\<close>

text \<open>
  \<open>stencil_old\<close> multiplies a copy of the vector by each coefficient and then, offset by offset, combines
  the copies into a chain of vectors. The arrays have as many entries as there are offsets: a
  coefficient too many is written past their end, for one too few a pointer is read that was never
  set, and without offsets the result was never set.
\<close>

fun old_coeff_vecs ::
    "nat \<Rightarrow> nat \<Rightarrow> 'a ct_op \<Rightarrow> caddr \<Rightarrow> 'a list \<Rightarrow> ('a::zero) ct_sys \<Rightarrow> (caddr list \<times> 'a ct_sys) option" where
  "old_coeff_vecs B H op1 this [] s = Some ([], s)"
| "old_coeff_vecs B H op1 this (k # ks) s = do {
     (v, w1) \<leftarrow> cont_copy B this (wld s);
     w2 \<leftarrow> freeze B H this v identity op1 False w1;
     (vs, s2) \<leftarrow> old_coeff_vecs B H op1 this ks (exec_par (\<lambda>p. Foreach_splt this v p k) (s\<lparr>wld := w2\<rparr>));
     Some (v # vs, s2) }"

fun old_chain ::
    "nat \<Rightarrow> nat \<Rightarrow> 'a ct_op \<Rightarrow> int list \<Rightarrow> caddr list \<Rightarrow> caddr \<Rightarrow> ('a::zero) ct_sys \<Rightarrow> (caddr \<times> 'a ct_sys) option" where
  "old_chain B H op2 [] vs cv s = Some (cv, s)"
| "old_chain B H op2 (ofs # os) [] cv s = None"
| "old_chain B H op2 (ofs # os) (v # vs) cv s = do {
     (nxt, w1) \<leftarrow> cont_copy B cv (wld s);
     w2 \<leftarrow> freeze B H cv nxt identity op2 False w1;
     w3 \<leftarrow> freeze_on B H v cv nxt (offset ofs) op2 w2;
     old_chain B H op2 os vs nxt (exec_par (\<lambda>p. Foreach_splt_cvec cv nxt p v) (s\<lparr>wld := w3\<rparr>)) }"

definition ct_stencil_old ::
    "nat \<Rightarrow> nat \<Rightarrow> int list \<Rightarrow> 'a list \<Rightarrow> 'a ct_op \<Rightarrow> 'a ct_op \<Rightarrow> caddr \<Rightarrow> ('a::zero) ct_sys \<Rightarrow>
      (caddr \<times> 'a ct_sys) option" where
  "ct_stencil_old B H offs coeffs op1 op2 this s =
    (if offs = [] \<or> length coeffs > length offs then None
     else do {
       (vs, s1) \<leftarrow> old_coeff_vecs B H op1 this coeffs s;
       (cv, w2) \<leftarrow> cont_copy B this (wld s1);
       old_chain B H op2 offs vs cv (s1\<lparr>wld := w2\<rparr>) })"

text \<open>
  \<open>stencil_oldest\<close> makes one vector for each coefficient, found through a map from coefficients.
  \<open>std::unique\<close> drops a coefficient that equals the one before it. The copy for an entry is made
  whether or not the map keeps it. The function is cut where it waits for the pool to finish:
  what follows returns a copy of the last vector.
\<close>

fun old_step1 ::
    "nat \<Rightarrow> nat \<Rightarrow> 'a ct_op \<Rightarrow> caddr \<Rightarrow> 'a list \<Rightarrow> ('a \<Rightarrow> caddr option) \<Rightarrow> ('a::zero) ct_sys \<Rightarrow>
      (('a \<Rightarrow> caddr option) \<times> 'a ct_sys) option" where
  "old_step1 B H op1 this [] m s = Some (m, s)"
| "old_step1 B H op1 this (k # ks) m s = do {
     (v, w1) \<leftarrow> cont_copy B this (wld s);
     m' \<leftarrow> Some (emplace k v m);
     dep \<leftarrow> m' k;
     w2 \<leftarrow> freeze B H this dep identity op1 False w1;
     old_step1 B H op1 this ks m' (exec_par (\<lambda>p. Foreach_splt this dep p k) (s\<lparr>wld := w2\<rparr>)) }"

fun old_step2 ::
    "nat \<Rightarrow> nat \<Rightarrow> 'a ct_op \<Rightarrow> ('a \<Rightarrow> caddr option) \<Rightarrow> int list \<Rightarrow> 'a list \<Rightarrow> caddr \<Rightarrow> ('a::zero) ct_sys \<Rightarrow>
      (caddr \<times> 'a ct_sys) option" where
  "old_step2 B H op2 m [] ks cv s = Some (cv, s)"
| "old_step2 B H op2 m (ofs # os) [] cv s = None"
| "old_step2 B H op2 m (ofs # os) (k # ks) cv s = do {
     (nxt, w1) \<leftarrow> cont_copy B cv (wld s);
     w2 \<leftarrow> freeze B H cv nxt identity op2 False w1;
     v \<leftarrow> m k;
     w3 \<leftarrow> freeze_on B H v cv nxt (offset ofs) op2 w2;
     old_step2 B H op2 m os ks nxt (exec_par (\<lambda>p. Foreach_splt_cvec cv nxt p v) (s\<lparr>wld := w3\<rparr>)) }"

definition stencil_oldest_start ::
    "nat \<Rightarrow> nat \<Rightarrow> int list \<Rightarrow> 'a list \<Rightarrow> 'a ct_op \<Rightarrow> 'a ct_op \<Rightarrow> caddr \<Rightarrow> ('a::zero) ct_sys \<Rightarrow>
      (caddr \<times> 'a ct_sys) option" where
  "stencil_oldest_start B H offs coeffs op1 op2 this s = do {
     (m, s1) \<leftarrow> old_step1 B H op1 this (remdups_adj coeffs) (\<lambda>_. None) s;
     (cv, w2) \<leftarrow> cont_copy B this (wld s1);
     old_step2 B H op2 m offs coeffs cv (s1\<lparr>wld := w2\<rparr>) }"

definition stencil_oldest_finish :: "nat \<Rightarrow> caddr \<Rightarrow> ('a::zero) ct_sys \<Rightarrow> (caddr \<times> 'a ct_sys) option" where
  "stencil_oldest_finish B lastv s = do { (r, w) \<leftarrow> cont_copy B lastv (wld s); Some (r, s\<lparr>wld := w\<rparr>) }"

text \<open>A coefficient that comes again, not next to its like, has its vector multiplied twice.\<close>

lemma exec_par_queues:
  "length (queues (exec_par f s)) = length (queues s)"
  "p < length (queues s) \<Longrightarrow> queues (exec_par f s) ! p = queues s ! p @ [f p]"
  by (simp_all add: exec_par_def)

lemma old_step2_queues:
  "old_step2 B H op2 m os ks cv s = Some (r, s') \<Longrightarrow> p < length (queues s) \<Longrightarrow>
    \<exists>rest. queues s' ! p = queues s ! p @ rest"
proof (induction B H op2 m os ks cv s rule: old_step2.induct)
  case (3 B H op2 m ofs os k ks cv s)
  then show ?case by (fastforce simp: exec_par_queues Option.bind_eq_Some_conv)
qed auto

lemma stencil_oldest_scales_twice:
  assumes "stencil_oldest_start B H offs [j, k, j] op1 op2 this s = Some (r, s')" "j \<noteq> k" "p < length (queues s)"
  shows "\<exists>v x rest. queues s' ! p = queues s ! p @ [Foreach_splt this v p j, x, Foreach_splt this v p j] @ rest"
proof -
  obtain m s1 cv w where 1: "old_step1 B H op1 this [j, k, j] (\<lambda>_. None) s = Some (m, s1)"
    and 2: "old_step2 B H op2 m offs [j, k, j] cv (s1\<lparr>wld := w\<rparr>) = Some (r, s')"
    using assms(1,2) by (auto simp: stencil_oldest_start_def Option.bind_eq_Some_conv)
  have "\<exists>v x. queues s1 ! p = queues s ! p @ [Foreach_splt this v p j, x, Foreach_splt this v p j]
      \<and> p < length (queues s1)"
    using 1 assms(2,3) by (auto simp: Option.bind_eq_Some_conv emplace_def exec_par_queues)
  then show ?thesis using old_step2_queues [OF 2] by fastforce
qed

end
