(* ===== verification/Cont_Reduce.thy ===== *)
theory Cont_Reduce imports
  Vec_Share Cont_Splt
begin

text \<open>
  A reduction from start to end: the work of one worker on its splinter, the merge of its change into
  the dependent, and the resolution that adds the changes the program made meanwhile. Each is a write
  of one vector in the sense of \<open>Vec_Share\<close>, so the steps of the threads can be interleaved.
\<close>

section \<open>The work on a splinter\<close>

lemma fresh_below: "ids_below c h \<Longrightarrow> \<forall>a n. cells h a = Some n \<longrightarrow> nid n \<noteq> c"
  unfolding ids_below_def by fastforce

lemma sum_loop_slice:
  assumes "0 < B" "store_ok B T h" "vec_ok B T h v" "0 < sz v"
    and "cur_at B h v e m" "m \<le> sz v"
  shows "cur_at B h v it n \<Longrightarrow> n \<le> m \<Longrightarrow>
    sum_loop B h temp it e = Some (temp + sum_list (take (m - n) (drop n (vlist B (h :: ('a::comm_monoid_add) store) v))))"
proof (induction "m - n" arbitrary: it n temp)
  case 0
  then have "n = m" by simp
  then have "it_eq it e" using cur_at_unique [OF 0(2)] assms(4,5) by simp
  with \<open>n = m\<close> show ?case by (simp add: sum_loop.simps)
next
  case (Suc k)
  then have lt: "n < m" "n < sz v" using assms(6) by auto
  have ne: "\<not> it_eq it e" using cur_at_neq_end [OF assms(1-3) Suc(3) lt(1) assms(5,6)] .
  obtain it' where it': "citer_inc B h it = Some it'" "cur_at B h v it' (Suc n)"
    using cur_at_inc [OF assms(1,3) Suc(3) lt(2)] by blast
  have "sum_loop B h (temp + vlist B h v ! n) it' e =
      Some (temp + vlist B h v ! n + sum_list (take (m - Suc n) (drop (Suc n) (vlist B h v))))"
    using Suc(1) [OF _ it'(2)] Suc(2) lt(1) by simp
  moreover have "take (m - n) (drop n (vlist B h v)) =
      vlist B h v ! n # take (m - Suc n) (drop (Suc n) (vlist B h v))"
    using lt by (simp add: Cons_nth_drop_Suc [symmetric] Suc_diff_Suc [symmetric])
  ultimately show ?case
    using ne it'(1) cur_at_deref [OF assms(1,3) Suc(3) lt(2)]
    by (subst sum_loop.simps) (simp add: add.assoc)
qed

text \<open>What worker \<open>p\<close> adds up.\<close>

definition chunk_sum :: "nat \<Rightarrow> ('a::comm_monoid_add) list \<Rightarrow> nat \<Rightarrow> 'a" where
  "chunk_sum H xs p = (let (a, b) = partition H p (length xs) in sum_list (take (b - a) (drop a xs)))"

text \<open>The vectors of a splinter: the original with a new id, written in its first value.\<close>

lemma reduce_vecs:
  assumes B: "0 < B" and ok: "store_ok B T h" "vec_ok B T (h :: ('a::ab_group_add) store) ov"
    and fresh: "ids_below c0 h" and n: "0 < sz ov" and ab: "a \<le> b" "b \<le> sz ov"
  shows "\<exists>it r h1 u0 e u1 h2 T'.
    it_begin B h (ov\<lparr>vid := c0\<rparr>) = Some (it, ov\<lparr>vid := c0, root := r\<rparr>, h1) \<and>
    it_deref h1 it = Some (vlist B h ov ! 0) \<and>
    cbegin B h1 ov = Some u0 \<and> citer_add B h1 u0 b = Some e \<and> citer_add B h1 u0 a = Some u1 \<and>
    sum_loop B h1 (vlist B h ov ! 0) u1 e = Some (vlist B h ov ! 0 + sum_list (take (b - a) (drop a (vlist B h ov)))) \<and>
    it_assign h1 it (vlist B h ov ! 0 + sum_list (take (b - a) (drop a (vlist B h ov)))) = Some h2 \<and>
    wrote B T h (ov\<lparr>vid := c0\<rparr>) T' h2 (ov\<lparr>vid := c0, root := r\<rparr>) \<and>
    vlist B h2 (ov\<lparr>vid := c0, root := r\<rparr>) =
      (vlist B h ov)[0 := vlist B h ov ! 0 + sum_list (take (b - a) (drop a (vlist B h ov)))]"
proof -
  let ?w = "ov\<lparr>vid := c0\<rparr>" and ?xs = "vlist B h ov"
  let ?t = "?xs ! 0 + sum_list (take (b - a) (drop a ?xs))"
  have w: "vec_ok B T h ?w" using ok(2) by simp
  obtain K where W0: "writing B T h ?w K h (vec.root ?w) (\<lambda>i. val B h (vec.root ?w) K i)"
    "\<And>i. i < sz ?w \<Longrightarrow> val B h (vec.root ?w) K i = Some (vlist B h ?w ! i)"
    using writing_start [OF B ok(1) w] by blast
  let ?f = "\<lambda>i. val B h (vec.root ?w) K i"
  have f: "?f i = Some (?xs ! i)" if "i < sz ov" for i using W0(2) [of i] that by simp
  obtain it r h1 where b: "it_begin B h ?w = Some (it, ?w\<lparr>root := r\<rparr>, h1)"
    "writing B T h ?w K h1 r ?f" "mpos B (vid ?w) h1 r K (sz ?w) it 0"
    using writing_begin [OF W0(1)] n by auto
  have d: "it_deref h1 it = Some (?xs ! 0)" using writing_deref [OF b(2,3)] f [of 0] n by simp
  note M = writingD(2) [OF b(2)]
  obtain T1 where T1: "store_ok B T1 h1" "extends T T1" using mut_stateD(6) [OF M] by blast
  have un: "unshared B tr_vector c0 h ov" by (rule unshared_fresh [OF B ok(2) fresh_below [OF fresh]])
  have keeps: "keeps tr_vector c0 h h1" using mut_stateD(2) [OF M] by simp
  note v1 = unshared_frame [OF B ok(2) un keeps T1(2)]
  obtain u0 where u0: "cbegin B h1 ov = Some u0" "cur_at B h1 ov u0 0"
    using cur_at_begin [OF B v1(1) n] by blast
  obtain e where e: "citer_add B h1 u0 b = Some e" "cur_at B h1 ov e b"
    using cur_at_add [OF B v1(1) u0(2) ab(2) n] by blast
  have "a \<le> sz ov" using ab by simp
  then obtain u1 where u1: "citer_add B h1 u0 a = Some u1" "cur_at B h1 ov u1 a"
    using cur_at_add [OF B v1(1) u0(2) _ n] by blast
  have s: "sum_loop B h1 (?xs ! 0) u1 e = Some ?t"
    using sum_loop_slice [OF B T1(1) v1(1) n e(2) ab(2) u1(2) ab(1)] v1(2) by simp
  obtain h2 where a: "it_assign h1 it ?t = Some h2" "writing B T h ?w K h2 r (?f(0 := Some ?t))"
    using writing_assign [OF b(2,3), of ?t] n by auto
  obtain T' where T': "wrote B T h ?w T' h2 (?w\<lparr>root := r\<rparr>)"
    "\<And>i. i < sz ?w \<Longrightarrow> Some (vlist B h2 (?w\<lparr>root := r\<rparr>) ! i) = (?f(0 := Some ?t)) i"
    using writing_wrote [OF a(2)] by blast
  have "vlist B h2 (?w\<lparr>root := r\<rparr>) = ?xs[0 := ?t]"
  proof (rule nth_equalityI)
    fix i assume "i < length (vlist B h2 (?w\<lparr>vec.root := r\<rparr>))"
    then have i: "i < sz ov" by simp
    then have "Some (vlist B h2 (?w\<lparr>vec.root := r\<rparr>) ! i) = Some (?xs[0 := ?t] ! i)"
      using T'(2) [of i] f [of i] by (cases i) simp_all
    then show "vlist B h2 (?w\<lparr>vec.root := r\<rparr>) ! i = ?xs[0 := ?t] ! i" by simp
  qed simp
  then show ?thesis using b(1) d u0(1) e(1) u1(1) s a(1) T'(1) by (intro exI conjI) simp_all
qed

section \<open>The objects\<close>

lemma put_cont_sel [simp]:
  "conts (put_cont a c w) = (conts w)(a \<mapsto> c)" "wheap (put_cont a c w) = wheap w"
  "wnext (put_cont a c w) = wnext w" "resns (put_cont a c w) = resns w" "wfresh (put_cont a c w) = wfresh w"
  by (simp_all add: put_cont_def)

lemma alltoone_not_monotonic [simp]: "\<not> is_monotonic (alltoone k)"
  by (simp add: is_monotonic_def alltoone_def)

text \<open>The world after \<open>detach\<close> of worker \<open>p\<close> and its work, which led to the store \<open>h\<close>.\<close>

definition detached ::
    "caddr \<Rightarrow> caddr \<Rightarrow> nat \<Rightarrow> 'a cont \<Rightarrow> 'a cont \<Rightarrow> 'a tracker \<Rightarrow> 'a store \<Rightarrow> 'a world \<Rightarrow> 'a world" where
  "detached this dep p c d t h w =
    (put_cont dep (d\<lparr>splinters := emplace (wnext w) False (splinters d)\<rparr>)
      (put_cont this (c\<lparr>trackers := (trackers c)(dep \<mapsto> t\<lparr>used := (used t)[p := orig c]\<rparr>)\<rparr>) w))
    \<lparr>wnext := wnext w + 1, wheap := h\<rparr>"

lemma detached_sel [simp]:
  "conts (detached this dep p c d t h w) =
    (conts w)(this \<mapsto> c\<lparr>trackers := (trackers c)(dep \<mapsto> t\<lparr>used := (used t)[p := orig c]\<rparr>)\<rparr>,
      dep \<mapsto> d\<lparr>splinters := emplace (wnext w) False (splinters d)\<rparr>)"
  "wheap (detached this dep p c d t h w) = h" "wnext (detached this dep p c d t h w) = wnext w + 1"
  "resns (detached this dep p c d t h w) = resns w"
  by (simp_all add: detached_def)

lemma reduce_work_ok:
  assumes c: "conts w this = Some c" "conts w dep = Some d" "this \<noteq> dep"
    and t: "trackers c dep = Some t" "imaps t = [alltoone 0]" "ops t = [op]" "p < length (used t)"
    and B: "0 < B" and ok: "store_ok B T (wheap (w :: ('a::ab_group_add) world))" "vec_ok B T (wheap w) (orig c)"
    and fresh: "ids_below (wnext w) (wheap w)" and n: "0 < sz (orig c)" "sz (data c) = sz (orig c)"
    and ab: "partition H p (sz (orig c)) = (a, b)" "a \<le> b" "b \<le> sz (orig c)"
  shows "\<exists>r h' T'. reduce_work B H this dep p w =
      Some (\<lparr>sdata = (orig c)\<lparr>vid := wnext w, root := r\<rparr>, sops = [op]\<rparr>, detached this dep p c d t h' w) \<and>
    wrote B T (wheap w) ((orig c)\<lparr>vid := wnext w\<rparr>) T' h' ((orig c)\<lparr>vid := wnext w, root := r\<rparr>) \<and>
    vlist B h' ((orig c)\<lparr>vid := wnext w, root := r\<rparr>) = (vlist B (wheap w) (orig c))
      [0 := vlist B (wheap w) (orig c) ! 0 + chunk_sum H (vlist B (wheap w) (orig c)) p]"
proof -
  let ?xs = "vlist B (wheap w) (orig c)"
  have cs: "chunk_sum H ?xs p = sum_list (take (b - a) (drop a ?xs))"
    using ab(1) by (simp add: chunk_sum_def)
  obtain it r h1 u0 e u1 h2 T' where v:
    "it_begin B (wheap w) ((orig c)\<lparr>vid := wnext w\<rparr>) = Some (it, (orig c)\<lparr>vid := wnext w, root := r\<rparr>, h1)"
    "it_deref h1 it = Some (?xs ! 0)" "cbegin B h1 (orig c) = Some u0" "citer_add B h1 u0 b = Some e"
    "citer_add B h1 u0 a = Some u1" "sum_loop B h1 (?xs ! 0) u1 e = Some (?xs ! 0 + chunk_sum H ?xs p)"
    "it_assign h1 it (?xs ! 0 + chunk_sum H ?xs p) = Some h2"
    "wrote B T (wheap w) ((orig c)\<lparr>vid := wnext w\<rparr>) T' h2 ((orig c)\<lparr>vid := wnext w, root := r\<rparr>)"
    "vlist B h2 ((orig c)\<lparr>vid := wnext w, root := r\<rparr>) = ?xs[0 := ?xs ! 0 + chunk_sum H ?xs p]"
    using reduce_vecs [OF B ok fresh n(1) ab(2,3)] unfolding cs by blast
  have dt: "detach this dep p w = Some (\<lparr>sdata = (orig c)\<lparr>vid := wnext w\<rparr>, sops = [op]\<rparr>,
      (put_cont dep (d\<lparr>splinters := emplace (wnext w) False (splinters d)\<rparr>)
      (put_cont this (c\<lparr>trackers := (trackers c)(dep \<mapsto> t\<lparr>used := (used t)[p := orig c]\<rparr>)\<rparr>) w))
      \<lparr>wnext := wnext w + 1\<rparr>)"
    using c t by (simp add: detach_def set_used_def splt_new_def new_id_def get_unique_id_def put_cont_def)
  have "reduce_work B H this dep p w =
      Some (\<lparr>sdata = (orig c)\<lparr>vid := wnext w, root := r\<rparr>, sops = [op]\<rparr>, detached this dep p c d t h2 w)"
    using c(1,3) t(4) n(2) ab(1) dt v(1-7)
    by (simp add: reduce_work_def data_size_def used_at_def find_tracker_def detached_def nth_opt_in)
  with v(8,9) show ?thesis by blast
qed

section \<open>The merge of a splinter\<close>

lemma merge_first_value:
  assumes B: "0 < B" and ok: "store_ok B T (h :: ('a::ab_group_add) store)" "vec_ok B T h dv" "vec_ok B T h sv" "vec_ok B T h uv"
    and n: "sz dv = 1" "0 < sz sv" "0 < sz uv"
  shows "\<exists>r h' T'. merge_loop B ct_plus h dv sv uv 0 1 = Some (dv\<lparr>root := r\<rparr>, h') \<and>
    wrote B T h dv T' h' (dv\<lparr>root := r\<rparr>) \<and>
    vlist B h' (dv\<lparr>root := r\<rparr>) = [vlist B h dv ! 0 + (vlist B h sv ! 0 - vlist B h uv ! 0)]"
proof -
  let ?d = "vlist B h sv ! 0 - vlist B h uv ! 0"
  have g: "vget B h sv 0 = Some (vlist B h sv ! 0)" "vget B h uv 0 = Some (vlist B h uv ! 0)"
    "vget B h dv 0 = Some (vlist B h dv ! 0)"
    using vec_ok_get [OF B ok(3) n(2)] vec_ok_get [OF B ok(4) n(3)] vec_ok_get [OF B ok(2), of 0] n(1) by simp_all
  have end': "merge_loop B ct_plus h' dv' sv uv (Suc 0) 1 = Some (dv', h')" for h' dv'
    by (simp add: merge_loop.simps)
  have op: "op_inv ct_plus x y = x - y" "op_f ct_plus x y = x + y" "op_identity ct_plus = (0 :: 'a)" for x y :: 'a
    by (simp_all add: ct_plus_def minus_fp_def plus_fp_def)
  have len: "length (vlist B h dv) = 1" using n(1) by simp
  then have one: "vlist B h dv = [vlist B h dv ! 0]" by (cases "vlist B h dv") auto
  show ?thesis
  proof (cases "?d = 0")
    case True
    then have "merge_loop B ct_plus h dv sv uv 0 1 = Some (dv, h)"
      using g op end' by (subst merge_loop.simps) simp
    moreover have "dv = dv\<lparr>root := vec.root dv\<rparr>" by simp
    ultimately show ?thesis using wrote_refl [OF ok(1,2)] one True
      by (intro exI [of _ "vec.root dv"] exI [of _ h] exI [of _ T]) simp
  next
    case False
    obtain r h' T' where s: "tr_mut_set B h dv 0 (vlist B h dv ! 0 + ?d) = Some (dv\<lparr>root := r\<rparr>, h')"
      "wrote B T h dv T' h' (dv\<lparr>root := r\<rparr>)" "vlist B h' (dv\<lparr>root := r\<rparr>) = (vlist B h dv)[0 := vlist B h dv ! 0 + ?d]"
      using tr_mut_set_wrote [OF B ok(1,2), of 0 "vlist B h dv ! 0 + ?d"] n(1) by auto
    have "merge_loop B ct_plus h dv sv uv 0 1 = Some (dv\<lparr>root := r\<rparr>, h')"
      using g op end' False s(1) by (subst merge_loop.simps) simp
    moreover have "(vlist B h dv)[0 := vlist B h dv ! 0 + ?d] = [vlist B h dv ! 0 + ?d]"
      by (subst one) simp
    ultimately show ?thesis using s(2,3) by auto
  qed
qed

text \<open>The world after \<open>reattach\<close>, when the dependent's vector has become \<open>dv\<close> in the store \<open>h\<close>.\<close>

definition reattached ::
    "id32 \<Rightarrow> caddr \<Rightarrow> caddr \<Rightarrow> 'a cont \<Rightarrow> nat \<Rightarrow> vec \<Rightarrow> 'a store \<Rightarrow> 'a world \<Rightarrow> 'a world" where
  "reattached i this dep d n dv h w =
    (put_cont dep (d\<lparr>data := dv, splinters := (splinters d)(i \<mapsto> True), latches := (latches d)(dep \<mapsto> n - 1)\<rparr>) w)
    \<lparr>wheap := h, resns := resns w @ (if n = 1 then [Resolve this dep] else [])\<rparr>"

lemma reattached_sel [simp]:
  "conts (reattached i this dep d n dv h w) = (conts w)
    (dep \<mapsto> d\<lparr>data := dv, splinters := (splinters d)(i \<mapsto> True), latches := (latches d)(dep \<mapsto> n - 1)\<rparr>)"
  "wheap (reattached i this dep d n dv h w) = h" "wnext (reattached i this dep d n dv h w) = wnext w"
  "resns (reattached i this dep d n dv h w) = resns w @ (if n = 1 then [Resolve this dep] else [])"
  by (simp_all add: reattached_def)

lemma reattach_ok:
  assumes c: "conts w this = Some c" "conts w dep = Some d" "this \<noteq> dep"
    and t: "trackers c dep = Some t" "imaps t = [alltoone 0]" "ops t = [ct_plus]" "nth_opt (used t) p = Some uv"
    and s: "splinters d (vid (sdata s)) \<noteq> None" and l: "latches d dep = Some n" "0 < n"
    and m: "merge_loop B ct_plus (wheap w) (data d) (sdata s) uv 0 1 = Some (dv, h)"
  shows "reattach B s this dep p 0 1 w = Some (reattached (vid (sdata s)) this dep d n dv h w)"
proof -
  obtain f where f: "splinters d (vid (sdata s)) = Some f" using s by blast
  have j: "join_splinter B s t p 0 1 (wheap w) (data d) = Some (dv, h)"
    using t m by (simp add: join_splinter_def nth_opt_in)
  show ?thesis
    using c t f l j
    by (cases "n = 1") (simp_all add: reattach_def find_tracker_def count_down_def reattached_def put_cont_def)
qed

section \<open>The resolution\<close>

text \<open>The two vectors it compares, seen from a store in which only the dependent was written.\<close>

lemma pair_frame:
  assumes P: "pair_ok B T h ov cv K" and keeps: "keeps tr_vector own h h1"
    and un: "unshared B tr_vector own h ov" "unshared B tr_vector own h cv"
    and T1: "store_ok B T1 h1" "extends T T1"
  shows "pair_ok B T1 h1 ov cv K" "vlist B h1 ov = vlist B h ov" "vlist B h1 cv = vlist B h cv"
    "i < sz ov \<Longrightarrow> n \<le> K \<Longrightarrow> apart B h1 ov cv K n i = apart B h ov cv K n i"
proof -
  note D = pair_okD [OF P]
  have Kd: "shift ov div B = K" "shift cv div B = K" using D(1,2,3) by simp_all
  have v: "vec_ok B T h ov" "vec_ok B T h cv" using P by (auto simp: pair_ok_def)
  note f = unshared_frame [OF D(1) v(1) un(1) keeps T1(2)] unshared_frame [OF D(1) v(2) un(2) keeps T1(2)]
  show "vlist B h1 ov = vlist B h ov" "vlist B h1 cv = vlist B h cv" using f by simp_all
  have e: "node_at B h1 (vec.root ov) K i n = node_at B h (vec.root ov) K i n"
    "node_at B h1 (vec.root cv) K i n = node_at B h (vec.root cv) K i n" if "i < sz ov" "n \<le> K" for i n
    using unshared_node_at [OF keeps un(1)] unshared_node_at [OF keeps un(2)] that Kd D(4) by simp_all
  have id: "node_id h1 a = Some x" if "node_id h a = Some x" for a x
    using owned_keeps [OF keeps, of x a] that by (simp add: owned_def)
  show "apart B h1 ov cv K n i = apart B h ov cv K n i" if i: "i < sz ov" "n \<le> K" for i n
  proof -
    obtain a x b y where ab: "node_at B h (vec.root ov) K i n = Some a" "node_id h a = Some x"
      "node_at B h (vec.root cv) K i n = Some b" "node_id h b = Some y"
      using D(5) [OF i] D(6) [OF i] by blast
    show ?thesis using ab id [OF ab(2)] id [OF ab(4)] by (simp add: apart_def e [OF i])
  qed
  have "a = b" if i: "i < sz ov" "n \<le> K" and a: "node_at B h1 (vec.root ov) K i n = Some a"
    and b: "node_at B h1 (vec.root cv) K i n = Some b" and same: "node_id h1 a = node_id h1 b" for i n a b
  proof -
    obtain x where x: "node_id h a = Some x" using D(5) [OF i] a e [OF i] by auto
    obtain y where y: "node_id h b = Some y" using D(6) [OF i] b e [OF i] by auto
    have "x = y" using same id [OF x] id [OF y] by simp
    then have "node_id h a = node_id h b" using x y by simp
    with D(7) [OF i a [unfolded e [OF i]] b [unfolded e [OF i]]] show ?thesis .
  qed
  moreover have "shift cv = shift ov" "sz cv = sz ov" using D(2-4) by simp_all
  ultimately have "id_agree B h1 ov cv" unfolding id_agree_def Kd by blast
  then show "pair_ok B T1 h1 ov cv K" using P T1(1) f by (simp add: pair_ok_def)
qed

lemma read_at_ok:
  assumes "0 < B" "vec_ok B T h v" "c < sz v"
  shows "read_at B h v c = Some (vlist B h v ! c)"
proof -
  have n: "0 < sz v" using assms(3) by simp
  obtain it where it: "cbegin B h v = Some it" "cur_at B h v it 0" using cur_at_begin [OF assms(1,2) n] by blast
  have "c \<le> sz v" using assms(3) by simp
  then obtain it' where "citer_add B h it c = Some it'" "cur_at B h v it' c"
    using cur_at_add [OF assms(1,2) it(2) _ n] by blast
  then show ?thesis using it(1) cur_at_deref [OF assms(1,2) _ assms(3)] by (simp add: read_at_def)
qed

text \<open>The changes between two lists, applied to a target.\<close>

definition apply_changes :: "'a ct_op \<Rightarrow> 'a list \<Rightarrow> 'a list \<Rightarrow> nat list \<Rightarrow> 'a \<Rightarrow> 'a" where
  "apply_changes p xs ys is t = foldl (\<lambda>t m. apply_diff p (ys ! m) (xs ! m) t) t is"

context invertible_op
begin

lemma apply_changes_skip:
  assumes "\<And>m. a \<le> m \<Longrightarrow> m < j \<Longrightarrow> xs ! m = ys ! m" "a \<le> j"
  shows "apply_changes p xs ys [a..<n] t = apply_changes p xs ys [j..<n] t"
  using assms
proof (induction "j - a" arbitrary: a)
  case (Suc d)
  show ?case
  proof (cases "a < n")
    case True
    have "apply_changes p xs ys [a..<n] t = apply_changes p xs ys [Suc a..<n] t"
      using Suc.prems(1) [of a] Suc.hyps(2) True
      by (simp add: apply_changes_def upt_conv_Cons apply_diff_same)
    then show ?thesis using Suc.hyps(1) [of "Suc a"] Suc.hyps(2) Suc.prems by simp
  next
    case False
    then show ?thesis using Suc.hyps(2) by simp
  qed
qed simp

lemma resolve_loop_ok:
  assumes P: "pair_ok B T h ov cv K" and un: "unshared B tr_vector (vid dv) h ov" "unshared B tr_vector (vid dv) h cv"
    and small: "sz ov < 2 ^ 31" and k: "k < sz dv"
  shows "writing B T h dv L h1 r f \<Longrightarrow> mpos B (vid dv) h1 r L (sz dv) tgt k \<Longrightarrow> f k = Some z \<Longrightarrow>
    c \<le> sz ov \<Longrightarrow> (\<And>n. c < sz ov \<Longrightarrow> n \<le> K \<Longrightarrow> apart B h ov cv K n c) \<Longrightarrow>
    \<exists>h2. resolve_loop B p h1 ov cv tgt c = Some h2 \<and>
      writing B T h dv L h2 r (f(k := Some (apply_changes p (vlist B h ov) (vlist B h cv) [c..<sz ov] z)))"
proof (induction "sz ov - c" arbitrary: h1 f z c rule: less_induct)
  case less
  note W = less.prems(1)
  have szc: "sz cv = sz ov" using pair_okD(4) [OF P] .
  show ?case
  proof (cases "c = sz ov")
    case True
    then have "resolve_loop B p h1 ov cv tgt c = Some h1" using szc by (simp add: resolve_loop.simps)
    moreover have "f(k := Some (apply_changes p (vlist B h ov) (vlist B h cv) [c..<sz ov] z)) = f"
      using True less.prems(3) by (auto simp: apply_changes_def)
    ultimately show ?thesis using W by (intro exI [of _ h1]) simp
  next
    case False
    then have c: "c < sz ov" using less.prems(4) by simp
    let ?x = "vlist B h cv ! c" and ?y = "vlist B h ov ! c"
    let ?z = "apply_diff p ?x ?y z"
    note frame = pair_frame [OF P _ un]
    obtain T1 where T1: "store_ok B T1 h1" "extends T T1" using mut_stateD(6) [OF writingD(2) [OF W]] by blast
    note F1 = frame [OF mut_stateD(2) [OF writingD(2) [OF W]] T1]
    have B: "0 < B" "vec_ok B T1 h1 ov" "vec_ok B T1 h1 cv" using F1(1) by (auto simp: pair_ok_def)
    have r: "read_at B h1 cv c = Some ?x" "read_at B h1 ov c = Some ?y"
      using read_at_ok [OF B(1,3)] read_at_ok [OF B(1,2)] c szc F1(2,3) by simp_all
    have d: "it_deref h1 tgt = Some z" using writing_deref [OF W less.prems(2) k] less.prems(3) by simp
    obtain h' where h': "(if op_inv p ?x ?y \<noteq> op_identity p
        then do { z \<leftarrow> it_deref h1 tgt; it_assign h1 tgt (op_f p z (op_inv p ?x ?y)) } else Some h1) = Some h'"
      "writing B T h dv L h' r (f(k := Some ?z))" "mpos B (vid dv) h' r L (sz dv) tgt k"
    proof (cases "op_inv p ?x ?y = op_identity p")
      case True
      then have "f(k := Some ?z) = f" using less.prems(3) by (auto simp: apply_diff_def)
      then show ?thesis using that [of h1] True W less.prems(2) by simp
    next
      case ne: False
      obtain h' where a: "it_assign h1 tgt ?z = Some h'" "writing B T h dv L h' r (f(k := Some ?z))"
        "evolves (vid dv) h1 h'" using writing_assign [OF W less.prems(2) k] by blast
      have "?z = op_f p z (op_inv p ?x ?y)" using ne by (simp add: apply_diff_def Let_def)
      then show ?thesis using that [of h'] ne d a(1,2) mpos_evolves [OF a(3) less.prems(2)] by simp
    qed
    obtain T2 where T2: "store_ok B T2 h'" "extends T T2" using mut_stateD(6) [OF writingD(2) [OF h'(2)]] by blast
    note F2 = frame [OF mut_stateD(2) [OF writingD(2) [OF h'(2)]] T2]
    have "\<forall>n \<le> K. apart B h' ov cv K n c" using F2(4) [OF c] less.prems(5) [OF c] by blast
    from next_diff_small [OF F2(1) cursor_ok_Suc [OF this] small]
    obtain j where j: "next_diff_ids B h' ov cv (Suc c) = Some (int j)" "diff_found B h' ov cv K (Suc c) j" by blast
    have jb: "j \<le> sz ov" "c < j" using j(2) c by (auto simp: diff_found_def split: if_splits)
    have ji: "size_of_int32 (int j) = j" using int32_small(2) [of j] jb(1) small by simp
    have ap: "apart B h ov cv K n j" if "j < sz ov" "n \<le> K" for n
      using j(2) that F2(4) [OF that] by (simp add: diff_found_def)
    have skip: "vlist B h ov ! m = vlist B h cv ! m" if "Suc c \<le> m" "m < j" for m
      using j(2) that jb(1) F2(2,3) by (simp add: diff_found_def)
    have "sz ov - j < sz ov - c" using jb c by simp
    then obtain h2 where h2: "resolve_loop B p h' ov cv tgt j = Some h2"
      "writing B T h dv L h2 r ((f(k := Some ?z))(k := Some (apply_changes p (vlist B h ov) (vlist B h cv) [j..<sz ov] ?z)))"
      using less.hyps [OF _ h'(2,3) _ jb(1) ap, of ?z] by auto
    have "apply_changes p (vlist B h ov) (vlist B h cv) [c..<sz ov] z =
        apply_changes p (vlist B h ov) (vlist B h cv) [Suc c..<sz ov] ?z"
      using c by (simp add: apply_changes_def upt_conv_Cons)
    also have "\<dots> = apply_changes p (vlist B h ov) (vlist B h cv) [j..<sz ov] ?z"
      using apply_changes_skip [of "Suc c" j, OF skip] jb(2) by simp
    finally have ac: "apply_changes p (vlist B h ov) (vlist B h cv) [j..<sz ov] ?z =
      apply_changes p (vlist B h ov) (vlist B h cv) [c..<sz ov] z" by simp
    have "resolve_loop B p h1 ov cv tgt c = Some h2"
      using False szc r h'(1) j(1) ji h2(1) by (subst resolve_loop.simps) simp
    with h2(2) ac show ?thesis by auto
  qed
qed

end

lemma apply_changes_plus:
  assumes "length xs = n" "length ys = n"
  shows "apply_changes ct_plus xs ys [0..<n] z = z + (sum_list ys - sum_list (xs :: ('a::ab_group_add) list))"
proof -
  have d: "apply_diff ct_plus y x t = t + (y - x)" for x y t :: 'a
    using ct.apply_diff_f [of y x t] by (simp add: ct_plus_def plus_fp_def minus_fp_def)
  have "k \<le> n \<Longrightarrow> apply_changes ct_plus xs ys [0..<k] z = z + (sum_list (take k ys) - sum_list (take k xs))" for k
    using assms by (induction k) (simp_all add: apply_changes_def d take_Suc_conv_app_nth)
  from this [of n] show ?thesis using assms by simp
qed

lemma resolve_ok:
  assumes c: "conts w this = Some c" "conts w dep = Some d" "this \<noteq> dep" "\<not> abandoned c"
    and t: "trackers c dep = Some t" "imaps t = [alltoone 0]" "ops t = [ct_plus]" "frozen t = []"
    and l: "latches d dep = Some 0"
    and P: "pair_ok B T (wheap (w :: ('a::ab_group_add) world)) (orig c) (data c) K"
    and un: "unshared B tr_vector (vid (data d)) (wheap w) (orig c)"
      "unshared B tr_vector (vid (data d)) (wheap w) (data c)"
    and small: "sz (orig c) < 2 ^ 31" and dv: "vec_ok B T (wheap w) (data d)" "sz (data d) = 1"
  shows "\<exists>r h' T'. resolve B this dep w = Some (put_cont this (c\<lparr>resolved := True\<rparr>)
      (put_cont dep (d\<lparr>data := (data d)\<lparr>root := r\<rparr>\<rparr>) (w\<lparr>wheap := h'\<rparr>))) \<and>
    wrote B T (wheap w) (data d) T' h' ((data d)\<lparr>root := r\<rparr>) \<and>
    vlist B h' ((data d)\<lparr>root := r\<rparr>) = [vlist B (wheap w) (data d) ! 0 +
      (sum_list (vlist B (wheap w) (data c)) - sum_list (vlist B (wheap w) (orig c)))]"
proof -
  let ?h = "wheap w" and ?dv = "data d" and ?ov = "orig c" and ?cv = "data c"
  let ?z = "vlist B ?h ?dv ! 0"
  have ok: "0 < B" "store_ok B T ?h" using P by (auto simp: pair_ok_def)
  have szc: "sz ?cv = sz ?ov" using pair_okD(4) [OF P] .
  obtain L where W0: "writing B T ?h ?dv L ?h (vec.root ?dv) (\<lambda>i. val B ?h (vec.root ?dv) L i)"
    "\<And>i. i < sz ?dv \<Longrightarrow> val B ?h (vec.root ?dv) L i = Some (vlist B ?h ?dv ! i)"
    using writing_start [OF ok dv(1)] by blast
  let ?f = "\<lambda>i. val B ?h (vec.root ?dv) L i"
  have n: "0 < sz ?dv" using dv(2) by simp
  obtain it r h1 where b: "it_begin B ?h ?dv = Some (it, ?dv\<lparr>root := r\<rparr>, h1)"
    "writing B T ?h ?dv L h1 r ?f" "mpos B (vid ?dv) h1 r L (sz ?dv) it 0"
    using writing_begin [OF W0(1) n] by auto
  have a: "iter_add B h1 it 0 = Some (it, h1)" by (simp add: iter_add_def)
  obtain T1 where T1: "store_ok B T1 h1" "extends T T1" using mut_stateD(6) [OF writingD(2) [OF b(2)]] by blast
  note F = pair_frame [OF P mut_stateD(2) [OF writingD(2) [OF b(2)]] un T1]
  obtain j where j: "next_diff_ids B h1 ?ov ?cv 0 = Some (int j)" "diff_found B h1 ?ov ?cv K 0 j"
    using next_diff_small [OF F(1) cursor_ok_0 small] by blast
  have jb: "j \<le> sz ?ov" using j(2) by (simp add: diff_found_def)
  have ji: "size_of_int32 (int j) = j" using int32_small(2) [of j] jb small by simp
  have ap: "apart B ?h ?ov ?cv K m j" if "j < sz ?ov" "m \<le> K" for m
    using j(2) that F(4) [OF that] by (simp add: diff_found_def)
  have "?f 0 = Some ?z" using W0(2) n by simp
  from ct.resolve_loop_ok [OF P un small n b(2,3) this jb ap]
  obtain h2 where h2: "resolve_loop B ct_plus h1 ?ov ?cv it j = Some h2"
    "writing B T ?h ?dv L h2 r (?f(0 := Some (apply_changes ct_plus (vlist B ?h ?ov) (vlist B ?h ?cv) [j..<sz ?ov] ?z)))"
    by blast
  have "vlist B ?h ?ov ! m = vlist B ?h ?cv ! m" if "m < j" for m
    using j(2) that jb F(2,3) by (simp add: diff_found_def)
  then have "apply_changes ct_plus (vlist B ?h ?ov) (vlist B ?h ?cv) [j..<sz ?ov] ?z =
      apply_changes ct_plus (vlist B ?h ?ov) (vlist B ?h ?cv) [0..<sz ?ov] ?z"
    using ct.apply_changes_skip [of 0 j "vlist B ?h ?ov" "vlist B ?h ?cv" "sz ?ov" ?z] by simp
  also have "\<dots> = ?z + (sum_list (vlist B ?h ?cv) - sum_list (vlist B ?h ?ov))"
    using apply_changes_plus [of "vlist B ?h ?ov" "sz ?ov" "vlist B ?h ?cv" ?z] szc by simp
  finally have v: "apply_changes ct_plus (vlist B ?h ?ov) (vlist B ?h ?cv) [j..<sz ?ov] ?z =
    ?z + (sum_list (vlist B ?h ?cv) - sum_list (vlist B ?h ?ov))" .
  obtain T' where T': "wrote B T ?h ?dv T' h2 (?dv\<lparr>root := r\<rparr>)"
    "\<And>i. i < sz ?dv \<Longrightarrow> Some (vlist B h2 (?dv\<lparr>root := r\<rparr>) ! i) =
      (?f(0 := Some (apply_changes ct_plus (vlist B ?h ?ov) (vlist B ?h ?cv) [j..<sz ?ov] ?z))) i"
    using writing_wrote [OF h2(2)] by blast
  have "vlist B h2 (?dv\<lparr>root := r\<rparr>) ! 0 = ?z + (sum_list (vlist B ?h ?cv) - sum_list (vlist B ?h ?ov))"
    using T'(2) [of 0] n v by simp
  moreover have "length (vlist B h2 (?dv\<lparr>root := r\<rparr>)) = 1" using dv(2) by simp
  ultimately have vl: "vlist B h2 (?dv\<lparr>root := r\<rparr>) = [?z + (sum_list (vlist B ?h ?cv) - sum_list (vlist B ?h ?ov))]"
    by (cases "vlist B h2 (?dv\<lparr>root := r\<rparr>)") auto
  let ?w' = "put_cont dep (d\<lparr>data := ?dv\<lparr>root := r\<rparr>\<rparr>) (w\<lparr>wheap := h2\<rparr>)"
  have z: "size_of_int64 (alltoone 0 0) = 0" by (simp add: size_of_int64_def alltoone_def)
  have "resolve_onto B this dep w = mark_resolved this ?w'"
    using c(1,2) t b(1) a j(1) ji h2(1) z by (simp add: resolve_onto_def)
  also have "\<dots> = Some (put_cont this (c\<lparr>resolved := True\<rparr>) ?w')"
    using c by (simp add: mark_resolved_def)
  finally have "resolve B this dep w = Some (put_cont this (c\<lparr>resolved := True\<rparr>) ?w')"
    unfolding resolve_def using c(1,2) t(1,4) l
    by (subst resolve_with.simps) (simp add: find_tracker_def, subst resolve_with.simps, simp add: find_tracker_def)
  with T'(1) vl show ?thesis by blast
qed

end
