(* ===== verification/Reduce_System.thy ===== *)
theory Reduce_System imports
  Cont_Reduce
begin

text \<open>
  The whole of a reduction as a step relation: every worker picks its task and works on a splinter,
  reattaches it later, the program writes its vector meanwhile, and when the latch has opened a
  resolution runs. The invariant says which part of the sum the dependent holds at every moment; no
  step can fail and the steps of the workers come to an end.
\<close>

section \<open>States and steps\<close>

record 'a red_sys = "'a ct_sys" +
  running :: "nat \<Rightarrow> 'a splt_vector option"

text \<open>A worker picks its task and does the part before \<open>reattach\<close>, or it reattaches.\<close>

inductive splt_step ::
    "nat \<Rightarrow> nat \<Rightarrow> caddr \<Rightarrow> caddr \<Rightarrow> ('a::ab_group_add) red_sys \<Rightarrow> 'a red_sys \<Rightarrow> bool"
  for B H this dep where
  Pick: "p < H \<Longrightarrow> queues s ! p = Reduce_splt this dep p # ts \<Longrightarrow> running s p = None \<Longrightarrow>
    reduce_work B H this dep p (wld s) = Some (sp, w) \<Longrightarrow>
    splt_step B H this dep s
      (s\<lparr>wld := w, queues := (queues s)[p := ts], running := (running s)(p \<mapsto> sp)\<rparr>)"
| Join: "running s p = Some sp \<Longrightarrow> reattach B sp this dep p 0 1 (wld s) = Some w \<Longrightarrow>
    splt_step B H this dep s (s\<lparr>wld := w, running := (running s)(p := None)\<rparr>)"

text \<open>The program sets a value of the vector that is being reduced.\<close>

inductive user_step :: "nat \<Rightarrow> caddr \<Rightarrow> ('a::ab_group_add) red_sys \<Rightarrow> 'a red_sys \<Rightarrow> bool" for B this where
  User_set: "conts (wld s) this = Some c \<Longrightarrow> i < sz (data c) \<Longrightarrow>
    unprotected_set B this i x (wld s) = Some w \<Longrightarrow> user_step B this s (s\<lparr>wld := w\<rparr>)"

text \<open>A resolution runs, then it is popped.\<close>

inductive resolve_step :: "nat \<Rightarrow> nat \<Rightarrow> ('a::ab_group_add) red_sys \<Rightarrow> 'a red_sys \<Rightarrow> bool" for B H where
  Run_resolution: "resns (wld s) = r # rs \<Longrightarrow> run_resolution B H r (wld s) = Some w \<Longrightarrow>
    resolve_step B H s (s\<lparr>wld := w\<lparr>resns := tl (resns w)\<rparr>\<rparr>)"

inductive_cases splt_stepE: "splt_step B H this dep s s'"
inductive_cases user_stepE: "user_step B this s s'"
inductive_cases resolve_stepE: "resolve_step B H s s'"

text \<open>What a \<open>cont_vector\<close> holds.\<close>

definition cont_list :: "nat \<Rightarrow> caddr \<Rightarrow> 'a world \<Rightarrow> 'a list option" where
  "cont_list B a w = map_option (\<lambda>c. vlist B (wheap w) (data c)) (conts w a)"

section \<open>The chunks add up\<close>

definition chunks_fit :: "nat \<Rightarrow> nat \<Rightarrow> bool" where
  "chunks_fit H n \<longleftrightarrow> 0 < H \<and> chunk_sz H n * (H - 1) \<le> n"

lemma chunk_bounds:
  assumes "chunks_fit H n" "p < H" "partition H p n = (a, b)"
  shows "a \<le> b" "b \<le> n"
proof -
  have "chunk_sz H n * p \<le> chunk_sz H n * (H - 1)" using assms(2) by (intro mult_le_mono2) simp
  then have "chunk_sz H n * p \<le> n" using assms(1) unfolding chunks_fit_def by (meson le_trans)
  then show "a \<le> b" "b \<le> n" using assms(3) by (auto simp: partition_def)
qed

lemma slice_map: "b \<le> length xs \<Longrightarrow> take (b - a) (drop a xs) = map ((!) xs) [a..<b]"
  by (rule nth_equalityI) auto

lemma sum_list_chunks: "sum_list (map (\<lambda>p. sum_list (map f (g p))) ps) = sum_list (map f (concat (map g ps)))"
  by (induction ps) simp_all

lemma chunk_sum_total:
  assumes "0 < H"
  shows "(\<Sum>p<H. chunk_sum H xs p) = sum_list xs"
proof -
  let ?n = "length xs"
  let ?is = "\<lambda>p. [fst (partition H p ?n)..<snd (partition H p ?n)]"
  have c: "chunk_sum H xs p = sum_list (map ((!) xs) (?is p))" for p
    using slice_map [of "snd (partition H p ?n)" xs] by (simp add: chunk_sum_def split_def partition_def)
  have "(\<Sum>p<H. chunk_sum H xs p) = sum_list (map (\<lambda>p. sum_list (map ((!) xs) (?is p))) [0..<H])"
    unfolding c by (simp add: interv_sum_list_conv_sum_set_nat atLeast0LessThan)
  also have "\<dots> = sum_list (map ((!) xs) (concat (map ?is [0..<H])))"
    by (rule sum_list_chunks)
  also have "concat (map ?is [0..<H]) = [0..<?n]"
    using chunks_prefix [of H ?n H] chunk_sz_covers [OF assms, of ?n] by (simp add: min_absorb2)
  finally show ?thesis by (simp add: map_nth)
qed

section \<open>The invariant\<close>

definition workers :: "'a red_sys \<Rightarrow> vec set" where
  "workers s = {sdata sp |p sp. running s p = Some sp}"

definition busy :: "nat \<Rightarrow> 'a red_sys \<Rightarrow> nat set" where
  "busy H s = {p. p < H \<and> (queues s ! p \<noteq> [] \<or> running s p \<noteq> None)}"

definition waiting :: "nat \<Rightarrow> 'a red_sys \<Rightarrow> nat set" where
  "waiting H s = {p. p < H \<and> queues s ! p \<noteq> []}"

definition red_objs :: "nat \<Rightarrow> caddr \<Rightarrow> caddr \<Rightarrow> ('a::ab_group_add) red_sys \<Rightarrow> 'a cont \<Rightarrow> 'a cont \<Rightarrow> 'a tracker \<Rightarrow> bool" where
  "red_objs H this dep s c d t \<longleftrightarrow> conts (wld s) this = Some c \<and> conts (wld s) dep = Some d \<and>
    this \<noteq> dep \<and> trackers c dep = Some t \<and> imaps t = [alltoone 0] \<and> ops t = [ct_plus] \<and>
    frozen t = [] \<and> length (used t) = H \<and> \<not> abandoned c \<and> length (queues s) = H"

definition red_share :: "nat \<Rightarrow> typing \<Rightarrow> 'a red_sys \<Rightarrow> 'a cont \<Rightarrow> 'a cont \<Rightarrow> bool" where
  "red_share B T s c d \<longleftrightarrow>
    share_ok B T (wheap (wld s)) (insert (data c) (insert (data d) (workers s))) {orig c} \<and>
    vid (data c) \<noteq> vid (data d) \<and>
    (\<forall>p sp. running s p = Some sp \<longrightarrow> vid (sdata sp) \<noteq> vid (data c) \<and> vid (sdata sp) \<noteq> vid (data d)) \<and>
    (\<forall>p q sp sq. running s p = Some sp \<longrightarrow> running s q = Some sq \<longrightarrow> vid (sdata sp) = vid (sdata sq) \<longrightarrow> p = q)"

definition red_ids :: "nat \<Rightarrow> 'a red_sys \<Rightarrow> 'a cont \<Rightarrow> 'a cont \<Rightarrow> bool" where
  "red_ids H s c d \<longleftrightarrow> ids_below (wnext (wld s)) (wheap (wld s)) \<and>
    (\<forall>v \<in> insert (orig c) (insert (data c) (insert (data d) (workers s))). vid v < wnext (wld s)) \<and>
    unat (wnext (wld s)) + card (waiting H s) < 2 ^ 32"

definition red_vals :: "nat \<Rightarrow> nat \<Rightarrow> 'a list \<Rightarrow> ('a::ab_group_add) red_sys \<Rightarrow> 'a cont \<Rightarrow> 'a cont \<Rightarrow> bool" where
  "red_vals B H xs s c d \<longleftrightarrow> xs \<noteq> [] \<and> length xs < 2 ^ 31 \<and> chunks_fit H (length xs) \<and>
    vlist B (wheap (wld s)) (orig c) = xs \<and> forked B (wheap (wld s)) (orig c) (data c) \<and>
    sz (data d) = 1 \<and>
    (\<not> resolved c \<longrightarrow> vlist B (wheap (wld s)) (data d) = [\<Sum>p \<in> {..<H} - busy H s. chunk_sum H xs p])"

definition red_phase :: "nat \<Rightarrow> nat \<Rightarrow> caddr \<Rightarrow> caddr \<Rightarrow> 'a list \<Rightarrow> ('a::ab_group_add) red_sys \<Rightarrow> 'a cont \<Rightarrow> 'a cont \<Rightarrow> 'a tracker \<Rightarrow> bool" where
  "red_phase B H this dep xs s c d t \<longleftrightarrow>
    (\<forall>p < H. queues s ! p = [] \<or> queues s ! p = [Reduce_splt this dep p] \<and> running s p = None) \<and>
    (\<forall>p sp. running s p = Some sp \<longrightarrow> p < H \<and> used t ! p = orig c \<and>
      splinters d (vid (sdata sp)) \<noteq> None \<and>
      vlist B (wheap (wld s)) (sdata sp) = xs[0 := xs ! 0 + chunk_sum H xs p])"

definition red_latch :: "nat \<Rightarrow> caddr \<Rightarrow> caddr \<Rightarrow> 'a red_sys \<Rightarrow> 'a cont \<Rightarrow> 'a cont \<Rightarrow> bool" where
  "red_latch H this dep s c d \<longleftrightarrow> latches d dep = Some (card (busy H s)) \<and>
    (if resolved c then busy H s = {} \<and> resns (wld s) = []
     else resns (wld s) = (if busy H s = {} then [Resolve this dep] else []))"

definition red_state ::
    "nat \<Rightarrow> nat \<Rightarrow> caddr \<Rightarrow> caddr \<Rightarrow> 'a list \<Rightarrow> ('a::ab_group_add) red_sys \<Rightarrow> 'a cont \<Rightarrow> 'a cont \<Rightarrow> 'a tracker \<Rightarrow> typing \<Rightarrow> bool" where
  "red_state B H this dep xs s c d t T \<longleftrightarrow> red_objs H this dep s c d t \<and> red_share B T s c d \<and>
    red_ids H s c d \<and> red_vals B H xs s c d \<and> red_phase B H this dep xs s c d t \<and>
    red_latch H this dep s c d"

definition red_inv :: "nat \<Rightarrow> nat \<Rightarrow> caddr \<Rightarrow> caddr \<Rightarrow> 'a list \<Rightarrow> ('a::ab_group_add) red_sys \<Rightarrow> bool" where
  "red_inv B H this dep xs s \<longleftrightarrow> (\<exists>c d t T. red_state B H this dep xs s c d t T)"

lemma red_stateD:
  assumes "red_state B H this dep xs s c d t T"
  shows "red_objs H this dep s c d t" "red_share B T s c d" "red_ids H s c d" "red_vals B H xs s c d"
    "red_phase B H this dep xs s c d t" "red_latch H this dep s c d"
  using assms by (auto simp: red_state_def)

section \<open>Picking a task\<close>

lemma emplace_some: "emplace k x m k \<noteq> None" "m j \<noteq> None \<Longrightarrow> emplace k x m j \<noteq> None"
  by (auto simp: emplace_def)

lemma Suc_id: "c \<noteq> (- 1 :: id32) \<Longrightarrow> c < c + 1 \<and> unat (c + 1) = Suc (unat c)"
proof -
  assume "c \<noteq> - 1"
  then have "1 + c \<noteq> 0" by (simp add: eq_neg_iff_add_eq_0 add.commute)
  then have "unat (1 + c) = Suc (unat c)" by (rule unatSuc)
  then show ?thesis by (simp add: word_less_nat_alt add.commute)
qed

lemma red_share_vals:
  assumes "red_state B H this dep xs s c d t T"
  shows "0 < B" "store_ok B T (wheap (wld s))" "vec_ok B T (wheap (wld s)) (orig c)"
    "vec_ok B T (wheap (wld s)) (data c)" "vec_ok B T (wheap (wld s)) (data d)"
    "sz (orig c) = length xs" "sz (data c) = length xs" "0 < length xs"
    "running s p = Some sp \<Longrightarrow> vec_ok B T (wheap (wld s)) (sdata sp) \<and> sz (sdata sp) = length xs"
proof -
  have S: "share_ok B T (wheap (wld s)) (insert (data c) (insert (data d) (workers s))) {orig c}"
    using red_stateD(2) [OF assms] by (simp add: red_share_def)
  note D = share_okD [OF S] and V = red_stateD(4) [OF assms, unfolded red_vals_def]
  show "0 < B" "store_ok B T (wheap (wld s))" using D(1,2) .
  show "vec_ok B T (wheap (wld s)) (orig c)" "vec_ok B T (wheap (wld s)) (data c)"
    "vec_ok B T (wheap (wld s)) (data d)" using D(3) by simp_all
  show o: "sz (orig c) = length xs" using V length_vlist by metis
  then show "sz (data c) = length xs" using V by (auto simp: forked_def)
  show "0 < length xs" using V by simp
  assume r: "running s p = Some sp"
  then have "sdata sp \<in> workers s" by (auto simp: workers_def)
  then have "vec_ok B T (wheap (wld s)) (sdata sp)" using D(3) by simp
  moreover have "length (vlist B (wheap (wld s)) (sdata sp)) = length xs"
    using red_stateD(5) [OF assms] r by (simp add: red_phase_def)
  ultimately show "vec_ok B T (wheap (wld s)) (sdata sp) \<and> sz (sdata sp) = length xs" by simp
qed

lemma workers_new:
  assumes "running s p = None" "running s' = (running s)(p \<mapsto> sp)"
  shows "workers s' = insert (sdata sp) (workers s)"
proof (rule set_eqI, rule iffI)
  fix y assume "y \<in> insert (sdata sp) (workers s)"
  moreover have "sdata sp \<in> workers s'" using assms(2) by (auto simp: workers_def)
  moreover have "y \<in> workers s'" if "running s q = Some sq" "y = sdata sq" for q sq
  proof -
    have "running s' q = Some sq" using assms that(1) by (cases "q = p") simp_all
    then show ?thesis using that(2) by (auto simp: workers_def)
  qed
  ultimately show "y \<in> workers s'" by (auto simp: workers_def)
qed (use assms in \<open>auto simp: workers_def split: if_splits\<close>)

lemma pick_ok:
  assumes R: "red_state B H this dep xs s c d t T" and p: "p < H" "queues s ! p = Reduce_splt this dep p # ts"
  shows "\<exists>sp w. reduce_work B H this dep p (wld s) = Some (sp, w) \<and>
    cont_list B this w = cont_list B this (wld s) \<and> resns w = resns (wld s) \<and>
    red_inv B H this dep xs (s\<lparr>wld := w, queues := (queues s)[p := ts], running := (running s)(p \<mapsto> sp)\<rparr>)"
proof -
  note O = red_stateD(1) [OF R, unfolded red_objs_def] and I = red_stateD(3) [OF R, unfolded red_ids_def]
    and V = red_stateD(4) [OF R, unfolded red_vals_def] and Ph = red_stateD(5) [OF R, unfolded red_phase_def]
    and L = red_stateD(6) [OF R, unfolded red_latch_def] and Sh = red_stateD(2) [OF R, unfolded red_share_def]
    and ok = red_share_vals [OF R]
  let ?w = "wld s" and ?ov = "orig c" and ?nx = "wnext (wld s)"
  let ?h = "wheap ?w" and ?W = "insert (data c) (insert (data d) (workers s))"
  have ts: "ts = []" "running s p = None" using Ph p by auto
  obtain a b where ab: "partition H p (sz ?ov) = (a, b)" by fastforce
  have fit: "chunks_fit H (sz ?ov)" using V ok(6) by simp
  note cb = chunk_bounds [OF fit p(1) ab]
  have pu: "p < length (used t)" using O p(1) by simp
  obtain r h' T' where w: "reduce_work B H this dep p ?w =
      Some (\<lparr>sdata = ?ov\<lparr>vid := ?nx, root := r\<rparr>, sops = [ct_plus]\<rparr>, detached this dep p c d t h' ?w)"
    "wrote B T ?h (?ov\<lparr>vid := ?nx\<rparr>) T' h' (?ov\<lparr>vid := ?nx, root := r\<rparr>)"
    "vlist B h' (?ov\<lparr>vid := ?nx, root := r\<rparr>) = xs[0 := xs ! 0 + chunk_sum H xs p]"
    using reduce_work_ok [of ?w this c dep d t ct_plus p B T H a b] O pu ok(1-3,6-8) I ab cb V by auto
  let ?new = "?ov\<lparr>vid := ?nx\<rparr>" and ?v = "?ov\<lparr>vid := ?nx, root := r\<rparr>"
  let ?sp = "\<lparr>sdata = ?v, sops = [ct_plus]\<rparr>"
  let ?s' = "s\<lparr>wld := detached this dep p c d t h' ?w, queues := (queues s)[p := ts], running := (running s)(p \<mapsto> ?sp)\<rparr>"
  let ?c = "c\<lparr>trackers := (trackers c)(dep \<mapsto> t\<lparr>used := (used t)[p := ?ov]\<rparr>)\<rparr>"
  let ?d = "d\<lparr>splinters := emplace ?nx False (splinters d)\<rparr>" and ?t = "t\<lparr>used := (used t)[p := ?ov]\<rparr>"
  have below: "\<forall>y \<in> ?W \<union> {?ov}. vid y < ?nx" using I by auto
  have S1: "share_ok B T ?h (insert ?new ?W) {?ov}"
    using share_fork(1) [OF _ _ _ below, of B T ?h ?ov] Sh I by simp
  have ne: "y \<noteq> ?new" if "y \<in> ?W \<union> {?ov}" for y using bspec [OF below that] by auto
  note S2 = share_write [OF S1 insertI1 w(2)]
  have wk: "workers ?s' = insert ?v (workers s)" using workers_new [OF ts(2), of ?s' ?sp] by simp
  have S: "share_ok B T' h' (insert (data c) (insert (data d) (workers ?s'))) {?ov}"
    by (rule share_mono [OF S2(1)]) (use ne in \<open>auto simp: wk\<close>)
  have same: "vlist B h' y = vlist B ?h y" if "y \<in> ?W \<union> {?ov}" for y
    using S2(2) [of y] ne [OF that] that by auto
  have fk: "forked B h' ?ov (data c)"
    using forked_other [OF S1 insertI1 w(2), of ?ov "data c"] V ne by auto
  have fin: "finite (waiting H s)" "p \<in> waiting H s" using p by (auto simp: waiting_def)
  have wt: "waiting H ?s' = waiting H s - {p}"
    using p O ts(1) by (auto simp: waiting_def nth_list_update)
  have bs: "busy H ?s' = busy H s" using p O ts by (auto simp: busy_def nth_list_update)
  have "0 < card (waiting H s)" using fin by (auto simp: card_gt_0_iff)
  then have lt: "unat ?nx + 1 < 2 ^ 32" using I by linarith
  have "?nx \<noteq> - 1"
  proof
    assume m: "?nx = - 1"
    from lt show False unfolding m by (simp add: unsigned_minus_1_eq_mask mask_eq_exp_minus_1)
  qed
  note c0 = Suc_id [OF this]
  have "ids_below (?nx + 1) ?h" using I c0 unfolding ids_below_def by (meson order.strict_trans)
  then have ib: "ids_below (?nx + 1) h'" using ids_below_keeps wroteD(3) [OF w(2)] c0 by auto
  have objs: "red_objs H this dep ?s' ?c ?d ?t"
    using O by (simp add: red_objs_def)
  have wid: "vid (sdata sq) \<noteq> ?nx" if "running s q = Some sq" for q sq
    using below that by (fastforce simp: workers_def)
  have "red_share B T' ?s' ?c ?d"
    using S Sh below by (auto simp: red_share_def dest: wid wid [OF sym] split: if_splits)
  moreover have "red_ids H ?s' ?c ?d"
    using below c0 ib I fin lt by (auto simp: red_ids_def wk wt card_Diff_singleton simp del: One_nat_def dest: order.strict_trans)
  moreover have "red_vals B H xs ?s' ?c ?d"
    using V same fk bs by (simp add: red_vals_def)
  moreover have "red_phase B H this dep xs ?s' ?c ?d ?t"
    unfolding red_phase_def
  proof (intro conjI allI impI)
    show "queues ?s' ! q = [] \<or> queues ?s' ! q = [Reduce_splt this dep q] \<and> running ?s' q = None" if "q < H" for q
      using Ph that p O ts(1) by (cases "q = p") (simp_all add: nth_list_update)
    fix q sq assume q: "running ?s' q = Some sq"
    have "q < H \<and> used ?t ! q = ?ov \<and> splinters ?d (vid (sdata sq)) \<noteq> None \<and>
      vlist B h' (sdata sq) = xs[0 := xs ! 0 + chunk_sum H xs q]"
    proof (cases "q = p")
      case True
      then show ?thesis using q w(3) p(1) pu emplace_some(1) [of ?nx False "splinters d"] by auto
    next
      case False
      then have r: "running s q = Some sq" using q by simp
      then have "sdata sq \<in> ?W" by (auto simp: workers_def)
      then show ?thesis using Ph r False same [of "sdata sq"] emplace_some(2) [of "splinters d"] by auto
    qed
    then show "q < H" "used ?t ! q = orig ?c" "splinters ?d (vid (sdata sq)) \<noteq> None"
      "vlist B (wheap (wld ?s')) (sdata sq) = xs[0 := xs ! 0 + chunk_sum H xs q]"
      by (simp_all add:)
  qed
  moreover have "red_latch H this dep ?s' ?c ?d"
    using L bs by (simp add: red_latch_def)
  ultimately have "red_inv B H this dep xs ?s'" using objs unfolding red_inv_def red_state_def by blast
  moreover have "cont_list B this (detached this dep p c d t h' ?w) = cont_list B this ?w"
    using O same [of "data c"] by (simp add: cont_list_def)
  ultimately show ?thesis using w(1) by (intro exI conjI) simp_all
qed

section \<open>Joining\<close>

lemma finite_busy [simp]: "finite (busy H s)"
  by (simp add: busy_def)

lemma red_share_workers:
  assumes "red_share B T s c d" "y \<in> workers s"
  shows "vid y \<noteq> vid (data c)" "vid y \<noteq> vid (data d)"
proof -
  obtain p sp where "running s p = Some sp" "y = sdata sp" using assms(2) by (auto simp: workers_def)
  then show "vid y \<noteq> vid (data c)" "vid y \<noteq> vid (data d)" using assms(1) by (auto simp: red_share_def)
qed

lemma join_ok:
  assumes R: "red_state B H this dep xs s c d t T" and p: "running s p = Some sp"
  shows "\<exists>w. reattach B sp this dep p 0 1 (wld s) = Some w \<and>
    (resns w \<noteq> [] \<or> card (busy H s) \<noteq> 1) \<and> cont_list B this w = cont_list B this (wld s) \<and>
    red_inv B H this dep xs (s\<lparr>wld := w, running := (running s)(p := None)\<rparr>)"
proof -
  note O = red_stateD(1) [OF R, unfolded red_objs_def] and I = red_stateD(3) [OF R, unfolded red_ids_def]
    and V = red_stateD(4) [OF R, unfolded red_vals_def] and Ph = red_stateD(5) [OF R, unfolded red_phase_def]
    and L = red_stateD(6) [OF R, unfolded red_latch_def] and Sh = red_stateD(2) [OF R, unfolded red_share_def]
    and ok = red_share_vals [OF R]
  let ?w = "wld s"
  let ?h = "wheap ?w" and ?W = "insert (data c) (insert (data d) (workers s))"
  have pH: "p < H" "used t ! p = orig c" "queues s ! p = []"
    "vlist B ?h (sdata sp) = xs[0 := xs ! 0 + chunk_sum H xs p]" "splinters d (vid (sdata sp)) \<noteq> None"
    using Ph p by fastforce+
  have pb: "p \<in> busy H s" using p pH(1) by (simp add: busy_def)
  then have nr: "\<not> resolved c" using L by (auto split: if_splits)
  have wp: "sdata sp \<in> workers s" using p by (auto simp: workers_def)
  obtain r h' T' where m:
    "merge_loop B ct_plus ?h (data d) (sdata sp) (orig c) 0 1 = Some ((data d)\<lparr>root := r\<rparr>, h')"
    "wrote B T ?h (data d) T' h' ((data d)\<lparr>root := r\<rparr>)"
    "vlist B h' ((data d)\<lparr>root := r\<rparr>) =
      [vlist B ?h (data d) ! 0 + (vlist B ?h (sdata sp) ! 0 - vlist B ?h (orig c) ! 0)]"
    using merge_first_value [OF ok(1,2,5), of "sdata sp" "orig c"] ok(3,6,8) ok(9) [OF p] V by auto
  let ?dv = "(data d)\<lparr>root := r\<rparr>"
  have cnt: "0 < card (busy H s)" using pb by (auto simp: card_gt_0_iff)
  have re: "reattach B sp this dep p 0 1 ?w =
      Some (reattached (vid (sdata sp)) this dep d (card (busy H s)) ?dv h' ?w)"
    using reattach_ok [of ?w this c dep d t p "orig c" sp "card (busy H s)" B ?dv h'] O pH L cnt m(1)
    by (simp add: nth_opt_in)
  let ?w' = "reattached (vid (sdata sp)) this dep d (card (busy H s)) ?dv h' ?w"
  let ?s' = "s\<lparr>wld := ?w', running := (running s)(p := None)\<rparr>"
  let ?d = "d\<lparr>data := ?dv, splinters := (splinters d)(vid (sdata sp) \<mapsto> True),
    latches := (latches d)(dep \<mapsto> card (busy H s) - 1)\<rparr>"
  have S0: "share_ok B T ?h ?W {orig c}" using Sh by simp
  have dW: "data d \<in> ?W" by simp
  note S1 = share_write [OF S0 dW m(2)]
  have wk: "workers ?s' \<subseteq> workers s" by (auto simp: workers_def split: if_splits)
  have nd: "y \<noteq> data d" if "y \<in> workers s" for y using red_share_workers [OF red_stateD(2) [OF R] that] by auto
  have dn: "data d \<notin> workers s" using nd by blast
  have cd: "data c \<noteq> data d" using Sh by auto
  have od: "orig c \<noteq> data d" using share_neq [OF S0 dW] by simp
  have S: "share_ok B T' h' (insert (data c) (insert ?dv (workers ?s'))) {orig c}"
    by (rule share_mono [OF S1(1) _ order_refl]) (use wk dn cd in fast)
  have same: "vlist B h' y = vlist B ?h y" if "y = data c \<or> y = orig c \<or> y \<in> workers s" for y
    using S1(2) [of y] that nd cd od by auto
  have fk: "forked B h' (orig c) (data c)"
    using forked_other [OF S0 dW m(2), of "orig c" "data c"] V cd od by auto
  have bs: "busy H ?s' = busy H s - {p}" using pH(1,3) by (auto simp: busy_def)
  have wt: "waiting H ?s' = waiting H s" by (simp add: waiting_def)
  have cb: "card (busy H ?s') = card (busy H s) - 1" unfolding bs using pb by (simp add: card_Diff_singleton)
  have e0: "card (busy H s) = 1 \<longleftrightarrow> busy H ?s' = {}"
    using cb cnt finite_busy [of H ?s'] by (metis One_nat_def Suc_pred card_0_eq diff_self_eq_0)
  have z: "vlist B ?h (data d) ! 0 = (\<Sum>q \<in> {..<H} - busy H s. chunk_sum H xs q)" using V nr by simp
  have ins: "{..<H} - busy H ?s' = insert p ({..<H} - busy H s)" unfolding bs using pb pH(1) by auto
  have fin: "finite ({..<H} - busy H s)" "p \<notin> {..<H} - busy H s" using pb by simp_all
  have sm: "(\<Sum>q \<in> {..<H} - busy H ?s'. chunk_sum H xs q) =
      chunk_sum H xs p + (\<Sum>q \<in> {..<H} - busy H s. chunk_sum H xs q)" unfolding ins by (rule sum.insert [OF fin])
  have "vlist B ?h (sdata sp) ! 0 - vlist B ?h (orig c) ! 0 = chunk_sum H xs p"
    using pH(4) V ok(8) by simp
  then have dval: "vlist B h' ?dv = [\<Sum>q \<in> {..<H} - busy H ?s'. chunk_sum H xs q]"
    using m(3) sm z by (simp only: add.commute)
  have "vid (data d) < wnext ?w" using I by simp
  then have ib: "ids_below (wnext ?w) h'" using ids_below_keeps wroteD(3) [OF m(2)] I by auto
  have "red_objs H this dep ?s' c ?d t" using O by (simp add: red_objs_def)
  moreover have "red_share B T' ?s' c ?d" using S Sh by (auto simp: red_share_def split: if_splits)
  moreover have "red_ids H ?s' c ?d" using I wk wt ib by (auto simp: red_ids_def)
  moreover have "red_vals B H xs ?s' c ?d" using V same fk dval by (simp add: red_vals_def)
  moreover have "red_phase B H this dep xs ?s' c ?d t"
    unfolding red_phase_def
  proof (intro conjI allI impI)
    fix q sq assume q: "running ?s' q = Some sq"
    then have r: "running s q = Some sq" by (simp split: if_splits)
    then have "sdata sq \<in> workers s" by (auto simp: workers_def)
    then show "q < H" "used t ! q = orig c" "splinters ?d (vid (sdata sq)) \<noteq> None"
      "vlist B (wheap (wld ?s')) (sdata sq) = xs[0 := xs ! 0 + chunk_sum H xs q]"
      using Ph r same by auto
  qed (use Ph in auto)
  moreover have "red_latch H this dep ?s' c ?d"
    using L nr e0 cb cnt pb by (auto simp: red_latch_def)
  ultimately have "red_inv B H this dep xs ?s'" unfolding red_inv_def red_state_def by blast
  moreover have "cont_list B this ?w' = cont_list B this ?w"
    using O same [of "data c"] by (simp add: cont_list_def)
  moreover have "resns ?w' \<noteq> [] \<or> card (busy H s) \<noteq> 1" by simp
  ultimately show ?thesis using re by blast
qed

section \<open>Writes of the program, and the resolution\<close>

lemma user_ok:
  assumes R: "red_state B H this dep xs s c d t T" and i: "i < sz (data c)"
  shows "\<exists>w. unprotected_set B this i x (wld s) = Some w \<and> resns w = resns (wld s) \<and>
    cont_list B dep w = cont_list B dep (wld s) \<and>
    cont_list B this w = Some ((vlist B (wheap (wld s)) (data c))[i := x]) \<and>
    red_inv B H this dep xs (s\<lparr>wld := w\<rparr>)"
proof -
  note O = red_stateD(1) [OF R, unfolded red_objs_def] and I = red_stateD(3) [OF R, unfolded red_ids_def]
    and V = red_stateD(4) [OF R, unfolded red_vals_def] and Ph = red_stateD(5) [OF R, unfolded red_phase_def]
    and L = red_stateD(6) [OF R, unfolded red_latch_def] and Sh = red_stateD(2) [OF R, unfolded red_share_def]
    and ok = red_share_vals [OF R]
  let ?w = "wld s"
  let ?h = "wheap ?w" and ?W = "insert (data c) (insert (data d) (workers s))"
  obtain r h' T' where m: "tr_mut_set B ?h (data c) i x = Some ((data c)\<lparr>root := r\<rparr>, h')"
    "wrote B T ?h (data c) T' h' ((data c)\<lparr>root := r\<rparr>)"
    "vlist B h' ((data c)\<lparr>root := r\<rparr>) = (vlist B ?h (data c))[i := x]"
    using tr_mut_set_wrote [OF ok(1,2,4) i] by blast
  let ?cv = "(data c)\<lparr>root := r\<rparr>" and ?c = "c\<lparr>data := (data c)\<lparr>root := r\<rparr>\<rparr>"
  let ?w' = "put_cont this ?c (?w\<lparr>wheap := h'\<rparr>)"
  let ?s' = "s\<lparr>wld := ?w'\<rparr>"
  have u: "unprotected_set B this i x ?w = Some ?w'" using O m(1) by (simp add: unprotected_set_def)
  have S0: "share_ok B T ?h ?W {orig c}" using Sh by simp
  have cW: "data c \<in> ?W" by simp
  note S1 = share_write [OF S0 cW m(2)]
  have wk: "workers ?s' = workers s" "busy H ?s' = busy H s" "waiting H ?s' = waiting H s"
    by (simp_all add: workers_def busy_def waiting_def)
  have nc: "y \<noteq> data c" if "y \<in> workers s" for y using red_share_workers [OF red_stateD(2) [OF R] that] by auto
  have cn: "data c \<notin> workers s" using nc by blast
  have cd: "data d \<noteq> data c" using Sh by auto
  have oc: "orig c \<noteq> data c" using share_neq [OF S0 cW] by simp
  have S: "share_ok B T' h' (insert ?cv (insert (data d) (workers s))) {orig c}"
    by (rule share_mono [OF S1(1) _ order_refl]) (use cn cd in fast)
  have same: "vlist B h' y = vlist B ?h y" if "y = data d \<or> y = orig c \<or> y \<in> workers s" for y
    using S1(2) [of y] that nc cd oc by auto
  have fk: "forked B h' (orig c) ?cv"
    using forked_written [OF S0 cW m(2), of "orig c"] V oc by auto
  have "vid (data c) < wnext ?w" using I by simp
  then have ib: "ids_below (wnext ?w) h'" using ids_below_keeps wroteD(3) [OF m(2)] I by auto
  have "red_objs H this dep ?s' ?c d t" using O by (simp add: red_objs_def)
  moreover have "red_share B T' ?s' ?c d" using S Sh wk by (simp add: red_share_def)
  moreover have "red_ids H ?s' ?c d" using I wk ib by (simp add: red_ids_def)
  moreover have "red_vals B H xs ?s' ?c d" using V same fk wk by (simp add: red_vals_def)
  moreover have "red_phase B H this dep xs ?s' ?c d t"
    unfolding red_phase_def
  proof (intro conjI allI impI)
    fix q sq assume r: "running ?s' q = Some sq"
    then have "sdata sq \<in> workers s" by (auto simp: workers_def)
    then show "q < H" "used t ! q = orig ?c" "splinters d (vid (sdata sq)) \<noteq> None"
      "vlist B (wheap (wld ?s')) (sdata sq) = xs[0 := xs ! 0 + chunk_sum H xs q]"
      using Ph r same by auto
  qed (use Ph in auto)
  moreover have "red_latch H this dep ?s' ?c d" using L wk by (simp add: red_latch_def)
  ultimately have "red_inv B H this dep xs ?s'" unfolding red_inv_def red_state_def by blast
  moreover have "resns ?w' = resns ?w" by simp
  moreover have "cont_list B dep ?w' = cont_list B dep ?w" "cont_list B this ?w' = Some ((vlist B ?h (data c))[i := x])"
    using O m(3) same [of "data d"] by (simp_all add: cont_list_def)
  ultimately show ?thesis using u by blast
qed

lemma resolution_ok:
  assumes R: "red_state B H this dep xs s c d t T" and rs: "resns (wld s) \<noteq> []"
  shows "\<exists>w. resns (wld s) = [Resolve this dep] \<and> run_resolution B H (Resolve this dep) (wld s) = Some w \<and>
    red_inv B H this dep xs (s\<lparr>wld := w\<lparr>resns := tl (resns w)\<rparr>\<rparr>) \<and> busy H s = {} \<and> tl (resns w) = [] \<and>
    cont_list B dep w = Some [sum_list (vlist B (wheap (wld s)) (data c))] \<and>
    cont_list B this w = cont_list B this (wld s)"
proof -
  note O = red_stateD(1) [OF R, unfolded red_objs_def] and I = red_stateD(3) [OF R, unfolded red_ids_def]
    and V = red_stateD(4) [OF R, unfolded red_vals_def] and Ph = red_stateD(5) [OF R, unfolded red_phase_def]
    and L = red_stateD(6) [OF R, unfolded red_latch_def] and Sh = red_stateD(2) [OF R, unfolded red_share_def]
    and ok = red_share_vals [OF R]
  let ?w = "wld s"
  let ?h = "wheap ?w" and ?W = "insert (data c) (insert (data d) (workers s))"
  have nr: "\<not> resolved c" "busy H s = {}" "resns ?w = [Resolve this dep]"
    using L rs by (auto split: if_splits)
  have S0: "share_ok B T ?h ?W {orig c}" using Sh by simp
  have dW: "data d \<in> ?W" "data c \<in> ?W" by simp_all
  have agree: "id_agree B ?h (orig c) (data c)" using forked_id_agree [OF S0 dW(2)] V by simp
  obtain K where K: "shift (orig c) = K * B" using ok(3) by (auto simp: vec_ok_def)
  have P: "pair_ok B T ?h (orig c) (data c) K" using ok(1-4) agree K by (simp add: pair_ok_def)
  have cd: "data c \<noteq> data d" using Sh by auto
  have od: "orig c \<noteq> data d" using share_neq [OF S0 dW(1)] by simp
  have un: "unshared B tr_vector (vid (data d)) ?h (orig c)" "unshared B tr_vector (vid (data d)) ?h (data c)"
    using share_okD(4) [OF S0 dW(1)] cd od by simp_all
  have small: "sz (orig c) < 2 ^ 31" using V ok(6) by simp
  have l0: "latches d dep = Some 0" using L nr(2) by simp
  obtain r h' T' where m: "resolve B this dep ?w = Some (put_cont this (c\<lparr>resolved := True\<rparr>)
      (put_cont dep (d\<lparr>data := (data d)\<lparr>root := r\<rparr>\<rparr>) (?w\<lparr>wheap := h'\<rparr>)))"
    "wrote B T ?h (data d) T' h' ((data d)\<lparr>root := r\<rparr>)"
    "vlist B h' ((data d)\<lparr>root := r\<rparr>) = [vlist B ?h (data d) ! 0 +
      (sum_list (vlist B ?h (data c)) - sum_list (vlist B ?h (orig c)))]"
    using resolve_ok [of ?w this c dep d t B T K] O P un small l0 ok(5) V by blast
  let ?dv = "(data d)\<lparr>root := r\<rparr>" and ?c = "c\<lparr>resolved := True\<rparr>" and ?d = "d\<lparr>data := (data d)\<lparr>root := r\<rparr>\<rparr>"
  let ?w' = "put_cont this ?c (put_cont dep ?d (?w\<lparr>wheap := h'\<rparr>))"
  let ?s' = "s\<lparr>wld := ?w'\<lparr>resns := tl (resns ?w')\<rparr>\<rparr>"
  note S1 = share_write [OF S0 dW(1) m(2)]
  have wk: "workers ?s' = workers s" "busy H ?s' = busy H s" "waiting H ?s' = waiting H s"
    by (simp_all add: workers_def busy_def waiting_def)
  have dn: "data d \<notin> workers s" using red_share_workers(2) [OF red_stateD(2) [OF R]] by blast
  have S: "share_ok B T' h' (insert (data c) (insert ?dv (workers s))) {orig c}"
    by (rule share_mono [OF S1(1) _ order_refl]) (use dn cd in fast)
  have same: "vlist B h' y = vlist B ?h y" if "y = data c \<or> y = orig c \<or> y \<in> workers s" for y
    using S1(2) [of y] that dn cd od by auto
  have fk: "forked B h' (orig c) (data c)"
    using forked_other [OF S0 dW(1) m(2), of "orig c" "data c"] V cd od by auto
  have "vid (data d) < wnext ?w" using I by simp
  then have ib: "ids_below (wnext ?w) h'" using ids_below_keeps wroteD(3) [OF m(2)] I by auto
  have "vlist B ?h (data d) ! 0 = sum_list xs"
    using V nr chunk_sum_total [of H xs] by (simp add: chunks_fit_def)
  then have val: "vlist B h' ?dv = [sum_list (vlist B ?h (data c))]" using m(3) V by simp
  have rn: "running s q = None" for q
  proof (rule ccontr)
    assume "running s q \<noteq> None"
    moreover from this have "q < H" using Ph by blast
    ultimately show False using nr(2) by (auto simp: busy_def)
  qed
  have "red_objs H this dep ?s' ?c ?d t" using O by (simp add: red_objs_def)
  moreover have "red_share B T' ?s' ?c ?d" using S Sh wk by (simp add: red_share_def)
  moreover have "red_ids H ?s' ?c ?d" using I wk ib by (simp add: red_ids_def)
  moreover have "red_vals B H xs ?s' ?c ?d" using V same fk wk by (simp add: red_vals_def)
  moreover have "red_phase B H this dep xs ?s' ?c ?d t"
    using rn Ph by (simp add: red_phase_def)
  moreover have "red_latch H this dep ?s' ?c ?d" using L wk nr by (simp add: red_latch_def)
  ultimately have "red_inv B H this dep xs ?s'" unfolding red_inv_def red_state_def by blast
  moreover have "cont_list B this ?w' = cont_list B this ?w"
    using O same [of "data c"] by (simp add: cont_list_def)
  moreover have "cont_list B dep ?w' = Some [sum_list (vlist B ?h (data c))]"
    using O val by (simp add: cont_list_def)
  moreover have "tl (resns ?w') = []" using nr(3) by simp
  ultimately show ?thesis using nr(2,3) m(1) by (intro exI [of _ ?w']) simp
qed

section \<open>The start\<close>

text \<open>Constructing a vector, and the array of a tracker, disturb no other vector.\<close>

definition undisturbed :: "nat \<Rightarrow> 'a store \<Rightarrow> 'a store \<Rightarrow> vec list \<Rightarrow> bool" where
  "undisturbed B h h' vs \<longleftrightarrow> vecs_ok B h' vs \<and> (\<forall>v \<in> set vs. vlist B h' v = vlist B h v) \<and>
    (\<forall>own. \<forall>v \<in> set vs. unshared B tr_vector own h v \<longrightarrow> unshared B tr_vector own h' v)"

lemma undisturbed_refl: "vecs_ok B h vs \<Longrightarrow> undisturbed B h h vs"
  by (simp add: undisturbed_def)

lemma undisturbed_trans: "undisturbed B h h1 vs \<Longrightarrow> undisturbed B h1 h2 vs \<Longrightarrow> undisturbed B h h2 vs"
  by (simp add: undisturbed_def)

lemma keeps_undisturbed:
  assumes "vecs_ok B h vs" "vecs_ok B h' vs" "keeps tr_vector i h h'" "ids_below i h"
    and "\<forall>v \<in> set vs. vlist B h' v = vlist B h v"
  shows "undisturbed B h h' vs"
proof -
  obtain T where T: "0 < B" "store_ok B T h" "\<forall>v \<in> set vs. vec_ok B T h v" using assms(1) by (rule vecs_okE)
  obtain T' where T': "store_ok B T' h'" "\<forall>v \<in> set vs. vec_ok B T' h' v" using assms(2) by (rule vecs_okE)
  have f: "\<forall>a n. cells h a = Some n \<longrightarrow> nid n \<noteq> i" using assms(4) by (rule fresh_below)
  have "unshared B tr_vector own h' v" if v: "v \<in> set vs" and u: "unshared B tr_vector own h v" for own v
  proof -
    have ok: "vec_ok B T h v" "vec_ok B T' h' v" using T T' v by auto
    have un: "unshared B tr_vector i h v" by (rule unshared_fresh [OF T(1) ok(1) f])
    show ?thesis
      using u unshared_node_at [OF assms(3) un] protected_keeps [OF assms(3)]
      unfolding unshared_iff [OF T(1) ok(1)] unshared_iff [OF T(1) ok(2)] by auto
  qed
  then show ?thesis using assms(2,5) by (simp add: undisturbed_def)
qed

lemma tr_new_undisturbed:
  assumes "vecs_ok B (h :: ('a::zero) store) vs" "ids_below c h" "c \<noteq> - 1" "tr_new B h c = (v, h', c')"
  shows "undisturbed B h h' vs" "c' = c + 1" "ids_below c' h'" "tr_inv B h' v vs" "vlist B h' v = []"
    "vid v = c" "vecs_ok B h' (v # vs)" "keeps tr_vector c h h'"
proof -
  have n: "new_vec B c h = (v, h')" "c' = c + 1"
    using assms(4) by (auto simp: tr_new_def get_unique_id_def split: prod.splits)
  show "c' = c + 1" by (rule n(2))
  obtain T where T: "store_ok B T h" using assms(1) by (rule vecs_okE)
  show k: "keeps tr_vector c h h'" by (rule new_vec_keeps [OF T n(1)])
  note v = new_vec_ok [OF assms(1) n(1)]
  show "vid v = c" "vlist B h' v = []" "vecs_ok B h' (v # vs)" using v by simp_all
  have "vecs_ok B h' vs" using vecs_ok_subset [OF v(1)] by auto
  then show "undisturbed B h h' vs" using keeps_undisturbed [OF assms(1) _ k assms(2)] v(3) by blast
  show "tr_inv B h' v vs" using tr_new_inv [OF assms(1) fresh_below [OF assms(2)] assms(4)] by simp
  note c = Suc_id [OF assms(3)]
  have "ids_below (c + 1) h" using assms(2) c unfolding ids_below_def by (meson order.strict_trans)
  then show "ids_below c' h'" using ids_below_keeps [OF _ k] c n(2) by simp
qed

lemma id_room: "unat (c :: id32) + 1 < 2 ^ 32 \<Longrightarrow> c \<noteq> - 1 \<and> unat (c + 1) = Suc (unat c)"
proof -
  assume r: "unat c + 1 < 2 ^ 32"
  have "c \<noteq> - 1"
  proof
    assume "c = - 1"
    with r show False by (simp add: unsigned_minus_1_eq_mask mask_eq_exp_minus_1)
  qed
  with Suc_id show ?thesis by blast
qed

lemma new_vecs_ok:
  assumes "vecs_ok B (h :: ('a::zero) store) vs" "ids_below c h" "unat c + n < 2 ^ 32"
    "new_vecs B n h c = (us, h', c')"
  shows "length us = n \<and> undisturbed B h h' vs \<and> ids_below c' h' \<and> unat c' = unat c + n"
  using assms
proof (induction n arbitrary: h c us h' c')
  case 0
  then show ?case using undisturbed_refl by simp
next
  case (Suc n)
  obtain v h1 c1 where a: "tr_new B h c = (v, h1, c1)" by (metis prod_cases3)
  obtain ws h2 c2 where b: "new_vecs B n h1 c1 = (ws, h2, c2)" by (metis prod_cases3)
  have r: "us = v # ws" "h' = h2" "c' = c2" using Suc.prems(4) a b by simp_all
  have "unat c + 1 < 2 ^ 32" using Suc.prems(3) by linarith
  note c = id_room [OF this]
  note t = tr_new_undisturbed [OF Suc.prems(1,2) _ a]
  have u: "unat c1 + n < 2 ^ 32" using c t(2) Suc.prems(3) by simp
  have ih: "length ws = n \<and> undisturbed B h1 h2 vs \<and> ids_below c2 h2 \<and> unat c2 = unat c1 + n"
    using Suc.IH [OF _ _ u b] t(1,3) c by (simp add: undisturbed_def)
  then show ?case using r t(1,2) c undisturbed_trans [of B h h1 vs h2] by simp
qed

text \<open>A vector to be reduced, with nothing else going on.\<close>

definition reducible :: "nat \<Rightarrow> nat \<Rightarrow> caddr \<Rightarrow> 'a list \<Rightarrow> 'a ct_sys \<Rightarrow> bool" where
  "reducible B H this xs s \<longleftrightarrow> (\<exists>c. conts (wld s) this = Some c \<and> \<not> abandoned c \<and> \<not> resolved c \<and>
      trackers c (wfresh (wld s)) = None \<and> vecs_ok B (wheap (wld s)) [data c] \<and>
      vlist B (wheap (wld s)) (data c) = xs \<and> vid (data c) < wnext (wld s)) \<and>
    conts (wld s) (wfresh (wld s)) = None \<and> resns (wld s) = [] \<and> queues s = replicate H [] \<and>
    xs \<noteq> [] \<and> length xs < 2 ^ 31 \<and> chunks_fit H (length xs) \<and>
    ids_below (wnext (wld s)) (wheap (wld s)) \<and> unat (wnext (wld s)) + 2 * H + 3 < 2 ^ 32"

definition red_sys_of :: "'a ct_sys \<Rightarrow> 'a red_sys" where
  "red_sys_of s = \<lparr>wld = wld s, queues = queues s, running = (\<lambda>_. None)\<rparr>"

lemma tr_inv_undisturbed:
  assumes "tr_inv B h v ws" "undisturbed B h h' (v # ws)" "keeps tr_vector own h h'"
  shows "tr_inv B h' v ws"
proof -
  have "owns_root h' v" if "sz v = 0"
    unfolding owns_root_def
  proof (intro allI impI)
    fix n assume n: "cells h' (vec.root v) = Some n"
    have "vecs_ok B h (v # ws)" "owns_root h v" using assms(1) that by (auto simp: tr_inv_def)
    then obtain T where T: "store_ok B T h" "vec_ok B T h v" by (auto elim: vecs_okE)
    then obtain m where m: "cells h (vec.root v) = Some m"
      using store_ok_unique by (fastforce simp: vec_ok_def)
    show "nid n = vid v"
      using keeps_dom [OF assms(3) m] n m \<open>owns_root h v\<close> by (auto simp: owns_root_def)
  qed
  then show ?thesis using assms(1,2) by (auto simp: tr_inv_def undisturbed_def)
qed

lemma reduce_start:
  assumes "reducible B H this xs (s :: ('a::ab_group_add) ct_sys)"
  shows "\<exists>s'. ct_reduce B H ct_plus this s = Some (wfresh (wld s), s') \<and>
    red_inv B H this (wfresh (wld s)) xs (red_sys_of s') \<and> busy H (red_sys_of s') = {..<H} \<and>
    waiting H (red_sys_of s') = {..<H} \<and> resns (wld s') = [] \<and> cont_list B this (wld s') = Some xs"
proof -
  let ?w = "wld s" and ?dep = "wfresh (wld s)"
  let ?h = "wheap ?w" and ?n = "wnext ?w"
  obtain c where c: "conts ?w this = Some c" "\<not> abandoned c" "\<not> resolved c" "trackers c ?dep = None"
    "vecs_ok B ?h [data c]" "vlist B ?h (data c) = xs" "vid (data c) < ?n"
    using assms by (auto simp: reducible_def)
  have A: "conts ?w ?dep = None" "resns ?w = []" "queues s = replicate H []" "xs \<noteq> []" "length xs < 2 ^ 31"
    "chunks_fit H (length xs)" "ids_below ?n ?h" "unat ?n + 2 * H + 3 < 2 ^ 32"
    using assms by (auto simp: reducible_def)
  let ?v = "data c"
  have td: "this \<noteq> ?dep" using c(1) A(1) by auto
  have H: "0 < H" using A(6) by (simp add: chunks_fit_def)
  obtain d h1 n1 where a1: "tr_new B ?h ?n = (d, h1, n1)" by (metis prod_cases3)
  obtain og h2 n2 where a2: "tr_new B h1 n1 = (og, h2, n2)" by (metis prod_cases3)
  have r0: "unat ?n + 1 < 2 ^ 32" using A(8) by linarith
  note i0 = id_room [OF r0]
  note t1 = tr_new_undisturbed [OF c(5) A(7) _ a1]
  have n1: "unat n1 = unat ?n + 1" using i0 t1(2) by simp
  have r1: "unat n1 + 1 < 2 ^ 32" using A(8) n1 by linarith
  note i1 = id_room [OF r1]
  have v1: "vecs_ok B h1 [d, ?v]" using t1(7) i0 by simp
  note t2 = tr_new_undisturbed [OF v1 _ _ a2]
  have n2: "unat n2 = unat ?n + 2" using i0 i1 t1(2,3) t2(2) n1 by simp
  have u2: "undisturbed B h1 h2 [d, ?v]" "keeps tr_vector n1 h1 h2" "ids_below n2 h2"
    using t2(1,3,8) t1(3) i0 i1 by simp_all
  have inv2: "tr_inv B h2 d [?v]" using tr_inv_undisturbed [OF _ u2(1,2)] t1(4) i0 by simp
  have l2: "vlist B h2 d = []" "vlist B h2 ?v = xs"
    using u2(1) t1(1,5) i0 c(6) by (simp_all add: undisturbed_def)
  obtain d1 h3 where pb: "tr_mut_push_back B h2 d 0 = Some (d1, h3)" "tr_step_ok B h2 d [?v] d1 h3 [0]"
    using tr_mut_push_back_ok [OF inv2, of 0] l2(1) by auto
  have vd: "vid d1 = ?n" using pb(2) t1(6) i0 by (simp add: tr_step_ok_def)
  have s3: "vecs_ok B h3 [d1, ?v]" "unshared B tr_vector ?n h3 ?v" "vlist B h3 d1 = [0]" "vlist B h3 ?v = xs"
    using pb(2) vd l2(2) by (auto simp: tr_step_ok_def tr_inv_def)
  have lt: "?n < n2" using n2 by (simp add: word_less_nat_alt)
  have k3: "keeps tr_vector ?n h2 h3" using pb(2) t1(6) i0 by (simp add: tr_step_ok_def)
  have ib3: "ids_below n2 h3" by (rule ids_below_keeps [OF u2(3) k3 lt])
  obtain us h4 n3 where nv: "new_vecs B H h3 n2 = (us, h4, n3)" by (metis prod_cases3)
  have "unat n2 + H < 2 ^ 32" using A(8) n2 by linarith
  note s4 = new_vecs_ok [OF s3(1) ib3 this nv]
  have u4: "undisturbed B h3 h4 [d1, ?v]" "ids_below n3 h4" "unat n3 = unat ?n + 2 + H" "length us = H"
    using s4 n2 by simp_all
  have r3: "unat n3 + 1 < 2 ^ 32" using A(8) u4(3) by linarith
  note i3 = id_room [OF r3]
  let ?t = "\<lparr>used = us, ops = [ct_plus], imaps = [alltoone 0], icontended = [{}], frozen = []\<rparr>"
  let ?c = "c\<lparr>trackers := (trackers c)(?dep \<mapsto> ?t), orig := ?v, data := ?v\<lparr>vid := n3\<rparr>\<rparr>"
  let ?d = "(empty_cont d1 og)\<lparr>latches := emplace ?dep H (\<lambda>_. None)\<rparr>"
  let ?w' = "?w\<lparr>wfresh := Suc ?dep, wheap := h4, wnext := n3 + 1, conts := (conts ?w)(this \<mapsto> ?c, ?dep \<mapsto> ?d)\<rparr>"
  let ?s' = "exec_par (Reduce_splt this ?dep) (s\<lparr>wld := ?w'\<rparr>)"
  let ?r = "red_sys_of ?s'"
  have run: "ct_reduce B H ct_plus this s = Some (?dep, ?s')"
    using a1 a2 pb(1) nv td c(1,4)
    by (simp add: ct_reduce_def cont_new_def add_cont_def unprotected_push_back_def freeze_def emplace_tracker_def
      find_tracker_def new_tracker_def put_tracker_def add_latch_def empty_cont_def new_id_def get_unique_id_def
      put_cont_def ct_plus_def fun_upd_twist [of this "wfresh (wld s)"])
  have q: "queues ?r = map (\<lambda>p. [Reduce_splt this ?dep p]) [0..<H]" "running ?r = (\<lambda>_. None)" "wld ?r = ?w'"
    using A(3) by (simp_all add: red_sys_of_def exec_par_def)
  have bw: "busy H ?r = {..<H}" "waiting H ?r = {..<H}" "workers ?r = {}"
    using q by (auto simp: busy_def waiting_def workers_def)
  obtain T where T: "0 < B" "store_ok B T h4" "vec_ok B T h4 d1" "vec_ok B T h4 ?v"
    using u4(1) by (auto simp: undisturbed_def elim: vecs_okE)
  have vv: "vid ?v \<noteq> ?n" using c(7) by auto
  have "unshared B tr_vector ?n h4 ?v" using u4(1) s3(2) by (simp add: undisturbed_def)
  then have S1: "share_ok B T h4 {d1} {?v}" using T vd vv by (simp add: share_ok_def)
  have n3: "?n < n3" using u4(3) by (simp add: word_less_nat_alt)
  then have below: "\<forall>y \<in> {d1} \<union> {?v}. vid y < n3" using vd c(7) by auto
  note F = share_fork [OF S1 _ u4(2) below, of ?v]
  have lists: "vlist B h4 ?v = xs" "vlist B h4 d1 = [0]" using u4(1) s3(3,4) by (simp_all add: undisturbed_def)
  then have szd: "sz d1 = 1" using length_vlist [of B h4 d1] by simp
  have n3': "n3 < n3 + 1" using i3 Suc_id by blast
  have objs: "red_objs H this ?dep ?r ?c ?d ?t" using q td c(2) u4(4) by (simp add: red_objs_def)
  have share: "red_share B T ?r ?c ?d"
    using F(1) q bw below by (auto simp: red_share_def empty_cont_def)
  have "ids_below (n3 + 1) h4" using u4(2) n3' unfolding ids_below_def by (meson order.strict_trans)
  then have ids: "red_ids H ?r ?c ?d"
    using q bw i3 n3' below A(8) u4(3) by (auto simp: red_ids_def empty_cont_def dest: order.strict_trans)
  have vals: "red_vals B H xs ?r ?c ?d"
    using A(4-6) q bw lists F(2) szd by (simp add: red_vals_def empty_cont_def)
  have phase: "red_phase B H this ?dep xs ?r ?c ?d ?t" using q by (simp add: red_phase_def)
  have "{..<H} \<noteq> {}" using H by auto
  then have latch: "red_latch H this ?dep ?r ?c ?d"
    using q bw A(2) c(3) H by (simp add: red_latch_def empty_cont_def emplace_def)
  have "red_inv B H this ?dep xs ?r"
    using objs share ids vals phase latch unfolding red_inv_def red_state_def by blast
  moreover have "resns (wld ?s') = []" "cont_list B this (wld ?s') = Some xs"
    using A(2) td lists by (simp_all add: exec_par_def cont_list_def)
  ultimately show ?thesis using run bw by blast
qed

end
