(* ===== verification/Reduce_Correct.thy ===== *)
theory Reduce_Correct imports
  Reduce_System
begin

text \<open>
  What the callers of \<open>reduce\<close> rely on: whatever the order of the workers' steps and of the program's
  own writes, no step fails, the work ends after \<open>2 * HWCONC + 1\<close> steps, and the resolution leaves the
  sum of what the vector holds at that moment.
\<close>

section \<open>Steps keep the invariant and use up the work\<close>

definition work_left :: "nat \<Rightarrow> 'a red_sys \<Rightarrow> nat" where
  "work_left H s = card (busy H s) + card (waiting H s) + (if busy H s \<noteq> {} \<or> resns (wld s) \<noteq> [] then 1 else 0)"

lemma finite_waiting [simp]: "finite (waiting H s)"
  by (simp add: waiting_def)

lemma red_state_objs:
  assumes "red_state B H this dep xs s c d t T"
  shows "conts (wld s) this = Some c" "length (queues s) = H"
    "p < H \<Longrightarrow> queues s ! p = [] \<or> queues s ! p = [Reduce_splt this dep p] \<and> running s p = None"
    "running s p = Some sp \<Longrightarrow> p < H \<and> queues s ! p = []"
proof -
  note O = red_stateD(1) [OF assms, unfolded red_objs_def] and Ph = red_stateD(5) [OF assms, unfolded red_phase_def]
  show "conts (wld s) this = Some c" "length (queues s) = H" using O by simp_all
  show q: "queues s ! p = [] \<or> queues s ! p = [Reduce_splt this dep p] \<and> running s p = None" if "p < H" for p
    using Ph that by simp
  show "p < H \<and> queues s ! p = []" if "running s p = Some sp"
  proof -
    have "p < H" using Ph that by simp
    with q [OF this] that show ?thesis by simp
  qed
qed

lemma splt_step_inv:
  assumes "splt_step B H this dep s s'" "red_inv B H this dep xs s"
  shows "red_inv B H this dep xs s'" "work_left H s = Suc (work_left H s')"
    "cont_list B this (wld s') = cont_list B this (wld s)"
proof -
  obtain c d t T where R: "red_state B H this dep xs s c d t T"
    using assms(2) unfolding red_inv_def by blast
  note O = red_state_objs [OF R]
  consider (1) p ts sp w where
      "s' = s\<lparr>wld := w, queues := (queues s)[p := ts], running := (running s)(p \<mapsto> sp)\<rparr>"
      "p < H" "queues s ! p = Reduce_splt this dep p # ts" "running s p = None"
      "reduce_work B H this dep p (wld s) = Some (sp, w)"
    | (2) p sp w where "s' = s\<lparr>wld := w, running := (running s)(p := None)\<rparr>" "running s p = Some sp"
      "reattach B sp this dep p 0 1 (wld s) = Some w"
    using assms(1) by (auto elim!: splt_stepE)
  then have "red_inv B H this dep xs s' \<and> work_left H s = Suc (work_left H s') \<and>
    cont_list B this (wld s') = cont_list B this (wld s)"
  proof cases
    case 1
    have ts: "ts = []" using O(3) [OF 1(2)] 1(3) by simp
    obtain sp' w' where k: "reduce_work B H this dep p (wld s) = Some (sp', w')"
      "cont_list B this w' = cont_list B this (wld s)" "resns w' = resns (wld s)"
      "red_inv B H this dep xs (s\<lparr>wld := w', queues := (queues s)[p := ts], running := (running s)(p \<mapsto> sp')\<rparr>)"
      using pick_ok [OF R 1(2,3)] by blast
    have "sp' = sp" "w' = w" using k(1) 1(5) by simp_all
    then have inv: "red_inv B H this dep xs s'" "cont_list B this w = cont_list B this (wld s)" "resns w = resns (wld s)"
      using k(2-4) 1(1) by simp_all
    have b: "busy H s' = busy H s" "waiting H s' = waiting H s - {p}" "p \<in> waiting H s" "p \<in> busy H s"
      using 1(2-4) ts O(2) unfolding 1(1) by (auto simp: busy_def waiting_def nth_list_update)
    have "card (waiting H s) = Suc (card (waiting H s - {p}))" by (rule card.remove [OF finite_waiting b(3)])
    then show ?thesis using inv b 1(1) by (simp add: work_left_def)
  next
    case 2
    have p: "p < H" "queues s ! p = []" using O(4) [OF 2(2)] by simp_all
    have inv: "red_inv B H this dep xs s'" "resns w \<noteq> [] \<or> card (busy H s) \<noteq> 1"
      "cont_list B this w = cont_list B this (wld s)"
      using join_ok [OF R 2(2)] unfolding 2(1,3) by (metis option.inject)+
    have b: "busy H s' = busy H s - {p}" "waiting H s' = waiting H s" "p \<in> busy H s"
      using 2(2) p unfolding 2(1) by (auto simp: busy_def waiting_def)
    have "card (busy H s) = Suc (card (busy H s - {p}))" by (rule card.remove [OF finite_busy b(3)])
    moreover have "busy H s' \<noteq> {} \<or> resns (wld s') \<noteq> []"
    proof (rule ccontr)
      assume "\<not> ?thesis"
      then have "busy H s - {p} = {}" "resns w = []" using b(1) 2(1) by simp_all
      moreover from this have "busy H s = {p}" using b(3) by blast
      ultimately show False using inv(2) by simp
    qed
    moreover have "busy H s \<noteq> {}" using b(3) by auto
    ultimately show ?thesis using inv b 2(1) by (simp add: work_left_def)
  qed
  then show "red_inv B H this dep xs s'" "work_left H s = Suc (work_left H s')"
    "cont_list B this (wld s') = cont_list B this (wld s)" by simp_all
qed

lemma user_step_inv:
  assumes "user_step B this s s'" "red_inv B H this dep xs s"
  shows "red_inv B H this dep xs s'" "work_left H s' = work_left H s"
    "cont_list B dep (wld s') = cont_list B dep (wld s)"
proof -
  obtain c d t T where R: "red_state B H this dep xs s c d t T"
    using assms(2) unfolding red_inv_def by blast
  note O = red_state_objs [OF R]
  have "red_inv B H this dep xs s' \<and> work_left H s' = work_left H s \<and>
    cont_list B dep (wld s') = cont_list B dep (wld s)"
  proof -
    obtain c' i x w where 1: "s' = s\<lparr>wld := w\<rparr>" "conts (wld s) this = Some c'" "i < sz (data c')"
      "unprotected_set B this i x (wld s) = Some w" using assms(1) by (auto elim!: user_stepE)
    have i: "i < sz (data c)" using 1(2,3) O(1) by simp
    show ?thesis
      using user_ok [OF R i, of x] 1(1,4) by (auto simp: work_left_def busy_def waiting_def)
  qed
  then show "red_inv B H this dep xs s'" "work_left H s' = work_left H s"
    "cont_list B dep (wld s') = cont_list B dep (wld s)" by simp_all
qed

lemma resolve_step_inv:
  assumes "resolve_step B H s s'" "red_inv B H this dep xs s"
  shows "red_inv B H this dep xs s'" "work_left H s = Suc (work_left H s')"
    "\<exists>ys. cont_list B this (wld s) = Some ys \<and> cont_list B dep (wld s') = Some [sum_list ys]"
proof -
  obtain c d t T where R: "red_state B H this dep xs s c d t T"
    using assms(2) unfolding red_inv_def by blast
  note O = red_state_objs [OF R]
  have "red_inv B H this dep xs s' \<and> work_left H s = Suc (work_left H s') \<and>
    (\<exists>ys. cont_list B this (wld s) = Some ys \<and> cont_list B dep (wld s') = Some [sum_list ys])"
  proof -
    obtain r rs w where 1: "s' = s\<lparr>wld := w\<lparr>resns := tl (resns w)\<rparr>\<rparr>" "resns (wld s) = r # rs"
      "run_resolution B H r (wld s) = Some w" using assms(1) by (auto elim!: resolve_stepE)
    have "resns (wld s) \<noteq> []" using 1(2) by simp
    from resolution_ok [OF R this] obtain w' where
      w': "resns (wld s) = [Resolve this dep]" "run_resolution B H (Resolve this dep) (wld s) = Some w'"
      "red_inv B H this dep xs (s\<lparr>wld := w'\<lparr>resns := tl (resns w')\<rparr>\<rparr>)" "busy H s = {}" "tl (resns w') = []"
      "cont_list B dep w' = Some [sum_list (vlist B (wheap (wld s)) (data c))]" by blast
    have w: "w = w'" using 1(2,3) w'(1,2) by simp
    have b: "busy H s' = {}" "waiting H s' = waiting H s" using w'(4) 1(1) by (auto simp: busy_def waiting_def)
    have "work_left H s = Suc (work_left H s')" using w'(1,4,5) b 1(1) w by (simp add: work_left_def)
    moreover have "cont_list B dep (wld s') = cont_list B dep w'" using 1(1) w by (simp add: cont_list_def)
    ultimately show ?thesis using w'(3,6) O(1) 1(1) w by (simp add: cont_list_def)
  qed
  then show "red_inv B H this dep xs s'" "work_left H s = Suc (work_left H s')"
    "\<exists>ys. cont_list B this (wld s) = Some ys \<and> cont_list B dep (wld s') = Some [sum_list ys]" by simp_all
qed

text \<open>While something is left, a worker or the resolution can go on.\<close>

lemma worker_can:
  assumes "red_inv B H this dep xs s" "busy H s \<noteq> {}"
  shows "\<exists>s'. splt_step B H this dep s s'"
proof -
  obtain c d t T where R: "red_state B H this dep xs s c d t T"
    using assms(1) unfolding red_inv_def by blast
  note O = red_state_objs [OF R]
  obtain p where p: "p < H" "queues s ! p \<noteq> [] \<or> running s p \<noteq> None" using assms(2) by (auto simp: busy_def)
  show ?thesis
  proof (cases "queues s ! p = []")
    case False
    then have q: "queues s ! p = [Reduce_splt this dep p]" "running s p = None" using O(3) [OF p(1)] by auto
    obtain sp w where "reduce_work B H this dep p (wld s) = Some (sp, w)"
      using pick_ok [OF R p(1) q(1)] by blast
    with splt_step.Pick [OF p(1) q] show ?thesis by blast
  next
    case True
    then obtain sp where sp: "running s p = Some sp" using p(2) by blast
    obtain w where "reattach B sp this dep p 0 1 (wld s) = Some w" using join_ok [OF R sp] by blast
    with splt_step.Join [OF sp] show ?thesis by blast
  qed
qed

lemma resolution_can:
  assumes "red_inv B H this dep xs s" "busy H s = {}" "work_left H s \<noteq> 0"
  shows "\<exists>s'. resolve_step B H s s'"
proof -
  obtain c d t T where R: "red_state B H this dep xs s c d t T"
    using assms(1) unfolding red_inv_def by blast
  have "waiting H s = {}" using assms(2) by (auto simp: busy_def waiting_def)
  then have rs: "resns (wld s) \<noteq> []" using assms(2,3) by (auto simp: work_left_def)
  obtain w where "resns (wld s) = [Resolve this dep]" "run_resolution B H (Resolve this dep) (wld s) = Some w"
    using resolution_ok [OF R rs] by blast
  with resolve_step.Run_resolution show ?thesis by blast
qed

lemma not_stuck:
  assumes "red_inv B H this dep xs s" "work_left H s \<noteq> 0"
  shows "\<exists>s'. splt_step B H this dep s s' \<or> resolve_step B H s s'"
  using worker_can [OF assms(1)] resolution_can [OF assms(1) _ assms(2)] by blast

section \<open>Runs\<close>

text \<open>Runs with the number of steps of the workers and the resolution.\<close>

inductive red_run ::
    "nat \<Rightarrow> nat \<Rightarrow> caddr \<Rightarrow> caddr \<Rightarrow> ('a::ab_group_add) red_sys \<Rightarrow> nat \<Rightarrow> 'a red_sys \<Rightarrow> bool"
  for B H this dep s0 where
  Run_start: "red_run B H this dep s0 0 s0"
| Run_worker: "red_run B H this dep s0 n s \<Longrightarrow> splt_step B H this dep s s' \<Longrightarrow> red_run B H this dep s0 (Suc n) s'"
| Run_resolve: "red_run B H this dep s0 n s \<Longrightarrow> resolve_step B H s s' \<Longrightarrow> red_run B H this dep s0 (Suc n) s'"
| Run_user: "red_run B H this dep s0 n s \<Longrightarrow> user_step B this s s' \<Longrightarrow> red_run B H this dep s0 n s'"

lemma red_run_inv:
  assumes "red_run B H this dep s0 n s" "red_inv B H this dep xs s0"
  shows "red_inv B H this dep xs s \<and> n + work_left H s = work_left H s0"
  using assms
proof induction
  case (Run_worker n s s')
  then show ?case using splt_step_inv [OF Run_worker(2), of xs] by simp
next
  case (Run_resolve n s s')
  then show ?case using resolve_step_inv [OF Run_resolve(2), of this dep xs] by simp
next
  case (Run_user n s s')
  then show ?case using user_step_inv [OF Run_user(2), of H dep xs] by simp
qed simp

lemma reduce_runs:
  assumes "reducible B H this xs s" "ct_reduce B H ct_plus this s = Some (dep, s1)"
    and "red_run B H this dep (red_sys_of s1) n s'"
  shows "red_inv B H this dep xs s'" "n + work_left H s' = 2 * H + 1"
proof -
  obtain s2 where r: "ct_reduce B H ct_plus this s = Some (wfresh (wld s), s2)"
    "red_inv B H this (wfresh (wld s)) xs (red_sys_of s2)" "busy H (red_sys_of s2) = {..<H}"
    "waiting H (red_sys_of s2) = {..<H}" using reduce_start [OF assms(1)] by blast
  then have e: "s2 = s1" "wfresh (wld s) = dep" using assms(2) by auto
  have "0 < H" using assms(1) by (auto simp: reducible_def chunks_fit_def)
  then have "{..<H} \<noteq> {}" by auto
  then have "work_left H (red_sys_of s1) = 2 * H + 1" using r(3,4) e by (simp add: work_left_def)
  with red_run_inv [OF assms(3), of xs] r(2) e
  show "red_inv B H this dep xs s'" "n + work_left H s' = 2 * H + 1" by simp_all
qed

text \<open>From every state the workers can finish on their own.\<close>

lemma workers_finish:
  assumes "red_inv B H this dep xs s" "work_left H s \<noteq> 0" "red_run B H this dep s0 n s"
  shows "\<exists>m s'. red_run B H this dep s0 m s' \<and> red_inv B H this dep xs s' \<and> busy H s' = {} \<and>
    work_left H s' \<noteq> 0 \<and> cont_list B this (wld s') = cont_list B this (wld s)"
  using assms
proof (induction "work_left H s" arbitrary: n s rule: less_induct)
  case less
  show ?case
  proof (cases "busy H s = {}")
    case True
    with less.prems show ?thesis by blast
  next
    case False
    obtain s' where s': "splt_step B H this dep s s'" using worker_can [OF less.prems(1) False] by blast
    note i = splt_step_inv [OF s' less.prems(1)]
    have "card (busy H s) \<noteq> 0" using False by simp
    then have "work_left H s' \<noteq> 0" using i(2) False by (auto simp: work_left_def [of H s])
    then obtain m s'' where "red_run B H this dep s0 m s''" "red_inv B H this dep xs s''" "busy H s'' = {}"
      "work_left H s'' \<noteq> 0" "cont_list B this (wld s'') = cont_list B this (wld s')"
      using less.hyps [OF _ i(1) _ Run_worker [OF less.prems(3) s']] i(2) by auto
    then show ?thesis using i(3) by auto
  qed
qed

text \<open>A vector of one value to reduce, and a run in which the program writes it after \<open>reduce\<close>.\<close>

lemma one_value_reducible:
  obtains s :: "int ct_sys" where "reducible 1 1 0 [7] s"
proof -
  obtain v h where v: "vecs_ok 1 (h :: int store) [v]" "vlist 1 h v = [7]" "ids_below 1 h" "sz v = 1"
    by (rule one_element_vec)
  let ?v = "v\<lparr>vid := 0\<rparr>"
  let ?s = "\<lparr>wld = \<lparr>wheap = h, wnext = 1, conts = [0 \<mapsto> empty_cont ?v ?v], wfresh = 1, resns = []\<rparr>,
    queues = [[]]\<rparr> :: int ct_sys"
  have "vecs_ok 1 h [?v]" using vecs_ok_vid [OF v(1), of v 0] vecs_ok_subset by fastforce
  then have "reducible 1 1 0 [7] ?s"
    using v(2,3) by (simp add: reducible_def empty_cont_def chunks_fit_def chunk_sz_eq)
  then show ?thesis by (rule that)
qed

lemma write_then_resolve:
  assumes "reducible B H this xs s" "i < length xs"
  shows "\<exists>dep s1 n s' s''. ct_reduce B H ct_plus this s = Some (dep, s1) \<and>
    red_run B H this dep (red_sys_of s1) n s' \<and> resolve_step B H s' s'' \<and>
    cont_list B this (wld s') = Some (xs[i := x])"
proof -
  let ?dep = "wfresh (wld s)"
  obtain s1 where s1: "ct_reduce B H ct_plus this s = Some (?dep, s1)" "red_inv B H this ?dep xs (red_sys_of s1)"
    "busy H (red_sys_of s1) = {..<H}" "cont_list B this (wld s1) = Some xs"
    using reduce_start [OF assms(1)] by blast
  let ?s = "red_sys_of s1"
  have ws: "wld ?s = wld s1" by (simp add: red_sys_of_def)
  obtain c d t T where R: "red_state B H this ?dep xs ?s c d t T"
    using s1(2) unfolding red_inv_def by blast
  have c: "conts (wld ?s) this = Some c" using red_state_objs(1) [OF R] .
  then have l: "vlist B (wheap (wld ?s)) (data c) = xs" using s1(4) ws by (simp add: cont_list_def)
  then have i: "i < sz (data c)" using assms(2) by auto
  obtain w where w: "unprotected_set B this i x (wld ?s) = Some w" "cont_list B this w = Some (xs[i := x])"
    using user_ok [OF R i, of x] l by auto
  let ?s2 = "?s\<lparr>wld := w\<rparr>"
  have u: "user_step B this ?s ?s2" using user_step.User_set [OF c i w(1)] .
  note i2 = user_step_inv [OF u s1(2)]
  have "0 < H" using assms(1) by (auto simp: reducible_def chunks_fit_def)
  then have "{..<H} \<noteq> {}" by auto
  then have "work_left H ?s2 \<noteq> 0" using i2(2) s1(3) by (simp add: work_left_def)
  then obtain m s' where r: "red_run B H this ?dep ?s m s'" "red_inv B H this ?dep xs s'" "busy H s' = {}"
    "work_left H s' \<noteq> 0" "cont_list B this (wld s') = cont_list B this w"
    using workers_finish [OF i2(1) _ Run_user [OF Run_start u]] by auto
  obtain s'' where "resolve_step B H s' s''" using resolution_can [OF r(2,3,4)] by blast
  with s1(1) r(1,5) w(2) show ?thesis by auto
qed

section \<open>Properties\<close>





text \<open>C12. Isolation: in every run the workers' steps leave what the program's vector holds alone, and
  the program's writes never reach the dependent before the resolution.\<close>

theorem reduce_isolation:
  assumes "reducible B H this xs s" and "ct_reduce B H ct_plus this s = Some (dep, s1)"
    and "red_run B H this dep (red_sys_of s1) n s'"
  shows "(splt_step B H this dep s' s'' \<longrightarrow> cont_list B this (wld s'') = cont_list B this (wld s')) \<and>
    (user_step B this s' s'' \<longrightarrow> cont_list B dep (wld s'') = cont_list B dep (wld s'))"
  using splt_step_inv(3) user_step_inv(3) reduce_runs(1) [OF assms] by blast

theorem reduce_isolation_witness:
  "\<exists>s dep s1 n s' s''. reducible 1 1 0 [7] (s :: int ct_sys) \<and> ct_reduce 1 1 ct_plus 0 s = Some (dep, s1) \<and>
     red_run 1 1 0 dep (red_sys_of s1) n s' \<and> splt_step 1 1 0 dep s' s'' \<and>
     cont_list 1 0 (wld s'') = cont_list 1 0 (wld s')"
proof -
  obtain s :: "int ct_sys" where s: "reducible 1 1 0 [7] s" by (rule one_value_reducible)
  obtain s1 where s1: "ct_reduce 1 1 ct_plus 0 s = Some (wfresh (wld s), s1)"
    "red_inv 1 1 0 (wfresh (wld s)) [7] (red_sys_of s1)" "busy 1 (red_sys_of s1) = {..<1}"
    using reduce_start [OF s] by blast
  then have "busy 1 (red_sys_of s1) \<noteq> {}" by auto
  then obtain s'' where w: "splt_step 1 1 0 (wfresh (wld s)) (red_sys_of s1) s''"
    using worker_can [OF s1(2)] by blast
  from reduce_isolation [OF s s1(1) Run_start] s s1(1) w Run_start show ?thesis by blast
qed

end
