(* ===== verification/Bp_Fence.thy ===== *)
theory Bp_Fence imports
  Vec_Share Bp_Assign
begin

text \<open>
  A fence around the nodes of one writer: no node of another id points to them. A vector whose root
  lies outside shares none of them, and whatever another writer does from outside stays outside,
  even an assignment that takes over whole branches of a third vector.
\<close>

section \<open>The fence\<close>

definition fenced :: "id32 \<Rightarrow> 'a store \<Rightarrow> bool" where
  "fenced own h \<longleftrightarrow> (\<forall>a j c. protected tr_vector own h a \<longrightarrow> load_branch h a j = Some c \<longrightarrow>
    protected tr_vector own h c)"

definition outside :: "id32 \<Rightarrow> 'a store \<Rightarrow> 'a store \<Rightarrow> bool" where
  "outside own h h' \<longleftrightarrow> fenced own h' \<and> (\<forall>a. protected tr_vector own h a \<longrightarrow> protected tr_vector own h' a)"

lemma outside_refl: "fenced own h \<Longrightarrow> outside own h h"
  by (simp add: outside_def)

lemma outside_trans: "outside own h h1 \<Longrightarrow> outside own h1 h2 \<Longrightarrow> outside own h h2"
  by (simp add: outside_def)

lemma outsideD:
  "outside own h h' \<Longrightarrow> fenced own h'"
  "outside own h h' \<Longrightarrow> protected tr_vector own h a \<Longrightarrow> protected tr_vector own h' a"
  by (simp_all add: outside_def)

lemma fenced_load:
  "fenced own h \<Longrightarrow> protected tr_vector own h a \<Longrightarrow> load_branch h a j = Some c \<Longrightarrow> protected tr_vector own h c"
  unfolding fenced_def by blast

text \<open>Nobody points to the nodes of an id nobody has.\<close>

lemma fenced_fresh:
  assumes "store_ok B T h" "\<forall>a n. cells h a = Some n \<longrightarrow> nid n \<noteq> own"
  shows "fenced own h"
  unfolding fenced_def
proof (intro allI impI)
  fix a j c assume "load_branch h a j = Some c"
  then obtain n bs where n: "cells h a = Some n" "u n = U_branches bs" "j < length bs" "bs ! j = Some c"
    by (auto simp: load_branch_Some)
  then obtain k q where "node_ok B T n k q" using store_ok_typed [OF assms(1)] by blast
  then obtain p where "T c = Some p" using n by (auto simp: node_ok_def)
  then have "cells h c \<noteq> None" using store_okD [OF assms(1)] by (cases p) fastforce
  then show "protected tr_vector own h c" using assms(2) by (auto simp: protected_def)
qed

text \<open>The owner's writes leave the fence.\<close>

lemma fenced_keeps:
  assumes "fenced own h" "keeps tr_vector own h h'"
  shows "outside own h h'"
proof -
  have before: "protected tr_vector own h a" if p: "protected tr_vector own h' a" for a
  proof -
    obtain m where m: "cells h' a = Some m" "own \<noteq> nid m" using p by (auto simp: protected_def)
    then obtain n where "cells h a = Some n" using assms(2) unfolding keeps_def by (cases "cells h a") auto
    then show ?thesis using keeps_dom [OF assms(2)] m by (fastforce simp: protected_def)
  qed
  have "load_branch h' a j = load_branch h a j" if "protected tr_vector own h a" for a j
    using load_cong(1) keeps_protected [OF assms(2) that] by blast
  then show ?thesis
    using assms(1) before protected_keeps [OF assms(2)] unfolding outside_def fenced_def by metis
qed

text \<open>A vector outside the fence.\<close>

lemma fenced_node_at:
  "fenced own h \<Longrightarrow> protected tr_vector own h a \<Longrightarrow> node_at B h a k i n = Some b \<Longrightarrow> protected tr_vector own h b"
proof (induction n arbitrary: b)
  case (Suc n)
  then show ?case using fenced_load by (auto simp: bind_rules)
qed simp

lemma fenced_unshared:
  assumes "0 < B" "vec_ok B T h v" "fenced own h" "protected tr_vector own h (root v)"
  shows "unshared B tr_vector own h v"
  unfolding unshared_iff [OF assms(1,2)] using fenced_node_at [OF assms(3,4)] by blast

section \<open>Writers outside\<close>

lemma alloc_outside:
  assumes "fenced own h" "nid n \<noteq> own" "\<And>bs j c. u n = U_branches bs \<Longrightarrow> j < length bs \<Longrightarrow> bs ! j = Some c \<Longrightarrow>
    protected tr_vector own h c"
  shows "outside own h (snd (alloc h n))" "protected tr_vector own (snd (alloc h n)) (fresh h)"
proof -
  have up: "protected tr_vector own (snd (alloc h n)) a" if "protected tr_vector own h a \<or> a = fresh h" for a
    using that assms(2) by (auto simp: protected_def)
  have "protected tr_vector own (snd (alloc h n)) c"
    if "protected tr_vector own (snd (alloc h n)) a" "load_branch (snd (alloc h n)) a j = Some c" for a j c
  proof (cases "a = fresh h")
    case True
    then show ?thesis using that(2) assms(3) up by (auto simp: load_branch_Some)
  next
    case False
    then have "protected tr_vector own h a" "load_branch h a j = Some c"
      using that by (auto simp: protected_def load_branch_def)
    then show ?thesis using up fenced_load [OF assms(1)] by blast
  qed
  then show "outside own h (snd (alloc h n))" using up unfolding outside_def fenced_def by blast
  show "protected tr_vector own (snd (alloc h n)) (fresh h)" using up by blast
qed

lemma protected_store_branch:
  "store_branch h a j c = Some h' \<Longrightarrow> protected tr_vector own h' b = protected tr_vector own h b"
  by (auto simp: store_rules protected_def split: if_splits)

lemma protected_store_leaf:
  "store_leaf h a j x = Some h' \<Longrightarrow> protected tr_vector own h' b = protected tr_vector own h b"
  by (auto simp: store_rules protected_def split: if_splits)

lemma store_branch_outside:
  assumes "fenced own h" "store_branch h a j c = Some h'" "protected tr_vector own h c"
  shows "outside own h h'"
  using assms(1,3) unfolding outside_def fenced_def protected_store_branch [OF assms(2)]
    load_branch_store_branch [OF assms(2)] by auto

lemma store_leaf_outside:
  assumes "fenced own h" "store_leaf h a j x = Some h'"
  shows "outside own h h'"
  using assms(1) unfolding outside_def fenced_def protected_store_leaf [OF assms(2)]
    load_branch_store_leaf [OF assms(2)] by auto

lemma cow_root_outside:
  assumes "fenced own h" "me \<noteq> own" "protected tr_vector own h r" "cow_root tr_vector me h r = Some (r', h')"
  shows "outside own h h' \<and> protected tr_vector own h' r'"
proof -
  obtain n where n: "cells h r = Some n" using assms(4) by (auto simp: cow_root_def bind_rules)
  have "protected tr_vector own h c" if "u n = U_branches bs" "j < length bs" "bs ! j = Some c" for bs j c
    using fenced_load [OF assms(1,3), of j c] n that by (auto simp: load_branch_Some)
  then have "outside own h (snd (alloc h (copy_node n me))) \<and>
      protected tr_vector own (snd (alloc h (copy_node n me))) (fresh h)"
    using alloc_outside [OF assms(1), of "copy_node n me"] assms(2) by simp
  then show ?thesis
    using assms(1,3,4) n outside_refl by (auto simp: cow_root_def alloc_def split: if_splits)
qed

lemma cow_child_outside:
  assumes "fenced own h" "me \<noteq> own" "protected tr_vector own h a" "cow_child tr_vector me h a j = Some (c, h')"
  shows "outside own h h' \<and> protected tr_vector own h' c"
proof -
  obtain c0 n where c0: "load_branch h a j = Some c0" "cells h c0 = Some n"
    using assms(4) by (auto simp: cow_child_def bind_rules)
  have p: "protected tr_vector own h c0" by (rule fenced_load [OF assms(1,3) c0(1)])
  show ?thesis
  proof (cases "node_copy tr_vector me (nid n)")
    case True
    have "cow_root tr_vector me h c0 = Some (fresh h, snd (alloc h (copy_node n me)))"
      using True c0(2) by (simp add: cow_root_def alloc_def)
    from cow_root_outside [OF assms(1,2) p this]
    have o: "outside own h (snd (alloc h (copy_node n me)))"
      "protected tr_vector own (snd (alloc h (copy_node n me))) (fresh h)" by blast+
    have st: "store_branch (snd (alloc h (copy_node n me))) a j (fresh h) = Some h'" "c = fresh h"
      using assms(4) c0 True by (auto simp: cow_child_def alloc_def bind_rules)
    show ?thesis
      using outside_trans [OF o(1) store_branch_outside [OF outsideD(1) [OF o(1)] st(1) o(2)]]
        protected_store_branch [OF st(1)] o(2) st(2) by simp
  next
    case False
    then show ?thesis using assms(1,4) c0 p outside_refl by (auto simp: cow_child_def)
  qed
qed

lemma cow_walk_outside:
  "cow_walk B tr_vector me h a s i = Some (l, h') \<Longrightarrow> me \<noteq> own \<Longrightarrow> fenced own h \<Longrightarrow> protected tr_vector own h a \<Longrightarrow>
    outside own h h'"
proof (induction B tr_vector me h a s i rule: cow_walk.induct)
  case (1 B own' h a s i)
  show ?case
  proof (cases "s = 0")
    case True
    then show ?thesis using 1(2,4) outside_refl by (simp add: cow_walk.simps)
  next
    case False
    then obtain c h1 where c: "cow_child tr_vector own' h a (slot B i s) = Some (c, h1)"
      "cow_walk B tr_vector own' h1 c (s - B) i = Some (l, h')" "\<not> (B = 0 \<or> s < B)"
      using 1(2) by (subst (asm) cow_walk.simps) (auto simp: bind_rules split: if_splits)
    note o = cow_child_outside [OF 1(4,3,5) c(1)]
    show ?thesis
      using 1(1) [OF False c(3,1) refl c(2) 1(3)] o outsideD(1) outside_trans by blast
  qed
qed

lemma cow_branch_loop_outside:
  "cow_branch_loop B tr_vector me h a s d i = Some (l, d', h') \<Longrightarrow> me \<noteq> own \<Longrightarrow> fenced own h \<Longrightarrow>
    protected tr_vector own h a \<Longrightarrow> outside own h h'"
proof (induction B tr_vector me h a s d i rule: cow_branch_loop.induct)
  case (1 B own' h a s d i)
  show ?case
  proof (cases "s = 0 \<or> d - 1 = 0")
    case True
    then show ?thesis using 1(2,4) outside_refl by (auto simp: cow_branch_loop.simps [of B tr_vector own' h a s d i] split: if_splits)
  next
    case False
    then obtain c h1 where c: "cow_child tr_vector own' h a (slot B i s) = Some (c, h1)"
      "cow_branch_loop B tr_vector own' h1 c (s - B) (d - 1) i = Some (l, d', h')" "\<not> (B = 0 \<or> s < B)"
      using 1(2) by (subst (asm) cow_branch_loop.simps) (auto simp: bind_rules split: if_splits)
    note o = cow_child_outside [OF 1(4,3,5) c(1)]
    have nz: "s \<noteq> 0" "d - 1 \<noteq> 0" using False by simp_all
    show ?thesis
      using 1(1) [OF nz c(3,1) refl c(2) 1(3)] o outsideD(1) outside_trans by blast
  qed
qed

lemma branch_loop_outside:
  "branch_loop B h a s d i = Some (l, d') \<Longrightarrow> fenced own h \<Longrightarrow> protected tr_vector own h a \<Longrightarrow> protected tr_vector own h l"
proof (induction B h a s d i rule: branch_loop.induct)
  case (1 B h a s d i)
  show ?case
  proof (cases "s = 0 \<or> d - 1 = 0")
    case True
    then show ?thesis using 1(2,4) by (auto simp: branch_loop.simps [of B h a s d i] split: if_splits)
  next
    case False
    then obtain c where c: "load_branch h a (slot B i s) = Some c"
      "branch_loop B h c (s - B) (d - 1) i = Some (l, d')" "\<not> (B = 0 \<or> s < B)"
      using 1(2) by (subst (asm) branch_loop.simps) (auto simp: bind_rules split: if_splits)
    have nz: "s \<noteq> 0" "d - 1 \<noteq> 0" using False by simp_all
    show ?thesis using 1(1) [OF nz c(3,1) c(2) 1(3)] fenced_load [OF 1(3,4) c(1)] by blast
  qed
qed

text \<open>A mutable iterator of the writer.\<close>

definition it_outside :: "id32 \<Rightarrow> id32 \<Rightarrow> 'a store \<Rightarrow> iter \<Rightarrow> bool" where
  "it_outside own me h it \<longleftrightarrow> it_id it = me \<and> protected tr_vector own h (it_root it)"

lemma it_outside_step: "it_outside own me h it \<Longrightarrow> outside own h h' \<Longrightarrow> it_outside own me h' it"
  by (simp add: it_outside_def outside_def)

lemma it_begin_outside:
  assumes "it_begin B h v = Some (it, v', h')" "vid v \<noteq> own" "fenced own h" "protected tr_vector own h (root v)"
  shows "outside own h h' \<and> it_outside own (vid v) h' it \<and> protected tr_vector own h' (root v') \<and> vid v' = vid v"
proof -
  obtain r h1 l where c: "cow_root tr_vector (vid v) h (root v) = Some (r, h1)"
    "cow_walk B tr_vector (vid v) h1 r (shift v) 0 = Some (l, h')" "it_root it = r" "it_id it = vid v" "v' = v\<lparr>root := r\<rparr>"
    using assms(1) by (auto simp: it_begin_def bind_rules)
  note o = cow_root_outside [OF assms(3,2,4) c(1)]
  have "outside own h1 h'" using cow_walk_outside [OF c(2) assms(2)] o outsideD(1) by blast
  then show ?thesis using o c(3-5) outside_trans outsideD(2) by (fastforce simp: it_outside_def)
qed

lemma iter_inc_outside:
  assumes "iter_inc B h it = Some (it', h')" "it_outside own me h it" "me \<noteq> own" "fenced own h"
  shows "outside own h h' \<and> it_outside own me h' it'"
proof -
  have "outside own h h'"
    using assms outside_refl [OF assms(4)] cow_walk_outside
    by (auto simp: iter_inc_def it_outside_def bind_rules split: if_splits)
  moreover have "it_root it' = it_root it" "it_id it' = it_id it"
    using assms(1) by (auto simp: iter_inc_def bind_rules split: if_splits)
  ultimately show ?thesis using assms(2) by (simp add: it_outside_def outside_def)
qed

lemma iter_add_outside:
  assumes "iter_add B h it n = Some (it', h')" "it_outside own me h it" "me \<noteq> own" "fenced own h"
  shows "outside own h h' \<and> it_outside own me h' it'"
proof -
  have "outside own h h'"
    using assms outside_refl [OF assms(4)] cow_walk_outside
    by (auto simp: iter_add_def it_outside_def bind_rules split: if_splits prod.splits)
  moreover have "it_root it' = it_root it" "it_id it' = it_id it"
    using assms(1) by (auto simp: iter_add_def bind_rules split: if_splits prod.splits)
  ultimately show ?thesis using assms(2) by (simp add: it_outside_def outside_def)
qed

lemma it_assign_outside: "it_assign h it x = Some h' \<Longrightarrow> fenced own h \<Longrightarrow> outside own h h'"
  by (simp add: it_assign_def store_leaf_outside)

text \<open>The two copying loops make the same step.\<close>

lemma copy_step_outside:
  assumes "it_assign h d x = Some h1" "iter_inc B h1 d = Some (d', h2)" "it_outside own me h d" "me \<noteq> own" "fenced own h"
  shows "outside own h h2 \<and> it_outside own me h2 d'"
proof -
  note a = it_assign_outside [OF assms(1,5)]
  note b = iter_inc_outside [OF assms(2) it_outside_step [OF assms(3) a] assms(4) outsideD(1) [OF a]]
  then show ?thesis using a outside_trans by blast
qed

lemma copy_src_outside:
  "copy_src B h it e d = Some h' \<Longrightarrow> it_outside own me h d \<Longrightarrow> me \<noteq> own \<Longrightarrow> fenced own h \<Longrightarrow> outside own h h'"
proof (induction rule: copy_src.raw_induct [rotated 1, consumes 1, case_names step])
  case (step f B h it e d h')
  show ?case
  proof (cases "it_eq it e")
    case True
    then show ?thesis using step outside_refl by simp
  next
    case False
    then obtain x h1 d' h2 it' where c: "it_assign h d x = Some h1" "iter_inc B h1 d = Some (d', h2)"
      "f B h2 it' e d' = Some h'" using step(2) by (auto simp: bind_rules)
    note o = copy_step_outside [OF c(1,2) step(3-5)]
    then have "outside own h2 h'" using step(1) [OF c(3) _ step(4)] outsideD(1) by blast
    then show ?thesis using o outside_trans by blast
  qed
qed

lemma copy_dst_outside:
  "copy_dst B h it d e = Some h' \<Longrightarrow> it_outside own me h d \<Longrightarrow> me \<noteq> own \<Longrightarrow> fenced own h \<Longrightarrow> outside own h h'"
proof (induction rule: copy_dst.raw_induct [rotated 1, consumes 1, case_names step])
  case (step f B h it d e h')
  show ?case
  proof (cases "it_eq d e")
    case True
    then show ?thesis using step outside_refl by simp
  next
    case False
    then obtain x h1 d' h2 it' where c: "it_assign h d x = Some h1" "iter_inc B h1 d = Some (d', h2)"
      "f B h2 it' d' e = Some h'" using step(2) by (auto simp: bind_rules)
    note o = copy_step_outside [OF c(1,2) step(3-5)]
    then have "outside own h2 h'" using step(1) [OF c(3) _ step(4)] outsideD(1) by blast
    then show ?thesis using o outside_trans by blast
  qed
qed

section \<open>assign outside\<close>

text \<open>A step of the writer on its vector.\<close>

definition stays :: "id32 \<Rightarrow> 'a store \<Rightarrow> vec \<Rightarrow> 'a store \<Rightarrow> vec \<Rightarrow> bool" where
  "stays own h v h' v' \<longleftrightarrow> outside own h h' \<and> protected tr_vector own h' (root v') \<and> vid v' = vid v"

lemma staysI: "outside own h h' \<Longrightarrow> protected tr_vector own h' (root v') \<Longrightarrow> vid v' = vid v \<Longrightarrow> stays own h v h' v'"
  by (simp add: stays_def)

lemma staysD:
  assumes "stays own h v h' v'"
  shows "outside own h h'" "protected tr_vector own h' (root v')" "vid v' = vid v" "fenced own h'"
  using assms by (auto simp: stays_def outside_def)

lemma stays_refl: "fenced own h \<Longrightarrow> protected tr_vector own h (root v) \<Longrightarrow> stays own h v h v"
  by (simp add: stays_def outside_refl)

lemma stays_trans: "stays own h v h1 v1 \<Longrightarrow> stays own h1 v1 h2 v2 \<Longrightarrow> stays own h v h2 v2"
  using outside_trans by (fastforce simp: stays_def)

lemma it_begin_stays:
  assumes "it_begin B h v = Some (it, v', h')" "vid v \<noteq> own" "fenced own h" "protected tr_vector own h (root v)"
  shows "stays own h v h' v' \<and> it_outside own (vid v) h' it"
  using it_begin_outside [OF assms] by (simp add: stays_def)

lemma stays_outside: "stays own h v h1 v1 \<Longrightarrow> outside own h1 h2 \<Longrightarrow> stays own h v h2 v1"
  using outside_trans outsideD(2) by (fastforce simp: stays_def)

lemma copy_values_src_stays:
  assumes "copy_values_src B h v w a b = Some (v', h')" "vid v \<noteq> own" "fenced own h"
    "protected tr_vector own h (root v)"
  shows "stays own h v h' v'"
proof -
  obtain it e d0 h1 d h2 where c: "it_begin B h v = Some (d0, v', h1)" "iter_add B h1 d0 a = Some (d, h2)"
    "copy_src B h2 it e d = Some h'" using assms(1) by (auto simp: copy_values_src_def bind_rules)
  note s1 = it_begin_stays [OF c(1) assms(2-4)]
  have s2: "outside own h1 h2 \<and> it_outside own (vid v) h2 d"
    using iter_add_outside [OF c(2)] s1 assms(2) staysD(4) by blast
  have "outside own h2 h'" using copy_src_outside [OF c(3)] s2 assms(2) outsideD(1) by blast
  with s1 s2 show ?thesis using stays_outside outside_trans by blast
qed

lemma copy_values_dst_stays:
  assumes "copy_values_dst B h v w a b = Some (v', h')" "vid v \<noteq> own" "fenced own h"
    "protected tr_vector own h (root v)"
  shows "stays own h v h' v'"
proof -
  obtain it d0 v1 h1 e h2 d1 h3 d h4 where c: "it_begin B h v = Some (d0, v1, h1)" "iter_add B h1 d0 b = Some (e, h2)"
    "it_begin B h2 v1 = Some (d1, v', h3)" "iter_add B h3 d1 a = Some (d, h4)" "copy_dst B h4 it d e = Some h'"
    using assms(1) by (auto simp: copy_values_dst_def bind_rules)
  note s1 = it_begin_stays [OF c(1) assms(2-4)]
  have s2: "outside own h1 h2" using iter_add_outside [OF c(2)] s1 assms(2) staysD(4) by blast
  then have t2: "stays own h v h2 v1" using s1 stays_outside by blast
  have v1: "vid v1 \<noteq> own" using staysD(3) [OF t2] assms(2) by simp
  note s3 = it_begin_stays [OF c(3) v1 staysD(4,2) [OF t2]]
  have s4: "outside own h3 h4 \<and> it_outside own (vid v1) h4 d"
    using iter_add_outside [OF c(4)] s3 v1 staysD(4) by blast
  have "outside own h4 h'" using copy_dst_outside [OF c(5)] s4 v1 outsideD(1) by blast
  with s3 s4 t2 show ?thesis using stays_outside stays_trans by blast
qed

lemma copy_slots_outside:
  assumes "copy_slots h src dst x y = Some h'" "fenced own h" "protected tr_vector own h src"
  shows "outside own h h'"
proof -
  obtain n bs m cs where c: "cells h src = Some n" "u n = U_branches bs" "cells h dst = Some m" "u m = U_branches cs"
    "x \<le> y" "y \<le> length bs" "y \<le> length cs"
    "h' = h\<lparr>cells := (cells h)(dst \<mapsto> m\<lparr>u := U_branches (take x cs @ take (y - x) (drop x bs) @ drop y cs)\<rparr>)\<rparr>"
    using assms(1) by (auto simp: copy_slots_def bind_rules split: if_splits)
  have p: "protected tr_vector own h' a = protected tr_vector own h a" for a
    using c(3,8) by (simp add: protected_def)
  have l: "\<exists>b i. load_branch h b i = Some d \<and> (b = a \<or> b = src)" if "load_branch h' a j = Some d" for a j d
  proof (cases "a = dst")
    case True
    then have j: "j < length cs" "(take x cs @ take (y - x) (drop x bs) @ drop y cs) ! j = Some d"
      using that c(3,5-8) by (auto simp: load_branch_Some)
    show ?thesis
    proof (cases "x \<le> j \<and> j < y")
      case True
      then have "j - x < y - x" by linarith
      with True have "load_branch h src j = Some d"
        using j c(1,2,5-7) by (auto simp: load_branch_Some nth_append)
      then show ?thesis by blast
    next
      case False
      then have "load_branch h dst j = Some d"
        using j c(3-7) by (auto simp: load_branch_Some nth_append split: if_splits)
      then show ?thesis using True by blast
    qed
  next
    case False
    then have "load_branch h a j = Some d" using that c(8) by (simp add: load_branch_def)
    then show ?thesis by blast
  qed
  show ?thesis
    using fenced_load [OF assms(2)] l assms(3) unfolding outside_def fenced_def p by blast
qed

lemma copy_branches_stays:
  assumes "copy_branches B tr_vector h v w d i j x y = Some (v', h')" "vid v \<noteq> own" "fenced own h"
    "protected tr_vector own h (root v)" "protected tr_vector own h (root w)"
  shows "stays own h v h' v'"
proof -
  obtain src dst h1 where c: "get_branch_const B h w d i = Some src" "get_branch B tr_vector h v d i = Some (dst, v', h1)"
    "copy_slots h1 src dst x y = Some h'" using assms(1) by (auto simp: copy_branches_def bind_rules split: if_splits)
  have src: "protected tr_vector own h src"
    using c(1) branch_loop_outside [OF _ assms(3,5)]
    by (auto simp: get_branch_const_def inner_node_def bind_rules split: if_splits)
  obtain r h0 a d1 where g: "cow_root tr_vector (vid v) h (root v) = Some (r, h0)"
    "cow_branch_loop B tr_vector (vid v) h0 r (shift v) (word_of_nat d) i = Some (a, d1, h1)" "v' = v\<lparr>root := r\<rparr>"
    using c(2) by (auto simp: get_branch_def bind_rules)
  note o = cow_root_outside [OF assms(3,2,4) g(1)]
  have o1: "outside own h0 h1" using cow_branch_loop_outside [OF g(2) assms(2)] o outsideD(1) by blast
  have "stays own h v h1 v'" using o o1 g(3) outside_trans outsideD(2) by (fastforce simp: stays_def)
  moreover from this have "outside own h1 h'"
    using copy_slots_outside [OF c(3)] src staysD(1,4) outsideD(2) by blast
  ultimately show ?thesis by (rule stays_outside)
qed

lemma assign_up_stays:
  "assign_up B kd h v w il last_il ar s = Some r \<Longrightarrow> kd = tr_vector \<Longrightarrow> vid v \<noteq> own \<Longrightarrow> fenced own h \<Longrightarrow>
    protected tr_vector own h (root v) \<Longrightarrow> protected tr_vector own h (root w) \<Longrightarrow> stays own h v (snd r) (fst r)"
proof (induction rule: assign_up.raw_induct [rotated 1, consumes 1, case_names step])
  case (step f B kd h v w il last_il ar s r)
  show ?case
  proof (cases "il = last_il")
    case True
    then show ?thesis using step stays_refl by auto
  next
    case False
    let ?ar = "next_mult ar (push_bit B il)"
    show ?thesis
    proof (cases "ar = ?ar")
      case True
      then show ?thesis using step False by (auto simp: Let_def split: if_splits)
    next
      case ne: False
      then obtain d x v1 h1 where c: "copy_branches B kd h v w d ar (?ar - 1) x (BP_WIDTH B) = Some (v1, h1)"
        "f B kd h1 v1 w (push_bit B il) last_il ?ar (s + B) = Some r"
        using step(2) False by (auto simp: Let_def bind_rules split: if_splits)
      have s1: "stays own h v h1 v1" using copy_branches_stays c(1) step(3-7) by blast
      have "stays own h1 v1 (snd r) (fst r)"
        using step(1) [OF c(2) step(3)] staysD [OF s1] step(4,7) outsideD(2) by metis
      with s1 show ?thesis by (rule stays_trans)
    qed
  qed
qed

lemma assign_down_stays:
  "assign_down B kd h v w il b br s = Some r \<Longrightarrow> kd = tr_vector \<Longrightarrow> vid v \<noteq> own \<Longrightarrow> fenced own h \<Longrightarrow>
    protected tr_vector own h (root v) \<Longrightarrow> protected tr_vector own h (root w) \<Longrightarrow>
    stays own h v (fst (snd r)) (fst r)"
proof (induction rule: assign_down.raw_induct [rotated 1, consumes 1, case_names step])
  case (step f B kd h v w il b br s r)
  show ?case
  proof (cases "il = BP_WIDTH B")
    case True
    then show ?thesis using step stays_refl by auto
  next
    case False
    let ?il = "drop_bit B il"
    let ?br = "if b \<noteq> next_mult b ?il then next_mult b ?il - ?il else next_mult b ?il"
    show ?thesis
    proof (cases "br = ?br")
      case True
      have "f B kd h v w ?il b ?br (s - B) = Some r"
        using step(2) False True unfolding Let_def by (simp only: simp_thms if_False if_True)
      then show ?thesis using step(1) step(3-7) by blast
    next
      case ne: False
      then obtain d x v1 h1 where c: "copy_branches B kd h v w d br (?br - 1) (slot B br (s - B)) x = Some (v1, h1)"
        "f B kd h1 v1 w ?il b ?br (s - B) = Some r"
        using step(2) False unfolding Let_def
        by (simp only: if_False if_True bind_rules split: if_splits) auto
      have s1: "stays own h v h1 v1" using copy_branches_stays c(1) step(3-7) by blast
      have "stays own h1 v1 (fst (snd r)) (fst r)"
        using step(1) [OF c(2) step(3)] staysD [OF s1] step(4,7) outsideD(2) by metis
      with s1 show ?thesis by (rule stays_trans)
    qed
  qed
qed

lemma assign_stays:
  assumes "assign B tr_vector h v w a b = Some (v', h')" "vid v \<noteq> own" "fenced own h"
    "protected tr_vector own h (root v)" "protected tr_vector own h (root w)"
  shows "stays own h v h' v'"
proof (cases "b - a < BP_WIDTH B")
  case True
  then obtain v1 h1 where c: "copy_values_src B h v w a (min (next_mult a (BP_WIDTH B)) b) = Some (v1, h1)"
    "copy_values_src B h1 v1 w (min (next_mult a (BP_WIDTH B)) b) b = Some (v', h')"
    using assms(1) by (auto simp: assign_def bind_rules split: if_splits)
  note s1 = copy_values_src_stays [OF c(1) assms(2-4)]
  have "vid v1 \<noteq> own" using staysD(3) [OF s1] assms(2) by simp
  from copy_values_src_stays [OF c(2) this staysD(4,2) [OF s1]] show ?thesis by (rule stays_trans [OF s1])
next
  case False
  then obtain v1 h1 x il s v2 h2 d y z v3 h3 v4 h4 br where c:
    "(if 0 < next_mult a (BP_WIDTH B) - a then copy_values_dst B h v w a (next_mult a (BP_WIDTH B)) else Some (v, h)) = Some (v1, h1)"
    "assign_up B tr_vector h1 v1 w (BP_WIDTH B) il (next_mult a (BP_WIDTH B)) 0 = Some (v2, h2)"
    "assign_mid B tr_vector h2 v2 w s d y z = Some (v3, h3)"
    "assign_down B tr_vector h3 v3 w il b z s = Some (v4, h4, br)"
    "(if 0 < b - br then copy_values_dst B h4 v4 w br b else Some (v4, h4)) = Some (v', h')"
    using assms(1) unfolding assign_def by (auto simp: bind_rules Let_def split: if_splits)
  have s1: "stays own h v h1 v1"
    using c(1) copy_values_dst_stays [OF _ assms(2-4)] stays_refl [OF assms(3,4)] by (auto split: if_splits)
  have ne: "vid v1 \<noteq> own" "protected tr_vector own h1 (root w)"
    using staysD(1,3) [OF s1] assms(2,5) outsideD(2) by auto
  have s2: "stays own h1 v1 h2 v2"
    using assign_up_stays [OF c(2) refl ne(1) staysD(4,2) [OF s1] ne(2)] by simp
  have ne2: "vid v2 \<noteq> own" "protected tr_vector own h2 (root w)"
    using staysD(1,3) [OF s2] ne outsideD(2) by auto
  have s3: "stays own h2 v2 h3 v3"
    using c(3) copy_branches_stays [OF _ ne2(1) staysD(4,2) [OF s2] ne2(2)] stays_refl [OF staysD(4,2) [OF s2]]
    by (auto simp: assign_mid_def split: if_splits)
  have ne3: "vid v3 \<noteq> own" "protected tr_vector own h3 (root w)"
    using staysD(1,3) [OF s3] ne2 outsideD(2) by auto
  have s4: "stays own h3 v3 h4 v4"
    using assign_down_stays [OF c(4) refl ne3(1) staysD(4,2) [OF s3] ne3(2)] by simp
  have "vid v4 \<noteq> own" using staysD(3) [OF s4] ne3(1) by simp
  then have "stays own h4 v4 h' v'"
    using c(5) copy_values_dst_stays [OF _ _ staysD(4,2) [OF s4]] stays_refl [OF staysD(4,2) [OF s4]]
    by (auto split: if_splits)
  with s1 s2 s3 s4 show ?thesis using stays_trans by blast
qed

end
