(* ===== verification/Cont_Foreach.thy ===== *)
theory Cont_Foreach imports
  Bp_Fence Assign_Correct Reduce_Correct
begin

text \<open>
  The parts of a \<open>foreach\<close>: the work of one worker on its splinter, the assignment of its chunk to the
  dependent, the resolution, and a write of the program while the dependent still shares every node
  with the vector.
\<close>

section \<open>The work on a splinter\<close>

definition scaled :: "nat \<Rightarrow> nat \<Rightarrow> ('a::times) \<Rightarrow> (nat \<Rightarrow> 'a option) \<Rightarrow> nat \<Rightarrow> 'a option" where
  "scaled a b x f = (\<lambda>i. if a \<le> i \<and> i < b then map_option (\<lambda>y. y * x) (f i) else f i)"

lemma scaled_step:
  assumes "a < b" "f a = Some y"
  shows "scaled (Suc a) b x (f(a := Some (y * x))) = scaled a b x f"
  using assms by (auto simp: scaled_def fun_eq_iff)

lemma scale_loop_ok:
  assumes "writing B T h w K h1 r f" "mpos B (vid w) h1 r K (sz w) it n" "mpos B (vid w) h1 r K (sz w) e b" "n \<le> b"
  shows "\<exists>h2. scale_loop B h1 x it e = Some h2 \<and> writing B T h w K h2 r (scaled n b x f)"
  using assms
proof (induction "b - n" arbitrary: h1 it n f)
  case 0
  then have "n = b" by simp
  then have "it_eq it e" using mpos_unique 0(3,4) by blast
  moreover have "scaled n b x f = f" using \<open>n = b\<close> by (auto simp: scaled_def fun_eq_iff)
  ultimately show ?case using 0(2) by (subst scale_loop.simps) simp
next
  case (Suc k)
  note W = Suc(3)
  have lt: "n < b" "n < sz w" using Suc(2,5) mpos_le [OF Suc(5)] by auto
  have k: "k = b - Suc n" using Suc(2) by simp
  have ne: "\<not> it_eq it e" using mpos_neq [OF writingD(2) [OF W] Suc(4,5) lt(1)] .
  obtain y where y: "f n = Some y" using mut_stateD(4) [OF writingD(2) [OF W] lt(2)] by blast
  have d: "it_deref h1 it = Some y" using writing_deref [OF W Suc(4) lt(2)] y by simp
  obtain h2 where a: "it_assign h1 it (y * x) = Some h2" "writing B T h w K h2 r (f(n := Some (y * x)))"
    "evolves (vid w) h1 h2" using writing_assign [OF W Suc(4) lt(2)] by blast
  note pos = mpos_evolves [OF a(3)]
  obtain it' h3 where i: "iter_inc B h2 it = Some (it', h3)" "writing B T h w K h3 r (f(n := Some (y * x)))"
    "evolves (vid w) h2 h3" "mpos B (vid w) h3 r K (sz w) it' (Suc n)"
    using writing_inc [OF a(2) pos [OF Suc(4)] lt(2)] by blast
  obtain h4 where l: "scale_loop B h3 x it' e = Some h4"
    "writing B T h w K h4 r (scaled (Suc n) b x (f(n := Some (y * x))))"
    using Suc(1) [OF k i(2,4) mpos_evolves [OF i(3) pos [OF Suc(5)]]] lt(1) by auto
  have "scale_loop B h1 x it e = Some h4"
    using ne d a(1) i(1) l(1) by (subst scale_loop.simps) simp
  with l(2) scaled_step [of n b f y x, OF lt(1) y] show ?case by auto
qed

lemma mut_range_ok:
  assumes W: "writing B T h w K h1 r f" and n: "0 < sz w" and ab: "a \<le> sz w" "b \<le> sz w"
  shows "\<exists>it e r' h2. mut_range B h1 (w\<lparr>root := r\<rparr>) a b = Some (it, e, w\<lparr>root := r'\<rparr>, h2) \<and>
    writing B T h w K h2 r' f \<and> mpos B (vid w) h2 r' K (sz w) it a \<and> mpos B (vid w) h2 r' K (sz w) e b"
proof -
  obtain e0 r1 h2 where b: "it_begin B h1 (w\<lparr>root := r\<rparr>) = Some (e0, w\<lparr>root := r1\<rparr>, h2)"
    "writing B T h w K h2 r1 f" "mpos B (vid w) h2 r1 K (sz w) e0 0"
    using writing_begin [OF W n] by blast
  obtain e h3 where e: "iter_add B h2 e0 b = Some (e, h3)" "writing B T h w K h3 r1 f" "evolves (vid w) h2 h3"
    "mpos B (vid w) h3 r1 K (sz w) e b" using writing_add [OF b(2,3) ab(2) n] by blast
  obtain i0 r2 h4 where i0: "it_begin B h3 (w\<lparr>root := r1\<rparr>) = Some (i0, w\<lparr>root := r2\<rparr>, h4)"
    "writing B T h w K h4 r2 f" "evolves (vid w) h3 h4" "mpos B (vid w) h4 r2 K (sz w) i0 0"
    "owned (vid w) h3 r1 \<longrightarrow> r2 = r1" using writing_begin [OF e(2) n] by blast
  have r2: "r2 = r1" using i0(5) mpos_owned [OF e(4)] by simp
  obtain it h5 where i: "iter_add B h4 i0 a = Some (it, h5)" "writing B T h w K h5 r2 f" "evolves (vid w) h4 h5"
    "mpos B (vid w) h5 r2 K (sz w) it a" using writing_add [OF i0(2,4) ab(1) n] by blast
  have "mpos B (vid w) h5 r2 K (sz w) e b"
    using mpos_evolves [OF evolves_trans [OF i0(3) i(3)] e(4)] r2 by simp
  moreover have "mut_range B h1 (w\<lparr>root := r\<rparr>) a b = Some (it, e, w\<lparr>root := r2\<rparr>, h5)"
    using b(1) e(1) i0(1) i(1) by (simp add: mut_range_def)
  ultimately show ?thesis using i(2,4) by blast
qed

lemma foreach_vecs:
  assumes B: "0 < B" "store_ok B T h" "vec_ok B T h w" and ab: "a \<le> b" "b \<le> sz w" "0 < sz w"
  shows "\<exists>it e r h1 h2 T'. mut_range B h w a b = Some (it, e, w\<lparr>root := r\<rparr>, h1) \<and>
    scale_loop B h1 x it e = Some h2 \<and> wrote B T h w T' h2 (w\<lparr>root := r\<rparr>) \<and>
    (\<forall>i < sz w. vlist B h2 (w\<lparr>root := r\<rparr>) ! i =
      (if a \<le> i \<and> i < b then vlist B h w ! i * x else vlist B h w ! i))"
proof -
  obtain K where W0: "writing B T h w K h (vec.root w) (\<lambda>i. val B h (vec.root w) K i)"
    "\<And>i. i < sz w \<Longrightarrow> val B h (vec.root w) K i = Some (vlist B h w ! i)"
    using writing_start [OF B] by blast
  let ?f = "\<lambda>i. val B h (vec.root w) K i"
  have "a \<le> sz w" using ab by simp
  then obtain it e r h1 where m: "mut_range B h (w\<lparr>root := vec.root w\<rparr>) a b = Some (it, e, w\<lparr>root := r\<rparr>, h1)"
    "writing B T h w K h1 r ?f" "mpos B (vid w) h1 r K (sz w) it a" "mpos B (vid w) h1 r K (sz w) e b"
    using mut_range_ok [OF W0(1) ab(3) _ ab(2)] by blast
  obtain h2 where s: "scale_loop B h1 x it e = Some h2" "writing B T h w K h2 r (scaled a b x ?f)"
    using scale_loop_ok [OF m(2-4) ab(1)] by blast
  obtain T' where T': "wrote B T h w T' h2 (w\<lparr>root := r\<rparr>)"
    "\<And>i. i < sz w \<Longrightarrow> Some (vlist B h2 (w\<lparr>root := r\<rparr>) ! i) = scaled a b x ?f i"
    using writing_wrote [OF s(2)] by blast
  have "vlist B h2 (w\<lparr>root := r\<rparr>) ! i = (if a \<le> i \<and> i < b then vlist B h w ! i * x else vlist B h w ! i)"
    if "i < sz w" for i using T'(2) [OF that] W0(2) [OF that] by (auto simp: scaled_def split: if_splits)
  with m(1) s(1) T'(1) show ?thesis by auto
qed

section \<open>The steps of a worker\<close>

lemma identity_monotonic [simp]: "is_monotonic identity"
  by (simp add: is_monotonic_def identity_def)

text \<open>The world after \<open>detach\<close> of worker \<open>p\<close> and its work, which led to the store \<open>h\<close>: the vector and
  the splinter have new ids.\<close>

definition picked ::
    "caddr \<Rightarrow> caddr \<Rightarrow> nat \<Rightarrow> 'a cont \<Rightarrow> 'a cont \<Rightarrow> 'a tracker \<Rightarrow> 'a store \<Rightarrow> 'a world \<Rightarrow> 'a world" where
  "picked this dep p c d t h w =
    (put_cont dep (d\<lparr>splinters := emplace (wnext w + 1) False (splinters d)\<rparr>)
      (put_cont this (c\<lparr>data := (data c)\<lparr>vid := wnext w\<rparr>,
        trackers := (trackers c)(dep \<mapsto> t\<lparr>used := (used t)[p := data c]\<rparr>)\<rparr>) w))
    \<lparr>wnext := wnext w + 2, wheap := h\<rparr>"

lemma picked_sel [simp]:
  "conts (picked this dep p c d t h w) =
    (conts w)(this \<mapsto> c\<lparr>data := (data c)\<lparr>vid := wnext w\<rparr>,
        trackers := (trackers c)(dep \<mapsto> t\<lparr>used := (used t)[p := data c]\<rparr>)\<rparr>,
      dep \<mapsto> d\<lparr>splinters := emplace (wnext w + 1) False (splinters d)\<rparr>)"
  "wheap (picked this dep p c d t h w) = h" "wnext (picked this dep p c d t h w) = wnext w + 2"
  "resns (picked this dep p c d t h w) = resns w"
  by (simp_all add: picked_def)

lemma foreach_work_ok:
  assumes c: "conts w this = Some c" "conts w dep = Some d" "this \<noteq> dep"
    and t: "trackers c dep = Some t" "imaps t = [identity]" "ops t = [op]" "p < length (used t)"
    and B: "0 < B" and ok: "store_ok B T (wheap (w :: ('a::times) world))" "vec_ok B T (wheap w) (data c)"
    and ab: "partition H p (sz (data c)) = (a, b)" "a \<le> b" "b \<le> sz (data c)" "0 < sz (data c)"
  shows "\<exists>r h' T'. foreach_work B H this dep p x w =
      Some ((\<lparr>sdata = (data c)\<lparr>vid := wnext w + 1, root := r\<rparr>, sops = [op]\<rparr>, a, b), picked this dep p c d t h' w) \<and>
    wrote B T (wheap w) ((data c)\<lparr>vid := wnext w + 1\<rparr>) T' h' ((data c)\<lparr>vid := wnext w + 1, root := r\<rparr>) \<and>
    (\<forall>i < sz (data c). vlist B h' ((data c)\<lparr>vid := wnext w + 1, root := r\<rparr>) ! i =
      (if a \<le> i \<and> i < b then vlist B (wheap w) (data c) ! i * x else vlist B (wheap w) (data c) ! i))"
proof -
  let ?v = "(data c)\<lparr>vid := wnext w + 1\<rparr>"
  have v: "vec_ok B T (wheap w) ?v" using ok(2) by simp
  have n: "b \<le> sz ?v" "0 < sz ?v" using ab(3,4) by simp_all
  obtain it e r h1 h2 T' where m: "mut_range B (wheap w) ?v a b = Some (it, e, ?v\<lparr>root := r\<rparr>, h1)"
    "scale_loop B h1 x it e = Some h2" "wrote B T (wheap w) ?v T' h2 (?v\<lparr>root := r\<rparr>)"
    "\<forall>i < sz ?v. vlist B h2 (?v\<lparr>root := r\<rparr>) ! i =
      (if a \<le> i \<and> i < b then vlist B (wheap w) ?v ! i * x else vlist B (wheap w) ?v ! i)"
    using foreach_vecs [OF B ok(1) v ab(2) n, of x] by blast
  have dt: "detach this dep p w = Some (\<lparr>sdata = ?v, sops = [op]\<rparr>,
      (put_cont dep (d\<lparr>splinters := emplace (wnext w + 1) False (splinters d)\<rparr>)
      (put_cont this (c\<lparr>data := (data c)\<lparr>vid := wnext w\<rparr>,
        trackers := (trackers c)(dep \<mapsto> t\<lparr>used := (used t)[p := data c]\<rparr>)\<rparr>) w))\<lparr>wnext := wnext w + 2\<rparr>)"
    using c t by (simp add: detach_def set_used_def splt_new_def new_id_def get_unique_id_def put_cont_def)
  have "foreach_work B H this dep p x w =
      Some ((\<lparr>sdata = ?v\<lparr>root := r\<rparr>, sops = [op]\<rparr>, a, b), picked this dep p c d t h2 w)"
    using c(1,3) ab(1) dt m(1,2) by (simp add: foreach_work_def data_size_def picked_def put_cont_def)
  with m(3,4) show ?thesis by auto
qed

text \<open>The world after \<open>reattach\<close>, when the dependent's vector has become \<open>dv\<close> in the store \<open>h\<close>.\<close>

definition joined ::
    "id32 \<Rightarrow> caddr \<Rightarrow> caddr \<Rightarrow> 'a cont \<Rightarrow> nat \<Rightarrow> vec \<Rightarrow> 'a store \<Rightarrow> 'a world \<Rightarrow> 'a world" where
  "joined i this dep d n dv h w =
    (put_cont dep (d\<lparr>data := dv, splinters := (splinters d)(i \<mapsto> True), latches := (latches d)(dep \<mapsto> n - 1)\<rparr>) w)
    \<lparr>wheap := h, resns := resns w @ (if n = 1 then [Resolve_monotonic this dep] else [])\<rparr>"

lemma joined_sel [simp]:
  "conts (joined i this dep d n dv h w) = (conts w)
    (dep \<mapsto> d\<lparr>data := dv, splinters := (splinters d)(i \<mapsto> True), latches := (latches d)(dep \<mapsto> n - 1)\<rparr>)"
  "wheap (joined i this dep d n dv h w) = h" "wnext (joined i this dep d n dv h w) = wnext w"
  "resns (joined i this dep d n dv h w) = resns w @ (if n = 1 then [Resolve_monotonic this dep] else [])"
  by (simp_all add: joined_def)

section \<open>The resolution\<close>

text \<open>No index of the identity maps into a foreign chunk.\<close>

lemma contended_cells_identity: "contended_cells H n identity = []"
proof -
  have "safe_mapping identity i 0 (int n) = (d, d)" if "d = max 0 (min (int n) i)" for i d
    using that by (simp add: safe_mapping_cases identity_def Let_def)
  then have "fst (safe_mapping identity i 0 (int n)) = snd (safe_mapping identity i 0 (int n))" for i by simp
  then show ?thesis by (simp add: contended_cells_def split_def)
qed

lemma resolve_identity_ok:
  assumes c: "conts w this = Some c" "conts w dep = Some d" "this \<noteq> dep" "\<not> abandoned c" "contended c = {}"
    and t: "trackers c dep = Some t" "imaps t = [identity]" "ops t = [op]" "icontended t = [{}]" "frozen t = []"
    and l: "latches d dep = Some 0"
  shows "resolve_monotonic B H this dep w = Some (put_cont this (c\<lparr>resolved := True\<rparr>) w)"
proof -
  have e: "(trackers c)(dep \<mapsto> t) = trackers c" "t\<lparr>icontended := [{}]\<rparr> = t" using t by auto
  have "resolve_imap B H this dep 0 w = Some w"
    using c t e by (simp add: resolve_imap_def contended_cells_identity put_tracker_def put_cont_def nth_opt_in fun_upd_idem)
  then have "resolve_monotonic_onto B H this dep w = Some (put_cont this (c\<lparr>resolved := True\<rparr>) w)"
    using c t by (simp add: resolve_monotonic_onto_def find_tracker_def mark_resolved_def)
  then show ?thesis
    unfolding resolve_monotonic_def using c(1,2) t(1,5) l
    by (subst resolve_with.simps) (simp add: find_tracker_def, subst resolve_with.simps, simp add: find_tracker_def)
qed

section \<open>A write while everything is shared\<close>

text \<open>Wherever there was a value there still is one, also in a vector that shares nodes with the one
  that is written.\<close>

lemma vset_alive:
  assumes B: "0 < B" and ok: "store_ok B T h" "vec_ok B T h v" and i: "i < sz v"
    and s: "vset B kd h v i x = Some (v', h')" and a: "cells h a \<noteq> None" "val B h a k j \<noteq> None"
  shows "val B h' a k j \<noteq> None"
proof -
  obtain K where K: "shift v = K * B" "T (vec.root v) = Some (K, 0)" "sz v \<le> BP_WIDTH B ^ Suc K"
    "val B h (vec.root v) K i \<noteq> None" using ok(2) i by (auto simp: vec_ok_def)
  have q: "0 = i div BP_WIDTH B ^ Suc K" using i K(3) by simp
  obtain r h1 T1 where c: "cow_root kd (vid v) h (vec.root v) = Some (r, h1)"
    "cow_result B kd (vid v) h T h K T1 h1" "T1 r = Some (K, 0)" "\<not> protected kd (vid v) h r"
    "\<forall>j i. val B h1 r j i = val B h (vec.root v) j i"
    using cow_root_ok [OF ok(1) keeps_refl K(2)] by blast
  obtain l h2 T2 where d: "descend B kd (vid v) h1 r (K * B) i K = Some (l, (K - K) * B, h2)"
    "cow_result B kd (vid v) h T1 h1 K T2 h2"
    using descend_ok [OF cow_resultD(1,3) [OF c(2)] c(3) q c(4), of i K] c(5) K(4) by auto
  have st: "store_leaf h2 l (i AND BP_MASK B) x = Some h'"
    using s c(1) d(1) K(1) by (auto simp: vset_def cow_walk_descend [OF B] bind_rules)
  have "same_view B h h2" using same_view_trans cow_resultD(4) [OF c(2)] cow_resultD(4) [OF d(2)] by blast
  then have "val B h2 a k j = val B h a k j" using a(1) by (simp add: same_view_def)
  then show ?thesis using a(2) by (simp add: val_store_leaf [OF st])
qed

lemma vec_ok_alive:
  assumes "vec_ok B T h y" "store_ok B T h" "extends T T'"
    and "\<And>a k j. cells h a \<noteq> None \<Longrightarrow> val B h a k j \<noteq> None \<Longrightarrow> val B h' a k j \<noteq> None"
  shows "vec_ok B T' h' y"
proof -
  obtain K where K: "shift y = K * B" "T (vec.root y) = Some (K, 0)" "sz y \<le> BP_WIDTH B ^ Suc K"
    "\<forall>i < sz y. val B h (vec.root y) K i \<noteq> None" using assms(1) by (auto simp: vec_ok_def)
  have "cells h (vec.root y) \<noteq> None" using store_ok_unique [OF assms(2) K(2)] .
  then show ?thesis using K assms(3,4) extendsD by (auto simp: vec_ok_def)
qed

end
