(* ===== verification/Cont_Settle.thy ===== *)
theory Cont_Settle imports
  Cont_Foreach
begin

text \<open>
  The resolution of one monotonic index map on the vectors: which cells it settles, what one cell does
  to the dependent, and all cells of an offset by one to the left, by none, or by one to the right.
\<close>

section \<open>The cells of a resolution\<close>

lemma int64_index: "c < 2 ^ 63 \<Longrightarrow> size_of_int64 (int c) = c"
proof -
  assume "c < 2 ^ 63"
  then have "c < 2 ^ 64" by simp
  then show ?thesis by (simp add: size_of_int64_def unsigned_of_nat take_bit_nat_eq_self)
qed

text \<open>The vectors while a resolution goes on: the program's vector \<open>cv\<close>, the dependent \<open>dv\<close>, which it
  writes, and what the workers used; \<open>h0\<close> and \<open>dv0\<close> are the store and the dependent at its start.\<close>

definition settling ::
    "nat \<Rightarrow> vec \<Rightarrow> vec list \<Rightarrow> 'a store \<Rightarrow> vec \<Rightarrow> typing \<Rightarrow> 'a store \<Rightarrow> vec \<Rightarrow> bool" where
  "settling B cv us h0 dv0 T h dv \<longleftrightarrow> share_ok B T h {cv, dv} (set us) \<and> fenced (vid cv) h \<and>
    vid cv \<noteq> vid dv0 \<and> keeps tr_vector (vid dv0) h0 h \<and> vid dv = vid dv0 \<and> sz dv = sz dv0 \<and> shift dv = shift dv0 \<and>
    (\<forall>y \<in> insert cv (set us). vlist B h y = vlist B h0 y)"

lemma settlingD:
  assumes "settling B cv us h0 dv0 T h dv"
  shows "share_ok B T h {cv, dv} (set us)" "fenced (vid cv) h" "vid cv \<noteq> vid dv"
    "keeps tr_vector (vid dv) h0 h" "vid dv = vid dv0" "sz dv = sz dv0" "shift dv = shift dv0"
    "y \<in> insert cv (set us) \<Longrightarrow> vlist B h y = vlist B h0 y"
  using assms by (auto simp: settling_def)

lemma settling_wrote:
  assumes Q: "settling B cv us h0 dv0 T h dv" and w: "wrote B T h dv T' h' (dv\<lparr>root := r\<rparr>)"
    and f: "outside (vid cv) h h'"
  shows "settling B cv us h0 dv0 T' h' (dv\<lparr>root := r\<rparr>)"
proof -
  note D = settlingD [OF Q]
  have dW: "dv \<in> {cv, dv}" by simp
  note S = share_write [OF D(1) dW w]
  have n: "cv \<noteq> dv" "dv \<notin> set us" using D(3) share_neq [OF D(1) dW] by blast+
  have "share_ok B T' h' {cv, dv\<lparr>root := r\<rparr>} (set us)" by (rule share_mono [OF S(1)]) (use n in auto)
  moreover have "keeps tr_vector (vid dv0) h0 h'" using keeps_trans [OF D(4) wroteD(3) [OF w]] D(5) by simp
  moreover have "\<forall>y \<in> insert cv (set us). vlist B h' y = vlist B h0 y" using S(2) n D(8) by auto
  ultimately show ?thesis using D(3,5-7) outsideD(1) [OF f] by (simp add: settling_def)
qed

lemma resolve_cell_ok:
  assumes Q: "settling B cv us h0 dv0 T h dv" and sz: "sz cv = n" "sz dv = n" "n < 2 ^ 63"
    and c: "c < n" "m < n" and u: "p < length us" "sz (us ! p) = n"
  shows "\<exists>dv' h' acc' T'. resolve_cell B op cv us p (int c) (int m) (dv, h, acc) = Some (dv', h', acc') \<and>
    settling B cv us h0 dv0 T' h' dv' \<and> sz dv' = n \<and>
    vlist B h' dv' = (vlist B h dv)[m := apply_diff op (vlist B h0 cv ! c) (vlist B h0 (us ! p) ! c) (vlist B h dv ! m)]"
proof -
  note D = settlingD [OF Q]
  note S = share_okD [OF D(1)]
  have up: "us ! p \<in> set us" using u(1) by simp
  have dv: "vec_ok B T h dv" using S(3) by simp
  have n: "0 < sz dv" "m \<le> sz dv" "m < sz dv" using sz(2) c(2) by simp_all
  have "unshared B tr_vector (vid cv) h dv" using S(4) [of cv dv] D(3) by auto
  then have pr: "protected tr_vector (vid cv) h (vec.root dv)"
    using unshared_iff [OF S(1) dv] n(1) by (metis node_at.simps(1) zero_le)
  obtain K where W0: "writing B T h dv K h (vec.root dv) (\<lambda>i. val B h (vec.root dv) K i)"
    "\<And>i. i < sz dv \<Longrightarrow> val B h (vec.root dv) K i = Some (vlist B h dv ! i)"
    using writing_start [OF S(1,2) dv] by blast
  let ?f = "\<lambda>i. val B h (vec.root dv) K i"
  obtain it0 r h1 where b: "it_begin B h (dv\<lparr>root := vec.root dv\<rparr>) = Some (it0, dv\<lparr>root := r\<rparr>, h1)"
    "writing B T h dv K h1 r ?f" "mpos B (vid dv) h1 r K (sz dv) it0 0"
    using writing_begin [OF W0(1) n(1)] by blast
  obtain it h2 where i: "iter_add B h1 it0 m = Some (it, h2)" "writing B T h dv K h2 r ?f"
    "mpos B (vid dv) h2 r K (sz dv) it m" using writing_add [OF b(2,3) n(2,1)] by blast
  have o1: "outside (vid cv) h h1 \<and> it_outside (vid cv) (vid dv) h1 it0"
    using it_begin_outside [OF b(1)] D(2,3) pr by simp
  then have o2: "outside (vid cv) h h2"
    using iter_add_outside [OF i(1), of "vid cv" "vid dv"] D(3) outsideD(1) outside_trans by metis
  note f = outsideD(1) [OF o2]
  obtain T2 where T2: "wrote B T h dv T2 h2 (dv\<lparr>root := r\<rparr>)"
    "\<And>j. j < sz dv \<Longrightarrow> Some (vlist B h2 (dv\<lparr>root := r\<rparr>) ! j) = ?f j" using writing_wrote [OF i(2)] by blast
  have l2: "vlist B h2 (dv\<lparr>root := r\<rparr>) = vlist B h dv"
    by (rule nth_equalityI) (use T2(2) W0(2) in auto)
  have Q2: "settling B cv us h0 dv0 T2 h2 (dv\<lparr>root := r\<rparr>)" by (rule settling_wrote [OF Q T2(1) o2])
  note D2 = settlingD [OF Q2] and S2 = share_okD [OF settlingD(1) [OF Q2]]
  have vc: "vec_ok B T2 h2 cv" "vec_ok B T2 h2 (us ! p)" using S2(3) up by simp_all
  have cs: "c < sz cv" "c < sz (us ! p)" using c(1) sz(1) u(2) by simp_all
  have r1: "read_at B h2 cv c = Some (vlist B h0 cv ! c)" using read_at_ok [OF S2(1) vc(1) cs(1)] D2(8) by simp
  have r2: "read_at B h2 (us ! p) c = Some (vlist B h0 (us ! p) ! c)"
    using read_at_ok [OF S2(1) vc(2) cs(2)] D2(8) [of "us ! p"] up by simp
  have ix: "size_of_int64 (int c) = c" "size_of_int64 (int m) = m" using c sz(3) by (simp_all add: int64_index)
  let ?diff = "op_inv op (vlist B h0 cv ! c) (vlist B h0 (us ! p) ! c)"
  have run: "resolve_cell B op cv us p (int c) (int m) (dv, h, acc) =
      (if ?diff \<noteq> op_identity op
       then do { z \<leftarrow> it_deref h2 it; h \<leftarrow> it_assign h2 it (op_f op z ?diff); Some (dv\<lparr>root := r\<rparr>, h, insert (int m) acc) }
       else Some (dv\<lparr>root := r\<rparr>, h2, acc))"
    using b(1) i(1) r1 r2 u(1) by (simp add: resolve_cell_def ix nth_opt_in)
  show ?thesis
  proof (cases "?diff = op_identity op")
    case True
    then have "vlist B h2 (dv\<lparr>root := r\<rparr>) = (vlist B h dv)[m := apply_diff op (vlist B h0 cv ! c) (vlist B h0 (us ! p) ! c) (vlist B h dv ! m)]"
      using l2 by (simp add: apply_diff_def)
    then show ?thesis using run True Q2 sz(2) by (intro exI [of _ "dv\<lparr>root := r\<rparr>"] exI [of _ h2] exI [of _ acc] exI [of _ T2]) simp
  next
    case False
    let ?x = "op_f op (vlist B h dv ! m) ?diff"
    have d: "it_deref h2 it = Some (vlist B h dv ! m)" using writing_deref [OF i(2,3) n(3)] W0(2) [OF n(3)] by simp
    obtain h3 where a: "it_assign h2 it ?x = Some h3" "writing B T h dv K h3 r (?f(m := Some ?x))"
      using writing_assign [OF i(2,3) n(3)] by blast
    obtain T3 where T3: "wrote B T h dv T3 h3 (dv\<lparr>root := r\<rparr>)"
      "\<And>j. j < sz dv \<Longrightarrow> Some (vlist B h3 (dv\<lparr>root := r\<rparr>) ! j) = (?f(m := Some ?x)) j" using writing_wrote [OF a(2)] by blast
    have "outside (vid cv) h h3" using outside_trans [OF o2 it_assign_outside [OF a(1) f]] .
    then have Q3: "settling B cv us h0 dv0 T3 h3 (dv\<lparr>root := r\<rparr>)" by (rule settling_wrote [OF Q T3(1)])
    have e: "vlist B h3 (dv\<lparr>root := r\<rparr>) ! j = (vlist B h dv)[m := ?x] ! j" if "j < sz dv" for j
      using T3(2) [OF that] W0(2) [OF that] that by (auto simp: nth_list_update split: if_splits)
    have "vlist B h3 (dv\<lparr>root := r\<rparr>) = (vlist B h dv)[m := ?x]"
      by (rule nth_equalityI) (simp, use e in simp)
    then show ?thesis using run False Q3 sz(2) d a(1)
      by (intro exI [of _ "dv\<lparr>root := r\<rparr>"] exI [of _ h3] exI [of _ "insert (int m) acc"] exI [of _ T3]) (simp add: apply_diff_def)
  qed
qed

section \<open>Which cells, and whose\<close>

lemma safe_mapping_offset:
  "0 \<le> n \<Longrightarrow> safe_mapping (offset o') i 0 n = (max 0 (min n (i + o')), max 0 (min n (i + o')) - o')"
  by (simp add: safe_mapping_cases offset_def Let_def)

lemma strict_starts:
  assumes "chunks_strict H n" "p < H"
  shows "chunk_sz H n * p < n" "0 < chunk_sz H n" "1 \<le> p \<Longrightarrow> 1 \<le> chunk_sz H n * p"
    "partition H p n = (chunk_sz H n * p, if Suc p = H then n else chunk_sz H n * Suc p)"
proof -
  obtain a b where ab: "partition H p n = (a, b)" by fastforce
  note s = strict_bounds [OF assms ab]
  then show l: "chunk_sz H n * p < n" using ab by (auto simp: partition_def)
  show c: "0 < chunk_sz H n" using s ab by (cases "chunk_sz H n") (auto simp: partition_def)
  then show "1 \<le> p \<Longrightarrow> 1 \<le> chunk_sz H n * p" by (cases p) auto
  have "n \<le> chunk_sz H n * Suc p" if "Suc p = H" using chunk_sz_covers [of H n] that assms(2) by simp
  moreover have "chunk_sz H n * Suc p \<le> n" if "Suc p \<noteq> H"
  proof -
    have "Suc p < H" using that assms(2) by simp
    moreover obtain a' b' where "partition H (Suc p) n = (a', b')" by fastforce
    ultimately show ?thesis using strict_bounds [OF assms(1), of "Suc p" a' b'] by (auto simp: partition_def)
  qed
  ultimately show "partition H p n = (chunk_sz H n * p, if Suc p = H then n else chunk_sz H n * Suc p)"
    by (auto simp: partition_def min_def)
qed

text \<open>The left neighbours of the starts of chunks, the right neighbours of their ends, and the first and
  the last index.\<close>

definition left_cells :: "nat \<Rightarrow> nat \<Rightarrow> nat set" where
  "left_cells H n = insert 0 {chunk_sz H n * p - 1 |p. 1 \<le> p \<and> p < H}"

definition right_cells :: "nat \<Rightarrow> nat \<Rightarrow> nat set" where
  "right_cells H n = insert (n - 1) {chunk_sz H n * p |p. 1 \<le> p \<and> p < H}"

lemma contended_cells_set:
  "set (contended_cells H n imap) = (\<Union>p < H. (let (a, b) = partition H p n;
      (adom, aran) = safe_mapping imap (int a) 0 (int n); (bdom, bran) = safe_mapping imap (int b) 0 (int n)
    in {adom..aran - 1} \<union> {bran..bdom - 1}))"
  by (auto simp: contended_cells_def split_def Let_def)

lemma contended_offset:
  assumes "chunks_strict H n"
  shows "set (contended_cells H n (offset o')) = (\<Union>p < H. (let (a, b) = partition H p n;
      d = max 0 (min (int n) (int a + o')); e = max 0 (min (int n) (int b + o'))
    in {d..d - o' - 1} \<union> {e - o'..e - 1}))"
  by (simp add: contended_cells_set safe_mapping_offset Let_def split_def)

lemma contended_none: "set (contended_cells H n (offset 0)) = {}" "set (contended_cells H n identity) = {}"
  by (simp_all add: contended_cells_set safe_mapping_offset contended_cells_identity [unfolded contended_cells_def] split_def Let_def
    contended_cells_identity)

lemma left_cell:
  assumes "a < b" "b \<le> n"
  shows "{max 0 (min (int n) (int a + - 1))..max 0 (min (int n) (int a + - 1)) - - 1 - 1} \<union>
    {max 0 (min (int n) (int b + - 1)) - - 1..max 0 (min (int n) (int b + - 1)) - 1} = {int (a - 1)}"
proof -
  have "max 0 (min (int n) (int a + - 1)) = int (a - 1)" using assms by auto
  then show ?thesis by auto
qed

lemma right_cell:
  assumes "a < b" "b \<le> n"
  shows "{max 0 (min (int n) (int a + 1))..max 0 (min (int n) (int a + 1)) - 1 - 1} \<union>
    {max 0 (min (int n) (int b + 1)) - 1..max 0 (min (int n) (int b + 1)) - 1} = {int (min b (n - 1))}"
proof -
  have "max 0 (min (int n) (int a + 1)) = int a + 1" using assms by auto
  moreover have "max 0 (min (int n) (int b + 1)) - 1 = int (min b (n - 1))" using assms by auto
  ultimately show ?thesis by auto
qed

lemma contended_left:
  assumes "chunks_strict H n"
  shows "set (contended_cells H n (offset (- 1))) = int ` left_cells H n"
proof -
  have "(let (a, b) = partition H p n; d = max 0 (min (int n) (int a + - 1)); e = max 0 (min (int n) (int b + - 1))
    in {d..d - - 1 - 1} \<union> {e - - 1..e - 1}) = {int (chunk_sz H n * p - 1)}" if "p < H" for p
    using left_cell strict_bounds [OF assms that strict_starts(4) [OF assms that]]
    unfolding strict_starts(4) [OF assms that] by (simp only: Let_def prod.case)
  then have e: "set (contended_cells H n (offset (- 1))) = (\<Union>p < H. {int (chunk_sz H n * p - 1)})"
    unfolding contended_offset [OF assms] by (intro SUP_cong) simp_all
  have H: "0 < H" using assms by (simp add: chunks_strict_def)
  have "(\<lambda>p. chunk_sz H n * p - 1) ` {..<H} = left_cells H n"
  proof (intro equalityI subsetI)
    fix x assume "x \<in> left_cells H n"
    then consider "x = 0" | p where "x = chunk_sz H n * p - 1" "p < H" by (auto simp: left_cells_def)
    then show "x \<in> (\<lambda>p. chunk_sz H n * p - 1) ` {..<H}"
      by cases (use H in \<open>auto intro: image_eqI [of _ _ 0]\<close>)
  next
    fix x assume "x \<in> (\<lambda>p. chunk_sz H n * p - 1) ` {..<H}"
    then obtain p where "p < H" "x = chunk_sz H n * p - 1" by blast
    then show "x \<in> left_cells H n" by (cases p) (auto simp: left_cells_def intro!: exI [of _ p])
  qed
  then show ?thesis unfolding e by (simp only: UNION_singleton_eq_range image_image flip: \<open>_ = left_cells H n\<close>)
qed

lemma contended_right:
  assumes "chunks_strict H n"
  shows "set (contended_cells H n (offset 1)) = int ` right_cells H n"
proof -
  have "(let (a, b) = partition H p n; d = max 0 (min (int n) (int a + 1)); e = max 0 (min (int n) (int b + 1))
    in {d..d - 1 - 1} \<union> {e - 1..e - 1}) = {int (if Suc p = H then n - 1 else chunk_sz H n * Suc p)}" if "p < H" for p
  proof -
    note s = strict_starts(4) [OF assms that] and t = strict_bounds [OF assms that strict_starts(4) [OF assms that]]
    have "min (if Suc p = H then n else chunk_sz H n * Suc p) (n - 1) = (if Suc p = H then n - 1 else chunk_sz H n * Suc p)"
      using strict_starts(1) [OF assms, of "Suc p"] that by auto
    then show ?thesis using right_cell [OF t] unfolding s by (simp only: Let_def prod.case)
  qed
  then have e: "set (contended_cells H n (offset 1)) =
      (\<Union>p < H. {int (if Suc p = H then n - 1 else chunk_sz H n * Suc p)})"
    unfolding contended_offset [OF assms] by (intro SUP_cong) simp_all
  have H: "0 < H" using assms by (simp add: chunks_strict_def)
  have "(\<lambda>p. if Suc p = H then n - 1 else chunk_sz H n * Suc p) ` {..<H} = right_cells H n"
  proof (intro equalityI subsetI)
    fix x assume "x \<in> right_cells H n"
    then consider "x = n - 1" | p where "x = chunk_sz H n * p" "1 \<le> p" "p < H" by (auto simp: right_cells_def)
    then show "x \<in> (\<lambda>p. if Suc p = H then n - 1 else chunk_sz H n * Suc p) ` {..<H}"
    proof cases
      case 1
      then show ?thesis using H by (intro image_eqI [of _ _ "H - 1"]) simp_all
    next
      case 2
      then show ?thesis by (intro image_eqI [of _ _ "p - 1"]) simp_all
    qed
  next
    fix x assume "x \<in> (\<lambda>p. if Suc p = H then n - 1 else chunk_sz H n * Suc p) ` {..<H}"
    then obtain p where "p < H" "x = (if Suc p = H then n - 1 else chunk_sz H n * Suc p)" by blast
    then show "x \<in> right_cells H n" by (cases "Suc p = H") (auto simp: right_cells_def intro!: exI [of _ "Suc p"])
  qed
  then show ?thesis unfolding e by (simp only: UNION_singleton_eq_range image_image flip: \<open>_ = right_cells H n\<close>)
qed

text \<open>The chunk of an index.\<close>

lemma chunk_owner_eq:
  assumes "m < n"
  shows "foldl (\<lambda>p pi. let (a, b) = partition H pi n in if int a \<le> int m \<and> int m < int b then pi else p) p0 [0..<k] =
    (if m div chunk_sz H n < k \<and> in_chunk H n (m div chunk_sz H n) m then m div chunk_sz H n else p0)"
proof (induction k)
  case (Suc k)
  have "in_chunk H n k m \<Longrightarrow> m div chunk_sz H n = k" using chunk_of by blast
  then show ?case using Suc by (auto simp: in_chunk_def split_def Let_def less_Suc_eq)
qed simp

lemma chunk_owner_of:
  assumes "0 < H" "m < n"
  shows "chunk_owner H n (int m) p0 = m div chunk_sz H n"
  using chunk_owner_eq [OF assms(2), of H p0 H] chunk_exists [OF assms] by (simp add: chunk_owner_def)

section \<open>The loops of a resolution\<close>

text \<open>What the cells \<open>cs\<close>, mapped by \<open>f\<close>, do to the values of the dependent: \<open>ys\<close> is what the vector holds,
  \<open>ss q\<close> what worker \<open>q\<close> used.\<close>

definition settle ::
    "'a ct_op \<Rightarrow> (nat \<Rightarrow> nat) \<Rightarrow> (nat \<Rightarrow> nat) \<Rightarrow> 'a list \<Rightarrow> (nat \<Rightarrow> 'a list) \<Rightarrow> nat list \<Rightarrow> 'a list \<Rightarrow> 'a list" where
  "settle op f own ys ss cs ds =
    foldl (\<lambda>ds c. ds[f c := apply_diff op (ys ! c) (ss (own (f c)) ! c) (ds ! f c)]) ds cs"

lemma length_settle_cells [simp]: "length (settle op f own ys ss cs ds) = length ds"
  by (induction cs arbitrary: ds) (simp_all add: settle_def)

lemma settle_none [simp]: "settle op f own ys ss [] ds = ds"
  by (simp add: settle_def)

lemma settle_other: "i \<notin> f ` set cs \<Longrightarrow> settle op f own ys ss cs ds ! i = ds ! i"
  by (induction cs arbitrary: ds) (simp_all add: settle_def)

lemma settle_cell:
  assumes "c \<in> set cs" "distinct cs" "inj_on f (set cs)" "f c < length ds"
  shows "settle op f own ys ss cs ds ! f c = apply_diff op (ys ! c) (ss (own (f c)) ! c) (ds ! f c)"
  using assms
proof (induction cs arbitrary: ds)
  case (Cons b cs)
  let ?ds = "ds[f b := apply_diff op (ys ! b) (ss (own (f b)) ! b) (ds ! f b)]"
  have s: "settle op f own ys ss (b # cs) ds = settle op f own ys ss cs ?ds" by (simp add: settle_def)
  show ?case
  proof (cases "c = b")
    case True
    then have "f c \<notin> f ` set cs" using Cons.prems(2,3) by auto
    then show ?thesis unfolding s using True Cons.prems(4) by (simp add: settle_other)
  next
    case False
    then have "c \<in> set cs" "f b \<noteq> f c" using Cons.prems(1,3) by (auto simp: inj_on_def)
    then show ?thesis unfolding s using Cons.IH [of ?ds] Cons.prems(2-4) by (simp add: inj_on_def)
  qed
qed simp

text \<open>What the loops rely on: every cell and its image are indices, and \<open>us\<close> are the vectors used.\<close>

definition cells_ok :: "nat \<Rightarrow> imap_fp \<Rightarrow> (nat \<Rightarrow> nat) \<Rightarrow> nat set \<Rightarrow> bool" where
  "cells_ok n imap f A \<longleftrightarrow> (\<forall>c \<in> A. c < n \<and> imap (int c) = int (f c) \<and> f c < n)"

definition used_ok :: "nat \<Rightarrow> nat \<Rightarrow> nat \<Rightarrow> 'a store \<Rightarrow> vec list \<Rightarrow> (nat \<Rightarrow> 'a list) \<Rightarrow> bool" where
  "used_ok B H n h us ss \<longleftrightarrow> 0 < H \<and> length us = H \<and> (\<forall>p < H. sz (us ! p) = n \<and> vlist B h (us ! p) = ss p)"

abbreviation chunk_at :: "nat \<Rightarrow> nat \<Rightarrow> nat \<Rightarrow> nat" where
  "chunk_at H n m \<equiv> m div chunk_sz H n"

lemma resolve_icontended_ok:
  assumes "settling B cv us h0 dv0 T h dv" "sz cv = n" "sz dv = n" "n < 2 ^ 63"
    and "cells_ok n imap f (set cs)" "used_ok B H n h0 us ss"
  shows "\<exists>p' dv' h' acc' T'. resolve_icontended B H op imap cv us (map int cs) (p, dv, h, acc) = Some (p', dv', h', acc') \<and>
    settling B cv us h0 dv0 T' h' dv' \<and> sz dv' = n \<and>
    vlist B h' dv' = settle op f (chunk_at H n) (vlist B h0 cv) ss cs (vlist B h dv)"
  using assms
proof (induction cs arbitrary: p dv h acc T)
  case Nil
  then show ?case by auto
next
  case (Cons c cs)
  let ?q = "chunk_at H n (f c)"
  have c: "c < n" "imap (int c) = int (f c)" "f c < n" and cs: "cells_ok n imap f (set cs)"
    using Cons.prems(5) by (auto simp: cells_ok_def)
  have H: "0 < H" "length us = H" using Cons.prems(6) by (auto simp: used_ok_def)
  have o: "chunk_owner H (sz cv) (imap (int c)) H = ?q" using chunk_owner_of [OF H(1) c(3)] Cons.prems(2) c(2) by simp
  have q: "?q < H" by (rule chunk_exists(1) [OF H(1) c(3)])
  then have u: "?q < length us" "sz (us ! ?q) = n" "vlist B h0 (us ! ?q) = ss ?q"
    using Cons.prems(6) H(2) by (auto simp: used_ok_def)
  obtain dv1 h1 acc1 T1 where s: "resolve_cell B op cv us ?q (int c) (int (f c)) (dv, h, acc) = Some (dv1, h1, acc1)"
    "settling B cv us h0 dv0 T1 h1 dv1" "sz dv1 = n"
    "vlist B h1 dv1 = (vlist B h dv)[f c := apply_diff op (vlist B h0 cv ! c) (ss ?q ! c) (vlist B h dv ! f c)]"
    using resolve_cell_ok [OF Cons.prems(1-4) c(1,3) u(1,2)] u(3) by metis
  have "\<not> out_of_dep (imap (int c)) dv" using c(2,3) Cons.prems(3) by (simp add: out_of_dep_def)
  then have "resolve_icontended B H op imap cv us (map int (c # cs)) (p, dv, h, acc) =
      resolve_icontended B H op imap cv us (map int cs) (?q, dv1, h1, acc1)"
    using o q c(2) s(1) by (simp add: Let_def)
  moreover have "settle op f (chunk_at H n) (vlist B h0 cv) ss (c # cs) (vlist B h dv) =
      settle op f (chunk_at H n) (vlist B h0 cv) ss cs (vlist B h1 dv1)" unfolding s(4) by (simp add: settle_def)
  ultimately show ?case using Cons.IH [OF s(2) Cons.prems(2) s(3) Cons.prems(4) cs Cons.prems(6), of ?q acc1] by simp
qed

lemma sorted_cells: "finite A \<Longrightarrow> sorted_list_of_set (int ` A) = map int (sorted_list_of_set A)"
  by (rule sorted_distinct_set_unique) (auto simp: sorted_map distinct_map inj_on_def intro: sorted_wrt_mono_rel)

text \<open>The world of a resolution: only the dependent's vector, its changed indices, the store and the
  indices recorded in the tracker differ from \<open>w\<close>.\<close>

definition settled_world ::
    "caddr \<Rightarrow> caddr \<Rightarrow> 'a cont \<Rightarrow> 'a cont \<Rightarrow> 'a tracker \<Rightarrow> 'a world \<Rightarrow> int set list \<Rightarrow> vec \<Rightarrow> int set \<Rightarrow> 'a store \<Rightarrow> 'a world" where
  "settled_world this dep c d t w ics dv acc h =
    w\<lparr>wheap := h, conts := (conts w)
      (this \<mapsto> c\<lparr>trackers := (trackers c)(dep \<mapsto> t\<lparr>icontended := ics\<rparr>)\<rparr>, dep \<mapsto> d\<lparr>data := dv, contended := acc\<rparr>)\<rparr>"

lemma settled_world_sel [simp]:
  "conts (settled_world this dep c d t w ics dv acc h) =
    (conts w)(this \<mapsto> c\<lparr>trackers := (trackers c)(dep \<mapsto> t\<lparr>icontended := ics\<rparr>)\<rparr>, dep \<mapsto> d\<lparr>data := dv, contended := acc\<rparr>)"
  "wheap (settled_world this dep c d t w ics dv acc h) = h"
  "wnext (settled_world this dep c d t w ics dv acc h) = wnext w"
  "resns (settled_world this dep c d t w ics dv acc h) = resns w"
  by (simp_all add: settled_world_def)

lemma settled_world_start:
  "conts w this = Some c \<Longrightarrow> conts w dep = Some d \<Longrightarrow> trackers c dep = Some t \<Longrightarrow>
    settled_world this dep c d t w (icontended t) (data d) (contended d) (wheap w) = w"
  by (simp add: settled_world_def fun_upd_idem)

lemma resolve_imap_ok:
  assumes c: "this \<noteq> dep" "contended c = {}" "sz (data c) = n" "n < 2 ^ 63"
    and t: "nth_opt (ops t) i = Some op" "nth_opt (imaps t) i = Some imap" "nth_opt ics i = Some {}"
    and A: "set (contended_cells H n imap) = int ` A" "finite A" "cells_ok n imap f A"
    and Q: "settling B (data c) (used t) h0 dv0 T h dv" "sz dv = n" "used_ok B H n h0 (used t) ss"
  shows "\<exists>dv' h' acc' T'. resolve_imap B H this dep i (settled_world this dep c d t w ics dv acc h) =
      Some (settled_world this dep c d t w (ics[i := int ` A]) dv' acc' h') \<and>
    settling B (data c) (used t) h0 dv0 T' h' dv' \<and> sz dv' = n \<and>
    vlist B h' dv' = settle op f (chunk_at H n) (vlist B h0 (data c)) ss (sorted_list_of_set A) (vlist B h dv)"
proof -
  have A': "cells_ok n imap f (set (sorted_list_of_set A))" using A(2,3) by simp
  obtain p' dv' h' acc' T' where r: "resolve_icontended B H op imap (data c) (used t) (map int (sorted_list_of_set A))
      (H, dv, h, acc) = Some (p', dv', h', acc')" "settling B (data c) (used t) h0 dv0 T' h' dv'" "sz dv' = n"
    "vlist B h' dv' = settle op f (chunk_at H n) (vlist B h0 (data c)) ss (sorted_list_of_set A) (vlist B h dv)"
    using resolve_icontended_ok [OF Q(1) c(3) Q(2) c(4) A' Q(3)] by blast
  have "resolve_imap B H this dep i (settled_world this dep c d t w ics dv acc h) =
      Some (settled_world this dep c d t w (ics[i := int ` A]) dv' acc' h')"
    using c t A(1) r(1) sorted_cells [OF A(2)]
    by (simp add: resolve_imap_def put_tracker_def settled_world_def put_cont_def fun_upd_twist [of this dep]
        del: nth_opt_Some)
  with r(2-4) show ?thesis by blast
qed

end
