(* ===== verification/Chunk_Share.thy ===== *)
theory Chunk_Share imports
  Cont_Settle
begin

text \<open>
  The vectors of an operation that works in chunks, at each of its steps: a worker's pick, which gives
  the program's vector and a splinter new ids; its \<open>reattach\<close>, which assigns its chunk to the dependent;
  a write of the program, before and after the first pick.
\<close>

section \<open>Picking a task\<close>

lemma fresh_keeps:
  "keeps kd own h h' \<Longrightarrow> own \<noteq> i \<Longrightarrow> \<forall>a n. cells h a = Some n \<longrightarrow> nid n \<noteq> i \<Longrightarrow>
    \<forall>a n. cells h' a = Some n \<longrightarrow> nid n \<noteq> i"
proof (intro allI impI)
  fix a n assume k: "keeps kd own h h'" "own \<noteq> i" "\<forall>a n. cells h a = Some n \<longrightarrow> nid n \<noteq> i" "cells h' a = Some n"
  show "nid n \<noteq> i"
  proof (cases "cells h a")
    case None
    then show ?thesis using k unfolding keeps_def by blast
  next
    case (Some m)
    then show ?thesis using keeps_dom [OF k(1) Some] k(3,4) by auto
  qed
qed

lemma two_ids:
  assumes "unat (c :: id32) + 2 < 2 ^ 32"
  shows "c < c + 1" "c + 1 < c + 2" "unat (c + 2) = unat c + 2"
proof -
  have r: "unat c + 1 < 2 ^ 32" using assms by linarith
  note a = id_room [OF r]
  have r1: "unat (c + 1) + 1 < 2 ^ 32" using a assms by linarith
  note b = id_room [OF r1]
  have s: "c + 1 + 1 = c + 2" by (simp add: add.assoc)
  show "c < c + 1" using a Suc_id by blast
  show "c + 1 < c + 2" using b Suc_id s by metis
  show "unat (c + 2) = unat c + 2" using a b s by simp
qed

text \<open>The vectors when a worker has picked: the vector under its new id, the splinter, the others. The
  vector it found is kept.\<close>

lemma pick_share:
  assumes S: "share_ok B T h {dv} (insert cv R)" and ids: "ids_below c h" "\<forall>y \<in> insert dv (insert cv R). vid y < c"
    and c: "c < c + 1" and w: "wrote B T h (cv\<lparr>vid := c + 1\<rparr>) T' h' sv" "vid sv = c + 1"
  shows "share_ok B T' h' {cv\<lparr>vid := c\<rparr>, dv} (insert sv (insert cv R))" "fenced c h'"
    "y \<in> insert dv (insert cv R) \<Longrightarrow> vlist B h' y = vlist B h y"
proof -
  let ?c = "cv\<lparr>vid := c\<rparr>" and ?s = "cv\<lparr>vid := c + 1\<rparr>"
  have S1: "share_ok B T h (insert ?c {dv}) (insert cv R)"
    using share_fork(1) [OF S _ ids(1), of cv] ids(2) by simp
  have b1: "ids_below (c + 1) h" using ids(1) c unfolding ids_below_def by (meson order.strict_trans)
  have v1: "\<forall>y \<in> insert ?c {dv} \<union> insert cv R. vid y < c + 1" using ids(2) c by (auto dest: order.strict_trans)
  have S2: "share_ok B T h (insert ?s (insert ?c {dv})) (insert cv R)"
    using share_fork(1) [OF S1 _ b1 v1, of cv] by simp
  have ne: "y \<noteq> ?s" if "y \<in> insert ?c {dv} \<union> insert cv R" for y
    using bspec [OF v1 that] by auto
  note S3 = share_write [OF S2 insertI1 w(1)]
  have "share_ok B T' h' (insert sv (insert ?c {dv})) (insert cv R)"
    by (rule share_mono [OF S3(1)]) (use ne in auto)
  moreover have "sv \<notin> insert ?c {dv}" using w(2) v1 by auto
  ultimately show "share_ok B T' h' {?c, dv} (insert sv (insert cv R))" by (rule share_retire)
  show "vlist B h' y = vlist B h y" if "y \<in> insert dv (insert cv R)" for y
    using S3(2) [of y] ne [of y] that by blast
  note d = wroteD [OF w(1)]
  have "\<forall>a n. cells h a = Some n \<longrightarrow> nid n \<noteq> c" by (rule fresh_below [OF ids(1)])
  then have "\<forall>a n. cells h' a = Some n \<longrightarrow> nid n \<noteq> c"
    by (rule fresh_keeps [OF d(3), rotated]) (use c in auto)
  then show "fenced c h'" by (rule fenced_fresh [OF d(1)])
qed

section \<open>Joining\<close>

lemma root_protected:
  assumes "0 < B" "vec_ok B T h v" "unshared B tr_vector own h v" "0 < sz v"
  shows "protected tr_vector own h (vec.root v)"
proof -
  have "node_at B h (vec.root v) (shift v div B) 0 0 = Some (vec.root v)" by simp
  then show ?thesis using assms(3,4) unfolding unshared_iff [OF assms(1,2)] by blast
qed

text \<open>The dependent takes over a chunk of the splinter, whole branches included, and still shares
  nothing with the vector.\<close>

lemma join_share:
  assumes S: "share_ok B T h {cv, dv} R" and sv: "sv \<in> R" and ids: "vid cv \<noteq> vid dv" and f: "fenced (vid cv) h"
    and sh: "sz sv = sz dv" "shift sv = shift dv"
    and ab: "a < b" "b \<le> sz dv" "b < capacity B dv" "calc_depth B dv \<le> 255"
  shows "\<exists>dv' h' T'. assign B tr_vector h dv sv a b = Some (dv', h') \<and> share_ok B T' h' {cv, dv'} R \<and>
    fenced (vid cv) h' \<and> keeps tr_vector (vid dv) h h' \<and> vid dv' = vid dv \<and> sz dv' = sz dv \<and> shift dv' = shift dv \<and>
    vlist B h' dv' = take a (vlist B h dv) @ take (b - a) (drop a (vlist B h sv)) @ drop b (vlist B h dv) \<and>
    (\<forall>y \<in> insert cv R. vlist B h' y = vlist B h y)"
proof -
  note D = share_okD [OF S]
  have ok: "vec_ok B T h dv" "vec_ok B T h sv" using D(3) sv by simp_all
  have ne: "sv \<noteq> dv" "sv \<noteq> cv" "cv \<noteq> dv" using share_neq [OF S _ sv] ids by auto
  have un: "unshared B tr_vector (vid dv) h sv" "unshared B tr_vector (vid cv) h sv"
    "unshared B tr_vector (vid cv) h dv"
    using D(4) [of dv sv] D(4) [of cv sv] D(4) [of cv dv] sv ne by auto
  obtain dv' h' T' where r: "assign B tr_vector h dv sv a b = Some (dv', h')" "store_ok B T' h'" "extends T T'"
    "keeps tr_vector (vid dv) h h'" "vec_ok B T' h' dv'" "vid dv' = vid dv" "sz dv' = sz dv" "shift dv' = shift dv"
    "vlist B h' dv' = take a (vlist B h dv) @ take (b - a) (drop a (vlist B h sv)) @ drop b (vlist B h dv)"
    using assign_typed [OF D(1,2) ok un(1) sh ab] by blast
  have pos: "0 < sz dv" "0 < sz sv" using ab(1,2) sh(1) by linarith+
  have "stays (vid cv) h dv h' dv'"
    using assign_stays [OF r(1) ids [symmetric] f root_protected [OF D(1) ok(1) un(3) pos(1)]
      root_protected [OF D(1) ok(2) un(2) pos(2)]] .
  note st = staysD [OF this]
  have udv: "unshared B tr_vector (vid cv) h' dv'" by (rule fenced_unshared [OF D(1) r(5) st(4,2)])
  have dW: "dv \<in> {cv, dv}" by simp
  have un': "unshared B tr_vector (vid x) h' dv'" if "x \<in> {cv, dv}" "x \<noteq> dv" for x using that udv by simp
  note S1 = share_step [OF S dW r(2-6) un']
  have "dv \<notin> R" using share_neq [OF S dW] by blast
  then have "\<forall>y \<in> insert cv R. vlist B h' y = vlist B h y" using S1(2) ne(3) by auto
  moreover have "share_ok B T' h' {cv, dv'} R" by (rule share_mono [OF S1(1)]) (use ne in auto)
  ultimately show ?thesis using r st(4) by blast
qed

section \<open>A write of the program\<close>

text \<open>Before the first worker has picked its task a write may also show in the dependent.\<close>

lemma early_write_share:
  assumes S: "share_ok B T h {dv} {cv}" and i: "i < sz cv"
  shows "\<exists>r h' T'. tr_mut_set B h cv i y = Some (cv\<lparr>root := r\<rparr>, h') \<and>
    share_ok B T' h' {dv} {cv\<lparr>root := r\<rparr>} \<and>
    keeps tr_vector (vid cv) h h' \<and> vlist B h' (cv\<lparr>root := r\<rparr>) = (vlist B h cv)[i := y]"
proof -
  note D = share_okD [OF S]
  have ok: "vec_ok B T h cv" "vec_ok B T h dv" using D(3) by simp_all
  obtain r h' T' where m: "tr_mut_set B h cv i y = Some (cv\<lparr>root := r\<rparr>, h')" "wrote B T h cv T' h' (cv\<lparr>root := r\<rparr>)"
    "vlist B h' (cv\<lparr>root := r\<rparr>) = (vlist B h cv)[i := y]"
    using tr_mut_set_wrote [OF D(1,2) ok(1) i] by blast
  note w = wroteD [OF m(2)]
  have "vset B tr_vector h cv i y = Some (cv\<lparr>root := r\<rparr>, h')" using m(1) by (simp add: tr_mut_set_vset)
  note alive = vset_alive [OF D(1,2) ok(1) i this]
  have dv: "vec_ok B T' h' dv" using vec_ok_alive [OF ok(2) D(2) w(2)] alive by blast
  have ne: "vid cv \<noteq> vid dv" "unshared B tr_vector (vid dv) h cv" using S by (auto simp: share_ok_def)
  have "unshared B tr_vector (vid dv) h' (cv\<lparr>root := r\<rparr>)"
    using unshared_wrote [OF D(1) ok(1) m(2) ne(2)] ne(1) by simp
  then have "share_ok B T' h' {dv} {cv\<lparr>root := r\<rparr>}"
    using D(1) w(1,4) dv ne(1) by (simp add: share_ok_def)
  with m(1,3) w(3) show ?thesis by blast
qed

lemma late_write_share:
  assumes S: "share_ok B T h {cv, dv} R" and f: "fenced (vid cv) h" and ne: "vid cv \<noteq> vid dv" and i: "i < sz cv"
  shows "\<exists>r h' T'. tr_mut_set B h cv i y = Some (cv\<lparr>root := r\<rparr>, h') \<and>
    share_ok B T' h' {cv\<lparr>root := r\<rparr>, dv} R \<and> fenced (vid cv) h' \<and>
    keeps tr_vector (vid cv) h h' \<and> vlist B h' (cv\<lparr>root := r\<rparr>) = (vlist B h cv)[i := y] \<and>
    (\<forall>z \<in> insert dv R. vlist B h' z = vlist B h z)"
proof -
  note D = share_okD [OF S]
  obtain r h' T' where m: "tr_mut_set B h cv i y = Some (cv\<lparr>root := r\<rparr>, h')" "wrote B T h cv T' h' (cv\<lparr>root := r\<rparr>)"
    "vlist B h' (cv\<lparr>root := r\<rparr>) = (vlist B h cv)[i := y]"
    using tr_mut_set_wrote [OF D(1,2) D(3) i] by blast
  have cW: "cv \<in> {cv, dv}" by simp
  note S1 = share_write [OF S cW m(2)]
  have n: "dv \<noteq> cv" "cv \<notin> R" using ne share_neq [OF S cW] by blast+
  have "share_ok B T' h' {cv\<lparr>root := r\<rparr>, dv} R" by (rule share_mono [OF S1(1)]) (use n in auto)
  moreover have "\<forall>z \<in> insert dv R. vlist B h' z = vlist B h z" using S1(2) n by auto
  moreover have "fenced (vid cv) h'" using fenced_keeps [OF f wroteD(3) [OF m(2)]] outsideD(1) by blast
  ultimately show ?thesis using m(1,3) wroteD(3) [OF m(2)] by blast
qed

lemma chunk_reattach_ok:
  assumes c: "conts w this = Some c" "conts w dep = Some d" "this \<noteq> dep"
    and t: "trackers c dep = Some t" "imaps t = identity # is" "ops t = op # os"
    and s: "splinters d (vid (sdata s)) \<noteq> None" and l: "latches d dep = Some n" "0 < n"
    and m: "assign B tr_vector (wheap w) (data d) (sdata s) a b = Some (dv, h)"
  shows "reattach B s this dep p a b w = Some (joined (vid (sdata s)) this dep d n dv h w)"
proof -
  obtain f where f: "splinters d (vid (sdata s)) = Some f" using s by blast
  have j: "join_splinter B s t p a b (wheap w) (data d) = Some (dv, h)"
    using t m by (simp add: join_splinter_def nth_opt_in)
  show ?thesis
    using c t f l j
    by (cases "n = 1") (simp_all add: reattach_def find_tracker_def count_down_def joined_def put_cont_def)
qed

end
