(* ===== verification/Chunk_System.thy ===== *)
theory Chunk_System imports
  Chunk_Share
begin

text \<open>
  An operation that works in chunks, as a step relation: every worker picks its task and works on a
  splinter, assigns its chunk to the dependent later, the program writes its vector meanwhile, and
  when the latch has opened a resolution runs. What a worker does is \<open>work\<close>, its task \<open>tk\<close>. \<open>seen\<close> and
  \<open>settled\<close> are ghost fields: what the vector held when a worker picked its task, and when the
  resolution ran. The locale \<open>chunk_work\<close> is the contract of such an operation; \<open>foreach\<close> and
  \<open>stencil\<close> have it.
\<close>

section \<open>States and steps\<close>

type_synonym 'a chunk_fun = "nat \<Rightarrow> 'a world \<Rightarrow> (('a splt_vector \<times> nat \<times> nat) \<times> 'a world) option"

record 'a ck_sys = "'a ct_sys" +
  working :: "nat \<Rightarrow> ('a splt_vector \<times> nat \<times> nat) option"
  seen :: "nat \<Rightarrow> 'a list"
  settled :: "'a list"

inductive ck_splt_step ::
    "'a chunk_fun \<Rightarrow> (nat \<Rightarrow> 'a task) \<Rightarrow> nat \<Rightarrow> nat \<Rightarrow> caddr \<Rightarrow> caddr \<Rightarrow> 'a ck_sys \<Rightarrow> 'a ck_sys \<Rightarrow> bool"
  for work tk B H this dep where
  Pick_chunk: "p < H \<Longrightarrow> queues s ! p = tk p # ts \<Longrightarrow> working s p = None \<Longrightarrow>
    work p (wld s) = Some (j, w) \<Longrightarrow> cont_list B this (wld s) = Some ys \<Longrightarrow>
    ck_splt_step work tk B H this dep s
      (s\<lparr>wld := w, queues := (queues s)[p := ts], working := (working s)(p \<mapsto> j), seen := (seen s)(p := ys)\<rparr>)"
| Join_chunk: "working s p = Some (sp, a, b) \<Longrightarrow> reattach B sp this dep p a b (wld s) = Some w \<Longrightarrow>
    ck_splt_step work tk B H this dep s (s\<lparr>wld := w, working := (working s)(p := None)\<rparr>)"

inductive ck_user_step :: "nat \<Rightarrow> caddr \<Rightarrow> 'a ck_sys \<Rightarrow> 'a ck_sys \<Rightarrow> bool" for B this where
  User_writes: "conts (wld s) this = Some c \<Longrightarrow> i < sz (data c) \<Longrightarrow>
    unprotected_set B this i y (wld s) = Some w \<Longrightarrow> ck_user_step B this s (s\<lparr>wld := w\<rparr>)"

inductive ck_resolve_step :: "nat \<Rightarrow> nat \<Rightarrow> caddr \<Rightarrow> 'a ck_sys \<Rightarrow> 'a ck_sys \<Rightarrow> bool" for B H this where
  Runs_resolution: "resns (wld s) = r # rs \<Longrightarrow> run_resolution B H r (wld s) = Some w \<Longrightarrow>
    cont_list B this (wld s) = Some ys \<Longrightarrow>
    ck_resolve_step B H this s (s\<lparr>wld := w\<lparr>resns := tl (resns w)\<rparr>, settled := ys\<rparr>)"

inductive_cases ck_splt_stepE: "ck_splt_step work tk B H this dep s s'"
inductive_cases ck_user_stepE: "ck_user_step B this s s'"
inductive_cases ck_resolve_stepE: "ck_resolve_step B H this s s'"

text \<open>Runs with the number of steps of the workers and the resolution; \<open>uw\<close> says whether the program may
  write its vector.\<close>

inductive ck_run ::
    "'a chunk_fun \<Rightarrow> (nat \<Rightarrow> 'a task) \<Rightarrow> nat \<Rightarrow> nat \<Rightarrow> caddr \<Rightarrow> caddr \<Rightarrow> bool \<Rightarrow> 'a ck_sys \<Rightarrow> nat \<Rightarrow> 'a ck_sys \<Rightarrow> bool"
  for work tk B H this dep uw s0 where
  Ck_start: "ck_run work tk B H this dep uw s0 0 s0"
| Ck_worker: "ck_run work tk B H this dep uw s0 k s \<Longrightarrow> ck_splt_step work tk B H this dep s s' \<Longrightarrow>
    ck_run work tk B H this dep uw s0 (Suc k) s'"
| Ck_resolve: "ck_run work tk B H this dep uw s0 k s \<Longrightarrow> ck_resolve_step B H this s s' \<Longrightarrow>
    ck_run work tk B H this dep uw s0 (Suc k) s'"
| Ck_user: "uw \<Longrightarrow> ck_run work tk B H this dep uw s0 k s \<Longrightarrow> ck_user_step B this s s' \<Longrightarrow>
    ck_run work tk B H this dep uw s0 k s'"

section \<open>The invariant\<close>

definition ck_workers :: "'a ck_sys \<Rightarrow> vec set" where
  "ck_workers s = {sdata sp |p sp a b. working s p = Some (sp, a, b)}"

definition ck_busy :: "nat \<Rightarrow> 'a ck_sys \<Rightarrow> nat set" where
  "ck_busy H s = {p. p < H \<and> (queues s ! p \<noteq> [] \<or> working s p \<noteq> None)}"

definition ck_waiting :: "nat \<Rightarrow> 'a ck_sys \<Rightarrow> nat set" where
  "ck_waiting H s = {p. p < H \<and> queues s ! p \<noteq> []}"

text \<open>The splinters at work, and what the workers that have picked their task found.\<close>

definition ck_readers :: "nat \<Rightarrow> 'a ck_sys \<Rightarrow> 'a tracker \<Rightarrow> vec set" where
  "ck_readers H s t = ck_workers s \<union> {used t ! p |p. p < H \<and> p \<notin> ck_waiting H s}"

definition ck_objs ::
    "('a tracker \<Rightarrow> bool) \<Rightarrow> nat \<Rightarrow> caddr \<Rightarrow> caddr \<Rightarrow> 'a ck_sys \<Rightarrow> 'a cont \<Rightarrow> 'a cont \<Rightarrow> 'a tracker \<Rightarrow> bool" where
  "ck_objs tok H this dep s c d t \<longleftrightarrow> conts (wld s) this = Some c \<and> conts (wld s) dep = Some d \<and>
    this \<noteq> dep \<and> trackers c dep = Some t \<and> (\<not> resolved c \<longrightarrow> tok t) \<and> length (used t) = H \<and>
    \<not> abandoned c \<and> contended c = {} \<and> length (queues s) = H"

text \<open>Before the first worker has picked its task the dependent may share all nodes with the vector,
  and only the vector fears no writer; from then on the vector has an id of its own.\<close>

definition ck_share :: "nat \<Rightarrow> nat \<Rightarrow> typing \<Rightarrow> 'a ck_sys \<Rightarrow> 'a cont \<Rightarrow> 'a cont \<Rightarrow> 'a tracker \<Rightarrow> bool" where
  "ck_share B H T s c d t \<longleftrightarrow> vid (data c) \<noteq> vid (data d) \<and>
    (if ck_waiting H s = {..<H}
     then ck_workers s = {} \<and> share_ok B T (wheap (wld s)) {data d} {data c}
     else share_ok B T (wheap (wld s)) {data c, data d} (ck_readers H s t) \<and>
       fenced (vid (data c)) (wheap (wld s)))"

definition ck_ids :: "nat \<Rightarrow> 'a ck_sys \<Rightarrow> 'a cont \<Rightarrow> 'a cont \<Rightarrow> 'a tracker \<Rightarrow> bool" where
  "ck_ids H s c d t \<longleftrightarrow> ids_below (wnext (wld s)) (wheap (wld s)) \<and>
    (\<forall>v \<in> insert (data c) (insert (data d) (ck_readers H s t)). vid v < wnext (wld s)) \<and>
    unat (wnext (wld s)) + 2 * card (ck_waiting H s) < 2 ^ 32"

definition ck_shape :: "(nat \<Rightarrow> bool) \<Rightarrow> nat \<Rightarrow> nat \<Rightarrow> nat \<Rightarrow> 'a ck_sys \<Rightarrow> 'a cont \<Rightarrow> 'a cont \<Rightarrow> 'a tracker \<Rightarrow> bool" where
  "ck_shape nok B H n s c d t \<longleftrightarrow> chunks_strict H n \<and> nok n \<and> sz (data c) = n \<and> n < capacity B (data c) \<and>
    calc_depth B (data c) \<le> 255 \<and>
    (\<forall>v \<in> insert (data d) (ck_readers H s t). sz v = n \<and> shift v = shift (data c))"

text \<open>What the workers make of what they saw, chunk by chunk; and the dependent, while chunks are
  joined to it and after the resolution.\<close>

definition by_chunks :: "nat \<Rightarrow> nat \<Rightarrow> ('a list \<Rightarrow> nat \<Rightarrow> 'a) \<Rightarrow> (nat \<Rightarrow> 'a list) \<Rightarrow> 'a list" where
  "by_chunks H n kern ss = map (\<lambda>i. kern (ss (chunk_at H n i)) i) [0..<n]"

type_synonym 'a chunk_fin = "nat \<Rightarrow> 'a list \<Rightarrow> (nat \<Rightarrow> 'a list) \<Rightarrow> 'a list \<Rightarrow> 'a list"

definition ck_vals ::
    "('a list \<Rightarrow> nat \<Rightarrow> 'a) \<Rightarrow> 'a chunk_fin \<Rightarrow> nat \<Rightarrow> nat \<Rightarrow> nat \<Rightarrow> 'a ck_sys \<Rightarrow> 'a cont \<Rightarrow> 'a cont \<Rightarrow> bool" where
  "ck_vals kern fin B H n s c d \<longleftrightarrow>
    (if resolved c
     then vlist B (wheap (wld s)) (data d) = fin n (settled s) (seen s) (by_chunks H n kern (seen s))
     else (\<forall>p < H. p \<notin> ck_busy H s \<longrightarrow> (\<forall>i. in_chunk H n p i \<longrightarrow>
       vlist B (wheap (wld s)) (data d) ! i = kern (seen s p) i)))"

definition ck_phase ::
    "(nat \<Rightarrow> 'a task) \<Rightarrow> ('a list \<Rightarrow> nat \<Rightarrow> 'a) \<Rightarrow> nat \<Rightarrow> nat \<Rightarrow> nat \<Rightarrow> 'a ck_sys \<Rightarrow> 'a cont \<Rightarrow> 'a tracker \<Rightarrow> bool" where
  "ck_phase tk kern B H n s d t \<longleftrightarrow>
    (\<forall>p < H. queues s ! p = [] \<or> queues s ! p = [tk p] \<and> working s p = None) \<and>
    (\<forall>p < H. p \<notin> ck_waiting H s \<longrightarrow> vlist B (wheap (wld s)) (used t ! p) = seen s p) \<and>
    (\<forall>p sp a b. working s p = Some (sp, a, b) \<longrightarrow> p < H \<and> partition H p n = (a, b) \<and>
      splinters d (vid (sdata sp)) \<noteq> None \<and>
      (\<forall>i. in_chunk H n p i \<longrightarrow> vlist B (wheap (wld s)) (sdata sp) ! i = kern (seen s p) i))"

definition ck_latch :: "nat \<Rightarrow> caddr \<Rightarrow> caddr \<Rightarrow> 'a ck_sys \<Rightarrow> 'a cont \<Rightarrow> 'a cont \<Rightarrow> bool" where
  "ck_latch H this dep s c d \<longleftrightarrow> latches d dep = Some (card (ck_busy H s)) \<and>
    (if resolved c then ck_busy H s = {} \<and> resns (wld s) = []
     else resns (wld s) = (if ck_busy H s = {} then [Resolve_monotonic this dep] else []))"

section \<open>The contract\<close>

text \<open>\<open>tok\<close> describes the tracker, \<open>nok\<close> the size; \<open>kern\<close> is what a worker computes for an index, \<open>fin\<close> what
  the resolution makes of the dependent, from what the vector holds then and what the workers saw.\<close>

locale chunk_work =
  fixes B H :: nat and this dep :: caddr
    and work :: "'a chunk_fun" and tk :: "nat \<Rightarrow> 'a task"
    and tok :: "'a tracker \<Rightarrow> bool" and nok :: "nat \<Rightarrow> bool"
    and kern :: "'a list \<Rightarrow> nat \<Rightarrow> 'a" and fin :: "'a chunk_fin"
  assumes tok_used: "tok (t\<lparr>used := us\<rparr>) \<longleftrightarrow> tok t"
    and tok_first: "tok t \<Longrightarrow> \<exists>im op os. imaps t = identity # im \<and> ops t = op # os"
    and work_ok: "conts w this = Some c \<Longrightarrow> conts w dep = Some d \<Longrightarrow> this \<noteq> dep \<Longrightarrow> trackers c dep = Some t \<Longrightarrow>
      tok t \<Longrightarrow> p < length (used t) \<Longrightarrow> 0 < B \<Longrightarrow> store_ok B T (wheap w) \<Longrightarrow> vec_ok B T (wheap w) (data c) \<Longrightarrow>
      ids_below (wnext w) (wheap w) \<Longrightarrow> wnext w < wnext w + 1 \<Longrightarrow> partition H p (sz (data c)) = (a, b) \<Longrightarrow>
      a < b \<Longrightarrow> b \<le> sz (data c) \<Longrightarrow> nok (sz (data c)) \<Longrightarrow>
      \<exists>r h' T'. work p w =
        Some ((\<lparr>sdata = (data c)\<lparr>vid := wnext w + 1, root := r\<rparr>, sops = ops t\<rparr>, a, b), picked this dep p c d t h' w) \<and>
        wrote B T (wheap w) ((data c)\<lparr>vid := wnext w + 1\<rparr>) T' h' ((data c)\<lparr>vid := wnext w + 1, root := r\<rparr>) \<and>
        (\<forall>i. a \<le> i \<and> i < b \<longrightarrow>
          vlist B h' ((data c)\<lparr>vid := wnext w + 1, root := r\<rparr>) ! i = kern (vlist B (wheap w) (data c)) i)"
    and fin_ok: "conts w this = Some c \<Longrightarrow> conts w dep = Some d \<Longrightarrow> this \<noteq> dep \<Longrightarrow> \<not> abandoned c \<Longrightarrow>
      contended c = {} \<Longrightarrow> trackers c dep = Some t \<Longrightarrow> tok t \<Longrightarrow> latches d dep = Some 0 \<Longrightarrow>
      chunks_strict H n \<Longrightarrow> nok n \<Longrightarrow> sz (data c) = n \<Longrightarrow> sz (data d) = n \<Longrightarrow>
      share_ok B T (wheap w) {data c, data d} (set (used t)) \<Longrightarrow> fenced (vid (data c)) (wheap w) \<Longrightarrow>
      vid (data c) \<noteq> vid (data d) \<Longrightarrow> used_ok B H n (wheap w) (used t) ss \<Longrightarrow>
      \<exists>dv h T' acc ics. resolve_monotonic B H this dep w = Some (w\<lparr>wheap := h, conts := (conts w)
          (this \<mapsto> c\<lparr>trackers := (trackers c)(dep \<mapsto> t\<lparr>icontended := ics\<rparr>), resolved := True\<rparr>,
           dep \<mapsto> d\<lparr>data := dv, contended := acc\<rparr>)\<rparr>) \<and>
        settling B (data c) (used t) (wheap w) (data d) T' h dv \<and>
        vlist B h dv = fin n (vlist B (wheap w) (data c)) ss (vlist B (wheap w) (data d))"
begin

definition ck_state :: "nat \<Rightarrow> 'a ck_sys \<Rightarrow> 'a cont \<Rightarrow> 'a cont \<Rightarrow> 'a tracker \<Rightarrow> typing \<Rightarrow> bool" where
  "ck_state n s c d t T \<longleftrightarrow> ck_objs tok H this dep s c d t \<and> ck_share B H T s c d t \<and>
    ck_ids H s c d t \<and> ck_shape nok B H n s c d t \<and> ck_vals kern fin B H n s c d \<and>
    ck_phase tk kern B H n s d t \<and> ck_latch H this dep s c d"

definition ck_inv :: "nat \<Rightarrow> 'a ck_sys \<Rightarrow> bool" where
  "ck_inv n s \<longleftrightarrow> (\<exists>c d t T. ck_state n s c d t T)"

lemma ck_stateD:
  assumes "ck_state n s c d t T"
  shows "ck_objs tok H this dep s c d t" "ck_share B H T s c d t" "ck_ids H s c d t" "ck_shape nok B H n s c d t"
    "ck_vals kern fin B H n s c d" "ck_phase tk kern B H n s d t" "ck_latch H this dep s c d"
  using assms by (auto simp: ck_state_def)

end

section \<open>Helpers\<close>

lemma finite_ck [simp]: "finite (ck_busy H s)" "finite (ck_waiting H s)"
  by (simp_all add: ck_busy_def ck_waiting_def)

text \<open>In both phases only the dependent's vector has a writer that the workers must fear.\<close>

lemma ck_share_dep:
  assumes "ck_share B H T s c d t"
  shows "share_ok B T (wheap (wld s)) {data d} (insert (data c) (ck_readers H s t))"
proof (cases "ck_waiting H s = {..<H}")
  case True
  then have "ck_readers H s t = {}" using assms by (auto simp: ck_share_def ck_readers_def)
  then show ?thesis using assms True by (simp add: ck_share_def)
next
  case False
  then have "share_ok B T (wheap (wld s)) (insert (data c) {data d}) (ck_readers H s t)" "data c \<notin> {data d}"
    using assms by (auto simp: ck_share_def)
  then show ?thesis by (rule share_retire)
qed

lemma ck_workers_new:
  assumes "working s p = None" "working s' = (working s)(p \<mapsto> (sp, a, b))"
  shows "ck_workers s' = insert (sdata sp) (ck_workers s)"
proof (rule set_eqI, rule iffI)
  fix y assume "y \<in> insert (sdata sp) (ck_workers s)"
  moreover have "sdata sp \<in> ck_workers s'" using assms(2) by (auto simp: ck_workers_def)
  moreover have "y \<in> ck_workers s'" if "working s q = Some (sq, a', b')" "y = sdata sq" for q sq a' b'
  proof -
    have "working s' q = Some (sq, a', b')" using assms that(1) by (cases "q = p") simp_all
    then show ?thesis using that(2) by (auto simp: ck_workers_def)
  qed
  ultimately show "y \<in> ck_workers s'" by (auto simp: ck_workers_def)
qed (use assms in \<open>auto simp: ck_workers_def split: if_splits\<close>)

text \<open>A pick adds the splinter and the vector that was found.\<close>

lemma ck_readers_new:
  assumes w: "working s p = None" "working s' = (working s)(p \<mapsto> (sp, a, b))"
    and p: "p \<in> ck_waiting H s" "ck_waiting H s' = ck_waiting H s - {p}" "p < length (used t)"
  shows "ck_readers H s' (t\<lparr>used := (used t)[p := v]\<rparr>) = insert (sdata sp) (insert v (ck_readers H s t))"
proof -
  have "p < H" using p(1) by (simp add: ck_waiting_def)
  then have "{(used t)[p := v] ! q |q. q < H \<and> q \<notin> ck_waiting H s'} =
      insert v {used t ! q |q. q < H \<and> q \<notin> ck_waiting H s}"
    using p by (auto simp: nth_list_update)
  then show ?thesis unfolding ck_readers_def ck_workers_new [OF w] by auto
qed

lemma ck_not_quiet:
  assumes "ck_phase tk kern B H n s d t" "working s p = Some j"
  shows "p < H" "queues s ! p = []" "ck_waiting H s \<noteq> {..<H}" "p \<in> ck_busy H s"
proof -
  obtain sp a b where j: "j = (sp, a, b)" by (metis prod_cases3)
  show p: "p < H" using assms j unfolding ck_phase_def by blast
  then have "queues s ! p = [] \<or> working s p = None" using assms(1) by (auto simp: ck_phase_def)
  then show "queues s ! p = []" using assms(2) by simp
  show "p \<in> ck_busy H s" using p assms(2) j by (simp add: ck_busy_def)
  have "p \<notin> ck_waiting H s" using \<open>queues s ! p = []\<close> by (simp add: ck_waiting_def)
  then show "ck_waiting H s \<noteq> {..<H}" using p by auto
qed

lemma by_chunks_nth: "i < n \<Longrightarrow> by_chunks H n kern ss ! i = kern (ss (chunk_at H n i)) i"
  by (simp add: by_chunks_def)

lemma length_by_chunks [simp]: "length (by_chunks H n kern ss) = n"
  by (simp add: by_chunks_def)

section \<open>The steps of the workers\<close>

context chunk_work
begin

lemma ck_share_vals:
  assumes "ck_state n s c d t T"
  shows "0 < B" "store_ok B T (wheap (wld s))" "vec_ok B T (wheap (wld s)) (data c)"
    "vec_ok B T (wheap (wld s)) (data d)" "y \<in> ck_readers H s t \<Longrightarrow> vec_ok B T (wheap (wld s)) y"
  using share_okD(1-3) [OF ck_share_dep [OF ck_stateD(2) [OF assms]]] by blast+

lemma ck_unresolved: "ck_state n s c d t T \<Longrightarrow> ck_busy H s \<noteq> {} \<Longrightarrow> \<not> resolved c"
  using ck_stateD(7) by (fastforce simp: ck_latch_def split: if_splits)

lemma ck_pick_ok:
  assumes R: "ck_state n s c d t T" and p: "p < H" "queues s ! p = tk p # ts"
  shows "\<exists>j w. work p (wld s) = Some (j, w) \<and>
    cont_list B this w = cont_list B this (wld s) \<and> resns w = resns (wld s) \<and>
    ck_inv n (s\<lparr>wld := w, queues := (queues s)[p := ts], working := (working s)(p \<mapsto> j),
      seen := (seen s)(p := vlist B (wheap (wld s)) (data c))\<rparr>)"
proof -
  note O = ck_stateD(1) [OF R, unfolded ck_objs_def] and I = ck_stateD(3) [OF R, unfolded ck_ids_def]
    and G = ck_stateD(4) [OF R, unfolded ck_shape_def] and V = ck_stateD(5) [OF R, unfolded ck_vals_def]
    and Ph = ck_stateD(6) [OF R, unfolded ck_phase_def] and L = ck_stateD(7) [OF R, unfolded ck_latch_def]
    and ok = ck_share_vals [OF R] and S = ck_share_dep [OF ck_stateD(2) [OF R]]
  let ?w = "wld s" and ?cv = "data c" and ?nx = "wnext (wld s)"
  let ?h = "wheap ?w"
  have ts: "ts = []" "working s p = None" using Ph p by auto
  have fin: "p \<in> ck_waiting H s" "p \<in> ck_busy H s" using p by (auto simp: ck_waiting_def ck_busy_def)
  then have nr: "\<not> resolved c" using ck_unresolved [OF R] by blast
  then have tok: "tok t" using O by simp
  obtain a b where ab: "partition H p (sz ?cv) = (a, b)" by fastforce
  have st: "chunks_strict H (sz ?cv)" "nok (sz ?cv)" using G by simp_all
  note cb = strict_bounds [OF st(1) p(1) ab]
  have pu: "p < length (used t)" using O p(1) by simp
  have card: "card (ck_waiting H s) = Suc (card (ck_waiting H s - {p}))" by (rule card.remove [OF finite_ck(2) fin(1)])
  then have "unat ?nx + 2 < 2 ^ 32" using I by linarith
  note id = two_ids [OF this]
  have ib: "ids_below ?nx ?h" using I by simp
  obtain r h' T' where w: "work p ?w =
      Some ((\<lparr>sdata = ?cv\<lparr>vid := ?nx + 1, root := r\<rparr>, sops = ops t\<rparr>, a, b), picked this dep p c d t h' ?w)"
    "wrote B T ?h (?cv\<lparr>vid := ?nx + 1\<rparr>) T' h' (?cv\<lparr>vid := ?nx + 1, root := r\<rparr>)"
    "\<forall>i. a \<le> i \<and> i < b \<longrightarrow> vlist B h' (?cv\<lparr>vid := ?nx + 1, root := r\<rparr>) ! i = kern (vlist B ?h ?cv) i"
    using work_ok [of ?w c d t p T a b] O tok pu ok(1-3) ib id(1) ab cb st(2) by blast
  let ?sv = "?cv\<lparr>vid := ?nx + 1, root := r\<rparr>" and ?new = "?cv\<lparr>vid := ?nx\<rparr>"
  let ?sp = "\<lparr>sdata = ?sv, sops = ops t\<rparr>"
  let ?s' = "s\<lparr>wld := picked this dep p c d t h' ?w, queues := (queues s)[p := ts],
    working := (working s)(p \<mapsto> (?sp, a, b)), seen := (seen s)(p := vlist B ?h ?cv)\<rparr>"
  let ?t = "t\<lparr>used := (used t)[p := ?cv]\<rparr>"
  let ?c = "c\<lparr>data := ?new, trackers := (trackers c)(dep \<mapsto> ?t)\<rparr>"
  let ?d = "d\<lparr>splinters := emplace (?nx + 1) False (splinters d)\<rparr>"
  have wt: "ck_waiting H ?s' = ck_waiting H s - {p}"
    using p O ts(1) by (auto simp: ck_waiting_def nth_list_update)
  have bs: "ck_busy H ?s' = ck_busy H s" using p O ts by (auto simp: ck_busy_def nth_list_update)
  have rd: "ck_readers H ?s' ?t = insert ?sv (insert ?cv (ck_readers H s t))"
    using ck_readers_new [OF ts(2) _ fin(1) wt pu, of ?sp a b ?cv] by simp
  have below: "\<forall>y \<in> insert (data d) (insert ?cv (ck_readers H s t)). vid y < ?nx" using I by auto
  have vs: "vid ?sv = ?nx + 1" by simp
  note P = pick_share [OF S ib below id(1) w(2) vs]
  have lt: "?nx < ?nx + 2" using id(1,2) by (rule order.strict_trans)
  have "ids_below (?nx + 2) ?h" using ib lt unfolding ids_below_def by (meson order.strict_trans)
  then have ib': "ids_below (?nx + 2) h'" using ids_below_keeps wroteD(3) [OF w(2)] id(2) by auto
  have lens: "length (vlist B ?h ?cv) = n" using G by simp
  have "ck_objs tok H this dep ?s' ?c ?d ?t" using O tok tok_used by (simp add: ck_objs_def)
  moreover have "ck_share B H T' ?s' ?c ?d ?t"
    using P(1,2) rd wt p(1) below by (auto simp: ck_share_def)
  moreover have "ck_ids H ?s' ?c ?d ?t"
    unfolding ck_ids_def
  proof (intro conjI ballI)
    show "vid v < wnext (wld ?s')" if "v \<in> insert (data ?c) (insert (data ?d) (ck_readers H ?s' ?t))" for v
      using that below lt id(2) unfolding rd by (auto dest: order.strict_trans)
    show "unat (wnext (wld ?s')) + 2 * card (ck_waiting H ?s') < 2 ^ 32" using I card id(3) wt by simp
  qed (use ib' in simp)
  moreover have "ck_shape nok B H n ?s' ?c ?d ?t"
    using G unfolding ck_shape_def rd by (simp add: capacity_def calc_depth_def)
  moreover have "ck_vals kern fin B H n ?s' ?c ?d"
  proof -
    have "vlist B h' (data d) ! i = seen' i" if "vlist B ?h (data d) ! i = seen' i" for i seen'
      using P(3) [of "data d"] that by simp
    moreover have "q \<noteq> p" if "q \<notin> ck_busy H s" for q using that fin(2) by blast
    ultimately show ?thesis using V nr bs by (simp add: ck_vals_def)
  qed
  moreover have "ck_phase tk kern B H n ?s' ?d ?t"
    unfolding ck_phase_def
  proof (intro conjI allI impI)
    show "queues ?s' ! q = [] \<or> queues ?s' ! q = [tk q] \<and> working ?s' q = None" if "q < H" for q
      using Ph that p O ts(1) by (cases "q = p") (simp_all add: nth_list_update)
    show "vlist B (wheap (wld ?s')) (used ?t ! q) = seen ?s' q" if "q < H" "q \<notin> ck_waiting H ?s'" for q
    proof (cases "q = p")
      case True
      then show ?thesis using P(3) [of ?cv] pu by simp
    next
      case False
      then have q: "q \<notin> ck_waiting H s" using that(2) wt by blast
      then have "used t ! q \<in> ck_readers H s t" using that(1) by (auto simp: ck_readers_def)
      then show ?thesis using P(3) [of "used t ! q"] Ph that(1) q False by simp
    qed
    fix q sq a' b' assume q: "working ?s' q = Some (sq, a', b')"
    have "q < H \<and> partition H q n = (a', b') \<and> splinters ?d (vid (sdata sq)) \<noteq> None \<and>
      (\<forall>i. in_chunk H n q i \<longrightarrow> vlist B h' (sdata sq) ! i = kern (seen ?s' q) i)"
    proof (cases "q = p")
      case True
      then have e: "sq = ?sp" "a' = a" "b' = b" using q by auto
      have nn: "partition H p n = (a, b)" "sz ?cv = n" using ab G by simp_all
      then have "vlist B h' ?sv ! i = kern (vlist B ?h ?cv) i" if "in_chunk H n p i" for i
        using that w(3) by (simp add: in_chunk_def)
      moreover have "splinters ?d (?nx + 1) \<noteq> None" using emplace_some(1) by simp
      ultimately show ?thesis using True e nn(1) p(1) by simp
    next
      case False
      then have r: "working s q = Some (sq, a', b')" using q by simp
      then have "sdata sq \<in> ck_readers H s t" by (auto simp: ck_workers_def ck_readers_def)
      then show ?thesis
        using Ph r False P(3) [of "sdata sq"] emplace_some(2) [of "splinters d"] by auto
    qed
    then show "q < H" "partition H q n = (a', b')" "splinters ?d (vid (sdata sq)) \<noteq> None"
      "in_chunk H n q i \<Longrightarrow> vlist B (wheap (wld ?s')) (sdata sq) ! i = kern (seen ?s' q) i" for i
      by simp_all
  qed
  moreover have "ck_latch H this dep ?s' ?c ?d" using L bs by (simp add: ck_latch_def)
  ultimately have "ck_inv n ?s'" unfolding ck_inv_def ck_state_def by blast
  moreover have "vlist B h' ?new = vlist B ?h ?cv" using P(3) [of ?cv] by simp
  then have "cont_list B this (picked this dep p c d t h' ?w) = cont_list B this ?w"
    using O by (simp add: cont_list_def)
  ultimately show ?thesis using w(1) by (intro exI conjI) simp_all
qed

lemma ck_join_ok:
  assumes R: "ck_state n s c d t T" and p: "working s p = Some (sp, a, b)"
  shows "\<exists>w. reattach B sp this dep p a b (wld s) = Some w \<and>
    (resns w \<noteq> [] \<or> card (ck_busy H s) \<noteq> 1) \<and> cont_list B this w = cont_list B this (wld s) \<and>
    ck_inv n (s\<lparr>wld := w, working := (working s)(p := None)\<rparr>)"
proof -
  note O = ck_stateD(1) [OF R, unfolded ck_objs_def] and I = ck_stateD(3) [OF R, unfolded ck_ids_def]
    and G = ck_stateD(4) [OF R, unfolded ck_shape_def] and V = ck_stateD(5) [OF R, unfolded ck_vals_def]
    and Ph = ck_stateD(6) [OF R, unfolded ck_phase_def] and L = ck_stateD(7) [OF R, unfolded ck_latch_def]
    and nq = ck_not_quiet [OF ck_stateD(6) [OF R] p]
  let ?w = "wld s"
  let ?h = "wheap ?w"
  have nr: "\<not> resolved c" using ck_unresolved [OF R] nq(4) by blast
  have Sh: "share_ok B T ?h {data c, data d} (ck_readers H s t)" "fenced (vid (data c)) ?h" "vid (data c) \<noteq> vid (data d)"
    using ck_stateD(2) [OF R] nq(3) by (auto simp: ck_share_def)
  obtain im op os where op: "imaps t = identity # im" "ops t = op # os" using O nr tok_first by blast
  have ph: "partition H p n = (a, b)" "splinters d (vid (sdata sp)) \<noteq> None"
    "\<forall>i. in_chunk H n p i \<longrightarrow> vlist B ?h (sdata sp) ! i = kern (seen s p) i" using Ph p by blast+
  have wp: "sdata sp \<in> ck_readers H s t" using p by (auto simp: ck_workers_def ck_readers_def)
  have st: "chunks_strict H n" using G by simp
  note ab = strict_bounds [OF st nq(1) ph(1)]
  have sh: "sz (sdata sp) = sz (data d)" "shift (sdata sp) = shift (data d)" "b \<le> sz (data d)"
    "b < capacity B (data d)" "calc_depth B (data d) \<le> 255" "sz (data d) = n"
    using G wp ab(2) by (simp_all add: capacity_def calc_depth_def)
  obtain dv h' T' where m: "assign B tr_vector ?h (data d) (sdata sp) a b = Some (dv, h')"
    "share_ok B T' h' {data c, dv} (ck_readers H s t)" "fenced (vid (data c)) h'" "keeps tr_vector (vid (data d)) ?h h'"
    "vid dv = vid (data d)" "sz dv = sz (data d)" "shift dv = shift (data d)"
    "vlist B h' dv = take a (vlist B ?h (data d)) @ take (b - a) (drop a (vlist B ?h (sdata sp))) @ drop b (vlist B ?h (data d))"
    "\<forall>y \<in> insert (data c) (ck_readers H s t). vlist B h' y = vlist B ?h y"
    using join_share [OF Sh(1) wp Sh(3,2) sh(1,2) ab(1) sh(3-5)] by blast
  have nth: "vlist B h' dv ! i = (if a \<le> i \<and> i < b then vlist B ?h (sdata sp) ! i else vlist B ?h (data d) ! i)"
    if "i < n" for i
    using that sh(1,3,6) ab(1) unfolding m(8) by (auto simp: nth_append min_absorb2)
  have cnt: "0 < card (ck_busy H s)" using nq(4) by (auto simp: card_gt_0_iff)
  let ?w' = "joined (vid (sdata sp)) this dep d (card (ck_busy H s)) dv h' ?w"
  have re: "reattach B sp this dep p a b ?w = Some ?w'"
    using chunk_reattach_ok [of ?w this c dep d t im op os sp "card (ck_busy H s)" B a b dv h'] O op ph(2) L cnt m(1)
    by simp
  let ?s' = "s\<lparr>wld := ?w', working := (working s)(p := None)\<rparr>"
  let ?d = "d\<lparr>data := dv, splinters := (splinters d)(vid (sdata sp) \<mapsto> True),
    latches := (latches d)(dep \<mapsto> card (ck_busy H s) - 1)\<rparr>"
  have wt: "ck_waiting H ?s' = ck_waiting H s" by (simp add: ck_waiting_def)
  have rd: "ck_readers H ?s' t \<subseteq> ck_readers H s t"
    by (auto simp: ck_readers_def ck_workers_def wt split: if_splits)
  have bs: "ck_busy H ?s' = ck_busy H s - {p}" using nq(1,2) by (auto simp: ck_busy_def)
  have cb: "card (ck_busy H ?s') = card (ck_busy H s) - 1" unfolding bs using nq(4) by (simp add: card_Diff_singleton)
  have e0: "card (ck_busy H s) = 1 \<longleftrightarrow> ck_busy H ?s' = {}"
    using cb cnt finite_ck(1) [of H ?s'] by (metis One_nat_def Suc_pred card_0_eq diff_self_eq_0)
  have "vid (data d) < wnext ?w" using I by simp
  then have ib: "ids_below (wnext ?w) h'" using ids_below_keeps m(4) I by blast
  have "ck_objs tok H this dep ?s' c ?d t" using O by (simp add: ck_objs_def)
  moreover have "ck_share B H T' ?s' c ?d t"
    using share_mono [OF m(2) order_refl rd] m(3,5) Sh(3) nq(3) by (simp add: ck_share_def wt)
  moreover have "ck_ids H ?s' c ?d t" using I rd wt ib m(5) by (auto simp: ck_ids_def)
  moreover have "ck_shape nok B H n ?s' c ?d t" using G rd m(6,7) by (auto simp: ck_shape_def)
  moreover have "ck_vals kern fin B H n ?s' c ?d"
  proof -
    have "vlist B h' dv ! i = kern (seen s q) i" if q: "q < H" "q \<notin> ck_busy H ?s'" "in_chunk H n q i" for q i
    proof -
      have i: "i < n" using q(3) by (auto simp: in_chunk_def partition_def)
      show ?thesis
      proof (cases "q = p")
        case True
        then show ?thesis using nth [OF i] q(3) ph(1,3) by (simp add: in_chunk_def)
      next
        case False
        then have "\<not> in_chunk H n p i" using chunk_of q(3) by metis
        then have "\<not> (a \<le> i \<and> i < b)" using ph(1) by (simp add: in_chunk_def)
        then have "vlist B h' dv ! i = vlist B ?h (data d) ! i" using nth [OF i] by (simp only: if_False)
        moreover have "q \<notin> ck_busy H s" using False q(2) bs by simp
        ultimately show ?thesis using V nr q(1,3) by simp
      qed
    qed
    then show ?thesis using nr by (simp add: ck_vals_def)
  qed
  moreover have "ck_phase tk kern B H n ?s' ?d t"
    unfolding ck_phase_def
  proof (intro conjI allI impI)
    fix q sq a' b' assume q: "working ?s' q = Some (sq, a', b')"
    then have r: "working s q = Some (sq, a', b')" by (simp split: if_splits)
    then have "sdata sq \<in> ck_readers H s t" by (auto simp: ck_workers_def ck_readers_def)
    then show "q < H" "partition H q n = (a', b')" "splinters ?d (vid (sdata sq)) \<noteq> None"
      "in_chunk H n q i \<Longrightarrow> vlist B (wheap (wld ?s')) (sdata sq) ! i = kern (seen ?s' q) i" for i
      using Ph r m(9) by auto
  next
    show "vlist B (wheap (wld ?s')) (used t ! q) = seen ?s' q" if "q < H" "q \<notin> ck_waiting H ?s'" for q
    proof -
      have "used t ! q \<in> ck_readers H s t" using that wt by (auto simp: ck_readers_def)
      then show ?thesis using m(9) Ph that wt by simp
    qed
  qed (use Ph in auto)
  moreover have "ck_latch H this dep ?s' c ?d"
    using L nr e0 cb cnt nq(4) by (auto simp: ck_latch_def)
  ultimately have "ck_inv n ?s'" unfolding ck_inv_def ck_state_def by blast
  moreover have "cont_list B this ?w' = cont_list B this ?w"
    using O m(9) by (simp add: cont_list_def)
  moreover have "resns ?w' \<noteq> [] \<or> card (ck_busy H s) \<noteq> 1" by simp
  ultimately show ?thesis using re by blast
qed

lemma ck_user_ok:
  assumes R: "ck_state n s c d t T" and i: "i < sz (data c)"
  shows "\<exists>w. unprotected_set B this i y (wld s) = Some w \<and> resns w = resns (wld s) \<and>
    cont_list B this w = Some ((vlist B (wheap (wld s)) (data c))[i := y]) \<and>
    (ck_waiting H s \<noteq> {..<H} \<longrightarrow> cont_list B dep w = cont_list B dep (wld s)) \<and>
    ck_inv n (s\<lparr>wld := w\<rparr>)"
proof -
  note O = ck_stateD(1) [OF R, unfolded ck_objs_def] and I = ck_stateD(3) [OF R, unfolded ck_ids_def]
    and G = ck_stateD(4) [OF R, unfolded ck_shape_def] and V = ck_stateD(5) [OF R, unfolded ck_vals_def]
    and Ph = ck_stateD(6) [OF R, unfolded ck_phase_def] and L = ck_stateD(7) [OF R, unfolded ck_latch_def]
    and Sh = ck_stateD(2) [OF R, unfolded ck_share_def]
  let ?w = "wld s"
  let ?h = "wheap ?w"
  have rdr: "ck_readers H (s\<lparr>wld := w'\<rparr>) t = ck_readers H s t" for w'
    by (simp add: ck_readers_def ck_workers_def ck_waiting_def)
  obtain r h' T' where m: "tr_mut_set B ?h (data c) i y = Some ((data c)\<lparr>root := r\<rparr>, h')"
    "ck_share B H T' (s\<lparr>wld := put_cont this (c\<lparr>data := (data c)\<lparr>root := r\<rparr>\<rparr>) (?w\<lparr>wheap := h'\<rparr>)\<rparr>)
      (c\<lparr>data := (data c)\<lparr>root := r\<rparr>\<rparr>) d t"
    "keeps tr_vector (vid (data c)) ?h h'" "vlist B h' ((data c)\<lparr>root := r\<rparr>) = (vlist B ?h (data c))[i := y]"
    "ck_waiting H s \<noteq> {..<H} \<longrightarrow> (\<forall>z \<in> insert (data d) (ck_readers H s t). vlist B h' z = vlist B ?h z)"
  proof (cases "ck_waiting H s = {..<H}")
    case True
    then have q: "share_ok B T ?h {data d} {data c}" "vid (data c) \<noteq> vid (data d)" "ck_workers s = {}"
      using Sh by simp_all
    show ?thesis
      using early_write_share [OF q(1) i, of y] that True q(2,3)
      by (fastforce simp: ck_share_def ck_waiting_def ck_workers_def)
  next
    case False
    then have q: "share_ok B T ?h {data c, data d} (ck_readers H s t)" "fenced (vid (data c)) ?h"
      "vid (data c) \<noteq> vid (data d)" using Sh by simp_all
    show ?thesis
      using late_write_share [OF q i, of y] that False q(3)
      by (fastforce simp: ck_share_def rdr ck_waiting_def)
  qed
  let ?cv = "(data c)\<lparr>root := r\<rparr>" and ?c = "c\<lparr>data := (data c)\<lparr>root := r\<rparr>\<rparr>"
  let ?w' = "put_cont this ?c (?w\<lparr>wheap := h'\<rparr>)"
  let ?s' = "s\<lparr>wld := ?w'\<rparr>"
  have u: "unprotected_set B this i y ?w = Some ?w'" using O m(1) by (simp add: unprotected_set_def)
  have wk: "ck_busy H ?s' = ck_busy H s" "ck_waiting H ?s' = ck_waiting H s"
    by (simp_all add: ck_busy_def ck_waiting_def)
  have all: "p \<in> ck_busy H s" if "ck_waiting H s = {..<H}" "p < H" for p
    using that by (auto simp: ck_waiting_def ck_busy_def)
  have H: "0 < H" using G by (simp add: chunks_strict_def)
  have quiet: "\<not> resolved c \<or> ck_waiting H s \<noteq> {..<H}"
    using L all [OF _ H] by (auto split: if_splits)
  have "vid (data c) < wnext ?w" using I by simp
  then have ib: "ids_below (wnext ?w) h'" using ids_below_keeps m(3) I by blast
  have "ck_objs tok H this dep ?s' ?c d t" using O by (simp add: ck_objs_def)
  moreover have "ck_ids H ?s' ?c d t" using I wk ib rdr by (simp add: ck_ids_def)
  moreover have "ck_shape nok B H n ?s' ?c d t" using G rdr by (simp add: ck_shape_def capacity_def calc_depth_def)
  moreover have "ck_vals kern fin B H n ?s' ?c d"
    using V m(5) wk all quiet unfolding ck_vals_def by (cases "ck_waiting H s = {..<H}") auto
  moreover have "ck_phase tk kern B H n ?s' d t"
    unfolding ck_phase_def
  proof (intro conjI allI impI)
    fix q sq a b assume r: "working ?s' q = Some (sq, a, b)"
    then have "sdata sq \<in> ck_readers H s t" by (auto simp: ck_workers_def ck_readers_def)
    moreover have "ck_waiting H s \<noteq> {..<H}" using ck_not_quiet(3) [OF ck_stateD(6) [OF R], of q] r by simp
    ultimately show "q < H" "partition H q n = (a, b)" "splinters d (vid (sdata sq)) \<noteq> None"
      "in_chunk H n q j \<Longrightarrow> vlist B (wheap (wld ?s')) (sdata sq) ! j = kern (seen ?s' q) j" for j
      using Ph r m(5) by auto
  next
    show "vlist B (wheap (wld ?s')) (used t ! q) = seen ?s' q" if "q < H" "q \<notin> ck_waiting H ?s'" for q
    proof -
      have "used t ! q \<in> ck_readers H s t" "ck_waiting H s \<noteq> {..<H}" using that wk by (auto simp: ck_readers_def)
      then show ?thesis using m(5) Ph that wk by simp
    qed
  qed (use Ph in auto)
  moreover have "ck_latch H this dep ?s' ?c d" using L wk by (simp add: ck_latch_def)
  ultimately have "ck_inv n ?s'" using m(2) unfolding ck_inv_def ck_state_def by blast
  moreover have "resns ?w' = resns ?w" by simp
  moreover have "ck_waiting H s \<noteq> {..<H} \<longrightarrow> cont_list B dep ?w' = cont_list B dep ?w"
    "cont_list B this ?w' = Some ((vlist B ?h (data c))[i := y])"
    using O m(4,5) by (simp_all add: cont_list_def)
  ultimately show ?thesis using u by blast
qed

lemma ck_resolution_ok:
  assumes R: "ck_state n s c d t T" and rs: "resns (wld s) \<noteq> []"
  shows "\<exists>w. resns (wld s) = [Resolve_monotonic this dep] \<and>
    run_resolution B H (Resolve_monotonic this dep) (wld s) = Some w \<and>
    ck_inv n (s\<lparr>wld := w\<lparr>resns := tl (resns w)\<rparr>, settled := vlist B (wheap (wld s)) (data c)\<rparr>) \<and>
    ck_busy H s = {} \<and> tl (resns w) = [] \<and> cont_list B this w = cont_list B this (wld s)"
proof -
  note D = ck_stateD [OF R]
  have O: "conts (wld s) this = Some c" "conts (wld s) dep = Some d" "this \<noteq> dep" "trackers c dep = Some t"
    "\<not> resolved c \<longrightarrow> tok t" "length (used t) = H" "\<not> abandoned c" "contended c = {}" "length (queues s) = H"
    using D(1) by (simp_all add: ck_objs_def)
  note Sh = D(2) [unfolded ck_share_def] and I = D(3) [unfolded ck_ids_def]
    and G = D(4) [unfolded ck_shape_def] and V = D(5) [unfolded ck_vals_def] and Ph = D(6) [unfolded ck_phase_def]
    and L = D(7) [unfolded ck_latch_def]
  let ?w = "wld s"
  let ?h = "wheap ?w"
  have nr: "\<not> resolved c" "ck_busy H s = {}" "resns ?w = [Resolve_monotonic this dep]"
    using L rs by (auto split: if_splits)
  have l0: "latches d dep = Some 0" using L nr(2) by simp
  have tokt: "tok t" using O(5) nr(1) by simp
  have st: "chunks_strict H n" "nok n" "sz (data c) = n" "sz (data d) = n" using G by simp_all
  have H: "0 < H" using st(1) by (simp add: chunks_strict_def)
  have q: "ck_waiting H s = {}" "ck_workers s = {}"
  proof -
    show "ck_waiting H s = {}" using nr(2) by (auto simp: ck_waiting_def ck_busy_def)
    have "working s p = None" for p
    proof (cases "working s p")
      case (Some j)
      then show ?thesis using ck_not_quiet(4) [OF D(6) Some] nr(2) by simp
    qed
    then show "ck_workers s = {}" by (simp add: ck_workers_def)
  qed
  have rd: "ck_readers H s t = set (used t)"
    using O q by (auto simp: ck_readers_def in_set_conv_nth)
  have ne: "{} \<noteq> {..<H}" using H by auto
  have S: "share_ok B T ?h {data c, data d} (set (used t))" "fenced (vid (data c)) ?h" "vid (data c) \<noteq> vid (data d)"
    using Sh q(1) ne rd by simp_all
  have us: "used_ok B H n ?h (used t) (seen s)"
    using H O G Ph q(1) rd by (auto simp: used_ok_def)
  obtain dv h T' acc ics where w: "resolve_monotonic B H this dep ?w = Some (?w\<lparr>wheap := h, conts := (conts ?w)
      (this \<mapsto> c\<lparr>trackers := (trackers c)(dep \<mapsto> t\<lparr>icontended := ics\<rparr>), resolved := True\<rparr>,
       dep \<mapsto> d\<lparr>data := dv, contended := acc\<rparr>)\<rparr>)"
    "settling B (data c) (used t) ?h (data d) T' h dv"
    "vlist B h dv = fin n (vlist B ?h (data c)) (seen s) (vlist B ?h (data d))"
    using fin_ok [of ?w c d t n T "seen s", OF O(1-3,7,8,4) _ l0 st S us] tokt by blast
  let ?c = "c\<lparr>trackers := (trackers c)(dep \<mapsto> t\<lparr>icontended := ics\<rparr>), resolved := True\<rparr>"
    and ?d = "d\<lparr>data := dv, contended := acc\<rparr>" and ?t = "t\<lparr>icontended := ics\<rparr>"
  let ?w' = "?w\<lparr>wheap := h, conts := (conts ?w)(this \<mapsto> ?c, dep \<mapsto> ?d)\<rparr>"
  let ?s' = "s\<lparr>wld := ?w'\<lparr>resns := tl (resns ?w')\<rparr>, settled := vlist B ?h (data c)\<rparr>"
  note Q = settlingD [OF w(2)]
  have wk: "ck_busy H ?s' = ck_busy H s" "ck_waiting H ?s' = ck_waiting H s" "ck_workers ?s' = ck_workers s"
    "ck_readers H ?s' ?t = set (used t)"
    using rd by (simp_all add: ck_workers_def ck_busy_def ck_waiting_def ck_readers_def)
  have list: "vlist B ?h (data d) = by_chunks H n kern (seen s)"
  proof (rule nth_equalityI)
    fix i assume "i < length (vlist B ?h (data d))"
    then have i: "i < n" using st(4) by simp
    then show "vlist B ?h (data d) ! i = by_chunks H n kern (seen s) ! i"
      using V nr(1,2) chunk_exists [OF H i] by (simp add: by_chunks_nth)
  qed (use st(4) in simp)
  have "vid (data d) < wnext ?w" "ids_below (wnext ?w) ?h" using I by simp_all
  then have ib: "ids_below (wnext ?w) h" using ids_below_keeps Q(4,5) by simp
  have "ck_objs tok H this dep ?s' ?c ?d ?t" using O by (simp add: ck_objs_def)
  moreover have "ck_share B H T' ?s' ?c ?d ?t" using Q(1-3) wk q ne by (simp add: ck_share_def)
  moreover have "ck_ids H ?s' ?c ?d ?t" using I wk ib Q(5) rd by (simp add: ck_ids_def)
  moreover have "ck_shape nok B H n ?s' ?c ?d ?t" using G wk Q(6,7) rd by (simp add: ck_shape_def)
  moreover have "ck_vals kern fin B H n ?s' ?c ?d" using w(3) list by (simp add: ck_vals_def)
  moreover have "ck_phase tk kern B H n ?s' ?d ?t"
    unfolding ck_phase_def
  proof (intro conjI allI impI)
    fix p sp a b assume "working ?s' p = Some (sp, a, b)"
    then have False using q(2) by (auto simp: ck_workers_def)
    then show "p < H" "partition H p n = (a, b)" "splinters ?d (vid (sdata sp)) \<noteq> None"
      "in_chunk H n p i \<Longrightarrow> vlist B (wheap (wld ?s')) (sdata sp) ! i = kern (seen ?s' p) i" for i by simp_all
  next
    show "vlist B (wheap (wld ?s')) (used ?t ! p) = seen ?s' p" if "p < H" for p
      using that O Ph q(1) Q(8) [of "used t ! p"] by simp
  qed (use Ph in auto)
  moreover have "ck_latch H this dep ?s' ?c ?d" using L wk nr O by (simp add: ck_latch_def)
  ultimately have "ck_inv n ?s'" unfolding ck_inv_def ck_state_def by blast
  moreover have "cont_list B this ?w' = cont_list B this ?w"
    using O Q(8) [of "data c"] by (simp add: cont_list_def)
  moreover have "tl (resns ?w') = []" using nr(3) by simp
  ultimately show ?thesis using nr(2,3) w(1) by (intro exI [of _ ?w']) simp
qed

end

end
