(* ===== verification/Chunk_Runs.thy ===== *)
theory Chunk_Runs imports
  Chunk_System
begin

text \<open>
  Runs of an operation that works in chunks: steps keep the invariant and use up the work, while
  something is left one of them can be made, and the dependent ends as \<open>kern\<close> and \<open>fin\<close> say.
\<close>

section \<open>Steps keep the invariant and use up the work\<close>

definition ck_left :: "nat \<Rightarrow> 'a ck_sys \<Rightarrow> nat" where
  "ck_left H s = card (ck_busy H s) + card (ck_waiting H s) + (if ck_busy H s \<noteq> {} \<or> resns (wld s) \<noteq> [] then 1 else 0)"

context chunk_work
begin

lemma ck_state_objs:
  assumes "ck_state n s c d t T"
  shows "conts (wld s) this = Some c" "conts (wld s) dep = Some d" "length (queues s) = H"
    "cont_list B this (wld s) = Some (vlist B (wheap (wld s)) (data c))"
    "cont_list B dep (wld s) = Some (vlist B (wheap (wld s)) (data d))"
    "p < H \<Longrightarrow> queues s ! p = [] \<or> queues s ! p = [tk p] \<and> working s p = None"
proof -
  note O = ck_stateD(1) [OF assms, unfolded ck_objs_def]
  show "conts (wld s) this = Some c" "conts (wld s) dep = Some d" "length (queues s) = H" using O by simp_all
  show "cont_list B this (wld s) = Some (vlist B (wheap (wld s)) (data c))"
    "cont_list B dep (wld s) = Some (vlist B (wheap (wld s)) (data d))" using O by (simp_all add: cont_list_def)
  show "p < H \<Longrightarrow> queues s ! p = [] \<or> queues s ! p = [tk p] \<and> working s p = None"
    using ck_stateD(6) [OF assms] by (simp add: ck_phase_def)
qed

lemma ck_splt_step_inv:
  assumes "ck_splt_step work tk B H this dep s s'" "ck_inv n s"
  shows "ck_inv n s'" "ck_left H s = Suc (ck_left H s')"
    "cont_list B this (wld s') = cont_list B this (wld s)"
    "ck_waiting H s' \<subseteq> ck_waiting H s" "ck_waiting H s' \<noteq> {..<H}" "settled s' = settled s" "ck_busy H s \<noteq> {}"
    "p < H \<Longrightarrow> p \<notin> ck_waiting H s' \<Longrightarrow>
      (if p \<in> ck_waiting H s then Some (seen s' p) = cont_list B this (wld s) else seen s' p = seen s p)"
proof -
  obtain c d t T where R: "ck_state n s c d t T"
    using assms(2) unfolding ck_inv_def by blast
  note O = ck_state_objs [OF R]
  consider (1) p ts j w ys where
      "s' = s\<lparr>wld := w, queues := (queues s)[p := ts], working := (working s)(p \<mapsto> j), seen := (seen s)(p := ys)\<rparr>"
      "p < H" "queues s ! p = tk p # ts" "working s p = None"
      "work p (wld s) = Some (j, w)" "cont_list B this (wld s) = Some ys"
    | (2) p sp a b w where "s' = s\<lparr>wld := w, working := (working s)(p := None)\<rparr>" "working s p = Some (sp, a, b)"
      "reattach B sp this dep p a b (wld s) = Some w"
    using assms(1) by (auto elim!: ck_splt_stepE)
  then have "ck_inv n s' \<and> ck_left H s = Suc (ck_left H s') \<and>
    cont_list B this (wld s') = cont_list B this (wld s) \<and>
    ck_waiting H s' \<subseteq> ck_waiting H s \<and> ck_waiting H s' \<noteq> {..<H} \<and> settled s' = settled s \<and> ck_busy H s \<noteq> {} \<and>
    (\<forall>p. p < H \<longrightarrow> p \<notin> ck_waiting H s' \<longrightarrow>
      (if p \<in> ck_waiting H s then Some (seen s' p) = cont_list B this (wld s) else seen s' p = seen s p))"
  proof cases
    case 1
    have ts: "ts = []" using O(6) [OF 1(2)] 1(3) by simp
    have ys: "ys = vlist B (wheap (wld s)) (data c)" using O(4) 1(6) by simp
    obtain j' w' where k: "work p (wld s) = Some (j', w')"
      "cont_list B this w' = cont_list B this (wld s)" "resns w' = resns (wld s)"
      "ck_inv n (s\<lparr>wld := w', queues := (queues s)[p := ts], working := (working s)(p \<mapsto> j'),
        seen := (seen s)(p := vlist B (wheap (wld s)) (data c))\<rparr>)"
      using ck_pick_ok [OF R 1(2,3)] by blast
    have "j' = j" "w' = w" using k(1) 1(5) by simp_all
    then have inv: "ck_inv n s'" "cont_list B this w = cont_list B this (wld s)" "resns w = resns (wld s)"
      using k(2-4) 1(1) ys by simp_all
    obtain sp a b where j: "j = (sp, a, b)" by (metis prod_cases3)
    have b: "ck_busy H s' = ck_busy H s" "ck_waiting H s' = ck_waiting H s - {p}" "p \<in> ck_waiting H s" "p \<in> ck_busy H s"
      using 1(2-4) ts O(3) unfolding 1(1) j by (auto simp: ck_busy_def ck_waiting_def nth_list_update)
    have "card (ck_waiting H s) = Suc (card (ck_waiting H s - {p}))" by (rule card.remove [OF finite_ck(2) b(3)])
    moreover have "ck_waiting H s' \<noteq> {..<H}" using b(2) 1(2) by auto
    moreover have "seen s' = (seen s)(p := ys)" "settled s' = settled s" using 1(1) by simp_all
    ultimately show ?thesis using inv b 1(1,6) by (auto simp: ck_left_def)
  next
    case 2
    note nq = ck_not_quiet [OF ck_stateD(6) [OF R] 2(2)]
    have inv: "ck_inv n s'" "resns w \<noteq> [] \<or> card (ck_busy H s) \<noteq> 1"
      "cont_list B this w = cont_list B this (wld s)"
      using ck_join_ok [OF R 2(2)] unfolding 2(1,3) by (metis option.inject)+
    have b: "ck_busy H s' = ck_busy H s - {p}" "ck_waiting H s' = ck_waiting H s"
      using nq(1,2) unfolding 2(1) by (auto simp: ck_busy_def ck_waiting_def)
    have "card (ck_busy H s) = Suc (card (ck_busy H s - {p}))" by (rule card.remove [OF finite_ck(1) nq(4)])
    moreover have "ck_busy H s' \<noteq> {} \<or> resns (wld s') \<noteq> []"
    proof (rule ccontr)
      assume "\<not> ?thesis"
      then have "ck_busy H s - {p} = {}" "resns w = []" using b(1) 2(1) by simp_all
      moreover from this have "ck_busy H s = {p}" using nq(4) by blast
      ultimately show False using inv(2) by simp
    qed
    moreover have "ck_busy H s \<noteq> {}" using nq(4) by auto
    ultimately show ?thesis using inv b nq(3) 2(1) by (simp add: ck_left_def)
  qed
  then show "ck_inv n s'" "ck_left H s = Suc (ck_left H s')"
    "cont_list B this (wld s') = cont_list B this (wld s)"
    "ck_waiting H s' \<subseteq> ck_waiting H s" "ck_waiting H s' \<noteq> {..<H}" "settled s' = settled s" "ck_busy H s \<noteq> {}"
    "p < H \<Longrightarrow> p \<notin> ck_waiting H s' \<Longrightarrow>
      (if p \<in> ck_waiting H s then Some (seen s' p) = cont_list B this (wld s) else seen s' p = seen s p)"
    by blast+
qed

lemma ck_user_step_inv:
  assumes "ck_user_step B this s s'" "ck_inv n s"
  shows "ck_inv n s'" "ck_left H s' = ck_left H s" "ck_waiting H s' = ck_waiting H s" "seen s' = seen s"
    "ck_waiting H s \<noteq> {..<H} \<Longrightarrow> cont_list B dep (wld s') = cont_list B dep (wld s)"
proof -
  obtain c d t T where R: "ck_state n s c d t T"
    using assms(2) unfolding ck_inv_def by blast
  obtain c' i y w where 1: "s' = s\<lparr>wld := w\<rparr>" "conts (wld s) this = Some c'" "i < sz (data c')"
    "unprotected_set B this i y (wld s) = Some w" using assms(1) by (auto elim!: ck_user_stepE)
  have "i < sz (data c)" using 1(2,3) ck_state_objs(1) [OF R] by simp
  from ck_user_ok [OF R this, of y] 1(1,4)
  have "ck_inv n s' \<and> ck_left H s' = ck_left H s \<and> ck_waiting H s' = ck_waiting H s \<and> seen s' = seen s \<and>
    (ck_waiting H s \<noteq> {..<H} \<longrightarrow> cont_list B dep (wld s') = cont_list B dep (wld s))"
    by (auto simp: ck_left_def ck_busy_def ck_waiting_def)
  then show "ck_inv n s'" "ck_left H s' = ck_left H s" "ck_waiting H s' = ck_waiting H s" "seen s' = seen s"
    "ck_waiting H s \<noteq> {..<H} \<Longrightarrow> cont_list B dep (wld s') = cont_list B dep (wld s)" by simp_all
qed

lemma ck_resolve_step_inv:
  assumes "ck_resolve_step B H this s s'" "ck_inv n s"
  shows "ck_inv n s'" "ck_left H s = Suc (ck_left H s')" "ck_left H s' = 0"
    "cont_list B this (wld s') = cont_list B this (wld s)" "ck_waiting H s' = ck_waiting H s" "seen s' = seen s"
    "cont_list B this (wld s) = Some (settled s')"
proof -
  obtain c d t T where R: "ck_state n s c d t T"
    using assms(2) unfolding ck_inv_def by blast
  obtain r rs w ys where 1: "s' = s\<lparr>wld := w\<lparr>resns := tl (resns w)\<rparr>, settled := ys\<rparr>" "resns (wld s) = r # rs"
    "run_resolution B H r (wld s) = Some w" "cont_list B this (wld s) = Some ys"
    using assms(1) by (auto elim!: ck_resolve_stepE)
  have ys: "ys = vlist B (wheap (wld s)) (data c)" using 1(4) ck_state_objs(4) [OF R] by simp
  have "resns (wld s) \<noteq> []" using 1(2) by simp
  from ck_resolution_ok [OF R this] obtain w' where
    w': "resns (wld s) = [Resolve_monotonic this dep]" "run_resolution B H (Resolve_monotonic this dep) (wld s) = Some w'"
    "ck_inv n (s\<lparr>wld := w'\<lparr>resns := tl (resns w')\<rparr>, settled := vlist B (wheap (wld s)) (data c)\<rparr>)"
    "ck_busy H s = {}" "tl (resns w') = []" "cont_list B this w' = cont_list B this (wld s)" by blast
  have w: "w = w'" using 1(2,3) w'(1,2) by simp
  have b: "ck_busy H s' = {}" "ck_waiting H s' = ck_waiting H s" "ck_waiting H s = {}"
    using w'(4) 1(1) by (auto simp: ck_busy_def ck_waiting_def)
  show "ck_left H s = Suc (ck_left H s')" "ck_left H s' = 0"
    using w'(1,4,5) b 1(1) w by (simp_all add: ck_left_def)
  have "cont_list B this (wld s') = cont_list B this w'" using 1(1) w by (simp add: cont_list_def)
  then show "cont_list B this (wld s') = cont_list B this (wld s)" using w'(6) by simp
  show "ck_inv n s'" "ck_waiting H s' = ck_waiting H s" "seen s' = seen s" "cont_list B this (wld s) = Some (settled s')"
    using w'(3) 1(1,4) w b ys by simp_all
qed

text \<open>While something is left, a worker or the resolution can go on.\<close>

lemma ck_not_stuck:
  assumes "ck_inv n s" "ck_left H s \<noteq> 0"
  shows "\<exists>s'. ck_splt_step work tk B H this dep s s' \<or> ck_resolve_step B H this s s'"
proof -
  obtain c d t T where R: "ck_state n s c d t T"
    using assms(1) unfolding ck_inv_def by blast
  note O = ck_state_objs [OF R]
  show ?thesis
  proof (cases "ck_busy H s = {}")
    case True
    then have "ck_waiting H s = {}" by (auto simp: ck_busy_def ck_waiting_def)
    then have rs: "resns (wld s) \<noteq> []" using assms(2) True by (auto simp: ck_left_def)
    obtain w where "resns (wld s) = [Resolve_monotonic this dep]"
      "run_resolution B H (Resolve_monotonic this dep) (wld s) = Some w"
      using ck_resolution_ok [OF R rs] by blast
    with ck_resolve_step.Runs_resolution [OF _ _ O(4)] show ?thesis by blast
  next
    case False
    then obtain p where p: "p < H" "queues s ! p \<noteq> [] \<or> working s p \<noteq> None" by (auto simp: ck_busy_def)
    show ?thesis
    proof (cases "queues s ! p = []")
      case False
      then have q: "queues s ! p = [tk p]" "working s p = None" using O(6) [OF p(1)] by auto
      obtain j w where "work p (wld s) = Some (j, w)"
        using ck_pick_ok [OF R p(1) q(1)] by blast
      from ck_splt_step.Pick_chunk [where work = work and tk = tk and ts = "[]", OF p(1) q this O(4)] show ?thesis by blast
    next
      case True
      then obtain sp a b where sp: "working s p = Some (sp, a, b)" using p(2) by (metis not_None_eq prod_cases3)
      obtain w where "reattach B sp this dep p a b (wld s) = Some w" using ck_join_ok [OF R sp] by blast
      with ck_splt_step.Join_chunk [OF sp] show ?thesis by blast
    qed
  qed
qed

section \<open>Runs\<close>

lemma ck_run_inv:
  assumes "ck_run work tk B H this dep uw s0 k s" "ck_inv n s0"
  shows "ck_inv n s \<and> k + ck_left H s = ck_left H s0"
  using assms
proof induction
  case (Ck_worker k s s')
  then show ?case using ck_splt_step_inv(1,2) [OF Ck_worker(2), of n] by simp
next
  case (Ck_resolve k s s')
  then show ?case using ck_resolve_step_inv(1,2) [OF Ck_resolve(2), of n] by simp
next
  case (Ck_user k s s')
  then show ?case using ck_user_step_inv(1,2) [OF Ck_user(3), of n] by simp
qed simp

text \<open>When the program writes nothing, every worker and the resolution find the same values.\<close>

lemma ck_run_alone:
  assumes "ck_run work tk B H this dep uw s0 k s" "\<not> uw" "ck_inv n s0" "cont_list B this (wld s0) = Some xs"
    and "ck_waiting H s0 = {..<H}" "ck_left H s0 \<noteq> 0"
  shows "cont_list B this (wld s) = Some xs \<and> (\<forall>p < H. p \<notin> ck_waiting H s \<longrightarrow> seen s p = xs) \<and>
    (ck_left H s = 0 \<longrightarrow> settled s = xs)"
  using assms
proof induction
  case (Ck_worker k s s')
  then have I: "ck_inv n s" using ck_run_inv by blast
  note i = ck_splt_step_inv [OF Ck_worker(2) I]
  have ih: "cont_list B this (wld s) = Some xs" "\<forall>p < H. p \<notin> ck_waiting H s \<longrightarrow> seen s p = xs"
    using Ck_worker by blast+
  then have "seen s' p = xs" if "p < H" "p \<notin> ck_waiting H s'" for p
    using i(8) [OF that] that(1) by (cases "p \<in> ck_waiting H s") auto
  moreover have "0 < card (ck_busy H s)" using i(7) by (simp add: card_gt_0_iff)
  then have "2 \<le> ck_left H s" using i(7) by (simp add: ck_left_def)
  then have "ck_left H s' \<noteq> 0" using i(2) by simp
  ultimately show ?case using i(3) ih(1) by simp
next
  case (Ck_resolve k s s')
  then have I: "ck_inv n s" using ck_run_inv by blast
  show ?case using ck_resolve_step_inv(4-7) [OF Ck_resolve(2) I] Ck_resolve by simp
qed auto

lemma ck_run_exists:
  assumes "ck_inv n s0" "k \<le> ck_left H s0"
  shows "\<exists>s. ck_run work tk B H this dep uw s0 k s"
  using assms(2)
proof (induction k)
  case 0
  show ?case using Ck_start by blast
next
  case (Suc k)
  then obtain s where r: "ck_run work tk B H this dep uw s0 k s" by auto
  note i = ck_run_inv [OF r assms(1)]
  have "ck_left H s \<noteq> 0" using i Suc.prems by simp
  then show ?case using ck_not_stuck [of n s] i Ck_worker [OF r] Ck_resolve [OF r] by blast
qed

text \<open>What the dependent holds when all chunks are joined, and at the end.\<close>

lemma ck_result:
  assumes "ck_inv n s" "ck_busy H s = {}"
  shows "cont_list B dep (wld s) = Some (if ck_left H s = 0
    then fin n (settled s) (seen s) (by_chunks H n kern (seen s)) else by_chunks H n kern (seen s))"
proof -
  obtain c d t T where R: "ck_state n s c d t T"
    using assms(1) unfolding ck_inv_def by blast
  note G = ck_stateD(4) [OF R, unfolded ck_shape_def] and V = ck_stateD(5) [OF R, unfolded ck_vals_def]
    and L = ck_stateD(7) [OF R, unfolded ck_latch_def]
  have H: "0 < H" using G by (simp add: chunks_strict_def)
  have w: "ck_waiting H s = {}" using assms(2) by (auto simp: ck_waiting_def ck_busy_def)
  have r: "resolved c \<longleftrightarrow> ck_left H s = 0" using L assms(2) w by (auto simp: ck_left_def split: if_splits)
  have "vlist B (wheap (wld s)) (data d) = by_chunks H n kern (seen s)" if "\<not> resolved c"
  proof (rule nth_equalityI)
    fix i assume "i < length (vlist B (wheap (wld s)) (data d))"
    then have i: "i < n" using G by simp
    then show "vlist B (wheap (wld s)) (data d) ! i = by_chunks H n kern (seen s) ! i"
      using V that assms(2) chunk_exists [OF H i] by (simp add: by_chunks_nth)
  qed (use G in simp)
  then show ?thesis using V r ck_state_objs(5) [OF R] by auto
qed

lemma ck_all_joined: "ck_left H s \<le> 1 \<Longrightarrow> ck_busy H s = {}"
proof (rule ccontr)
  assume "ck_left H s \<le> 1" "ck_busy H s \<noteq> {}"
  moreover from this(2) have "0 < card (ck_busy H s)" by (simp add: card_gt_0_iff)
  ultimately show False by (simp add: ck_left_def)
qed

end

end
