(* ===== verification/Chunk_Start.thy ===== *)
theory Chunk_Start imports
  Chunk_Runs
begin

text \<open>
  The start of an operation that works in chunks: the dependent is a copy of the vector, \<open>freeze\<close> makes
  the tracker and the latch, and every worker gets its task.
\<close>

text \<open>A vector with nothing else going on. It is not exactly full, and every worker gets something to do.\<close>

definition chunkable :: "nat \<Rightarrow> nat \<Rightarrow> caddr \<Rightarrow> 'a list \<Rightarrow> 'a ct_sys \<Rightarrow> bool" where
  "chunkable B H this xs s \<longleftrightarrow> (\<exists>c. conts (wld s) this = Some c \<and> \<not> abandoned c \<and> \<not> resolved c \<and>
      contended c = {} \<and> trackers c (wfresh (wld s)) = None \<and> vecs_ok B (wheap (wld s)) [data c] \<and>
      vlist B (wheap (wld s)) (data c) = xs \<and> vid (data c) < wnext (wld s) \<and>
      length xs < capacity B (data c) \<and> calc_depth B (data c) \<le> 255) \<and>
    conts (wld s) (wfresh (wld s)) = None \<and> resns (wld s) = [] \<and> queues s = replicate H [] \<and>
    chunks_strict H (length xs) \<and> ids_below (wnext (wld s)) (wheap (wld s)) \<and>
    unat (wnext (wld s)) + 3 * H + 3 < 2 ^ 32"

definition ck_sys_of :: "'a ct_sys \<Rightarrow> 'a ck_sys" where
  "ck_sys_of s = \<lparr>wld = wld s, queues = queues s, working = (\<lambda>_. None), seen = (\<lambda>_. []), settled = []\<rparr>"

text \<open>The world when the dependency has been frozen, with the tracker \<open>t\<close>.\<close>

definition begun :: "caddr \<Rightarrow> caddr \<Rightarrow> 'a cont \<Rightarrow> 'a cont \<Rightarrow> 'a tracker \<Rightarrow> 'a store \<Rightarrow> id32 \<Rightarrow> 'a world \<Rightarrow> 'a world" where
  "begun this dep c d t h n w = w\<lparr>wfresh := Suc dep, wheap := h, wnext := n,
    conts := (conts w)(this \<mapsto> c\<lparr>trackers := (trackers c)(dep \<mapsto> t)\<rparr>, dep \<mapsto> d)\<rparr>"

definition first_tracker :: "vec list \<Rightarrow> 'a ct_op \<Rightarrow> 'a tracker" where
  "first_tracker us op = \<lparr>used = us, ops = [op], imaps = [identity], icontended = [{}], frozen = []\<rparr>"

text \<open>What \<open>begun\<close> starts from.\<close>

definition beginning ::
    "nat \<Rightarrow> nat \<Rightarrow> caddr \<Rightarrow> caddr \<Rightarrow> 'a list \<Rightarrow> 'a ct_sys \<Rightarrow> 'a cont \<Rightarrow> 'a cont \<Rightarrow> 'a store \<Rightarrow> id32 \<Rightarrow> bool" where
  "beginning B H this dep xs s c d h n \<longleftrightarrow> this \<noteq> dep \<and> \<not> abandoned c \<and> \<not> resolved c \<and> contended c = {} \<and>
    vid (data c) \<noteq> vid (data d) \<and> (\<exists>T. share_ok B T h {data d} {data c}) \<and> vlist B h (data c) = xs \<and>
    ids_below n h \<and> vid (data c) < n \<and> vid (data d) < n \<and> unat n + 2 * H < 2 ^ 32 \<and>
    sz (data d) = length xs \<and> shift (data d) = shift (data c) \<and> length xs < capacity B (data c) \<and>
    calc_depth B (data c) \<le> 255 \<and> chunks_strict H (length xs) \<and> latches d dep = Some H \<and>
    resns (wld s) = [] \<and> queues s = replicate H []"

lemma begin_ok:
  assumes "chunkable B H this xs (s :: ('a::zero) ct_sys)"
  shows "\<exists>w1 us c d h n. cont_copy B this (wld s) = Some (wfresh (wld s), w1) \<and>
    freeze B H this (wfresh (wld s)) identity op False w1 =
      Some (begun this (wfresh (wld s)) c d (first_tracker us op) h n (wld s)) \<and>
    length us = H \<and> beginning B H this (wfresh (wld s)) xs s c d h n"
proof -
  let ?w = "wld s" and ?dep = "wfresh (wld s)"
  let ?h = "wheap ?w" and ?n = "wnext ?w"
  obtain c where c: "conts ?w this = Some c" "\<not> abandoned c" "\<not> resolved c" "contended c = {}"
    "trackers c ?dep = None" "vecs_ok B ?h [data c]" "vlist B ?h (data c) = xs" "vid (data c) < ?n"
    "length xs < capacity B (data c)" "calc_depth B (data c) \<le> 255"
    using assms by (auto simp: chunkable_def)
  have A: "conts ?w ?dep = None" "resns ?w = []" "queues s = replicate H []"
    "chunks_strict H (length xs)" "ids_below ?n ?h" "unat ?n + 3 * H + 3 < 2 ^ 32"
    using assms by (auto simp: chunkable_def)
  let ?v = "data c"
  have td: "this \<noteq> ?dep" using c(1) A(1) by auto
  have r0: "unat ?n + 2 < 2 ^ 32" using A(6) by linarith
  note id = two_ids [OF r0]
  have r1: "unat ?n + 1 < 2 ^ 32" using r0 by linarith
  have "unat (?n + 1) + 1 < 2 ^ 32" using id_room [OF r1] r0 by linarith
  then have i1: "?n + 1 \<noteq> - 1" using id_room by blast
  have b1: "ids_below (?n + 1) ?h" using A(5) id(1) unfolding ids_below_def by (meson order.strict_trans)
  obtain og h1 n2 where a1: "tr_new B ?h (?n + 1) = (og, h1, n2)" by (metis prod_cases3)
  note t1 = tr_new_undisturbed [OF c(6) b1 i1 a1]
  have n2: "n2 = ?n + 2" using t1(2) by simp
  have v1: "vecs_ok B h1 [?v]" using t1(1) by (simp add: undisturbed_def)
  obtain us h2 n3 where a2: "new_vecs B H h1 n2 = (us, h2, n3)" by (metis prod_cases3)
  have "unat n2 + H < 2 ^ 32" using A(6) id(3) n2 by simp
  note t2 = new_vecs_ok [OF v1 t1(3) this a2]
  have u: "undisturbed B ?h h2 [?v]" "ids_below n3 h2" "unat n3 = unat ?n + 2 + H" "length us = H"
    using undisturbed_trans t1(1) t2 id(3) n2 by auto
  let ?dv = "?v\<lparr>vid := ?n\<rparr>"
  let ?d = "(empty_cont ?dv og)\<lparr>latches := emplace ?dep H (\<lambda>_. None)\<rparr>"
  obtain w1 where run: "cont_copy B this ?w = Some (?dep, w1)"
    "freeze B H this ?dep identity op False w1 = Some (begun this ?dep c ?d (first_tracker us op) h2 n3 ?w)"
    using a1 a2 td c(1,5)
    by (simp add: cont_copy_def add_cont_def freeze_def emplace_tracker_def begun_def first_tracker_def
      find_tracker_def new_tracker_def put_tracker_def add_latch_def empty_cont_def new_id_def get_unique_id_def
      put_cont_def fun_upd_twist [of this "wfresh (wld s)"])
  obtain T0 where T0: "0 < B" "store_ok B T0 ?h" "vec_ok B T0 ?h ?v" using c(6) by (auto elim: vecs_okE)
  obtain T where T: "store_ok B T h2" "vec_ok B T h2 ?v"
    using u(1) by (auto simp: undisturbed_def elim: vecs_okE)
  have "unshared B tr_vector ?n ?h ?v" by (rule unshared_fresh [OF T0(1,3) fresh_below [OF A(5)]])
  then have un: "unshared B tr_vector ?n h2 ?v" using u(1) by (simp add: undisturbed_def)
  have ne: "vid ?v \<noteq> ?n" using c(8) by auto
  have list: "vlist B h2 ?v = xs" using u(1) c(7) by (simp add: undisturbed_def)
  then have "sz ?v = length xs" by auto
  moreover have "?n < n3" using u(3) by (simp add: word_less_nat_alt)
  moreover have "share_ok B T h2 {?dv} {?v}" using T0(1) T un ne by (simp add: share_ok_def)
  moreover have "latches ?d ?dep = Some H" by (simp add: emplace_def)
  ultimately have "beginning B H this ?dep xs s c ?d h2 n3"
    using td c(2-4,8-10) A(2-4,6) u(2,3) ne list unfolding beginning_def
    by (auto simp: empty_cont_def dest: order.strict_trans)
  with run u(4) show ?thesis by blast
qed

context chunk_work
begin

lemma ck_start_ok:
  assumes b: "beginning B H this dep xs s c d h n" and t: "tok t" "length (used t) = H" and ok: "nok (length xs)"
  shows "ck_inv (length xs) (ck_sys_of (exec_par tk (s\<lparr>wld := begun this dep c d t h n (wld s)\<rparr>)))"
    "ck_left H (ck_sys_of (exec_par tk (s\<lparr>wld := begun this dep c d t h n (wld s)\<rparr>))) = 2 * H + 1"
    "ck_waiting H (ck_sys_of (exec_par tk (s\<lparr>wld := begun this dep c d t h n (wld s)\<rparr>))) = {..<H}"
    "cont_list B this (begun this dep c d t h n (wld s)) = Some xs"
proof -
  note b' = b [unfolded beginning_def]
  let ?s' = "ck_sys_of (exec_par tk (s\<lparr>wld := begun this dep c d t h n (wld s)\<rparr>))"
  let ?c = "c\<lparr>trackers := (trackers c)(dep \<mapsto> t)\<rparr>"
  obtain T where T: "share_ok B T h {data d} {data c}" using b' by blast
  have H: "0 < H" using b' by (simp add: chunks_strict_def)
  have szc: "sz (data c) = length xs" using b' by auto
  have q: "queues ?s' = map (\<lambda>p. [tk p]) [0..<H]" "working ?s' = (\<lambda>_. None)"
    "wld ?s' = begun this dep c d t h n (wld s)"
    using b' by (simp_all add: ck_sys_of_def exec_par_def)
  have bw: "ck_busy H ?s' = {..<H}" "ck_waiting H ?s' = {..<H}" "ck_workers ?s' = {}"
    using q by (auto simp: ck_busy_def ck_waiting_def ck_workers_def)
  then have rd: "ck_readers H ?s' t = {}" by (auto simp: ck_readers_def)
  have w: "conts (wld ?s') this = Some ?c" "conts (wld ?s') dep = Some d" "wheap (wld ?s') = h" "wnext (wld ?s') = n"
    "resns (wld ?s') = []"
    unfolding q(3) using b' by (simp_all add: begun_def)
  have "ck_objs tok H this dep ?s' ?c d t" using w b' t q(1) by (simp add: ck_objs_def)
  moreover have "ck_share B H T ?s' ?c d t" using T b' bw w by (simp add: ck_share_def)
  moreover have "ck_ids H ?s' ?c d t" using b' bw rd w by (simp add: ck_ids_def)
  moreover have "ck_shape nok B H (length xs) ?s' ?c d t"
    using b' bw rd ok szc by (simp add: ck_shape_def)
  moreover have "ck_vals kern fin B H (length xs) ?s' ?c d" using bw b' by (simp add: ck_vals_def)
  moreover have "ck_phase tk kern B H (length xs) ?s' d t" using q bw by (simp add: ck_phase_def)
  moreover have "ck_latch H this dep ?s' ?c d"
    using bw b' H w by (simp add: ck_latch_def lessThan_empty_iff)
  ultimately show "ck_inv (length xs) ?s'" unfolding ck_inv_def ck_state_def by blast
  have "{..<H} \<noteq> {}" using H by auto
  then show "ck_left H ?s' = 2 * H + 1" "ck_waiting H ?s' = {..<H}" using bw by (simp_all add: ck_left_def)
  show "cont_list B this (begun this dep c d t h n (wld s)) = Some xs"
    using b' by (simp add: cont_list_def begun_def)
qed

text \<open>A run from such a start.\<close>

lemma ck_run_ok:
  assumes s: "ck_inv n s0" "ck_left H s0 = 2 * H + 1" "ck_waiting H s0 = {..<H}"
    and r: "ck_run work tk B H this dep uw s0 k s"
  shows "ck_inv n s" "k + ck_left H s = 2 * H + 1" "k \<le> 2 * H + 1"
    "k < 2 * H + 1 \<Longrightarrow> \<exists>s'. ck_splt_step work tk B H this dep s s' \<or> ck_resolve_step B H this s s'"
    "k = 2 * H \<Longrightarrow> cont_list B dep (wld s) = Some (by_chunks H n kern (seen s))"
    "k = 2 * H + 1 \<Longrightarrow> cont_list B dep (wld s) = Some (fin n (settled s) (seen s) (by_chunks H n kern (seen s)))"
    "\<not> uw \<Longrightarrow> cont_list B this (wld s0) = Some xs \<Longrightarrow> p < H \<Longrightarrow> 2 * H \<le> k \<Longrightarrow> seen s p = xs"
    "\<not> uw \<Longrightarrow> cont_list B this (wld s0) = Some xs \<Longrightarrow> k = 2 * H + 1 \<Longrightarrow> settled s = xs"
proof -
  show i: "ck_inv n s" and l: "k + ck_left H s = 2 * H + 1" using ck_run_inv [OF r s(1)] s(2) by simp_all
  show "k \<le> 2 * H + 1" using l by simp
  show "\<exists>s'. ck_splt_step work tk B H this dep s s' \<or> ck_resolve_step B H this s s'" if "k < 2 * H + 1"
    using ck_not_stuck [OF i] l that by simp
  have joined: "ck_busy H s = {}" if "2 * H \<le> k" using ck_all_joined [of s] l that by simp
  show "k = 2 * H \<Longrightarrow> cont_list B dep (wld s) = Some (by_chunks H n kern (seen s))"
    "k = 2 * H + 1 \<Longrightarrow> cont_list B dep (wld s) = Some (fin n (settled s) (seen s) (by_chunks H n kern (seen s)))"
    using ck_result [OF i joined] l by simp_all
  assume a: "\<not> uw" "cont_list B this (wld s0) = Some xs"
  have nz: "ck_left H s0 \<noteq> 0" using s(2) by simp
  note al = ck_run_alone [OF r a(1) s(1) a(2) s(3) nz]
  show "seen s p = xs" if "p < H" "2 * H \<le> k"
    using al that joined [OF that(2)] by (auto simp: ck_waiting_def ck_busy_def)
  show "k = 2 * H + 1 \<Longrightarrow> settled s = xs" using al l by simp
qed

text \<open>Isolation.\<close>

lemma ck_isolated:
  assumes i: "ck_inv n s"
  shows "ck_splt_step work tk B H this dep s s' \<Longrightarrow> cont_list B this (wld s') = cont_list B this (wld s)"
    "ck_user_step B this s s' \<Longrightarrow> p < H \<Longrightarrow> queues s ! p = [] \<Longrightarrow> cont_list B dep (wld s') = cont_list B dep (wld s)"
proof -
  show "ck_splt_step work tk B H this dep s s' \<Longrightarrow> cont_list B this (wld s') = cont_list B this (wld s)"
    using ck_splt_step_inv(3) i by blast
  assume u: "ck_user_step B this s s'" "p < H" "queues s ! p = []"
  then have "ck_waiting H s \<noteq> {..<H}" by (auto simp: ck_waiting_def)
  then show "cont_list B dep (wld s') = cont_list B dep (wld s)" using ck_user_step_inv(5) [OF u(1) i] by blast
qed

end

section \<open>A small start\<close>

text \<open>Up to three values for two workers, in one leaf of four.\<close>

definition small_leaf :: "id32 \<Rightarrow> int list \<Rightarrow> int store" where
  "small_leaf i xs = \<lparr>cells = [0 \<mapsto> \<lparr>u = U_leaves (xs @ replicate (4 - length xs) 0), nid = i\<rparr>], fresh = 1\<rparr>"

definition small_vec :: "id32 \<Rightarrow> int list \<Rightarrow> vec" where
  "small_vec i xs = \<lparr>sz = length xs, shift = 0, root = 0, vid = i\<rparr>"

definition small_sys :: "id32 \<Rightarrow> int list \<Rightarrow> int ct_sys" where
  "small_sys i xs = \<lparr>wld = \<lparr>wheap = small_leaf i xs, wnext = 5,
      conts = [0 \<mapsto> empty_cont (small_vec i xs) (small_vec i xs)], wfresh = 1, resns = []\<rparr>, queues = [[], []]\<rparr>"

lemma small_widths: "BP_WIDTH 2 = 4" "BP_MASK 2 = 3" "[[], []] = replicate 2 []"
  by (simp_all add: BP_MASK_def BP_WIDTH_eq numeral_2_eq_2)

lemma small_values:
  assumes "length xs < 4" "j < length xs"
  shows "vget 2 (small_leaf i xs) (small_vec l xs) j = Some (xs ! j)" "val 2 (small_leaf i xs) 0 0 j = Some (xs ! j)"
proof -
  have "j mod 4 = j" using assms by simp
  then show "vget 2 (small_leaf i xs) (small_vec l xs) j = Some (xs ! j)" "val 2 (small_leaf i xs) 0 0 j = Some (xs ! j)"
    using assms by (simp_all add: vget_def val_0 small_leaf_def small_vec_def load_leaf_def as_leaves_def and_BP_MASK
      BP_WIDTH_eq nth_opt_def nth_append)
qed

lemma small_chunkable:
  assumes "length xs < 4" "chunks_strict 2 (length xs)" "i < 5"
  shows "chunkable 2 2 0 xs (small_sys i xs)"
proof -
  let ?T = "[0 \<mapsto> (0, 0)] :: typing" and ?h = "small_leaf i xs" and ?v = "small_vec i xs"
  have l: "vlist 2 ?h ?v = xs"
    by (rule nth_equalityI) (use small_values(1) [OF assms(1)] in \<open>simp_all add: vlist_def small_vec_def\<close>)
  have st: "store_ok 2 ?T ?h"
    using assms(1) by (auto simp: store_ok_def small_leaf_def node_ok_def BP_WIDTH_eq)
  have "vec_ok 2 ?T ?h ?v"
    using small_values(2) [OF assms(1)] assms(1) by (auto simp: vec_ok_def small_vec_def BP_WIDTH_eq)
  with st have v: "vecs_ok 2 ?h [?v]" by (auto simp: vecs_ok_def bits_ok_def)
  have "ids_below 5 ?h" using assms(3) by (auto simp: ids_below_def small_leaf_def split: if_splits)
  then show ?thesis
    using v l assms
    by (simp add: chunkable_def small_sys_def empty_cont_def capacity_def calc_depth_def
        BP_WIDTH_eq small_vec_def small_widths(3))
qed

end
