(* ===== verification/Foreach_Correct.thy ===== *)
theory Foreach_Correct imports
  Chunk_Start
begin

text \<open>
  What the callers of \<open>foreach\<close> rely on: whatever the order of the workers' steps and of the program's
  own writes, no step fails, the work ends after \<open>2 * HWCONC + 1\<close> steps, and the dependent holds, chunk
  by chunk, the values the worker of the chunk found, multiplied. The index map is the identity, so
  the resolution finds nothing to settle.
\<close>

section \<open>A foreach works in chunks\<close>

definition foreach_tracker :: "'a tracker \<Rightarrow> bool" where
  "foreach_tracker t \<longleftrightarrow> imaps t = [identity] \<and> (\<exists>op. ops t = [op]) \<and> icontended t = [{}] \<and> frozen t = []"

interpretation scale: chunk_work B H this dep "\<lambda>p. foreach_work B H this dep p x" "\<lambda>p. Foreach_splt this dep p x"
    foreach_tracker "\<lambda>_. True" "\<lambda>xs i. xs ! i * x" "\<lambda>n ys ss ds. ds"
  for B H this dep and x :: "'a::times"
proof (unfold_locales, goal_cases)
  case (1 t us)
  show ?case by (simp add: foreach_tracker_def)
next
  case (2 t)
  then show ?case by (auto simp: foreach_tracker_def)
next
  case (3 w c d t p T a b)
  then obtain op where t: "imaps t = [identity]" "ops t = [op]" by (auto simp: foreach_tracker_def)
  have ab: "a \<le> b" "0 < sz (data c)" using 3(13,14) by simp_all
  from foreach_work_ok [OF 3(1-4) t 3(6-9,12) ab(1) 3(14) ab(2), of x] obtain r h' T' where
    "foreach_work B H this dep p x w =
      Some ((\<lparr>sdata = (data c)\<lparr>vid := wnext w + 1, root := r\<rparr>, sops = [op]\<rparr>, a, b), picked this dep p c d t h' w)"
    "wrote B T (wheap w) ((data c)\<lparr>vid := wnext w + 1\<rparr>) T' h' ((data c)\<lparr>vid := wnext w + 1, root := r\<rparr>)"
    "\<forall>i < sz (data c). vlist B h' ((data c)\<lparr>vid := wnext w + 1, root := r\<rparr>) ! i =
      (if a \<le> i \<and> i < b then vlist B (wheap w) (data c) ! i * x else vlist B (wheap w) (data c) ! i)" by blast
  then show ?case using t(2) 3(14) by (intro exI [of _ r] exI [of _ h'] exI [of _ T']) simp
next
  case (4 w c d t n T ss)
  then obtain op where t: "imaps t = [identity]" "ops t = [op]" "icontended t = [{}]" "frozen t = []"
    by (auto simp: foreach_tracker_def)
  have e: "(trackers c)(dep \<mapsto> t\<lparr>icontended := [{}]\<rparr>) = trackers c" using 4(6) t(3) by auto
  have d: "(conts w)(this \<mapsto> y, dep \<mapsto> d) = (conts w)(this \<mapsto> y)" for y using 4(2,3) by auto
  have "resolve_monotonic B H this dep w = Some (w\<lparr>wheap := wheap w, conts := (conts w)
      (this \<mapsto> c\<lparr>trackers := (trackers c)(dep \<mapsto> t\<lparr>icontended := [{}]\<rparr>), resolved := True\<rparr>,
       dep \<mapsto> d\<lparr>data := data d, contended := contended d\<rparr>)\<rparr>)"
    using resolve_identity_ok [OF 4(1-6) t(1,2,3,4) 4(8)] unfolding e by (simp add: put_cont_def d)
  moreover have "settling B (data c) (used t) (wheap w) (data d) T (wheap w) (data d)"
    using 4(13-15) by (simp add: settling_def)
  ultimately show ?case
    by (intro exI [of _ "data d"] exI [of _ "wheap w"] exI [of _ T] exI [of _ "contended d"] exI [of _ "[{}]"]) blast
qed

section \<open>Runs\<close>

lemma foreach_start:
  assumes "chunkable B H this xs (s :: ('a::{times,zero}) ct_sys)"
  shows "\<exists>dep s1. ct_foreach B H op x this s = Some (dep, s1) \<and>
    scale.ck_inv B H this dep x (length xs) (ck_sys_of s1) \<and> ck_left H (ck_sys_of s1) = 2 * H + 1 \<and>
    ck_waiting H (ck_sys_of s1) = {..<H} \<and> cont_list B this (wld (ck_sys_of s1)) = Some xs"
proof -
  let ?dep = "wfresh (wld s)"
  obtain w1 us c d h nx where b: "cont_copy B this (wld s) = Some (?dep, w1)"
    "freeze B H this ?dep identity op False w1 = Some (begun this ?dep c d (first_tracker us op) h nx (wld s))"
    "length us = H" "beginning B H this ?dep xs s c d h nx" using begin_ok [OF assms(1), of op] by blast
  let ?t = "first_tracker us op"
  have t: "foreach_tracker ?t" "length (used ?t) = H" using b(3) by (simp_all add: foreach_tracker_def first_tracker_def)
  have "ct_foreach B H op x this s =
      Some (?dep, exec_par (\<lambda>p. Foreach_splt this ?dep p x) (s\<lparr>wld := begun this ?dep c d ?t h nx (wld s)\<rparr>))"
    unfolding ct_foreach_def b(1) Option.bind.simps prod.case b(2) ..
  moreover note scale.ck_start_ok(1-3) [where x = x, OF b(4) t TrueI] scale.ck_start_ok(4) [OF b(4) t TrueI]
  ultimately show ?thesis by (auto simp: ck_sys_of_def exec_par_def)
qed

abbreviation foreach_step ::
    "('a::times) \<Rightarrow> nat \<Rightarrow> nat \<Rightarrow> caddr \<Rightarrow> caddr \<Rightarrow> 'a ck_sys \<Rightarrow> 'a ck_sys \<Rightarrow> bool" where
  "foreach_step x B H this dep \<equiv>
    ck_splt_step (\<lambda>p. foreach_work B H this dep p x) (\<lambda>p. Foreach_splt this dep p x) B H this dep"

abbreviation foreach_run ::
    "('a::times) \<Rightarrow> nat \<Rightarrow> nat \<Rightarrow> caddr \<Rightarrow> caddr \<Rightarrow> bool \<Rightarrow> 'a ck_sys \<Rightarrow> nat \<Rightarrow> 'a ck_sys \<Rightarrow> bool" where
  "foreach_run x B H this dep \<equiv>
    ck_run (\<lambda>p. foreach_work B H this dep p x) (\<lambda>p. Foreach_splt this dep p x) B H this dep"

lemma foreach_runs:
  assumes "chunkable B H this xs s" "ct_foreach B H op x this s = Some (dep, s1)"
    and "foreach_run x B H this dep uw (ck_sys_of s1) m s'"
  shows "scale.ck_inv B H this dep x (length xs) s'" "m \<le> 2 * H + 1"
    "m < 2 * H + 1 \<Longrightarrow> \<exists>s''. foreach_step x B H this dep s' s'' \<or> ck_resolve_step B H this s' s''"
    "2 * H \<le> m \<Longrightarrow> cont_list B dep (wld s') = Some (by_chunks H (length xs) (\<lambda>xs i. xs ! i * x) (seen s'))"
    "\<not> uw \<Longrightarrow> p < H \<Longrightarrow> 2 * H \<le> m \<Longrightarrow> seen s' p = xs"
proof -
  have st: "scale.ck_inv B H this dep x (length xs) (ck_sys_of s1)" "ck_left H (ck_sys_of s1) = 2 * H + 1"
    "ck_waiting H (ck_sys_of s1) = {..<H}" "cont_list B this (wld (ck_sys_of s1)) = Some xs"
    using foreach_start [OF assms(1), of op x] assms(2) by auto
  note r = scale.ck_run_ok [OF st(1-3) assms(3)]
  show "scale.ck_inv B H this dep x (length xs) s'" "m \<le> 2 * H + 1"
    "m < 2 * H + 1 \<Longrightarrow> \<exists>s''. foreach_step x B H this dep s' s'' \<or> ck_resolve_step B H this s' s''"
    "\<not> uw \<Longrightarrow> p < H \<Longrightarrow> 2 * H \<le> m \<Longrightarrow> seen s' p = xs"
    using r(1,3,4,7) st(4) by blast+
  assume m: "2 * H \<le> m"
  with r(3) consider "m = 2 * H" | "m = 2 * H + 1" by linarith
  then show "cont_list B dep (wld s') = Some (by_chunks H (length xs) (\<lambda>xs i. xs ! i * x) (seen s'))"
    using r(5,6) by cases simp_all
qed

text \<open>Two values in two chunks.\<close>

lemma two_chunkable:
  assumes "i < 5"
  shows "chunkable 2 2 0 [7, 8] (small_sys i [7, 8])"
  by (rule small_chunkable) (use assms in \<open>simp_all add: chunks_strict_def chunk_sz_eq\<close>)

lemma two_numbers: "[0..<length [7, 8 :: int]] = [0, 1]" "chunk_sz 2 (length [7, 8 :: int]) = 1"
  by (simp_all add: chunk_sz_eq upt_rec)

lemma four_le: "4 \<le> (5 :: nat)"
  by simp

lemma two_run:
  assumes "m \<le> 5"
  shows "\<exists>dep s1 s'. ct_foreach 2 2 ct_plus 3 0 (small_sys 0 [7, 8]) = Some (dep, s1) \<and>
    foreach_run 3 2 2 0 dep uw (ck_sys_of s1) m s'"
proof -
  have "(0 :: id32) < 5" by simp
  then obtain dep s1 where s: "ct_foreach 2 2 ct_plus 3 0 (small_sys 0 [7, 8]) = Some (dep, s1)"
    "scale.ck_inv 2 2 0 dep 3 (length [7, 8 :: int]) (ck_sys_of s1)" "ck_left 2 (ck_sys_of s1) = 2 * 2 + 1"
    using foreach_start [OF two_chunkable, of 0 ct_plus 3] by blast
  have "m \<le> ck_left 2 (ck_sys_of s1)" using s(3) assms by simp
  from scale.ck_run_exists [OF s(2) this, of uw] s(1) show ?thesis by blast
qed

section \<open>Properties\<close>

text \<open>C2. \<open>foreach\<close> under any interleaving: when the workers are done, the dependent holds at every
  index what the worker of the index's chunk found in the vector when it picked its task, multiplied
  by the value, whatever the program wrote before, in between and afterwards.\<close>

theorem foreach_result:
  assumes "chunkable B H this xs s" and "ct_foreach B H op x this s = Some (dep, s1)"
    and "foreach_run x B H this dep uw (ck_sys_of s1) m s'" and "2 * H \<le> m"
  shows "cont_list B dep (wld s') = Some (map (\<lambda>i. seen s' (i div chunk_sz H (length xs)) ! i * x) [0..<length xs])"
  using foreach_runs(4) [OF assms] by (simp add: by_chunks_def)

theorem foreach_result_witness:
  "\<exists>dep s1 s'. ct_foreach 2 2 ct_plus 3 0 (small_sys 0 [7, 8]) = Some (dep, s1) \<and>
     foreach_run 3 2 2 0 dep True (ck_sys_of s1) 4 s' \<and>
     cont_list 2 dep (wld s') = Some [seen s' 0 ! 0 * 3, seen s' 1 ! 1 * 3]"
proof -
  obtain dep s1 s' where s: "ct_foreach 2 2 ct_plus 3 0 (small_sys 0 [7, 8]) = Some (dep, s1)"
    "foreach_run 3 2 2 0 dep True (ck_sys_of s1) 4 s'" using two_run [OF four_le] by blast
  have "(0 :: id32) < 5" "2 * 2 \<le> (4 :: nat)" by simp_all
  from foreach_result [OF two_chunkable [OF this(1)] s this(2)]
  have "cont_list 2 dep (wld s') = Some [seen s' 0 ! 0 * 3, seen s' 1 ! 1 * 3]"
    unfolding two_numbers by simp
  with s show ?thesis by blast
qed

text \<open>C13. When the program writes nothing meanwhile, \<open>foreach\<close> is \<open>map\<close>: the dependent holds every
  value of the vector times the given one, whatever the operator of the dependency is.\<close>

theorem foreach_is_map:
  assumes "chunkable B H this xs s" and "ct_foreach B H op x this s = Some (dep, s1)"
    and "foreach_run x B H this dep False (ck_sys_of s1) m s'" and "2 * H \<le> m"
  shows "cont_list B dep (wld s') = Some (map (\<lambda>y. y * x) xs)"
proof -
  note r = foreach_runs [OF assms(1-3)]
  have H: "0 < H" using assms(1) by (auto simp: chunkable_def chunks_strict_def)
  have "by_chunks H (length xs) (\<lambda>xs i. xs ! i * x) (seen s') = map (\<lambda>y. y * x) xs"
    using r(5) assms(4) chunk_exists(1) [OF H] unfolding by_chunks_def by (intro nth_equalityI) simp_all
  with r(4) assms(4) show ?thesis by simp
qed

theorem foreach_is_map_witness:
  "\<exists>dep s1 s'. ct_foreach 2 2 ct_plus 3 0 (small_sys 0 [7, 8]) = Some (dep, s1) \<and>
     foreach_run 3 2 2 0 dep False (ck_sys_of s1) 4 s' \<and> cont_list 2 dep (wld s') = Some [21, 24]"
proof -
  obtain dep s1 s' where s: "ct_foreach 2 2 ct_plus 3 0 (small_sys 0 [7, 8]) = Some (dep, s1)"
    "foreach_run 3 2 2 0 dep False (ck_sys_of s1) 4 s'" using two_run [OF four_le] by blast
  have "(0 :: id32) < 5" "2 * 2 \<le> (4 :: nat)" by simp_all
  from foreach_is_map [OF two_chunkable [OF this(1)] s this(2)]
  have "cont_list 2 dep (wld s') = Some [21, 24]" by simp
  with s show ?thesis by blast
qed



text \<open>C15. Isolation of a \<open>foreach\<close>: in every run the workers' steps leave what the program's vector
  holds alone, and from the moment one worker has picked its task the program's writes leave the
  dependent alone, although the two still share the nodes neither has copied.\<close>

theorem foreach_isolation:
  assumes "chunkable B H this xs s" and "ct_foreach B H op x this s = Some (dep, s1)"
    and "foreach_run x B H this dep uw (ck_sys_of s1) m s'"
  shows "(foreach_step x B H this dep s' s'' \<longrightarrow> cont_list B this (wld s'') = cont_list B this (wld s')) \<and>
    (ck_user_step B this s' s'' \<and> (\<exists>p < H. queues s' ! p = []) \<longrightarrow>
      cont_list B dep (wld s'') = cont_list B dep (wld s'))"
  using scale.ck_isolated [OF foreach_runs(1) [OF assms]] by blast

theorem foreach_isolation_witness:
  "\<exists>dep s1 s''. ct_foreach 2 2 ct_plus 3 0 (small_sys 0 [7, 8]) = Some (dep, s1) \<and>
     foreach_step 3 2 2 0 dep (ck_sys_of s1) s'' \<and>
     cont_list 2 0 (wld s'') = cont_list 2 0 (wld (ck_sys_of s1))"
proof -
  have i: "(0 :: id32) < 5" by simp
  obtain dep s1 where f: "ct_foreach 2 2 ct_plus 3 0 (small_sys 0 [7, 8]) = Some (dep, s1)"
    "scale.ck_inv 2 2 0 dep 3 (length [7, 8 :: int]) (ck_sys_of s1)" "ck_left 2 (ck_sys_of s1) = 2 * 2 + 1"
    using foreach_start [OF two_chunkable [OF i], of ct_plus 3] by blast
  have "ck_left 2 (ck_sys_of s1) \<noteq> 0" using f(3) by simp
  from scale.ck_not_stuck [OF f(2) this] obtain s'' where
    "foreach_step 3 2 2 0 dep (ck_sys_of s1) s'' \<or> ck_resolve_step 2 2 0 (ck_sys_of s1) s''" by blast
  moreover have "\<not> ck_resolve_step 2 2 0 (ck_sys_of s1) s''"
    using scale.ck_resolve_step_inv(2,3) [OF _ f(2)] f(3) by fastforce
  ultimately have "foreach_step 3 2 2 0 dep (ck_sys_of s1) s''" by blast
  with foreach_isolation [OF two_chunkable [OF i] f(1) Ck_start] f(1) show ?thesis by blast
qed

text \<open>Before that moment a write shows in the dependent at once: the constructor copies the vector under
  a new id, but the program's vector keeps the id of the nodes the two share.\<close>

lemma early_write_shows:
  "\<exists>dep s1 w. ct_foreach 2 2 ct_plus 3 0 (small_sys 1 [7, 8]) = Some (dep, s1) \<and> cont_list 2 dep (wld s1) = Some [7, 8] \<and>
     unprotected_set 2 0 0 9 (wld s1) = Some w \<and> cont_list 2 dep w = Some [9, 8]"
proof -
  have nv: "new_vecs 2 2 h c = (let (v, h, c) = tr_new 2 h c; (w, h, c) = tr_new 2 h c in ([v, w], h, c))"
    for h :: "int store" and c by (simp add: numeral_2_eq_2 split_def Let_def)
  have num: "[0..<2] = [0, 1 :: nat]" "BP_WIDTH 2 = 4" "BP_MASK 2 = 3" by (simp_all add: upt_rec small_widths)
  have sys: "small_sys 1 [7, 8] = \<lparr>wld = \<lparr>wheap = \<lparr>cells = [0 \<mapsto> \<lparr>u = U_leaves [7, 8, 0, 0], nid = 1\<rparr>], fresh = 1\<rparr>,
      wnext = 5, conts = [0 \<mapsto> empty_cont \<lparr>sz = 2, shift = 0, root = 0, vid = 1\<rparr> \<lparr>sz = 2, shift = 0, root = 0, vid = 1\<rparr>],
      wfresh = 1, resns = []\<rparr>, queues = [[], []]\<rparr>"
    by (simp add: small_sys_def small_leaf_def small_vec_def numeral_2_eq_2)
  show ?thesis
    by (simp add: ct_foreach_def sys cont_copy_def add_cont_def freeze_def emplace_tracker_def find_tracker_def
      new_tracker_def put_tracker_def add_latch_def empty_cont_def new_id_def get_unique_id_def put_cont_def
      tr_new_def new_vec_def new_node_def alloc_def nv emplace_def load_leaf_def
      cont_list_def vlist_def vget_def exec_par_def unprotected_set_def tr_mut_set_def num
      as_leaves_def cow_root_def cow_walk.simps store_leaf_def nth_opt_def)
qed

end
