(* ===== verification/Cont_Stencil.thy ===== *)
theory Cont_Stencil imports
  Cont_Settle
begin

text \<open>
  A stencil with the offsets -1, 0 and 1 on the vectors: the loop of a worker, which reads around every
  position of its chunk, and the resolution, which adds for every chunk what its neighbours at the
  bounds have changed by since the worker saw them.
\<close>

section \<open>Reading around a position\<close>

lemma cur_at_add_from:
  assumes "0 < B" "vec_ok B T h v" "cur_at B h v it m" "m + n < sz v"
  shows "\<exists>it'. citer_add B h it n = Some it' \<and> cur_at B h v it' (m + n)"
proof -
  let ?w = "BP_WIDTH B"
  have m: "m < sz v" using assms(4) by simp
  have it: "it_root it = vec.root v" "it_shift it = shift v" "it_sz it = sz v"
    "walk B h (vec.root v) (shift v) m = Some (it_leaf it)" "it_off it = m mod ?w" "it_i it + it_off it = m"
    using assms(3) m by (auto simp: cur_at_def)
  have lt: "it_off it < ?w" using it(5) by simp
  consider "n = 0" | "0 < n" "n < ?w - it_off it" | "0 < n" "\<not> n < ?w - it_off it" by blast
  then show ?thesis
  proof cases
    case 1
    then show ?thesis using assms(3) by (simp add: citer_add_def)
  next
    case 2
    have d: "m + n = (it_off it + n) + ?w * (m div ?w)" using it(5) by simp
    have l: "it_off it + n < ?w" using 2(2) lt by simp
    have e: "(m + n) mod ?w = it_off it + n" "(m + n) div ?w = m div ?w"
      unfolding d using l by simp_all
    have "walk B h (vec.root v) (shift v) (m + n) = Some (it_leaf it)"
      using walk_same_leaf [OF assms(1,2) e(2)] it(4) by simp
    then show ?thesis using 2 e(1) it(1-3,6) assms(4) by (simp add: citer_add_def cur_at_def)
  next
    case 3
    have t: "add_target B it n = (m + n, 0)"
      using assms(4) it(3,6) lt by (simp add: add_target_def)
    obtain l where l: "walk B h (vec.root v) (shift v) (m + n) = Some l"
      using walk_leaf [OF assms(1,2,4)] by blast
    have "(m + n) mod ?w \<le> m + n" by simp
    then show ?thesis
      using 3 t l it(1-3) assms(4) by (simp add: citer_add_def cur_at_def and_BP_MASK)
  qed
qed

lemma source_add:
  assumes S: "source B own T0 h0 w" and M: "mut_state B own T0 h0 h r K N f"
    and "cur_at B h0 w it m" "m + n < sz w"
  shows "\<exists>it'. citer_add B h it n = Some it' \<and> it_deref h it' = Some (vlist B h0 w ! (m + n))"
proof -
  obtain T where T: "store_ok B T h" "vec_ok B T h w" "vlist B h w = vlist B h0 w"
    using source_later [OF S M] .
  note B = mut_stateD(1,2) [OF M]
  have it: "cur_at B h w it m" using assms(3) source_cur_at [OF S B(2)] by simp
  show ?thesis
    using cur_at_add_from [OF B(1) T(2) it assms(4)] cur_at_deref [OF B(1) T(2) _ assms(4)] T(3) by fastforce
qed

section \<open>The loop\<close>

definition added :: "nat \<Rightarrow> nat \<Rightarrow> (nat \<Rightarrow> 'a::plus) \<Rightarrow> (nat \<Rightarrow> 'a option) \<Rightarrow> nat \<Rightarrow> 'a option" where
  "added a b g f = (\<lambda>i. if a \<le> i \<and> i < b then map_option (\<lambda>y. y + g i) (f i) else f i)"

lemma added_step:
  assumes "a < b" "f a = Some y"
  shows "added (Suc a) b g (f(a := Some (y + g a))) = added a b g f"
  using assms by (auto simp: added_def fun_eq_iff)

definition stencil_term :: "'a::comm_ring_1 \<Rightarrow> 'a list \<Rightarrow> nat \<Rightarrow> 'a" where
  "stencil_term k ys i = k * (ys ! (i - 1) + - 2 * ys ! i + ys ! (i + 1))"

lemma stencil_value_ok:
  assumes S: "source B own T0 h0 w" and M: "mut_state B own T0 h0 h r K N f"
    and "cur_at B h0 w it (i - 1)" "0 < i" "i + 1 < sz w"
  shows "stencil_value B h k it = Some (stencil_term k (vlist B h0 w) i)"
proof -
  have i: "i - 1 < sz w" "i - 1 + 1 < sz w" "i - 1 + 2 < sz w" "i - 1 + 1 = i" "i - 1 + 2 = i + 1" using assms(4,5) by auto
  obtain t1 where "citer_add B h it 1 = Some t1" "it_deref h t1 = Some (vlist B h0 w ! i)"
    using source_add [OF S M assms(3) i(2)] unfolding i(4) by blast
  moreover obtain t2 where "citer_add B h it 2 = Some t2" "it_deref h t2 = Some (vlist B h0 w ! (i + 1))"
    using source_add [OF S M assms(3) i(3)] unfolding i(5) by blast
  ultimately show ?thesis
    using source_step(1) [OF S M assms(3) i(1)] unfolding stencil_value_def by (simp add: stencil_term_def)
qed

lemma stencil_loop_ok:
  assumes "writing B T h w K h1 r f" "source B (vid w) T h y"
    and "mpos B (vid w) h1 r K (sz w) it n" "mpos B (vid w) h1 r K (sz w) e b"
    and "cur_at B h y trck (n - 1)" "0 < n" "n \<le> b" "b < sz y"
  shows "\<exists>h2. stencil_loop B h1 k trck it e = Some h2 \<and>
    writing B T h w K h2 r (added n b (stencil_term k (vlist B h y)) f)"
  using assms
proof (induction "b - n" arbitrary: h1 it trck n f)
  case 0
  then have "n = b" by simp
  then have "it_eq it e" using mpos_unique 0(4,5) by blast
  moreover have "added n b (stencil_term k (vlist B h y)) f = f" using \<open>n = b\<close> by (auto simp: added_def fun_eq_iff)
  ultimately show ?case using 0(2) by (subst stencil_loop.simps) simp
next
  case (Suc j)
  let ?g = "stencil_term k (vlist B h y)"
  note W = Suc(3) and S = Suc(4)
  note M = writingD(2) [OF W]
  have lt: "n < b" "n < sz w" using Suc(2) mpos_le [OF Suc(6)] by auto
  have j: "j = b - Suc n" using Suc(2) by simp
  have ne: "\<not> it_eq it e" using mpos_neq [OF M Suc(5,6) lt(1)] .
  obtain z where z: "f n = Some z" using mut_stateD(4) [OF M lt(2)] by blast
  have d: "it_deref h1 it = Some z" using writing_deref [OF W Suc(5) lt(2)] z by simp
  have n1: "n + 1 < sz y" "n - 1 < sz y" using lt(1) Suc(10) by simp_all
  have v: "stencil_value B h1 k trck = Some (?g n)" by (rule stencil_value_ok [OF S M Suc(7,8) n1(1)])
  obtain h2 where a: "it_assign h1 it (z + ?g n) = Some h2" "writing B T h w K h2 r (f(n := Some (z + ?g n)))"
    "evolves (vid w) h1 h2" using writing_assign [OF W Suc(5) lt(2)] by blast
  note pos = mpos_evolves [OF a(3)]
  obtain it' h3 where i: "iter_inc B h2 it = Some (it', h3)" "writing B T h w K h3 r (f(n := Some (z + ?g n)))"
    "evolves (vid w) h2 h3" "mpos B (vid w) h3 r K (sz w) it' (Suc n)"
    using writing_inc [OF a(2) pos [OF Suc(5)] lt(2)] by blast
  obtain trck' where t: "citer_inc B h3 trck = Some trck'" "cur_at B h y trck' (Suc (n - 1))"
    using source_step(2) [OF S writingD(2) [OF i(2)] Suc(7) n1(2)] by blast
  have t': "cur_at B h y trck' (Suc n - 1)" using t(2) Suc(8) by simp
  obtain h4 where l: "stencil_loop B h3 k trck' it' e = Some h4"
    "writing B T h w K h4 r (added (Suc n) b ?g (f(n := Some (z + ?g n))))"
    using Suc(1) [OF j i(2) S i(4) mpos_evolves [OF i(3) pos [OF Suc(6)]] t' _ _ Suc(10)] lt(1) by auto
  have "stencil_loop B h1 k trck it e = Some h4"
    using ne d v a(1) i(1) t(1) l(1) by (subst stencil_loop.simps) simp
  with l(2) added_step [of n b f z ?g, OF lt(1) z] show ?case by auto
qed

lemma stencil_vecs:
  assumes B: "0 < B" "store_ok B T h" "vec_ok B T h w" and S: "source B (vid w) T h y" "sz y = sz w"
    and ab: "0 < a" "a \<le> b" "b < sz w"
  shows "\<exists>t0 trck it e r h1 h2 T'. cbegin B h y = Some t0 \<and> citer_add B h t0 (a - 1) = Some trck \<and>
    mut_range B h w a b = Some (it, e, w\<lparr>root := r\<rparr>, h1) \<and>
    stencil_loop B h1 k trck it e = Some h2 \<and> wrote B T h w T' h2 (w\<lparr>root := r\<rparr>) \<and>
    (\<forall>i < sz w. vlist B h2 (w\<lparr>root := r\<rparr>) ! i =
      (if a \<le> i \<and> i < b then vlist B h w ! i + stencil_term k (vlist B h y) i else vlist B h w ! i))"
proof -
  obtain K where W0: "writing B T h w K h (vec.root w) (\<lambda>i. val B h (vec.root w) K i)"
    "\<And>i. i < sz w \<Longrightarrow> val B h (vec.root w) K i = Some (vlist B h w ! i)"
    using writing_start [OF B] by blast
  let ?f = "\<lambda>i. val B h (vec.root w) K i"
  have n: "a \<le> sz w" "b \<le> sz w" "0 < sz w" using ab by simp_all
  have y: "vec_ok B T h y" "0 < sz y" "a - 1 \<le> sz y" "b < sz y" using S ab by (simp_all add: source_def)
  obtain t0 where t0: "cbegin B h y = Some t0" "cur_at B h y t0 0" using cur_at_begin [OF B(1) y(1,2)] by blast
  obtain trck where tr: "citer_add B h t0 (a - 1) = Some trck" "cur_at B h y trck (a - 1)"
    using cur_at_add [OF B(1) y(1) t0(2) y(3,2)] by blast
  obtain it e r h1 where m: "mut_range B h (w\<lparr>root := vec.root w\<rparr>) a b = Some (it, e, w\<lparr>root := r\<rparr>, h1)"
    "writing B T h w K h1 r ?f" "mpos B (vid w) h1 r K (sz w) it a" "mpos B (vid w) h1 r K (sz w) e b"
    using mut_range_ok [OF W0(1) n(3,1,2)] by blast
  obtain h2 where s: "stencil_loop B h1 k trck it e = Some h2"
    "writing B T h w K h2 r (added a b (stencil_term k (vlist B h y)) ?f)"
    using stencil_loop_ok [OF m(2) S(1) m(3,4) tr(2) ab(1,2) y(4)] by blast
  obtain T' where T': "wrote B T h w T' h2 (w\<lparr>root := r\<rparr>)"
    "\<And>i. i < sz w \<Longrightarrow> Some (vlist B h2 (w\<lparr>root := r\<rparr>) ! i) = added a b (stencil_term k (vlist B h y)) ?f i"
    using writing_wrote [OF s(2)] by blast
  have "vlist B h2 (w\<lparr>root := r\<rparr>) ! i =
      (if a \<le> i \<and> i < b then vlist B h w ! i + stencil_term k (vlist B h y) i else vlist B h w ! i)"
    if "i < sz w" for i using T'(2) [OF that] W0(2) [OF that] by (auto simp: added_def split: if_splits)
  with m(1) s(1) T'(1) t0(1) tr(1) show ?thesis by auto
qed

section \<open>The resolution of a stencil\<close>

lemma apply_diff_stencil: "apply_diff (stencil_op (k :: 'a::comm_ring_1)) new old z = z + k * (new - old)"
  by (simp add: apply_diff_def stencil_op_def minus_fp_def multplus_fp_def Let_def)

lemma finite_cells [simp]: "finite (left_cells H n)" "finite (right_cells H n)"
proof -
  have "left_cells H n \<subseteq> insert 0 ((\<lambda>p. chunk_sz H n * p - 1) ` {..<H})"
    "right_cells H n \<subseteq> insert (n - 1) ((\<lambda>p. chunk_sz H n * p) ` {..<H})"
    by (auto simp: left_cells_def right_cells_def)
  then show "finite (left_cells H n)" "finite (right_cells H n)" by (auto intro: finite_subset)
qed

lemma left_cells_ok: "chunks_strict H n \<Longrightarrow> 2 \<le> n \<Longrightarrow> cells_ok n (offset (- 1)) Suc (left_cells H n)"
  using strict_starts(1,3) by (fastforce simp: cells_ok_def offset_def left_cells_def)

lemma right_cells_ok: "chunks_strict H n \<Longrightarrow> 2 \<le> n \<Longrightarrow> cells_ok n (offset 1) (\<lambda>c. c - 1) (right_cells H n)"
  using strict_starts(1,3) by (fastforce simp: cells_ok_def offset_def right_cells_def)

lemma right_cells_pos: "chunks_strict H n \<Longrightarrow> 2 \<le> n \<Longrightarrow> c \<in> right_cells H n \<Longrightarrow> 0 < c"
  using strict_starts(3) by (fastforce simp: right_cells_def)

text \<open>What a resolution adds at index \<open>i\<close>: the changes of the neighbours that lie in other chunks.\<close>

definition from_left :: "'a::comm_ring_1 \<Rightarrow> nat \<Rightarrow> nat \<Rightarrow> 'a list \<Rightarrow> (nat \<Rightarrow> 'a list) \<Rightarrow> nat \<Rightarrow> 'a" where
  "from_left k H n ys ss i = (if 0 < i \<and> i - 1 \<in> left_cells H n
     then k * (ys ! (i - 1) - ss (chunk_at H n i) ! (i - 1)) else 0)"

definition from_right :: "'a::comm_ring_1 \<Rightarrow> nat \<Rightarrow> nat \<Rightarrow> 'a list \<Rightarrow> (nat \<Rightarrow> 'a list) \<Rightarrow> nat \<Rightarrow> 'a" where
  "from_right k H n ys ss i = (if i + 1 \<in> right_cells H n
     then k * (ys ! (i + 1) - ss (chunk_at H n i) ! (i + 1)) else 0)"

lemma settle_left:
  assumes "chunks_strict H n" "2 \<le> n" "length ds = n" "i < n"
  shows "settle (stencil_op k) Suc (chunk_at H n) ys ss (sorted_list_of_set (left_cells H n)) ds ! i =
    ds ! i + from_left k H n ys ss i"
proof (cases "0 < i \<and> i - 1 \<in> left_cells H n")
  case True
  then have "i - 1 \<in> set (sorted_list_of_set (left_cells H n))" "Suc (i - 1) = i" by simp_all
  from settle_cell [OF this(1), of Suc ds "stencil_op k" "chunk_at H n" ys ss] this(2) show ?thesis
    using assms(3,4) True by (simp add: apply_diff_stencil from_left_def)
next
  case False
  then have "i \<notin> Suc ` set (sorted_list_of_set (left_cells H n))" by auto
  then show ?thesis using False by (auto simp: settle_other from_left_def)
qed

lemma settle_right:
  assumes "chunks_strict H n" "2 \<le> n" "length ds = n" "i < n"
  shows "settle (stencil_op k) (\<lambda>c. c - 1) (chunk_at H n) ys ss (sorted_list_of_set (right_cells H n)) ds ! i =
    ds ! i + from_right k H n ys ss i"
proof (cases "i + 1 \<in> right_cells H n")
  case True
  have inj: "inj_on (\<lambda>c. c - 1) (set (sorted_list_of_set (right_cells H n)))"
    using right_cells_pos [OF assms(1,2)] by (auto simp: inj_on_def) (metis Suc_pred)
  have "i + 1 \<in> set (sorted_list_of_set (right_cells H n))" using True by simp
  from settle_cell [OF this _ inj, of ds "stencil_op k" "chunk_at H n" ys ss] show ?thesis
    using assms(3,4) True by (simp add: apply_diff_stencil from_right_def)
next
  case False
  have "c - 1 \<noteq> i" if "c \<in> right_cells H n" for c
    using right_cells_pos [OF assms(1,2) that] False that by (cases c) auto
  then have "i \<notin> (\<lambda>c. c - 1) ` set (sorted_list_of_set (right_cells H n))" by auto
  then show ?thesis using False by (auto simp: settle_other from_right_def)
qed

definition stencil_settled ::
    "'a::comm_ring_1 \<Rightarrow> 'a \<Rightarrow> nat \<Rightarrow> nat \<Rightarrow> 'a list \<Rightarrow> (nat \<Rightarrow> 'a list) \<Rightarrow> 'a list \<Rightarrow> 'a list" where
  "stencil_settled kl kr H n ys ss ds =
    map (\<lambda>i. ds ! i + from_left kl H n ys ss i + from_right kr H n ys ss i) [0..<n]"

definition stencil_tracker :: "'a::comm_ring_1 \<Rightarrow> 'a \<Rightarrow> 'a \<Rightarrow> 'a tracker \<Rightarrow> bool" where
  "stencil_tracker kl km kr t \<longleftrightarrow> imaps t = [identity, offset (- 1), offset 0, offset 1] \<and>
    (\<exists>op. ops t = [op, stencil_op kl, stencil_op km, stencil_op kr]) \<and>
    icontended t = [{}, {}, {}, {}] \<and> frozen t = []"

lemma resolve_stencil_ok:
  assumes c: "conts w this = Some c" "conts w dep = Some d" "this \<noteq> dep" "\<not> abandoned c" "contended c = {}"
    and t: "trackers c dep = Some t" "stencil_tracker kl km kr t" and l: "latches d dep = Some 0"
    and n: "chunks_strict H n" "2 \<le> n" "n < 2 ^ 63" "sz (data c) = n" "sz (data d) = n"
    and S: "share_ok B T (wheap w) {data c, data d} (set (used t))" "fenced (vid (data c)) (wheap w)"
      "vid (data c) \<noteq> vid (data d)" "used_ok B H n (wheap w) (used t) ss"
  shows "\<exists>dv h T' acc c'. resolve_monotonic B H this dep w = Some (w\<lparr>wheap := h, conts := (conts w)
      (this \<mapsto> c', dep \<mapsto> d\<lparr>data := dv, contended := acc\<rparr>)\<rparr>) \<and>
    (\<exists>ics. c' = c\<lparr>trackers := (trackers c)(dep \<mapsto> t\<lparr>icontended := ics\<rparr>), resolved := True\<rparr>) \<and>
    settling B (data c) (used t) (wheap w) (data d) T' h dv \<and>
    vlist B h dv = stencil_settled kl kr H n (vlist B (wheap w) (data c)) ss (vlist B (wheap w) (data d))"
proof -
  obtain op where op: "ops t = [op, stencil_op kl, stencil_op km, stencil_op kr]"
    and im: "imaps t = [identity, offset (- 1), offset 0, offset 1]" and ic: "icontended t = [{}, {}, {}, {}]"
    and fr: "frozen t = []" using t(2) by (auto simp: stencil_tracker_def)
  let ?h = "wheap w"
  let ?W = "settled_world this dep c d t w"
  note R = resolve_imap_ok [OF c(3,5) n(4,3)]
  have Q0: "settling B (data c) (used t) ?h (data d) T ?h (data d)" using S(1-3) by (simp add: settling_def)
  have nt: "nth_opt (ops t) 0 = Some op" "nth_opt (ops t) 1 = Some (stencil_op kl)"
    "nth_opt (ops t) 2 = Some (stencil_op km)" "nth_opt (ops t) 3 = Some (stencil_op kr)"
    "nth_opt (imaps t) 0 = Some identity" "nth_opt (imaps t) 1 = Some (offset (- 1))"
    "nth_opt (imaps t) 2 = Some (offset 0)" "nth_opt (imaps t) 3 = Some (offset 1)"
    unfolding op im by (simp_all add: nth_opt_def)
  have ct: "set (contended_cells H n identity) = int ` {}" "set (contended_cells H n (offset 0)) = int ` {}"
    using contended_none by simp_all
  have none: "finite {}" "cells_ok n imap id {}" for imap by (simp_all add: cells_ok_def)
  define ics0 :: "int set list" where "ics0 = [{}, {}, {}, {}]"
  have e0: "nth_opt ics0 0 = Some {}" by (simp add: ics0_def nth_opt_def)
  obtain dv1 h1 a1 T1 where r1: "resolve_imap B H this dep 0 (?W ics0 (data d) (contended d) ?h) =
      Some (?W (ics0[0 := int ` {}]) dv1 a1 h1)" "settling B (data c) (used t) ?h (data d) T1 h1 dv1" "sz dv1 = n"
    "vlist B h1 dv1 = vlist B ?h (data d)"
    using R [where w = w and d = d and acc = "contended d", OF nt(1,5) e0 ct(1) none Q0 n(5) S(4)] by auto
  define ics1 where "ics1 = ics0[0 := int ` {}]"
  have e1: "nth_opt ics1 1 = Some {}" by (simp add: ics1_def ics0_def nth_opt_def)
  obtain dv2 h2 a2 T2 where r2: "resolve_imap B H this dep 1 (?W ics1 dv1 a1 h1) =
      Some (?W (ics1[1 := int ` left_cells H n]) dv2 a2 h2)" "settling B (data c) (used t) ?h (data d) T2 h2 dv2" "sz dv2 = n"
    "vlist B h2 dv2 = settle (stencil_op kl) Suc (chunk_at H n) (vlist B ?h (data c)) ss
      (sorted_list_of_set (left_cells H n)) (vlist B h1 dv1)"
    using R [where w = w and d = d and acc = a1, OF nt(2,6) e1 contended_left [OF n(1)] finite_cells(1) left_cells_ok [OF n(1,2)] r1(2,3) S(4)] by blast
  define ics2 where "ics2 = ics1[1 := int ` left_cells H n]"
  have e2: "nth_opt ics2 2 = Some {}" by (simp add: ics2_def ics1_def ics0_def nth_opt_def)
  obtain dv3 h3 a3 T3 where r3: "resolve_imap B H this dep 2 (?W ics2 dv2 a2 h2) =
      Some (?W (ics2[2 := int ` {}]) dv3 a3 h3)" "settling B (data c) (used t) ?h (data d) T3 h3 dv3" "sz dv3 = n"
    "vlist B h3 dv3 = vlist B h2 dv2"
    using R [where w = w and d = d and acc = a2, OF nt(3,7) e2 ct(2) none r2(2,3) S(4)] by auto
  define ics3 where "ics3 = ics2[2 := int ` {}]"
  have e3: "nth_opt ics3 3 = Some {}" by (simp add: ics3_def ics2_def ics1_def ics0_def nth_opt_def)
  obtain dv4 h4 a4 T4 where r4: "resolve_imap B H this dep 3 (?W ics3 dv3 a3 h3) =
      Some (?W (ics3[3 := int ` right_cells H n]) dv4 a4 h4)" "settling B (data c) (used t) ?h (data d) T4 h4 dv4" "sz dv4 = n"
    "vlist B h4 dv4 = settle (stencil_op kr) (\<lambda>c. c - 1) (chunk_at H n) (vlist B ?h (data c)) ss
      (sorted_list_of_set (right_cells H n)) (vlist B h3 dv3)"
    using R [where w = w and d = d and acc = a3, OF nt(4,8) e3 contended_right [OF n(1)] finite_cells(2) right_cells_ok [OF n(1,2)] r3(2,3) S(4)] by blast
  define ics4 where "ics4 = ics3[3 := int ` right_cells H n]"
  have w0: "?W ics0 (data d) (contended d) ?h = w"
    using settled_world_start [OF c(1,2) t(1)] ic by (simp add: ics0_def)
  have "[0..<length (imaps t)] = [0, 1, 2, 3]" unfolding im by (simp add: upt_rec)
  then have "resolve_imaps B H this dep [0..<length (imaps t)] w = Some (?W ics4 dv4 a4 h4)"
    using r1(1) r2(1) r3(1) r4(1) unfolding w0 by (simp add: ics1_def ics2_def ics3_def ics4_def)
  moreover have "mark_resolved this (?W ics4 dv4 a4 h4) = Some (w\<lparr>wheap := h4, conts := (conts w)
      (this \<mapsto> c\<lparr>trackers := (trackers c)(dep \<mapsto> t\<lparr>icontended := ics4\<rparr>), resolved := True\<rparr>,
       dep \<mapsto> d\<lparr>data := dv4, contended := a4\<rparr>)\<rparr>)"
    using c(3,4) by (simp add: mark_resolved_def settled_world_def put_cont_def fun_upd_twist [of this dep])
  ultimately have "resolve_monotonic_onto B H this dep w = Some (w\<lparr>wheap := h4, conts := (conts w)
      (this \<mapsto> c\<lparr>trackers := (trackers c)(dep \<mapsto> t\<lparr>icontended := ics4\<rparr>), resolved := True\<rparr>,
       dep \<mapsto> d\<lparr>data := dv4, contended := a4\<rparr>)\<rparr>)"
    using c(1) t(1) by (simp add: resolve_monotonic_onto_def find_tracker_def)
  then have "resolve_monotonic B H this dep w = Some (w\<lparr>wheap := h4, conts := (conts w)
      (this \<mapsto> c\<lparr>trackers := (trackers c)(dep \<mapsto> t\<lparr>icontended := ics4\<rparr>), resolved := True\<rparr>,
       dep \<mapsto> d\<lparr>data := dv4, contended := a4\<rparr>)\<rparr>)"
    unfolding resolve_monotonic_def using c(1,2) t(1) fr l
    by (subst resolve_with.simps) (simp add: find_tracker_def, subst resolve_with.simps, simp add: find_tracker_def)
  moreover have "vlist B h4 dv4 ! i = vlist B ?h (data d) ! i + from_left kl H n (vlist B ?h (data c)) ss i +
      from_right kr H n (vlist B ?h (data c)) ss i" if "i < n" for i
    unfolding r4(4) r3(4) r2(4) r1(4) using n(5) that
    by (subst settle_right [OF n(1,2)], simp, simp) (simp add: settle_left [OF n(1,2)])
  then have "vlist B h4 dv4 = stencil_settled kl kr H n (vlist B ?h (data c)) ss (vlist B ?h (data d))"
    by (intro nth_equalityI) (simp_all add: stencil_settled_def r4(3))
  ultimately show ?thesis using r4(2) by blast
qed

end
