(* ===== verification/Stencil_Work.thy ===== *)
theory Stencil_Work imports
  Cont_Stencil
begin

text \<open>The whole work of one worker of a stencil up to \<open>reattach\<close>.\<close>

section \<open>The work of a stencil\<close>

text \<open>What a worker makes of the values \<open>xs\<close> it found: the ends are left alone.\<close>

definition stencil_at :: "'a::comm_ring_1 \<Rightarrow> 'a list \<Rightarrow> nat \<Rightarrow> 'a" where
  "stencil_at k xs i = (if 0 < i \<and> i + 1 < length xs then xs ! i + stencil_term k xs i else xs ! i)"

text \<open>The narrowest range a worker may iterate over.\<close>

lemma stencil_range:
  assumes "a < b" "b \<le> n" "2 \<le> n"
  shows "Max (set (map (\<lambda>imap. snd (safe_mapping imap (int a) 0 (int n))) [offset (- 1), offset 0, offset 1])) = int (max 1 a)"
    "Min (set (map (\<lambda>imap. snd (safe_mapping imap (int b) 0 (int n))) [offset (- 1), offset 0, offset 1])) = int (min b (n - 1))"
  using assms by (auto simp: safe_mapping_offset max_def min_def)

lemma stencil_work_ok:
  assumes c: "conts w this = Some c" "conts w dep = Some d" "this \<noteq> dep"
    and t: "trackers c dep = Some t" "stencil_tracker kl km kr t" "p < length (used t)"
    and B: "0 < B" and ok: "store_ok B T (wheap (w :: 'a::comm_ring_1 world))" "vec_ok B T (wheap w) (data c)"
    and id: "ids_below (wnext w) (wheap w)" "wnext w < wnext w + 1"
    and ab: "partition H p (sz (data c)) = (a, b)" "a < b" "b \<le> sz (data c)" "2 \<le> sz (data c)" "sz (data c) < 2 ^ 63"
  shows "\<exists>r h' T'. stencil_work B H 3 k this dep p w =
      Some ((\<lparr>sdata = (data c)\<lparr>vid := wnext w + 1, root := r\<rparr>, sops = ops t\<rparr>, a, b), picked this dep p c d t h' w) \<and>
    wrote B T (wheap w) ((data c)\<lparr>vid := wnext w + 1\<rparr>) T' h' ((data c)\<lparr>vid := wnext w + 1, root := r\<rparr>) \<and>
    (\<forall>i. a \<le> i \<and> i < b \<longrightarrow> vlist B h' ((data c)\<lparr>vid := wnext w + 1, root := r\<rparr>) ! i = stencil_at k (vlist B (wheap w) (data c)) i)"
proof -
  let ?v = "(data c)\<lparr>vid := wnext w + 1\<rparr>" and ?n = "sz (data c)" and ?h = "wheap w"
  let ?a = "max 1 a" and ?b = "min b (?n - 1)"
  have im: "imaps t = [identity, offset (- 1), offset 0, offset 1]" using t(2) by (simp add: stencil_tracker_def)
  have v: "vec_ok B T ?h ?v" using ok(2) by simp
  have "ids_below (wnext w + 1) ?h" using id unfolding ids_below_def by (meson order.strict_trans)
  then have S: "source B (vid ?v) T ?h (data c)"
    using unshared_fresh [OF B ok(2) fresh_below] B ok by (simp add: source_def)
  have r: "0 < ?a" "?a \<le> ?b" "?b < sz ?v" using ab(2-4) by auto
  have sv: "sz (data c) = sz ?v" by simp
  obtain t0 trck it e rt h1 h2 T' where m: "cbegin B ?h (data c) = Some t0" "citer_add B ?h t0 (?a - 1) = Some trck"
    "mut_range B ?h ?v ?a ?b = Some (it, e, ?v\<lparr>root := rt\<rparr>, h1)" "stencil_loop B h1 k trck it e = Some h2"
    "wrote B T ?h ?v T' h2 (?v\<lparr>root := rt\<rparr>)"
    "\<forall>i < sz ?v. vlist B h2 (?v\<lparr>root := rt\<rparr>) ! i =
      (if ?a \<le> i \<and> i < ?b then vlist B ?h ?v ! i + stencil_term k (vlist B ?h (data c)) i else vlist B ?h ?v ! i)"
    using stencil_vecs [OF B ok(1) v S sv r, of k] by blast
  have dt: "detach this dep p w = Some (\<lparr>sdata = ?v, sops = ops t\<rparr>,
      (put_cont dep (d\<lparr>splinters := emplace (wnext w + 1) False (splinters d)\<rparr>)
      (put_cont this (c\<lparr>data := (data c)\<lparr>vid := wnext w\<rparr>,
        trackers := (trackers c)(dep \<mapsto> t\<lparr>used := (used t)[p := data c]\<rparr>)\<rparr>) w))\<lparr>wnext := wnext w + 2\<rparr>)"
    using c t(1,3) im by (simp add: detach_def set_used_def splt_new_def new_id_def get_unique_id_def put_cont_def)
  have ix: "size_of_int64 (int ?a) = ?a" "size_of_int64 (int ?b) = ?b" "size_of_int64 (int ?a + - 1) = ?a - 1"
  proof -
    show "size_of_int64 (int ?a) = ?a" "size_of_int64 (int ?b) = ?b" using ab(2-5) by (intro int64_index; simp)+
    have "int ?a + - 1 = int (?a - 1)" by simp
    then show "size_of_int64 (int ?a + - 1) = ?a - 1" using ab(2-5) int64_index [of "?a - 1"] by simp
  qed
  have im3: "take 3 (drop 1 (imaps t)) = [offset (- 1), offset 0, offset 1]" "\<not> (3 = (0 :: nat) \<or> length (imaps t) \<le> 3)"
    unfolding im by simp_all
  have os: "int a - hd [offset (- 1), offset 0, offset 1] (int a) = - 1" by (simp add: offset_def)
  have ds: "data_size this w = Some ?n" and f: "find_tracker this dep w = Some t"
    using c(1) t(1) by (simp_all add: data_size_def find_tracker_def)
  note rg = stencil_range [OF ab(2,3,4)]
  have "stencil_work B H 3 k this dep p w =
      Some ((\<lparr>sdata = ?v\<lparr>root := rt\<rparr>, sops = ops t\<rparr>, a, b), picked this dep p c d t h2 w)"
    unfolding stencil_work_def ds Option.bind.simps ab(1) prod.case f im3(1) if_not_P [OF im3(2)] rg os dt
    using c t(1,3) m(1-4) unfolding ix by (simp add: find_tracker_def used_at_def put_cont_def nth_opt_in picked_def)
  moreover have "vlist B h2 (?v\<lparr>root := rt\<rparr>) ! i = stencil_at k (vlist B ?h (data c)) i" if "a \<le> i" "i < b" for i
    using m(6) that ab(3) by (auto simp: stencil_at_def)
  ultimately show ?thesis using m(5) by auto
qed

end
