(* ===== verification/Stencil_Correct.thy ===== *)
theory Stencil_Correct imports
  Stencil_Work Chunk_Start
begin

text \<open>
  What the callers of \<open>stencil\<close> rely on, for the offsets -1, 0 and 1 and at least two values: no
  interleaving of the workers, the program's writes and the resolution fails, the work ends, and what
  the dependent holds then.
\<close>

section \<open>A stencil works in chunks\<close>

interpretation stencil: chunk_work B H this dep "\<lambda>p. stencil_work B H 3 k this dep p" "\<lambda>p. Stencil_splt 3 k this dep p"
    "stencil_tracker kl km kr" "\<lambda>n. 2 \<le> n \<and> n < 2 ^ 63" "stencil_at k" "stencil_settled kl kr H"
  for B H this dep k kl km kr
proof (unfold_locales, goal_cases)
  case (1 t us)
  show ?case by (simp add: stencil_tracker_def)
next
  case (2 t)
  then show ?case by (auto simp: stencil_tracker_def)
next
  case (3 w c d t p T a b)
  then show ?case using stencil_work_ok [of w this c dep d t kl km kr p B T H a b k] by blast
next
  case (4 w c d t n T ss)
  then show ?case using resolve_stencil_ok [of w this c dep d t kl km kr H n B T ss] by blast
qed

section \<open>The start\<close>

lemma freeze_offset_begun:
  assumes "this \<noteq> dep" "latches d dep = Some m"
  shows "freeze_on B H this this dep imap op (begun this dep c d t h n w) =
    Some (begun this dep c d (t\<lparr>imaps := imaps t @ [imap], icontended := icontended t @ [{}], ops := ops t @ [op]\<rparr>) h n w)"
  using assms by (simp add: freeze_on_def begun_def emplace_tracker_def find_tracker_def put_tracker_def put_cont_def
    add_latch_def emplace_def fun_upd_idem fun_upd_twist [of this dep])

lemma stencil_start:
  assumes "chunkable B H this xs (s :: ('a::comm_ring_1) ct_sys)" and n: "2 \<le> length xs" "length xs < 2 ^ 63"
  shows "\<exists>dep s1. ct_stencil B H [- 1, 0, 1] [kl, km, kr] k op this s = Some (dep, s1) \<and>
    stencil.ck_inv B H this dep k kl km kr (length xs) (ck_sys_of s1) \<and> ck_left H (ck_sys_of s1) = 2 * H + 1 \<and>
    ck_waiting H (ck_sys_of s1) = {..<H} \<and> cont_list B this (wld (ck_sys_of s1)) = Some xs"
proof -
  let ?dep = "wfresh (wld s)"
  obtain w1 us c d h nx where b: "cont_copy B this (wld s) = Some (?dep, w1)"
    "freeze B H this ?dep identity op False w1 = Some (begun this ?dep c d (first_tracker us op) h nx (wld s))"
    "length us = H" "beginning B H this ?dep xs s c d h nx" using begin_ok [OF assms(1), of op] by blast
  let ?t = "\<lparr>used = us, ops = [op, stencil_op kl, stencil_op km, stencil_op kr],
    imaps = [identity, offset (- 1), offset 0, offset 1], icontended = [{}, {}, {}, {}], frozen = []\<rparr>"
  have l: "this \<noteq> ?dep" "latches d ?dep = Some H" using b(4) by (simp_all add: beginning_def)
  have f: "freeze_offsets B H this ?dep [- 1, 0, 1] [kl, km, kr] (begun this ?dep c d (first_tracker us op) h nx (wld s)) =
      Some (begun this ?dep c d ?t h nx (wld s))"
    by (simp add: freeze_offset_begun [OF l] first_tracker_def)
  have len3: "length [- 1, 0, 1 :: int] = 3" by simp
  have "ct_stencil B H [- 1, 0, 1] [kl, km, kr] k op this s =
      Some (?dep, exec_par (Stencil_splt 3 k this ?dep) (s\<lparr>wld := begun this ?dep c d ?t h nx (wld s)\<rparr>))"
    unfolding ct_stencil_def b(1) Option.bind.simps prod.case b(2) f len3 ..
  moreover have t: "stencil_tracker kl km kr ?t" "length (used ?t) = H" using b(3) by (simp_all add: stencil_tracker_def)
  moreover note stencil.ck_start_ok(1-3) [where k = k, OF b(4) t conjI [OF n]] stencil.ck_start_ok(4) [OF b(4) t conjI [OF n]]
  ultimately show ?thesis by (auto simp: ck_sys_of_def exec_par_def)
qed

text \<open>Runs of a stencil.\<close>

abbreviation stencil_step ::
    "'a::comm_ring_1 \<Rightarrow> nat \<Rightarrow> nat \<Rightarrow> caddr \<Rightarrow> caddr \<Rightarrow> 'a ck_sys \<Rightarrow> 'a ck_sys \<Rightarrow> bool" where
  "stencil_step k B H this dep \<equiv>
    ck_splt_step (\<lambda>p. stencil_work B H 3 k this dep p) (\<lambda>p. Stencil_splt 3 k this dep p) B H this dep"

abbreviation stencil_run ::
    "'a::comm_ring_1 \<Rightarrow> nat \<Rightarrow> nat \<Rightarrow> caddr \<Rightarrow> caddr \<Rightarrow> bool \<Rightarrow> 'a ck_sys \<Rightarrow> nat \<Rightarrow> 'a ck_sys \<Rightarrow> bool" where
  "stencil_run k B H this dep \<equiv>
    ck_run (\<lambda>p. stencil_work B H 3 k this dep p) (\<lambda>p. Stencil_splt 3 k this dep p) B H this dep"

lemma stencil_runs:
  assumes "chunkable B H this xs s" "2 \<le> length xs" "length xs < 2 ^ 63"
    and "ct_stencil B H [- 1, 0, 1] [kl, km, kr] k op this s = Some (dep, s1)"
    and "stencil_run k B H this dep uw (ck_sys_of s1) m s'"
  shows "stencil.ck_inv B H this dep k kl km kr (length xs) s'" "m \<le> 2 * H + 1"
    "m < 2 * H + 1 \<Longrightarrow> \<exists>s''. stencil_step k B H this dep s' s'' \<or> ck_resolve_step B H this s' s''"
    "m = 2 * H \<Longrightarrow> cont_list B dep (wld s') = Some (by_chunks H (length xs) (stencil_at k) (seen s'))"
    "m = 2 * H + 1 \<Longrightarrow> cont_list B dep (wld s') = Some (stencil_settled kl kr H (length xs) (settled s') (seen s')
      (by_chunks H (length xs) (stencil_at k) (seen s')))"
    "\<not> uw \<Longrightarrow> p < H \<Longrightarrow> 2 * H \<le> m \<Longrightarrow> seen s' p = xs" "\<not> uw \<Longrightarrow> m = 2 * H + 1 \<Longrightarrow> settled s' = xs"
proof -
  have st: "stencil.ck_inv B H this dep k kl km kr (length xs) (ck_sys_of s1)" "ck_left H (ck_sys_of s1) = 2 * H + 1"
    "ck_waiting H (ck_sys_of s1) = {..<H}" "cont_list B this (wld (ck_sys_of s1)) = Some xs"
    using stencil_start [OF assms(1-3), of kl km kr k op] assms(4) by auto
  note r = stencil.ck_run_ok [OF st(1-3) assms(5)]
  show "stencil.ck_inv B H this dep k kl km kr (length xs) s'" "m \<le> 2 * H + 1"
    "m < 2 * H + 1 \<Longrightarrow> \<exists>s''. stencil_step k B H this dep s' s'' \<or> ck_resolve_step B H this s' s''"
    "m = 2 * H \<Longrightarrow> cont_list B dep (wld s') = Some (by_chunks H (length xs) (stencil_at k) (seen s'))"
    "m = 2 * H + 1 \<Longrightarrow> cont_list B dep (wld s') = Some (stencil_settled kl kr H (length xs) (settled s') (seen s')
      (by_chunks H (length xs) (stencil_at k) (seen s')))"
    "\<not> uw \<Longrightarrow> p < H \<Longrightarrow> 2 * H \<le> m \<Longrightarrow> seen s' p = xs" "\<not> uw \<Longrightarrow> m = 2 * H + 1 \<Longrightarrow> settled s' = xs"
    using r st(4) by blast+
qed

text \<open>The values a stencil leaves: \<open>ss p\<close> is what worker \<open>p\<close> found, \<open>ys\<close> what the resolution found. Where a
  neighbour lies in another chunk, its change in between is added times the coefficient it was frozen
  with.\<close>

definition stencil_values ::
    "'a::comm_ring_1 \<Rightarrow> 'a \<Rightarrow> 'a \<Rightarrow> nat \<Rightarrow> nat \<Rightarrow> 'a list \<Rightarrow> (nat \<Rightarrow> 'a list) \<Rightarrow> 'a list" where
  "stencil_values k kl kr H n ys ss = map (\<lambda>i. stencil_at k (ss (chunk_at H n i)) i +
     from_left kl H n ys ss i + from_right kr H n ys ss i) [0..<n]"

lemma stencil_values_eq: "stencil_settled kl kr H n ys ss (by_chunks H n (stencil_at k) ss) = stencil_values k kl kr H n ys ss"
  by (simp add: stencil_settled_def stencil_values_def by_chunks_def)

lemma stencil_values_same:
  assumes "length xs = n" "\<forall>p < H. ss p = xs" "0 < H"
  shows "stencil_values k kl kr H n xs ss = map (stencil_at k xs) [0..<n]"
  using assms chunk_exists(1) [OF assms(3)] unfolding stencil_values_def
  by (intro nth_equalityI) (simp_all add: from_left_def from_right_def)

text \<open>With the coefficients \<open>(k, -2k, k)\<close> that the loop computes with, an inner index gets the stencil of its
  own value and its neighbours as the worker found them, except that a neighbour from another chunk,
  and the first and the last index, are as the resolution finds them.\<close>

lemma stencil_interior:
  assumes "0 < i" "i + 1 < n" "\<And>p. length (ss p) = n"
  shows "stencil_values k k k H n ys ss ! i = (let xs = ss (chunk_at H n i) in
    xs ! i + k * ((if i - 1 \<in> left_cells H n then ys else xs) ! (i - 1) + - 2 * xs ! i +
      (if i + 1 \<in> right_cells H n then ys else xs) ! (i + 1)))"
  using assms by (simp add: stencil_values_def stencil_at_def stencil_term_def from_left_def from_right_def
    Let_def algebra_simps)

text \<open>The workers leave the last index alone, but the resolution does not, when the last chunk has only
  that index.\<close>

lemma last_index_settled:
  assumes "2 \<le> n" "n - 1 = chunk_sz H n * (H - 1)" "2 \<le> H" "length (ss (chunk_at H n (n - 1))) = n"
  shows "stencil_values k kl kr H n ys ss ! (n - 1) =
    (let xs = ss (chunk_at H n (n - 1)) in xs ! (n - 1) + kl * (ys ! (n - 2) - xs ! (n - 2)))"
proof -
  have "n - 1 - 1 \<in> left_cells H n" using assms(2,3) unfolding left_cells_def by (auto intro!: exI [of _ "H - 1"])
  moreover have "n \<notin> right_cells H n"
  proof -
    have "chunk_sz H n * p < n" if "p < H" for p
    proof -
      have "chunk_sz H n * p \<le> chunk_sz H n * (H - 1)" using that by (intro mult_le_mono2) simp
      then show ?thesis using assms(1,2) by linarith
    qed
    then show ?thesis using assms(1) by (auto simp: right_cells_def) (metis less_irrefl)
  qed
  moreover have "n - 1 - 1 = n - 2" "n - 1 + 1 = n" "0 < n - 1" using assms(1) by simp_all
  ultimately show ?thesis
    using assms(1,4) by (simp add: stencil_values_def stencil_at_def from_left_def from_right_def Let_def)
qed

text \<open>Three values in two chunks.\<close>

lemma three_chunkable: "chunkable 2 2 0 [7, 8, 11] (small_sys 0 [7, 8, 11])"
  by (rule small_chunkable) (simp_all add: chunks_strict_def chunk_sz_eq)

lemma three_sizes: "length [7, 8, 11 :: int] = 3" "2 \<le> length [7, 8, 11 :: int]" "length [7, 8, 11 :: int] < 2 ^ 63"
  by simp_all

lemma three_run:
  assumes "m \<le> 5"
  shows "\<exists>dep s1 s'. ct_stencil 2 2 [- 1, 0, 1] [1, - 2, 1] 1 ct_plus 0 (small_sys 0 [7, 8, 11]) = Some (dep, s1) \<and>
    stencil_run 1 2 2 0 dep uw (ck_sys_of s1) m s'"
proof -
  obtain dep s1 where s: "ct_stencil 2 2 [- 1, 0, 1] [1, - 2, 1] 1 ct_plus 0 (small_sys 0 [7, 8, 11]) = Some (dep, s1)"
    "stencil.ck_inv 2 2 0 dep 1 1 (- 2) 1 (length [7, 8, 11 :: int]) (ck_sys_of s1)" "ck_left 2 (ck_sys_of s1) = 2 * 2 + 1"
    using stencil_start [OF three_chunkable three_sizes(2,3), of 1 "- 2" 1 1 ct_plus] by blast
  have "m \<le> ck_left 2 (ck_sys_of s1)" using s(3) assms by simp
  from stencil.ck_run_exists [OF s(2) this, of uw] s(1) show ?thesis by blast
qed

section \<open>Properties\<close>



text \<open>C16. When the program writes nothing meanwhile, \<open>stencil\<close> is the stencil of the vector, its two ends left
  alone, both before and after the resolution; the coefficients it is called with play no part.\<close>

theorem stencil_is_map:
  assumes "chunkable B H this xs s" and "2 \<le> length xs" and "length xs < 2 ^ 63"
    and "ct_stencil B H [- 1, 0, 1] [kl, km, kr] k op this s = Some (dep, s1)"
    and "stencil_run k B H this dep False (ck_sys_of s1) m s'" and "2 * H \<le> m"
  shows "cont_list B dep (wld s') = Some (map (stencil_at k xs) [0..<length xs])"
proof -
  note r = stencil_runs [OF assms(1-5)]
  have H: "0 < H" using assms(1) by (auto simp: chunkable_def chunks_strict_def)
  have ss: "\<forall>p < H. seen s' p = xs" using r(6) assms(6) by simp
  consider "m = 2 * H" | "m = 2 * H + 1" using r(2) assms(6) by linarith
  then show ?thesis
  proof cases
    case 1
    have "by_chunks H (length xs) (stencil_at k) (seen s') = map (stencil_at k xs) [0..<length xs]"
      using ss chunk_exists(1) [OF H] unfolding by_chunks_def by (intro nth_equalityI) simp_all
    then show ?thesis using r(4) [OF 1] by simp
  next
    case 2
    then show ?thesis using r(5,7) stencil_values_same [OF refl ss H] by (simp add: stencil_values_eq)
  qed
qed

theorem stencil_is_map_witness:
  "\<exists>dep s1 s'. ct_stencil 2 2 [- 1, 0, 1] [1, - 2, 1] 1 ct_plus 0 (small_sys 0 [7, 8, 11]) = Some (dep, s1) \<and>
     stencil_run 1 2 2 0 dep False (ck_sys_of s1) 5 s' \<and> cont_list 2 dep (wld s') = Some [7, 10, 11]"
proof -
  obtain dep s1 s' where s: "ct_stencil 2 2 [- 1, 0, 1] [1, - 2, 1] 1 ct_plus 0 (small_sys 0 [7, 8, 11]) = Some (dep, s1)"
    "stencil_run 1 2 2 0 dep False (ck_sys_of s1) 5 s'" using three_run [OF order_refl] by blast
  have "[0..<length [7, 8, 11 :: int]] = [0, 1, 2]" by (simp add: upt_rec)
  then have "cont_list 2 dep (wld s') = Some [7, 10, 11]"
    using stencil_is_map [OF three_chunkable three_sizes(2,3) s] by (simp add: stencil_at_def stencil_term_def)
  with s show ?thesis by blast
qed



end
