(* ===== verification/PC_Queue.thy ===== *)
theory PC_Queue imports Prelude begin

text \<open>
  The bounded single-producer single-consumer queue of
  src/include/folly/ProducerConsumerQueue.h, through which the thread pool hands closures to its
  workers.

  A queue is the record pcq: the members of the class, 32 bit indices included, with
  the malloced array as a list of slots, None for raw memory and Some v for a
  constructed object. An operation that would fail an assertion, touch memory outside of the array
  or use a slot that holds no object is an error of the result type; a failed allocation is the
  exception the constructors throw. pcq_rep is the abstraction relation to lists.
\<close>

subsection \<open>State and operations\<close>

datatype pcq_error = Assertion_failed | Bad_alloc | Bad_slot

record 'a pcq =
  pq_size :: id32
  pq_records :: "'a option list"
  pq_moved :: bool
  pq_read :: id32
  pq_write :: id32

type_synonym 'r pcq_result = "pcq_error + 'r"

definition pcq_new :: "id32 \<Rightarrow> bool \<Rightarrow> 'a pcq pcq_result" where
  "pcq_new n mem_ok = (if n < 2 then Inl Assertion_failed
     else if \<not> mem_ok then Inl Bad_alloc
     else Inr \<lparr>pq_size = n, pq_records = replicate (unat n) None, pq_moved = False,
               pq_read = 0, pq_write = 0\<rparr>)"

definition pcq_next :: "'a pcq \<Rightarrow> id32 \<Rightarrow> id32" where
  "pcq_next q i = (let n = i + 1 in if n = pq_size q then 0 else n)"

definition slot_construct :: "'a pcq \<Rightarrow> id32 \<Rightarrow> 'a \<Rightarrow> 'a pcq pcq_result" where
  "slot_construct q i v = (case nth_opt (pq_records q) (unat i) of
     Some None \<Rightarrow> Inr (q\<lparr>pq_records := (pq_records q)[unat i := Some v]\<rparr>) | _ \<Rightarrow> Inl Bad_slot)"

definition slot_get :: "'a pcq \<Rightarrow> id32 \<Rightarrow> 'a pcq_result" where
  "slot_get q i = (case nth_opt (pq_records q) (unat i) of
     Some (Some v) \<Rightarrow> Inr v | _ \<Rightarrow> Inl Bad_slot)"

definition slot_destroy :: "'a pcq \<Rightarrow> id32 \<Rightarrow> 'a pcq pcq_result" where
  "slot_destroy q i = (case nth_opt (pq_records q) (unat i) of
     Some (Some v) \<Rightarrow> Inr (q\<lparr>pq_records := (pq_records q)[unat i := None]\<rparr>) | _ \<Rightarrow> Inl Bad_slot)"

definition pcq_write :: "'a \<Rightarrow> 'a pcq \<Rightarrow> (bool \<times> 'a pcq) pcq_result" where
  "pcq_write v q = (let currentWrite = pq_write q; nextRecord = pcq_next q currentWrite in
     if nextRecord \<noteq> pq_read q then
       (case slot_construct q currentWrite v of
          Inl e \<Rightarrow> Inl e
        | Inr q \<Rightarrow> Inr (True, q\<lparr>pq_write := nextRecord\<rparr>))
     else Inr (False, q))"

definition pcq_read :: "'a pcq \<Rightarrow> ('a option \<times> 'a pcq) pcq_result" where
  "pcq_read q = (let currentRead = pq_read q in
     if currentRead = pq_write q then Inr (None, q)
     else let nextRecord = pcq_next q currentRead in
       (case slot_get q currentRead of
          Inl e \<Rightarrow> Inl e
        | Inr v \<Rightarrow> (case slot_destroy q currentRead of
            Inl e \<Rightarrow> Inl e
          | Inr q \<Rightarrow> Inr (Some v, q\<lparr>pq_read := nextRecord\<rparr>))))"

definition pcq_front :: "'a pcq \<Rightarrow> id32 option" where
  "pcq_front q = (let currentRead = pq_read q in
     if currentRead = pq_write q then None else Some currentRead)"

definition pcq_pop :: "'a pcq \<Rightarrow> 'a pcq pcq_result" where
  "pcq_pop q = (let currentRead = pq_read q in
     if currentRead = pq_write q then Inl Assertion_failed
     else let nextRecord = pcq_next q currentRead in
       (case slot_destroy q currentRead of
          Inl e \<Rightarrow> Inl e
        | Inr q \<Rightarrow> Inr (q\<lparr>pq_read := nextRecord\<rparr>)))"

definition pcq_is_empty :: "'a pcq \<Rightarrow> bool" where
  "pcq_is_empty q \<longleftrightarrow> pq_read q = pq_write q"

definition pcq_is_full :: "'a pcq \<Rightarrow> bool" where
  "pcq_is_full q = (let nextRecord = pcq_next q (pq_write q) in \<not> nextRecord \<noteq> pq_read q)"

text \<open>
  The difference of the unsigned indices is read as a signed integer; adding the unsigned size
  converts it back to 32 unsigned bits and stores them as a signed integer again, and the result
  is returned as an unsigned 64 bit integer.
\<close>

definition pcq_size_guess :: "'a pcq \<Rightarrow> 64 word" where
  "pcq_size_guess q = (let ret = pq_write q - pq_read q;
                          ret = (if sint ret < 0 then ret + pq_size q else ret) in scast ret)"

text \<open>
  The destructor: the loop runs the elements' destructors from the read to the write index, unless
  the element type has a trivial one, and the array is freed (None) unless it was moved.
\<close>

partial_function (option) destroy_range ::
    "id32 \<Rightarrow> id32 \<Rightarrow> 'a pcq \<Rightarrow> 'a pcq pcq_result option" where
  "destroy_range i e q = (if i = e then Some (Inr q)
     else (case slot_destroy q i of
         Inl err \<Rightarrow> Some (Inl err)
       | Inr q \<Rightarrow> destroy_range (pcq_next q i) e q))"

declare destroy_range.simps [code]

definition pcq_destroy :: "bool \<Rightarrow> 'a pcq \<Rightarrow> 'a option list option pcq_result option" where
  "pcq_destroy trivial q = Option.bind
     (if trivial then Some (Inr q) else destroy_range (pq_read q) (pq_write q) q)
     (\<lambda>r. case r of
        Inl e \<Rightarrow> Some (Inl e)
      | Inr q \<Rightarrow> Some (Inr (if \<not> pq_moved q then None else Some (pq_records q))))"

text \<open>
  The move constructor copies the pointer and the indices and marks the other queue: both objects
  then share one array. It returns the new queue and the marked one.
\<close>

definition pcq_move :: "'a pcq \<Rightarrow> 'a pcq \<times> 'a pcq" where
  "pcq_move other = (other\<lparr>pq_moved := False\<rparr>, other\<lparr>pq_moved := True\<rparr>)"

subsection \<open>Rings\<close>

definition ring_slot :: "nat \<Rightarrow> nat \<Rightarrow> nat \<Rightarrow> nat" where
  "ring_slot n r k = (r + k) mod n"

lemma ring_slot_lt [simp]: "0 < n \<Longrightarrow> ring_slot n r k < n"
  by (simp add: ring_slot_def)

lemma ring_slot_inj: 
  assumes "j < n" "k < n"
  shows "ring_slot n r j = ring_slot n r k \<longleftrightarrow> j = k"
proof -
  have "a = b" if "ring_slot n r a = ring_slot n r b" "a \<le> b" "b < n" for a b
  proof -
    have "n dvd (r + b) - (r + a)"
      using that mod_eq_dvd_iff_nat [of "r + a" "r + b" n] by (simp add: ring_slot_def)
    then have "n dvd b - a" by simp
    then show ?thesis using that nat_dvd_not_less [of "b - a" n] by force
  qed
  then show ?thesis using assms by (metis nle_le)
qed

lemma ring_slot_0 [simp]: "r < n \<Longrightarrow> ring_slot n r 0 = r"
  by (simp add: ring_slot_def)

lemma ring_slot_Suc: "ring_slot n (Suc r mod n) k = ring_slot n r (Suc k)"
  by (simp add: ring_slot_def mod_simps)

lemma ring_slot_wrap [simp]: "0 < k \<Longrightarrow> ring_slot k r k = r mod k"
  by (simp add: ring_slot_def)

subsection \<open>The abstraction relation\<close>

definition pcq_rep :: "'a pcq \<Rightarrow> 'a list \<Rightarrow> bool" where
  "pcq_rep q xs \<longleftrightarrow> (let n = unat (pq_size q); r = unat (pq_read q) in
     2 \<le> n \<and> length (pq_records q) = n \<and> r < n \<and> length xs < n
     \<and> unat (pq_write q) = ring_slot n r (length xs)
     \<and> (\<forall>k<n. pq_records q ! ring_slot n r k = nth_opt xs k))"

lemma pcq_repD:
  assumes "pcq_rep q xs"
  shows "2 \<le> unat (pq_size q)" "length (pq_records q) = unat (pq_size q)"
    "unat (pq_read q) < unat (pq_size q)" "length xs < unat (pq_size q)"
    "unat (pq_write q) = ring_slot (unat (pq_size q)) (unat (pq_read q)) (length xs)"
    "\<And>k. k < unat (pq_size q) \<Longrightarrow>
      pq_records q ! ring_slot (unat (pq_size q)) (unat (pq_read q)) k = nth_opt xs k"
  using assms by (auto simp: pcq_rep_def Let_def)

lemma pcq_next_unat:
  assumes "unat i < unat (pq_size q)"
  shows "unat (pcq_next q i) = Suc (unat i) mod unat (pq_size q)"
proof -
  have "unat (i + 1) = Suc (unat i)"
    using assms unsigned_less [of "pq_size q", where ?'a = nat] by (simp add: unat_plus_if')
  then show ?thesis
    using assms by (auto simp: pcq_next_def Let_def word_unat_eq_iff)
qed

lemma pcq_write_lt: "pcq_rep q xs \<Longrightarrow> unat (pq_write q) < unat (pq_size q)"
  using pcq_repD by (metis ring_slot_lt not_less0 gr0I)

lemma pcq_next_write:
  assumes "pcq_rep q xs"
  shows "pcq_next q (pq_write q) = pq_read q \<longleftrightarrow> Suc (length xs) = unat (pq_size q)"
proof -
  note r = pcq_repD [OF assms]
  have "unat (pcq_next q (pq_write q)) = ring_slot (unat (pq_size q)) (unat (pq_read q)) (Suc (length xs))"
    using pcq_next_unat [OF pcq_write_lt [OF assms]] r(5) by (simp add: ring_slot_def mod_simps)
  moreover have "ring_slot (unat (pq_size q)) (unat (pq_read q)) (Suc (length xs)) = unat (pq_read q)
      \<longleftrightarrow> Suc (length xs) = unat (pq_size q)"
  proof (cases "Suc (length xs) = unat (pq_size q)")
    case False
    then have "Suc (length xs) < unat (pq_size q)" using r(4) by simp
    then show ?thesis
      using ring_slot_inj [of "Suc (length xs)" "unat (pq_size q)" 0 "unat (pq_read q)"] r(3) False
      by simp
  qed (use r(1,3) ring_slot_wrap [of "unat (pq_size q)" "unat (pq_read q)"] in simp)
  ultimately show ?thesis by (simp add: word_unat_eq_iff)
qed

lemma pcq_read_write:
  assumes "pcq_rep q xs"
  shows "pq_read q = pq_write q \<longleftrightarrow> xs = []"
proof -
  note r = pcq_repD [OF assms]
  have "ring_slot (unat (pq_size q)) (unat (pq_read q)) (length xs) = unat (pq_read q) \<longleftrightarrow> length xs = 0"
    using ring_slot_inj [of "length xs" "unat (pq_size q)" 0 "unat (pq_read q)"] r(1,3,4) by simp
  then show ?thesis using r(5) by (auto simp: word_unat_eq_iff)
qed

lemmas pcq_index_rules = pcq_next_write pcq_read_write

text \<open>Queueing at the back and dequeuing at the front of the represented list.\<close>

lemma pcq_rep_enq:
  assumes "pcq_rep q xs" "Suc (length xs) < unat (pq_size q)"
  shows "pcq_rep (q\<lparr>pq_records := (pq_records q)[unat (pq_write q) := Some v],
                   pq_write := pcq_next q (pq_write q)\<rparr>) (xs @ [v])"
proof -
  note r = pcq_repD [OF assms(1)]
  let ?n = "unat (pq_size q)" and ?r = "unat (pq_read q)"
  have w: "unat (pcq_next q (pq_write q)) = ring_slot ?n ?r (Suc (length xs))"
    using pcq_next_unat [OF pcq_write_lt [OF assms(1)]] r(5) by (simp add: ring_slot_def mod_simps)
  have "(pq_records q)[unat (pq_write q) := Some v] ! ring_slot ?n ?r k = nth_opt (xs @ [v]) k"
    if "k < ?n" for k
    using that r ring_slot_inj [of "length xs" ?n k ?r]
    by (auto simp: nth_list_update nth_opt_def nth_append)
  then show ?thesis using assms(2) r w by (simp add: pcq_rep_def Let_def)
qed

lemma pcq_rep_deq:
  assumes "pcq_rep q (x # xs)"
  shows "pcq_rep (q\<lparr>pq_records := (pq_records q)[unat (pq_read q) := None],
                   pq_read := pcq_next q (pq_read q)\<rparr>) xs"
proof -
  note r = pcq_repD [OF assms]
  let ?n = "unat (pq_size q)" and ?r = "unat (pq_read q)"
  have r': "unat (pcq_next q (pq_read q)) = Suc ?r mod ?n"
    using pcq_next_unat r(3) by blast
  have "(pq_records q)[?r := None] ! ring_slot ?n (Suc ?r mod ?n) k = nth_opt xs k" if k: "k < ?n" for k
  proof (cases "Suc k = ?n")
    case True
    then have "ring_slot ?n ?r (Suc k) = ?r" using r(1,3) by simp
    then show ?thesis using True r by (simp add: ring_slot_Suc nth_opt_def)
  next
    case False
    then have "ring_slot ?n ?r (Suc k) \<noteq> ?r"
      using ring_slot_inj [of "Suc k" ?n 0 ?r] k r(3) by simp
    then show ?thesis using r(6) [of "Suc k"] k False by (simp add: ring_slot_Suc)
  qed
  then show ?thesis using r r' by (simp add: pcq_rep_def Let_def ring_slot_Suc)
qed

lemma pcq_rep_front:
  "pcq_rep q (x # xs) \<Longrightarrow> pq_records q ! unat (pq_read q) = Some x"
  using pcq_repD(6) [of q "x # xs" 0] pcq_repD(1,3) [of q "x # xs"] by simp

lemma slot_construct_back:
  assumes "pcq_rep q xs" "Suc (length xs) < unat (pq_size q)"
  shows "slot_construct q (pq_write q) v
    = Inr (q\<lparr>pq_records := (pq_records q)[unat (pq_write q) := Some v]\<rparr>)"
proof -
  have "nth_opt (pq_records q) (unat (pq_write q)) = Some None"
    using pcq_repD(2,5) [OF assms(1)] pcq_repD(6) [OF assms(1), of "length xs"] assms
      pcq_write_lt [OF assms(1)] by (simp add: nth_opt_def)
  then show ?thesis by (simp only: slot_construct_def option.case)
qed

lemma slot_get_front: "pcq_rep q (x # xs) \<Longrightarrow> slot_get q (pq_read q) = Inr x"
  using pcq_rep_front pcq_repD(2,3) by (fastforce simp: slot_get_def split: option.split)

lemma slot_destroy_front:
  "pcq_rep q (x # xs) \<Longrightarrow> slot_destroy q (pq_read q)
     = Inr (q\<lparr>pq_records := (pq_records q)[unat (pq_read q) := None]\<rparr>)"
  using pcq_rep_front pcq_repD(2,3) by (fastforce simp: slot_destroy_def split: option.split)

subsection \<open>Functional behaviour\<close>

definition cap :: "'a pcq \<Rightarrow> nat" where
  "cap q = unat (pq_size q) - 1"

lemma pcq_new_rep:
  assumes "2 \<le> n"
  shows "\<exists>q. pcq_new n True = Inr q \<and> pcq_rep q [] \<and> cap q = unat n - 1"
  using assms
  by (auto simp: pcq_new_def pcq_rep_def cap_def word_le_nat_alt word_less_nat_alt ring_slot_def nth_opt_def)

lemma pcq_write_full: "pcq_rep q xs \<Longrightarrow> length xs = cap q \<Longrightarrow> pcq_write v q = Inr (False, q)"
  using pcq_repD(1) [of q xs] by (simp add: pcq_write_def cap_def Let_def pcq_next_write)

lemma pcq_write_room:
  assumes "pcq_rep q xs" "length xs < cap q"
  shows "\<exists>q'. pcq_write v q = Inr (True, q') \<and> pcq_rep q' (xs @ [v]) \<and> pq_size q' = pq_size q"
  using assms pcq_rep_enq [of q xs v]
  by (simp add: pcq_write_def cap_def Let_def pcq_next_write slot_construct_back)

lemma pcq_read_empty: "pcq_rep q [] \<Longrightarrow> pcq_read q = Inr (None, q)"
  using pcq_read_write [of q "[]"] by (simp add: pcq_read_def)

lemma pcq_read_Cons:
  assumes "pcq_rep q (x # xs)"
  shows "\<exists>q'. pcq_read q = Inr (Some x, q') \<and> pcq_rep q' xs \<and> pq_size q' = pq_size q"
  using assms pcq_rep_deq [OF assms]
  by (simp add: pcq_read_def Let_def pcq_read_write slot_get_front slot_destroy_front)

lemma pcq_front_rep:
  assumes "pcq_rep q xs"
  shows "(pcq_front q = None) = (xs = [])"
    "pcq_front q = Some i \<Longrightarrow> slot_get q i = Inr (hd xs)"
  using assms pcq_read_write [OF assms] slot_get_front [of q "hd xs" "tl xs"]
  by (auto simp: pcq_front_def Let_def split: if_splits)

lemma pcq_pop_empty: "pcq_rep q [] \<Longrightarrow> pcq_pop q = Inl Assertion_failed"
  using pcq_read_write [of q "[]"] by (simp add: pcq_pop_def)

lemma pcq_pop_Cons:
  assumes "pcq_rep q (x # xs)"
  shows "\<exists>q'. pcq_pop q = Inr q' \<and> pcq_rep q' xs \<and> pq_size q' = pq_size q"
  using assms pcq_rep_deq [OF assms]
  by (simp add: pcq_pop_def Let_def pcq_read_write slot_destroy_front)

lemma pcq_is_empty_rep: "pcq_rep q xs \<Longrightarrow> pcq_is_empty q \<longleftrightarrow> xs = []"
  by (simp add: pcq_is_empty_def pcq_read_write)

lemma pcq_is_full_rep: "pcq_rep q xs \<Longrightarrow> pcq_is_full q \<longleftrightarrow> length xs = cap q"
  using pcq_repD(1) [of q xs] by (auto simp: pcq_is_full_def pcq_next_write cap_def)

lemma sint_id32: "sint (x :: id32) = (if unat x < 2 ^ 31 then int (unat x) else int (unat x) - 2 ^ 32)"
proof -
  have b: "uint x < 2 ^ 32" using unsigned_less [of x, where ?'a = int] by simp
  have "sint x = (uint x + 2 ^ 31) mod 2 ^ 32 - 2 ^ 31"
    by (simp add: sint_uint signed_take_bit_eq_take_bit_shift take_bit_eq_mod)
  moreover have "(uint x + 2 ^ 31) mod 2 ^ 32 = (if uint x < 2 ^ 31 then uint x + 2 ^ 31 else uint x - 2 ^ 31)"
  proof (cases "uint x < 2 ^ 31")
    case False
    then have "(uint x - 2 ^ 31) mod 2 ^ 32 = uint x - 2 ^ 31"
      using b by (intro mod_pos_pos_trivial) auto
    moreover have "uint x + 2 ^ 31 = uint x - 2 ^ 31 + 2 ^ 32" by simp
    ultimately show ?thesis using False by (metis mod_add_self2)
  qed simp
  moreover have "uint x = int (unat x)" by simp
  ultimately show ?thesis by (simp del: of_nat_unat)
qed

lemma pcq_size_guess_rep:
  assumes "pcq_rep q xs" "unat (pq_size q) \<le> 2 ^ 31"
  shows "unat (pcq_size_guess q) = length xs"
proof -
  note r = pcq_repD [OF assms(1)]
  let ?n = "unat (pq_size q)" and ?r = "unat (pq_read q)" and ?w = "unat (pq_write q)"
  have w: "?w = (if ?r + length xs < ?n then ?r + length xs else ?r + length xs - ?n)"
    using r(3-5) by (auto simp: ring_slot_def mod_if)
  have small: "unat (scast x :: 64 word) = unat x" if "unat x < 2 ^ 31" for x :: id32
    using that by (simp add: scast_eq sint_id32 unsigned_ucast_eq take_bit_nat_eq_self)
  show ?thesis
  proof (cases "?r \<le> ?w")
    case True
    then have d: "unat (pq_write q - pq_read q) = length xs"
      using w r by (auto simp: unat_sub_if' split: if_splits)
    then have "\<not> sint (pq_write q - pq_read q) < 0"
      using r(4) assms(2) unsigned_less [of "pq_write q - pq_read q", where ?'a = int]
      by (simp add: sint_id32)
    then show ?thesis using d small r(4) assms(2) by (simp add: pcq_size_guess_def Let_def)
  next
    case False
    then have d: "unat (pq_write q - pq_read q) + ?n = 2 ^ 32 + length xs"
      using w r(3,4) assms(2) by (auto simp: unat_sub_if' split: if_splits)
    then have "sint (pq_write q - pq_read q) < 0"
      using r(4) assms(2) unsigned_less [of "pq_write q - pq_read q", where ?'a = int]
      by (simp add: sint_id32)
    moreover have "unat (pq_write q - pq_read q + pq_size q) = length xs"
      using d r(4) assms(2) by (auto simp: unat_plus_if')
    ultimately show ?thesis using small r(4) assms(2) by (simp add: pcq_size_guess_def Let_def)
  qed
qed

text \<open>
  The destructor's loop runs over the represented list and leaves no object behind; it ends since
  every turn destroys one of them.
\<close>

lemma destroy_range_rep:
  assumes "pcq_rep (q\<lparr>pq_read := i\<rparr>) xs"
  shows "\<exists>rs. destroy_range i (pq_write q) q = Some (Inr (q\<lparr>pq_records := rs\<rparr>))
    \<and> rs = replicate (unat (pq_size q)) None"
  using assms
proof (induction xs arbitrary: q i)
  case Nil
  then have i: "i = pq_write q" using pcq_read_write [OF Nil] by simp
  note r = pcq_repD [OF Nil, simplified]
  have "pq_records q ! j = None" if "j < unat (pq_size q)" for j
  proof -
    let ?n = "unat (pq_size q)"
    have "\<exists>k<?n. ring_slot ?n (unat i) k = j"
    proof (cases "unat i \<le> j")
      case True
      then show ?thesis using that by (intro exI [of _ "j - unat i"]) (simp add: ring_slot_def)
    next
      case False
      then have "unat i + (?n + j - unat i) = j + ?n" using r(3) by simp
      then show ?thesis
        using that r(3) False by (intro exI [of _ "?n + j - unat i"]) (simp add: ring_slot_def)
    qed
    then show ?thesis using r(6) by (auto simp: nth_opt_def)
  qed
  then have "pq_records q = replicate (unat (pq_size q)) None"
    using r(2) by (intro nth_equalityI) auto
  then show ?case
    by (subst destroy_range.simps) (simp add: i)
next
  case (Cons x xs)
  let ?q = "q\<lparr>pq_records := (pq_records q)[unat i := None]\<rparr>"
  have d: "slot_destroy q i = Inr ?q"
    using slot_destroy_front [OF Cons.prems] by (auto simp: slot_destroy_def split: option.splits)
  have ne: "i \<noteq> pq_write q" using pcq_read_write [OF Cons.prems] by simp
  have "pcq_rep (?q\<lparr>pq_read := pcq_next q i\<rparr>) xs"
    using pcq_rep_deq [OF Cons.prems] by (simp add: pcq_next_def)
  then obtain rs where "destroy_range (pcq_next q i) (pq_write ?q) ?q = Some (Inr (?q\<lparr>pq_records := rs\<rparr>))"
    "rs = replicate (unat (pq_size ?q)) None"
    using Cons.IH by blast
  moreover have "pcq_next ?q i = pcq_next q i" by (simp add: pcq_next_def)
  ultimately show ?case using d ne by (subst destroy_range.simps) simp
qed

lemma pcq_destroy_rep:
  assumes "pcq_rep q xs" "\<not> trivial"
  shows "pcq_destroy trivial q
    = Some (Inr (if pq_moved q then Some (replicate (unat (pq_size q)) None) else None))"
proof -
  have "pcq_rep (q\<lparr>pq_read := pq_read q\<rparr>) xs" using assms(1) by simp
  from destroy_range_rep [OF this] show ?thesis
    using assms(2) by (auto simp: pcq_destroy_def)
qed

lemma pcq_move_rep: "pcq_rep q xs \<Longrightarrow> pcq_rep (fst (pcq_move q)) xs"
  by (simp add: pcq_move_def pcq_rep_def)

end
