(* ===== verification/Spsc.thy ===== *)
theory Spsc imports PC_Queue begin

text \<open>
  What the queue promises its users. First, run one operation after the other, it is a bounded list:
  bounded_queue is that contract, interpreted on the operations of
  src/include/folly/ProducerConsumerQueue.h. Second, run by one producer and one consumer at the
  same time: every load, store and slot access of the two threads is a step of its own, and the
  schedules are arbitrary. Steps are interleaved one at a time; this is what the release stores and
  acquire loads of the two indices provide to a single producer and a single consumer.
\<close>

subsection \<open>A bounded list\<close>

datatype 'a queue_op = Write 'a | Read | Front | Pop | Is_empty | Is_full
datatype 'a queue_obs = Flag bool | Value "'a option" | Done

fun spec_exec :: "nat \<Rightarrow> 'a queue_op \<Rightarrow> 'a list \<Rightarrow> ('a queue_obs \<times> 'a list) pcq_result" where
  "spec_exec c (Write v) xs = Inr (if length xs < c then (Flag True, xs @ [v]) else (Flag False, xs))"
| "spec_exec c Read [] = Inr (Value None, [])"
| "spec_exec c Read (x # xs) = Inr (Value (Some x), xs)"
| "spec_exec c Front xs = Inr (Value (case xs of [] \<Rightarrow> None | x # _ \<Rightarrow> Some x), xs)"
| "spec_exec c Pop [] = Inl Assertion_failed"
| "spec_exec c Pop (x # xs) = Inr (Done, xs)"
| "spec_exec c Is_empty xs = Inr (Flag (xs = []), xs)"
| "spec_exec c Is_full xs = Inr (Flag (length xs = c), xs)"

definition pcq_peek :: "'a pcq \<Rightarrow> 'a option pcq_result" where
  "pcq_peek q = (case pcq_front q of None \<Rightarrow> Inr None
     | Some i \<Rightarrow> (case slot_get q i of Inl e \<Rightarrow> Inl e | Inr v \<Rightarrow> Inr (Some v)))"

fun pcq_exec :: "'a queue_op \<Rightarrow> 'a pcq \<Rightarrow> ('a queue_obs \<times> 'a pcq) pcq_result" where
  "pcq_exec (Write v) q = (case pcq_write v q of Inl e \<Rightarrow> Inl e | Inr (b, q) \<Rightarrow> Inr (Flag b, q))"
| "pcq_exec Read q = (case pcq_read q of Inl e \<Rightarrow> Inl e | Inr (v, q) \<Rightarrow> Inr (Value v, q))"
| "pcq_exec Front q = (case pcq_peek q of Inl e \<Rightarrow> Inl e | Inr v \<Rightarrow> Inr (Value v, q))"
| "pcq_exec Pop q = (case pcq_pop q of Inl e \<Rightarrow> Inl e | Inr q \<Rightarrow> Inr (Done, q))"
| "pcq_exec Is_empty q = Inr (Flag (pcq_is_empty q), q)"
| "pcq_exec Is_full q = Inr (Flag (pcq_is_full q), q)"

text \<open>Runs: the observations of a list of operations, up to and without the first that fails.\<close>

fun run_obs :: "('op \<Rightarrow> 's \<Rightarrow> ('o \<times> 's) pcq_result) \<Rightarrow> 'op list \<Rightarrow> 's \<Rightarrow> 'o list" where
  "run_obs exec [] s = []"
| "run_obs exec (p # ps) s = (case exec p s of Inl _ \<Rightarrow> [] | Inr (v, s') \<Rightarrow> v # run_obs exec ps s')"

locale bounded_queue =
  fixes rep :: "'q \<Rightarrow> 'a list \<Rightarrow> bool"
    and room :: "'q \<Rightarrow> nat"
    and exec :: "'a queue_op \<Rightarrow> 'q \<Rightarrow> ('a queue_obs \<times> 'q) pcq_result"
  assumes exec_ok: "rep q xs \<Longrightarrow> spec_exec (room q) p xs = Inr (v, ys) \<Longrightarrow>
      \<exists>q'. exec p q = Inr (v, q') \<and> rep q' ys \<and> room q' = room q"
    and exec_fails: "rep q xs \<Longrightarrow> spec_exec (room q) p xs = Inl e \<Longrightarrow> exec p q = Inl e"
    and rep_bounded: "rep q xs \<Longrightarrow> length xs \<le> room q"
begin

lemma run_refines:
  "rep q xs \<Longrightarrow> run_obs exec ps q = run_obs (spec_exec (room q)) ps xs"
proof (induction ps arbitrary: q xs)
  case (Cons p ps)
  show ?case
  proof (cases "spec_exec (room q) p xs")
    case (Inl e)
    then show ?thesis using exec_fails [OF Cons.prems Inl] by simp
  next
    case (Inr r)
    obtain v ys where r: "r = (v, ys)" by (cases r)
    obtain q' where q': "exec p q = Inr (v, q')" "rep q' ys" "room q' = room q"
      using exec_ok [OF Cons.prems] Inr r by blast
    then show ?thesis using Cons.IH [OF q'(2)] Inr r by simp
  qed
qed simp

end

lemma pcq_exec_write:
  assumes "pcq_rep q xs" "spec_exec (cap q) (Write a) xs = Inr (v, ys)"
  shows "\<exists>q'. pcq_exec (Write a) q = Inr (v, q') \<and> pcq_rep q' ys \<and> pq_size q' = pq_size q"
proof (cases "length xs < cap q")
  case True
  then show ?thesis using pcq_write_room [OF assms(1) True, of a] assms(2) by auto
next
  case False
  then have "length xs = cap q" using pcq_repD(4) [OF assms(1)] by (simp add: cap_def)
  then show ?thesis using pcq_write_full [OF assms(1), of a] assms by auto
qed

lemma pcq_exec_other:
  assumes "pcq_rep q xs" "spec_exec (cap q) p xs = Inr (v, ys)" "\<And>a. p \<noteq> Write a"
  shows "\<exists>q'. pcq_exec p q = Inr (v, q') \<and> pcq_rep q' ys \<and> pq_size q' = pq_size q"
proof (cases xs)
  case Nil
  then show ?thesis
    using assms pcq_read_empty [of q] pcq_front_rep(1) [OF assms(1)] pcq_is_empty_rep [OF assms(1)]
      pcq_is_full_rep [OF assms(1)] by (cases p) (auto simp: pcq_peek_def)
next
  case (Cons x rest)
  then have q: "pcq_rep q (x # rest)" using assms(1) by simp
  obtain i where i: "pcq_front q = Some i" "slot_get q i = Inr x"
    using pcq_front_rep [OF q] by (cases "pcq_front q") auto
  show ?thesis
  proof (cases p)
    case Read
    with pcq_read_Cons [OF q] show ?thesis using assms(2) Cons by auto
  next
    case Pop
    with pcq_pop_Cons [OF q] show ?thesis using assms(2) Cons by auto
  next
    case Front
    with i show ?thesis using assms(1,2) Cons by (simp add: pcq_peek_def)
  qed (use assms pcq_is_empty_rep [OF assms(1)] pcq_is_full_rep [OF assms(1)] in auto)
qed

interpretation pcq: bounded_queue pcq_rep cap pcq_exec
proof (unfold_locales, goal_cases)
  case (1 q xs p v ys)
  have "\<exists>q'. pcq_exec p q = Inr (v, q') \<and> pcq_rep q' ys \<and> pq_size q' = pq_size q"
  proof (cases "\<exists>a. p = Write a")
    case True
    then obtain a where "p = Write a" ..
    then show ?thesis using pcq_exec_write [OF 1(1), of a v ys] 1(2) by (simp only: simp_thms)
  next
    case False
    then show ?thesis by (intro pcq_exec_other [OF 1]) simp
  qed
  then show ?case by (auto simp: cap_def)
next
  case (2 q xs p e)
  then show ?case using pcq_pop_empty [of q] by (cases p; cases xs) (auto split: if_splits)
next
  case (3 q xs)
  then show ?case using pcq_repD(4) by (fastforce simp: cap_def)
qed

text \<open>C30. A queue of size n is a list of at most n - 1 elements: whatever
  sequence of writes, reads, looks at the front, pops and tests is run on a new queue, each one
  returns what the same operation on the list returns (a write fails exactly if n - 1
  elements are in, however often the indices have wrapped around), and the first failure is the
  assertion of a pop from the empty queue.
\<close>

theorem queue_is_bounded_list:
  assumes "2 \<le> n"
  shows "\<exists>q. pcq_new n True = Inr q
    \<and> run_obs pcq_exec ps q = run_obs (spec_exec (unat n - 1)) ps []"
  using pcq_new_rep [OF assms] pcq.run_refines by metis

theorem queue_is_bounded_list_witness:
  "\<exists>q. pcq_new 3 True = Inr q
    \<and> run_obs pcq_exec [Write (7::nat), Write 8, Write 9, Is_full, Read, Write 9, Front, Read, Read, Read, Pop] q
      = [Flag True, Flag True, Flag False, Flag True, Value (Some 7), Flag True, Value (Some 8),
         Value (Some 8), Value (Some 9), Value None]"
  using queue_is_bounded_list [of 3 "[Write (7::nat), Write 8, Write 9, Is_full, Read, Write 9, Front,
    Read, Read, Read, Pop]"] by simp

subsection \<open>One producer and one consumer\<close>

text \<open>
  Where the two threads are: the producer between the statements of write, with its argument
  and the values of currentWrite and nextRecord; the consumer between those of
  read, or between a look at the front (C_peek, C_using) and the pop
  after it. sent collects the values whose write has returned true and got the
  values whose read or pop has returned.
\<close>

datatype 'a producer = P_idle | P_loaded 'a id32 id32 | P_room 'a id32 id32 | P_filled 'a id32 id32
datatype 'a consumer = C_idle | C_loaded id32 | C_ready id32 id32 | C_moved id32 id32 'a
  | C_gone id32 id32 'a | C_peek id32 | C_using id32 | C_used id32 'a

record 'a spsc =
  shared :: "'a pcq"
  prod_at :: "'a producer"
  cons_at :: "'a consumer"
  sent :: "'a list"
  got :: "'a list"

datatype 'a turn = Producer 'a | Consumer bool

definition producer_step :: "'a \<Rightarrow> 'a spsc \<Rightarrow> 'a spsc pcq_result" where
  "producer_step a s = (let q = shared s in case prod_at s of
      P_idle \<Rightarrow> Inr (s\<lparr>prod_at := P_loaded a (pq_write q) (pcq_next q (pq_write q))\<rparr>)
    | P_loaded v w n \<Rightarrow>
        Inr (s\<lparr>prod_at := if n \<noteq> pq_read q then P_room v w n else P_idle\<rparr>)
    | P_room v w n \<Rightarrow> (case slot_construct q w v of Inl e \<Rightarrow> Inl e
        | Inr q \<Rightarrow> Inr (s\<lparr>shared := q, prod_at := P_filled v w n\<rparr>))
    | P_filled v w n \<Rightarrow>
        Inr (s\<lparr>shared := q\<lparr>pq_write := n\<rparr>, prod_at := P_idle, sent := sent s @ [v]\<rparr>))"

definition consumer_step :: "bool \<Rightarrow> 'a spsc \<Rightarrow> 'a spsc pcq_result" where
  "consumer_step peek s = (let q = shared s in case cons_at s of
      C_idle \<Rightarrow> Inr (s\<lparr>cons_at := if peek then C_peek (pq_read q) else C_loaded (pq_read q)\<rparr>)
    | C_loaded r \<Rightarrow>
        Inr (s\<lparr>cons_at := if r = pq_write q then C_idle else C_ready r (pcq_next q r)\<rparr>)
    | C_ready r n \<Rightarrow> (case slot_get q r of Inl e \<Rightarrow> Inl e
        | Inr v \<Rightarrow> Inr (s\<lparr>cons_at := C_moved r n v\<rparr>))
    | C_moved r n v \<Rightarrow> (case slot_destroy q r of Inl e \<Rightarrow> Inl e
        | Inr q \<Rightarrow> Inr (s\<lparr>shared := q, cons_at := C_gone r n v\<rparr>))
    | C_gone r n v \<Rightarrow>
        Inr (s\<lparr>shared := q\<lparr>pq_read := n\<rparr>, cons_at := C_idle, got := got s @ [v]\<rparr>)
    | C_peek r \<Rightarrow> Inr (s\<lparr>cons_at := if r = pq_write q then C_idle else C_using r\<rparr>)
    | C_using r \<Rightarrow> (case slot_get q r of Inl e \<Rightarrow> Inl e
        | Inr v \<Rightarrow> Inr (s\<lparr>cons_at := C_used (pq_read q) v\<rparr>))
    | C_used r v \<Rightarrow> if r = pq_write q then Inl Assertion_failed
        else Inr (s\<lparr>cons_at := C_moved r (pcq_next q r) v\<rparr>))"

fun spsc_run :: "'a turn list \<Rightarrow> 'a spsc \<Rightarrow> 'a spsc pcq_result" where
  "spsc_run [] s = Inr s"
| "spsc_run (t # ts) s =
     (case (case t of Producer a \<Rightarrow> producer_step a s | Consumer peek \<Rightarrow> consumer_step peek s) of
        Inl e \<Rightarrow> Inl e | Inr s' \<Rightarrow> spsc_run ts s')"

definition spsc_start :: "'a pcq \<Rightarrow> 'a spsc" where
  "spsc_start q = \<lparr>shared = q, prod_at = P_idle, cons_at = C_idle, sent = [], got = []\<rparr>"

text \<open>
  The invariant reads the array without the slot the producer has filled but not yet published and
  with the element the consumer has taken but whose slot it has not yet given back.
\<close>

definition unfilled :: "'a producer \<Rightarrow> 'a option list \<Rightarrow> 'a option list" where
  "unfilled p rs = (case p of P_filled v w n \<Rightarrow> rs[unat w := None] | _ \<Rightarrow> rs)"

definition untaken :: "'a consumer \<Rightarrow> 'a option list \<Rightarrow> 'a option list" where
  "untaken c rs = (case c of C_gone r n v \<Rightarrow> rs[unat r := Some v] | _ \<Rightarrow> rs)"

definition settled :: "'a spsc \<Rightarrow> 'a pcq" where
  "settled s = (shared s)\<lparr>pq_records := untaken (cons_at s) (unfilled (prod_at s) (pq_records (shared s)))\<rparr>"

definition prod_ok :: "'a pcq \<Rightarrow> nat \<Rightarrow> 'a producer \<Rightarrow> bool" where
  "prod_ok q len p = (case p of
      P_idle \<Rightarrow> True
    | P_loaded v w n \<Rightarrow> w = pq_write q \<and> n = pcq_next q w
    | P_room v w n \<Rightarrow> w = pq_write q \<and> n = pcq_next q w \<and> Suc len < unat (pq_size q)
    | P_filled v w n \<Rightarrow> w = pq_write q \<and> n = pcq_next q w \<and> Suc len < unat (pq_size q)
        \<and> nth_opt (pq_records q) (unat w) = Some (Some v))"

definition cons_ok :: "'a pcq \<Rightarrow> 'a list \<Rightarrow> 'a consumer \<Rightarrow> bool" where
  "cons_ok q xs c = (case c of
      C_idle \<Rightarrow> True
    | C_loaded r \<Rightarrow> r = pq_read q
    | C_ready r n \<Rightarrow> r = pq_read q \<and> n = pcq_next q r \<and> xs \<noteq> []
    | C_moved r n v \<Rightarrow> r = pq_read q \<and> n = pcq_next q r \<and> xs \<noteq> [] \<and> v = hd xs
    | C_gone r n v \<Rightarrow> r = pq_read q \<and> n = pcq_next q r \<and> xs \<noteq> [] \<and> v = hd xs
        \<and> nth_opt (pq_records q) (unat r) = Some None
    | C_peek r \<Rightarrow> r = pq_read q
    | C_using r \<Rightarrow> r = pq_read q \<and> xs \<noteq> []
    | C_used r v \<Rightarrow> r = pq_read q \<and> xs \<noteq> [] \<and> v = hd xs)"

definition spsc_ok :: "'a spsc \<Rightarrow> 'a list \<Rightarrow> bool" where
  "spsc_ok s xs \<longleftrightarrow> pcq_rep (settled s) xs \<and> sent s = got s @ xs
     \<and> prod_ok (shared s) (length xs) (prod_at s) \<and> cons_ok (shared s) xs (cons_at s)"

lemma length_settle [simp]: "length (unfilled p rs) = length rs" "length (untaken c rs) = length rs"
  by (simp_all add: unfilled_def untaken_def split: producer.split consumer.split)

lemma settled_sel [simp]:
  "pq_size (settled s) = pq_size (shared s)" "pq_read (settled s) = pq_read (shared s)"
  "pq_write (settled s) = pq_write (shared s)" "pcq_next (settled s) i = pcq_next (shared s) i"
  "pq_records (settled s) = untaken (cons_at s) (unfilled (prod_at s) (pq_records (shared s)))"
  by (simp_all add: settled_def pcq_next_def)

lemma pcq_next_upd [simp]:
  "pcq_next (q\<lparr>pq_records := rs\<rparr>) = pcq_next q" "pcq_next (q\<lparr>pq_read := i\<rparr>) = pcq_next q"
  "pcq_next (q\<lparr>pq_write := i\<rparr>) = pcq_next q"
  by (simp_all add: pcq_next_def fun_eq_iff)

lemma settled_back:
  assumes "pcq_rep (settled s) xs" "Suc (length xs) < unat (pq_size (shared s))"
  shows "nth_opt (pq_records (settled s)) (unat (pq_write (shared s))) = Some None"
  using pcq_repD(2,5) [OF assms(1)] pcq_repD(6) [OF assms(1), of "length xs"] assms
    pcq_write_lt [OF assms(1)] by (simp add: nth_opt_def)

lemma settled_front:
  assumes "pcq_rep (settled s) xs" "xs \<noteq> []"
  shows "nth_opt (pq_records (settled s)) (unat (pq_read (shared s))) = Some (Some (hd xs))"
  using pcq_rep_front [of "settled s" "hd xs" "tl xs"] pcq_repD(2,3) [OF assms(1)] assms
  by (simp add: nth_opt_def)

lemma nth_upd: "i < length rs \<Longrightarrow> rs[j := y] ! i = (if i = j then y else rs ! i)"
  by simp

lemma untaken_None:
  assumes "nth_opt (untaken c rs) i = Some None"
  shows "nth_opt rs i = Some None" "untaken c (rs[i := x]) = (untaken c rs)[i := x]"
  using assms by (auto simp: untaken_def nth_upd intro: list_update_swap
      split: consumer.splits if_splits)

lemma unfilled_Some:
  assumes "nth_opt (unfilled p rs) i = Some (Some v)"
  shows "nth_opt rs i = Some (Some v)" "unfilled p (rs[i := x]) = (unfilled p rs)[i := x]"
  using assms by (auto simp: unfilled_def nth_upd intro: list_update_swap
      split: producer.splits if_splits)

lemma unfilled_None: "nth_opt rs i = Some None \<Longrightarrow> nth_opt (unfilled p rs) i = Some None"
  by (auto simp: unfilled_def nth_upd split: producer.splits)

lemma nth_opt_same: "nth_opt rs i = Some v \<Longrightarrow> rs[i := v] = rs"
  by auto

text \<open>The steps of the two threads keep the invariant, and none of them fails.\<close>

lemma producer_step_ok:
  assumes "spsc_ok s xs"
  shows "\<exists>s' xs'. producer_step a s = Inr s' \<and> spsc_ok s' xs' \<and> pq_size (shared s') = pq_size (shared s)"
proof -
  let ?q = "shared s" and ?c = "cons_at s"
  have rep: "pcq_rep (settled s) xs" and inv: "sent s = got s @ xs"
      "prod_ok ?q (length xs) (prod_at s)" "cons_ok ?q xs ?c"
    using assms by (auto simp: spsc_ok_def)
  have ok: ?thesis if "spsc_ok s' xs'" "producer_step a s = Inr s'"
      "pq_size (shared s') = pq_size ?q" for s' xs' using that by blast
  show ?thesis
  proof (cases "prod_at s")
    case P_idle
    then have "spsc_ok (s\<lparr>prod_at := P_loaded a (pq_write ?q) (pcq_next ?q (pq_write ?q))\<rparr>) xs"
      using rep inv by (simp add: spsc_ok_def settled_def unfilled_def prod_ok_def)
    then show ?thesis by (rule ok) (simp_all add: producer_step_def Let_def P_idle)
  next
    case (P_loaded v w n)
    moreover have "n = pq_read ?q \<longleftrightarrow> Suc (length xs) = unat (pq_size ?q)"
      using pcq_next_write [OF rep] P_loaded inv by (simp add: prod_ok_def)
    ultimately have "spsc_ok (s\<lparr>prod_at := if n \<noteq> pq_read ?q then P_room v w n else P_idle\<rparr>) xs"
      using rep inv pcq_repD(4) [OF rep]
      by (simp add: spsc_ok_def settled_def unfilled_def prod_ok_def)
    then show ?thesis by (rule ok) (simp_all add: producer_step_def Let_def P_loaded)
  next
    case (P_room v w n)
    then have w: "w = pq_write ?q" "n = pcq_next ?q w" and len: "Suc (length xs) < unat (pq_size ?q)"
      using inv by (auto simp: prod_ok_def)
    note behind = settled_back [OF rep len]
    then have raw: "nth_opt (pq_records ?q) (unat w) = Some None"
      using untaken_None(1) by (fastforce simp: P_room unfilled_def w)
    let ?s = "s\<lparr>shared := ?q\<lparr>pq_records := (pq_records ?q)[unat w := Some v]\<rparr>, prod_at := P_filled v w n\<rparr>"
    have "settled ?s = settled s"
      using raw by (simp add: settled_def unfilled_def P_room nth_opt_same)
    moreover have "cons_ok (shared ?s) xs ?c"
      using inv(3) w behind by (auto simp: cons_ok_def nth_upd untaken_def split: consumer.splits)
    ultimately have "spsc_ok ?s xs"
      using rep inv(1) w len raw by (simp add: spsc_ok_def prod_ok_def)
    moreover have "producer_step a s = Inr ?s"
      using raw by (simp add: producer_step_def Let_def P_room slot_construct_def del: nth_opt_Some)
    ultimately show ?thesis by (rule ok) simp_all
  next
    case (P_filled v w n)
    then have w: "w = pq_write ?q" "n = pcq_next ?q w" and len: "Suc (length xs) < unat (pq_size ?q)"
      and v: "nth_opt (pq_records ?q) (unat w) = Some (Some v)"
      using inv by (auto simp: prod_ok_def)
    let ?s = "s\<lparr>shared := ?q\<lparr>pq_write := n\<rparr>, prod_at := P_idle, sent := sent s @ [v]\<rparr>"
    have "untaken ?c ((pq_records ?q)[unat w := None, unat w := Some v])
        = (untaken ?c ((pq_records ?q)[unat w := None]))[unat w := Some v]"
      using settled_back [OF rep len] by (intro untaken_None(2)) (simp add: P_filled unfilled_def w)
    then have "settled ?s = (settled s)\<lparr>pq_records := (pq_records (settled s))[unat w := Some v],
        pq_write := pcq_next (settled s) w\<rparr>"
      using v w by (simp add: settled_def unfilled_def P_filled nth_opt_same)
    then have "pcq_rep (settled ?s) (xs @ [v])"
      using pcq_rep_enq [OF rep, of v] len w by simp
    moreover have "cons_ok (shared ?s) (xs @ [v]) ?c"
      using inv(3) by (auto simp: cons_ok_def split: consumer.splits)
    ultimately have "spsc_ok ?s (xs @ [v])"
      using inv(1) by (simp add: spsc_ok_def prod_ok_def)
    moreover have "producer_step a s = Inr ?s"
      by (simp add: producer_step_def Let_def P_filled)
    ultimately show ?thesis by (rule ok) simp_all
  qed
qed

lemma consumer_step_ok:
  assumes "spsc_ok s xs"
  shows "\<exists>s' xs'. consumer_step peek s = Inr s' \<and> spsc_ok s' xs'
    \<and> pq_size (shared s') = pq_size (shared s)"
proof -
  let ?q = "shared s" and ?p = "prod_at s"
  have rep: "pcq_rep (settled s) xs" and inv: "sent s = got s @ xs"
      "prod_ok ?q (length xs) ?p" "cons_ok ?q xs (cons_at s)"
    using assms by (auto simp: spsc_ok_def)
  have step: ?thesis if "spsc_ok s' xs'" "consumer_step peek s = Inr s'"
      "pq_size (shared s') = pq_size ?q" for s' xs' using that by blast
  have empty: "pq_read ?q = pq_write ?q \<longleftrightarrow> xs = []" using pcq_read_write [OF rep] by simp
  have move: "spsc_ok (s\<lparr>cons_at := c\<rparr>) xs"
    if "cons_ok ?q xs c" "untaken (cons_at s) = untaken c" for c
    using rep inv that by (simp add: spsc_ok_def settled_def)
  have front: "nth_opt (pq_records ?q) (unat (pq_read ?q)) = Some (Some (hd xs))"
    if "xs \<noteq> []" "\<And>rs. untaken (cons_at s) rs = rs"
    using settled_front [OF rep] that unfilled_Some(1) [of ?p "pq_records ?q"] by simp
  show ?thesis
  proof (cases "cons_at s")
    case C_idle
    have "spsc_ok (s\<lparr>cons_at := if peek then C_peek (pq_read ?q) else C_loaded (pq_read ?q)\<rparr>) xs"
      by (rule move) (simp_all add: C_idle cons_ok_def untaken_def fun_eq_iff)
    then show ?thesis by (rule step) (simp_all add: consumer_step_def Let_def C_idle)
  next
    case (C_loaded r)
    have "spsc_ok (s\<lparr>cons_at := if r = pq_write ?q then C_idle else C_ready r (pcq_next ?q r)\<rparr>) xs"
      using inv(3) empty by (intro move) (auto simp: C_loaded cons_ok_def untaken_def fun_eq_iff)
    then show ?thesis by (rule step) (simp_all add: consumer_step_def Let_def C_loaded)
  next
    case (C_ready r n)
    have r: "r = pq_read ?q" "xs \<noteq> []" using inv(3) by (auto simp: C_ready cons_ok_def)
    have "spsc_ok (s\<lparr>cons_at := C_moved r n (hd xs)\<rparr>) xs"
      using inv(3) by (intro move) (auto simp: C_ready cons_ok_def untaken_def fun_eq_iff)
    then show ?thesis
      by (rule step) (use front r in \<open>auto simp: consumer_step_def Let_def C_ready slot_get_def nth_opt_in untaken_def\<close>)
  next
    case (C_moved r n v)
    have r: "r = pq_read ?q" "xs \<noteq> []" "n = pcq_next ?q r" "v = hd xs"
      using inv(3) by (auto simp: C_moved cons_ok_def)
    have f: "nth_opt (pq_records ?q) (unat r) = Some (Some v)"
      using front r by (simp add: C_moved untaken_def)
    let ?s = "s\<lparr>shared := ?q\<lparr>pq_records := (pq_records ?q)[unat r := None]\<rparr>, cons_at := C_gone r n v\<rparr>"
    have u: "nth_opt (unfilled ?p (pq_records ?q)) (unat r) = Some (Some v)"
      using settled_front [OF rep r(2)] r by (simp add: C_moved untaken_def)
    have "settled ?s = settled s"
      using u by (simp add: settled_def untaken_def C_moved unfilled_Some(2) [OF u] nth_opt_same)
    moreover have "prod_ok (shared ?s) (length xs) ?p"
      using inv(2) u by (auto simp: prod_ok_def unfilled_def nth_upd split: producer.splits)
    ultimately have "spsc_ok ?s xs"
      using rep inv(1) r f by (simp add: spsc_ok_def cons_ok_def)
    then show ?thesis
      by (rule step) (use f in \<open>simp_all add: consumer_step_def Let_def C_moved slot_destroy_def nth_opt_in\<close>)
  next
    case (C_gone r n v)
    have r: "r = pq_read ?q" "xs \<noteq> []" "n = pcq_next ?q r" "v = hd xs"
      "nth_opt (pq_records ?q) (unat r) = Some None"
      using inv(3) by (auto simp: C_gone cons_ok_def)
    let ?s = "s\<lparr>shared := ?q\<lparr>pq_read := n\<rparr>, cons_at := C_idle, got := got s @ [v]\<rparr>"
    have "settled ?s = (settled s)\<lparr>pq_records := (pq_records (settled s))[unat r := None],
        pq_read := pcq_next (settled s) r\<rparr>"
      using r unfilled_None [OF r(5), of ?p]
      by (simp add: settled_def untaken_def C_gone nth_opt_same)
    moreover obtain x rest where xs: "xs = x # rest" using r(2) by (cases xs) auto
    ultimately have "pcq_rep (settled ?s) rest"
      using pcq_rep_deq [of "settled s" x rest] rep r by simp
    moreover have "prod_ok (shared ?s) (length rest) ?p"
      using inv(2) xs by (auto simp: prod_ok_def split: producer.splits)
    ultimately have "spsc_ok ?s rest"
      using inv(1) r xs by (simp add: spsc_ok_def cons_ok_def)
    then show ?thesis
      by (rule step) (simp_all add: consumer_step_def Let_def C_gone)
  next
    case (C_peek r)
    have "spsc_ok (s\<lparr>cons_at := if r = pq_write ?q then C_idle else C_using r\<rparr>) xs"
      using inv(3) empty by (intro move) (auto simp: C_peek cons_ok_def untaken_def fun_eq_iff)
    then show ?thesis by (rule step) (simp_all add: consumer_step_def Let_def C_peek)
  next
    case (C_using r)
    have r: "r = pq_read ?q" "xs \<noteq> []" using inv(3) by (auto simp: C_using cons_ok_def)
    have "spsc_ok (s\<lparr>cons_at := C_used (pq_read ?q) (hd xs)\<rparr>) xs"
      using r by (intro move) (auto simp: C_using cons_ok_def untaken_def fun_eq_iff)
    then show ?thesis
      by (rule step) (use front r in \<open>auto simp: consumer_step_def Let_def C_using slot_get_def nth_opt_in untaken_def\<close>)
  next
    case (C_used r v)
    have r: "r = pq_read ?q" "xs \<noteq> []" using inv(3) by (auto simp: C_used cons_ok_def)
    have "spsc_ok (s\<lparr>cons_at := C_moved r (pcq_next ?q r) v\<rparr>) xs"
      using inv(3) by (intro move) (auto simp: C_used cons_ok_def untaken_def fun_eq_iff)
    then show ?thesis
      by (rule step) (use r empty in \<open>simp_all add: consumer_step_def Let_def C_used\<close>)
  qed
qed

lemma spsc_run_ok:
  "spsc_ok s xs \<Longrightarrow> \<exists>s' xs'. spsc_run ts s = Inr s' \<and> spsc_ok s' xs'
    \<and> pq_size (shared s') = pq_size (shared s)"
proof (induction ts arbitrary: s xs)
  case (Cons t ts)
  obtain s1 xs1 where 1: "(case t of Producer a \<Rightarrow> producer_step a s | Consumer peek \<Rightarrow> consumer_step peek s)
      = Inr s1" "spsc_ok s1 xs1" "pq_size (shared s1) = pq_size (shared s)"
  proof (cases t)
    case (Producer a)
    then show ?thesis using producer_step_ok [OF Cons.prems, of a] that by auto
  next
    case (Consumer peek)
    then show ?thesis using consumer_step_ok [OF Cons.prems, of peek] that by auto
  qed
  obtain s2 xs2 where 2: "spsc_run ts s1 = Inr s2" "spsc_ok s2 xs2"
      "pq_size (shared s2) = pq_size (shared s1)"
    using Cons.IH [OF 1(2)] by blast
  then show ?case using 1 by auto
qed auto

lemma spsc_start_ok: "pcq_rep q [] \<Longrightarrow> spsc_ok (spsc_start q) []"
  by (simp add: spsc_ok_def spsc_start_def settled_def untaken_def unfilled_def prod_ok_def cons_ok_def)

lemma producer_alone:
  assumes "spsc_ok s xs" "prod_at s = P_idle" "length xs < cap (shared s)"
  shows "\<exists>s'. spsc_run (replicate 4 (Producer a)) s = Inr s' \<and> sent s' = sent s @ [a] \<and> got s' = got s"
proof -
  let ?q = "shared s"
  have rep: "pcq_rep (settled s) xs" using assms(1) by (simp add: spsc_ok_def)
  let ?w = "pq_write ?q" and ?n = "pcq_next ?q (pq_write ?q)"
  have ne: "?n \<noteq> pq_read ?q"
    using pcq_next_write [OF rep] assms(3) by (simp add: cap_def)
  let ?s1 = "s\<lparr>prod_at := P_loaded a ?w ?n\<rparr>" and ?s2 = "s\<lparr>prod_at := P_room a ?w ?n\<rparr>"
  have s1: "producer_step a s = Inr ?s1" by (simp add: producer_step_def Let_def assms(2))
  then have s2: "producer_step a ?s1 = Inr ?s2" using ne by (simp add: producer_step_def Let_def)
  obtain xs2 where "spsc_ok ?s2 xs2"
    using producer_step_ok [OF assms(1), of a] s1 s2 producer_step_ok [of ?s1 _ a] by auto
  then obtain s3 where s3: "producer_step a ?s2 = Inr s3"
    using producer_step_ok [of ?s2 xs2 a] by blast
  then have "\<exists>q. s3 = s\<lparr>shared := q, prod_at := P_filled a ?w ?n\<rparr>"
    by (auto simp: producer_step_def Let_def split: sum.splits)
  then obtain q where q: "s3 = s\<lparr>shared := q, prod_at := P_filled a ?w ?n\<rparr>" ..
  then have "producer_step a s3 = Inr (s\<lparr>shared := q\<lparr>pq_write := ?n\<rparr>, prod_at := P_idle, sent := sent s @ [a]\<rparr>)"
    by (simp add: producer_step_def Let_def)
  then show ?thesis using s1 s2 s3 by (simp add: numeral_eq_Suc)
qed

lemma consumer_alone:
  assumes "spsc_ok s (x # xs)" "cons_at s = C_idle"
  shows "\<exists>s'. spsc_run (replicate 5 (Consumer False)) s = Inr s' \<and> got s' = got s @ [x] \<and> sent s' = sent s"
proof -
  let ?q = "shared s"
  have rep: "pcq_rep (settled s) (x # xs)" using assms(1) by (simp add: spsc_ok_def)
  let ?r = "pq_read ?q" and ?n = "pcq_next ?q (pq_read ?q)"
  have ne: "?r \<noteq> pq_write ?q" using pcq_read_write [OF rep] by simp
  let ?s1 = "s\<lparr>cons_at := C_loaded ?r\<rparr>" and ?s2 = "s\<lparr>cons_at := C_ready ?r ?n\<rparr>"
    and ?s3 = "s\<lparr>cons_at := C_moved ?r ?n x\<rparr>"
  have s1: "consumer_step False s = Inr ?s1" by (simp add: consumer_step_def Let_def assms(2))
  then have s2: "consumer_step False ?s1 = Inr ?s2" using ne by (simp add: consumer_step_def Let_def)
  have "nth_opt (pq_records ?q) (unat ?r) = Some (Some x)"
    using settled_front [OF rep] unfilled_Some(1) [of "prod_at s" "pq_records ?q"]
    by (simp add: assms(2) untaken_def)
  then have s3: "consumer_step False ?s2 = Inr ?s3"
    and s4: "consumer_step False ?s3 = Inr (s\<lparr>shared := ?q\<lparr>pq_records := (pq_records ?q)[unat ?r := None]\<rparr>,
      cons_at := C_gone ?r ?n x\<rparr>)"
    by (simp_all add: consumer_step_def Let_def slot_get_def slot_destroy_def nth_opt_in)
  show ?thesis using s1 s2 s3 s4 by (simp add: numeral_eq_Suc consumer_step_def Let_def)
qed

lemma spsc_reach:
  fixes q :: "'a pcq"
  assumes "2 \<le> n" "pcq_new n True = Inr q"
  shows "\<exists>s xs. spsc_run ts (spsc_start q) = Inr s \<and> spsc_ok s xs \<and> sent s = got s @ xs
    \<and> length xs \<le> cap (shared s) \<and> cap (shared s) = unat n - 1"
proof -
  obtain q' :: "'a pcq" where q': "pcq_new n True = Inr q'" "pcq_rep q' []" "cap q' = unat n - 1"
    using pcq_new_rep [OF assms(1)] by blast
  then have q: "pcq_rep q []" "cap q = unat n - 1" using assms(2) by auto
  obtain s xs where s: "spsc_run ts (spsc_start q) = Inr s" "spsc_ok s xs"
      "pq_size (shared s) = pq_size (shared (spsc_start q))"
    using spsc_run_ok [OF spsc_start_ok [OF q(1)]] by blast
  have "cap (shared s) = unat n - 1" using s(3) q(2) by (simp add: cap_def spsc_start_def)
  moreover have "length xs \<le> cap (shared s)"
    using pcq_repD(4) [of "settled s" xs] s(2) by (simp add: spsc_ok_def cap_def)
  ultimately show ?thesis using s by (auto simp: spsc_ok_def)
qed

text \<open>C9. One producer and one consumer, interleaved in any way, statement by statement: the run never
  uses a slot outside of the array, reads a slot that holds no object, constructs over a live one
  or fails an assertion; the values got are always the values sent, in their order and without
  loss or repetition, up to at most size - 1 values that are still inside.
\<close>

theorem spsc_fifo:
  assumes "2 \<le> n" "pcq_new n True = Inr q"
  shows "\<exists>s xs. spsc_run ts (spsc_start q) = Inr s \<and> sent s = got s @ xs \<and> length xs \<le> unat n - 1"
  using spsc_reach [OF assms] by metis

lemma pcq_new_2: "pcq_new 2 True
    = Inr \<lparr>pq_size = 2, pq_records = [None, None], pq_moved = False, pq_read = 0, pq_write = 0\<rparr>"
proof -
  have "unat (2 :: id32) = Suc (Suc 0)" by simp
  then have "replicate (unat (2 :: id32)) None = [None, None]" by (simp only: replicate.simps)
  then show ?thesis by (simp add: pcq_new_def)
qed

theorem spsc_fifo_witness:
  "\<exists>s xs. spsc_run [Producer (5::nat), Producer 5, Consumer False, Producer 5, Producer 5, Consumer False,
      Consumer True, Producer 6, Consumer True, Producer 6, Consumer True, Consumer True]
     (spsc_start \<lparr>pq_size = 2, pq_records = [None, None], pq_moved = False, pq_read = 0, pq_write = 0\<rparr>)
     = Inr s \<and> sent s = got s @ xs \<and> length xs \<le> unat (2::id32) - 1"
  by (rule spsc_fifo) (simp_all add: pcq_new_2)

text \<open>Neither thread waits for the other: after any interleaving that leaves the producer between
  two calls with fewer than size - 1 values inside, four steps of the producer alone
  complete a write, wherever the consumer stands; if the consumer is between two calls and a
  value is inside, five of its own steps complete a read of the oldest one.
\<close>

theorem spsc_progress:
  assumes "2 \<le> n" "pcq_new n True = Inr q" "spsc_run ts (spsc_start q) = Inr s"
  shows "(prod_at s = P_idle \<and> length (sent s) < length (got s) + (unat n - 1) \<longrightarrow>
      (\<exists>s'. spsc_run (replicate 4 (Producer a)) s = Inr s' \<and> sent s' = sent s @ [a] \<and> got s' = got s))
    \<and> (cons_at s = C_idle \<and> length (got s) < length (sent s) \<longrightarrow>
      (\<exists>s'. spsc_run (replicate 5 (Consumer False)) s = Inr s' \<and> got s' = got s @ [sent s ! length (got s)]
         \<and> sent s' = sent s))"
proof -
  obtain xs where xs: "spsc_ok s xs" "sent s = got s @ xs" "cap (shared s) = unat n - 1"
    using spsc_reach [OF assms(1,2), of ts] assms(3) by auto
  have "\<exists>s'. spsc_run (replicate 4 (Producer a)) s = Inr s' \<and> sent s' = sent s @ [a] \<and> got s' = got s"
    if "prod_at s = P_idle" "length (sent s) < length (got s) + (unat n - 1)"
    using producer_alone [OF xs(1) that(1)] that(2) xs by simp
  moreover have "\<exists>s'. spsc_run (replicate 5 (Consumer False)) s = Inr s'
      \<and> got s' = got s @ [sent s ! length (got s)] \<and> sent s' = sent s"
    if c: "cons_at s = C_idle" "length (got s) < length (sent s)"
  proof -
    obtain y ys where "xs = y # ys" using c(2) xs(2) by (cases xs) auto
    then show ?thesis using consumer_alone [of s y ys] xs c(1) by (simp add: nth_append)
  qed
  ultimately show ?thesis by blast
qed

theorem spsc_progress_witness:
  "\<exists>s'. spsc_run (replicate 4 (Producer (9::nat)))
     (spsc_start \<lparr>pq_size = 2, pq_records = [None, None], pq_moved = False, pq_read = 0, pq_write = 0\<rparr>) = Inr s'
     \<and> sent s' = [9] \<and> got s' = []"
proof -
  let ?q = "\<lparr>pq_size = 2, pq_records = [None, None], pq_moved = False, pq_read = 0, pq_write = 0\<rparr> :: nat pcq"
  have "prod_at (spsc_start ?q) = P_idle" "sent (spsc_start ?q) = []" "got (spsc_start ?q) = []"
    "length ([] :: nat list) < 0 + (unat (2::id32) - 1)"
    by (simp_all add: spsc_start_def)
  then show ?thesis
    using spsc_progress [OF order.refl pcq_new_2 spsc_run.simps(1), of "9::nat"]
    by (metis append_Nil list.size(3))
qed

text \<open>Moving a queue with elements in it and then destroying the source destroys the elements the
  new queue owns, since the destructor's loop does not look at moved_: unless the
  elements' destructor is trivial, the first look at the front of the new queue uses a destroyed
  object. (The thread pool only moves its queues while they are empty.)
\<close>

theorem moved_from_destroys:
  assumes "pcq_rep q (x # xs)"
  shows "\<exists>rs. pcq_destroy False (snd (pcq_move q)) = Some (Inr (Some rs))
    \<and> pcq_peek ((fst (pcq_move q))\<lparr>pq_records := rs\<rparr>) = Inl Bad_slot"
proof -
  have "pcq_rep (snd (pcq_move q)) (x # xs)"
    using assms by (simp add: pcq_move_def pcq_rep_def)
  from pcq_destroy_rep [OF this, of False]
  have "pcq_destroy False (snd (pcq_move q)) = Some (Inr (Some (replicate (unat (pq_size q)) None)))"
    by (simp add: pcq_move_def)
  moreover have "pq_read q \<noteq> pq_write q" using pcq_read_write [OF assms] by simp
  ultimately show ?thesis
    using pcq_repD(3) [OF assms]
    by (simp add: pcq_peek_def pcq_front_def pcq_move_def slot_get_def nth_opt_in)
qed

theorem moved_from_destroys_witness:
  "\<exists>q rs. pcq_new 4 True = Inr q \<and> (\<exists>q'. pcq_write (7::nat) q = Inr (True, q')
    \<and> pcq_destroy False (snd (pcq_move q')) = Some (Inr (Some rs))
    \<and> pcq_peek ((fst (pcq_move q'))\<lparr>pq_records := rs\<rparr>) = Inl Bad_slot)"
proof -
  obtain q where q: "pcq_new 4 True = Inr q" "pcq_rep q ([] :: nat list)" "cap q = 3"
    using pcq_new_rep [of 4] by auto
  obtain q' where "pcq_write 7 q = Inr (True, q')" "pcq_rep q' [7]"
    using pcq_write_room [OF q(2), of 7] q(3) by auto
  then show ?thesis using moved_from_destroys [of q' 7 "[]"] q(1) by blast
qed

text \<open>The queue is for a single producer: if a second thread's write comes between the load of the
  write index and the construction of the first one's value, both construct into the same slot.
  Here the first thread has loaded, the second completes a whole write, and the step of the first
  one runs into the live object. (The thread pool's submitr is called by every worker
  whose task completes a latch, so the queue of resolutions has several producers.)
\<close>

theorem two_producers_clash:
  assumes "spsc_ok s xs" "prod_at s = P_idle" "Suc (length xs) < unat (pq_size (shared s))"
  shows "\<exists>s1 s2. spsc_run [Producer a, Producer a] s = Inr s1
    \<and> spsc_run (replicate 4 (Producer b)) (s1\<lparr>prod_at := P_idle\<rparr>) = Inr s2
    \<and> sent s2 = sent s @ [b] \<and> producer_step a (s2\<lparr>prod_at := prod_at s1\<rparr>) = Inl Bad_slot"
proof -
  let ?q = "shared s"
  have rep: "pcq_rep (settled s) xs" using assms(1) by (simp add: spsc_ok_def)
  let ?w = "pq_write ?q" and ?n = "pcq_next ?q (pq_write ?q)"
  have ne: "?n \<noteq> pq_read ?q" using pcq_next_write [OF rep] assms(3) by simp
  have raw: "nth_opt (pq_records ?q) (unat ?w) = Some None"
    using settled_back [OF rep assms(3)] untaken_None(1) by (fastforce simp: assms(2) unfilled_def)
  let ?s1 = "s\<lparr>prod_at := P_room a ?w ?n\<rparr>"
  let ?q2 = "?q\<lparr>pq_records := (pq_records ?q)[unat ?w := Some b], pq_write := ?n\<rparr>"
  let ?s2 = "s\<lparr>shared := ?q2, prod_at := P_idle, sent := sent s @ [b]\<rparr>"
  have "spsc_run [Producer a, Producer a] s = Inr ?s1"
    using ne by (simp add: producer_step_def Let_def assms(2))
  moreover have "spsc_run (replicate 4 (Producer b)) (?s1\<lparr>prod_at := P_idle\<rparr>) = Inr ?s2"
    using ne raw by (simp add: numeral_eq_Suc producer_step_def Let_def slot_construct_def nth_opt_in)
  moreover have "producer_step a (?s2\<lparr>prod_at := prod_at ?s1\<rparr>) = Inl Bad_slot"
    using raw by (simp add: producer_step_def Let_def slot_construct_def nth_opt_in)
  ultimately show ?thesis by (intro exI [of _ ?s1] exI [of _ ?s2]) simp
qed

theorem two_producers_clash_witness:
  "\<exists>q s1 s2. pcq_new 4 True = Inr q \<and> spsc_run [Producer (1::nat), Producer 1] (spsc_start q) = Inr s1
    \<and> spsc_run (replicate 4 (Producer 2)) (s1\<lparr>prod_at := P_idle\<rparr>) = Inr s2
    \<and> producer_step 1 (s2\<lparr>prod_at := prod_at s1\<rparr>) = Inl Bad_slot"
proof -
  obtain q where q: "pcq_new 4 True = Inr q" "pcq_rep q ([] :: nat list)" "cap q = 3"
    using pcq_new_rep [of 4] by auto
  have "prod_at (spsc_start q) = P_idle" "Suc (length []) < unat (pq_size (shared (spsc_start q)))"
    using q(3) by (simp_all add: spsc_start_def cap_def)
  from two_producers_clash [OF spsc_start_ok [OF q(2)] this, of 1 2] q(1) show ?thesis by blast
qed

end
