(* ===== verification/Lifo_Head.thy ===== *)
theory Lifo_Head imports Prelude begin

text \<open>
  The head word of the LIFO semaphore, class LifoSemHead of src/include/folly/LifoSem.h: 32
  bits of data, a bit that says whether the data are the index of a wait node or a value, a bit for
  the shutdown and a sequence number in the 30 bits above. The operations are those of the class, on
  64 bit words; None is a failed assertion. pack puts the four fields together and
  the lemmas of the collection head_simps compute every operation on packed heads, so
  that the theories above never look at a bit.
\<close>

named_theorems head_simps \<open>the head's operations on its fields\<close>

type_synonym head = "64 word"

definition IsNodeIdxMask :: head where
  "IsNodeIdxMask = push_bit 32 1"

definition IsShutdownMask :: head where
  "IsShutdownMask = push_bit 33 1"

definition SeqIncr :: head where
  "SeqIncr = push_bit 34 1"

definition SeqMask :: head where
  "SeqMask = NOT (SeqIncr - 1)"

definition head_data :: "head \<Rightarrow> id32" where
  "head_data h = ucast h"

definition head_isNodeIdx :: "head \<Rightarrow> bool" where
  "head_isNodeIdx h \<longleftrightarrow> h AND IsNodeIdxMask \<noteq> 0"

definition head_isShutdown :: "head \<Rightarrow> bool" where
  "head_isShutdown h \<longleftrightarrow> h AND IsShutdownMask \<noteq> 0"

definition head_seq :: "head \<Rightarrow> id32" where
  "head_seq h = ucast (drop_bit 34 h)"

definition head_idx :: "head \<Rightarrow> id32 option" where
  "head_idx h = (if head_isNodeIdx h \<and> head_data h \<noteq> 0 then Some (head_data h) else None)"

definition head_value :: "head \<Rightarrow> id32 option" where
  "head_value h = (if \<not> head_isNodeIdx h then Some (head_data h) else None)"

definition head_fresh :: "id32 \<Rightarrow> head" where
  "head_fresh v = ucast v"

definition head_withPop :: "head \<Rightarrow> id32 \<Rightarrow> head option" where
  "head_withPop h idxNext = (if \<not> head_isNodeIdx h then None
     else if idxNext = 0 then Some ((h AND (SeqMask OR IsShutdownMask)) + SeqIncr)
     else Some ((h AND (SeqMask OR IsShutdownMask OR IsNodeIdxMask)) + SeqIncr + ucast idxNext))"

definition head_withPush :: "head \<Rightarrow> id32 \<Rightarrow> head option" where
  "head_withPush h i = (if (head_isNodeIdx h \<or> head_value h = Some 0) \<and> \<not> head_isShutdown h \<and> i \<noteq> 0
     then Some ((h AND SeqMask) OR IsNodeIdxMask OR ucast i) else None)"

definition head_withValueIncr :: "head \<Rightarrow> id32 \<Rightarrow> head option" where
  "head_withValueIncr h delta = (if head_isNodeIdx h then None
     else let rv = h + SeqIncr + ucast delta in
       Some (if head_isNodeIdx rv then (rv AND NOT IsNodeIdxMask) OR (IsNodeIdxMask - 1) else rv))"

definition head_withValueDecr :: "head \<Rightarrow> id32 \<Rightarrow> head option" where
  "head_withValueDecr h delta = (case head_value h of
     None \<Rightarrow> None
   | Some v \<Rightarrow> if 0 < delta \<and> delta \<le> v then Some (h + SeqIncr - ucast delta) else None)"

definition head_withShutdown :: "head \<Rightarrow> head" where
  "head_withShutdown h = h OR IsShutdownMask"

subsection \<open>The fields of a head\<close>

definition flag :: "bool \<Rightarrow> head" where
  "flag b = (if b then 1 else 0)"

definition pack :: "30 word \<Rightarrow> bool \<Rightarrow> bool \<Rightarrow> id32 \<Rightarrow> head" where
  "pack q s n d = push_bit 34 (ucast q) OR push_bit 33 (flag s) OR push_bit 32 (flag n) OR ucast d"

lemma bit_flag [simp]: "bit (flag b) i \<longleftrightarrow> b \<and> i = 0"
  by (simp add: flag_def bit_1_iff)

lemma bit_pack: "bit (pack q s n d) i \<longleftrightarrow>
    (if i < 32 then bit d i else if i = 32 then n else if i = 33 then s else bit q (i - 34))"
  using bit_imp_le_length [of q "i - 34"] bit_imp_le_length [of d i]
  by (auto simp: pack_def bit_or_iff bit_push_bit_iff bit_ucast_iff)

lemma bit_masks:
  "bit IsNodeIdxMask i \<longleftrightarrow> i = 32" "bit IsShutdownMask i \<longleftrightarrow> i = 33"
  "bit SeqMask i \<longleftrightarrow> 34 \<le> i \<and> i < 64" "bit (IsNodeIdxMask - 1) i \<longleftrightarrow> i < 32"
proof -
  have m: "SeqMask = NOT (mask 34)" "IsNodeIdxMask - 1 = mask 32"
    by (simp_all add: SeqMask_def SeqIncr_def IsNodeIdxMask_def mask_eq_exp_minus_1)
  show "bit SeqMask i \<longleftrightarrow> 34 \<le> i \<and> i < 64" "bit (IsNodeIdxMask - 1) i \<longleftrightarrow> i < 32"
    unfolding m by (auto simp: bit_not_iff bit_mask_iff)
  have "bit (push_bit k 1 :: head) i \<longleftrightarrow> i = k \<and> k < 64" for k
    by (simp only: push_bit_of_1 bit_exp_iff) auto
  then show "bit IsNodeIdxMask i \<longleftrightarrow> i = 32" "bit IsShutdownMask i \<longleftrightarrow> i = 33"
    unfolding IsNodeIdxMask_def IsShutdownMask_def by (simp_all only:) auto
qed

lemma mask_nonzero: "(h :: head) AND push_bit k 1 \<noteq> 0 \<longleftrightarrow> bit h k"
  by (auto simp: bit_iff_and_push_bit_not_eq_0)

lemma pack_getters [head_simps, simp]:
  "head_isNodeIdx (pack q s n d) = n"
  "head_isShutdown (pack q s n d) = s"
  "head_data (pack q s n d) = d"
  "head_seq (pack q s n d) = ucast q"
proof -
  show "head_isNodeIdx (pack q s n d) = n" "head_isShutdown (pack q s n d) = s"
    by (simp_all only: head_isNodeIdx_def head_isShutdown_def IsNodeIdxMask_def IsShutdownMask_def
        mask_nonzero bit_pack) simp_all
  show "head_data (pack q s n d) = d"
    by (rule bit_word_eqI) (simp add: head_data_def bit_ucast_iff bit_pack)
  show "head_seq (pack q s n d) = ucast q"
    by (rule bit_word_eqI) (auto simp: head_seq_def bit_ucast_iff bit_drop_bit_eq bit_pack
        dest: bit_imp_le_length)
qed

lemma pack_inject [simp]: "pack q s n d = pack q' s' n' d' \<longleftrightarrow> q = q' \<and> s = s' \<and> n = n' \<and> d = d'"
proof
  assume eq: "pack q s n d = pack q' s' n' d'"
  then have "bit q j = bit q' j" for j
    using bit_pack [of q s n d "j + 34"] bit_pack [of q' s' n' d' "j + 34"] by simp
  then have "q = q'" by (simp add: bit_word_eqI)
  moreover have "s = s'" "n = n'" "d = d'" using eq by (metis pack_getters)+
  ultimately show "q = q' \<and> s = s' \<and> n = n' \<and> d = d'" by blast
qed simp

lemma pack_all: "\<exists>q s n d. h = pack q s n d"
proof (intro exI bit_word_eqI)
  fix i assume "i < LENGTH(64)"
  then show "bit h i \<longleftrightarrow> bit (pack (ucast (drop_bit 34 h)) (bit h 33) (bit h 32) (ucast h)) i"
    by (auto simp: bit_pack bit_ucast_iff bit_drop_bit_eq)
qed

subsection \<open>The operations on fields\<close>

lemma pack_plus: "pack q s n d = push_bit 34 (ucast q) + push_bit 33 (flag s) + push_bit 32 (flag n) + ucast d"
proof -
  have 1: "push_bit 34 (ucast q) + push_bit 33 (flag s) = push_bit 34 (ucast q) OR push_bit 33 (flag s)"
    by (rule disjunctive_add) (auto simp: bit_push_bit_iff)
  have 2: "(push_bit 34 (ucast q) OR push_bit 33 (flag s)) + push_bit 32 (flag n)
      = push_bit 34 (ucast q) OR push_bit 33 (flag s) OR push_bit 32 (flag n)"
    unfolding or.assoc [symmetric]
    by (rule disjunctive_add) (auto simp: bit_or_iff bit_push_bit_iff)
  have 3: "(push_bit 34 (ucast q) OR push_bit 33 (flag s) OR push_bit 32 (flag n)) + ucast d
      = push_bit 34 (ucast q) OR push_bit 33 (flag s) OR push_bit 32 (flag n) OR ucast d"
    unfolding or.assoc [symmetric]
    by (rule disjunctive_add)
      (auto simp: bit_or_iff bit_push_bit_iff bit_ucast_iff dest: bit_imp_le_length)
  show ?thesis by (simp only: pack_def 1 2 3)
qed

lemma seq_incr: "push_bit 34 (ucast (q :: 30 word)) + SeqIncr = push_bit 34 (ucast (q + 1))"
proof -
  have "push_bit 34 (ucast q + 1 :: head) = push_bit 34 (ucast (q + 1))"
  proof (rule bit_word_eqI)
    fix i assume "i < LENGTH(64)"
    then have "i - 34 < 30" by simp
    have small: "unat q < 1073741824" using unsigned_less [of q, where ?'a = nat] by simp
    have "take_bit 30 (ucast q + 1 :: head) = ucast (q + 1)"
      by (rule word_unat_eq_iff [THEN iffD2])
        (simp add: unsigned_take_bit_eq unsigned_ucast_eq unat_word_ariths take_bit_eq_mod mod_mod_cancel
          mod_less [OF order.strict_trans [OF small]])
    then show "bit (push_bit 34 (ucast q + 1 :: head)) i = bit (push_bit 34 (ucast (q + 1) :: head)) i"
      using \<open>i - 34 < 30\<close> by (metis bit_push_bit_iff bit_take_bit_iff)
  qed
  then show ?thesis by (simp only: SeqIncr_def push_bit_add [symmetric])
qed

lemma pack_SeqIncr: "pack q s n d + SeqIncr = pack (q + 1) s n d"
proof -
  have "a + b + c + e + x = a + x + b + c + e" for a b c e x :: head by (simp only: ac_simps)
  then show ?thesis unfolding pack_plus seq_incr [symmetric] by blast
qed

lemma pack_data: "pack q s n 0 + ucast d = pack q s n d"
  unfolding pack_plus by simp

lemma ucast_of_nat: "(ucast (x :: id32) :: head) = word_of_nat (unat x)"
  by (simp add: word_unat_eq_iff)

lemma ucast_sum:
  "(ucast (d :: id32) :: head) + ucast k = push_bit 32 (flag (\<not> d \<le> d + k)) + ucast (d + k)"
proof (cases "d \<le> d + k")
  case True
  then have "unat (d + k) = unat d + unat k" by (simp add: unat_plus_simple)
  then have "word_of_nat (unat (d + k)) = (word_of_nat (unat d) + word_of_nat (unat k) :: head)"
    by (simp only: of_nat_add)
  then show ?thesis unfolding ucast_of_nat using True by (simp only:) (simp add: flag_def)
next
  case False
  then have lt: "unat (d + k) < unat d" unfolding word_le_nat_alt by simp
  note sum = unat_plus_if' [of d k]
  have "\<not> unat d + unat k < 2 ^ LENGTH(32)"
  proof
    assume "unat d + unat k < 2 ^ LENGTH(32)"
    with sum have "unat (d + k) = unat d + unat k" by (simp only: if_True)
    with lt show False by linarith
  qed
  with sum have "unat (d + k) = unat d + unat k - 2 ^ LENGTH(32)" "2 ^ LENGTH(32) \<le> unat d + unat k"
    by (simp_all only: if_False not_less)
  then have "unat (d + k) + 2 ^ 32 = unat d + unat k" by simp
  then have "word_of_nat (unat (d + k)) + (2 :: head) ^ 32 = word_of_nat (unat d) + word_of_nat (unat k)"
    by (metis of_nat_add of_nat_numeral of_nat_power)
  moreover have "push_bit 32 (flag (\<not> d \<le> d + k)) = 2 ^ 32" using False by (simp add: flag_def)
  ultimately show ?thesis unfolding ucast_of_nat by (simp only: add.commute)
qed

lemma head_fresh_pack [head_simps]: "head_fresh v = pack 0 False False v"
  by (simp add: head_fresh_def pack_def flag_def)

lemma head_withShutdown_pack [head_simps, simp]: "head_withShutdown (pack q s n d) = pack q True n d"
  by (rule bit_word_eqI) (auto simp: head_withShutdown_def bit_or_iff bit_masks bit_pack)

lemma head_withPop_pack [head_simps, simp]:
  "head_withPop (pack q s n d) i = (if n then Some (pack (q + 1) s (i \<noteq> 0) i) else None)"
proof -
  have "pack q s n d AND (SeqMask OR IsShutdownMask) = pack q s False 0"
    "pack q s True d AND (SeqMask OR IsShutdownMask OR IsNodeIdxMask) = pack q s True 0" for n
    by (rule bit_word_eqI; auto simp: bit_and_iff bit_or_iff bit_masks bit_pack)+
  then show ?thesis by (cases n) (simp_all add: head_withPop_def pack_SeqIncr pack_data)
qed

lemma head_withPush_pack [head_simps, simp]:
  "head_withPush (pack q s n d) i
     = (if (n \<or> d = 0) \<and> \<not> s \<and> i \<noteq> 0 then Some (pack q False True i) else None)"
proof -
  have "(pack q s n d AND SeqMask) OR IsNodeIdxMask OR ucast i = pack q False True i"
    by (rule bit_word_eqI)
      (auto simp: bit_and_iff bit_or_iff bit_masks bit_pack bit_ucast_iff dest: bit_imp_le_length)
  then show ?thesis by (auto simp: head_withPush_def head_value_def)
qed

lemma head_withValueIncr_pack [head_simps, simp]:
  "head_withValueIncr (pack q s n d) k = (if n then None
     else Some (pack (q + 1) s False (if d \<le> d + k then d + k else - 1)))"
proof (cases n)
  case False
  have split: "pack (q + 1) s False d + ucast k = pack (q + 1) s (\<not> d \<le> d + k) (d + k)"
  proof -
    have "a + b + push_bit 32 (flag False) + ucast d + ucast k
        = a + b + push_bit 32 (flag (\<not> d \<le> d + k)) + ucast (d + k)" for a b :: head
      unfolding add.assoc ucast_sum by (simp add: flag_def)
    then show ?thesis unfolding pack_plus .
  qed
  have max: "(pack q s True d AND NOT IsNodeIdxMask) OR (IsNodeIdxMask - 1) = pack q s False (- 1)" for q d
    by (rule bit_word_eqI)
      (auto simp: bit_and_iff bit_or_iff bit_not_iff bit_masks bit_pack)
  show ?thesis using False
    by (simp add: head_withValueIncr_def Let_def pack_SeqIncr split max)
qed (simp add: head_withValueIncr_def)

lemma head_withValueDecr_pack [head_simps, simp]:
  "head_withValueDecr (pack q s n d) k
     = (if \<not> n \<and> 0 < k \<and> k \<le> d then Some (pack (q + 1) s False (d - k)) else None)"
proof -
  have "ucast d - ucast k = (ucast (d - k) :: head)" if "k \<le> d"
  proof -
    have "d - k \<le> d - k + k" using word_sub_le [OF that] by simp
    then have "ucast (d - k) + ucast k = (ucast d :: head)"
      using ucast_sum [of "d - k" k] by (simp add: flag_def)
    then show ?thesis by (simp add: eq_diff_eq [symmetric])
  qed
  then have "pack q s False d - ucast k = pack q s False (d - k)" if "k \<le> d" for q
    using that by (simp add: pack_plus)
  then show ?thesis
    by (cases n) (simp_all add: head_withValueDecr_def head_value_def pack_SeqIncr)
qed

text \<open>Every head is packed, so the operations are known on all heads.\<close>

lemma head_cases:
  obtains (Val) q s d where "h = pack q s False d" | (Node) q s d where "h = pack q s True d"
  using pack_all [of h] by (metis (full_types))

end
