(* ===== verification/Baton.thy ===== *)
theory Baton imports Prelude begin

text \<open>
  The one-shot handoff of src/include/folly/Baton.h on which every waiter of the semaphore blocks: a
  poster and a waiter, interleaved one access to the state word at a time. A failed assertion is a
  program point of its own (Po_failed, Wa_failed). The futex is the operating
  system's: a wait goes to sleep if the word is still WAITING at that moment, and a sleeper
  is woken by the wake, by a signal at any time, or by the deadline of a timed wait.
\<close>

datatype baton_state = INIT | EARLY_DELIVERY | WAITING | LATE_DELIVERY | TIMED_OUT

definition PreBlockAttempts :: nat where
  "PreBlockAttempts = 300"

text \<open>The calls made alone, without a thread in between; None is a failed assertion.\<close>

definition baton_reset :: "baton_state \<Rightarrow> baton_state option" where
  "baton_reset b = (if b \<noteq> WAITING then Some INIT else None)"

definition baton_post :: "baton_state \<Rightarrow> baton_state option" where
  "baton_post b = (let before = b in
     if before \<noteq> INIT \<and> before \<noteq> WAITING \<and> before \<noteq> TIMED_OUT then None
     else if before = INIT then Some EARLY_DELIVERY
     else if before = TIMED_OUT then Some b
     else Some LATE_DELIVERY)"

definition baton_try_wait :: "baton_state \<Rightarrow> bool option" where
  "baton_try_wait b = (if b = INIT \<or> b = EARLY_DELIVERY then Some (b = EARLY_DELIVERY) else None)"

subsection \<open>A poster and a waiter\<close>

datatype poster = Po_start | Po_loaded baton_state | Po_swapped baton_state | Po_wake | Po_done
  | Po_failed
datatype waiter = Wa_spin nat | Wa_swap | Wa_futex | Wa_asleep | Wa_check | Wa_expired
  | Wa_returned bool | Wa_failed

record baton_sys =
  b_state :: baton_state
  b_poster :: poster
  b_waiter :: waiter

definition baton_start :: baton_sys where
  "baton_start = \<lparr>b_state = INIT, b_poster = Po_start, b_waiter = Wa_spin PreBlockAttempts\<rparr>"

text \<open>
  post: the load, the compare-and-swap (which leaves the state it found in
  before), the store and the wake.
\<close>

inductive post_step :: "baton_sys \<Rightarrow> baton_sys \<Rightarrow> bool" where
  post_load: "b_poster s = Po_start \<Longrightarrow> b_state s \<in> {INIT, WAITING, TIMED_OUT} \<Longrightarrow>
     post_step s (s\<lparr>b_poster := Po_loaded (b_state s)\<rparr>)"
| post_load_fails: "b_poster s = Po_start \<Longrightarrow> b_state s \<notin> {INIT, WAITING, TIMED_OUT} \<Longrightarrow>
     post_step s (s\<lparr>b_poster := Po_failed\<rparr>)"
| post_cas: "b_poster s = Po_loaded INIT \<Longrightarrow> b_state s = INIT \<Longrightarrow>
     post_step s (s\<lparr>b_state := EARLY_DELIVERY, b_poster := Po_done\<rparr>)"
| post_cas_lost: "b_poster s = Po_loaded INIT \<Longrightarrow> b_state s \<noteq> INIT \<Longrightarrow>
     post_step s (s\<lparr>b_poster := Po_swapped (b_state s)\<rparr>)"
| post_no_cas: "b_poster s = Po_loaded b \<Longrightarrow> b \<noteq> INIT \<Longrightarrow>
     post_step s (s\<lparr>b_poster := Po_swapped b\<rparr>)"
| post_late_fails: "b_poster s = Po_swapped b \<Longrightarrow> b \<notin> {WAITING, TIMED_OUT} \<Longrightarrow>
     post_step s (s\<lparr>b_poster := Po_failed\<rparr>)"
| post_timed_out: "b_poster s = Po_swapped TIMED_OUT \<Longrightarrow>
     post_step s (s\<lparr>b_poster := Po_done\<rparr>)"
| post_late: "b_poster s = Po_swapped WAITING \<Longrightarrow>
     post_step s (s\<lparr>b_state := LATE_DELIVERY, b_poster := Po_wake\<rparr>)"
| post_wake: "b_poster s = Po_wake \<Longrightarrow>
     post_step s (s\<lparr>b_poster := Po_done,
       b_waiter := if b_waiter s = Wa_asleep then Wa_check else b_waiter s\<rparr>)"

text \<open>wait, and timed_wait if timed holds.\<close>

inductive wait_step :: "bool \<Rightarrow> baton_sys \<Rightarrow> baton_sys \<Rightarrow> bool" for timed :: bool where
  spin_fails: "b_waiter s = Wa_spin (Suc k) \<Longrightarrow> baton_try_wait (b_state s) = None \<Longrightarrow>
     wait_step timed s (s\<lparr>b_waiter := Wa_failed\<rparr>)"
| spin_early: "b_waiter s = Wa_spin (Suc k) \<Longrightarrow> baton_try_wait (b_state s) = Some True \<Longrightarrow>
     wait_step timed s (s\<lparr>b_waiter := Wa_returned True\<rparr>)"
| spin_on: "b_waiter s = Wa_spin (Suc k) \<Longrightarrow> baton_try_wait (b_state s) = Some False \<Longrightarrow>
     wait_step timed s (s\<lparr>b_waiter := Wa_spin k\<rparr>)"
| spin_over: "b_waiter s = Wa_spin 0 \<Longrightarrow> wait_step timed s (s\<lparr>b_waiter := Wa_swap\<rparr>)"
| wait_cas: "b_waiter s = Wa_swap \<Longrightarrow> b_state s = INIT \<Longrightarrow>
     wait_step timed s (s\<lparr>b_state := WAITING, b_waiter := Wa_futex\<rparr>)"
| wait_cas_lost: "b_waiter s = Wa_swap \<Longrightarrow> b_state s = EARLY_DELIVERY \<Longrightarrow>
     wait_step timed s (s\<lparr>b_waiter := Wa_returned True\<rparr>)"
| wait_cas_fails: "b_waiter s = Wa_swap \<Longrightarrow> b_state s \<notin> {INIT, EARLY_DELIVERY} \<Longrightarrow>
     wait_step timed s (s\<lparr>b_waiter := Wa_failed\<rparr>)"
| futex_sleep: "b_waiter s = Wa_futex \<Longrightarrow> b_state s = WAITING \<Longrightarrow>
     wait_step timed s (s\<lparr>b_waiter := Wa_asleep\<rparr>)"
| futex_again: "b_waiter s = Wa_futex \<Longrightarrow> b_state s \<noteq> WAITING \<Longrightarrow>
     wait_step timed s (s\<lparr>b_waiter := Wa_check\<rparr>)"
| futex_signal: "b_waiter s = Wa_asleep \<Longrightarrow>
     wait_step timed s (s\<lparr>b_waiter := Wa_check\<rparr>)"
| futex_deadline: "timed \<Longrightarrow> b_waiter s = Wa_asleep \<Longrightarrow>
     wait_step timed s (s\<lparr>b_waiter := Wa_expired\<rparr>)"
| wait_expired: "b_waiter s = Wa_expired \<Longrightarrow>
     wait_step timed s (s\<lparr>b_state := TIMED_OUT, b_waiter := Wa_returned False\<rparr>)"
| check_late: "b_waiter s = Wa_check \<Longrightarrow> b_state s = LATE_DELIVERY \<Longrightarrow>
     wait_step timed s (s\<lparr>b_waiter := Wa_returned True\<rparr>)"
| check_again: "b_waiter s = Wa_check \<Longrightarrow> b_state s = WAITING \<Longrightarrow>
     wait_step timed s (s\<lparr>b_waiter := Wa_futex\<rparr>)"
| check_fails: "b_waiter s = Wa_check \<Longrightarrow> b_state s \<notin> {WAITING, LATE_DELIVERY} \<Longrightarrow>
     wait_step timed s (s\<lparr>b_waiter := Wa_failed\<rparr>)"

inductive baton_run :: "bool \<Rightarrow> baton_sys \<Rightarrow> bool" for timed :: bool where
  run_start: "baton_run timed baton_start"
| run_post: "baton_run timed s \<Longrightarrow> post_step s s' \<Longrightarrow> baton_run timed s'"
| run_wait: "baton_run timed s \<Longrightarrow> wait_step timed s s' \<Longrightarrow> baton_run timed s'"

inductive_cases post_stepE: "post_step s s'"
inductive_cases wait_stepE: "wait_step timed s s'"

text \<open>
  The invariant relates the state word to the program points: who has written it last, and what the
  poster can still find in it.
\<close>

definition awake :: "waiter \<Rightarrow> bool" where
  "awake w \<longleftrightarrow> w \<in> {Wa_swap, Wa_returned True} \<or> (\<exists>k. w = Wa_spin k)"

definition blocked :: "waiter \<Rightarrow> bool" where
  "blocked w \<longleftrightarrow> w \<in> {Wa_futex, Wa_asleep, Wa_check}"

definition baton_inv :: "bool \<Rightarrow> baton_sys \<Rightarrow> bool" where
  "baton_inv timed s = (let w = b_waiter s; p = b_poster s in w \<noteq> Wa_failed \<and> p \<noteq> Po_failed
     \<and> (w = Wa_expired \<or> w = Wa_returned False \<longrightarrow> timed)
     \<and> (case b_state s of
          INIT \<Rightarrow> awake w \<and> w \<noteq> Wa_returned True \<and> p \<in> {Po_start, Po_loaded INIT}
        | EARLY_DELIVERY \<Rightarrow> awake w \<and> p = Po_done
        | WAITING \<Rightarrow> (blocked w \<or> w = Wa_expired)
            \<and> p \<in> {Po_start, Po_loaded INIT, Po_loaded WAITING, Po_swapped WAITING}
        | LATE_DELIVERY \<Rightarrow> (blocked w \<or> w = Wa_expired \<or> w = Wa_returned True \<or> w = Wa_returned False)
            \<and> p \<in> {Po_wake, Po_done} \<and> (w = Wa_asleep \<longrightarrow> p = Po_wake)
        | TIMED_OUT \<Rightarrow> w = Wa_returned False \<and> p \<in> {Po_start, Po_loaded INIT, Po_loaded WAITING,
            Po_loaded TIMED_OUT, Po_swapped WAITING, Po_swapped TIMED_OUT, Po_wake, Po_done}))"

lemma baton_inv_start: "baton_inv timed baton_start"
  by (simp add: baton_inv_def baton_start_def awake_def)

lemma baton_inv_post:
  assumes "baton_inv timed s" "post_step s s'" shows "baton_inv timed s'"
  using assms(2,1)
  by (cases rule: post_step.cases)
    (auto simp: baton_inv_def Let_def awake_def blocked_def split: baton_state.splits)

lemma baton_inv_wait:
  assumes "baton_inv timed s" "wait_step timed s s'" shows "baton_inv timed s'"
  using assms(2,1)
  by (cases rule: wait_step.cases)
    (auto simp: baton_inv_def Let_def awake_def blocked_def baton_try_wait_def
      split: baton_state.splits if_splits)

lemma baton_run_inv: "baton_run timed s \<Longrightarrow> baton_inv timed s"
  by (induction rule: baton_run.induct) (auto intro: baton_inv_start baton_inv_post baton_inv_wait)

subsection \<open>What the handoff guarantees\<close>

text \<open>The steps a waiter has left once the post has returned.\<close>

definition wait_left :: "waiter \<Rightarrow> nat" where
  "wait_left w = (case w of Wa_returned _ \<Rightarrow> 0 | Wa_spin _ \<Rightarrow> 2 | Wa_futex \<Rightarrow> 2 | _ \<Rightarrow> 1)"

text \<open>C33. However post and wait (or a timed wait) interleave, no assertion of Baton.h fails, neither the
  ones on the state found nor the destructor's once the waiter has returned; and a wait that
  reports a delivery has been posted: the poster is past its last write to the state.
\<close>

theorem baton_safe:
  assumes "baton_run timed s"
  shows "b_waiter s \<noteq> Wa_failed \<and> b_poster s \<noteq> Po_failed
    \<and> (b_waiter s = Wa_returned True \<longrightarrow> b_poster s \<in> {Po_wake, Po_done} \<and> baton_reset (b_state s) = Some INIT)
    \<and> (b_waiter s = Wa_returned False \<longrightarrow> timed \<and> baton_reset (b_state s) = Some INIT)"
  using baton_run_inv [OF assms]
  by (auto simp: baton_inv_def Let_def awake_def blocked_def baton_reset_def split: baton_state.splits)

lemma blocked_run:
  "\<exists>s. baton_run timed s \<and> s = \<lparr>b_state = WAITING, b_poster = Po_start, b_waiter = Wa_futex\<rparr>"
proof -
  have spin: "baton_run timed \<lparr>b_state = INIT, b_poster = Po_start, b_waiter = Wa_spin (300 - k)\<rparr>" for k
  proof (induction k)
    case 0
    show ?case using run_start by (simp add: baton_start_def PreBlockAttempts_def)
  next
    case (Suc k)
    show ?case
    proof (cases "300 - k")
      case (Suc j)
      then have "300 - Suc k = j" by simp
      with run_wait [OF Suc.IH spin_on [of _ j]] Suc show ?thesis by (simp add: baton_try_wait_def)
    qed (use Suc.IH in simp)
  qed
  have "baton_run timed \<lparr>b_state = INIT, b_poster = Po_start, b_waiter = Wa_swap\<rparr>"
    using run_wait [OF spin [of 300] spin_over] by simp
  from run_wait [OF this wait_cas] show ?thesis by simp
qed

theorem baton_safe_witness:
  "\<exists>s. baton_run False s \<and> b_waiter s = Wa_returned True \<and> b_poster s \<in> {Po_wake, Po_done}"
proof -
  let ?b = "\<lambda>st p w. \<lparr>b_state = st, b_poster = p, b_waiter = w\<rparr>"
  have 1: "baton_run False (?b WAITING (Po_loaded WAITING) Wa_futex)"
    using blocked_run [of False] run_post [OF _ post_load] by fastforce
  have 2: "baton_run False (?b WAITING (Po_swapped WAITING) Wa_futex)"
    using run_post [OF 1 post_no_cas [of _ WAITING]] by simp
  have 3: "baton_run False (?b LATE_DELIVERY Po_wake Wa_futex)"
    using run_post [OF 2 post_late] by simp
  have 4: "baton_run False (?b LATE_DELIVERY Po_wake Wa_check)"
    using run_wait [OF 3 futex_again] by simp
  have 5: "baton_run False (?b LATE_DELIVERY Po_wake (Wa_returned True))"
    using run_wait [OF 4 check_late] by simp
  have "b_poster (?b LATE_DELIVERY Po_wake (Wa_returned True)) \<in> {Po_wake, Po_done}"
    using baton_safe [OF 5] by simp
  then show ?thesis using 5 by (metis baton_sys.select_convs(3))
qed

text \<open>C32. No wake-up is lost: once the post has returned, an untimed waiter is not asleep; it can step
  until it has returned, and it returns within two steps of its own, whatever they are.
\<close>

theorem baton_no_lost_wakeup:
  assumes "baton_run False s" "b_poster s = Po_done"
  shows "(b_waiter s = Wa_returned True \<or> (\<exists>s'. wait_step False s s'))
    \<and> (\<forall>n s'. (wait_step False ^^ n) s s' \<longrightarrow> n \<le> 2)"
proof -
  have inv: "baton_inv False s" using baton_run_inv [OF assms(1)] .
  have step: "wait_left (b_waiter s') < wait_left (b_waiter s) \<and> b_poster s' = Po_done"
    if "wait_step False s s'" "baton_inv False s" "b_poster s = Po_done" for s s'
    using that by (cases rule: wait_step.cases)
      (auto simp: baton_inv_def Let_def awake_def blocked_def baton_try_wait_def wait_left_def
        split: baton_state.splits if_splits)
  have runs: "n + wait_left (b_waiter s') \<le> wait_left (b_waiter s) \<and> baton_inv False s' \<and> b_poster s' = Po_done"
    if "(wait_step False ^^ n) s s'" for n s'
    using that
  proof (induction n arbitrary: s')
    case 0
    then show ?case using inv assms(2) by simp
  next
    case (Suc n)
    then obtain s1 where s1: "(wait_step False ^^ n) s s1" "wait_step False s1 s'" by auto
    show ?case using Suc.IH [OF s1(1)] step [OF s1(2)] baton_inv_wait [OF _ s1(2)] by simp
  qed
  have "wait_left w \<le> 2" for w by (simp add: wait_left_def split: waiter.split)
  then have "n \<le> 2" if "(wait_step False ^^ n) s s'" for n s'
    using runs [OF that] by (metis add_leD1 order_trans)
  moreover have "b_waiter s = Wa_returned True \<or> (\<exists>s'. wait_step False s s')"
  proof (cases "b_waiter s")
    case (Wa_spin k)
    then show ?thesis using inv assms(2) spin_early [of s _ False] spin_over [of s False]
      by (cases k) (auto simp: baton_inv_def Let_def baton_try_wait_def blocked_def split: baton_state.splits)
  next
    case Wa_swap
    then show ?thesis using wait_cas_fails wait_cas_lost wait_cas by blast
  next
    case Wa_futex
    then show ?thesis using futex_sleep futex_again by blast
  next
    case Wa_check
    then show ?thesis using check_late check_again check_fails by blast
  qed (use inv futex_signal wait_expired in
      \<open>auto simp: baton_inv_def Let_def awake_def blocked_def split: baton_state.splits\<close>)
  ultimately show ?thesis by blast
qed

theorem baton_no_lost_wakeup_witness:
  "\<exists>s. b_poster s = Po_done \<and> (b_waiter s = Wa_returned True \<or> (\<exists>s'. wait_step False s s'))
    \<and> (\<forall>n s'. (wait_step False ^^ n) s s' \<longrightarrow> n \<le> 2)"
proof -
  have "baton_run False (baton_start\<lparr>b_poster := Po_loaded INIT\<rparr>)"
    using run_post [OF run_start post_load [of baton_start]] by (simp add: baton_start_def)
  from run_post [OF this post_cas]
  have "baton_run False (baton_start\<lparr>b_state := EARLY_DELIVERY, b_poster := Po_done\<rparr>)"
    by (simp add: baton_start_def)
  from baton_no_lost_wakeup [OF this] show ?thesis
    by (intro exI [of _ "baton_start\<lparr>b_state := EARLY_DELIVERY, b_poster := Po_done\<rparr>"]) simp
qed

end
