(* ===== verification/Lifo_Sem.thy ===== *)
theory Lifo_Sem imports Lifo_Head Baton begin

text \<open>
  The LIFO semaphore of src/include/folly/LifoSem.h, class LifoSemBase: the head word and
  the wait nodes of the pool that are allocated, each with the index of the next node and the
  baton of its waiter. Each operation is the turn of its loop in which the compare-and-swap
  succeeds (a failed one changes nothing and is retried; theory Lifo_Aba is about what the
  successful one knows); None is a failed assertion or an index without a node. A call of
  wait that blocks is two operations, up to the baton's wait and from there.
\<close>

record lnode =
  nd_next :: id32
  nd_baton :: baton_state

record lsem =
  ls_head :: head
  ls_nodes :: "id32 \<rightharpoonup> lnode"

definition node_isShutdownNotice :: "lnode \<Rightarrow> bool" where
  "node_isShutdownNotice nd \<longleftrightarrow> nd_next nd = - 1"

definition node_clearShutdownNotice :: "lnode \<Rightarrow> lnode" where
  "node_clearShutdownNotice nd = nd\<lparr>nd_next := 0\<rparr>"

definition node_setShutdownNotice :: "lnode \<Rightarrow> lnode" where
  "node_setShutdownNotice nd = nd\<lparr>nd_next := - 1\<rparr>"

definition sem_new :: "id32 \<Rightarrow> lsem" where
  "sem_new v = \<lparr>ls_head = head_fresh v, ls_nodes = Map.empty\<rparr>"

text \<open>idxToNode(idx).handoff().post()\<close>

definition handoff_post :: "id32 \<Rightarrow> lsem \<Rightarrow> lsem option" where
  "handoff_post i s = do {
     nd \<leftarrow> ls_nodes s i;
     b \<leftarrow> baton_post (nd_baton nd);
     Some (s\<lparr>ls_nodes := (ls_nodes s)(i \<mapsto> nd\<lparr>nd_baton := b\<rparr>)\<rparr>) }"

definition incrOrPop :: "id32 \<Rightarrow> lsem \<Rightarrow> (id32 \<times> lsem) option" where
  "incrOrPop n s = (if n = 0 then None else
     if head_isNodeIdx (ls_head s) then do {
       i \<leftarrow> head_idx (ls_head s);
       nd \<leftarrow> ls_nodes s i;
       h \<leftarrow> head_withPop (ls_head s) (nd_next nd);
       Some (i, s\<lparr>ls_head := h\<rparr>) }
     else do {
       after \<leftarrow> head_withValueIncr (ls_head s) n;
       Some (0, s\<lparr>ls_head := after\<rparr>) })"

definition sem_post :: "lsem \<Rightarrow> lsem option" where
  "sem_post s = do {
     (i, s) \<leftarrow> incrOrPop 1 s;
     if i \<noteq> 0 then handoff_post i s else Some s }"

function sem_post_n :: "id32 \<Rightarrow> lsem \<Rightarrow> lsem option" where
  "sem_post_n n s = (if n > 0 then
     (case incrOrPop n s of
        None \<Rightarrow> None
      | Some (i, s) \<Rightarrow> if i \<noteq> 0 then
          (case handoff_post i s of None \<Rightarrow> None | Some s \<Rightarrow> sem_post_n (n - 1) s)
        else Some s)
     else Some s)"
  by auto
termination
  by (relation "measure (\<lambda>(n, s). unat n)") (auto simp: unat_minus_one unat_gt_0 intro!: diff_less)

declare sem_post_n.simps [simp del]

definition sem_isShutdown :: "lsem \<Rightarrow> bool" where
  "sem_isShutdown s = head_isShutdown (ls_head s)"

partial_function (option) shutdown_wake :: "lsem \<Rightarrow> lsem option" where
  "shutdown_wake s = (if head_isNodeIdx (ls_head s) then do {
       i \<leftarrow> head_idx (ls_head s);
       nd \<leftarrow> ls_nodes s i;
       repl \<leftarrow> head_withPop (ls_head s) (nd_next nd);
       s \<leftarrow> handoff_post i (s\<lparr>ls_head := repl, ls_nodes := (ls_nodes s)(i \<mapsto> node_setShutdownNotice nd)\<rparr>);
       shutdown_wake s }
     else Some s)"

declare shutdown_wake.simps [code]

definition sem_shutdown :: "lsem \<Rightarrow> lsem option" where
  "sem_shutdown s = shutdown_wake
     (if head_isShutdown (ls_head s) then s else s\<lparr>ls_head := head_withShutdown (ls_head s)\<rparr>)"

datatype wait_result = PUSH | DECR | SHUTDOWN

definition decrOrPush :: "id32 \<Rightarrow> id32 \<Rightarrow> lsem \<Rightarrow> (wait_result \<times> id32 \<times> lsem) option" where
  "decrOrPush n i s = (if n = 0 then None else
     if \<not> head_isNodeIdx (ls_head s) \<and> head_data (ls_head s) > 0 then do {
       v \<leftarrow> head_value (ls_head s);
       let delta = min n v;
       h \<leftarrow> head_withValueDecr (ls_head s) delta;
       Some (DECR, n - delta, s\<lparr>ls_head := h\<rparr>) }
     else if i = 0 then Some (PUSH, n, s)
     else if head_isShutdown (ls_head s) then Some (SHUTDOWN, n, s)
     else do {
       nd \<leftarrow> ls_nodes s i;
       next \<leftarrow> if head_isNodeIdx (ls_head s) then head_idx (ls_head s) else Some 0;
       h \<leftarrow> head_withPush (ls_head s) i;
       Some (PUSH, n, s\<lparr>ls_head := h, ls_nodes := (ls_nodes s)(i \<mapsto> nd\<lparr>nd_next := next\<rparr>)\<rparr>) })"

definition sem_tryWait :: "lsem \<Rightarrow> (bool \<times> lsem) option" where
  "sem_tryWait s = do {
     (rv, n, s) \<leftarrow> decrOrPush 1 0 s;
     if (rv = DECR \<and> n = 0) \<or> (rv \<noteq> DECR \<and> n = 1) then Some (rv = DECR, s) else None }"

function tryWait_loop :: "id32 \<Rightarrow> lsem \<Rightarrow> (id32 \<times> lsem) option" where
  "tryWait_loop n s = (if n > 0 then
     (case decrOrPush n 0 s of
        None \<Rightarrow> None
      | Some (rv, n', s') \<Rightarrow>
          if (rv = DECR \<and> n' < n) \<or> (rv \<noteq> DECR \<and> n' = n) then
            (if rv \<noteq> DECR then Some (n', s') else tryWait_loop n' s')
          else None)
     else Some (n, s))"
  by auto
termination
  by (relation "measure (\<lambda>(n, s). unat n)") (auto simp: word_less_nat_alt)

declare tryWait_loop.simps [simp del]

definition sem_tryWait_n :: "id32 \<Rightarrow> lsem \<Rightarrow> (id32 \<times> lsem) option" where
  "sem_tryWait_n n s = do {
     let orig = n;
     (n, s) \<leftarrow> tryWait_loop n s;
     Some (orig - n, s) }"

definition sem_tryWaitOrPush :: "id32 \<Rightarrow> lsem \<Rightarrow> (wait_result \<times> lsem) option" where
  "sem_tryWaitOrPush i s = do { (rv, n, s) \<leftarrow> decrOrPush 1 i s; Some (rv, s) }"

definition sem_valueGuess :: "lsem \<Rightarrow> id32" where
  "sem_valueGuess s = (let h = ls_head s in if head_isNodeIdx h then 0 else head_data h)"

text \<open>
  allocateNode gives a node of the pool that nobody has (the pool's indices are
  neither 0 nor uint32_t(-1)), its notice cleared and its baton
  new; recycling gives it back.
\<close>

definition allocateNode :: "id32 \<Rightarrow> lsem \<Rightarrow> lsem option" where
  "allocateNode i s = (if i \<noteq> 0 \<and> i \<noteq> - 1 \<and> ls_nodes s i = None
     then Some (s\<lparr>ls_nodes := (ls_nodes s)(i \<mapsto>
       node_clearShutdownNotice \<lparr>nd_next = 0, nd_baton = INIT\<rparr>)\<rparr>) else None)"

definition recycle :: "id32 \<Rightarrow> lsem \<Rightarrow> lsem" where
  "recycle i s = s\<lparr>ls_nodes := (ls_nodes s)(i := None)\<rparr>"

datatype wait_outcome = Waited | Blocked | Throws

text \<open>wait up to the baton's wait, with the index the pool gives, and after it.\<close>

definition wait_begin :: "id32 \<Rightarrow> lsem \<Rightarrow> (wait_outcome \<times> lsem) option" where
  "wait_begin i s = do {
     (r, s) \<leftarrow> sem_tryWait s;
     if r then Some (Waited, s) else do {
       s \<leftarrow> allocateNode i s;
       (rv, s) \<leftarrow> sem_tryWaitOrPush i s;
       (case rv of
          SHUTDOWN \<Rightarrow> if sem_isShutdown s then Some (Throws, recycle i s) else None
        | PUSH \<Rightarrow> Some (Blocked, s)
        | DECR \<Rightarrow> Some (Waited, recycle i s)) } }"

definition wait_end :: "id32 \<Rightarrow> lsem \<Rightarrow> (wait_outcome \<times> lsem) option" where
  "wait_end i s = do {
     nd \<leftarrow> ls_nodes s i;
     if nd_baton nd \<noteq> EARLY_DELIVERY \<and> nd_baton nd \<noteq> LATE_DELIVERY then Some (Blocked, s)
     else if node_isShutdownNotice nd then
       (if sem_isShutdown s then Some (Throws, recycle i s) else None)
     else Some (Waited, recycle i s) }"

subsection \<open>The abstract semaphore\<close>

text \<open>
  What the head and the nodes stand for: a value, the waiters with the last one first, and whether
  the semaphore is shut down. The allocated nodes are those of the waiters, whose batons are not
  posted, and those that have been woken and not yet given back.
\<close>

definition first :: "id32 list \<Rightarrow> id32" where
  "first ws = (case ws of [] \<Rightarrow> 0 | w # _ \<Rightarrow> w)"

fun linked :: "(id32 \<rightharpoonup> lnode) \<Rightarrow> id32 list \<Rightarrow> bool" where
  "linked f [] = True"
| "linked f (w # ws) = ((\<exists>nd. f w = Some nd \<and> nd_next nd = first ws) \<and> linked f ws)"

definition unposted :: "lnode \<Rightarrow> bool" where
  "unposted nd \<longleftrightarrow> nd_baton nd \<in> {INIT, WAITING}"

definition woken :: "lnode \<Rightarrow> bool" where
  "woken nd \<longleftrightarrow> nd_baton nd \<in> {EARLY_DELIVERY, LATE_DELIVERY}"

definition nodes_ok :: "(id32 \<rightharpoonup> lnode) \<Rightarrow> id32 list \<Rightarrow> bool" where
  "nodes_ok f ws \<longleftrightarrow> finite (dom f)
     \<and> (\<forall>i nd. f i = Some nd \<longrightarrow> i \<noteq> 0 \<and> i \<noteq> - 1 \<and> (if i \<in> set ws then unposted nd else woken nd))"

definition sem_rep :: "lsem \<Rightarrow> id32 \<Rightarrow> id32 list \<Rightarrow> bool \<Rightarrow> bool" where
  "sem_rep s v ws sd \<longleftrightarrow> distinct ws \<and> linked (ls_nodes s) ws \<and> nodes_ok (ls_nodes s) ws
     \<and> (ws \<noteq> [] \<longrightarrow> v = 0)
     \<and> (\<forall>i nd. ls_nodes s i = Some nd \<and> node_isShutdownNotice nd \<longrightarrow> sd)
     \<and> (\<exists>q. ls_head s = pack q sd (ws \<noteq> []) (if ws = [] then v else hd ws))"

definition inflight :: "lsem \<Rightarrow> id32 set" where
  "inflight s = {i. \<exists>nd. ls_nodes s i = Some nd \<and> woken nd \<and> \<not> node_isShutdownNotice nd}"

definition permits :: "lsem \<Rightarrow> id32 \<Rightarrow> nat" where
  "permits s v = unat v + card (inflight s)"

text \<open>A gain of n permits, which the saturation of the value may cut short.\<close>

definition gain :: "nat \<Rightarrow> nat \<Rightarrow> nat \<Rightarrow> bool" where
  "gain p n p' \<longleftrightarrow> p' \<le> p + n \<and> (p + n < 2 ^ 32 \<longrightarrow> p' = p + n)"

lemma gain_trans: "gain p m p' \<Longrightarrow> gain p' n p'' \<Longrightarrow> gain p (m + n) p''"
  by (auto simp: gain_def)

lemma gain_0 [simp]: "gain p 0 p" and gain_eq: "gain p n (p + n)"
  by (auto simp: gain_def)

lemma first_Nil [simp]: "first [] = 0" and first_Cons [simp]: "first (w # ws) = w"
  by (simp_all add: first_def)

lemma linked_upd [simp]: "i \<notin> set ws \<Longrightarrow> linked (f(i := x)) ws = linked f ws"
  by (induction ws) auto

lemma linked_dom: "linked f ws \<Longrightarrow> i \<in> set ws \<Longrightarrow> \<exists>nd. f i = Some nd"
  by (induction ws) auto

lemma unposted_woken: "unposted nd \<Longrightarrow> \<not> woken nd"
  by (auto simp: unposted_def woken_def)

lemma finite_inflight: "sem_rep s v ws sd \<Longrightarrow> finite (inflight s)"
  by (rule finite_subset [of _ "dom (ls_nodes s)"]) (auto simp: sem_rep_def nodes_ok_def inflight_def)

lemma sem_rep_head: "sem_rep s v [] sd \<Longrightarrow> \<exists>q. ls_head s = pack q sd False v"
  and sem_rep_head_Cons: "sem_rep s v (w # ws) sd \<Longrightarrow> \<exists>q. ls_head s = pack q sd True w"
  by (auto simp: sem_rep_def)

lemma sem_rep_first:
  assumes "sem_rep s v (w # ws) sd"
  obtains nd where "ls_nodes s w = Some nd" "nd_next nd = first ws" "unposted nd"
    "w \<noteq> 0" "w \<noteq> - 1" "w \<notin> set ws" "v = 0"
  using assms by (auto simp: sem_rep_def nodes_ok_def)

lemma sem_rep_node:
  assumes "sem_rep s v ws sd" "ls_nodes s i = Some nd"
  shows "i \<in> set ws \<Longrightarrow> unposted nd" "i \<notin> set ws \<Longrightarrow> woken nd"
    "node_isShutdownNotice nd \<Longrightarrow> sd"
  using assms unfolding sem_rep_def nodes_ok_def by metis+

lemma sem_rep_sd: "sem_rep s v ws sd \<Longrightarrow> head_isShutdown (ls_head s) = sd"
  by (auto simp: sem_rep_def)

lemma sem_rep_value:
  "sem_rep s v [] sd \<Longrightarrow> (sd \<longrightarrow> sd') \<Longrightarrow> sem_rep (s\<lparr>ls_head := pack q sd' False v'\<rparr>) v' [] sd'"
  by (auto simp: sem_rep_def)

lemma sem_new_rep: "sem_rep (sem_new v) v [] False" "inflight (sem_new v) = {}"
  by (auto simp: sem_rep_def sem_new_def nodes_ok_def head_simps inflight_def)

text \<open>Waking the first waiter, for a permit or for the shutdown.\<close>

lemma baton_post_unposted: "unposted nd \<Longrightarrow> \<exists>b. baton_post (nd_baton nd) = Some b
    \<and> b \<in> {EARLY_DELIVERY, LATE_DELIVERY}"
  by (auto simp: unposted_def baton_post_def)

lemma sem_rep_wake:
  assumes "sem_rep s v (w # ws) sd" "woken nd" "node_isShutdownNotice nd \<longrightarrow> sd"
  shows "sem_rep (s\<lparr>ls_head := pack q sd (ws \<noteq> []) (first ws), ls_nodes := (ls_nodes s)(w \<mapsto> nd)\<rparr>) 0 ws sd"
  using assms by (auto simp: sem_rep_def nodes_ok_def neq_Nil_conv)

lemma first_nonzero: "sem_rep s v (w # ws) sd \<Longrightarrow> first ws \<noteq> 0 \<longleftrightarrow> ws \<noteq> []"
  by (cases ws) (auto simp: sem_rep_def nodes_ok_def)

lemma head_next:
  assumes "sem_rep s v (w # ws) sd"
  shows "\<exists>q. head_withPop (ls_head s) (first ws) = Some (pack q sd (ws \<noteq> []) (first ws))"
  using sem_rep_head_Cons [OF assms] first_nonzero [OF assms] by auto

lemma inflight_wake:
  assumes "sem_rep s v (w # ws) sd" "woken nd" "\<not> node_isShutdownNotice nd"
  shows "permits (s\<lparr>ls_head := h, ls_nodes := (ls_nodes s)(w \<mapsto> nd)\<rparr>) 0 = permits s v + 1"
proof -
  have "w \<notin> inflight s" using assms(1) unposted_woken by (auto simp: sem_rep_def nodes_ok_def inflight_def)
  moreover have "inflight (s\<lparr>ls_head := h, ls_nodes := (ls_nodes s)(w \<mapsto> nd)\<rparr>) = insert w (inflight s)"
    using assms by (auto simp: inflight_def)
  ultimately show ?thesis
    using assms(1) finite_inflight [OF assms(1)] by (simp add: permits_def sem_rep_def)
qed

subsection \<open>The operations on the abstract semaphore\<close>

definition sat :: "id32 \<Rightarrow> id32 \<Rightarrow> id32" where
  "sat v n = (if v \<le> v + n then v + n else - 1)"

lemma sat_gain: "gain (unat v + c) (unat n) (unat (sat v n) + c)"
proof (cases "v \<le> v + n")
  case True
  then have "unat (v + n) = unat v + unat n" by (simp add: unat_plus_simple)
  then show ?thesis using True by (simp add: gain_def sat_def)
next
  case False
  then have "\<not> unat v + unat n < 2 ^ LENGTH(32)"
    using unat_plus_if' [of v n] by (metis le_add1 word_le_nat_alt)
  moreover have "unat (- 1 :: id32) = 2 ^ 32 - 1"
    by (subst unsigned_minus_1_eq_mask) (simp add: mask_eq_exp_minus_1)
  ultimately show ?thesis using False by (simp add: gain_def sat_def)
qed

lemma incrOrPop_incr:
  assumes "sem_rep s v [] sd" "n \<noteq> 0"
  shows "\<exists>q. incrOrPop n s = Some (0, s\<lparr>ls_head := pack q sd False (sat v n)\<rparr>)"
  using sem_rep_head [OF assms(1)] assms(2) by (auto simp: incrOrPop_def sat_def)

lemma incrOrPop_pop:
  assumes "sem_rep s v (w # ws) sd" "n \<noteq> 0"
  shows "\<exists>q. incrOrPop n s = Some (w, s\<lparr>ls_head := pack q sd (ws \<noteq> []) (first ws)\<rparr>)"
proof -
  obtain nd where nd: "ls_nodes s w = Some nd" "nd_next nd = first ws" "w \<noteq> 0"
    using sem_rep_first [OF assms(1)] .
  then show ?thesis
    using sem_rep_head_Cons [OF assms(1)] head_next [OF assms(1)] assms(2)
    by (auto simp: incrOrPop_def head_idx_def)
qed

lemma handoff_post_ok:
  assumes "ls_nodes s w = Some nd" "unposted nd"
  shows "\<exists>b. handoff_post w s = Some (s\<lparr>ls_nodes := (ls_nodes s)(w \<mapsto> nd\<lparr>nd_baton := b\<rparr>)\<rparr>)
    \<and> woken (nd\<lparr>nd_baton := b\<rparr>)"
  using baton_post_unposted [OF assms(2)] assms(1) by (auto simp: handoff_post_def woken_def)

lemma wake_one:
  assumes "sem_rep s v (w # ws) sd" "n \<noteq> 0"
  shows "\<exists>s1 s' nd. incrOrPop n s = Some (w, s1) \<and> handoff_post w s1 = Some s' \<and> sem_rep s' 0 ws sd
    \<and> permits s' 0 = permits s v + 1 \<and> ls_nodes s' = (ls_nodes s)(w \<mapsto> nd) \<and> woken nd
    \<and> \<not> node_isShutdownNotice nd"
proof -
  obtain nd where nd: "ls_nodes s w = Some nd" "nd_next nd = first ws" "unposted nd" "v = 0"
    using sem_rep_first [OF assms(1)] .
  obtain q where q: "incrOrPop n s = Some (w, s\<lparr>ls_head := pack q sd (ws \<noteq> []) (first ws)\<rparr>)"
    using incrOrPop_pop [OF assms] by blast
  let ?s1 = "s\<lparr>ls_head := pack q sd (ws \<noteq> []) (first ws)\<rparr>"
  obtain b where b: "handoff_post w ?s1 = Some (?s1\<lparr>ls_nodes := (ls_nodes ?s1)(w \<mapsto> nd\<lparr>nd_baton := b\<rparr>)\<rparr>)"
      "woken (nd\<lparr>nd_baton := b\<rparr>)"
    using handoff_post_ok [of ?s1 w nd] nd by auto
  have "first ws \<noteq> - 1" using assms(1) by (cases ws) (auto simp: sem_rep_def nodes_ok_def)
  then have notice: "\<not> node_isShutdownNotice (nd\<lparr>nd_baton := b\<rparr>)"
    using nd by (simp add: node_isShutdownNotice_def)
  show ?thesis
    using q b(1) sem_rep_wake [OF assms(1) b(2) impI [OF notice [THEN notE]], of q] inflight_wake [OF assms(1) b(2) notice] b(2) notice
    by (intro exI [of _ ?s1] exI) auto
qed

lemma sem_post_incr:
  assumes "sem_rep s v [] sd"
  shows "\<exists>q. sem_post s = Some (s\<lparr>ls_head := pack q sd False (sat v 1)\<rparr>)"
  using incrOrPop_incr [OF assms, of 1] by (auto simp: sem_post_def)

lemma sem_post_wake:
  assumes "sem_rep s v (w # ws) sd"
  shows "\<exists>s' nd. sem_post s = Some s' \<and> sem_rep s' 0 ws sd \<and> permits s' 0 = permits s v + 1
    \<and> ls_nodes s' = (ls_nodes s)(w \<mapsto> nd) \<and> woken nd \<and> \<not> node_isShutdownNotice nd"
proof -
  have "(1::id32) \<noteq> 0" "w \<noteq> 0" using assms by (auto simp: sem_rep_def nodes_ok_def)
  moreover from wake_one [OF assms this(1)] obtain s1 s' nd where
    "incrOrPop 1 s = Some (w, s1)" "handoff_post w s1 = Some s'" "sem_rep s' 0 ws sd"
    "permits s' 0 = permits s v + 1" "ls_nodes s' = (ls_nodes s)(w \<mapsto> nd)" "woken nd"
    "\<not> node_isShutdownNotice nd" by blast
  ultimately show ?thesis by (intro exI [of _ s'] exI [of _ nd]) (simp add: sem_post_def)
qed

lemma incr_gain: "gain (permits s v) (unat n) (permits (s\<lparr>ls_head := h\<rparr>) (sat v n))"
  using sat_gain by (simp add: permits_def inflight_def)

lemma sem_post_n_ok:
  "sem_rep s v ws sd \<Longrightarrow> \<exists>s'. sem_post_n n s = Some s'
     \<and> sem_rep s' (if unat n \<le> length ws then v else sat v (n - word_of_nat (length ws))) (drop (unat n) ws) sd
     \<and> gain (permits s v) (unat n)
         (permits s' (if unat n \<le> length ws then v else sat v (n - word_of_nat (length ws))))"
proof (induction n s arbitrary: v ws rule: sem_post_n.induct)
  case (1 n s)
  show ?case
  proof (cases "n = 0")
    case True
    then show ?thesis using 1(2) by (simp add: sem_post_n.simps)
  next
    case n: False
    then have un: "unat n = Suc (unat (n - 1))"
      using unat_gt_0 [of n] by (simp add: unat_minus_one)
    show ?thesis
    proof (cases ws)
      case Nil
      then obtain q where "incrOrPop n s = Some (0, s\<lparr>ls_head := pack q sd False (sat v n)\<rparr>)"
        using incrOrPop_incr n 1(2) by blast
      then show ?thesis
        using Nil n 1(2) sem_rep_value [of s v sd] incr_gain [of s v n] unat_gt_0 [of n]
        by (simp add: sem_post_n.simps [of n] word_gt_0)
    next
      case (Cons w rest)
      have rep: "sem_rep s v (w # rest) sd" using 1(2) Cons by simp
      then obtain s1 s2 nd where step: "incrOrPop n s = Some (w, s1)" "handoff_post w s1 = Some s2"
          "sem_rep s2 0 rest sd" "permits s2 0 = permits s v + 1"
        using wake_one n by blast
      have w: "w \<noteq> 0" "v = 0" using sem_rep_first [OF rep] by blast+
      let ?v = "if unat (n - 1) \<le> length rest then 0 else sat 0 (n - 1 - word_of_nat (length rest))"
      obtain s' where s': "sem_post_n (n - 1) s2 = Some s'" "sem_rep s' ?v (drop (unat (n - 1)) rest) sd"
          "gain (permits s2 0) (unat (n - 1)) (permits s' ?v)"
        using 1(1) [of "(w, s1)" w s1 s2 0 rest] n step w by (auto simp: word_gt_0)
      have "?v = (if unat n \<le> length ws then v else sat v (n - word_of_nat (length ws)))"
        using Cons un w by (simp add: diff_diff_add)
      moreover have "gain (permits s v) (unat n) (permits s' ?v)"
      proof -
        have "gain (permits s v + 1) (unat (n - 1)) (permits s' ?v)" using s'(3) step(4) by (simp only:)
        from gain_trans [OF gain_eq this] show ?thesis using un by (simp only: plus_1_eq_Suc)
      qed
      moreover have "sem_post_n n s = Some s'" 
        using n step w s'(1) by (simp add: sem_post_n.simps [of n] word_gt_0)
      ultimately show ?thesis using s'(2) Cons un by (intro exI [of _ s']) simp
    qed
  qed
qed

text \<open>Taking permits: from the value alone, or by a node pushed to wait.\<close>

lemma decrOrPush_decr:
  assumes "sem_rep s v [] sd" "v > 0" "n > 0"
  shows "\<exists>q. decrOrPush n i s = Some (DECR, n - min n v, s\<lparr>ls_head := pack q sd False (v - min n v)\<rparr>)"
  using sem_rep_head [OF assms(1)] assms(2,3)
  by (auto simp: decrOrPush_def head_value_def word_gt_0 Let_def)

lemma decrOrPush_none:
  assumes "sem_rep s v ws sd" "v = 0" "n \<noteq> 0"
  shows "decrOrPush n 0 s = Some (PUSH, n, s)"
    and "i \<noteq> 0 \<Longrightarrow> sd \<Longrightarrow> decrOrPush n i s = Some (SHUTDOWN, n, s)"
    and "i \<noteq> 0 \<Longrightarrow> \<not> sd \<Longrightarrow> ls_nodes s i = Some nd \<Longrightarrow>
      \<exists>q. decrOrPush n i s = Some (PUSH, n, s\<lparr>ls_head := pack q False True i,
            ls_nodes := (ls_nodes s)(i \<mapsto> nd\<lparr>nd_next := first ws\<rparr>)\<rparr>)"
proof -
  obtain q where q: "ls_head s = pack q sd (ws \<noteq> []) (first ws)"
    using assms(1,2) by (cases ws) (auto simp: sem_rep_def)
  have ne: "ws \<noteq> [] \<longleftrightarrow> first ws \<noteq> 0" using assms(1) by (cases ws) (auto simp: sem_rep_def nodes_ok_def)
  show "decrOrPush n 0 s = Some (PUSH, n, s)"
    using q ne assms(3) by (cases "ws = []") (simp_all add: decrOrPush_def)
  show "i \<noteq> 0 \<Longrightarrow> sd \<Longrightarrow> decrOrPush n i s = Some (SHUTDOWN, n, s)"
    using q ne assms(3) by (cases "ws = []") (simp_all add: decrOrPush_def)
  show "i \<noteq> 0 \<Longrightarrow> \<not> sd \<Longrightarrow> ls_nodes s i = Some nd \<Longrightarrow>
      \<exists>q. decrOrPush n i s = Some (PUSH, n, s\<lparr>ls_head := pack q False True i,
            ls_nodes := (ls_nodes s)(i \<mapsto> nd\<lparr>nd_next := first ws\<rparr>)\<rparr>)"
    using q ne assms(3) by (cases "ws = []") (auto simp: decrOrPush_def head_idx_def)
qed

lemma sem_tryWait_ok:
  assumes "sem_rep s v ws sd"
  shows "v = 0 \<Longrightarrow> sem_tryWait s = Some (False, s)"
    and "v > 0 \<Longrightarrow> \<exists>q. sem_tryWait s = Some (True, s\<lparr>ls_head := pack q sd False (v - 1)\<rparr>)"
proof -
  show "v = 0 \<Longrightarrow> sem_tryWait s = Some (False, s)"
    using decrOrPush_none(1) [OF assms, of 1] by (simp add: sem_tryWait_def)
  assume v: "v > 0"
  then have "ws = []" using assms by (auto simp: sem_rep_def)
  moreover have "min 1 v = 1" using v by (simp add: min_def word_le_nat_alt word_less_nat_alt)
  ultimately show "\<exists>q. sem_tryWait s = Some (True, s\<lparr>ls_head := pack q sd False (v - 1)\<rparr>)"
    using decrOrPush_decr [of s v sd 1 0] assms v by (auto simp: sem_tryWait_def)
qed

lemma sem_tryWait_n_ok:
  assumes "sem_rep s v ws sd"
  shows "\<exists>q. sem_tryWait_n n s = Some (min n v, if min n v = 0 then s else s\<lparr>ls_head := pack q sd False (v - min n v)\<rparr>)"
proof (cases "n = 0 \<or> v = 0")
  case True
  then show ?thesis
    using decrOrPush_none(1) [OF assms, of n]
    by (auto simp: sem_tryWait_n_def tryWait_loop.simps [of n] word_gt_0 min_def)
next
  case False
  then have pos: "n > 0" "v > 0" by (auto simp: word_gt_0)
  let ?m = "min n v"
  have m: "?m \<noteq> 0" "?m \<le> n" using pos by (auto simp: min_def)
  then have lt: "n - ?m < n" using pos
    by (auto simp: word_less_nat_alt word_le_nat_alt unat_sub unat_gt_0 [symmetric])
  have ws: "ws = []" using assms pos by (auto simp: sem_rep_def)
  then obtain q where d: "decrOrPush n 0 s = Some (DECR, n - ?m, s\<lparr>ls_head := pack q sd False (v - ?m)\<rparr>)"
    using decrOrPush_decr assms pos by blast
  let ?s = "s\<lparr>ls_head := pack q sd False (v - ?m)\<rparr>"
  have "tryWait_loop (n - ?m) ?s = Some (n - ?m, ?s)"
  proof (cases "n - ?m = 0")
    case False
    then have "v - ?m = 0" by (auto simp: min_def split: if_splits)
    then have "decrOrPush (n - ?m) 0 ?s = Some (PUSH, n - ?m, ?s)"
      using decrOrPush_none(1) [of ?s "v - ?m" "[]" sd] sem_rep_value [of s v sd] assms ws False by blast
    then show ?thesis using False by (simp add: tryWait_loop.simps [of "n - ?m"] word_gt_0)
  qed (simp add: tryWait_loop.simps)
  then have "tryWait_loop n s = Some (n - ?m, ?s)"
    using d pos lt by (simp add: tryWait_loop.simps [of n])
  then show ?thesis using m by (auto simp: sem_tryWait_n_def)
qed

text \<open>Waiting: a permit at once, a node pushed in front of the waiters, or the exception.\<close>

lemma wait_begin_now:
  assumes "sem_rep s v ws sd" "v > 0"
  shows "\<exists>q. wait_begin i s = Some (Waited, s\<lparr>ls_head := pack q sd False (v - 1)\<rparr>)"
  using sem_tryWait_ok(2) [OF assms] by (auto simp: wait_begin_def)

lemma sem_rep_alloc:
  assumes "ls_nodes s i = None" "i \<noteq> 0" "i \<noteq> - 1" "sem_rep s 0 ws False"
  shows "sem_rep (s\<lparr>ls_head := pack q False True i,
      ls_nodes := (ls_nodes s)(i \<mapsto> \<lparr>nd_next = first ws, nd_baton = INIT\<rparr>)\<rparr>) 0 (i # ws) False"
    (is "sem_rep ?s _ _ _")
proof -
  have i: "i \<notin> set ws"
    using assms(1,4) linked_dom by (fastforce simp: sem_rep_def)
  have "first ws \<noteq> - 1" using assms(4) by (cases ws) (auto simp: sem_rep_def nodes_ok_def)
  moreover have "nodes_ok (ls_nodes ?s) (i # ws)"
    using assms i by (simp add: sem_rep_def nodes_ok_def) (simp add: unposted_def)
  ultimately show ?thesis using assms i by (simp add: sem_rep_def node_isShutdownNotice_def)
qed

lemma wait_begin_blocks:
  assumes "sem_rep s 0 ws sd" "ls_nodes s i = None" "i \<noteq> 0" "i \<noteq> - 1"
  shows "sd \<Longrightarrow> wait_begin i s = Some (Throws, s)"
    and "\<not> sd \<Longrightarrow> \<exists>s'. wait_begin i s = Some (Blocked, s') \<and> sem_rep s' 0 (i # ws) False
      \<and> inflight s' = inflight s \<and> ls_nodes s' = (ls_nodes s)(i \<mapsto> \<lparr>nd_next = first ws, nd_baton = INIT\<rparr>)"
proof -
  let ?nd = "\<lparr>nd_next = 0, nd_baton = INIT\<rparr>"
  let ?s = "s\<lparr>ls_nodes := (ls_nodes s)(i \<mapsto> ?nd)\<rparr>"
  have alloc: "allocateNode i s = Some ?s"
    using assms(2-4) by (simp add: allocateNode_def node_clearShutdownNotice_def)
  obtain q where q: "ls_head s = pack q sd (ws \<noteq> []) (first ws)"
    using assms(1) by (cases ws) (auto simp: sem_rep_def)
  have ne: "ws \<noteq> [] \<longleftrightarrow> first ws \<noteq> 0" using assms(1) by (cases ws) (auto simp: sem_rep_def nodes_ok_def)
  note attempt = sem_tryWait_ok(1) [OF assms(1)]
  have push: "decrOrPush 1 i ?s = (if sd then Some (SHUTDOWN, 1, ?s)
      else Some (PUSH, 1, s\<lparr>ls_head := pack q False True i,
        ls_nodes := (ls_nodes s)(i \<mapsto> ?nd\<lparr>nd_next := first ws\<rparr>)\<rparr>))"
    using q ne assms(3) by (cases "ws = []") (simp_all add: decrOrPush_def head_idx_def)
  have undo: "recycle i ?s = s" using assms(2) by (simp add: recycle_def fun_upd_idem)
  show "sd \<Longrightarrow> wait_begin i s = Some (Throws, s)"
    using attempt alloc push q undo by (simp add: wait_begin_def sem_tryWaitOrPush_def sem_isShutdown_def)
  assume sd: "\<not> sd"
  let ?s' = "s\<lparr>ls_head := pack q False True i,
        ls_nodes := (ls_nodes s)(i \<mapsto> ?nd\<lparr>nd_next := first ws\<rparr>)\<rparr>"
  have "wait_begin i s = Some (Blocked, ?s')"
    using attempt alloc push sd by (simp add: wait_begin_def sem_tryWaitOrPush_def)
  moreover have "sem_rep ?s' 0 (i # ws) False"
    using sem_rep_alloc [OF assms(2-4), of ws q] assms(1) sd by simp
  moreover have "inflight ?s' = inflight s"
    using assms(2) by (auto simp: inflight_def woken_def)
  ultimately show "\<exists>s'. wait_begin i s = Some (Blocked, s') \<and> sem_rep s' 0 (i # ws) False
      \<and> inflight s' = inflight s \<and> ls_nodes s' = (ls_nodes s)(i \<mapsto> \<lparr>nd_next = first ws, nd_baton = INIT\<rparr>)"
    by (intro exI [of _ ?s']) simp
qed

text \<open>The other end of a blocked wait: still blocked, or woken by a post or by the shutdown.\<close>

lemma wait_end_waiting:
  "sem_rep s v ws sd \<Longrightarrow> i \<in> set ws \<Longrightarrow> ls_nodes s i = Some nd \<Longrightarrow> wait_end i s = Some (Blocked, s)"
  using sem_rep_node(1) [of s v ws sd i nd] by (auto simp: wait_end_def unposted_def)

lemma wait_end_woken:
  assumes "sem_rep s v ws sd" "i \<notin> set ws" "ls_nodes s i = Some nd"
  shows "\<exists>r. wait_end i s = Some (r, recycle i s) \<and> sem_rep (recycle i s) v ws sd
    \<and> (if i \<in> inflight s then r = Waited \<and> permits s v = permits (recycle i s) v + 1
       else r = Throws \<and> sd \<and> permits s v = permits (recycle i s) v)"
proof -
  have w: "woken nd" and sd: "node_isShutdownNotice nd \<longrightarrow> sd"
    using sem_rep_node(2,3) [OF assms(1,3)] assms(2) by blast+
  have i: "i \<in> inflight s \<longleftrightarrow> \<not> node_isShutdownNotice nd" using w assms(3) by (simp add: inflight_def)
  have "nodes_ok ((ls_nodes s)(i := None)) ws"
    using assms(1) by (auto simp: sem_rep_def nodes_ok_def)
  then have rep: "sem_rep (recycle i s) v ws sd"
    using assms(1,2) by (auto simp: sem_rep_def recycle_def)
  have "inflight (recycle i s) = inflight s - {i}" by (auto simp: inflight_def recycle_def)
  moreover have "card (inflight s) = card (inflight s - {i}) + (if i \<in> inflight s then 1 else 0)"
    using card_Suc_Diff1 [OF finite_inflight [OF assms(1)], of i] by (cases "i \<in> inflight s") simp_all
  ultimately have "permits s v = permits (recycle i s) v + (if i \<in> inflight s then 1 else 0)"
    by (simp only: permits_def add.assoc)
  moreover have "wait_end i s = Some (if i \<in> inflight s then Waited else Throws, recycle i s)"
    using w i assms(3) sd sem_rep_sd [OF assms(1)]
    by (auto simp: wait_end_def woken_def sem_isShutdown_def)
  ultimately show ?thesis using rep i sd by auto
qed

text \<open>Shutting down: every waiter is woken with a notice, and no permit is made or lost.\<close>

lemma shutdown_wake_ok:
  "sem_rep s v ws True \<Longrightarrow> \<exists>s'. shutdown_wake s = Some s' \<and> sem_rep s' v [] True \<and> inflight s' = inflight s
    \<and> (\<forall>w\<in>set ws. \<exists>nd. ls_nodes s' w = Some nd \<and> woken nd \<and> node_isShutdownNotice nd)
    \<and> (\<forall>i. i \<notin> set ws \<longrightarrow> ls_nodes s' i = ls_nodes s i)"
proof (induction ws arbitrary: s v)
  case Nil
  then show ?case using sem_rep_head [OF Nil] by (subst shutdown_wake.simps) auto
next
  case (Cons w ws)
  obtain nd where nd: "ls_nodes s w = Some nd" "nd_next nd = first ws" "unposted nd" "w \<noteq> 0"
      "w \<notin> set ws" "v = 0"
    using sem_rep_first [OF Cons.prems] .
  obtain q0 where q0: "ls_head s = pack q0 True True w" using sem_rep_head_Cons [OF Cons.prems] by blast
  obtain q where q: "head_withPop (ls_head s) (first ws) = Some (pack q True (ws \<noteq> []) (first ws))"
    using head_next [OF Cons.prems] by blast
  let ?n = "node_setShutdownNotice nd"
  let ?s = "s\<lparr>ls_head := pack q True (ws \<noteq> []) (first ws), ls_nodes := (ls_nodes s)(w \<mapsto> ?n)\<rparr>"
  have "unposted ?n" using nd(3) by (simp add: unposted_def node_setShutdownNotice_def)
  then obtain b where b: "handoff_post w ?s = Some (?s\<lparr>ls_nodes := (ls_nodes ?s)(w \<mapsto> ?n\<lparr>nd_baton := b\<rparr>)\<rparr>)"
      "woken (?n\<lparr>nd_baton := b\<rparr>)"
    using handoff_post_ok [of ?s w ?n] by auto
  let ?m = "?n\<lparr>nd_baton := b\<rparr>"
  let ?s' = "s\<lparr>ls_head := pack q True (ws \<noteq> []) (first ws), ls_nodes := (ls_nodes s)(w \<mapsto> ?m)\<rparr>"
  have notice: "node_isShutdownNotice ?m" by (simp add: node_isShutdownNotice_def node_setShutdownNotice_def)
  have inf: "inflight ?s' = inflight s"
    using nd notice unposted_woken by (auto simp: inflight_def)
  obtain s2 where s2: "shutdown_wake ?s' = Some s2" "sem_rep s2 0 [] True" "inflight s2 = inflight ?s'"
      "\<forall>w\<in>set ws. \<exists>nd. ls_nodes s2 w = Some nd \<and> woken nd \<and> node_isShutdownNotice nd"
      "\<forall>i. i \<notin> set ws \<longrightarrow> ls_nodes s2 i = ls_nodes ?s' i"
    using Cons.IH [OF sem_rep_wake [OF Cons.prems b(2), of q]] by auto
  have "shutdown_wake s = Some s2"
    using q0 q nd b(1) s2(1) by (subst shutdown_wake.simps) (simp add: head_idx_def)
  moreover have "ls_nodes s2 w = Some ?m" using s2(5) nd(5) by simp
  ultimately show ?case
    using s2 inf nd b(2) notice by (intro exI [of _ s2]) auto
qed

lemma sem_shutdown_ok:
  assumes "sem_rep s v ws sd"
  shows "\<exists>s'. sem_shutdown s = Some s' \<and> sem_rep s' v [] True \<and> inflight s' = inflight s
    \<and> (\<forall>w\<in>set ws. \<exists>nd. ls_nodes s' w = Some nd \<and> woken nd \<and> node_isShutdownNotice nd)
    \<and> (\<forall>i. i \<notin> set ws \<longrightarrow> ls_nodes s' i = ls_nodes s i)"
proof -
  let ?s = "if head_isShutdown (ls_head s) then s else s\<lparr>ls_head := head_withShutdown (ls_head s)\<rparr>"
  have "sem_rep ?s v ws True" "inflight ?s = inflight s" "ls_nodes ?s = ls_nodes s"
    using assms by (auto simp: sem_rep_def inflight_def)
  then show ?thesis using shutdown_wake_ok [of ?s v ws] by (auto simp: sem_shutdown_def)
qed

end
