(* ===== verification/Lifo_Aba.thy ===== *)
theory Lifo_Aba imports Lifo_Sem begin

text \<open>
  Why the compare-and-swaps of src/include/folly/LifoSem.h may trust what was read before them. A
  pop reads the head, then the next field of the first node, and only then swaps the head;
  in between, other threads may have popped that node and pushed it again. A turn is one
  compare-and-swap of another thread that succeeds, or a write to a node that is in nobody's list.
\<close>

definition list_rep :: "lsem \<Rightarrow> 30 word \<Rightarrow> id32 \<Rightarrow> id32 list \<Rightarrow> bool \<Rightarrow> bool" where
  "list_rep s q v ws sd \<longleftrightarrow> distinct ws \<and> 0 \<notin> set ws \<and> linked (ls_nodes s) ws
     \<and> ls_head s = pack q sd (ws \<noteq> []) (if ws = [] then v else hd ws)"

definition in_list :: "lsem \<Rightarrow> id32 \<Rightarrow> bool" where
  "in_list s i \<longleftrightarrow> (\<exists>q v ws sd. list_rep s q v ws sd \<and> i \<in> set ws)"

inductive cas_turn :: "lsem \<Rightarrow> lsem \<Rightarrow> bool" where
  cas_turn_incr_pop: "incrOrPop n s = Some (i, s') \<Longrightarrow> cas_turn s s'"
| cas_turn_decr_push: "decrOrPush n i s = Some (rv, n', s') \<Longrightarrow> \<not> in_list s i \<Longrightarrow> cas_turn s s'"
| cas_turn_shutdown: "\<not> head_isShutdown (ls_head s) \<Longrightarrow>
     cas_turn s (s\<lparr>ls_head := head_withShutdown (ls_head s)\<rparr>)"
| cas_turn_private: "\<not> in_list s i \<Longrightarrow> cas_turn s (s\<lparr>ls_nodes := (ls_nodes s)(i := x)\<rparr>)"

text \<open>The list and the flags are determined by the head and the nodes.\<close>

lemma list_rep_node:
  "list_rep s q v (w # ws) sd \<Longrightarrow> \<exists>nd. ls_nodes s w = Some nd \<and> nd_next nd = first ws"
  by (auto simp: list_rep_def)

lemma list_rep_notin: "list_rep s q v ws sd \<Longrightarrow> \<not> in_list s i \<Longrightarrow> i \<notin> set ws"
  by (auto simp: in_list_def)

text \<open>
  After k changes of the sequence number, and if there was none, the list has only grown
  in front and the shutdown bit has only been set.
\<close>

definition since :: "30 word \<Rightarrow> id32 list \<Rightarrow> bool \<Rightarrow> nat \<Rightarrow> nat \<Rightarrow> lsem \<Rightarrow> bool" where
  "since q ws sd n k s \<longleftrightarrow> k \<le> n \<and> (\<exists>v' ws' sd'. list_rep s (q + word_of_nat k) v' ws' sd'
     \<and> (k = 0 \<longrightarrow> (\<exists>pushed. ws' = pushed @ ws)))"

lemma sinceI:
  "k \<le> n \<Longrightarrow> list_rep s (q + word_of_nat k) v' ws' sd' \<Longrightarrow> (k = 0 \<Longrightarrow> \<exists>pushed. ws' = pushed @ ws) \<Longrightarrow>
   since q ws sd n k s"
  unfolding since_def by blast

lemma list_rep_head:
  "list_rep s q v ws sd \<Longrightarrow> ls_head s = pack q sd (ws \<noteq> []) (if ws = [] then v else first ws)"
  by (cases ws) (auto simp: list_rep_def)

lemma list_rep_first: "list_rep s q v ws sd \<Longrightarrow> first ws = 0 \<longleftrightarrow> ws = []"
  by (cases ws) (auto simp: list_rep_def)

lemma push_result:
  assumes "list_rep s q v ws False" "ws = [] \<Longrightarrow> v = 0" "i \<noteq> 0" "decrOrPush m i s = Some (rv, m', s')"
  shows "\<exists>nd. s' = s\<lparr>ls_head := pack q False True i,
            ls_nodes := (ls_nodes s)(i \<mapsto> nd\<lparr>nd_next := first ws\<rparr>)\<rparr>"
proof -
  have h: "ls_head s = pack q False (ws \<noteq> []) (first ws)"
    using list_rep_head [OF assms(1)] assms(2) by (cases ws) auto
  show ?thesis
  proof (cases "ws = []")
    case True
    then show ?thesis
      using assms(3,4) h by (simp add: decrOrPush_def bind_rules split: if_splits) blast
  next
    case False
    then show ?thesis
      using assms(3,4) h list_rep_first [OF assms(1)]
      by (simp add: decrOrPush_def bind_rules head_idx_def split: if_splits) blast
  qed
qed

lemma cas_turn_since:
  assumes "since q ws sd n k s" "cas_turn s s'"
  shows "\<exists>k'. since q ws sd (Suc n) k' s'"
proof -
  obtain v ws' sd' where rep: "list_rep s (q + word_of_nat k) v ws' sd'" "k \<le> n"
    and grown: "k = 0 \<Longrightarrow> \<exists>pushed. ws' = pushed @ ws"
    using assms(1) by (auto simp: since_def)
  let ?q = "q + word_of_nat k"
  have step: ?thesis if "list_rep s' (?q + 1) v' ws'' sd''" for v' ws'' sd''
    using that rep(2) by (intro exI [of _ "Suc k"] sinceI [where v' = v' and ws' = ws'' and sd' = sd''])
      (auto simp: algebra_simps)
  have stay: ?thesis if "list_rep s' ?q v' (pre @ ws') sd''" for v' pre sd''
    using that rep(2) grown by (intro exI [of _ k] sinceI [where v' = v' and ws' = "pre @ ws'" and sd' = sd'']) auto
  from assms(2) show ?thesis
  proof cases
    case (cas_turn_incr_pop m i)
    show ?thesis
    proof (cases ws')
      case Nil
      then have "\<exists>v'. s' = s\<lparr>ls_head := pack (?q + 1) sd' False v'\<rparr>"
        using cas_turn_incr_pop rep(1) by (auto simp: incrOrPop_def list_rep_def split: if_splits)
      then show ?thesis using step [of _ "[]" sd'] rep(1) Nil by (auto simp: list_rep_def)
    next
      case (Cons w rest)
      obtain nd where nd: "ls_nodes s w = Some nd" "nd_next nd = first rest"
        using list_rep_node rep(1) Cons by blast
      have "s' = s\<lparr>ls_head := pack (?q + 1) sd' (first rest \<noteq> 0) (first rest)\<rparr>"
        using cas_turn_incr_pop rep(1) Cons nd by (auto simp: incrOrPop_def list_rep_def head_idx_def split: if_splits)
      then show ?thesis using step [of 0 rest sd'] rep(1) Cons by (cases rest) (auto simp: list_rep_def)
    qed
  next
    case (cas_turn_decr_push m i rv m')
    show ?thesis
    proof (cases "ws' = [] \<and> v > 0")
      case True
      then have "\<exists>v'. s' = s\<lparr>ls_head := pack (?q + 1) sd' False v'\<rparr>"
        using cas_turn_decr_push(1) rep(1)
        by (auto simp: decrOrPush_def list_rep_def head_value_def Let_def bind_rules split: if_splits)
      then show ?thesis using step [of _ "[]" sd'] rep(1) True by (auto simp: list_rep_def)
    next
      case False
      then have notdecr: "\<not> (\<not> head_isNodeIdx (ls_head s) \<and> head_data (ls_head s) > 0)"
        using rep(1) by (auto simp: list_rep_def)
      show ?thesis
      proof (cases "i = 0 \<or> sd'")
        case True
        then have "s' = s"
          using cas_turn_decr_push(1) notdecr rep(1) by (auto simp: decrOrPush_def list_rep_def split: if_splits)
        then show ?thesis using stay [of v "[]" sd'] rep(1) by simp
      next
        case push: False
        obtain nd where nd: "s' = s\<lparr>ls_head := pack ?q False True i,
            ls_nodes := (ls_nodes s)(i \<mapsto> nd\<lparr>nd_next := first ws'\<rparr>)\<rparr>"
          using push_result [of s ?q v ws' i m rv m' s'] rep(1) push False cas_turn_decr_push(1)
          by (auto simp: word_gt_0)
        moreover have "i \<notin> set ws'" using list_rep_notin [OF rep(1) cas_turn_decr_push(2)] .
        ultimately show ?thesis using stay [of 0 "[i]" False] rep(1) push by (simp add: list_rep_def)
      qed
    qed
  next
    case cas_turn_shutdown
    then have "list_rep s' ?q v ws' True" using rep(1) by (auto simp: list_rep_def)
    then show ?thesis using stay [of v "[]" True] by simp
  next
    case (cas_turn_private i x)
    then have "list_rep s' ?q v ws' sd'"
      using rep(1) list_rep_notin [OF rep(1)] by (auto simp: list_rep_def)
    then show ?thesis using stay [of v "[]" sd'] by simp
  qed
qed

lemma turns_since:
  assumes "list_rep s q v ws sd" "(cas_turn ^^ n) s s'"
  shows "\<exists>k. since q ws sd n k s'"
  using assms(2)
proof (induction n arbitrary: s')
  case 0
  then have "since q ws sd 0 0 s'" using assms(1) by (intro sinceI [where v' = v and ws' = ws and sd' = sd]) auto
  then show ?case ..
next
  case (Suc n)
  then show ?case using cas_turn_since by (metis relpowp_Suc_E)
qed

lemma seq_distinct: "k < 2 ^ 30 \<Longrightarrow> q + word_of_nat k = (q :: 30 word) \<Longrightarrow> k = 0"
  using word_of_nat_eq_0_iff [of k, where ?'a = 30] nat_dvd_not_less by fastforce

text \<open>C29. A pop's compare-and-swap is not fooled by a node that was popped and pushed again: if fewer
  than 2 ^ 30 turns of other threads lie between the load of the head and a head with
  the same bits, the list is the one that was loaded, node for node, and the link the pop read
  from the first node is still that node's; so the swap it is about to make removes exactly the
  first waiter.
\<close>

theorem pop_aba_safe:
  assumes "list_rep s q v (w # ws) sd" "ls_nodes s w = Some nd"
    and "(cas_turn ^^ n) s s'" "n < 2 ^ 30" "ls_head s' = ls_head s"
  shows "\<exists>nd' h. list_rep s' q v (w # ws) sd \<and> ls_nodes s' w = Some nd' \<and> nd_next nd' = nd_next nd
    \<and> head_withPop (ls_head s') (nd_next nd) = Some h \<and> list_rep (s'\<lparr>ls_head := h\<rparr>) (q + 1) 0 ws sd"
proof -
  obtain k v' ws' sd' where k: "k \<le> n" "list_rep s' (q + word_of_nat k) v' ws' sd'"
    and grown: "k = 0 \<Longrightarrow> \<exists>pushed. ws' = pushed @ w # ws"
    using turns_since [OF assms(1,3)] by (auto simp: since_def)
  have eq: "pack (q + word_of_nat k) sd' (ws' \<noteq> []) (if ws' = [] then v' else first ws')
      = pack q sd True w"
    using list_rep_head [OF k(2)] list_rep_head [OF assms(1)] assms(5) by simp
  then have h: "q + word_of_nat k = q" "sd' = sd" "ws' \<noteq> []" "first ws' = w"
    by (auto split: if_splits)
  then have k0: "k = 0" using seq_distinct [of k q] k(1) assms(4) by simp
  then obtain pushed where p: "ws' = pushed @ w # ws" using grown by blast
  have "pushed = []"
  proof (rule ccontr)
    assume "pushed \<noteq> []"
    then have "w \<in> set pushed" using h(4) p by (cases pushed) auto
    then show False using k(2) p by (simp add: list_rep_def)
  qed
  then have rep: "list_rep s' q v (w # ws) sd" using k(2) h p k0 by (simp add: list_rep_def)
  have nx: "nd_next nd = first ws" using list_rep_node [OF assms(1)] assms(2) by auto
  have "list_rep (s'\<lparr>ls_head := pack (q + 1) sd (first ws \<noteq> 0) (first ws)\<rparr>) (q + 1) 0 ws sd"
    using rep by (cases ws) (auto simp: list_rep_def)
  moreover have "head_withPop (ls_head s') (nd_next nd) = Some (pack (q + 1) sd (first ws \<noteq> 0) (first ws))"
    using list_rep_head [OF rep] nx by simp
  ultimately show ?thesis using rep list_rep_node [OF rep] nx by auto
qed

theorem pop_aba_safe_witness:
  "\<exists>s s' nd h. cas_turn s s' \<and> ls_head s' = ls_head s \<and> ls_nodes s' 7 = Some nd
    \<and> head_withPop (ls_head s') (nd_next nd) = Some h \<and> list_rep (s'\<lparr>ls_head := h\<rparr>) 4 0 [9] False"
proof -
  let ?s = "\<lparr>ls_head = pack 3 False True 7,
    ls_nodes = [7 \<mapsto> \<lparr>nd_next = 9, nd_baton = INIT\<rparr>, 9 \<mapsto> \<lparr>nd_next = 0, nd_baton = WAITING\<rparr>]\<rparr>"
  have rep: "list_rep ?s 3 0 [7, 9] False" by (simp add: list_rep_def)
  have "decrOrPush 1 0 ?s = Some (PUSH, 1, ?s)" by (simp add: decrOrPush_def)
  moreover have "\<not> in_list ?s 0" by (auto simp: in_list_def list_rep_def)
  ultimately have t: "cas_turn ?s ?s" by (rule cas_turn_decr_push)
  then have "(cas_turn ^^ 1) ?s ?s" by (simp only: relpowp_1)
  from pop_aba_safe [OF rep _ this] show ?thesis using t by fastforce
qed

text \<open>Pushing a waiter and popping it again gives back the semaphore's head, apart from the sequence
  number, which is one higher (and wraps around after 30 bits): the value or list underneath is
  what it was, for a semaphore that is not shut down.
\<close>

theorem push_pop_roundtrip:
  assumes "head_withPush h i = Some h'"
  shows "\<exists>h''. head_withPop h' (if head_isNodeIdx h then head_data h else 0) = Some h''
    \<and> head_isNodeIdx h'' = (head_isNodeIdx h \<and> head_data h \<noteq> 0) \<and> head_data h'' = head_data h
    \<and> head_isShutdown h'' = head_isShutdown h \<and> unat (head_seq h'') = (unat (head_seq h) + 1) mod 2 ^ 30"
proof -
  obtain q s n d where h: "h = pack q s n d" using pack_all [of h] by blast
  then have s: "(n \<or> d = 0) \<and> \<not> s \<and> i \<noteq> 0" "h' = pack q False True i"
    using assms by (auto split: if_splits)
  have up: "unat (ucast x :: id32) = unat x" for x :: "30 word"
    using unsigned_less [of x, where ?'a = nat] by (simp add: unsigned_ucast_eq take_bit_nat_eq_self)
  have "unat (ucast (q + 1 :: 30 word) :: id32) = (unat (ucast q :: id32) + 1) mod 2 ^ 30"
    unfolding up by (simp add: unat_word_ariths)
  then show ?thesis using h s by auto
qed

theorem push_pop_roundtrip_witness:
  "\<exists>h''. head_withPop (pack (- 1) False True 5) 0 = Some h'' \<and> head_data h'' = 0 \<and> unat (head_seq h'') = 0"
proof -
  have "head_withPush (pack (- 1) False False 0) 5 = Some (pack (- 1) False True 5)" by simp
  from push_pop_roundtrip [OF this] show ?thesis by auto
qed

end
