(* ===== verification/Lifo_System.thy ===== *)
theory Lifo_System imports Lifo_Sem begin

text \<open>
  Any number of threads on one semaphore of src/include/folly/LifoSem.h: a run is a sequence of
  events, each an operation of theory Lifo_Sem, with the permits offered by the posts (and by the
  initial value) and the permits granted to waits counted alongside. A wait takes a node the pool
  has free; the return from a blocked wait can be tried at any time and finds the thread still
  blocked until its baton is posted.
\<close>

datatype sem_event = Ev_post | Ev_post_n id32 | Ev_try | Ev_try_n id32 | Ev_wait id32
  | Ev_resume id32 | Ev_shutdown

definition possible :: "sem_event \<Rightarrow> lsem \<Rightarrow> bool" where
  "possible e s = (case e of
      Ev_wait i \<Rightarrow> i \<noteq> 0 \<and> i \<noteq> - 1 \<and> ls_nodes s i = None
    | Ev_resume i \<Rightarrow> ls_nodes s i \<noteq> None
    | _ \<Rightarrow> True)"

definition granted_by :: "wait_outcome \<Rightarrow> nat" where
  "granted_by r = (if r = Waited then 1 else 0)"

text \<open>Permits offered, permits granted, and the semaphore after it.\<close>

fun sem_exec :: "sem_event \<Rightarrow> lsem \<Rightarrow> (nat \<times> nat \<times> lsem) option" where
  "sem_exec Ev_post s = map_option (\<lambda>s. (1, 0, s)) (sem_post s)"
| "sem_exec (Ev_post_n n) s = map_option (\<lambda>s. (unat n, 0, s)) (sem_post_n n s)"
| "sem_exec Ev_try s = map_option (\<lambda>(b, s). (0, of_bool b, s)) (sem_tryWait s)"
| "sem_exec (Ev_try_n n) s = map_option (\<lambda>(k, s). (0, unat k, s)) (sem_tryWait_n n s)"
| "sem_exec (Ev_wait i) s = map_option (\<lambda>(r, s). (0, granted_by r, s)) (wait_begin i s)"
| "sem_exec (Ev_resume i) s = map_option (\<lambda>(r, s). (0, granted_by r, s)) (wait_end i s)"
| "sem_exec Ev_shutdown s = map_option (\<lambda>s. (0, 0, s)) (sem_shutdown s)"

inductive sem_reach :: "id32 \<Rightarrow> lsem \<Rightarrow> nat \<Rightarrow> nat \<Rightarrow> bool" for v0 :: id32 where
  reach_new: "sem_reach v0 (sem_new v0) (unat v0) 0"
| reach_step: "sem_reach v0 s p g \<Longrightarrow> possible e s \<Longrightarrow> sem_exec e s = Some (dp, dg, s') \<Longrightarrow>
    sem_reach v0 s' (p + dp) (g + dg)"

text \<open>One event on the abstract semaphore: it does not fail, and it accounts for its permits.\<close>

definition accounted :: "nat \<Rightarrow> nat \<Rightarrow> lsem \<Rightarrow> id32 \<Rightarrow> bool" where
  "accounted p g s v \<longleftrightarrow> g + permits s v \<le> p \<and> (p < 2 ^ 32 \<longrightarrow> g + permits s v = p)"

lemma accounted_gain:
  "accounted p g s v \<Longrightarrow> gain (permits s v) n (permits s' v') \<Longrightarrow> accounted (p + n) g s' v'"
  by (auto simp: accounted_def gain_def)

lemma accounted_take:
  "accounted p g s v \<Longrightarrow> permits s v = permits s' v' + n \<Longrightarrow> accounted p (g + n) s' v'"
  by (auto simp: accounted_def)

lemma permits_head:
  assumes "m \<le> v"
  shows "permits s v = permits (s\<lparr>ls_head := h\<rparr>) (v - m) + unat m"
  using assms by (simp add: permits_def inflight_def unat_sub word_le_nat_alt)

lemma take_one:
  "1 \<le> v \<Longrightarrow> accounted p g s v \<Longrightarrow> accounted p (Suc g) (s\<lparr>ls_head := h\<rparr>) (v - 1)"
  using accounted_take [OF _ permits_head, of p g s v 1 h] by simp

definition sem_keeps :: "sem_event \<Rightarrow> lsem \<Rightarrow> id32 \<Rightarrow> bool" where
  "sem_keeps e s v \<longleftrightarrow> (\<exists>dp dg s' v' ws' sd'. sem_exec e s = Some (dp, dg, s') \<and> sem_rep s' v' ws' sd'
     \<and> (\<forall>p g. accounted p g s v \<longrightarrow> accounted (p + dp) (g + dg) s' v'))"

lemma sem_keepsI:
  assumes "sem_exec e s = Some (dp, dg, s')" "sem_rep s' v' ws' sd'"
    "\<And>p g. accounted p g s v \<Longrightarrow> accounted (p + dp) (g + dg) s' v'"
  shows "sem_keeps e s v"
  using assms by (auto simp: sem_keeps_def)

lemma sem_keeps_post:
  assumes "sem_rep s v ws sd" shows "sem_keeps Ev_post s v"
proof (cases ws)
  case Nil
  then obtain q where q: "sem_post s = Some (s\<lparr>ls_head := pack q sd False (sat v 1)\<rparr>)"
    using sem_post_incr assms by blast
  show ?thesis
    by (rule sem_keepsI [where v' = "sat v 1" and ws' = "[]" and sd' = sd])
      (use q sem_rep_value [of s v sd] assms Nil accounted_gain [OF _ incr_gain [of s v 1]] in auto)
next
  case (Cons w rest)
  then obtain s' where s': "sem_post s = Some s'" "sem_rep s' 0 rest sd" "permits s' 0 = permits s v + 1"
    using sem_post_wake assms by blast
  show ?thesis
    by (rule sem_keepsI [where v' = 0]) (use s' in \<open>auto simp: accounted_def\<close>)
qed

lemma sem_keeps_post_n:
  assumes "sem_rep s v ws sd" shows "sem_keeps (Ev_post_n n) s v"
proof -
  from sem_post_n_ok [OF assms, of n] obtain s' v' where
    "sem_post_n n s = Some s'" "sem_rep s' v' (drop (unat n) ws) sd" "gain (permits s v) (unat n) (permits s' v')"
    by blast
  then show ?thesis using accounted_gain by (intro sem_keepsI [where v' = v']) auto
qed

lemma sem_keeps_try:
  assumes "sem_rep s v ws sd" shows "sem_keeps Ev_try s v" "sem_keeps (Ev_try_n n) s v"
proof -
  show "sem_keeps Ev_try s v"
  proof (cases "v = 0")
    case True
    then show ?thesis using sem_tryWait_ok(1) [OF assms] assms by (intro sem_keepsI) auto
  next
    case False
    then have v: "0 < v" "1 \<le> v" by (auto simp: word_gt_0 word_le_nat_alt unat_gt_0 [symmetric] Suc_le_eq)
    obtain q where q: "sem_tryWait s = Some (True, s\<lparr>ls_head := pack q sd False (v - 1)\<rparr>)"
      using sem_tryWait_ok(2) [OF assms v(1)] by blast
    have rep: "sem_rep s v [] sd" using assms False by (auto simp: sem_rep_def)
    show ?thesis
      by (rule sem_keepsI [where v' = "v - 1" and ws' = "[]" and sd' = sd])
        (use q sem_rep_value [of s v sd] rep take_one [OF v(2)] in auto)
  qed
  show "sem_keeps (Ev_try_n n) s v"
  proof (cases "min n v = 0")
    case True
    then show ?thesis using sem_tryWait_n_ok [OF assms, of n] assms by (intro sem_keepsI) auto
  next
    case False
    obtain q where q: "sem_tryWait_n n s = Some (min n v, s\<lparr>ls_head := pack q sd False (v - min n v)\<rparr>)"
      using sem_tryWait_n_ok [OF assms, of n] False by auto
    have m: "min n v \<le> v" by simp
    have "ws = []" using False assms by (auto simp: sem_rep_def min_def split: if_splits)
    then show ?thesis
      by (intro sem_keepsI [where v' = "v - min n v" and ws' = "[]" and sd' = sd])
        (use q sem_rep_value [of s v sd] assms accounted_take [OF _ permits_head [OF m, of s]] in auto)
  qed
qed

lemma sem_keeps_wait:
  assumes "sem_rep s v ws sd" "possible (Ev_wait i) s" shows "sem_keeps (Ev_wait i) s v"
proof (cases "v = 0")
  case True
  have i: "ls_nodes s i = None" "i \<noteq> 0" "i \<noteq> - 1" using assms(2) by (auto simp: possible_def)
  have rep: "sem_rep s 0 ws sd" using assms(1) True by simp
  show ?thesis
  proof (cases sd)
    case True
    then show ?thesis
      using wait_begin_blocks(1) [OF rep i] assms(1) by (intro sem_keepsI) (auto simp: granted_by_def)
  next
    case False
    then obtain s' where "wait_begin i s = Some (Blocked, s')" "sem_rep s' 0 (i # ws) False"
        "inflight s' = inflight s" using wait_begin_blocks(2) [OF rep i] by blast
    then show ?thesis using \<open>v = 0\<close>
      by (intro sem_keepsI [where v' = 0]) (auto simp: granted_by_def accounted_def permits_def)
  qed
next
  case False
  then have v: "0 < v" "1 \<le> v" by (auto simp: word_gt_0 word_le_nat_alt unat_gt_0 [symmetric] Suc_le_eq)
  obtain q where q: "wait_begin i s = Some (Waited, s\<lparr>ls_head := pack q sd False (v - 1)\<rparr>)"
    using wait_begin_now [OF assms(1) v(1)] by blast
  have "sem_rep s v [] sd" using assms(1) False by (auto simp: sem_rep_def)
  then show ?thesis
    by (intro sem_keepsI [where v' = "v - 1" and ws' = "[]" and sd' = sd])
      (use q sem_rep_value [of s v sd] take_one [OF v(2)] in \<open>auto simp: granted_by_def\<close>)
qed

lemma sem_keeps_resume:
  assumes "sem_rep s v ws sd" "possible (Ev_resume i) s" shows "sem_keeps (Ev_resume i) s v"
proof -
  obtain nd where nd: "ls_nodes s i = Some nd" using assms(2) by (auto simp: possible_def)
  show ?thesis
  proof (cases "i \<in> set ws")
    case True
    then show ?thesis using wait_end_waiting [OF assms(1) True nd] assms(1)
      by (intro sem_keepsI) (auto simp: granted_by_def)
  next
    case False
    then show ?thesis using wait_end_woken [OF assms(1) False nd] accounted_take [of _ _ s v "recycle i s" v 1]
      by (intro sem_keepsI [where s' = "recycle i s" and v' = v and ws' = ws and sd' = sd
            and dg = "of_bool (i \<in> inflight s)" and dp = 0])
        (auto simp: granted_by_def accounted_def split: if_splits)
  qed
qed

lemma sem_keeps_shutdown:
  assumes "sem_rep s v ws sd" shows "sem_keeps Ev_shutdown s v"
  using sem_shutdown_ok [OF assms] by (auto intro!: sem_keepsI simp: accounted_def permits_def)

lemmas sem_keeps_rules = sem_keeps_post sem_keeps_post_n sem_keeps_try sem_keeps_wait sem_keeps_resume sem_keeps_shutdown

lemma event_keeps: "sem_rep s v ws sd \<Longrightarrow> possible e s \<Longrightarrow> sem_keeps e s v"
  by (cases e) (auto intro: sem_keeps_rules)

lemma sem_reach_rep:
  "sem_reach v0 s p g \<Longrightarrow> \<exists>v ws sd. sem_rep s v ws sd \<and> accounted p g s v"
proof (induction rule: sem_reach.induct)
  case reach_new
  then show ?case using sem_new_rep by (fastforce simp: accounted_def permits_def)
next
  case (reach_step s p g e dp dg s')
  then obtain v ws sd where rep: "sem_rep s v ws sd" "accounted p g s v" by blast
  from event_keeps [OF this(1) reach_step.hyps(2)] show ?case
    using reach_step.hyps(3) rep(2) by (auto simp: sem_keeps_def)
qed

subsection \<open>What the semaphore guarantees\<close>

lemma sem_valueGuess_rep: "sem_rep s v ws sd \<Longrightarrow> sem_valueGuess s = v"
  by (cases ws) (auto simp: sem_valueGuess_def sem_rep_def Let_def)

text \<open>C8. Permits are neither invented nor lost: after any run of posts, waits, tries and shutdowns, the
  permits granted, the value, and the posts on their way to a woken waiter add up to the permits
  offered; once more than 2 ^ 32 - 1 have been offered the saturated value may have
  dropped some, but there are never more. And while a waiter is blocked, the value is zero.
\<close>

theorem sem_conserves_permits:
  assumes "sem_reach v0 s offered granted"
  shows "granted + unat (sem_valueGuess s) + card (inflight s) \<le> offered
    \<and> (offered < 2 ^ 32 \<longrightarrow> granted + unat (sem_valueGuess s) + card (inflight s) = offered)
    \<and> (\<forall>i nd. ls_nodes s i = Some nd \<and> unposted nd \<longrightarrow> sem_valueGuess s = 0)"
proof -
  obtain v ws sd where rep: "sem_rep s v ws sd" "accounted offered granted s v"
    using sem_reach_rep [OF assms] by blast
  have "v = 0" if "ls_nodes s i = Some nd" "unposted nd" for i nd
  proof -
    have "i \<in> set ws" using sem_rep_node(2) [OF rep(1) that(1)] unposted_woken [OF that(2)] by blast
    then show ?thesis using rep(1) by (auto simp: sem_rep_def)
  qed
  then show ?thesis
    using rep(2) sem_valueGuess_rep [OF rep(1)] by (auto simp: accounted_def permits_def)
qed

lemma sem_new_wait: "\<exists>s. sem_reach 0 s 0 0 \<and> wait_begin 5 (sem_new 0) = Some (Blocked, s)"
proof -
  have "ls_nodes (sem_new 0) 5 = None" by (simp add: sem_new_def)
  then obtain s where s: "wait_begin 5 (sem_new 0) = Some (Blocked, s)"
    using wait_begin_blocks(2) [OF sem_new_rep(1) [of 0], of 5] by auto
  have "possible (Ev_wait 5) (sem_new 0)" by (simp add: possible_def sem_new_def)
  from reach_step [OF reach_new this] s show ?thesis by (simp add: granted_by_def)
qed

theorem sem_conserves_permits_witness:
  "\<exists>s. sem_reach 0 s 1 0 \<and> unat (sem_valueGuess s) + card (inflight s) = 1"
proof -
  obtain s where s: "sem_reach 0 s 0 0" using sem_new_wait by blast
  obtain v ws sd where "sem_rep s v ws sd" using sem_reach_rep [OF s] by blast
  then obtain s' where s': "sem_post s = Some s'"
    using event_keeps [of s v ws sd Ev_post] by (auto simp: possible_def sem_keeps_def)
  have "sem_reach 0 s' 1 0" using reach_step [OF s, of Ev_post 1 0 s'] s' by (simp add: possible_def)
  then show ?thesis using sem_conserves_permits [of 0 s' 1 0] by auto
qed

text \<open>C28. No operation fails: in every reachable state, whatever a thread may do next (post any number
  of permits, try, wait with a node the pool has free, look whether its baton is posted, shut
  down), no assertion of LifoSem.h or Baton.h is violated, no node outside of the allocated ones
  is touched, and the loops of post, tryWait and shutdown end.
\<close>

theorem sem_never_fails:
  assumes "sem_reach v0 s offered granted" "possible e s"
  shows "sem_exec e s \<noteq> None"
proof -
  obtain v ws sd where "sem_rep s v ws sd" using sem_reach_rep [OF assms(1)] by blast
  from event_keeps [OF this assms(2)] show ?thesis unfolding sem_keeps_def by force
qed

theorem sem_never_fails_witness: "\<exists>s. sem_reach 0 s 0 0 \<and> sem_exec (Ev_resume 5) s \<noteq> None"
proof -
  obtain s where s: "sem_reach 0 s 0 0" "wait_begin 5 (sem_new 0) = Some (Blocked, s)"
    using sem_new_wait by blast
  have "ls_nodes (sem_new 0) 5 = None" by (simp add: sem_new_def)
  then have "possible (Ev_resume 5) s"
    using wait_begin_blocks(2) [OF sem_new_rep(1) [of 0], of 5] s(2) by (auto simp: possible_def)
  from sem_never_fails [OF s(1) this] s(1) show ?thesis by blast
qed

text \<open>Wake-ups are last in, first out: if a wait has just blocked, the next post wakes that waiter,
  which then returns with a permit, and touches no other waiter's node; the value stays zero.
\<close>

theorem sem_wakes_last:
  assumes "sem_reach v0 s offered granted" "possible (Ev_wait i) s" "wait_begin i s = Some (Blocked, s1)"
  shows "\<exists>s2 s3. sem_post s1 = Some s2 \<and> wait_end i s2 = Some (Waited, s3)
    \<and> ls_nodes s3 = ls_nodes s \<and> sem_valueGuess s3 = 0"
proof -
  obtain v ws sd where rep: "sem_rep s v ws sd" using sem_reach_rep [OF assms(1)] by blast
  have i: "ls_nodes s i = None" "i \<noteq> 0" "i \<noteq> - 1" using assms(2) by (auto simp: possible_def)
  have v: "v = 0"
  proof (rule ccontr)
    assume "v \<noteq> 0"
    then show False using wait_begin_now [OF rep, of i] assms(3) by (auto simp: word_gt_0)
  qed
  then have rep0: "sem_rep s 0 ws sd" using rep by simp
  have "\<not> sd" using wait_begin_blocks(1) [OF rep0 i] assms(3) by auto
  then have rep1: "sem_rep s1 0 (i # ws) False"
      and n1: "ls_nodes s1 = (ls_nodes s)(i \<mapsto> \<lparr>nd_next = first ws, nd_baton = INIT\<rparr>)"
    using wait_begin_blocks(2) [OF rep0 i] assms(3) by auto
  obtain s2 nd where s2: "sem_post s1 = Some s2" "sem_rep s2 0 ws False"
      "ls_nodes s2 = (ls_nodes s1)(i \<mapsto> nd)" "woken nd" "\<not> node_isShutdownNotice nd"
    using sem_post_wake [OF rep1] by blast
  have iw: "i \<notin> set ws" and inf: "i \<in> inflight s2"
    using rep1 s2 by (auto simp: sem_rep_def inflight_def)
  have n2: "ls_nodes s2 i = Some nd" using s2(3) by simp
  from wait_end_woken [OF s2(2) iw n2] inf
  have s3: "wait_end i s2 = Some (Waited, recycle i s2)" "sem_rep (recycle i s2) 0 ws False" by auto
  moreover have "ls_nodes (recycle i s2) = ls_nodes s"
    using s2(3) n1 i(1) by (auto simp: recycle_def fun_eq_iff)
  ultimately show ?thesis using s2(1) sem_valueGuess_rep by blast
qed

theorem sem_wakes_last_witness:
  "\<exists>s1 s2 s3. wait_begin 5 (sem_new 0) = Some (Blocked, s1) \<and> sem_post s1 = Some s2
    \<and> wait_end 5 s2 = Some (Waited, s3)"
proof -
  have "possible (Ev_wait 5) (sem_new 0)" by (simp add: possible_def sem_new_def)
  then show ?thesis
    using sem_new_wait sem_wakes_last [OF reach_new, of 5 0] by metis
qed

text \<open>C31. Shutting down: every blocked waiter is woken and throws, a waiter already woken by a post
  still returns with its permit, the permits in the value can still be taken, and a wait that
  would block throws instead.
\<close>

theorem sem_shutdown_wakes_all:
  assumes "sem_reach v0 s offered granted"
  shows "\<exists>s'. sem_shutdown s = Some s' \<and> sem_isShutdown s' \<and> sem_valueGuess s' = sem_valueGuess s
    \<and> (\<forall>i nd. ls_nodes s i = Some nd \<longrightarrow>
         (\<exists>s''. wait_end i s' = Some (if i \<in> inflight s then Waited else Throws, s'')))
    \<and> (\<forall>i. possible (Ev_wait i) s' \<longrightarrow>
         (\<exists>s''. wait_begin i s' = Some (if sem_valueGuess s = 0 then Throws else Waited, s'')))"
proof -
  obtain v ws sd where rep: "sem_rep s v ws sd" using sem_reach_rep [OF assms] by blast
  obtain s' where s': "sem_shutdown s = Some s'" "sem_rep s' v [] True" "inflight s' = inflight s"
      "\<forall>w\<in>set ws. \<exists>nd. ls_nodes s' w = Some nd \<and> woken nd \<and> node_isShutdownNotice nd"
      "\<forall>i. i \<notin> set ws \<longrightarrow> ls_nodes s' i = ls_nodes s i"
    using sem_shutdown_ok [OF rep] by blast
  have ends: "\<exists>s''. wait_end i s' = Some (if i \<in> inflight s then Waited else Throws, s'')"
    if nd: "ls_nodes s i = Some nd" for i nd
  proof -
    obtain nd' where "ls_nodes s' i = Some nd'"
      using s'(4,5) nd by (cases "i \<in> set ws") auto
    then show ?thesis using wait_end_woken [OF s'(2), of i nd'] s'(3) by (auto split: if_splits)
  qed
  have "wait_begin i s' = Some (Throws, s')" if "v = 0" "possible (Ev_wait i) s'" for i
    using wait_begin_blocks(1) [of s' "[]" True i] s'(2) that by (auto simp: possible_def)
  moreover have "\<exists>s''. wait_begin i s' = Some (Waited, s'')" if "v \<noteq> 0" for i
    using wait_begin_now [OF s'(2), of i] that by (auto simp: word_gt_0)
  ultimately show ?thesis
    using s' ends sem_valueGuess_rep [OF rep] sem_valueGuess_rep [OF s'(2)] sem_rep_sd [OF s'(2)]
    by (intro exI [of _ s']) (auto simp: sem_isShutdown_def)
qed

theorem sem_shutdown_wakes_all_witness:
  "\<exists>s s' s''. sem_reach 0 s 0 0 \<and> sem_shutdown s = Some s' \<and> wait_end 5 s' = Some (Throws, s'')"
proof -
  obtain s where s: "sem_reach 0 s 0 0" "wait_begin 5 (sem_new 0) = Some (Blocked, s)"
    using sem_new_wait by blast
  have "ls_nodes (sem_new 0) 5 = None" by (simp add: sem_new_def)
  then have "ls_nodes s 5 = Some \<lparr>nd_next = first [], nd_baton = INIT\<rparr>" "inflight s = {}"
    using wait_begin_blocks(2) [OF sem_new_rep(1) [of 0], of 5] s(2) sem_new_rep(2) by auto
  with sem_shutdown_wakes_all [OF s(1)] s(1) show ?thesis by fastforce
qed

end
