(* ===== verification/Thread_Pool.thy ===== *)
theory Thread_Pool imports PC_Queue Lifo_Sem begin

text \<open>
  The thread pool of src/contentious/threadpool.h and threadpool.cc: the queues of tasks and of
  resolutions (theory PC_Queue), a semaphore per worker, the resolution lock, and the program
  points of the workers and of the main thread that submits.

  A closure is a value; running it appends it to a log, and the resolutions it submits itself (a
  task's reattach does) are the argument spawns. A semaphore is the number of
  its permits, with the saturation of its value: by the theorem on permits of theory
  Lifo_System this is what its one waiter sees. A call on a queue, on the lock or on a
  semaphore is one step. The condition variable wakes the main thread if it is asleep, and may
  wake it for no reason.
\<close>

definition QUEUE_SZ :: id32 where
  "QUEUE_SZ = 512"

datatype 'c worker_at = W_wait | W_woken | W_try | W_locked | W_empty | W_resolve id32 | W_resolved
  | W_unlock | W_post nat | W_tasks | W_run id32 | W_spawn "'c list" | W_spawn_post nat "'c list"
  | W_ran | W_notify | W_exit | W_failed

datatype 'c main_at = M_idle | M_write 'c nat | M_post nat | M_rwrite 'c | M_posts nat
  | M_check nat bool | M_check_resns nat bool | M_sleep | M_asleep | M_joined

record 'c pool =
  po_tasks :: "nat \<Rightarrow> 'c pcq"
  po_resns :: "'c pcq"
  po_spin :: bool
  po_comp_tasks :: "nat \<Rightarrow> 64 word"
  po_comp_resns :: "64 word"
  po_sems :: "nat \<Rightarrow> id32"
  po_rlck :: "nat option"
  po_resolver :: nat
  po_at :: "nat \<Rightarrow> 'c worker_at"
  po_main :: "'c main_at"
  po_sent :: "nat \<Rightarrow> 'c list"
  po_rsent :: "'c list"
  po_ran :: "nat \<Rightarrow> 'c list"
  po_rran :: "'c list"

text \<open>The constructor: empty queues, and a thread per queue at the top of its loop.\<close>

definition pool_new :: "'c pool" where
  "pool_new = (let q = projr (pcq_new QUEUE_SZ True) in
     \<lparr>po_tasks = (\<lambda>p. fst (pcq_move q)), po_resns = q, po_spin = True,
      po_comp_tasks = (\<lambda>p. 0), po_comp_resns = 0, po_sems = (\<lambda>p. 0), po_rlck = None,
      po_resolver = 0, po_at = (\<lambda>p. W_wait), po_main = M_idle,
      po_sent = (\<lambda>p. []), po_rsent = [], po_ran = (\<lambda>p. []), po_rran = []\<rparr>)"

definition goto :: "nat \<Rightarrow> 'c worker_at \<Rightarrow> 'c pool \<Rightarrow> 'c pool" where
  "goto p w s = s\<lparr>po_at := (po_at s)(p := w)\<rparr>"

definition post_to :: "nat \<Rightarrow> 'c pool \<Rightarrow> 'c pool" where
  "post_to k s = s\<lparr>po_sems := (po_sems s)(k := sat (po_sems s k) 1)\<rparr>"

text \<open>
  One step of worker p; None if it is blocked on its semaphore, has to retry a
  write to a full queue, or has ended.
\<close>

definition worker_step :: "nat \<Rightarrow> ('c \<Rightarrow> 'c list) \<Rightarrow> nat \<Rightarrow> 'c pool \<Rightarrow> 'c pool option" where
  "worker_step hw spawns p s = (case po_at s p of
      W_wait \<Rightarrow> if po_sems s p > 0
        then Some (goto p W_woken (s\<lparr>po_sems := (po_sems s)(p := po_sems s p - 1)\<rparr>)) else None
    | W_woken \<Rightarrow> if po_spin s then Some (goto p W_try s)
        else if pcq_is_empty (po_tasks s p) \<and> pcq_is_empty (po_resns s) then Some (goto p W_exit s)
        else Some (goto p W_failed s)
    | W_try \<Rightarrow> if po_rlck s = None then Some (goto p W_locked (s\<lparr>po_rlck := Some p\<rparr>))
        else Some (goto p W_tasks s)
    | W_locked \<Rightarrow> if pcq_is_empty (po_resns s) then Some (goto p W_empty s)
        else (case pcq_front (po_resns s) of
            None \<Rightarrow> Some (goto p W_failed s)
          | Some i \<Rightarrow> Some (goto p (W_resolve i) (s\<lparr>po_resolver := p\<rparr>)))
    | W_empty \<Rightarrow> Some (goto p W_tasks (s\<lparr>po_rlck := None\<rparr>))
    | W_resolve i \<Rightarrow> (case slot_get (po_resns s) i of
          Inl e \<Rightarrow> Some (goto p W_failed s)
        | Inr c \<Rightarrow> Some (goto p W_resolved (s\<lparr>po_rran := po_rran s @ [c]\<rparr>)))
    | W_resolved \<Rightarrow> (case pcq_pop (po_resns s) of
          Inl e \<Rightarrow> Some (goto p W_failed s)
        | Inr q \<Rightarrow> Some (goto p W_unlock (s\<lparr>po_resns := q, po_comp_resns := po_comp_resns s + 1\<rparr>)))
    | W_unlock \<Rightarrow> Some (goto p (W_post 0) (s\<lparr>po_rlck := None\<rparr>))
    | W_post k \<Rightarrow> Some (if k < hw then goto p (W_post (Suc k)) (post_to k s) else goto p W_wait s)
    | W_tasks \<Rightarrow> if \<not> pcq_is_empty (po_tasks s p) then
          (case pcq_front (po_tasks s p) of
            None \<Rightarrow> Some (goto p W_failed s)
          | Some i \<Rightarrow> Some (goto p (W_run i) s))
        else Some (goto p W_notify s)
    | W_run i \<Rightarrow> (case slot_get (po_tasks s p) i of
          Inl e \<Rightarrow> Some (goto p W_failed s)
        | Inr c \<Rightarrow> Some (goto p (W_spawn (spawns c)) (s\<lparr>po_ran := (po_ran s)(p := po_ran s p @ [c])\<rparr>)))
    | W_spawn [] \<Rightarrow> Some (goto p W_ran s)
    | W_spawn (r # rs) \<Rightarrow> (case pcq_write r (po_resns s) of
          Inl e \<Rightarrow> Some (goto p W_failed s)
        | Inr (b, q) \<Rightarrow> if b then
            Some (goto p (W_spawn_post 0 rs) (s\<lparr>po_resns := q, po_rsent := po_rsent s @ [r]\<rparr>)) else None)
    | W_spawn_post k rs \<Rightarrow>
        Some (if k < hw then goto p (W_spawn_post (Suc k) rs) (post_to k s) else goto p (W_spawn rs) s)
    | W_ran \<Rightarrow> (case pcq_pop (po_tasks s p) of
          Inl e \<Rightarrow> Some (goto p W_failed s)
        | Inr q \<Rightarrow> Some (goto p W_notify (s\<lparr>po_tasks := (po_tasks s)(p := q),
            po_comp_tasks := (po_comp_tasks s)(p := po_comp_tasks s p + 1)\<rparr>)))
    | W_notify \<Rightarrow> Some (goto p W_wait
        (s\<lparr>po_main := if po_main s = M_asleep then M_check 0 True else po_main s\<rparr>))
    | W_exit \<Rightarrow> None
    | W_failed \<Rightarrow> None)"

text \<open>
  The main thread: the calls it can make, and the steps inside of them. finish reads the
  two queues of each turn of its predicate one after the other, goes to sleep if it found one of
  them not empty, and starts over when it is woken.
\<close>

datatype 'c main_call = Submit 'c nat | Submitr 'c | Finish | Stop | Continue | Spurious

definition main_step :: "nat \<Rightarrow> 'c main_call \<Rightarrow> 'c pool \<Rightarrow> 'c pool option" where
  "main_step hw a s = (case po_main s of
      M_idle \<Rightarrow> (case a of
          Submit c p \<Rightarrow> if p < hw then Some (s\<lparr>po_main := M_write c p\<rparr>) else None
        | Submitr c \<Rightarrow> Some (s\<lparr>po_main := M_rwrite c\<rparr>)
        | Finish \<Rightarrow> Some (s\<lparr>po_main := M_check 0 True\<rparr>)
        | Stop \<Rightarrow> Some (s\<lparr>po_spin := False, po_main := M_posts 0\<rparr>)
        | _ \<Rightarrow> None)
    | M_write c p \<Rightarrow> (case pcq_write c (po_tasks s p) of
          Inl e \<Rightarrow> None
        | Inr (b, q) \<Rightarrow> if b then Some (s\<lparr>po_tasks := (po_tasks s)(p := q), po_main := M_post p,
            po_sent := (po_sent s)(p := po_sent s p @ [c])\<rparr>) else None)
    | M_post p \<Rightarrow> Some ((post_to p s)\<lparr>po_main := M_idle\<rparr>)
    | M_rwrite c \<Rightarrow> (case pcq_write c (po_resns s) of
          Inl e \<Rightarrow> None
        | Inr (b, q) \<Rightarrow> if b then Some (s\<lparr>po_resns := q, po_main := M_posts 0,
            po_rsent := po_rsent s @ [c]\<rparr>) else None)
    | M_posts k \<Rightarrow> Some (if k < hw then (post_to k s)\<lparr>po_main := M_posts (Suc k)\<rparr>
        else s\<lparr>po_main := M_idle\<rparr>)
    | M_check p ret \<Rightarrow> Some (if p < hw
        then (if pcq_is_empty (po_tasks s p) then s\<lparr>po_main := M_check_resns p ret\<rparr>
              else s\<lparr>po_main := M_check (Suc p) False\<rparr>)
        else s\<lparr>po_main := if ret then M_idle else M_sleep\<rparr>)
    | M_check_resns p ret \<Rightarrow>
        Some (s\<lparr>po_main := M_check (Suc p) (ret \<and> pcq_is_empty (po_resns s))\<rparr>)
    | M_sleep \<Rightarrow> Some (s\<lparr>po_main := M_asleep\<rparr>)
    | M_asleep \<Rightarrow> (if a = Spurious then Some (s\<lparr>po_main := M_check 0 True\<rparr>) else None)
    | M_joined \<Rightarrow> None)"

text \<open>Joining the threads: the destructor returns once every worker has left its loop.\<close>

definition pool_join :: "nat \<Rightarrow> 'c pool \<Rightarrow> 'c pool option" where
  "pool_join hw s = (if po_main s = M_idle \<and> (\<forall>p\<in>{..<hw}. po_at s p = W_exit)
     then Some (s\<lparr>po_main := M_joined\<rparr>) else None)"

text \<open>Runs: any interleaving of the workers with a main thread that does not stop the pool.\<close>

inductive pool_reach :: "nat \<Rightarrow> ('c \<Rightarrow> 'c list) \<Rightarrow> 'c pool \<Rightarrow> bool" for hw spawns where
  reach_new: "pool_reach hw spawns pool_new"
| reach_worker: "pool_reach hw spawns s \<Longrightarrow> p < hw \<Longrightarrow> worker_step hw spawns p s = Some s' \<Longrightarrow>
     pool_reach hw spawns s'"
| reach_main: "pool_reach hw spawns s \<Longrightarrow> a \<noteq> Stop \<Longrightarrow> main_step hw a s = Some s' \<Longrightarrow>
     pool_reach hw spawns s'"

end
