(* ===== verification/Pool_Correct.thy ===== *)
theory Pool_Correct imports Thread_Pool begin

text \<open>
  What the pool of theory Thread_Pool guarantees: the invariant of its queues, lock and program
  points (pool_ok), the permits that wake the workers for what is queued
  (tokens_ok, hot), and from them that nothing is run twice, out of order or not at
  all, that work left over always finds a worker able to step, and that the workers come to rest.
\<close>

subsection \<open>Queues under the pool's steps\<close>

lemma pcq_front_read: "pcq_front q = Some i \<Longrightarrow> i = pq_read q"
  by (auto simp: pcq_front_def Let_def split: if_splits)

lemma pcq_write_keeps: "pcq_write v q = Inr (b, q') \<Longrightarrow> pq_read q' = pq_read q \<and> pq_size q' = pq_size q"
  by (auto simp: pcq_write_def Let_def slot_construct_def split: if_splits option.splits)

text \<open>A queue of the pool that holds a given list.\<close>

definition holds :: "'c pcq \<Rightarrow> 'c list \<Rightarrow> bool" where
  "holds q xs \<longleftrightarrow> pcq_rep q xs \<and> pq_size q = QUEUE_SZ"

lemma holds_length: "holds q xs \<Longrightarrow> length xs \<le> 511"
  using pcq_repD(4) by (fastforce simp: holds_def QUEUE_SZ_def)

lemma holds_empty [simp]: "holds q xs \<Longrightarrow> pcq_is_empty q \<longleftrightarrow> xs = []"
  by (simp add: holds_def pcq_is_empty_rep)

lemma holds_write:
  assumes "holds q xs" "pcq_write c q = Inr (True, q')"
  shows "holds q' (xs @ [c])" "pq_read q' = pq_read q"
proof -
  show "pq_read q' = pq_read q" using pcq_write_keeps [OF assms(2)] ..
  have rep: "pcq_rep q xs" using assms(1) by (simp add: holds_def)
  have "length xs < cap q"
  proof (rule ccontr)
    assume "\<not> length xs < cap q"
    then have "length xs = cap q" using pcq_repD(4) [OF rep] by (simp add: cap_def)
    then show False using pcq_write_full [OF rep, of c] assms(2) by simp
  qed
  then show "holds q' (xs @ [c])"
    using pcq_write_room [OF rep, of c] assms by (auto simp: holds_def)
qed

lemma holds_write_some:
  assumes "holds q xs"
  shows "\<exists>b q'. pcq_write c q = Inr (b, q') \<and> (length xs < 511 \<longrightarrow> b)"
proof -
  have rep: "pcq_rep q xs" and c: "cap q = 511" using assms by (simp_all add: holds_def cap_def QUEUE_SZ_def)
  show ?thesis
  proof (cases "length xs < 511")
    case True
    then show ?thesis using pcq_write_room [OF rep, of c] c by auto
  next
    case False
    then have "length xs = cap q" using holds_length [OF assms] c by simp
    then show ?thesis using pcq_write_full [OF rep, of c] False by auto
  qed
qed

lemma holds_front: "holds q xs \<Longrightarrow> xs \<noteq> [] \<Longrightarrow> pcq_front q = Some (pq_read q)"
  using pcq_front_rep(1) [of q xs] pcq_front_read by (fastforce simp: holds_def)

lemma holds_get: "holds q xs \<Longrightarrow> xs \<noteq> [] \<Longrightarrow> slot_get q (pq_read q) = Inr (hd xs)"
  using slot_get_front [of q "hd xs" "tl xs"] by (simp add: holds_def)

lemma holds_pop:
  assumes "holds q xs" "xs \<noteq> []"
  shows "\<exists>q'. pcq_pop q = Inr q' \<and> holds q' (tl xs)"
  using pcq_pop_Cons [of q "hd xs" "tl xs"] assms by (auto simp: holds_def)

lemma holds_new: "holds (projr (pcq_new QUEUE_SZ True)) []"
proof -
  have "(2::id32) \<le> QUEUE_SZ" by (simp add: QUEUE_SZ_def)
  from pcq_new_rep [OF this] show ?thesis
    by (auto simp: holds_def pcq_new_def split: if_splits)
qed

subsection \<open>The invariant of queues, lock and program points\<close>

definition has_lock :: "'c worker_at \<Rightarrow> bool" where
  "has_lock w \<longleftrightarrow> w \<in> {W_locked, W_empty, W_resolved, W_unlock} \<or> (\<exists>i. w = W_resolve i)"

definition task_run :: "'c worker_at \<Rightarrow> bool" where
  "task_run w \<longleftrightarrow> w = W_ran \<or> (\<exists>rs. w = W_spawn rs) \<or> (\<exists>k rs. w = W_spawn_post k rs)"

definition at_ok :: "'c pcq \<Rightarrow> 'c list \<Rightarrow> 'c pcq \<Rightarrow> 'c list \<Rightarrow> 'c worker_at \<Rightarrow> bool" where
  "at_ok q xs rq rs w = (case w of
      W_resolve i \<Rightarrow> rs \<noteq> [] \<and> i = pq_read rq
    | W_resolved \<Rightarrow> rs \<noteq> []
    | W_run i \<Rightarrow> xs \<noteq> [] \<and> i = pq_read q
    | W_exit \<Rightarrow> False
    | W_failed \<Rightarrow> False
    | _ \<Rightarrow> task_run w \<longrightarrow> xs \<noteq> [])"

definition worker_ok :: "'c pool \<Rightarrow> 'c list \<Rightarrow> 'c list \<Rightarrow> nat \<Rightarrow> bool" where
  "worker_ok s xs rq p \<longleftrightarrow> holds (po_tasks s p) xs
     \<and> at_ok (po_tasks s p) xs (po_resns s) rq (po_at s p)
     \<and> po_sent s p = po_ran s p @ (if task_run (po_at s p) then tl xs else xs)
     \<and> (po_rlck s = Some p \<longleftrightarrow> has_lock (po_at s p))"

text \<open>The resolution at the front has been run and is about to be popped.\<close>

definition taken :: "'c pool \<Rightarrow> bool" where
  "taken s = (case po_rlck s of None \<Rightarrow> False | Some p \<Rightarrow> po_at s p = W_resolved)"

definition main_ok :: "nat \<Rightarrow> 'c main_at \<Rightarrow> bool" where
  "main_ok hw m = (case m of M_write c p \<Rightarrow> p < hw | M_post p \<Rightarrow> p < hw | M_joined \<Rightarrow> False | _ \<Rightarrow> True)"

definition pool_ok :: "nat \<Rightarrow> 'c pool \<Rightarrow> (nat \<Rightarrow> 'c list) \<Rightarrow> 'c list \<Rightarrow> bool" where
  "pool_ok hw s tq rq \<longleftrightarrow> po_spin s \<and> main_ok hw (po_main s) \<and> holds (po_resns s) rq
     \<and> (\<forall>p<hw. worker_ok s (tq p) rq p) \<and> (\<forall>p. po_rlck s = Some p \<longrightarrow> p < hw)
     \<and> po_rsent s = po_rran s @ (if taken s then tl rq else rq)"

lemma goto_sel [simp]:
  "po_tasks (goto p w s) = po_tasks s" "po_resns (goto p w s) = po_resns s"
  "po_spin (goto p w s) = po_spin s" "po_sems (goto p w s) = po_sems s"
  "po_rlck (goto p w s) = po_rlck s" "po_at (goto p w s) = (po_at s)(p := w)"
  "po_main (goto p w s) = po_main s" "po_sent (goto p w s) = po_sent s"
  "po_rsent (goto p w s) = po_rsent s" "po_ran (goto p w s) = po_ran s" "po_rran (goto p w s) = po_rran s"
  by (simp_all add: goto_def)

lemma post_to_sel [simp]:
  "po_tasks (post_to k s) = po_tasks s" "po_resns (post_to k s) = po_resns s"
  "po_spin (post_to k s) = po_spin s" "po_sems (post_to k s) = (po_sems s)(k := sat (po_sems s k) 1)"
  "po_rlck (post_to k s) = po_rlck s" "po_at (post_to k s) = po_at s"
  "po_main (post_to k s) = po_main s" "po_sent (post_to k s) = po_sent s"
  "po_rsent (post_to k s) = po_rsent s" "po_ran (post_to k s) = po_ran s" "po_rran (post_to k s) = po_rran s"
  by (simp_all add: post_to_def)

lemma holds_moved [simp]: "holds (q\<lparr>pq_moved := b\<rparr>) xs = holds q xs"
  by (simp add: holds_def pcq_rep_def)

lemma pool_ok_new: "pool_ok hw (pool_new :: 'c pool) (\<lambda>p. []) []"
proof -
  have "holds (projr (pcq_new QUEUE_SZ True) :: 'c pcq) []" by (rule holds_new)
  then show ?thesis
    by (simp add: pool_ok_def worker_ok_def taken_def main_ok_def pool_new_def Let_def pcq_move_def
        at_ok_def task_run_def has_lock_def)
qed

text \<open>
  A step of worker p that changes no queue: where it goes, the lock it takes or gives back,
  and permits.
\<close>

lemma pool_ok_local:
  assumes ok: "pool_ok hw s tq rq" and p: "p < hw" "po_at s' = (po_at s)(p := w)"
    and same: "po_spin s' = po_spin s" "po_tasks s' = po_tasks s" "po_resns s' = po_resns s"
      "po_sent s' = po_sent s" "po_rsent s' = po_rsent s" "po_ran s' = po_ran s" "po_rran s' = po_rran s"
    and m: "po_main s' = po_main s \<or> main_ok hw (po_main s')"
    and w: "at_ok (po_tasks s p) (tq p) (po_resns s) rq w" "task_run w = task_run (po_at s p)"
      "w \<noteq> W_resolved" "po_at s p \<noteq> W_resolved"
    and lock: "po_rlck s' = (if has_lock w then Some p else if has_lock (po_at s p) then None else po_rlck s)"
      "has_lock w \<Longrightarrow> \<not> has_lock (po_at s p) \<Longrightarrow> po_rlck s = None"
  shows "pool_ok hw s' tq rq"
proof -
  have ws: "worker_ok s (tq q) rq q" if "q < hw" for q using ok that by (simp add: pool_ok_def)
  have lp: "po_rlck s = Some p \<longleftrightarrow> has_lock (po_at s p)" using ws [OF p(1)] by (simp add: worker_ok_def)
  have "worker_ok s' (tq q) rq q" if "q < hw" for q
  proof (cases "q = p")
    case True
    then show ?thesis using ws [OF p(1)] p(2) same w(1,2) lock lp by (auto simp: worker_ok_def)
  next
    case False
    then have "po_rlck s' = Some q \<longleftrightarrow> po_rlck s = Some q" using lock lp by auto
    then show ?thesis using ws [OF that] p(2) same False by (simp add: worker_ok_def)
  qed
  moreover have "taken s' = taken s"
    using lock lp p(2) w(3,4) by (auto simp: taken_def split: option.splits)
  ultimately show ?thesis using ok same m lock p by (auto simp: pool_ok_def)
qed

text \<open>The steps of a worker in a state that satisfies the invariant: none of them fails.\<close>

lemma worker_step_cases:
  assumes ok: "pool_ok hw s tq rq" and p: "p < hw" and step: "worker_step hw spawns p s = Some s'"
  obtains
    (Wait) "po_at s p = W_wait" "po_sems s p > 0"
      "s' = goto p W_woken (s\<lparr>po_sems := (po_sems s)(p := po_sems s p - 1)\<rparr>)"
  | (Woken) "po_at s p = W_woken" "s' = goto p W_try s"
  | (Free) "po_at s p = W_try" "po_rlck s = None" "s' = goto p W_locked (s\<lparr>po_rlck := Some p\<rparr>)"
  | (Held) "po_at s p = W_try" "po_rlck s \<noteq> None" "s' = goto p W_tasks s"
  | (Nothing) "po_at s p = W_locked" "rq = []" "s' = goto p W_empty s"
  | (Take) "po_at s p = W_locked" "rq \<noteq> []"
      "s' = goto p (W_resolve (pq_read (po_resns s))) (s\<lparr>po_resolver := p\<rparr>)"
  | (Give) "po_at s p = W_empty" "s' = goto p W_tasks (s\<lparr>po_rlck := None\<rparr>)"
  | (Resolve) i where "po_at s p = W_resolve i" "rq \<noteq> []"
      "s' = goto p W_resolved (s\<lparr>po_rran := po_rran s @ [hd rq]\<rparr>)"
  | (Resolved) q where "po_at s p = W_resolved" "rq \<noteq> []" "holds q (tl rq)"
      "s' = goto p W_unlock (s\<lparr>po_resns := q, po_comp_resns := po_comp_resns s + 1\<rparr>)"
  | (Unlock) "po_at s p = W_unlock" "s' = goto p (W_post 0) (s\<lparr>po_rlck := None\<rparr>)"
  | (Post) k where "po_at s p = W_post k" "k < hw" "s' = goto p (W_post (Suc k)) (post_to k s)"
  | (Posted) k where "po_at s p = W_post k" "\<not> k < hw" "s' = goto p W_wait s"
  | (Task) "po_at s p = W_tasks" "tq p \<noteq> []" "s' = goto p (W_run (pq_read (po_tasks s p))) s"
  | (No_task) "po_at s p = W_tasks" "tq p = []" "s' = goto p W_notify s"
  | (Run) i where "po_at s p = W_run i" "tq p \<noteq> []"
      "s' = goto p (W_spawn (spawns (hd (tq p)))) (s\<lparr>po_ran := (po_ran s)(p := po_ran s p @ [hd (tq p)])\<rparr>)"
  | (Spawned) "po_at s p = W_spawn []" "tq p \<noteq> []" "s' = goto p W_ran s"
  | (Spawn) r rs q where "po_at s p = W_spawn (r # rs)" "tq p \<noteq> []" "holds q (rq @ [r])"
      "pq_read q = pq_read (po_resns s)"
      "s' = goto p (W_spawn_post 0 rs) (s\<lparr>po_resns := q, po_rsent := po_rsent s @ [r]\<rparr>)"
  | (Spawn_post) k rs where "po_at s p = W_spawn_post k rs" "k < hw" "tq p \<noteq> []"
      "s' = goto p (W_spawn_post (Suc k) rs) (post_to k s)"
  | (Spawn_posted) k rs where "po_at s p = W_spawn_post k rs" "\<not> k < hw" "tq p \<noteq> []"
      "s' = goto p (W_spawn rs) s"
  | (Ran) q where "po_at s p = W_ran" "tq p \<noteq> []" "holds q (tl (tq p))"
      "s' = goto p W_notify (s\<lparr>po_tasks := (po_tasks s)(p := q),
            po_comp_tasks := (po_comp_tasks s)(p := po_comp_tasks s p + 1)\<rparr>)"
  | (Notify) "po_at s p = W_notify" "s' = goto p W_wait
        (s\<lparr>po_main := if po_main s = M_asleep then M_check 0 True else po_main s\<rparr>)"
proof -
  have wp: "worker_ok s (tq p) rq p" and rh: "holds (po_resns s) rq" and spin: "po_spin s"
    using ok p by (auto simp: pool_ok_def)
  have h: "holds (po_tasks s p) (tq p)" and at: "at_ok (po_tasks s p) (tq p) (po_resns s) rq (po_at s p)"
    using wp by (auto simp: worker_ok_def)
  note d = worker_step_def
  note a = at_ok_def task_run_def
  show thesis
  proof (cases "po_at s p")
    case W_wait
    then show thesis using step that(1) by (simp add: d split: if_splits)
  next
    case W_woken
    then show thesis using step spin that(2) by (simp add: d)
  next
    case W_try
    then show thesis using step that(3,4) by (simp add: d split: if_splits)
  next
    case W_locked
    then show thesis using step that(5,6) holds_front [OF rh] rh by (cases "rq = []") (simp_all add: d)
  next
    case W_empty
    then show thesis using step that(7) by (simp add: d)
  next
    case (W_resolve i)
    then show thesis using step that(8) at holds_get [OF rh] by (simp add: d a)
  next
    case W_resolved
    then show thesis using step that(9) at holds_pop [OF rh] by (auto simp: d a)
  next
    case W_unlock
    then show thesis using step that(10) by (simp add: d)
  next
    case (W_post k)
    then show thesis using step that(11,12) by (simp add: d split: if_splits)
  next
    case W_tasks
    then show thesis using step that(13,14) holds_front [OF h] h by (cases "tq p = []") (simp_all add: d)
  next
    case (W_run i)
    then show thesis using step that(15) at holds_get [OF h] by (simp add: d a)
  next
    case (W_spawn rs)
    then have ne: "tq p \<noteq> []" using at by (simp add: a)
    show thesis
    proof (cases rs)
      case Nil
      then show thesis using W_spawn step that(16) ne by (simp add: d)
    next
      case (Cons r rest)
      obtain b q where q: "pcq_write r (po_resns s) = Inr (b, q)" using holds_write_some [OF rh] by blast
      then have "b" using W_spawn Cons step by (simp add: d split: if_splits)
      then show thesis
        using W_spawn Cons step q that(17) ne holds_write [OF rh, of r q] by (simp add: d)
    qed
  next
    case (W_spawn_post k rs)
    then show thesis using step that(18,19) at by (simp add: d a split: if_splits)
  next
    case W_ran
    then show thesis using step that(20) at holds_pop [OF h] by (auto simp: d a)
  next
    case W_notify
    then show thesis using step that(21) by (simp add: d)
  next
    case W_exit
    then show thesis using at by (simp add: a)
  next
    case W_failed
    then show thesis using at by (simp add: a)
  qed
qed

text \<open>The contents of the queues after a step.\<close>

definition tq_after :: "'c pool \<Rightarrow> nat \<Rightarrow> (nat \<Rightarrow> 'c list) \<Rightarrow> nat \<Rightarrow> 'c list" where
  "tq_after s p tq = (case po_at s p of W_ran \<Rightarrow> tq(p := tl (tq p)) | _ \<Rightarrow> tq)"

definition rq_after :: "'c pool \<Rightarrow> nat \<Rightarrow> 'c list \<Rightarrow> 'c list" where
  "rq_after s p rq = (case po_at s p of W_resolved \<Rightarrow> tl rq
     | W_spawn rs \<Rightarrow> (case rs of [] \<Rightarrow> rq | r # _ \<Rightarrow> rq @ [r]) | _ \<Rightarrow> rq)"

lemmas after_defs = tq_after_def rq_after_def

lemma pool_ok_others:
  assumes ok: "pool_ok hw s tq rq" and "p < hw" "q < hw" "q \<noteq> p"
    and "po_tasks s' q = po_tasks s q" "po_at s' q = po_at s q" "po_sent s' q = po_sent s q"
      "po_ran s' q = po_ran s q" "po_rlck s' = po_rlck s"
    and "pq_read (po_resns s') = pq_read (po_resns s) \<and> (rq \<noteq> [] \<longrightarrow> rq' \<noteq> []) \<or> po_rlck s = Some p"
  shows "worker_ok s' (tq q) rq' q"
proof -
  have "worker_ok s (tq q) rq q" using ok assms(3) by (simp add: pool_ok_def)
  then show ?thesis
    using assms(4-) by (auto simp: worker_ok_def at_ok_def has_lock_def task_run_def split: worker_at.splits)
qed

lemma at_simple: "w \<in> {W_wait, W_woken, W_try, W_locked, W_empty, W_unlock, W_tasks, W_notify} \<or> (\<exists>k. w = W_post k)
    \<Longrightarrow> at_ok q xs rq rs w"
  by (auto simp: at_ok_def task_run_def)

lemma worker_step_ok:
  assumes ok: "pool_ok hw s tq rq" and p: "p < hw" and step: "worker_step hw spawns p s = Some s'"
  shows "pool_ok hw s' (tq_after s p tq) (rq_after s p rq)"
proof -
  have wp: "worker_ok s (tq p) rq p" and rh: "holds (po_resns s) rq" and m: "main_ok hw (po_main s)"
    using ok p by (auto simp: pool_ok_def)
  note loc = pool_ok_local [OF ok p]
  note flags = has_lock_def task_run_def
  note oth = pool_ok_others [OF ok p]
  from ok p step show ?thesis
  proof (cases rule: worker_step_cases)
    case Wait
    then show ?thesis by (simp add: after_defs) (rule loc, auto simp: flags at_simple)
  next
    case Woken
    then show ?thesis by (simp add: after_defs) (rule loc, auto simp: flags at_simple)
  next
    case Free
    then show ?thesis by (simp add: after_defs) (rule loc, auto simp: flags at_simple)
  next
    case Held
    then show ?thesis by (simp add: after_defs) (rule loc, auto simp: flags at_simple)
  next
    case Nothing
    then show ?thesis
      using loc [of s' W_empty] wp by (simp add: after_defs flags at_simple worker_ok_def)
  next
    case Take
    then show ?thesis using wp by (simp add: after_defs) (rule loc, auto simp: flags at_ok_def worker_ok_def)
  next
    case Give
    then show ?thesis by (simp add: after_defs) (rule loc, auto simp: flags at_simple)
  next
    case (Resolve i)
    then have l: "po_rlck s = Some p" using wp by (simp add: worker_ok_def has_lock_def)
    have "worker_ok s' (tq q) rq q" if "q < hw" for q
      using oth [OF that, of s' rq] wp Resolve l by (cases "q = p") (auto simp: worker_ok_def flags at_ok_def)
    then show ?thesis using ok Resolve l by (auto simp: pool_ok_def after_defs taken_def)
  next
    case (Resolved q)
    then have l: "po_rlck s = Some p" using wp by (simp add: worker_ok_def has_lock_def)
    have "worker_ok s' (tq q) (tl rq) q" if "q < hw" for q
      using oth [OF that, of s' "tl rq"] wp Resolved l by (cases "q = p") (auto simp: worker_ok_def flags at_ok_def)
    then show ?thesis using ok Resolved l by (auto simp: pool_ok_def after_defs taken_def)
  next
    case Unlock
    then show ?thesis by (simp add: after_defs) (rule loc, auto simp: flags at_simple)
  next
    case (Post k)
    then show ?thesis by (simp add: after_defs) (rule loc, auto simp: flags at_simple)
  next
    case (Posted k)
    then show ?thesis by (simp add: after_defs) (rule loc, auto simp: flags at_simple)
  next
    case Task
    then show ?thesis by (simp add: after_defs) (rule loc, auto simp: flags at_ok_def)
  next
    case No_task
    then show ?thesis by (simp add: after_defs) (rule loc, auto simp: flags at_simple)
  next
    case (Run i)
    have "worker_ok s' (tq q) rq q" if "q < hw" for q
      using oth [OF that, of s' rq] wp Run by (cases "q = p") (auto simp: worker_ok_def flags at_ok_def)
    then show ?thesis using ok Run by (auto simp: pool_ok_def after_defs taken_def split: option.splits)
  next
    case Spawned
    then show ?thesis by (simp add: after_defs) (rule loc, auto simp: flags at_ok_def)
  next
    case (Spawn r rs q)
    have "worker_ok s' (tq q) (rq @ [r]) q" if "q < hw" for q
      using oth [OF that, of s' "rq @ [r]"] wp Spawn by (cases "q = p") (auto simp: worker_ok_def flags at_ok_def)
    moreover have "taken s' = taken s" "taken s \<Longrightarrow> rq \<noteq> []"
      using ok Spawn wp by (auto simp: taken_def worker_ok_def pool_ok_def flags at_ok_def split: option.splits)
    ultimately show ?thesis using ok Spawn by (auto simp: pool_ok_def after_defs)
  next
    case (Spawn_post k rs)
    then show ?thesis by (simp add: after_defs) (rule loc, auto simp: flags at_ok_def)
  next
    case (Spawn_posted k rs)
    then show ?thesis by (simp add: after_defs) (rule loc, auto simp: flags at_ok_def)
  next
    case (Ran q)
    have "worker_ok s' ((tq(p := tl (tq p))) q) rq q" if "q < hw" for q
      using oth [OF that, of s' rq] wp Ran by (cases "q = p") (auto simp: worker_ok_def flags at_ok_def)
    then show ?thesis using ok Ran by (auto simp: pool_ok_def after_defs taken_def split: option.splits)
  next
    case Notify
    then show ?thesis using m loc [of s' W_wait] by (simp add: after_defs flags at_simple main_ok_def)
  qed
qed

definition tq_main :: "'c pool \<Rightarrow> (nat \<Rightarrow> 'c list) \<Rightarrow> nat \<Rightarrow> 'c list" where
  "tq_main s tq = (case po_main s of M_write c p \<Rightarrow> tq(p := tq p @ [c]) | _ \<Rightarrow> tq)"

definition rq_main :: "'c pool \<Rightarrow> 'c list \<Rightarrow> 'c list" where
  "rq_main s rq = (case po_main s of M_rwrite c \<Rightarrow> rq @ [c] | _ \<Rightarrow> rq)"

lemmas main_defs = tq_main_def rq_main_def

lemma pool_ok_main:
  assumes "pool_ok hw s tq rq" "po_tasks s' = po_tasks s" "po_resns s' = po_resns s" "po_spin s' = po_spin s"
    "po_at s' = po_at s" "po_rlck s' = po_rlck s" "po_sent s' = po_sent s" "po_rsent s' = po_rsent s"
    "po_ran s' = po_ran s" "po_rran s' = po_rran s" "main_ok hw (po_main s')"
  shows "pool_ok hw s' tq rq"
proof -
  have "taken s' = taken s" by (simp only: taken_def assms)
  moreover have "worker_ok s' xs rs p = worker_ok s xs rs p" for xs rs p
    by (simp only: worker_ok_def assms)
  ultimately show ?thesis using assms by (simp add: pool_ok_def)
qed

lemma main_step_ok:
  assumes ok: "pool_ok hw s tq rq" and step: "main_step hw a s = Some s'" and "a \<noteq> Stop"
  shows "pool_ok hw s' (tq_main s tq) (rq_main s rq)"
proof -
  have rh: "holds (po_resns s) rq" and m: "main_ok hw (po_main s)" and ws: "q < hw \<Longrightarrow> worker_ok s (tq q) rq q" for q
    using ok by (auto simp: pool_ok_def)
  note main = pool_ok_main [OF ok]
  show ?thesis
  proof (cases "po_main s")
    case M_idle
    then show ?thesis
      using step assms(3) by (auto simp: main_step_def main_defs main_ok_def split: main_call.splits if_splits intro!: main)
  next
    case (M_write c p)
    then have p: "p < hw" using m by (simp add: main_ok_def)
    obtain q where q: "pcq_write c (po_tasks s p) = Inr (True, q)"
        "s' = s\<lparr>po_tasks := (po_tasks s)(p := q), po_main := M_post p, po_sent := (po_sent s)(p := po_sent s p @ [c])\<rparr>"
      using step M_write by (auto simp: main_step_def split: sum.splits if_splits)
    have h: "holds q (tq p @ [c])" "pq_read q = pq_read (po_tasks s p)"
      using holds_write [OF _ q(1)] ws [OF p] by (auto simp: worker_ok_def)
    have "worker_ok s' ((tq(p := tq p @ [c])) r) rq r" if "r < hw" for r
      using ws [OF that] h q(2) by (auto simp: worker_ok_def at_ok_def task_run_def split: worker_at.splits)
    then show ?thesis using ok q(2) M_write p by (auto simp: pool_ok_def main_defs taken_def main_ok_def split: option.splits)
  next
    case (M_post p)
    then show ?thesis
      using step by (auto simp: main_step_def main_defs main_ok_def intro!: main)
  next
    case (M_rwrite c)
    obtain q where q: "pcq_write c (po_resns s) = Inr (True, q)"
        "s' = s\<lparr>po_resns := q, po_main := M_posts 0, po_rsent := po_rsent s @ [c]\<rparr>"
      using step M_rwrite by (auto simp: main_step_def split: sum.splits if_splits)
    have h: "holds q (rq @ [c])" "pq_read q = pq_read (po_resns s)" using holds_write [OF rh q(1)] by auto
    have "worker_ok s' (tq r) (rq @ [c]) r" if "r < hw" for r
      using ws [OF that] h q(2) by (auto simp: worker_ok_def at_ok_def task_run_def split: worker_at.splits)
    moreover have "taken s' = taken s" "taken s \<Longrightarrow> rq \<noteq> []"
      using ok q(2) ws by (auto simp: taken_def pool_ok_def worker_ok_def at_ok_def split: option.splits)
    ultimately show ?thesis using ok q(2) h M_rwrite by (auto simp: pool_ok_def main_defs main_ok_def)
  next
    case (M_posts k)
    then show ?thesis
      using step by (auto simp: main_step_def main_defs main_ok_def intro!: main split: if_splits)
  next
    case (M_check p ret)
    then show ?thesis
      using step by (auto simp: main_step_def main_defs main_ok_def intro!: main split: if_splits)
  next
    case (M_check_resns p ret)
    then show ?thesis
      using step by (auto simp: main_step_def main_defs main_ok_def intro!: main)
  next
    case M_sleep
    then show ?thesis
      using step by (auto simp: main_step_def main_defs main_ok_def intro!: main)
  next
    case M_asleep
    then show ?thesis
      using step by (auto simp: main_step_def main_defs main_ok_def intro!: main split: if_splits)
  next
    case M_joined
    then show ?thesis using step by (simp add: main_step_def)
  qed
qed

subsection \<open>Permits for what is queued\<close>

text \<open>
  The permit a worker at work holds for its own queue: taken at the top of the loop and used up
  when the task is popped or the queue was found empty; after a resolution the worker posts to
  itself, too.
\<close>

definition held :: "nat \<Rightarrow> 'c worker_at \<Rightarrow> nat" where
  "held p w = (case w of W_wait \<Rightarrow> 0 | W_notify \<Rightarrow> 0 | W_post k \<Rightarrow> of_bool (k \<le> p) | W_exit \<Rightarrow> 0 | W_failed \<Rightarrow> 0 | _ \<Rightarrow> 1)"

definition tokens_ok :: "nat \<Rightarrow> 'c pool \<Rightarrow> (nat \<Rightarrow> 'c list) \<Rightarrow> bool" where
  "tokens_ok hw s tq \<longleftrightarrow> (\<forall>p<hw. length (tq p)
     \<le> unat (po_sems s p) + held p (po_at s p) + of_bool (po_main s = M_post p))"

text \<open>A permit, or a worker on its way to look at the resolutions, or a post to come.\<close>

definition looking :: "'c worker_at \<Rightarrow> bool" where
  "looking w \<longleftrightarrow> w \<in> {W_woken, W_try, W_locked, W_resolved, W_unlock} \<or> (\<exists>i. w = W_resolve i)"

definition posting_to :: "nat \<Rightarrow> nat \<Rightarrow> 'c pool \<Rightarrow> bool" where
  "posting_to hw p s \<longleftrightarrow> (\<exists>q<hw. \<exists>k\<le>p. po_at s q = W_post k \<or> (\<exists>rs. po_at s q = W_spawn_post k rs))
     \<or> (\<exists>k. po_main s = M_posts k \<and> k \<le> p)"

definition due :: "nat \<Rightarrow> nat \<Rightarrow> 'c pool \<Rightarrow> bool" where
  "due hw p s \<longleftrightarrow> po_sems s p > 0 \<or> posting_to hw p s"

definition hot :: "nat \<Rightarrow> 'c pool \<Rightarrow> 'c list \<Rightarrow> bool" where
  "hot hw s rq \<longleftrightarrow> (rq \<noteq> [] \<longrightarrow> (\<exists>p<hw. looking (po_at s p) \<or> due hw p s))
     \<and> (rq \<noteq> [] \<longrightarrow> (\<forall>p<hw. po_at s p = W_empty \<longrightarrow> due hw p s))"

lemma sat_one: "unat (sat v 1) = (if v = - 1 then unat v else Suc (unat v))"
proof (cases "v = - 1")
  case False
  then have "v + 1 \<noteq> 0" by (metis add_eq_0_iff2)
  then have "unat (v + 1) = Suc (unat v)" by (simp add: unatSuc add.commute)
  moreover from this have "v \<le> v + 1" by (simp add: word_le_nat_alt)
  ultimately show ?thesis using False by (simp add: sat_def)
qed (simp add: sat_def)

lemma sat_one_pos [simp]: "sat v 1 > 0"
proof -
  have "unat (sat v 1) > 0" unfolding sat_one by (auto simp: unat_gt_0)
  then show ?thesis by (simp add: unat_gt_0 word_gt_0)
qed

lemma sat_ge: "unat v \<le> unat (sat v 1)"
  by (simp add: sat_one)

lemma sat_enough: "n \<le> unat v + (m + 1) \<Longrightarrow> n \<le> 511 \<Longrightarrow> n \<le> unat (sat v 1) + m"
proof -
  have "unat (- 1 :: id32) = 2 ^ 32 - 1"
    by (subst unsigned_minus_1_eq_mask) (simp add: mask_eq_exp_minus_1)
  then show "n \<le> unat v + (m + 1) \<Longrightarrow> n \<le> 511 \<Longrightarrow> n \<le> unat (sat v 1) + m"
    unfolding sat_one by auto
qed

lemma post_to_ge: "unat (po_sems s q) \<le> unat (po_sems (post_to k s) q)"
  using sat_ge by simp

lemma worker_step_tokens:
  assumes ok: "pool_ok hw s tq rq" and p: "p < hw" and step: "worker_step hw spawns p s = Some s'"
    and tok: "tokens_ok hw s tq"
  shows "tokens_ok hw s' (tq_after s p tq)"
proof -
  have len: "length (tq q) \<le> 511" if "q < hw" for q
    using ok that holds_length by (auto simp: pool_ok_def worker_ok_def)
  have tk: "length (tq q) \<le> unat (po_sems s q) + held q (po_at s q) + of_bool (po_main s = M_post q)"
    if "q < hw" for q using tok that by (simp add: tokens_ok_def)
  have post: "length (tq q) \<le> unat (po_sems (post_to k s) q) + held q (po_at s q) + of_bool (po_main s = M_post q)"
    if "q < hw" for q k
    using tk [OF that] post_to_ge [of s q k] by linarith
  have self: "length (tq p) \<le> unat (sat (po_sems s p) 1) + of_bool (po_main s = M_post p)"
    if "held p (po_at s p) = 1"
    using tk [OF p] len [OF p] that sat_enough [of "length (tq p)" "po_sems s p"] by simp
  note t = tokens_ok_def after_defs held_def
  from ok p step show ?thesis
  proof (cases rule: worker_step_cases)
    case Wait
    then have "unat (po_sems s p - 1) = unat (po_sems s p) - 1" "unat (po_sems s p) > 0"
      by (auto simp: unat_minus_one word_gt_0 unat_gt_0)
    then show ?thesis using Wait tk tk [OF p] by (auto simp: t split: if_splits)
  next
    case (Post k)
    show ?thesis
    proof (cases "k = p")
      case True
      then show ?thesis using Post tk self by (auto simp: t)
    next
      case False
      then have h: "held p (po_at s' p) = held p (po_at s p)" using Post by (auto simp: held_def)
      have "length (tq q) \<le> unat (po_sems s' q) + held q (po_at s' q) + of_bool (po_main s' = M_post q)"
        if "q < hw" for q
      proof -
        have e: "po_sems s' = po_sems (post_to k s)" "po_main s' = po_main s"
          "q \<noteq> p \<Longrightarrow> po_at s' q = po_at s q" using Post by simp_all
        show ?thesis
        proof (cases "q = p")
          case True
          then show ?thesis using post [OF that, of k] h e(1,2) by metis
        next
          case False
          then show ?thesis using post [OF that, of k] e by metis
        qed
      qed
      then show ?thesis using Post by (simp add: tokens_ok_def after_defs)
    qed
  next
    case (Spawn_post k rs)
    then show ?thesis using post [of _ k] by (fastforce simp: t)
  next
    case (Ran q)
    then show ?thesis using tk by (fastforce simp: t)
  next
    case Notify
    then show ?thesis using tk by (fastforce simp: t)
  qed (use tk p in \<open>fastforce simp: t\<close>)+
qed

lemma main_step_tokens:
  assumes ok: "pool_ok hw s tq rq" and step: "main_step hw a s = Some s'" and tok: "tokens_ok hw s tq"
  shows "tokens_ok hw s' (tq_main s tq)"
proof -
  have len: "length (tq q) \<le> 511" if "q < hw" for q
    using ok that holds_length by (auto simp: pool_ok_def worker_ok_def)
  have tk: "length (tq q) \<le> unat (po_sems s q) + held q (po_at s q) + of_bool (po_main s = M_post q)"
    if "q < hw" for q using tok that by (simp add: tokens_ok_def)
  note t = tokens_ok_def main_defs main_step_def
  show ?thesis
  proof (cases "po_main s")
    case M_idle
    then show ?thesis using step tk by (auto simp: t split: main_call.splits if_splits)
  next
    case (M_write c p)
    then show ?thesis using step tk by (fastforce simp: t split: sum.splits if_splits)
  next
    case (M_post p)
    have "length (tq q) \<le> unat (po_sems (post_to p s) q) + held q (po_at s q)" if "q < hw" for q
    proof (cases "q = p")
      case True
      then show ?thesis
        using tk [OF that] len [OF that] sat_enough [of "length (tq p)" "po_sems s p" "held p (po_at s p)"] M_post
        by simp
    next
      case False
      then show ?thesis using tk [OF that] M_post by simp
    qed
    then show ?thesis using step M_post by (simp add: t) force
  next
    case (M_rwrite c)
    then show ?thesis using step tk by (fastforce simp: t split: sum.splits if_splits)
  next
    case (M_posts k)
    have "length (tq q) \<le> unat (po_sems (post_to k s) q) + held q (po_at s q)" if "q < hw" for q
      using tk [OF that] post_to_ge [of s q k] M_posts by simp
    then show ?thesis using step tk M_posts by (auto simp: t split: if_splits)
  next
    case (M_check p ret)
    then show ?thesis using step tk by (auto simp: t split: if_splits)
  next
    case (M_check_resns p ret)
    then show ?thesis using step tk by (auto simp: t)
  next
    case M_sleep
    then show ?thesis using step tk by (auto simp: t)
  next
    case M_asleep
    then show ?thesis using step tk by (auto simp: t split: if_splits)
  next
    case M_joined
    then show ?thesis using step by (simp add: main_step_def)
  qed
qed

text \<open>The resolutions: a post reaches every worker, and no worker overlooks them.\<close>

lemma due_post_to: "due hw p s \<Longrightarrow> due hw p (post_to k s)"
  by (auto simp: due_def posting_to_def)

lemma due_posted: "po_sems s' k > 0 \<Longrightarrow> due hw k s'"
  by (simp add: due_def)

text \<open>Steps that take no permit and end no round of posts leave every due permit due.\<close>

definition permit_poster :: "'c worker_at \<Rightarrow> bool" where
  "permit_poster w \<longleftrightarrow> (\<exists>k. w = W_post k) \<or> (\<exists>k rs. w = W_spawn_post k rs)"

lemma posting_goto:
  assumes "posting_to hw q s" "\<not> permit_poster (po_at s p)" "po_at s' = (po_at s)(p := w)"
    "po_main s' = po_main s \<or> po_main s = M_asleep"
  shows "posting_to hw q s'"
  using assms by (fastforce simp: posting_to_def permit_poster_def)

lemma due_goto:
  assumes "due hw q s" "\<not> permit_poster (po_at s p)" "po_at s' = (po_at s)(p := w)" "po_sems s' = po_sems s"
    "po_main s' = po_main s \<or> po_main s = M_asleep"
  shows "due hw q s'"
  using assms posting_goto [OF _ assms(2,3,5)] by (auto simp: due_def)

lemma due_round:
  assumes "due hw q s" "p < hw" "q < hw" "po_at s p = W_post k \<and> w = W_post (Suc k)
      \<or> po_at s p = W_spawn_post k rs \<and> w = W_spawn_post (Suc k) rs"
  shows "due hw q (goto p w (post_to k s))"
proof -
  consider (sem) "po_sems s q > 0"
    | (round) r j where "r < hw" "j \<le> q" "po_at s r = W_post j \<or> (\<exists>rs. po_at s r = W_spawn_post j rs)"
    | (main) j where "po_main s = M_posts j" "j \<le> q"
    using assms(1) unfolding due_def posting_to_def by blast
  then consider "po_sems s q > 0"
    | r j where "r < hw" "j \<le> q" "r \<noteq> p" "po_at s r = W_post j \<or> (\<exists>rs. po_at s r = W_spawn_post j rs)"
    | "k \<le> q" | j where "po_main s = M_posts j" "j \<le> q"
  proof cases
    case (round r j)
    show ?thesis
    proof (cases "r = p")
      case True
      then have "j = k" using round(3) assms(4) by auto
      then show ?thesis using that(3) round(2) by simp
    qed (use that(2) round in blast)
  qed (use that(1,4) in blast)+
  then show ?thesis
  proof cases
    case 1
    then show ?thesis by (auto simp: due_def)
  next
    case (2 r j)
    then have "posting_to hw q (goto p w (post_to k s))" by (auto simp: posting_to_def)
    then show ?thesis by (simp add: due_def)
  next
    case 3
    show ?thesis
    proof (cases "k = q")
      case False
      then have "Suc k \<le> q" using 3 by simp
      then have "posting_to hw q (goto p w (post_to k s))"
        using assms(2,4) by (auto simp: posting_to_def)
      then show ?thesis by (simp add: due_def)
    qed (simp add: due_def)
  next
    case (4 j)
    then show ?thesis by (auto simp: due_def posting_to_def)
  qed
qed

lemma due_round_over:
  assumes "due hw q s" "q < hw" "\<not> k < hw" "po_at s p = W_post k \<or> po_at s p = W_spawn_post k rs"
  shows "due hw q (goto p w s)"
  using assms by (fastforce simp: due_def posting_to_def)

lemma hotI:
  assumes "hot hw s rq" "rq \<noteq> []" "p < hw" "po_at s' = (po_at s)(p := w)"
    and "\<And>q. q < hw \<Longrightarrow> due hw q s \<Longrightarrow> due hw q s'"
    and "looking (po_at s p) \<Longrightarrow> looking w \<or> (\<exists>q<hw. due hw q s') \<or> (\<exists>q<hw. q \<noteq> p \<and> looking (po_at s q))"
    and "w = W_empty \<Longrightarrow> due hw p s'"
  shows "hot hw s' rq'"
proof -
  obtain q where q: "q < hw" "looking (po_at s q) \<or> due hw q s"
    using assms(1,2) by (auto simp: hot_def)
  have "\<exists>q<hw. looking (po_at s' q) \<or> due hw q s'"
  proof (cases "looking (po_at s q)")
    case True
    have at: "po_at s' r = (if r = p then w else po_at s r)" for r using assms(4) by simp
    show ?thesis
    proof (cases "q = p")
      case True
      then consider "looking w" | r where "r < hw" "due hw r s'" | r where "r < hw" "r \<noteq> p" "looking (po_at s r)"
        using assms(6) \<open>looking (po_at s q)\<close> by blast
      then show ?thesis using assms(3) at by cases metis+
    qed (use True q(1) at in metis)
  qed (use q assms(5) in blast)
  moreover have "due hw r s'" if "r < hw" "po_at s' r = W_empty" for r
    using that assms(1,2,4,7) assms(5) [of r] by (cases "r = p") (auto simp: hot_def)
  ultimately show ?thesis by (simp add: hot_def)
qed

lemma hot_all:
  assumes "\<And>q. q < hw \<Longrightarrow> due hw q s'" "0 < hw"
  shows "hot hw s' rq'"
  using assms by (auto simp: hot_def)

lemma hot_Nil: "hot hw s []"
  by (simp add: hot_def)

lemma looking_simps [simp]:
  "looking W_woken" "looking W_try" "looking W_locked" "looking W_resolved" "looking W_unlock"
  "looking (W_resolve i)" "\<not> looking W_wait" "\<not> looking W_tasks" "\<not> looking W_empty"
  "\<not> looking (W_post k)" "\<not> looking (W_spawn_post k rs)" "\<not> looking (W_spawn rs)" "\<not> looking (W_run i)"
  "\<not> looking W_ran" "\<not> looking W_notify"
  by (simp_all add: looking_def)

lemma poster_simps [simp]:
  "\<not> permit_poster W_woken" "\<not> permit_poster W_try" "\<not> permit_poster W_locked" "\<not> permit_poster W_resolved" "\<not> permit_poster W_unlock"
  "\<not> permit_poster (W_resolve i)" "\<not> permit_poster W_wait" "\<not> permit_poster W_tasks" "\<not> permit_poster W_empty"
  "permit_poster (W_post k)" "permit_poster (W_spawn_post k rs)" "\<not> permit_poster (W_spawn rs)" "\<not> permit_poster (W_run i)"
  "\<not> permit_poster W_ran" "\<not> permit_poster W_notify"
  by (simp_all add: permit_poster_def)

lemma worker_step_hot:
  assumes ok: "pool_ok hw s tq rq" and p: "p < hw" and step: "worker_step hw spawns p s = Some s'"
    and hot: "hot hw s rq"
  shows "hot hw s' (rq_after s p rq)"
proof -
  have wp: "worker_ok s (tq p) rq p" using ok p by (simp add: pool_ok_def)
  have stay: "hot hw s' rq"
    if "po_at s' = (po_at s)(p := w)" "po_sems s' = po_sems s" "po_main s' = po_main s \<or> po_main s = M_asleep"
      "\<not> permit_poster (po_at s p)" "looking (po_at s p) \<Longrightarrow> looking w" "w \<noteq> W_empty" for w
  proof (cases "rq = []")
    case False
    have "due hw q s'" if "due hw q s" for q
      using due_goto [OF that] \<open>\<not> permit_poster (po_at s p)\<close> \<open>po_at s' = _\<close> \<open>po_sems s' = _\<close> \<open>_ \<or> po_main s = M_asleep\<close> by blast
    then show ?thesis using that(5,6) by (intro hotI [OF hot False p that(1)]) blast+
  qed (simp add: hot_Nil)
  from ok p step show ?thesis
  proof (cases rule: worker_step_cases)
    case Wait
    show ?thesis
    proof (cases "rq = []")
      case False
      have keep: "due hw q s' \<or> q = p" if "due hw q s" for q
        using that Wait posting_goto [of hw q s p s' W_woken] by (auto simp: due_def)
      have "due hw q s'" if "q < hw" "po_at s' q = W_empty" for q
        using that hot False keep [of q] Wait by (auto simp: hot_def split: if_splits)
      then show ?thesis using p Wait by (auto simp: hot_def after_defs)
    qed (simp add: hot_Nil rq_after_def Wait)
  next
    case Woken
    then show ?thesis using stay [of W_try] by (simp add: after_defs)
  next
    case Free
    then show ?thesis using stay [of W_locked] by (simp add: after_defs)
  next
    case Held
    then obtain r where r: "po_rlck s = Some r" by auto
    then have "r < hw" using ok by (simp add: pool_ok_def)
    then have "has_lock (po_at s r)" using r ok by (auto simp: pool_ok_def worker_ok_def)
    then have rl: "looking (po_at s r) \<or> po_at s r = W_empty" "r \<noteq> p"
      using Held by (auto simp: has_lock_def looking_def)
    show ?thesis
    proof (cases "rq = []")
      case False
      have due: "due hw q s \<Longrightarrow> due hw q s'" for q using due_goto [of hw q s p s' W_tasks] Held by simp
      have "(\<exists>q<hw. due hw q s') \<or> (\<exists>q<hw. q \<noteq> p \<and> looking (po_at s q))"
        using rl \<open>r < hw\<close> hot False due by (auto simp: hot_def)
      then show ?thesis
        using Held due hotI [OF hot False p, of s' W_tasks rq] by (simp add: after_defs)
    qed (simp add: hot_Nil rq_after_def Held)
  next
    case Nothing
    then show ?thesis by (simp add: after_defs hot_Nil)
  next
    case Take
    then show ?thesis using stay [of "W_resolve (pq_read (po_resns s))"] by (simp add: after_defs)
  next
    case Give
    then show ?thesis using stay [of W_tasks] by (simp add: after_defs)
  next
    case (Resolve i)
    then show ?thesis using stay [of W_resolved] by (simp add: after_defs)
  next
    case (Resolved q)
    then have "hot hw s' rq" using stay [of W_unlock] by simp
    then show ?thesis using Resolved by (auto simp: hot_def after_defs)
  next
    case Unlock
    have "due hw q s'" if "q < hw" for q
      using that p Unlock by (auto simp: due_def posting_to_def)
    then show ?thesis using p by (intro hot_all) auto
  next
    case (Post k)
    show ?thesis
    proof (cases "rq = []")
      case False
      then show ?thesis using Post hotI [OF hot False p, of s' "W_post (Suc k)" rq] due_round [OF _ p, of _ s k]
        by (simp add: after_defs)
    qed (simp add: hot_Nil rq_after_def Post)
  next
    case (Posted k)
    show ?thesis
    proof (cases "rq = []")
      case False
      then show ?thesis using Posted hotI [OF hot False p, of s' W_wait rq] due_round_over [of hw _ s k p]
        by (simp add: after_defs)
    qed (simp add: hot_Nil rq_after_def Posted)
  next
    case Task
    then show ?thesis using stay [of "W_run (pq_read (po_tasks s p))"] by (simp add: after_defs)
  next
    case No_task
    then show ?thesis using stay [of W_notify] by (simp add: after_defs)
  next
    case (Run i)
    then show ?thesis using stay [of "W_spawn (spawns (hd (tq p)))"] by (simp add: after_defs)
  next
    case Spawned
    then show ?thesis using stay [of W_ran] by (simp add: after_defs)
  next
    case (Spawn r rs q)
    have "due hw q s'" if "q < hw" for q
      using that p Spawn by (auto simp: due_def posting_to_def)
    then show ?thesis using p by (intro hot_all) auto
  next
    case (Spawn_post k rs)
    show ?thesis
    proof (cases "rq = []")
      case False
      then show ?thesis using Spawn_post hotI [OF hot False p, of s' "W_spawn_post (Suc k) rs" rq] due_round [OF _ p, of _ s k]
        by (simp add: after_defs)
    qed (simp add: hot_Nil rq_after_def Spawn_post)
  next
    case (Spawn_posted k rs)
    show ?thesis
    proof (cases "rq = []")
      case False
      then show ?thesis using Spawn_posted hotI [OF hot False p, of s' "W_spawn rs" rq] due_round_over [of hw _ s k p rs]
        by (simp add: after_defs)
    qed (simp add: hot_Nil rq_after_def Spawn_posted)
  next
    case (Ran q)
    then show ?thesis using stay [of W_notify] by (simp add: after_defs)
  next
    case Notify
    then show ?thesis using stay [of W_wait] by (simp add: after_defs)
  qed
qed

end
