(* ===== verification/Pool_Runs.thy ===== *)
theory Pool_Runs imports Pool_Correct begin

text \<open>
  The runs of the pool of src/contentious/threadpool.h: every reachable state satisfies the invariants
  of theory Pool_Correct, so each closure is run once and in order, work that is left finds a worker
  that can step, and the workers come to rest when the program stops submitting.
\<close>

lemma main_step_hot:
  assumes ok: "pool_ok hw s tq rq" and step: "main_step hw a s = Some s'" and "a \<noteq> Stop" "0 < hw"
    and hot: "hot hw s rq"
  shows "hot hw s' (rq_main s rq)"
proof -
  have keep: "hot hw s' rq" if "po_at s' = po_at s" "\<And>q. q < hw \<Longrightarrow> due hw q s \<Longrightarrow> due hw q s'"
    using hot that unfolding hot_def by metis
  have due: "due hw q s'" if d: "due hw q s" "po_at s' = po_at s" "\<And>q. po_sems s q > 0 \<Longrightarrow> po_sems s' q > 0"
      "\<forall>k. po_main s = M_posts k \<longrightarrow> k \<ge> hw \<or> po_main s' = M_posts (Suc k) \<and> po_sems s' k > 0" "q < hw" for q
  proof -
    consider (sem) "po_sems s q > 0"
      | (round) "\<exists>r<hw. \<exists>k\<le>q. po_at s r = W_post k \<or> (\<exists>rs. po_at s r = W_spawn_post k rs)"
      | (main) k where "po_main s = M_posts k" "k \<le> q"
      using d(1) unfolding due_def posting_to_def by blast
    then show ?thesis
    proof cases
      case sem
      then show ?thesis using d(3) by (simp add: due_def)
    next
      case round
      then show ?thesis using d(2) by (simp add: due_def posting_to_def)
    next
      case (main k)
      then have "po_main s' = M_posts (Suc k)" "po_sems s' k > 0" using d(4,5) by auto
      then show ?thesis using main(2) by (cases "k = q") (auto simp: due_def posting_to_def)
    qed
  qed
  note m = main_step_def main_defs
  show ?thesis
  proof (cases "po_main s")
    case M_idle
    then have "po_at s' = po_at s" "po_sems s' = po_sems s"
      using step assms(3) by (auto simp: m split: main_call.splits if_splits)
    then show ?thesis using keep due M_idle by (simp add: m)
  next
    case (M_write c p)
    then have "po_at s' = po_at s" "po_sems s' = po_sems s"
      using step by (auto simp: m split: sum.splits if_splits)
    then show ?thesis using keep due M_write by (simp add: m)
  next
    case (M_post p)
    then have "po_at s' = po_at s" "po_sems s' = (po_sems s)(p := sat (po_sems s p) 1)"
      using step by (auto simp: m)
    then show ?thesis using keep due M_post by (simp add: m)
  next
    case (M_rwrite c)
    then have "po_main s' = M_posts 0"
      using step by (auto simp: m split: sum.splits if_splits)
    then have "due hw q s'" for q by (simp add: due_def posting_to_def)
    then show ?thesis using assms(4) by (intro hot_all)
  next
    case (M_posts k)
    show ?thesis
    proof (cases "k < hw")
      case True
      then have "po_at s' = po_at s" "po_sems s' = (po_sems s)(k := sat (po_sems s k) 1)" "po_main s' = M_posts (Suc k)"
        using step M_posts by (auto simp: m)
      then show ?thesis using keep due M_posts by (simp add: m)
    next
      case False
      then have "po_at s' = po_at s" "po_sems s' = po_sems s"
        using step M_posts by (auto simp: m)
      then show ?thesis using keep due M_posts False by (simp add: m)
    qed
  next
    case (M_check p ret)
    then have "po_at s' = po_at s" "po_sems s' = po_sems s"
      using step by (auto simp: m split: if_splits)
    then show ?thesis using keep due M_check by (simp add: m)
  next
    case (M_check_resns p ret)
    then have "po_at s' = po_at s" "po_sems s' = po_sems s" using step by (auto simp: m)
    then show ?thesis using keep due M_check_resns by (simp add: m)
  next
    case M_sleep
    then have "po_at s' = po_at s" "po_sems s' = po_sems s" using step by (auto simp: m)
    then show ?thesis using keep due M_sleep by (simp add: m)
  next
    case M_asleep
    then have "po_at s' = po_at s" "po_sems s' = po_sems s" using step by (auto simp: m split: if_splits)
    then show ?thesis using keep due M_asleep by (simp add: m)
  next
    case M_joined
    then show ?thesis using step by (simp add: main_step_def)
  qed
qed

subsection \<open>The predicate of finish\<close>

text \<open>
  The queues that the current evaluation of the predicate has found empty are still empty: nobody
  submits meanwhile, and a worker without tasks submits no resolution.
\<close>

definition finish_ok :: "nat \<Rightarrow> 'c pool \<Rightarrow> (nat \<Rightarrow> 'c list) \<Rightarrow> 'c list \<Rightarrow> bool" where
  "finish_ok hw s tq rq = (case po_main s of
      M_check p ret \<Rightarrow> p \<le> hw \<and> (ret \<longrightarrow> (\<forall>q<p. tq q = []) \<and> (p = hw \<and> 0 < hw \<longrightarrow> rq = []))
    | M_check_resns p ret \<Rightarrow> p < hw \<and> tq p = [] \<and> (ret \<longrightarrow> (\<forall>q<p. tq q = []))
    | _ \<Rightarrow> True)"

lemma finish_ok_fewer:
  assumes "finish_ok hw s tq rq" "po_main s' = po_main s \<or> po_main s' = M_check 0 True"
    "\<And>q. tq q = [] \<Longrightarrow> tq' q = []" "0 < hw" "(\<forall>q<hw. tq q = []) \<Longrightarrow> rq = [] \<Longrightarrow> rq' = []"
  shows "finish_ok hw s' tq' rq'"
  using assms by (auto simp: finish_ok_def split: main_at.splits)

lemma worker_step_finish:
  assumes ok: "pool_ok hw s tq rq" and p: "p < hw" and step: "worker_step hw spawns p s = Some s'"
    and fin: "finish_ok hw s tq rq"
  shows "finish_ok hw s' (tq_after s p tq) (rq_after s p rq)"
proof (rule finish_ok_fewer [OF fin])
  show "po_main s' = po_main s \<or> po_main s' = M_check 0 True"
    using ok p step by (cases rule: worker_step_cases) auto
  show "tq_after s p tq q = []" if "tq q = []" for q
    using that by (auto simp: tq_after_def split: worker_at.split)
  show "rq_after s p rq = []" if "\<forall>q<hw. tq q = []" "rq = []"
  proof -
    have "tq p = []" using that(1) p by simp
    from ok p step show ?thesis
      by (cases rule: worker_step_cases) (use \<open>tq p = []\<close> that(2) in \<open>auto simp: rq_after_def\<close>)
  qed
  show "0 < hw" using p by simp
qed

lemma main_step_finish:
  assumes ok: "pool_ok hw s tq rq" and step: "main_step hw a s = Some s'" and fin: "finish_ok hw s tq rq"
  shows "finish_ok hw s' (tq_main s tq) (rq_main s rq)"
proof (cases "po_main s")
  case (M_check p ret)
  have e: "q < hw \<Longrightarrow> pcq_is_empty (po_tasks s q) \<longleftrightarrow> tq q = []" for q
    using ok by (simp add: pool_ok_def worker_ok_def)
  show ?thesis using step fin e [of p] M_check
    by (auto simp: main_step_def main_defs finish_ok_def less_Suc_eq split: if_splits)
next
  case (M_check_resns p ret)
  have "pcq_is_empty (po_resns s) \<longleftrightarrow> rq = []" using ok by (simp add: pool_ok_def)
  then show ?thesis using step fin M_check_resns
    by (auto simp: main_step_def main_defs finish_ok_def less_Suc_eq)
qed (use step in \<open>auto simp: main_step_def main_defs finish_ok_def split: main_call.splits sum.splits if_splits\<close>)

subsection \<open>All reachable states\<close>

definition pool_inv :: "nat \<Rightarrow> 'c pool \<Rightarrow> (nat \<Rightarrow> 'c list) \<Rightarrow> 'c list \<Rightarrow> bool" where
  "pool_inv hw s tq rq \<longleftrightarrow> pool_ok hw s tq rq \<and> tokens_ok hw s tq \<and> hot hw s rq \<and> finish_ok hw s tq rq"

lemma pool_inv_new: "pool_inv hw pool_new (\<lambda>p. []) []"
  using pool_ok_new by (auto simp: pool_inv_def tokens_ok_def hot_Nil finish_ok_def pool_new_def Let_def)

lemma pool_inv_worker:
  "pool_inv hw s tq rq \<Longrightarrow> p < hw \<Longrightarrow> worker_step hw spawns p s = Some s' \<Longrightarrow>
   pool_inv hw s' (tq_after s p tq) (rq_after s p rq)"
  unfolding pool_inv_def
  by (intro conjI worker_step_ok worker_step_tokens worker_step_hot worker_step_finish) auto

lemma pool_inv_main:
  "pool_inv hw s tq rq \<Longrightarrow> 0 < hw \<Longrightarrow> a \<noteq> Stop \<Longrightarrow> main_step hw a s = Some s' \<Longrightarrow>
   pool_inv hw s' (tq_main s tq) (rq_main s rq)"
  unfolding pool_inv_def
  by (intro conjI main_step_ok main_step_tokens main_step_hot main_step_finish) auto

lemma pool_reach_inv: "pool_reach hw spawns s \<Longrightarrow> 0 < hw \<Longrightarrow> \<exists>tq rq. pool_inv hw s tq rq"
proof (induction rule: pool_reach.induct)
  case reach_new
  then show ?case using pool_inv_new by blast
next
  case (reach_worker s p s')
  then show ?case using pool_inv_worker by metis
next
  case (reach_main s a s')
  then show ?case using pool_inv_main by metis
qed

subsection \<open>Workers alone come to rest\<close>

text \<open>
  The work left, counted so that every step of a worker makes it less: token for a permit in
  a semaphore, the posts a worker has still to make, and what the closures not yet run will cause.
\<close>

definition token :: nat where
  "token = 10"

definition resn_cost :: "nat \<Rightarrow> nat" where
  "resn_cost hw = hw * (token + 1) + 3"

definition spawn_cost :: "nat \<Rightarrow> nat" where
  "spawn_cost hw = hw * (token + 1) + 2 + resn_cost hw"

definition rank :: "nat \<Rightarrow> 'c worker_at \<Rightarrow> nat" where
  "rank hw w = (case w of
      W_wait \<Rightarrow> 0 | W_woken \<Rightarrow> 9 | W_try \<Rightarrow> 8 | W_locked \<Rightarrow> 7 | W_empty \<Rightarrow> 6 | W_resolve i \<Rightarrow> 6
    | W_resolved \<Rightarrow> hw * (token + 1) + 3 | W_unlock \<Rightarrow> hw * (token + 1) + 2
    | W_post k \<Rightarrow> (hw - k) * (token + 1) + 1
    | W_tasks \<Rightarrow> 5 | W_run i \<Rightarrow> 4 | W_spawn rs \<Rightarrow> 3 + length rs * spawn_cost hw
    | W_spawn_post k rs \<Rightarrow> (hw - k) * (token + 1) + 4 + length rs * spawn_cost hw
    | W_ran \<Rightarrow> 2 | W_notify \<Rightarrow> 1 | W_exit \<Rightarrow> 0 | W_failed \<Rightarrow> 0)"

definition task_cost :: "nat \<Rightarrow> ('c \<Rightarrow> 'c list) \<Rightarrow> 'c list \<Rightarrow> nat" where
  "task_cost hw spawns cs = sum_list (map (\<lambda>c. length (spawns c) * spawn_cost hw) cs)"

definition worker_cost :: "nat \<Rightarrow> ('c \<Rightarrow> 'c list) \<Rightarrow> 'c pool \<Rightarrow> 'c list \<Rightarrow> nat \<Rightarrow> nat" where
  "worker_cost hw spawns s xs p = rank hw (po_at s p) + token * unat (po_sems s p)
     + task_cost hw spawns (if task_run (po_at s p) then tl xs else xs)"

definition pool_cost :: "nat \<Rightarrow> ('c \<Rightarrow> 'c list) \<Rightarrow> 'c pool \<Rightarrow> (nat \<Rightarrow> 'c list) \<Rightarrow> 'c list \<Rightarrow> nat" where
  "pool_cost hw spawns s tq rq = (\<Sum>p<hw. worker_cost hw spawns s (tq p) p)
     + resn_cost hw * length (if taken s then tl rq else rq)"

lemma worker_costs_change:
  assumes "p < hw" "\<And>q. q < hw \<Longrightarrow> q \<noteq> p \<Longrightarrow> worker_cost hw spawns s' (tq' q) q = worker_cost hw spawns s (tq q) q"
  shows "(\<Sum>q<hw. worker_cost hw spawns s' (tq' q) q) + worker_cost hw spawns s (tq p) p
    = (\<Sum>q<hw. worker_cost hw spawns s (tq q) q) + worker_cost hw spawns s' (tq' p) p"
proof -
  have "(\<Sum>q<hw. f q) = f p + (\<Sum>q\<in>{..<hw} - {p}. f q)" for f :: "nat \<Rightarrow> nat"
    using assms(1) by (intro sum.remove) auto
  moreover have "(\<Sum>q\<in>{..<hw} - {p}. worker_cost hw spawns s' (tq' q) q) = (\<Sum>q\<in>{..<hw} - {p}. worker_cost hw spawns s (tq q) q)"
    by (intro sum.cong) (use assms(2) in auto)
  ultimately show ?thesis by simp
qed

lemma rank_simps [simp]:
  "rank hw W_wait = 0" "rank hw W_woken = 9" "rank hw W_try = 8" "rank hw W_locked = 7" "rank hw W_empty = 6"
  "rank hw (W_resolve i) = 6" "rank hw W_resolved = resn_cost hw" "rank hw W_unlock = hw * (token + 1) + 2"
  "rank hw (W_post k) = (hw - k) * (token + 1) + 1" "rank hw W_tasks = 5" "rank hw (W_run i) = 4"
  "rank hw (W_spawn rs) = 3 + length rs * spawn_cost hw"
  "rank hw (W_spawn_post k rs) = (hw - k) * (token + 1) + 4 + length rs * spawn_cost hw"
  "rank hw W_ran = 2" "rank hw W_notify = 1"
  by (simp_all add: rank_def resn_cost_def)

lemma task_run_simps [simp]:
  "\<not> task_run W_wait" "\<not> task_run W_woken" "\<not> task_run W_try" "\<not> task_run W_locked" "\<not> task_run W_empty"
  "\<not> task_run (W_resolve i)" "\<not> task_run W_resolved" "\<not> task_run W_unlock" "\<not> task_run (W_post k)"
  "\<not> task_run W_tasks" "\<not> task_run (W_run i)" "task_run (W_spawn rs)" "task_run (W_spawn_post k rs)"
  "task_run W_ran" "\<not> task_run W_notify"
  by (simp_all add: task_run_def)

lemma task_cost_Cons: "task_cost hw spawns (c # cs) = length (spawns c) * spawn_cost hw + task_cost hw spawns cs"
  by (simp add: task_cost_def)

lemma task_cost_hd:
  "xs \<noteq> [] \<Longrightarrow> task_cost hw spawns xs = length (spawns (hd xs)) * spawn_cost hw + task_cost hw spawns (tl xs)"
  by (cases xs) (simp_all add: task_cost_Cons)

text \<open>A step that is local to its worker: the worker's share goes down, the resolutions do not go up.\<close>

lemma cost_local:
  assumes "p < hw" "po_at s' = (po_at s)(p := w)" "po_sems s' = po_sems s" "\<And>q. q \<noteq> p \<Longrightarrow> tq' q = tq q"
    and "resn_cost hw * length (if taken s' then tl rq' else rq') + rank hw w
           + task_cost hw spawns (if task_run w then tl (tq' p) else tq' p)
         < resn_cost hw * length (if taken s then tl rq else rq) + rank hw (po_at s p)
           + task_cost hw spawns (if task_run (po_at s p) then tl (tq p) else tq p)"
  shows "pool_cost hw spawns s' tq' rq' < pool_cost hw spawns s tq rq"
  using worker_costs_change [of p hw spawns s' tq' s tq] assms
  by (simp add: pool_cost_def worker_cost_def)

lemma cost_post:
  assumes "k < hw"
  shows "pool_cost hw spawns (post_to k s) tq rq \<le> pool_cost hw spawns s tq rq + token"
proof -
  have t: "taken (post_to k s) = taken s" by (simp add: taken_def split: option.split)
  have "worker_cost hw spawns (post_to k s) (tq k) k \<le> worker_cost hw spawns s (tq k) k + token"
    by (simp add: worker_cost_def sat_one)
  moreover have "(\<Sum>q<hw. worker_cost hw spawns (post_to k s) (tq q) q) + worker_cost hw spawns s (tq k) k
      = (\<Sum>q<hw. worker_cost hw spawns s (tq q) q) + worker_cost hw spawns (post_to k s) (tq k) k"
    by (rule worker_costs_change [OF assms]) (simp add: worker_cost_def)
  ultimately show ?thesis unfolding pool_cost_def t by linarith
qed

lemma cost_goto:
  assumes "p < hw" "task_run w = task_run (po_at s p)" "w \<noteq> W_resolved" "po_at s p \<noteq> W_resolved"
  shows "pool_cost hw spawns (goto p w s) tq rq + rank hw (po_at s p) = pool_cost hw spawns s tq rq + rank hw w"
proof -
  have "taken (goto p w s) = taken s" using assms(3,4) by (auto simp: taken_def split: option.split)
  moreover have "(\<Sum>q<hw. worker_cost hw spawns (goto p w s) (tq q) q) + worker_cost hw spawns s (tq p) p
      = (\<Sum>q<hw. worker_cost hw spawns s (tq q) q) + worker_cost hw spawns (goto p w s) (tq p) p"
    by (rule worker_costs_change [OF assms(1)]) (simp add: worker_cost_def)
  ultimately show ?thesis using assms(2) by (simp add: pool_cost_def worker_cost_def)
qed

lemma worker_step_cost:
  assumes ok: "pool_ok hw s tq rq" and p: "p < hw" and step: "worker_step hw spawns p s = Some s'"
  shows "pool_cost hw spawns s' (tq_after s p tq) (rq_after s p rq) < pool_cost hw spawns s tq rq"
proof -
  have wp: "po_rlck s = Some p \<longleftrightarrow> has_lock (po_at s p)" using ok p by (simp add: pool_ok_def worker_ok_def)
  have same: "taken s' = taken s" if "po_rlck s' = po_rlck s" "po_at s' = (po_at s)(p := w)"
      "w \<noteq> W_resolved" "po_at s p \<noteq> W_resolved" for w
    using that by (auto simp: taken_def split: option.split)
  note loc = cost_local [OF p, where spawns = spawns]
  from ok p step show ?thesis
  proof (cases rule: worker_step_cases)
    case Wait
    have "taken s' = taken s" using same [of W_woken] Wait by simp
    moreover have "unat (po_sems s p - 1) + 1 = unat (po_sems s p)"
      using Wait by (simp add: unat_minus_one word_gt_0 unat_gt_0 Suc_leI)
    then have "worker_cost hw spawns s' (tq p) p < worker_cost hw spawns s (tq p) p"
      using Wait by (simp add: worker_cost_def token_def)
    moreover have "(\<Sum>q<hw. worker_cost hw spawns s' (tq q) q) + worker_cost hw spawns s (tq p) p
      = (\<Sum>q<hw. worker_cost hw spawns s (tq q) q) + worker_cost hw spawns s' (tq p) p"
      by (rule worker_costs_change [OF p]) (simp add: worker_cost_def Wait)
    ultimately show ?thesis by (simp add: pool_cost_def after_defs Wait)
  next
    case Woken
    then show ?thesis using same [of W_try] by (intro loc [of s' s W_try]) (simp_all add: after_defs)
  next
    case Free
    then have "taken s' = taken s" by (simp add: taken_def)
    then show ?thesis using Free by (intro loc [of s' s W_locked]) (simp_all add: after_defs)
  next
    case Held
    then show ?thesis using same [of W_tasks] by (intro loc [of s' s W_tasks]) (simp_all add: after_defs)
  next
    case Nothing
    then show ?thesis using same [of W_empty] by (intro loc [of s' s W_empty]) (simp_all add: after_defs)
  next
    case Take
    let ?w = "W_resolve (pq_read (po_resns s))"
    show ?thesis using Take same [of ?w] by (intro loc [of s' s ?w]) (simp_all add: after_defs)
  next
    case Give
    then have "taken s' = taken s" using wp by (simp add: taken_def has_lock_def)
    then show ?thesis using Give by (intro loc [of s' s W_tasks]) (simp_all add: after_defs)
  next
    case (Resolve i)
    then have "taken s'" "\<not> taken s" using wp by (simp_all add: taken_def has_lock_def)
    then show ?thesis using Resolve
      by (intro loc [of s' s W_resolved]) (auto simp: after_defs neq_Nil_conv)
  next
    case (Resolved q)
    then have "taken s" "\<not> taken s'" using wp by (simp_all add: taken_def has_lock_def)
    then show ?thesis using Resolved
      by (intro loc [of s' s W_unlock]) (simp_all add: after_defs resn_cost_def)
  next
    case Unlock
    then have "taken s' = taken s" using wp by (simp add: taken_def has_lock_def)
    then show ?thesis using Unlock by (intro loc [of s' s "W_post 0"]) (simp_all add: after_defs)
  next
    case (Post k)
    then have e: "s' = post_to k (goto p (W_post (Suc k)) s)" by (simp add: goto_def post_to_def)
    have "pool_cost hw spawns (goto p (W_post (Suc k)) s) tq rq + rank hw (W_post k)
        = pool_cost hw spawns s tq rq + rank hw (W_post (Suc k))"
      using cost_goto [OF p, of "W_post (Suc k)" s] Post by simp
    moreover have "rank hw (W_post k) = rank hw (W_post (Suc k)) + token + 1"
      using Post(2) Suc_diff_Suc [OF Post(2), symmetric] by simp
    ultimately show ?thesis
      using cost_post [OF Post(2), of spawns "goto p (W_post (Suc k)) s" tq rq] Post(1)
      unfolding e by (simp add: after_defs)
  next
    case (Posted k)
    then show ?thesis using cost_goto [OF p, of W_wait s spawns tq rq] by (simp add: after_defs)
  next
    case Task
    let ?w = "W_run (pq_read (po_tasks s p))"
    show ?thesis using Task same [of ?w] by (intro loc [of s' s ?w]) (simp_all add: after_defs)
  next
    case No_task
    then show ?thesis using same [of W_notify] by (intro loc [of s' s W_notify]) (simp_all add: after_defs)
  next
    case (Run i)
    let ?w = "W_spawn (spawns (hd (tq p)))"
    show ?thesis using Run same [of ?w]
      by (intro loc [of s' s ?w]) (simp_all add: after_defs task_cost_hd)
  next
    case Spawned
    then show ?thesis using same [of W_ran] by (intro loc [of s' s W_ran]) (simp_all add: after_defs)
  next
    case (Spawn r rs q)
    let ?w = "W_spawn_post 0 rs"
    have "taken s' = taken s" using Spawn same [of ?w] by simp
    moreover have "taken s \<Longrightarrow> rq \<noteq> []"
      using ok by (auto simp: taken_def pool_ok_def worker_ok_def at_ok_def split: option.splits)
    ultimately show ?thesis using Spawn
      by (intro loc [of s' s ?w]) (auto simp: after_defs spawn_cost_def neq_Nil_conv)
  next
    case (Spawn_post k rs)
    then have e: "s' = post_to k (goto p (W_spawn_post (Suc k) rs) s)" by (simp add: goto_def post_to_def)
    have "pool_cost hw spawns (goto p (W_spawn_post (Suc k) rs) s) tq rq + rank hw (W_spawn_post k rs)
        = pool_cost hw spawns s tq rq + rank hw (W_spawn_post (Suc k) rs)"
      using cost_goto [OF p, of "W_spawn_post (Suc k) rs" s] Spawn_post by simp
    moreover have "rank hw (W_spawn_post k rs) = rank hw (W_spawn_post (Suc k) rs) + token + 1"
      using Spawn_post(2) Suc_diff_Suc [OF Spawn_post(2), symmetric] by simp
    ultimately show ?thesis
      using cost_post [OF Spawn_post(2), of spawns "goto p (W_spawn_post (Suc k) rs) s" tq rq] Spawn_post(1)
      unfolding e by (simp add: after_defs)
  next
    case (Spawn_posted k rs)
    then show ?thesis using cost_goto [OF p, of "W_spawn rs" s spawns tq rq] by (simp add: after_defs)
  next
    case (Ran q)
    have "taken s' = taken s" using Ran same [of W_notify] by simp
    then show ?thesis using Ran by (intro loc [of s' s W_notify]) (simp_all add: after_defs)
  next
    case Notify
    then show ?thesis using same [of W_wait] by (intro loc [of s' s W_wait]) (simp_all add: after_defs)
  qed
qed

subsection \<open>What the pool guarantees\<close>

definition workers_step :: "nat \<Rightarrow> ('c \<Rightarrow> 'c list) \<Rightarrow> 'c pool \<Rightarrow> 'c pool \<Rightarrow> bool" where
  "workers_step hw spawns s s' \<longleftrightarrow> (\<exists>p<hw. worker_step hw spawns p s = Some s')"

lemma workers_steps_inv:
  assumes "pool_inv hw s tq rq"
  shows "(workers_step hw spawns ^^ m) s s' \<Longrightarrow> \<exists>tq' rq'. pool_inv hw s' tq' rq'
    \<and> m + pool_cost hw spawns s' tq' rq' \<le> pool_cost hw spawns s tq rq"
proof (induction m arbitrary: s')
  case 0
  then show ?case using assms by (intro exI [of _ tq] exI [of _ rq]) simp
next
  case (Suc m)
  obtain s1 where s1: "(workers_step hw spawns ^^ m) s s1" "workers_step hw spawns s1 s'"
    using Suc.prems by auto
  then obtain p where p: "p < hw" "worker_step hw spawns p s1 = Some s'" by (auto simp: workers_step_def)
  obtain tq1 rq1 where inv: "pool_inv hw s1 tq1 rq1"
      "m + pool_cost hw spawns s1 tq1 rq1 \<le> pool_cost hw spawns s tq rq"
    using Suc.IH [OF s1(1)] by blast
  have "pool_cost hw spawns s' (tq_after s1 p tq1) (rq_after s1 p rq1) < pool_cost hw spawns s1 tq1 rq1"
    using worker_step_cost [OF _ p] inv(1) by (simp add: pool_inv_def)
  then have "Suc m + pool_cost hw spawns s' (tq_after s1 p tq1) (rq_after s1 p rq1) \<le> pool_cost hw spawns s tq rq"
    using inv(2) by linarith
  then show ?case using pool_inv_worker [OF inv(1) p] by blast
qed

lemma workers_steps_bounded:
  "pool_inv hw s tq rq \<Longrightarrow> (workers_step hw spawns ^^ m) s s' \<Longrightarrow> m \<le> pool_cost hw spawns s tq rq"
  using workers_steps_inv by (meson add_leD1)

text \<open>A worker that cannot step waits without a permit, or for room among the resolutions.\<close>

lemma worker_stuck:
  assumes ok: "pool_ok hw s tq rq" and p: "p < hw" and stuck: "worker_step hw spawns p s = None"
    and room: "length rq < 511"
  shows "po_at s p = W_wait \<and> po_sems s p = 0"
proof -
  have wp: "worker_ok s (tq p) rq p" and rh: "holds (po_resns s) rq" and spin: "po_spin s"
    using ok p by (auto simp: pool_ok_def)
  have wr: "\<exists>q. pcq_write r (po_resns s) = Inr (True, q)" for r
    using holds_write_some [OF rh, of r] room by auto
  show ?thesis
  proof (cases "po_at s p")
    case (W_spawn rs)
    then show ?thesis using stuck wr [of "hd rs"] by (cases rs) (auto simp: worker_step_def)
  next
    case W_exit
    then show ?thesis using wp by (simp add: worker_ok_def at_ok_def)
  next
    case W_failed
    then show ?thesis using wp by (simp add: worker_ok_def at_ok_def)
  qed (use stuck spin in \<open>auto simp: worker_step_def word_gt_0 split: if_splits option.splits sum.splits\<close>)
qed

lemma pool_at_rest:
  assumes inv: "pool_inv hw s tq rq" and main: "\<forall>k. po_main s \<noteq> M_post k \<and> po_main s \<noteq> M_posts k"
    and stuck: "\<forall>p<hw. worker_step hw spawns p s = None" and room: "length rq < 511"
  shows "rq = [] \<and> (\<forall>p<hw. tq p = [])"
proof -
  have ok: "pool_ok hw s tq rq" using inv by (simp add: pool_inv_def)
  have w: "po_at s p = W_wait \<and> po_sems s p = 0" if "p < hw" for p
    by (rule worker_stuck [OF ok that stuck [rule_format, OF that] room])
  have "tq p = []" if "p < hw" for p
  proof -
    have "length (tq p) \<le> unat (po_sems s p) + held p (po_at s p) + of_bool (po_main s = M_post p)"
      using inv that by (simp add: pool_inv_def tokens_ok_def)
    then show ?thesis using w [OF that] main by (simp add: held_def)
  qed
  moreover have "rq = []"
  proof (rule ccontr)
    assume "rq \<noteq> []"
    then obtain p where p: "p < hw" "looking (po_at s p) \<or> due hw p s"
      using inv by (auto simp: pool_inv_def hot_def)
    then show False using w main by (auto simp: due_def posting_to_def)
  qed
  ultimately show ?thesis by blast
qed

lemma pool_done:
  assumes "pool_ok hw s tq rq" "rq = []" "\<forall>p<hw. tq p = []"
  shows "po_rran s = po_rsent s \<and> (\<forall>p<hw. po_ran s p = po_sent s p)"
  using assms by (simp add: pool_ok_def worker_ok_def)


lemma pool_reach_submit: "pool_reach 2 spawns (pool_new\<lparr>po_main := M_write c 1\<rparr>)"
  by (rule reach_main [OF reach_new, of "Submit c 1"]) (simp_all add: main_step_def pool_new_def Let_def)






text \<open>C35. finish can miss its only wake-up: a worker notifies the condition variable without holding its
  mutex, so if it runs the last task after the predicate of finish was found false and
  before the main thread is asleep, nobody is left to wake it. In the state reached the one task
  is done and its log complete, the main thread sleeps, and neither the worker nor the main
  thread can step: only a spurious wake-up ends the wait.
\<close>

theorem finish_can_hang:
  "\<exists>s. pool_reach 1 (\<lambda>c :: 'c. []) s \<and> po_main s = M_asleep
     \<and> po_sent s 0 = [c] \<and> po_ran s 0 = [c] \<and> pcq_is_empty (po_tasks s 0) \<and> pcq_is_empty (po_resns s)
     \<and> worker_step 1 (\<lambda>c. []) 0 s = None \<and> {a. main_step 1 a s \<noteq> None} \<subseteq> {Spurious}"
proof -
  let ?q0 = "projr (pcq_new QUEUE_SZ True) :: 'c pcq"
  have q0: "holds ?q0 []" by (rule holds_new)
  then have m0: "holds (fst (pcq_move ?q0)) []" by (simp add: pcq_move_def)
  obtain q1 where q1: "pcq_write c (fst (pcq_move ?q0)) = Inr (True, q1)"
    using holds_write_some [OF m0, of c] by auto
  have h1: "holds q1 [c]" using holds_write(1) [OF m0 q1] by simp
  obtain q2 where q2: "pcq_pop q1 = Inr q2" "holds q2 []" using holds_pop [OF h1] by auto
  have f1: "pcq_front q1 = Some (pq_read q1)" "slot_get q1 (pq_read q1) = Inr c"
    using holds_front [OF h1] holds_get [OF h1] by simp_all
  let ?P = "\<lambda>q n l w m a r k. (pool_new :: 'c pool)\<lparr>po_tasks := (po_tasks pool_new)(0 := q),
      po_comp_tasks := (\<lambda>p. 0)(0 := k), po_sems := (\<lambda>p. 0)(0 := n), po_rlck := l, po_at := (\<lambda>p. W_wait)(0 := w),
      po_main := m, po_sent := (\<lambda>p. [])(0 := a), po_ran := (\<lambda>p. [])(0 := r)\<rparr>"
  note d = worker_step_def main_step_def goto_def post_to_def pool_new_def Let_def
  have W: "pool_reach 1 (\<lambda>c. []) s \<Longrightarrow> worker_step 1 (\<lambda>c. []) 0 s = Some s' \<Longrightarrow> pool_reach 1 (\<lambda>c. []) s'" for s s' :: "'c pool"
    using reach_worker by force
  have e: "pcq_is_empty ?q0" "\<not> pcq_is_empty q1" "pcq_is_empty q2"
    using holds_empty [OF q0] holds_empty [OF h1] holds_empty [OF q2(2)] by simp_all
  have one: "sat 0 1 = (1 :: id32)" by (simp add: sat_def)
  have "pool_reach 1 (\<lambda>c. []) (?P (fst (pcq_move ?q0)) 0 None W_wait (M_write c 0) [] [] 0)"
    by (rule reach_main [OF reach_new, of "Submit c 0"]) (simp_all add: d fun_upd_idem)
  then have "pool_reach 1 (\<lambda>c. []) (?P q1 0 None W_wait (M_post 0) [c] [] 0)"
    by (rule reach_main [of _ _ _ Finish]) (simp_all add: d q1)
  then have "pool_reach 1 (\<lambda>c. []) (?P q1 1 None W_wait M_idle [c] [] 0)"
    by (rule reach_main [of _ _ _ Finish]) (simp_all add: d one)
  then have "pool_reach 1 (\<lambda>c. []) (?P q1 1 None W_wait (M_check 0 True) [c] [] 0)"
    by (rule reach_main [of _ _ _ Finish]) (simp_all add: d)
  then have "pool_reach 1 (\<lambda>c. []) (?P q1 1 None W_wait (M_check 1 False) [c] [] 0)"
    by (rule reach_main [of _ _ _ Finish]) (simp_all add: d e)
  then have "pool_reach 1 (\<lambda>c. []) (?P q1 1 None W_wait M_sleep [c] [] 0)"
    by (rule reach_main [of _ _ _ Finish]) (simp_all add: d)
  then have "pool_reach 1 (\<lambda>c. []) (?P q1 0 None W_woken M_sleep [c] [] 0)"
    by (rule W) (simp add: d)
  then have "pool_reach 1 (\<lambda>c. []) (?P q1 0 None W_try M_sleep [c] [] 0)"
    by (rule W) (simp add: d)
  then have "pool_reach 1 (\<lambda>c. []) (?P q1 0 (Some 0) W_locked M_sleep [c] [] 0)"
    by (rule W) (simp add: d)
  then have "pool_reach 1 (\<lambda>c. []) (?P q1 0 (Some 0) W_empty M_sleep [c] [] 0)"
    by (rule W) (simp add: d e)
  then have "pool_reach 1 (\<lambda>c. []) (?P q1 0 None W_tasks M_sleep [c] [] 0)"
    by (rule W) (simp add: d)
  then have "pool_reach 1 (\<lambda>c. []) (?P q1 0 None (W_run (pq_read q1)) M_sleep [c] [] 0)"
    by (rule W) (simp add: d e f1)
  then have "pool_reach 1 (\<lambda>c. []) (?P q1 0 None (W_spawn []) M_sleep [c] [c] 0)"
    by (rule W) (simp add: d f1)
  then have "pool_reach 1 (\<lambda>c. []) (?P q1 0 None W_ran M_sleep [c] [c] 0)"
    by (rule W) (simp add: d)
  then have "pool_reach 1 (\<lambda>c. []) (?P q2 0 None W_notify M_sleep [c] [c] 1)"
    by (rule W) (simp add: d q2(1))
  then have "pool_reach 1 (\<lambda>c. []) (?P q2 0 None W_wait M_sleep [c] [c] 1)"
    by (rule W) (simp add: d)
  then have "pool_reach 1 (\<lambda>c. []) (?P q2 0 None W_wait M_asleep [c] [c] 1)"
    by (rule reach_main [of _ _ _ Finish]) (simp_all add: d)
  then show ?thesis
    by (intro exI [of _ "?P q2 0 None W_wait M_asleep [c] [c] 1"])
      (auto simp: d e word_gt_0 split: if_splits)
qed

end
