(* ===== verification/Hash_Mix.thy ===== *)
theory Hash_Mix imports Prelude begin

text \<open>
  The hash functions of src/include/folly/Hash.h at their machine widths: the reversible
  mixing functions of Wang and Jenkins with their inverses, the combination of two hashes into one,
  the FNV hashes of buffers and of zero terminated strings, the hash of Hsieh and the hasher
  instances. A step of the mixing functions multiplies by an odd constant or folds
  the word's high bits into its low bits; both have an inverse, which the lemmas give once
  for all widths.
\<close>

named_theorems mix_inverse \<open>a step of a mixing function followed by its inverse\<close>

subsection \<open>Steps that have an inverse\<close>

fun xor_shifts :: "nat \<Rightarrow> nat \<Rightarrow> 'a::len word \<Rightarrow> 'a word" where
  "xor_shifts n 0 a = a"
| "xor_shifts n (Suc k) a = xor_shifts n k a XOR drop_bit (n * Suc k) a"

lemma drop_bit_over: "LENGTH('a) \<le> n \<Longrightarrow> drop_bit n (a :: 'a::len word) = 0"
  by (rule bit_word_eqI) (simp add: bit_drop_bit_eq bit_imp_le_length)

lemma xor_shifts_telescope:
  "xor_shifts n k (a XOR drop_bit n a) = (a :: 'a::len word) XOR drop_bit (n * Suc k) a"
proof (induction k)
  case (Suc k)
  have "drop_bit (n * Suc k) (a XOR drop_bit n a) = drop_bit (n * Suc k) a XOR drop_bit (n * Suc (Suc k)) a"
    by (simp only: drop_bit_xor drop_bit_drop_bit mult_Suc_right [of n "Suc k"] add.commute)
  with Suc show ?case by (simp only: xor_shifts.simps xor.assoc) (simp add: xor.assoc [symmetric])
qed simp

lemma xor_shift_inverse:
  "LENGTH('a) \<le> n * Suc k \<Longrightarrow> xor_shifts n k ((a :: 'a::len word) XOR drop_bit n a) = a"
  by (simp only: xor_shifts_telescope drop_bit_over xor.right_neutral)

lemma mult_inverse: "c * d = (1 :: 'a::len word) \<Longrightarrow> a * c * d = a"
  by (simp add: mult.assoc)

subsection \<open>The mixing functions of Wang\<close>

definition twang_mix64 :: "64 word \<Rightarrow> 64 word" where
  "twang_mix64 key = (let
     key = NOT key + push_bit 21 key;
     key = key XOR drop_bit 24 key;
     key = key + push_bit 3 key + push_bit 8 key;
     key = key XOR drop_bit 14 key;
     key = key + push_bit 2 key + push_bit 4 key;
     key = key XOR drop_bit 28 key;
     key = key + push_bit 31 key
   in key)"

definition twang_unmix64 :: "64 word \<Rightarrow> 64 word" where
  "twang_unmix64 key = (let
     key = key * 4611686016279904257;
     key = key XOR (drop_bit 28 key XOR drop_bit 56 key);
     key = key * 14933078535860113213;
     key = key XOR (drop_bit 14 key XOR drop_bit 28 key XOR drop_bit 42 key XOR drop_bit 56 key);
     key = key * 15244667743933553977;
     key = key XOR (drop_bit 24 key XOR drop_bit 48 key);
     key = (key + 1) * 9223367638806167551
   in key)"

definition twang_32from64 :: "64 word \<Rightarrow> 32 word" where
  "twang_32from64 key = (let
     key = NOT key + push_bit 18 key;
     key = key XOR drop_bit 31 key;
     key = key * 21;
     key = key XOR drop_bit 11 key;
     key = key + push_bit 6 key;
     key = key XOR drop_bit 22 key
   in ucast key)"

subsection \<open>The reversible mix of Jenkins\<close>

definition jenkins_rev_mix32 :: "32 word \<Rightarrow> 32 word" where
  "jenkins_rev_mix32 key = (let
     key = key + push_bit 12 key;
     key = key XOR drop_bit 22 key;
     key = key + push_bit 4 key;
     key = key XOR drop_bit 9 key;
     key = key + push_bit 10 key;
     key = key XOR drop_bit 2 key;
     key = key + push_bit 7 key;
     key = key + push_bit 12 key
   in key)"

definition jenkins_rev_unmix32 :: "32 word \<Rightarrow> 32 word" where
  "jenkins_rev_unmix32 key = (let
     key = key * 2364026753;
     key = key XOR (drop_bit 2 key XOR drop_bit 4 key XOR drop_bit 6 key XOR drop_bit 8 key XOR
       drop_bit 10 key XOR drop_bit 12 key XOR drop_bit 14 key XOR drop_bit 16 key XOR
       drop_bit 18 key XOR drop_bit 20 key XOR drop_bit 22 key XOR drop_bit 24 key XOR
       drop_bit 26 key XOR drop_bit 28 key XOR drop_bit 30 key);
     key = key * 3222273025;
     key = key XOR (drop_bit 9 key XOR drop_bit 18 key XOR drop_bit 27 key);
     key = key * 4042322161;
     key = key XOR drop_bit 22 key;
     key = key * 16773121
   in key)"

lemma shifts_24: "a XOR (drop_bit 24 a XOR drop_bit 48 a) = xor_shifts 24 2 a"
  and shifts_14: "a XOR (drop_bit 14 a XOR drop_bit 28 a XOR drop_bit 42 a XOR drop_bit 56 a) = xor_shifts 14 4 a"
  and shifts_28: "a XOR (drop_bit 28 a XOR drop_bit 56 a) = xor_shifts 28 2 a"
  and shifts_22: "a XOR drop_bit 22 a = xor_shifts 22 1 a"
  and shifts_9: "a XOR (drop_bit 9 a XOR drop_bit 18 a XOR drop_bit 27 a) = xor_shifts 9 3 a"
  and shifts_2: "a XOR (drop_bit 2 a XOR drop_bit 4 a XOR drop_bit 6 a XOR drop_bit 8 a XOR
       drop_bit 10 a XOR drop_bit 12 a XOR drop_bit 14 a XOR drop_bit 16 a XOR
       drop_bit 18 a XOR drop_bit 20 a XOR drop_bit 22 a XOR drop_bit 24 a XOR
       drop_bit 26 a XOR drop_bit 28 a XOR drop_bit 30 a) = xor_shifts 2 15 a"
  by (simp_all add: eval_nat_numeral xor.assoc)

lemma twang_products [mix_inverse]:
  "NOT a + push_bit 21 a = a * 2097151 - (1 :: 64 word)"
  "a + push_bit 3 a + push_bit 8 a = a * (265 :: 64 word)"
  "a + push_bit 2 a + push_bit 4 a = a * (21 :: 64 word)"
  "a + push_bit 31 a = a * (2147483649 :: 64 word)"
  by (simp_all add: push_bit_eq_mult not_eq_complement algebra_simps)

lemma jenkins_products [mix_inverse]:
  "b + push_bit 12 b = b * (4097 :: 32 word)"
  "b + push_bit 4 b = b * (17 :: 32 word)"
  "b + push_bit 10 b = b * (1025 :: 32 word)"
  "b + push_bit 7 b = b * (129 :: 32 word)"
  by (simp_all add: push_bit_eq_mult algebra_simps)

lemma twang_cancels [mix_inverse]:
  "(a :: 64 word) * 2147483649 * 4611686016279904257 = a"
  "(a :: 64 word) * 21 * 14933078535860113213 = a"
  "(a :: 64 word) * 265 * 15244667743933553977 = a"
  "(a * 2097151 - 1 + 1) * 9223367638806167551 = (a :: 64 word)"
  unfolding diff_add_cancel by (rule mult_inverse, simp)+

lemma jenkins_cancels [mix_inverse]:
  "(b :: 32 word) * 129 * 4097 * 2364026753 = b"
  "(b :: 32 word) * 1025 * 3222273025 = b"
  "(b :: 32 word) * 17 * 4042322161 = b"
  "(b :: 32 word) * 4097 * 16773121 = b"
  unfolding mult.assoc [of b 129] by (rule mult_inverse, simp)+

lemma shift_cancels [mix_inverse]:
  "xor_shifts 28 2 (a XOR drop_bit 28 a) = (a :: 64 word)"
  "xor_shifts 14 4 (a XOR drop_bit 14 a) = (a :: 64 word)"
  "xor_shifts 24 2 (a XOR drop_bit 24 a) = (a :: 64 word)"
  "xor_shifts 2 15 (b XOR drop_bit 2 b) = (b :: 32 word)"
  "xor_shifts 9 3 (b XOR drop_bit 9 b) = (b :: 32 word)"
  by (rule xor_shift_inverse, simp)+

lemma shift_cancel_22 [mix_inverse]:
  "(b XOR drop_bit 22 b) XOR drop_bit 22 (b XOR drop_bit 22 b) = (b :: 32 word)"
  unfolding shifts_22 [of "b XOR drop_bit 22 b"] by (rule xor_shift_inverse) simp

text \<open>C37. The mixing functions of the integer hashers are undone by their inverses.

  The unmixing function of Wang undoes his 64 bit mix and the one of Jenkins his 32 bit mix, on
  every word: the hash of an integer key determines the key, so that two integer keys of a
  table never have the same hash value.\<close>

theorem mix_roundtrip:
  "twang_unmix64 (twang_mix64 key) = key \<and> jenkins_rev_unmix32 (jenkins_rev_mix32 key32) = key32"
  unfolding twang_mix64_def twang_unmix64_def jenkins_rev_mix32_def jenkins_rev_unmix32_def Let_def
    shifts_24 shifts_14 shifts_28 shifts_2 shifts_9
  by (simp only: mix_inverse simp_thms)

subsection \<open>Combining hashes\<close>

text \<open>
  size\_t has 64 bits, so that the conditional of hash\_combine\_generic on its size takes the
  branch of hash\_128\_to\_64. The arguments are a list of values and the hasher a function.
\<close>

definition kMul :: "64 word" where
  "kMul = 0x9ddfea08eb382d69"

definition hash_128_to_64 :: "64 word \<Rightarrow> 64 word \<Rightarrow> 64 word" where
  "hash_128_to_64 upper lower = (let
     a = (lower XOR upper) * kMul;
     a = a XOR drop_bit 47 a;
     b = (upper XOR a) * kMul;
     b = b XOR drop_bit 47 b;
     b = b * kMul
   in b)"

fun hash_range :: "('t \<Rightarrow> 64 word) \<Rightarrow> 't list \<Rightarrow> 64 word \<Rightarrow> 64 word" where
  "hash_range hasher [] hash = hash"
| "hash_range hasher (x # xs) hash = hash_range hasher xs (hash_128_to_64 hash (hasher x))"

fun hash_combine_generic :: "('t \<Rightarrow> 64 word) \<Rightarrow> 't list \<Rightarrow> 64 word" where
  "hash_combine_generic h [] = 0"
| "hash_combine_generic h (t # ts) = (let seed = h t in
     if length ts = 0 then seed
     else let remainder = hash_combine_generic h ts in hash_128_to_64 seed remainder)"

definition hash_combine :: "('t \<Rightarrow> 64 word) \<Rightarrow> 't list \<Rightarrow> 64 word" where
  "hash_combine stdhash ts = hash_combine_generic stdhash ts"

fun tuple_hasher :: "('t \<Rightarrow> 64 word) \<Rightarrow> (64 word \<Rightarrow> 64 word) \<Rightarrow> 't list \<Rightarrow> nat \<Rightarrow> 64 word" where
  "tuple_hasher h h64 key 0 = hash_combine h [key ! 0]"
| "tuple_hasher h h64 key (Suc index) =
     hash_combine id [h64 (tuple_hasher h h64 key index), h (key ! Suc index)]"

lemma kMul_inverse: "kMul * 15877131476434367193 = 1"
  unfolding kMul_def by simp

lemma fold_47: "xor_shifts 47 1 (a XOR drop_bit 47 a) = (a :: 64 word)"
  by (rule xor_shift_inverse) simp

lemma mult_kMul_inj: "a * kMul = b * kMul \<Longrightarrow> a = b"
  by (metis mult_inverse kMul_inverse)

lemma fold_47_inj: "a XOR drop_bit 47 a = b XOR drop_bit 47 b \<Longrightarrow> a = (b :: 64 word)"
  by (metis fold_47)

lemma xor_inj: "x XOR a = x XOR b \<Longrightarrow> a = (b :: 'a::len word)"
  by (metis xor.assoc xor_self_eq xor.left_neutral)

lemma hash_128_to_64_inj:
  assumes "hash_128_to_64 u a = hash_128_to_64 u b"
  shows "a = b"
proof -
  define f where "f x = (x XOR u) * kMul" for x
  define g where "g x = x XOR drop_bit 47 x" for x :: "64 word"
  have e: "hash_128_to_64 u x = g ((u XOR g (f x)) * kMul) * kMul" for x
    by (simp add: hash_128_to_64_def f_def g_def Let_def)
  have g: "g x = g y \<Longrightarrow> x = y" for x y unfolding g_def by (rule fold_47_inj)
  have "g ((u XOR g (f a)) * kMul) = g ((u XOR g (f b)) * kMul)"
    using assms unfolding e by (rule mult_kMul_inj)
  then have "u XOR g (f a) = u XOR g (f b)" by (rule mult_kMul_inj [OF g])
  then have "f a = f b" by (rule g [OF xor_inj])
  then have "a XOR u = b XOR u" unfolding f_def by (rule mult_kMul_inj)
  then have "u XOR a = u XOR b" unfolding xor.commute [of a u] xor.commute [of b u] .
  then show ?thesis by (rule xor_inj)
qed

lemma hash_range_append: "hash_range h (xs @ ys) s = hash_range h ys (hash_range h xs s)"
  by (induction xs arbitrary: s) auto

text \<open>
  Two argument lists that agree but for the last argument collide only if the hasher collides on
  it, however long the lists are.
\<close>

lemma hash_combine_last:
  "hash_combine h (ts @ [a]) = hash_combine h (ts @ [b]) \<Longrightarrow> h a = h b"
  unfolding hash_combine_def
proof (induction ts)
  case (Cons t ts)
  then show ?case by (auto simp: Let_def dest!: hash_128_to_64_inj)
qed simp

subsection \<open>The hash of Fowler, Noll and Vo\<close>

text \<open>
  A zero terminated string is the memory from its first character on; running off the memory
  given is None. The language leaves open whether char is signed, which the pointer version
  depends on and the buffer version, which reads signed characters, does not.
\<close>

type_synonym byte = "8 word"

definition FNV_32_HASH_START :: "32 word" where
  "FNV_32_HASH_START = 2166136261"

definition FNV_64_HASH_START :: "64 word" where
  "FNV_64_HASH_START = 14695981039346656037"

definition char_value :: "bool \<Rightarrow> byte \<Rightarrow> 'a::len word" where
  "char_value char_signed c = (if char_signed then scast c else ucast c)"

definition fnv32_mult :: "32 word \<Rightarrow> 32 word" where
  "fnv32_mult h = h + (push_bit 1 h + push_bit 4 h + push_bit 7 h + push_bit 8 h + push_bit 24 h)"

definition fnv64_mult :: "64 word \<Rightarrow> 64 word" where
  "fnv64_mult h = h + (push_bit 1 h + push_bit 4 h + push_bit 5 h + push_bit 7 h + push_bit 8 h + push_bit 40 h)"

fun fnv32 :: "bool \<Rightarrow> byte list \<Rightarrow> 32 word \<Rightarrow> 32 word option" where
  "fnv32 cs [] hash = None"
| "fnv32 cs (c # s) hash = (if c = 0 then Some hash else fnv32 cs s (fnv32_mult hash XOR char_value cs c))"

fun fnv32_buf :: "byte list \<Rightarrow> 32 word \<Rightarrow> 32 word" where
  "fnv32_buf [] hash = hash"
| "fnv32_buf (c # s) hash = fnv32_buf s (fnv32_mult hash XOR scast c)"

fun fnv64 :: "bool \<Rightarrow> byte list \<Rightarrow> 64 word \<Rightarrow> 64 word option" where
  "fnv64 cs [] hash = None"
| "fnv64 cs (c # s) hash = (if c = 0 then Some hash else fnv64 cs s (fnv64_mult hash XOR char_value cs c))"

fun fnv64_buf :: "byte list \<Rightarrow> 64 word \<Rightarrow> 64 word" where
  "fnv64_buf [] hash = hash"
| "fnv64_buf (c # s) hash = fnv64_buf s (fnv64_mult hash XOR scast c)"

definition fnv32_str :: "byte list \<Rightarrow> 32 word \<Rightarrow> 32 word" where
  "fnv32_str str hash = fnv32_buf str hash"

definition fnv64_str :: "byte list \<Rightarrow> 64 word \<Rightarrow> 64 word" where
  "fnv64_str str hash = fnv64_buf str hash"

lemma fnv_prime: "fnv32_mult h = h * 16777619" "fnv64_mult k = k * 1099511628211"
  by (simp_all add: fnv32_mult_def fnv64_mult_def push_bit_eq_mult algebra_simps)

lemma fnv_pointer_buffer:
  "0 \<notin> set s \<Longrightarrow> fnv32 True (s @ 0 # rest) h = Some (fnv32_str s h)"
  "0 \<notin> set s \<Longrightarrow> fnv64 True (s @ 0 # rest) k = Some (fnv64_str s k)"
  unfolding fnv32_str_def fnv64_str_def
  by (induction s arbitrary: h k) (auto simp: char_value_def)

text \<open>
  With unsigned characters the two versions disagree on a character above 127.
\<close>

lemma fnv_unsigned_differs:
  "fnv32 False [200, 0] FNV_32_HASH_START \<noteq> Some (fnv32_str [200] FNV_32_HASH_START)"
  by (simp add: fnv_prime FNV_32_HASH_START_def fnv32_str_def char_value_def)

subsection \<open>The hash of Hsieh\<close>

text \<open>
  A buffer is the bytes of its memory, None the null pointer; two bytes are read as a
  little endian 16 bit number, as on the target.
\<close>

definition get16bits :: "byte list \<Rightarrow> 32 word" where
  "get16bits s = ucast (s ! 0) OR push_bit 8 (ucast (s ! 1))"

fun hsieh_main :: "nat \<Rightarrow> byte list \<Rightarrow> 32 word \<Rightarrow> byte list \<times> 32 word" where
  "hsieh_main 0 s hash = (s, hash)"
| "hsieh_main (Suc len) s hash = (let
     hash = hash + get16bits s;
     tmp = push_bit 11 (get16bits (drop 2 s)) XOR hash;
     hash = push_bit 16 hash XOR tmp;
     hash = hash + drop_bit 11 hash
   in hsieh_main len (drop 4 s) hash)"

definition hsieh_end :: "nat \<Rightarrow> byte list \<Rightarrow> 32 word \<Rightarrow> 32 word" where
  "hsieh_end rem s hash =
    (if rem = 3 then let
       hash = hash + get16bits s;
       hash = hash XOR push_bit 16 hash;
       hash = hash XOR push_bit 18 (scast (s ! 2))
     in hash + drop_bit 11 hash
     else if rem = 2 then let
       hash = hash + get16bits s;
       hash = hash XOR push_bit 11 hash
     in hash + drop_bit 17 hash
     else if rem = 1 then let
       hash = hash + scast (s ! 0);
       hash = hash XOR push_bit 10 hash
     in hash + drop_bit 1 hash
     else hash)"

definition hsieh_avalanche :: "32 word \<Rightarrow> 32 word" where
  "hsieh_avalanche hash = (let
     hash = hash XOR push_bit 3 hash;
     hash = hash + drop_bit 5 hash;
     hash = hash XOR push_bit 4 hash;
     hash = hash + drop_bit 17 hash;
     hash = hash XOR push_bit 25 hash;
     hash = hash + drop_bit 6 hash
   in hash)"

definition hsieh_hash32_buf :: "byte list option \<Rightarrow> 32 word" where
  "hsieh_hash32_buf buf = (case buf of None \<Rightarrow> 0 | Some b \<Rightarrow>
     if length b \<le> 0 then 0
     else let (s, hash) = hsieh_main (length b div 4) b (word_of_nat (length b))
       in hsieh_avalanche (hsieh_end (length b mod 4) s hash))"

definition hsieh_hash32 :: "byte list \<Rightarrow> 32 word" where
  "hsieh_hash32 s = hsieh_hash32_buf (Some (takeWhile (\<lambda>c. c \<noteq> 0) s))"

definition hsieh_hash32_str :: "byte list \<Rightarrow> 32 word" where
  "hsieh_hash32_str str = hsieh_hash32_buf (Some str)"

lemma hsieh_pointer_buffer: "0 \<notin> set s \<Longrightarrow> hsieh_hash32 (s @ 0 # rest) = hsieh_hash32_str s"
proof -
  assume "0 \<notin> set s"
  then have "takeWhile (\<lambda>c. c \<noteq> 0) (s @ 0 # rest) = s" by (induction s) auto
  then show ?thesis by (simp add: hsieh_hash32_def hsieh_hash32_str_def)
qed

text \<open>
  The main loop takes four bytes a round and never reads past the buffer: what it leaves is the
  rest of fewer than four bytes that the end cases read.
\<close>

lemma hsieh_main_rest:
  "4 * len \<le> length s \<Longrightarrow> fst (hsieh_main len s h) = drop (4 * len) s"
  by (induction len s h rule: hsieh_main.induct) (auto simp: Let_def add.commute)

lemma hsieh_rest_length: "length (fst (hsieh_main (length s div 4) s h)) = length s mod 4"
proof -
  have "4 * (length s div 4) \<le> length s" by simp
  from hsieh_main_rest [OF this, of h] show ?thesis by (simp add: minus_mult_div_eq_mod)
qed

subsection \<open>The hasher instances\<close>

definition hasher_uint32 :: "32 word \<Rightarrow> 64 word" where
  "hasher_uint32 key = ucast (jenkins_rev_mix32 key)"

definition hasher_int32 :: "32 word \<Rightarrow> 64 word" where
  "hasher_int32 key = ucast (jenkins_rev_mix32 key)"

definition hasher_uint64 :: "64 word \<Rightarrow> 64 word" where
  "hasher_uint64 key = twang_mix64 key"

definition hasher_int64 :: "64 word \<Rightarrow> 64 word" where
  "hasher_int64 key = twang_mix64 key"

fun Hash_call :: "('t \<Rightarrow> 64 word) \<Rightarrow> 't \<Rightarrow> 't list \<Rightarrow> 64 word" where
  "Hash_call hasher t [] = hasher t"
| "Hash_call hasher t (t' # ts) = hash_128_to_64 (hasher t) (Hash_call hasher t' ts)"

lemma Hash_call_combine: "Hash_call h t ts = hash_combine_generic h (t # ts)"
  by (induction h t ts rule: Hash_call.induct) (auto simp: Let_def)

end
