(* ===== verification/Spooky.thy ===== *)
theory Spooky imports Prelude begin

text \<open>
  SpookyHash, versions 1 and 2 (src/include/folly/SpookyHashV1.h, SpookyHashV1.cpp, SpookyHashV2.h,
  SpookyHashV2.cpp): the mixing functions on 64 bit words, the hash of a message in one call, and the
  context that takes a message in pieces. Messages and buffers are lists of bytes; an access outside
  one is \<open>None\<close>. The versions share the mixing functions and \<open>Update\<close>; they differ in the short
  hash and in how the last block is mixed in. The processor is little-endian.
\<close>

type_synonym octet = "8 word"

section \<open>Memory\<close>

definition le64 :: "octet list \<Rightarrow> 64 word" where
  "le64 bs = foldr (\<lambda>b x. push_bit 8 x OR ucast b) bs 0"

definition le32 :: "octet list \<Rightarrow> 32 word" where
  "le32 bs = foldr (\<lambda>b x. push_bit 8 x OR ucast b) bs 0"

definition p64 :: "octet list \<Rightarrow> nat \<Rightarrow> 64 word option" where
  "p64 m i = (if 8 * i + 8 \<le> length m then Some (le64 (take 8 (drop (8 * i) m))) else None)"

definition p32 :: "octet list \<Rightarrow> nat \<Rightarrow> 64 word option" where
  "p32 m i = (if 4 * i + 4 \<le> length m then Some (ucast (le32 (take 4 (drop (4 * i) m)))) else None)"

definition p8 :: "octet list \<Rightarrow> nat \<Rightarrow> 64 word option" where
  "p8 m i = map_option ucast (nth_opt m i)"

text \<open>The first \<open>n\<close> words at a pointer, and \<open>memcpy\<close> of \<open>bs\<close> into a buffer.\<close>

definition words64 :: "octet list \<Rightarrow> nat \<Rightarrow> 64 word list option" where
  "words64 m n = (if 8 * n \<le> length m then Some (map (\<lambda>i. le64 (take 8 (drop (8 * i) m))) [0..<n]) else None)"

definition memcpy :: "octet list \<Rightarrow> nat \<Rightarrow> octet list \<Rightarrow> octet list option" where
  "memcpy buf at bs = (if at + length bs \<le> length buf
     then Some (take at buf @ bs @ drop (at + length bs) buf) else None)"

definition read_bytes :: "octet list \<Rightarrow> nat \<Rightarrow> octet list option" where
  "read_bytes m n = (if n \<le> length m then Some (take n m) else None)"

section \<open>Mixing\<close>

definition Rot64 :: "64 word \<Rightarrow> nat \<Rightarrow> 64 word" where
  "Rot64 x k = push_bit k x OR drop_bit (64 - k) x"

definition sc_const :: "64 word" where "sc_const = 0xdeadbeefdeadbeef"

abbreviation "sc_numVars \<equiv> 12 :: nat"
abbreviation "sc_blockSize \<equiv> 96 :: nat"
abbreviation "sc_bufSize \<equiv> 192 :: nat"

text \<open>The rows of \<open>Mix\<close>, \<open>EndPartial\<close>, \<open>ShortMix\<close> and \<open>ShortEnd\<close> differ in the constant of the rotation
  and in the variables, which advance by one from row to row.\<close>

definition mix_row :: "64 word list \<Rightarrow> nat \<Rightarrow> nat \<Rightarrow> 64 word list \<Rightarrow> 64 word list" where
  "mix_row dat i k s = (let
     v = (\<lambda>j. (i + j) mod sc_numVars);
     s = s[v 0 := s ! v 0 + dat ! i];
     s = s[v 2 := s ! v 2 XOR s ! v 10];
     s = s[v 11 := s ! v 11 XOR s ! v 0];
     s = s[v 0 := Rot64 (s ! v 0) k]
   in s[v 11 := s ! v 11 + s ! v 1])"

definition Mix :: "64 word list \<Rightarrow> 64 word list \<Rightarrow> 64 word list" where
  "Mix dat s = foldl (\<lambda>s (i, k). mix_row dat i k s) s
     (zip [0..<12] [11, 32, 43, 31, 17, 28, 39, 57, 55, 54, 22, 46])"

definition end_row :: "nat \<Rightarrow> nat \<Rightarrow> 64 word list \<Rightarrow> 64 word list" where
  "end_row i k h = (let
     v = (\<lambda>j. (i + j) mod sc_numVars);
     h = h[v 11 := h ! v 11 + h ! v 1];
     h = h[v 2 := h ! v 2 XOR h ! v 11]
   in h[v 1 := Rot64 (h ! v 1) k])"

definition EndPartial :: "64 word list \<Rightarrow> 64 word list" where
  "EndPartial h = foldl (\<lambda>h (i, k). end_row i k h) h
     (zip [0..<12] [44, 15, 34, 21, 38, 33, 10, 13, 38, 53, 42, 54])"

definition EndV1 :: "64 word list \<Rightarrow> 64 word list" where
  "EndV1 h = EndPartial (EndPartial (EndPartial h))"

definition EndV2 :: "64 word list \<Rightarrow> 64 word list \<Rightarrow> 64 word list" where
  "EndV2 dat h = EndPartial (EndPartial (EndPartial (map2 (+) h dat)))"

definition short_mix_row :: "nat \<Rightarrow> nat \<Rightarrow> 64 word list \<Rightarrow> 64 word list" where
  "short_mix_row i k h = (let
     v = (\<lambda>j. (i + j) mod 4);
     h = h[v 2 := Rot64 (h ! v 2) k];
     h = h[v 2 := h ! v 2 + h ! v 3]
   in h[v 0 := h ! v 0 XOR h ! v 2])"

definition ShortMix :: "64 word list \<Rightarrow> 64 word list" where
  "ShortMix h = foldl (\<lambda>h (i, k). short_mix_row i k h) h
     (zip [0..<12] [50, 52, 30, 41, 54, 48, 38, 37, 62, 34, 5, 36])"

definition short_end_row :: "nat \<Rightarrow> nat \<Rightarrow> 64 word list \<Rightarrow> 64 word list" where
  "short_end_row i k h = (let
     v = (\<lambda>j. (i + j) mod 4);
     h = h[v 3 := h ! v 3 XOR h ! v 2];
     h = h[v 2 := Rot64 (h ! v 2) k]
   in h[v 3 := h ! v 3 + h ! v 2])"

definition ShortEnd :: "64 word list \<Rightarrow> 64 word list" where
  "ShortEnd h = foldl (\<lambda>h (i, k). short_end_row i k h) h
     (zip [0..<11] [15, 52, 26, 51, 28, 9, 47, 54, 32, 25, 63])"

section \<open>The short hash\<close>

text \<open>All complete sets of 32 bytes, and a set of 16: the rest of the message and the variables.\<close>

fun short_sets :: "nat \<Rightarrow> octet list \<Rightarrow> 64 word list \<Rightarrow> (octet list \<times> 64 word list) option" where
  "short_sets 0 m h = Some (m, h)"
| "short_sets (Suc n) m h = do {
     w \<leftarrow> words64 m 4;
     h \<leftarrow> Some (ShortMix (map2 (+) h [0, 0, w ! 0, w ! 1]));
     short_sets n (drop 32 m) (map2 (+) h [w ! 2, w ! 3, 0, 0]) }"

definition short_body :: "octet list \<Rightarrow> 64 word list \<Rightarrow> (octet list \<times> 64 word list) option" where
  "short_body m h =
    (if 15 < length m then do {
       (r, h) \<leftarrow> short_sets (length m div 32) m h;
       if 16 \<le> length m mod 32 then do {
         w \<leftarrow> words64 r 2;
         Some (drop 16 r, ShortMix (map2 (+) h [0, 0, w ! 0, w ! 1])) }
       else Some (r, h) }
     else Some (m, h))"

text \<open>The switch over the number of bytes left; its cases fall through.\<close>

definition add8 :: "bool \<Rightarrow> octet list \<Rightarrow> nat \<Rightarrow> nat \<Rightarrow> 64 word \<Rightarrow> 64 word option" where
  "add8 b m i k x = (if b then do { y \<leftarrow> p8 m i; Some (x + push_bit k y) } else Some x)"

definition short_tail :: "octet list \<Rightarrow> 64 word \<Rightarrow> 64 word \<Rightarrow> (64 word \<times> 64 word) option" where
  "short_tail m c d = (let r = length m in
     if 12 \<le> r then do {
       d \<leftarrow> add8 (15 \<le> r) m 14 48 d; d \<leftarrow> add8 (14 \<le> r) m 13 40 d; d \<leftarrow> add8 (13 \<le> r) m 12 32 d;
       x \<leftarrow> p32 m 2; y \<leftarrow> p64 m 0; Some (c + y, d + x) }
     else if 8 \<le> r then do {
       d \<leftarrow> add8 (11 \<le> r) m 10 16 d; d \<leftarrow> add8 (10 \<le> r) m 9 8 d; d \<leftarrow> add8 (9 \<le> r) m 8 0 d;
       y \<leftarrow> p64 m 0; Some (c + y, d) }
     else if 4 \<le> r then do {
       c \<leftarrow> add8 (7 \<le> r) m 6 48 c; c \<leftarrow> add8 (6 \<le> r) m 5 40 c; c \<leftarrow> add8 (5 \<le> r) m 4 32 c;
       x \<leftarrow> p32 m 0; Some (c + x, d) }
     else if 1 \<le> r then do {
       c \<leftarrow> add8 (3 \<le> r) m 2 16 c; c \<leftarrow> add8 (2 \<le> r) m 1 8 c; c \<leftarrow> add8 True m 0 0 c;
       Some (c, d) }
     else Some (c + sc_const, d + sc_const))"

text \<open>The message of the short hash, or its copy in the local buffer where unaligned reads are not allowed.\<close>

definition short_source :: "bool \<Rightarrow> octet list \<Rightarrow> octet list option" where
  "short_source direct m = (if direct then Some m
     else do { buf \<leftarrow> memcpy (replicate sc_bufSize 0) 0 m; read_bytes buf (length m) })"

type_synonym short_hash = "bool \<Rightarrow> octet list \<Rightarrow> 64 word \<Rightarrow> 64 word \<Rightarrow> (64 word \<times> 64 word) option"

text \<open>Version 1 assigns the length to \<open>d\<close>, version 2 adds it.\<close>

definition ShortV1 :: short_hash where
  "ShortV1 direct m hash1 hash2 = do {
     src \<leftarrow> short_source direct m;
     (r, h) \<leftarrow> short_body src [hash1, hash2, sc_const, sc_const];
     (c, d) \<leftarrow> short_tail r (h ! 2) (push_bit 56 (of_nat (length m)));
     h \<leftarrow> Some (ShortEnd [h ! 0, h ! 1, c, d]);
     Some (h ! 0, h ! 1) }"

definition ShortV2 :: short_hash where
  "ShortV2 direct m hash1 hash2 = do {
     src \<leftarrow> short_source direct m;
     (r, h) \<leftarrow> short_body src [hash1, hash2, sc_const, sc_const];
     (c, d) \<leftarrow> short_tail r (h ! 2) (h ! 3 + push_bit 56 (of_nat (length m)));
     h \<leftarrow> Some (ShortEnd [h ! 0, h ! 1, c, d]);
     Some (h ! 0, h ! 1) }"

section \<open>The hash in one call\<close>

definition start_vars :: "64 word \<Rightarrow> 64 word \<Rightarrow> 64 word list" where
  "start_vars s1 s2 = [s1, s2, sc_const, s1, s2, sc_const, s1, s2, sc_const, s1, s2, sc_const]"

text \<open>\<open>n\<close> blocks at a pointer. Where unaligned reads are not allowed they go through a buffer.\<close>

fun mix_blocks :: "bool \<Rightarrow> nat \<Rightarrow> octet list \<Rightarrow> octet list \<Rightarrow> 64 word list \<Rightarrow> (octet list \<times> 64 word list) option" where
  "mix_blocks direct 0 buf m h = Some (buf, h)"
| "mix_blocks direct (Suc n) buf m h = do {
     (buf, w) \<leftarrow> (if direct then do { w \<leftarrow> words64 m 12; Some (buf, w) }
       else do { bs \<leftarrow> read_bytes m 96; buf \<leftarrow> memcpy buf 0 bs; w \<leftarrow> words64 buf 12; Some (buf, w) });
     mix_blocks direct n buf (drop 96 m) (Mix w h) }"

text \<open>The last partial block: zeros after the bytes, and their number at the end.\<close>

definition last_block :: "octet list \<Rightarrow> octet list" where
  "last_block r = (r @ replicate (sc_blockSize - length r) 0)[95 := of_nat (length r)]"

type_synonym end_mix = "64 word list \<Rightarrow> 64 word list \<Rightarrow> 64 word list"

definition hash128 ::
    "short_hash \<Rightarrow> end_mix \<Rightarrow> bool \<Rightarrow> octet list \<Rightarrow> 64 word \<Rightarrow> 64 word \<Rightarrow> (64 word \<times> 64 word) option" where
  "hash128 Short fin direct m hash1 hash2 =
    (if length m < sc_bufSize then Short direct m hash1 hash2
     else do {
       n \<leftarrow> Some (length m div sc_blockSize);
       (buf, h) \<leftarrow> mix_blocks direct n (replicate 96 0) m (start_vars hash1 hash2);
       w \<leftarrow> words64 (last_block (drop (96 * n) m)) 12;
       h \<leftarrow> Some (fin w h);
       Some (h ! 0, h ! 1) })"

text \<open>Version 1 mixes the last block in once more and does not add it.\<close>

definition V1_Hash128 where "V1_Hash128 = hash128 ShortV1 (\<lambda>w h. EndV1 (Mix w h))"

definition V2_Hash128 where "V2_Hash128 = hash128 ShortV2 EndV2"

definition hash64_of :: "(octet list \<Rightarrow> 64 word \<Rightarrow> 64 word \<Rightarrow> (64 word \<times> 64 word) option) \<Rightarrow> octet list \<Rightarrow> 64 word \<Rightarrow> 64 word option" where
  "hash64_of Hash128 m seed = map_option fst (Hash128 m seed seed)"

definition hash32_of :: "(octet list \<Rightarrow> 64 word \<Rightarrow> 64 word \<Rightarrow> (64 word \<times> 64 word) option) \<Rightarrow> octet list \<Rightarrow> 32 word \<Rightarrow> 32 word option" where
  "hash32_of Hash128 m seed = map_option (\<lambda>(h, _). ucast h) (Hash128 m (ucast seed) (ucast seed))"

definition V1_Hash64 where "V1_Hash64 direct = hash64_of (V1_Hash128 direct)"
definition V1_Hash32 where "V1_Hash32 direct = hash32_of (V1_Hash128 direct)"
definition V2_Hash64 where "V2_Hash64 direct = hash64_of (V2_Hash128 direct)"
definition V2_Hash32 where "V2_Hash32 direct = hash32_of (V2_Hash128 direct)"

text \<open>The hasher of strings of folly/Hash.h.\<close>

definition string_hasher :: "bool \<Rightarrow> octet list \<Rightarrow> 64 word option" where
  "string_hasher direct key = V2_Hash64 direct key 0"

section \<open>The hash in pieces\<close>

record spooky =
  m_data :: "octet list"
  m_state :: "64 word list"
  m_length :: "64 word"
  m_remainder :: octet

text \<open>A context starts with arbitrary contents.\<close>

definition SpookyInit :: "64 word \<Rightarrow> 64 word \<Rightarrow> spooky \<Rightarrow> spooky" where
  "SpookyInit seed1 seed2 c = c\<lparr>m_length := 0, m_remainder := 0, m_state := (m_state c)[0 := seed1, 1 := seed2]\<rparr>"

definition vars_of :: "spooky \<Rightarrow> 64 word list" where
  "vars_of c = (if m_length c < 192 then start_vars (m_state c ! 0) (m_state c ! 1) else m_state c)"

text \<open>What is stashed away is completed to two blocks: the buffer, the rest of the fragment and the
  variables.\<close>

definition use_stash :: "spooky \<Rightarrow> octet list \<Rightarrow> (octet list \<times> octet list \<times> 64 word list) option" where
  "use_stash c m = (let r = unat (m_remainder c) in
     if r \<noteq> 0 then do {
       bs \<leftarrow> read_bytes m (sc_bufSize - r);
       buf \<leftarrow> memcpy (m_data c) r bs;
       w \<leftarrow> words64 buf 12;
       w' \<leftarrow> words64 (drop 96 buf) 12;
       Some (buf, drop (sc_bufSize - r) m, Mix w' (Mix w (vars_of c))) }
     else Some (m_data c, m, vars_of c))"

definition SpookyUpdate :: "bool \<Rightarrow> octet list \<Rightarrow> spooky \<Rightarrow> spooky option" where
  "SpookyUpdate direct m c = (let newLength = length m + unat (m_remainder c) in
     if newLength < sc_bufSize then do {
       buf \<leftarrow> memcpy (m_data c) (unat (m_remainder c)) m;
       Some (c\<lparr>m_data := buf, m_length := of_nat (length m) + m_length c, m_remainder := of_nat newLength\<rparr>) }
     else do {
       (buf, m', h) \<leftarrow> use_stash c m;
       n \<leftarrow> Some (length m' div sc_blockSize);
       (buf, h) \<leftarrow> mix_blocks direct n buf m' h;
       rest \<leftarrow> Some (drop (96 * n) m');
       buf \<leftarrow> memcpy buf 0 rest;
       Some (c\<lparr>m_data := buf, m_state := h, m_length := of_nat (length m) + m_length c,
         m_remainder := of_nat (length rest)\<rparr>) })"

text \<open>\<open>Final\<close> up to the variables; the second component is the buffer with the last block completed.\<close>

definition spooky_final :: "short_hash \<Rightarrow> end_mix \<Rightarrow> spooky \<Rightarrow> ((64 word \<times> 64 word) \<times> octet list) option" where
  "spooky_final Short fin c =
    (if m_length c < 192 then do {
       m \<leftarrow> read_bytes (m_data c) (unat (m_length c));
       hs \<leftarrow> Short True m (m_state c ! 0) (m_state c ! 1);
       Some (hs, m_data c) }
     else do {
       r \<leftarrow> Some (unat (m_remainder c));
       (at, h) \<leftarrow> (if sc_blockSize \<le> r then do { w \<leftarrow> words64 (m_data c) 12; Some (96, Mix w (m_state c)) }
         else Some (0, m_state c));
       buf \<leftarrow> memcpy (m_data c) r (replicate (sc_blockSize - (r - at)) 0);
       buf \<leftarrow> memcpy buf (at + 95) [of_nat (r - at)];
       w \<leftarrow> words64 (drop at buf) 12;
       h \<leftarrow> Some (fin w h);
       Some ((h ! 0, h ! 1), buf) })"

text \<open>Version 1 works in the buffer of the context, version 2 on a copy.\<close>

definition V1_Final :: "spooky \<Rightarrow> ((64 word \<times> 64 word) \<times> spooky) option" where
  "V1_Final c = do {
     (hs, buf) \<leftarrow> spooky_final ShortV1 (\<lambda>w h. EndV1 (Mix w h)) c; Some (hs, c\<lparr>m_data := buf\<rparr>) }"

definition V2_Final :: "spooky \<Rightarrow> (64 word \<times> 64 word) option" where
  "V2_Final c = map_option fst (spooky_final ShortV2 EndV2 c)"

end
