(* ===== verification/Spooky_Correct.thy ===== *)
theory Spooky_Correct imports Spooky begin

text \<open>
  The contract of SpookyHash: no call reads outside the message or the buffers, and a message that
  is added in pieces, of whatever lengths and with calls of \<open>Final\<close> in between, has the hash of the
  whole message in one call. The proof follows the bytes a context has taken: the blocks that are
  mixed in and the ones stashed away are together what was given to it.
\<close>

section \<open>Blocks of a message\<close>

definition block_words :: "octet list \<Rightarrow> 64 word list" where
  "block_words m = map (\<lambda>i. le64 (take 8 (drop (8 * i) m))) [0..<12]"

lemma words64_block: "96 \<le> length m \<Longrightarrow> words64 m 12 = Some (block_words m)"
  by (simp add: words64_def block_words_def)

lemma block_words_take [simp]: "block_words (take 96 m) = block_words m"
proof -
  have "take 8 (drop (8 * i) (take 96 m)) = take 8 (drop (8 * i) m)" if "i < 12" for i
    using that by (simp add: drop_take min_def)
  then show ?thesis by (simp add: block_words_def)
qed

lemma block_words_append: "96 \<le> length a \<Longrightarrow> block_words (a @ b) = block_words a"
  using block_words_take [of "a @ b"] block_words_take [of a] by simp

fun mixed :: "nat \<Rightarrow> octet list \<Rightarrow> 64 word list \<Rightarrow> 64 word list" where
  "mixed 0 m h = h"
| "mixed (Suc n) m h = mixed n (drop 96 m) (Mix (block_words m) h)"

lemma mixed_add: "mixed (a + b) m h = mixed b (drop (96 * a) m) (mixed a m h)"
  by (induction a arbitrary: m h) (simp_all add: add.commute)

lemma mixed_append: "96 * n \<le> length a \<Longrightarrow> mixed n (a @ b) h = mixed n a h"
proof (induction n arbitrary: a h)
  case (Suc n)
  then have "96 \<le> length a" by simp
  then show ?case using Suc by (simp add: block_words_append)
qed simp

lemma memcpy_ok: "at + length bs \<le> length buf \<Longrightarrow>
    memcpy buf at bs = Some (take at buf @ bs @ drop (at + length bs) buf)"
  by (simp add: memcpy_def)

lemma mix_blocks_ok:
  "96 * n \<le> length m \<Longrightarrow> 96 \<le> length buf \<Longrightarrow>
    \<exists>buf'. mix_blocks direct n buf m h = Some (buf', mixed n m h) \<and> length buf' = length buf"
proof (induction n arbitrary: m buf h)
  case (Suc n)
  have l: "96 \<le> length m" "96 * n \<le> length (drop 96 m)" using Suc.prems(1) by simp_all
  let ?buf = "if direct then buf else take 96 m @ drop 96 buf"
  have b: "length ?buf = length buf" using l(1) Suc.prems(2) by simp
  have w: "(if direct then do { w \<leftarrow> words64 m 12; Some (buf, w) }
       else do { bs \<leftarrow> read_bytes m 96; buf \<leftarrow> memcpy buf 0 bs; w \<leftarrow> words64 buf 12; Some (buf, w) }) =
     Some (?buf, block_words m)"
    using l(1) Suc.prems(2) block_words_append [of "take 96 m"]
    by (simp add: words64_block read_bytes_def memcpy_def min_def)
  have "96 \<le> length ?buf" using b Suc.prems(2) by linarith
  from Suc.IH [OF l(2) this, of "Mix (block_words m) h"] b w show ?case by simp
qed simp

section \<open>No access outside\<close>

lemma words64_ok: "8 * n \<le> length m \<Longrightarrow> \<exists>w. words64 m n = Some w"
  by (simp add: words64_def)

lemma short_sets_ok:
  "32 * n \<le> length m \<Longrightarrow> \<exists>h'. short_sets n m h = Some (drop (32 * n) m, h')"
proof (induction n arbitrary: m h)
  case (Suc n)
  then have "32 * n \<le> length (drop 32 m)" "8 * 4 \<le> length m" by simp_all
  then show ?case using Suc.IH words64_ok [of 4 m] by (fastforce simp: add.commute)
qed simp

lemma short_body_ok: "\<exists>r h'. short_body m h = Some (r, h') \<and> length r < 16"
proof (cases "15 < length m")
  case True
  let ?n = "length m div 32"
  obtain h' where h': "short_sets ?n m h = Some (drop (32 * ?n) m, h')"
    using short_sets_ok [of ?n m] by auto
  have l: "length (drop (32 * ?n) m) = length m mod 32" by (simp add: minus_mult_div_eq_mod)
  show ?thesis
  proof (cases "16 \<le> length m mod 32")
    case b: True
    then obtain w where "words64 (drop (32 * ?n) m) 2 = Some w" using words64_ok [of 2] l by fastforce
    moreover have "length m mod 32 < 32" by simp
    then have "length (drop 16 (drop (32 * ?n) m)) < 16" using l by simp
    ultimately show ?thesis using True b h' by (auto simp: short_body_def)
  qed (use True h' l in \<open>auto simp: short_body_def\<close>)
qed (simp add: short_body_def)

lemma add8_ok: "(b \<Longrightarrow> i < length m) \<Longrightarrow> \<exists>y. add8 b m i k x = Some y"
  by (auto simp: add8_def p8_def nth_opt_in)

lemma short_tail_ok: "length m < 16 \<Longrightarrow> \<exists>c' d'. short_tail m c d = Some (c', d')"
proof -
  have z: "nth_opt m 0 = (if m = [] then None else Some (m ! 0))" by (simp add: nth_opt_def)
  show "length m < 16 \<Longrightarrow> ?thesis"
    by (auto simp: short_tail_def Let_def add8_def p8_def p32_def p64_def nth_opt_in z)
qed

lemma short_source_ok [simp]: "length m \<le> 192 \<Longrightarrow> short_source direct m = Some m"
  by (simp add: short_source_def memcpy_def read_bytes_def)

lemma short_total:
  assumes "length m \<le> 192"
  shows "\<exists>hs. ShortV1 direct m a b = Some hs" "\<exists>hs. ShortV2 direct m a b = Some hs"
proof -
  obtain r h where s: "short_body m [a, b, sc_const, sc_const] = Some (r, h)" "length r < 16"
    using short_body_ok by blast
  show "\<exists>hs. ShortV1 direct m a b = Some hs"
    using s(1) short_tail_ok [OF s(2), of "h ! 2" "push_bit 56 (of_nat (length m))"] assms by (auto simp: ShortV1_def)
  show "\<exists>hs. ShortV2 direct m a b = Some hs"
    using s(1) short_tail_ok [OF s(2), of "h ! 2" "h ! 3 + push_bit 56 (of_nat (length m))"] assms
    by (auto simp: ShortV2_def)
qed

lemma short_aligned:
  assumes "length m \<le> 192"
  shows "ShortV1 direct m a b = ShortV1 True m a b" "ShortV2 direct m a b = ShortV2 True m a b"
  using assms by (simp_all add: ShortV1_def ShortV2_def)

section \<open>The hash in one call\<close>

definition long_hash :: "end_mix \<Rightarrow> octet list \<Rightarrow> 64 word \<Rightarrow> 64 word \<Rightarrow> 64 word \<times> 64 word" where
  "long_hash fin m s1 s2 = (let n = length m div 96;
     h = fin (block_words (last_block (drop (96 * n) m))) (mixed n m (start_vars s1 s2)) in (h ! 0, h ! 1))"

lemma length_last_block: "length r < 96 \<Longrightarrow> length (last_block r) = 96"
  by (simp add: last_block_def)

lemma rest_short: "length (drop (96 * (length m div 96)) m) < (96 :: nat)"
  by (simp add: minus_mult_div_eq_mod)

lemma hash128_long:
  assumes "192 \<le> length m"
  shows "hash128 S fin direct m s1 s2 = Some (long_hash fin m s1 s2)"
proof -
  let ?n = "length m div 96"
  obtain buf where "mix_blocks direct ?n (replicate 96 0) m (start_vars s1 s2) =
      Some (buf, mixed ?n m (start_vars s1 s2))"
    using mix_blocks_ok [of ?n m "replicate 96 0"] by auto
  moreover have "words64 (last_block (drop (96 * ?n) m)) 12 = Some (block_words (last_block (drop (96 * ?n) m)))"
    using length_last_block [OF rest_short] by (simp add: words64_block)
  ultimately show ?thesis using assms by (simp add: hash128_def long_hash_def Let_def)
qed

section \<open>What a context has taken\<close>

definition has_taken :: "64 word \<Rightarrow> 64 word \<Rightarrow> octet list \<Rightarrow> spooky \<Rightarrow> bool" where
  "has_taken s1 s2 m c \<longleftrightarrow> length (m_data c) = 192 \<and> length m < 2 ^ 64 \<and> m_length c = of_nat (length m) \<and>
    (if length m < 192 then m_state c ! 0 = s1 \<and> m_state c ! 1 = s2 \<and> m_remainder c = of_nat (length m) \<and>
       take (length m) (m_data c) = m
     else \<exists>n. 96 * n + unat (m_remainder c) = length m \<and> unat (m_remainder c) < 192 \<and>
       take (unat (m_remainder c)) (m_data c) = drop (96 * n) m \<and> m_state c = mixed n m (start_vars s1 s2))"

lemma unat_len: "n < 2 ^ 64 \<Longrightarrow> unat (of_nat n :: 64 word) = n"
  by (simp add: unsigned_of_nat take_bit_nat_eq_self)

lemma unat_rem: "n < 256 \<Longrightarrow> unat (of_nat n :: octet) = n"
  by (simp add: unsigned_of_nat take_bit_nat_eq_self)

text \<open>Both cases in one: \<open>n\<close> blocks are mixed in and \<open>r\<close> bytes are stashed away.\<close>

lemma has_takenE:
  assumes "has_taken s1 s2 m c"
  obtains n where "96 * n + unat (m_remainder c) = length m" "unat (m_remainder c) < 192"
    "take (unat (m_remainder c)) (m_data c) = drop (96 * n) m" "vars_of c = mixed n m (start_vars s1 s2)"
    "length (m_data c) = 192" "m_length c < 192 \<longleftrightarrow> length m < 192"
    "length m < 192 \<Longrightarrow> n = 0 \<and> m_state c ! 0 = s1 \<and> m_state c ! 1 = s2"
    "192 \<le> length m \<Longrightarrow> m_state c = mixed n m (start_vars s1 s2)"
proof -
  have l: "length (m_data c) = 192" "length m < 2 ^ 64" "m_length c = of_nat (length m)"
    using assms by (simp_all add: has_taken_def)
  have s: "m_length c < 192 \<longleftrightarrow> length m < 192"
    unfolding word_less_nat_alt using unat_len [OF l(2)] l(3) by simp
  show ?thesis
  proof (cases "length m < 192")
    case True
    then have t: "m_state c ! 0 = s1" "m_state c ! 1 = s2" "m_remainder c = of_nat (length m)"
      "take (length m) (m_data c) = m" using assms by (simp_all add: has_taken_def)
    then show ?thesis using True unat_rem [of "length m"] s l(1) by (intro that [of 0]) (simp_all add: vars_of_def)
  next
    case False
    then obtain n where "96 * n + unat (m_remainder c) = length m" "unat (m_remainder c) < 192"
      "take (unat (m_remainder c)) (m_data c) = drop (96 * n) m" "m_state c = mixed n m (start_vars s1 s2)"
      using assms by (auto simp: has_taken_def)
    then show ?thesis using False s l(1) by (intro that [of n]) (simp_all add: vars_of_def)
  qed
qed

lemma init_taken:
  "length (m_data c) = 192 \<Longrightarrow> 2 \<le> length (m_state c) \<Longrightarrow> has_taken s1 s2 [] (SpookyInit s1 s2 c)"
  by (cases "m_state c"; cases "tl (m_state c)") (auto simp: has_taken_def SpookyInit_def)

text \<open>A long context, from its blocks.\<close>

lemma has_takenI:
  assumes "192 \<le> length m" "length m < 2 ^ 64" "m_length c = of_nat (length m)" "length (m_data c) = 192"
    and "96 * n + unat (m_remainder c) = length m" "unat (m_remainder c) < 192"
    and "take (unat (m_remainder c)) (m_data c) = drop (96 * n) m" "m_state c = mixed n m (start_vars s1 s2)"
  shows "has_taken s1 s2 m c"
  using assms unfolding has_taken_def by auto

section \<open>Update\<close>

lemma stash_bytes:
  assumes "take r buf = drop k m" "k + r = length m" "r + length bs \<le> length buf"
  shows "take (r + length bs) (take r buf @ bs @ drop (r + length bs) buf) = drop k (m @ bs)"
  using assms by (simp add: min_def)

lemma update_short:
  assumes T: "has_taken s1 s2 M c" and l: "length (M @ m) < 2 ^ 64" "length m + unat (m_remainder c) < 192"
  shows "\<exists>c'. SpookyUpdate direct m c = Some c' \<and> has_taken s1 s2 (M @ m) c'"
proof -
  let ?r = "unat (m_remainder c)"
  obtain n where n: "96 * n + ?r = length M" "take ?r (m_data c) = drop (96 * n) M" "length (m_data c) = 192"
    "length M < 192 \<Longrightarrow> n = 0 \<and> m_state c ! 0 = s1 \<and> m_state c ! 1 = s2"
    "192 \<le> length M \<Longrightarrow> m_state c = mixed n M (start_vars s1 s2)" by (rule has_takenE [OF T]) blast
  let ?buf = "take ?r (m_data c) @ m @ drop (?r + length m) (m_data c)"
  let ?c = "c\<lparr>m_data := ?buf, m_length := of_nat (length m) + m_length c, m_remainder := of_nat (length m + ?r)\<rparr>"
  have u: "SpookyUpdate direct m c = Some ?c"
    using l(2) n(3) by (simp add: SpookyUpdate_def memcpy_def Let_def add.commute)
  have ml: "m_length ?c = of_nat (length (M @ m))" using T by (simp add: has_taken_def add.commute)
  have r: "unat (m_remainder ?c) = ?r + length m" using unat_rem [of "length m + ?r"] l(2) by simp
  have b: "take (?r + length m) ?buf = drop (96 * n) (M @ m)"
    by (rule stash_bytes [OF n(2,1)]) (use l(2) n(3) in simp)
  have d: "length (m_data ?c) = 192" using l(2) n(3) by simp
  have "has_taken s1 s2 (M @ m) ?c"
  proof (cases "length (M @ m) < 192")
    case True
    then have z: "n = 0" "m_state c ! 0 = s1" "m_state c ! 1 = s2" using n(4) by simp_all
    then have "?r = length M" using n(1) by simp
    then show ?thesis using True z b d ml l(1) by (simp add: has_taken_def add.commute)
  next
    case False
    have M: "192 \<le> length M" using False n(1,4) l(2) by (cases "length M < 192") simp_all
    have "mixed n (M @ m) (start_vars s1 s2) = mixed n M (start_vars s1 s2)"
      by (rule mixed_append) (use n(1) in simp)
    then show ?thesis
      using has_takenI [of "M @ m" ?c n s1 s2] False l ml d n(1,5) r b M by simp
  qed
  with u show ?thesis by blast
qed

lemma two_blocks:
  assumes l: "length b = 192" and b: "b = take 192 x"
  shows "words64 b 12 = Some (block_words x)" "words64 (drop 96 b) 12 = Some (block_words (drop 96 x))"
proof -
  have "take 96 b = take 96 x" "take 96 (drop 96 b) = take 96 (drop 96 x)"
    unfolding b by (simp_all add: take_drop)
  then have "block_words b = block_words x" "block_words (drop 96 b) = block_words (drop 96 x)"
    by (metis block_words_take)+
  then show "words64 b 12 = Some (block_words x)" "words64 (drop 96 b) 12 = Some (block_words (drop 96 x))"
    using l by (simp_all add: words64_block)
qed

lemma use_stash_ok:
  assumes T: "has_taken s1 s2 M c" and l: "192 \<le> length m + unat (m_remainder c)"
  shows "\<exists>buf m' k. use_stash c m = Some (buf, m', mixed k (M @ m) (start_vars s1 s2)) \<and>
    length buf = 192 \<and> 96 * k \<le> length (M @ m) \<and> m' = drop (96 * k) (M @ m)"
proof -
  let ?r = "unat (m_remainder c)" and ?h = "start_vars s1 s2"
  obtain n where n: "96 * n + ?r = length M" "?r < 192" "take ?r (m_data c) = drop (96 * n) M"
    "vars_of c = mixed n M ?h" "length (m_data c) = 192" by (rule has_takenE [OF T]) blast
  have app: "mixed n (M @ m) ?h = mixed n M ?h" by (rule mixed_append) (use n(1) in simp)
  show ?thesis
  proof (cases "?r = 0")
    case True
    then have "use_stash c m = Some (m_data c, m, mixed n (M @ m) ?h)" using n(4) app by (simp add: use_stash_def)
    moreover have "m = drop (96 * n) (M @ m)" using n(1) True by simp
    ultimately show ?thesis using n(1,5) by auto
  next
    case False
    let ?p = "192 - ?r"
    let ?bs = "take ?p m"
    let ?buf = "take ?r (m_data c) @ ?bs"
    have p: "length ?bs = ?p" "?r + ?p = 192" using l n(2) by simp_all
    have cp: "memcpy (m_data c) ?r ?bs = Some ?buf" using p n(5) by (simp add: memcpy_def)
    have bl: "length ?buf = 192" using p n(2,5) by simp
    have d: "drop (96 * n) (M @ m) = drop (96 * n) M @ m" "length (drop (96 * n) M) = ?r" using n(1) by simp_all
    have e: "?buf = take 192 (drop (96 * n) (M @ m))" unfolding n(3) d(1) take_append d(2) using d(2) n(2) by simp
    note w = two_blocks [OF bl e]
    have mx: "mixed (n + 2) (M @ m) ?h = Mix (block_words (drop 96 (drop (96 * n) (M @ m))))
        (Mix (block_words (drop (96 * n) (M @ m))) (vars_of c))"
      unfolding mixed_add app n(4) by (simp add: numeral_2_eq_2)
    have rd: "read_bytes m ?p = Some ?bs" using l by (simp add: read_bytes_def)
    have "use_stash c m = Some (?buf, drop ?p m, mixed (n + 2) (M @ m) ?h)"
      unfolding use_stash_def Let_def if_P [OF False] rd mx
      by (simp only: Option.bind.simps cp w)
    moreover have "96 * (n + 2) - length M = ?p" "length M \<le> 96 * (n + 2)" using n(1,2) by simp_all
    then have "drop ?p m = drop (96 * (n + 2)) (M @ m)" by simp
    moreover have "96 * (n + 2) \<le> length (M @ m)" using n(1) l by simp
    ultimately show ?thesis using bl by blast
  qed
qed

lemma update_long:
  assumes T: "has_taken s1 s2 M c" and l: "length (M @ m) < 2 ^ 64" "192 \<le> length m + unat (m_remainder c)"
  shows "\<exists>c'. SpookyUpdate direct m c = Some c' \<and> has_taken s1 s2 (M @ m) c'"
proof -
  let ?h = "start_vars s1 s2"
  obtain buf m' k where s: "use_stash c m = Some (buf, m', mixed k (M @ m) ?h)" "length buf = 192"
    "96 * k \<le> length (M @ m)" "m' = drop (96 * k) (M @ m)" using use_stash_ok [OF T l(2)] by blast
  let ?n = "length m' div 96"
  let ?rest = "drop (96 * ?n) m'"
  obtain buf' where b: "mix_blocks direct ?n buf m' (mixed k (M @ m) ?h) = Some (buf', mixed ?n m' (mixed k (M @ m) ?h))"
    "length buf' = 192" using mix_blocks_ok [of ?n m' buf] s(2) by auto
  have r: "length ?rest < 96" by (rule rest_short)
  let ?c = "c\<lparr>m_data := ?rest @ drop (length ?rest) buf', m_state := mixed (k + ?n) (M @ m) ?h,
    m_length := of_nat (length m) + m_length c, m_remainder := of_nat (length ?rest)\<rparr>"
  have cp: "memcpy buf' 0 ?rest = Some (?rest @ drop (length ?rest) buf')"
    using memcpy_ok [of 0 ?rest buf'] r b(2) by simp
  have mx: "mixed ?n m' (mixed k (M @ m) ?h) = mixed (k + ?n) (M @ m) ?h" by (simp only: mixed_add s(4))
  have "\<not> length m + unat (m_remainder c) < 192" using l(2) by simp
  then have u: "SpookyUpdate direct m c = Some ?c"
    by (simp only: SpookyUpdate_def Let_def if_False s(1) b(1) mx cp Option.bind.simps prod.case)
  have ml: "m_length ?c = of_nat (length (M @ m))" using T by (simp add: has_taken_def add.commute)
  have rr: "unat (m_remainder ?c) = length ?rest" using unat_rem [of "length ?rest"] r by simp
  have "length m + unat (m_remainder c) \<le> length (M @ m)" by (rule has_takenE [OF T]) simp
  then have ll: "192 \<le> length (M @ m)" using l(2) by linarith
  have d: "drop (96 * (k + ?n)) (M @ m) = ?rest" 
    unfolding s(4) drop_drop add_mult_distrib2 by (simp only: add.commute)
  have "length m' = length (M @ m) - 96 * k" unfolding s(4) by (rule length_drop)
  moreover have "96 * ?n + length ?rest = length m'" by simp
  ultimately have len: "96 * (k + ?n) + length ?rest = length (M @ m)" using s(3) unfolding distrib_left by linarith
  have "has_taken s1 s2 (M @ m) ?c"
    by (rule has_takenI [OF ll l(1) ml, of "k + ?n"]) (use r b(2) rr d len in simp_all)
  with u show ?thesis by blast
qed

lemma update_taken:
  assumes "has_taken s1 s2 M c" "length (M @ m) < 2 ^ 64"
  shows "\<exists>c'. SpookyUpdate direct m c = Some c' \<and> has_taken s1 s2 (M @ m) c'"
  using update_short [OF assms] update_long [OF assms] by (meson not_less)

section \<open>Final\<close>

lemma final_buffer:
  assumes "length b = 192" "take r b = rest" "r = length rest" "at \<le> r" "r - at < 96" "at + 96 \<le> 192"
  shows "\<exists>b1. memcpy b r (replicate (96 - (r - at)) 0) = Some b1 \<and> length b1 = 192 \<and>
    (\<exists>b2. memcpy b1 (at + 95) [of_nat (r - at)] = Some b2 \<and> length b2 = 192 \<and> take r b2 = rest \<and>
       take 96 (drop at b2) = last_block (drop at rest))"
proof -
  let ?z = "replicate (96 - (r - at)) (0 :: octet)"
  let ?b1 = "take r b @ ?z @ drop (r + length ?z) b"
  have e: "r + length ?z = at + 96" using assms(4,5) by simp
  have l: "r \<le> length b" "length ?b1 = 192" using assms(1,4-6) by simp_all
  have b1: "memcpy b r ?z = Some ?b1" using assms(1,6) e by (simp add: memcpy_def)
  let ?b2 = "take (at + 95) ?b1 @ [of_nat (r - at)] @ drop (at + 95 + 1) ?b1"
  have b2: "memcpy ?b1 (at + 95) [of_nat (r - at)] = Some ?b2"
    using l(2) assms(6) by (simp only: memcpy_def) simp
  have u: "?b2 = ?b1[at + 95 := of_nat (r - at)]" using l(2) assms(6)
    by (subst upd_conv_take_nth_drop) simp_all
  have l2: "length ?b2 = 192" unfolding u using l(2) by simp
  have t: "take r ?b2 = rest" unfolding u using assms(2-5) l(1) by (simp add: take_update_cancel)
  have "drop at ?b1 = drop at rest @ ?z @ drop (r + length ?z) b" using assms(2-4) by simp
  then have "take 96 (drop at ?b1) = drop at rest @ ?z" using assms(3-5) by simp
  then have "take 96 (drop at ?b2) = (drop at rest @ ?z)[95 := of_nat (r - at)]"
    unfolding u by (simp only: drop_update_swap take_update_swap) (simp add: drop_update_swap take_update_swap)
  then have "take 96 (drop at ?b2) = last_block (drop at rest)"
    using assms(3) by (simp add: last_block_def)
  with b1 b2 l(2) l2 t show ?thesis by blast
qed

lemma block_words_of_take: "take 96 x = take 96 y \<Longrightarrow> block_words x = block_words y"
  by (metis block_words_take)

lemma taken_buffer:
  assumes "has_taken s1 s2 M c" "length b = 192"
    and "take (unat (m_remainder c)) b = take (unat (m_remainder c)) (m_data c)" "192 \<le> length M"
  shows "has_taken s1 s2 M (c\<lparr>m_data := b\<rparr>)"
  using assms by (auto simp: has_taken_def)

definition short_contract :: "short_hash \<Rightarrow> bool" where
  "short_contract S \<longleftrightarrow> (\<forall>d m a b. length m \<le> 192 \<longrightarrow> S d m a b = S True m a b \<and> S True m a b \<noteq> None)"

lemma short_contractD:
  "short_contract S \<Longrightarrow> length m \<le> 192 \<Longrightarrow> S d m a b = S True m a b \<and> S True m a b \<noteq> None"
  unfolding short_contract_def by blast

lemma short_contracts: "short_contract ShortV1" "short_contract ShortV2"
proof -
  have "ShortV1 d m a b = ShortV1 True m a b \<and> ShortV1 True m a b \<noteq> None"
    "ShortV2 d m a b = ShortV2 True m a b \<and> ShortV2 True m a b \<noteq> None" if "length m \<le> 192" for d m a b
    using short_aligned [OF that, of d a b] short_total [OF that, of True a b] by (blast, blast)
  then show "short_contract ShortV1" "short_contract ShortV2" by (simp_all only: short_contract_def) blast+
qed

lemma final_short:
  assumes T: "has_taken s1 s2 M c" and l: "length M < 192"
    and S: "short_contract S"
  shows "\<exists>hs. spooky_final S f c = Some (hs, m_data c) \<and> hash128 S f d M s1 s2 = Some hs"
proof -
  have t: "m_state c ! 0 = s1" "m_state c ! 1 = s2" "take (length M) (m_data c) = M" "length (m_data c) = 192"
    "m_length c = of_nat (length M)" using T l by (simp_all add: has_taken_def)
  have "m_length c < 192" by (rule has_takenE [OF T]) (use l in simp)
  moreover have "unat (m_length c) = length M" unfolding t(5) using l by (intro unat_len) simp
  moreover obtain hs where "S True M s1 s2 = Some hs" "S d M s1 s2 = Some hs"
    using S l unfolding short_contract_def by (metis less_imp_le not_Some_eq)
  ultimately show ?thesis using l t(1-4) by (simp add: spooky_final_def hash128_def read_bytes_def)
qed

text \<open>The blocks that are still in the buffer when the message is complete: one or none whole one.\<close>

lemma final_long:
  assumes T: "has_taken s1 s2 M c" and l: "192 \<le> length M"
  shows "\<exists>buf. spooky_final S f c = Some (long_hash f M s1 s2, buf) \<and> has_taken s1 s2 M (c\<lparr>m_data := buf\<rparr>)"
proof -
  let ?r = "unat (m_remainder c)" and ?h = "start_vars s1 s2"
  obtain n where n: "96 * n + ?r = length M" "?r < 192" "take ?r (m_data c) = drop (96 * n) M"
    "length (m_data c) = 192" "m_length c < 192 \<longleftrightarrow> length M < 192" "192 \<le> length M \<Longrightarrow> m_state c = mixed n M ?h"
    by (rule has_takenE [OF T]) blast
  have long: "\<not> m_length c < 192" "m_state c = mixed n M ?h" using n(5,6) l by simp_all
  define at where "at = (if 96 \<le> ?r then 96 else 0 :: nat)"
  define q where "q = length M div 96"
  have q: "96 * q = 96 * n + at" "at \<le> ?r" "?r - at < 96" "at + 96 \<le> 192"
    unfolding q_def at_def using n(1,2) by (auto simp flip: n(1))
  have step: "(if sc_blockSize \<le> ?r then do { w \<leftarrow> words64 (m_data c) 12; Some (96, Mix w (m_state c)) }
         else Some (0, m_state c)) = Some (at, mixed q M ?h)"
  proof (cases "96 \<le> ?r")
    case True
    then have q': "q = n + 1" using q(1) by (simp add: at_def)
    have "take 96 (take ?r (m_data c)) = take 96 (m_data c)" using True by simp
    then have "take 96 (m_data c) = take 96 (drop (96 * n) M)" unfolding n(3) by simp
    then have "block_words (m_data c) = block_words (drop (96 * n) M)" by (rule block_words_of_take)
    then have "mixed q M ?h = Mix (block_words (m_data c)) (m_state c)"
      unfolding q' mixed_add long(2) by simp
    then show ?thesis using True n(4) by (simp add: words64_block at_def)
  qed (use q(1) long(2) in \<open>simp add: at_def\<close>)
  have len: "?r = length (drop (96 * n) M)" using n(1) by simp
  obtain b1 b2 where b: "memcpy (m_data c) ?r (replicate (96 - (?r - at)) 0) = Some b1"
    "memcpy b1 (at + 95) [of_nat (?r - at)] = Some b2" "length b2 = 192" "take ?r b2 = drop (96 * n) M"
    "take 96 (drop at b2) = last_block (drop at (drop (96 * n) M))"
    using final_buffer [OF n(4,3) len q(2-4)] by blast
  have rest: "drop at (drop (96 * n) M) = drop (96 * q) M" unfolding drop_drop q(1) by (simp only: add.commute)
  have "96 \<le> length (drop at b2)" using b(3) q(4) by simp
  then have w: "words64 (drop at b2) 12 = Some (block_words (last_block (drop (96 * q) M)))"
    unfolding rest [symmetric] b(5) [symmetric] by (simp add: words64_block)
  have "spooky_final S f c = Some (long_hash f M s1 s2, b2)"
    unfolding spooky_final_def if_not_P [OF long(1)] Option.bind.simps step prod.case b(1,2) w
    by (simp add: long_hash_def q_def Let_def)
  moreover have "has_taken s1 s2 M (c\<lparr>m_data := b2\<rparr>)" by (rule taken_buffer [OF T b(3) _ l]) (simp add: b(4) n(3))
  ultimately show ?thesis by blast
qed

lemma final_taken:
  assumes T: "has_taken s1 s2 M c"
    and S: "short_contract S"
  shows "\<exists>hs buf. spooky_final S f c = Some (hs, buf) \<and> hash128 S f d M s1 s2 = Some hs \<and>
    has_taken s1 s2 M (c\<lparr>m_data := buf\<rparr>)"
proof (cases "length M < 192")
  case True
  from final_short [OF T this S, of f d] obtain hs where
    "spooky_final S f c = Some (hs, m_data c)" "hash128 S f d M s1 s2 = Some hs" by blast
  then show ?thesis using T by simp
next
  case False
  then show ?thesis using final_long [OF T] hash128_long [of M S f d s1 s2] by fastforce
qed

end
