(* ===== verification/Spooky_Stream.thy ===== *)
theory Spooky_Stream imports Spooky_Correct begin

text \<open>
  The contract of a hash that takes its message in pieces, as a locale, and its interpretations on the
  two versions of SpookyHash: pieces may have any length, and the hash may be asked for between them.
\<close>

section \<open>Calls on a context\<close>

datatype stream_call = Piece bool "octet list" | Report

fun stream_bytes :: "stream_call list \<Rightarrow> octet list" where
  "stream_bytes [] = []"
| "stream_bytes (Piece d m # cs) = m @ stream_bytes cs"
| "stream_bytes (Report # cs) = stream_bytes cs"

fun stream_run :: "(bool \<Rightarrow> octet list \<Rightarrow> 's \<Rightarrow> 's option) \<Rightarrow> ('s \<Rightarrow> ('h \<times> 's) option) \<Rightarrow> stream_call list \<Rightarrow>
    's \<Rightarrow> ('h list \<times> 's) option" where
  "stream_run upd fin [] c = Some ([], c)"
| "stream_run upd fin (Piece d m # cs) c = do { c \<leftarrow> upd d m c; stream_run upd fin cs c }"
| "stream_run upd fin (Report # cs) c = do {
     (h, c) \<leftarrow> fin c; (hs, c) \<leftarrow> stream_run upd fin cs c; Some (h # hs, c) }"

text \<open>What the reports of a sequence of calls shall be: the hash in one call of the bytes so far.\<close>

fun stream_reports :: "(octet list \<Rightarrow> 'h option) \<Rightarrow> octet list \<Rightarrow> stream_call list \<Rightarrow> 'h option list" where
  "stream_reports hash M [] = []"
| "stream_reports hash M (Piece d m # cs) = stream_reports hash (M @ m) cs"
| "stream_reports hash M (Report # cs) = hash M # stream_reports hash M cs"

section \<open>The contract\<close>

locale stream_hash =
  fixes upd :: "bool \<Rightarrow> octet list \<Rightarrow> 's \<Rightarrow> 's option"
    and fin :: "'s \<Rightarrow> ('h \<times> 's) option"
    and hash :: "octet list \<Rightarrow> 'h option"
    and taken :: "octet list \<Rightarrow> 's \<Rightarrow> bool"
    and bound :: nat
  assumes upd_taken: "taken M c \<Longrightarrow> length (M @ m) < bound \<Longrightarrow> \<exists>c'. upd d m c = Some c' \<and> taken (M @ m) c'"
    and fin_taken: "taken M c \<Longrightarrow> \<exists>h c'. fin c = Some (h, c') \<and> hash M = Some h \<and> taken M c'"
begin

lemma reports_hash:
  "taken M c \<Longrightarrow> length (M @ stream_bytes cs) < bound \<Longrightarrow>
    \<exists>hs c'. stream_run upd fin cs c = Some (hs, c') \<and> map Some hs = stream_reports hash M cs \<and>
      taken (M @ stream_bytes cs) c'"
proof (induction cs arbitrary: M c)
  case (Cons x cs)
  show ?case
  proof (cases x)
    case (Piece d m)
    then obtain c1 where "upd d m c = Some c1" "taken (M @ m) c1"
      using upd_taken [OF Cons.prems(1), of m d] Cons.prems(2) by auto
    then show ?thesis using Cons.IH [of "M @ m" c1] Cons.prems(2) Piece by simp
  next
    case Report
    from fin_taken [OF Cons.prems(1)] obtain h c1 where f: "fin c = Some (h, c1)" "hash M = Some h" "taken M c1"
      by blast
    obtain hs c2 where "stream_run upd fin cs c1 = Some (hs, c2)" "map Some hs = stream_reports hash M cs"
      "taken (M @ stream_bytes cs) c2" using Cons.IH [OF f(3)] Cons.prems(2) Report by auto
    then show ?thesis using f(1,2) Report by simp
  qed
qed simp

end

text \<open>\<open>Final\<close> of version 2 is a const member.\<close>

definition V2_report :: "spooky \<Rightarrow> ((64 word \<times> 64 word) \<times> spooky) option" where
  "V2_report c = map_option (\<lambda>h. (h, c)) (V2_Final c)"

interpretation v1: stream_hash SpookyUpdate V1_Final "\<lambda>m. V1_Hash128 d m s1 s2" "has_taken s1 s2" "2 ^ 64" for d s1 s2
proof (unfold_locales, goal_cases)
  case 1
  then show ?case by (rule update_taken)
next
  case (2 M c)
  from final_taken [OF this short_contracts(1), of "\<lambda>w h. EndV1 (Mix w h)" d] show ?case
    by (auto simp: V1_Final_def V1_Hash128_def)
qed

interpretation v2: stream_hash SpookyUpdate V2_report "\<lambda>m. V2_Hash128 d m s1 s2" "has_taken s1 s2" "2 ^ 64" for d s1 s2
proof (unfold_locales, goal_cases)
  case 1
  then show ?case by (rule update_taken)
next
  case (2 M c)
  from final_taken [OF this short_contracts(2), of EndV2 d] 2 show ?case
    by (auto simp: V2_report_def V2_Final_def V2_Hash128_def)
qed

section \<open>The versions\<close>

lemma hash128_ok: "short_contract S \<Longrightarrow> hash128 S f d m s1 s2 = hash128 S f True m s1 s2 \<and> hash128 S f d m s1 s2 \<noteq> None"
proof (cases "length m < 192")
  case True
  then have "hash128 S f e m s1 s2 = S e m s1 s2" for e by (simp add: hash128_def)
  moreover assume "short_contract S"
  ultimately show ?thesis using short_contractD [of S m d s1 s2] True by simp
qed (simp add: hash128_long)

text \<open>\<open>Hash128\<close> of both versions returns for every message and seeds, with no read outside the message
  or the local buffers, and the result is the same whether unaligned reads are allowed or the blocks go
  through the buffer.\<close>

lemma spooky_total:
  "V1_Hash128 d m s1 s2 = V1_Hash128 True m s1 s2 \<and> V1_Hash128 d m s1 s2 \<noteq> None \<and>
   V2_Hash128 d m s1 s2 = V2_Hash128 True m s1 s2 \<and> V2_Hash128 d m s1 s2 \<noteq> None"
  using hash128_ok [OF short_contracts(1)] hash128_ok [OF short_contracts(2)]
  unfolding V1_Hash128_def V2_Hash128_def by blast

lemma string_hasher_total: "string_hasher d key = string_hasher True key \<and> string_hasher d key \<noteq> None"
  using spooky_total [of d key 0 0]
  unfolding string_hasher_def V2_Hash64_def hash64_of_def by (metis option.map_disc_iff)

text \<open>C40. A context that is initialised, given a message of fewer than \<open>2 ^ 64\<close> bytes in pieces of any
  lengths and alignments, and asked for the hash at any points between them, answers each time with the
  \<open>Hash128\<close> of what it has been given so far; no call reads or writes outside the buffers. This is
  so for both versions, though \<open>Final\<close> of the first writes to the buffer of the context.\<close>

theorem spooky_pieces:
  assumes "length (m_data c) = 192" "length (m_state c) = 12" "length (stream_bytes cs) < 2 ^ 64"
  shows "(\<exists>hs c'. stream_run SpookyUpdate V1_Final cs (SpookyInit s1 s2 c) = Some (hs, c') \<and>
      map Some hs = stream_reports (\<lambda>m. V1_Hash128 d m s1 s2) [] cs) \<and>
    (\<exists>hs c'. stream_run SpookyUpdate V2_report cs (SpookyInit s1 s2 c) = Some (hs, c') \<and>
      map Some hs = stream_reports (\<lambda>m. V2_Hash128 d m s1 s2) [] cs)"
proof -
  have "has_taken s1 s2 [] (SpookyInit s1 s2 c)" using assms(1,2) by (simp add: init_taken)
  with v1.reports_hash [of s1 s2 "[]" _ cs d] v2.reports_hash [of s1 s2 "[]" _ cs d] assms(3)
  show ?thesis unfolding append_Nil by blast
qed

definition some_context :: spooky where
  "some_context = \<lparr>m_data = replicate 192 7, m_state = replicate 12 9, m_length = 5, m_remainder = 3\<rparr>"

lemma spooky_pieces_witness:
  "\<exists>hs c'. stream_run SpookyUpdate V1_Final [Piece True (replicate 100 1), Report, Piece False (replicate 150 2), Report]
      (SpookyInit 3 4 some_context) = Some (hs, c') \<and>
    map Some hs = [V1_Hash128 True (replicate 100 1) 3 4, V1_Hash128 True (replicate 100 1 @ replicate 150 2) 3 4]"
  using spooky_pieces [of some_context "[Piece True (replicate 100 1), Report, Piece False (replicate 150 2), Report]" 3 4 True]
  by (simp add: some_context_def)

section \<open>Remarks of the documentation\<close>

text \<open>\<open>Rot64\<close> rotates by \<open>k\<close> bits, not bytes.\<close>

lemma rot64_bits: "0 < k \<Longrightarrow> k < 64 \<Longrightarrow> bit (Rot64 x k) i \<longleftrightarrow> i < 64 \<and> bit x ((i + (64 - k)) mod 64)"
proof (cases "i < k")
  case True
  moreover assume "0 < k" "k < 64"
  ultimately show ?thesis by (simp add: Rot64_def bit_simps add.commute)
next
  case False
  moreover assume k: "0 < k" "k < 64"
  have "(i + (64 - k)) mod 64 = i - k" if "i < 64"
  proof -
    have "i + (64 - k) = (i - k) + 64" using False k by simp
    then have "(i + (64 - k)) mod 64 = (i - k) mod 64" by (simp only: mod_add_self2)
    also have "\<dots> = i - k" using that by simp
    finally show ?thesis .
  qed
  ultimately show ?thesis by (auto simp: Rot64_def bit_simps dest: bit_imp_le_length)
qed

text \<open>A message of 96 bytes and more, up to 191, is left to the short hash.\<close>

lemma long_from_192: "length m < 192 \<Longrightarrow> V2_Hash128 d m s1 s2 = ShortV2 d m s1 s2"
  by (simp add: V2_Hash128_def hash128_def)

end
