(* ===== verification/Bit_Ops.thy ===== *)
theory Bit_Ops imports Prelude begin

text \<open>
  The bit manipulation of src/include/folly/Bits.h: find first and last set, the next
  power of two, the power of two test, population count, byte swapping, and the iterator over
  the bits of a sequence of words with its block-wise search. The compiler's builtins are given by
  their documented meaning on the list of bits of the argument. A shift by the width of the type,
  undefined in the language, is the 0 that push\_bit gives; the lemmas exclude it.
\<close>

subsection \<open>The compiler's builtins\<close>

definition bits_up :: "'a::len word \<Rightarrow> bool list" where
  "bits_up x = map (bit x) [0..<LENGTH('a)]"

definition builtin_clz :: "'a::len word \<Rightarrow> nat" where
  "builtin_clz x = length (takeWhile Not (rev (bits_up x)))"

definition builtin_ffs :: "'a::len word \<Rightarrow> nat" where
  "builtin_ffs x = (if x = 0 then 0 else Suc (length (takeWhile Not (bits_up x))))"

definition builtin_popcount :: "'a::len word \<Rightarrow> nat" where
  "builtin_popcount x = length (filter id (bits_up x))"

lemma length_bits_up [simp]: "length (bits_up (x :: 'a::len word)) = LENGTH('a)"
  by (simp add: bits_up_def)

lemma nth_bits_up [simp]: "i < LENGTH('a) \<Longrightarrow> bits_up (x :: 'a::len word) ! i = bit x i"
  by (simp add: bits_up_def)

lemma takeWhile_Not_first:
  assumes "\<exists>i < length bs. bs ! i"
  shows "length (takeWhile Not bs) < length bs" "bs ! length (takeWhile Not bs)"
proof -
  obtain i where i: "i < length bs" "bs ! i" using assms by blast
  have "dropWhile Not bs \<noteq> []"
  proof
    assume "dropWhile Not bs = []"
    then have "\<forall>b \<in> set bs. \<not> b" by (simp only: dropWhile_eq_Nil_conv)
    from bspec [OF this nth_mem [OF i(1)]] i(2) show False by (rule notE)
  qed
  then have "length (dropWhile Not bs) \<noteq> 0" by (simp only: length_0_conv) simp
  moreover have "length (takeWhile Not bs) + length (dropWhile Not bs) = length bs"
    using arg_cong [OF takeWhile_dropWhile_id [of Not bs], of length] by (simp only: length_append)
  ultimately show l: "length (takeWhile Not bs) < length bs" by linarith
  from nth_length_takeWhile [OF l] show "bs ! length (takeWhile Not bs)" by simp
qed

lemma takeWhile_Not_before: "j < length (takeWhile Not bs) \<Longrightarrow> \<not> bs ! j"
  by (metis nth_mem set_takeWhileD takeWhile_nth)

lemma word_bit_ex: "x \<noteq> 0 \<Longrightarrow> \<exists>i < LENGTH('a). bit (x :: 'a::len word) i"
  by (metis bit_imp_le_length bit_eq_iff bit_0_eq bot_apply bot_bool_def not_le)

lemma bits_up_ex: "x \<noteq> 0 \<Longrightarrow> \<exists>i < length (bits_up x). bits_up x ! i"
  using word_bit_ex [of x] by auto

lemma builtin_ffs_first:
  fixes x :: "'a::len word"
  assumes "x \<noteq> 0"
  shows "bit x (builtin_ffs x - 1)" "0 < builtin_ffs x" "builtin_ffs x \<le> LENGTH('a)"
    "\<And>j. j < builtin_ffs x - 1 \<Longrightarrow> \<not> bit x j"
proof -
  note t = takeWhile_Not_first [OF bits_up_ex [OF assms]]
  show "bit x (builtin_ffs x - 1)" "0 < builtin_ffs x" "builtin_ffs x \<le> LENGTH('a)"
    using t assms by (simp_all add: builtin_ffs_def)
  fix j assume "j < builtin_ffs x - 1"
  then have j: "j < length (takeWhile Not (bits_up x))" using assms by (simp add: builtin_ffs_def)
  from takeWhile_Not_before [OF j] t(1) j show "\<not> bit x j" by simp
qed

lemma builtin_clz_top:
  fixes x :: "'a::len word"
  assumes "x \<noteq> 0"
  shows "builtin_clz x < LENGTH('a)" "bit x (LENGTH('a) - 1 - builtin_clz x)"
    "\<And>j. LENGTH('a) - 1 - builtin_clz x < j \<Longrightarrow> \<not> bit x j"
proof -
  obtain i where i: "i < LENGTH('a)" "bit x i" using word_bit_ex [OF assms] by blast
  have "\<exists>i < length (rev (bits_up x)). rev (bits_up x) ! i"
    using i by (intro exI [of _ "LENGTH('a) - 1 - i"]) (auto simp: rev_nth)
  note t = takeWhile_Not_first [OF this, folded builtin_clz_def]
  show c: "builtin_clz x < LENGTH('a)" using t(1) by simp
  show "bit x (LENGTH('a) - 1 - builtin_clz x)" using t(2) c by (simp add: rev_nth)
  fix j assume j: "LENGTH('a) - 1 - builtin_clz x < j"
  show "\<not> bit x j"
  proof (cases "j < LENGTH('a)")
    case True
    have "LENGTH('a) - 1 - j < length (takeWhile Not (rev (bits_up x)))"
      using j True c by (simp add: builtin_clz_def [symmetric])
    from takeWhile_Not_before [OF this] True show ?thesis by (simp add: rev_nth)
  next
    case False then show ?thesis by (simp add: bit_word.rep_eq)
  qed
qed

subsection \<open>Set bits and powers of two\<close>

definition findFirstSet :: "'a::len word \<Rightarrow> nat" where
  "findFirstSet x = builtin_ffs x"

definition findLastSet :: "'a::len word \<Rightarrow> nat" where
  "findLastSet x = (if x \<noteq> 0 then LENGTH('a) - builtin_clz x else 0)"

definition nextPowTwo :: "'a::len word \<Rightarrow> 'a word" where
  "nextPowTwo v = (if v \<noteq> 0 then ucast (push_bit (findLastSet (v - 1)) (1 :: 64 word)) else 1)"

definition isPowTwo :: "'a::len word \<Rightarrow> bool" where
  "isPowTwo v \<longleftrightarrow> v \<noteq> 0 \<and> v AND (v - 1) = 0"

definition popcount :: "'a::len word \<Rightarrow> nat" where
  "popcount x = builtin_popcount x"

lemma findLastSet_bounds:
  fixes x :: "'a::len word"
  assumes "x \<noteq> 0"
  shows "2 ^ (findLastSet x - 1) \<le> unat x" "unat x < 2 ^ findLastSet x" "0 < findLastSet x"
    "findLastSet x \<le> LENGTH('a)"
proof -
  note t = builtin_clz_top [OF assms]
  have fl: "findLastSet x = Suc (LENGTH('a) - 1 - builtin_clz x)"
    using assms t(1) by (simp add: findLastSet_def)
  then show "0 < findLastSet x" "findLastSet x \<le> LENGTH('a)"
    using t(1) by auto
  have "take_bit (findLastSet x) x = x"
    by (rule bit_eqI) (use t(3) fl in \<open>simp add: bit_take_bit_iff, metis not_le less_Suc_eq_le\<close>)
  then have "unat x = take_bit (findLastSet x) (unat x)" by (metis unsigned_take_bit_eq)
  then show "unat x < 2 ^ findLastSet x" by (metis take_bit_nat_less_exp)
  have b: "bit (unat x) (findLastSet x - 1)" using t(2) fl by (simp add: bit_unsigned_iff)
  show "2 ^ (findLastSet x - 1) \<le> unat x"
  proof (rule ccontr)
    assume "\<not> ?thesis"
    then have "unat x div 2 ^ (findLastSet x - 1) = 0" by simp
    with b show False by (simp add: bit_iff_odd)
  qed
qed

lemma findLastSet_0 [simp]: "findLastSet 0 = 0"
  by (simp add: findLastSet_def)

lemma bit_top_nat: "2 ^ k \<le> n \<Longrightarrow> n < 2 ^ Suc k \<Longrightarrow> bit (n :: nat) k"
proof -
  assume "2 ^ k \<le> n" "n < 2 ^ Suc k"
  then have "n div 2 ^ k = 1" by (intro div_nat_eqI) auto
  then show ?thesis by (simp add: bit_iff_odd)
qed

lemma isPowTwo_iff: "isPowTwo (v :: 'a::len word) \<longleftrightarrow> (\<exists>k < LENGTH('a). v = push_bit k 1)"
proof
  assume p: "isPowTwo v"
  then have v: "v \<noteq> 0" by (simp add: isPowTwo_def)
  define k where "k = findLastSet v - 1"
  note b = findLastSet_bounds [OF v]
  have kl: "k < LENGTH('a)" using b(3,4) by (simp add: k_def)
  have lo: "2 ^ k \<le> unat v" and hi: "unat v < 2 ^ Suc k" using b by (simp_all add: k_def)
  show "\<exists>k < LENGTH('a). v = push_bit k 1"
  proof (rule ccontr)
    assume n: "\<not> ?thesis"
    have pk: "unat (push_bit k (1 :: 'a word)) = 2 ^ k"
      using kl by (simp add: unsigned_push_bit_eq del: push_bit_of_1)
    have "unat v \<noteq> 2 ^ k" using n kl pk by (metis word_unat_eq_iff)
    then have gt: "2 ^ k < unat v" using lo by simp
    have um: "unat (v - 1) = unat v - 1" using v by (metis unat_minus_one)
    have "bit (unat v) k" "bit (unat (v - 1)) k"
      using lo hi gt by (simp_all add: bit_top_nat um)
    then have "bit (v AND (v - 1)) k" using kl by (simp add: bit_unsigned_iff bit_and_iff)
    with p show False by (simp add: isPowTwo_def)
  qed
next
  assume "\<exists>k < LENGTH('a). v = push_bit k 1"
  then obtain k where k: "k < LENGTH('a)" and v: "v = push_bit k 1" by blast
  have "v - 1 = mask k" by (simp add: v mask_eq_exp_minus_1 push_bit_eq_mult)
  then have "v AND (v - 1) = 0"
    by (intro bit_eqI) (auto simp: v bit_and_iff bit_exp_iff bit_mask_iff)
  moreover have "bit v k" using k by (simp add: v bit_exp_iff)
  ultimately show "isPowTwo v" by (auto simp: isPowTwo_def)
qed


lemma unat_push_bit_1: "k < LENGTH('a) \<Longrightarrow> unat (push_bit k (1 :: 'a::len word)) = 2 ^ k"
  by (simp add: unsigned_push_bit_eq del: push_bit_of_1)

lemma nextPowTwo_size:
  fixes v :: "64 word"
  assumes "unat v \<le> 2 ^ 63"
  shows "unat v \<le> unat (nextPowTwo v) \<and> isPowTwo (nextPowTwo v) \<and>
    (k < 64 \<and> unat v \<le> 2 ^ k \<longrightarrow> unat (nextPowTwo v) \<le> 2 ^ k)"
proof (cases "v = 0")
  case True then show ?thesis
    by (auto simp: nextPowTwo_def isPowTwo_def)
next
  case False
  define m where "m = findLastSet (v - 1)"
  have um: "unat (v - 1) = unat v - 1" using False by (metis unat_minus_one)
  have vp: "0 < unat v" using False by (simp add: unat_gt_0)
  have m: "m < 64"
  proof (cases "v - 1 = 0")
    case True then show ?thesis by (simp add: m_def)
  next
    case ne: False
    from findLastSet_bounds [OF this] have "2 ^ (m - 1) \<le> unat v - 1" "0 < m" by (simp_all add: m_def um)
    then have "2 ^ (m - 1) < (2 ^ 63 :: nat)" using assms vp by linarith
    then have "m - 1 < 63" by (rule power_less_imp_less_exp [rotated]) simp
    then show ?thesis by simp
  qed
  have n: "unat (nextPowTwo v) = 2 ^ m"
    using False unat_push_bit_1 [where 'a = 64, of m] m by (simp add: nextPowTwo_def m_def)
  have p: "isPowTwo (nextPowTwo v)"
    unfolding isPowTwo_iff using m False by (auto simp: nextPowTwo_def m_def intro!: exI [of _ m])
  have up: "unat v \<le> 2 ^ m"
  proof (cases "v - 1 = 0")
    case True then show ?thesis using um by simp
  next
    case False
    from findLastSet_bounds(2) [OF False] show ?thesis by (simp add: m_def um)
  qed
  have least: "2 ^ m \<le> (2 :: nat) ^ k" if k: "unat v \<le> 2 ^ k"
  proof (cases "v - 1 = 0")
    case True then show ?thesis by (simp add: m_def)
  next
    case ne: False
    from findLastSet_bounds [OF this] have b: "2 ^ (m - 1) \<le> unat v - 1" "0 < m" by (simp_all add: m_def um)
    then have "2 ^ (m - 1) < (2 :: nat) ^ k" using k vp by linarith
    then have "m - 1 < k" by simp
    then show ?thesis using b(2) by simp
  qed
  show ?thesis using n p up least by simp
qed

subsection \<open>Byte order\<close>

definition our_bswap16 :: "16 word \<Rightarrow> 16 word" where
  "our_bswap16 x = (drop_bit 8 x AND 0xff) OR push_bit 8 (x AND 0xff)"

definition endian_big :: "bool \<Rightarrow> ('a \<Rightarrow> 'a) \<Rightarrow> 'a \<Rightarrow> 'a" where
  "endian_big kIsLittleEndian swap x = (if kIsLittleEndian then swap x else x)"

definition endian_little :: "bool \<Rightarrow> ('a \<Rightarrow> 'a) \<Rightarrow> 'a \<Rightarrow> 'a" where
  "endian_little kIsBigEndian swap x = (if kIsBigEndian then swap x else x)"

lemma our_bswap16_bit: "bit (our_bswap16 x) i \<longleftrightarrow> i < 16 \<and> bit x (if i < 8 then i + 8 else i - 8)"
proof -
  have "(0xff :: 16 word) = mask 8" by (simp add: mask_eq_exp_minus_1)
  then have "our_bswap16 x = take_bit 8 (drop_bit 8 x) OR push_bit 8 (take_bit 8 x)"
    unfolding our_bswap16_def by (simp only: take_bit_eq_mask)
  then show ?thesis
    by (auto simp: bit_or_iff bit_take_bit_iff bit_drop_bit_eq bit_push_bit_iff add.commute
        dest: bit_imp_le_length)
qed

lemma our_bswap16_twice: "our_bswap16 (our_bswap16 x) = x"
  by (rule bit_word_eqI) (auto simp: our_bswap16_bit)

lemma endian_roundtrip:
  assumes "big = (\<not> little)"
  shows "endian_big little our_bswap16 (endian_big little our_bswap16 x) = x"
    "endian_little big our_bswap16 (endian_big little our_bswap16 x) = our_bswap16 x"
  using assms by (simp_all add: endian_big_def endian_little_def our_bswap16_twice)

subsection \<open>The iterator over bits\<close>

text \<open>
  A position is the block the base iterator refers to and the offset of a bit in it. advance
  divides a signed count by an unsigned number of bits, so that the count is taken modulo
  $2^{64}$, as the language converts it; the sequence the base iterator runs over is a list, and
  reading a block outside of it is None.
\<close>

record bit_iter =
  base_reference :: int
  bitOffset :: nat

definition bitsPerBlock :: "'a::len word itself \<Rightarrow> nat" where
  "bitsPerBlock _ = LENGTH('a)"

definition makeBitIterator :: "int \<Rightarrow> bit_iter" where
  "makeBitIterator i = \<lparr> base_reference = i, bitOffset = 0 \<rparr>"

definition advanceToNextBlock :: "bit_iter \<Rightarrow> bit_iter" where
  "advanceToNextBlock it = \<lparr> base_reference = base_reference it + 1, bitOffset = 0 \<rparr>"

definition advanceInBlock :: "nat \<Rightarrow> bit_iter \<Rightarrow> bit_iter" where
  "advanceInBlock n it = it\<lparr> bitOffset := bitOffset it + n \<rparr>"

definition bi_advance :: "nat \<Rightarrow> int \<Rightarrow> bit_iter \<Rightarrow> bit_iter" where
  "bi_advance bpb n it = (let un = nat (n mod 2 ^ 64);
      blocks = int (un div bpb); off = bitOffset it + un mod bpb in
    if off \<ge> bpb then \<lparr> base_reference = base_reference it + (blocks + 1), bitOffset = off - bpb \<rparr>
    else \<lparr> base_reference = base_reference it + blocks, bitOffset = off \<rparr>)"

definition bi_increment :: "nat \<Rightarrow> bit_iter \<Rightarrow> bit_iter" where
  "bi_increment bpb it = (let it' = it\<lparr> bitOffset := bitOffset it + 1 \<rparr> in
    if bitOffset it' = bpb then advanceToNextBlock it' else it')"

definition bi_decrement :: "nat \<Rightarrow> bit_iter \<Rightarrow> bit_iter" where
  "bi_decrement bpb it = (if bitOffset it = 0
    then \<lparr> base_reference = base_reference it - 1, bitOffset = bpb - 1 \<rparr>
    else it\<lparr> bitOffset := bitOffset it - 1 \<rparr>)"

definition bi_equal :: "bit_iter \<Rightarrow> bit_iter \<Rightarrow> bool" where
  "bi_equal a b \<longleftrightarrow> bitOffset a = bitOffset b \<and> base_reference a = base_reference b"

definition bi_distance_to :: "nat \<Rightarrow> bit_iter \<Rightarrow> bit_iter \<Rightarrow> int" where
  "bi_distance_to bpb it other = (base_reference other - base_reference it) * int bpb +
    int (bitOffset other) - int (bitOffset it)"

definition bi_dereference :: "'a::len word list \<Rightarrow> bit_iter \<Rightarrow> bool option" where
  "bi_dereference bs it = (if 0 \<le> base_reference it \<and> nat (base_reference it) < length bs
    then Some (bit (bs ! nat (base_reference it)) (bitOffset it)) else None)"

function bi_findFirstSet :: "'a::len word list \<Rightarrow> bit_iter \<Rightarrow> bit_iter \<Rightarrow> bit_iter option" where
  "bi_findFirstSet bs it end_it =
    (if base_reference it \<noteq> base_reference end_it then
      if 0 \<le> base_reference it \<and> nat (base_reference it) < length bs then
        let v = bs ! nat (base_reference it) AND NOT (push_bit (bitOffset it) 1 - 1);
          firstSet = findFirstSet v in
        if firstSet \<noteq> 0 then Some (advanceInBlock (firstSet - 1 - bitOffset it) it)
        else bi_findFirstSet bs (advanceToNextBlock it) end_it
      else None
    else if bitOffset end_it \<noteq> 0 then
      if 0 \<le> base_reference it \<and> nat (base_reference it) < length bs then
        let v = bs ! nat (base_reference it) AND NOT (push_bit (bitOffset it) 1 - 1)
            AND (push_bit (bitOffset end_it) 1 - 1);
          firstSet = findFirstSet v in
        if firstSet \<noteq> 0 then Some (advanceInBlock (firstSet - 1 - bitOffset it) it) else Some end_it
      else None
    else Some end_it)"
  by pat_completeness auto
termination
  by (relation "measure (\<lambda>(bs, it, _). length bs - nat (base_reference it))")
    (auto simp: advanceToNextBlock_def nat_add_distrib)

declare bi_findFirstSet.simps [simp del]

definition bi_pos :: "nat \<Rightarrow> bit_iter \<Rightarrow> int" where
  "bi_pos bpb it = base_reference it * int bpb + int (bitOffset it)"

lemma bi_advance_pos:
  assumes "0 < bpb" "bitOffset it < bpb"
  shows "bi_pos bpb (bi_advance bpb n it) = bi_pos bpb it + n mod 2 ^ 64"
    "bitOffset (bi_advance bpb n it) < bpb"
proof -
  define m where "m = nat (n mod 2 ^ 64)"
  have m: "int m = n mod 2 ^ 64" by (simp add: m_def)
  have d: "int (m div bpb) * int bpb + int (m mod bpb) = int m"
    by (metis div_mult_mod_eq of_nat_add of_nat_mult)
  show "bi_pos bpb (bi_advance bpb n it) = bi_pos bpb it + n mod 2 ^ 64"
    unfolding bi_advance_def Let_def m_def [symmetric] bi_pos_def m [symmetric]
    using d by (auto simp: distrib_right of_nat_diff)
  have s: "bitOffset it + m mod bpb < bpb + bpb"
    using assms by (intro add_strict_mono) simp_all
  show "bitOffset (bi_advance bpb n it) < bpb"
    unfolding bi_advance_def Let_def m_def [symmetric] using s
    by (auto simp: not_le less_diff_conv2)
qed

lemma bi_step_pos:
  assumes "0 < bpb" "bitOffset it < bpb"
  shows "bi_pos bpb (bi_increment bpb it) = bi_pos bpb it + 1"
    "bi_pos bpb (bi_decrement bpb it) = bi_pos bpb it - 1"
    "bi_decrement bpb (bi_increment bpb it) = it"
    "bi_distance_to bpb it it' = bi_pos bpb it' - bi_pos bpb it"
  using assms by (auto simp: bi_pos_def bi_increment_def bi_decrement_def advanceToNextBlock_def
      bi_distance_to_def Let_def algebra_simps of_nat_diff)

definition bi_bit :: "'a::len word list \<Rightarrow> int \<Rightarrow> bool" where
  "bi_bit bs q = bit (bs ! nat (q div int LENGTH('a))) (nat (q mod int LENGTH('a)))"

lemma low_mask: "2 ^ p - (1 :: 'a::len word) = mask p"
  by (simp add: mask_eq_exp_minus_1)

lemma bi_bit_pos:
  assumes "bitOffset it < LENGTH('a)"
  shows "bi_bit (bs :: 'a::len word list) (bi_pos LENGTH('a) it) =
    bit (bs ! nat (base_reference it)) (bitOffset it)"
  using assms by (simp add: bi_bit_def bi_pos_def)

lemma bi_bit_block:
  assumes "q = i * int LENGTH('a) + int j" "j < LENGTH('a)"
  shows "bi_bit (bs :: 'a::len word list) q = bit (bs ! nat i) j"
  using assms by (simp add: bi_bit_def)

lemma pos_in_block:
  assumes "bi_pos bpb it \<le> q" "q < base_reference it * int bpb + int m"
  obtains j where "q = base_reference it * int bpb + int j" "bitOffset it \<le> j" "j < m"
proof
  show "q = base_reference it * int bpb + int (nat (q - base_reference it * int bpb))"
    "bitOffset it \<le> nat (q - base_reference it * int bpb)"
    "nat (q - base_reference it * int bpb) < m"
    using assms by (simp_all add: bi_pos_def)
qed

text \<open>One block: the search among the bits from the offset on that satisfy a bound.\<close>

lemma scan_block:
  fixes v w :: "'a::len word"
  assumes v: "\<And>j. bit v j \<longleftrightarrow> bit w j \<and> bitOffset it \<le> j \<and> j < m"
    and w: "w = bs ! nat (base_reference it)" and m: "m \<le> LENGTH('a)"
    and rng: "0 \<le> base_reference it" "nat (base_reference it) < length bs"
    and r: "r = advanceInBlock (findFirstSet v - 1 - bitOffset it) it"
  shows "findFirstSet v = 0 \<Longrightarrow> bi_pos LENGTH('a) it \<le> q \<Longrightarrow>
      q < base_reference it * int LENGTH('a) + int m \<Longrightarrow> \<not> bi_bit bs q"
    and "findFirstSet v \<noteq> 0 \<Longrightarrow> bi_dereference bs r = Some True \<and> bitOffset r < m \<and>
      base_reference r = base_reference it \<and> bitOffset it \<le> bitOffset r"
    and "findFirstSet v \<noteq> 0 \<Longrightarrow> bi_pos LENGTH('a) it \<le> q \<Longrightarrow> q < bi_pos LENGTH('a) r \<Longrightarrow> \<not> bi_bit bs q"
proof -
  assume f: "findFirstSet v = 0" and q: "bi_pos LENGTH('a) it \<le> q"
    "q < base_reference it * int LENGTH('a) + int m"
  obtain j where j: "q = base_reference it * int LENGTH('a) + int j" "bitOffset it \<le> j" "j < m"
    using pos_in_block [OF q] .
  have "v = 0" using f by (simp add: findFirstSet_def builtin_ffs_def split: if_splits)
  then have "\<not> bit w j" using v [of j] j by simp
  then show "\<not> bi_bit bs q" using j m w by (simp add: bi_bit_block)
next
  assume f: "findFirstSet v \<noteq> 0"
  then have v0: "v \<noteq> 0" by (auto simp: findFirstSet_def builtin_ffs_def)
  note ff = builtin_ffs_first [OF v0, folded findFirstSet_def]
  have b: "bit w (findFirstSet v - 1)" "bitOffset it \<le> findFirstSet v - 1" "findFirstSet v - 1 < m"
    using v [of "findFirstSet v - 1"] ff(1) by simp_all
  have o: "bitOffset r = findFirstSet v - 1" "base_reference r = base_reference it"
    using b(2) by (simp_all add: r advanceInBlock_def)
  show "bi_dereference bs r = Some True \<and> bitOffset r < m \<and>
      base_reference r = base_reference it \<and> bitOffset it \<le> bitOffset r"
    using b rng o by (simp add: bi_dereference_def w)
  assume q: "bi_pos LENGTH('a) it \<le> q" "q < bi_pos LENGTH('a) r"
  have "q < base_reference it * int LENGTH('a) + int (findFirstSet v - 1)"
    using q(2) o by (simp add: bi_pos_def)
  then obtain j where j: "q = base_reference it * int LENGTH('a) + int j" "bitOffset it \<le> j"
      "j < findFirstSet v - 1"
    using pos_in_block [OF q(1)] by blast
  have jm: "j < m" using j(3) b(3) by simp
  have "\<not> bit v j" using ff(4) [OF j(3)] .
  then have "\<not> bit w j" using v [of j] j(2) jm by simp
  then show "\<not> bi_bit bs q" using j jm m w by (simp add: bi_bit_block)
qed

text \<open>The block-wise search returns the first set bit of the range, or its end.

  For a range within the sequence, the search returns a position between the two ends such that
  no bit before it is set, and it is the end of the range or the position of a bit that is set:
  the masks at both ends of the range and the jump over whole blocks lose no bit.\<close>

theorem bi_findFirstSet_correct:
  fixes bs :: "'a::len word list"
  assumes "0 \<le> base_reference it" "bitOffset it < LENGTH('a)" "bitOffset e < LENGTH('a)"
    "bi_pos LENGTH('a) it \<le> bi_pos LENGTH('a) e"
    "nat (base_reference e) + (if bitOffset e = 0 then 0 else 1) \<le> length bs"
  shows "\<exists>r. bi_findFirstSet bs it e = Some r \<and> bi_pos LENGTH('a) it \<le> bi_pos LENGTH('a) r \<and>
    (\<forall>q. bi_pos LENGTH('a) it \<le> q \<and> q < bi_pos LENGTH('a) r \<longrightarrow> \<not> bi_bit bs q) \<and>
    (r = e \<or> bi_pos LENGTH('a) r < bi_pos LENGTH('a) e \<and> bi_dereference bs r = Some True)"
  using assms
proof (induction bs it e rule: bi_findFirstSet.induct)
  case (1 bs it e)
  let ?L = "LENGTH('a)"
  have be: "base_reference it \<le> base_reference e"
  proof (rule ccontr)
    assume "\<not> ?thesis"
    then have "(base_reference e + 1) * int ?L \<le> base_reference it * int ?L"
      by (intro mult_right_mono) auto
    then show False using "1.prems"(3,4) by (simp add: bi_pos_def distrib_right)
  qed
  let ?w = "bs ! nat (base_reference it)"
  show ?case
  proof (cases "base_reference it = base_reference e")
    case False
    then have lt: "base_reference it < base_reference e" using be by simp
    then have rng: "nat (base_reference it) < length bs" using "1.prems"(1,5) by (auto split: if_splits)
    let ?v = "?w AND NOT (push_bit (bitOffset it) 1 - 1)"
    have v: "bit ?v j \<longleftrightarrow> bit ?w j \<and> bitOffset it \<le> j \<and> j < ?L" for j
      using bit_imp_le_length [of ?w j]
      by (auto simp: low_mask bit_and_iff bit_not_iff bit_mask_iff)
    note sc = scan_block [OF v refl order_refl "1.prems"(1) rng refl]
    have next_pos: "base_reference it * int ?L + int ?L = bi_pos ?L (advanceToNextBlock it)"
      by (simp add: bi_pos_def advanceToNextBlock_def distrib_right)
    have nx: "bi_pos ?L (advanceToNextBlock it) \<le> bi_pos ?L e"
    proof -
      have "(base_reference it + 1) * int ?L \<le> base_reference e * int ?L"
        using lt by (intro mult_right_mono) auto
      also have "\<dots> \<le> bi_pos ?L e" by (simp add: bi_pos_def)
      finally show ?thesis by (simp add: bi_pos_def advanceToNextBlock_def)
    qed
    show ?thesis
    proof (cases "findFirstSet ?v = 0")
      case f: True
      have eq: "bi_findFirstSet bs it e = bi_findFirstSet bs (advanceToNextBlock it) e"
        by (subst bi_findFirstSet.simps) (use False rng "1.prems"(1) f in \<open>simp add: Let_def\<close>)
      have c: "0 \<le> base_reference it \<and> nat (base_reference it) < length bs"
        using "1.prems"(1) rng by simp
      have nn: "\<not> findFirstSet ?v \<noteq> 0" using f by simp
      have i1: "0 \<le> base_reference (advanceToNextBlock it)"
          "bitOffset (advanceToNextBlock it) < ?L"
        using "1.prems"(1) by (simp_all add: advanceToNextBlock_def)
      obtain r where r: "bi_findFirstSet bs (advanceToNextBlock it) e = Some r"
          "bi_pos ?L (advanceToNextBlock it) \<le> bi_pos ?L r"
          "\<forall>q. bi_pos ?L (advanceToNextBlock it) \<le> q \<and> q < bi_pos ?L r \<longrightarrow> \<not> bi_bit bs q"
          "r = e \<or> bi_pos ?L r < bi_pos ?L e \<and> bi_dereference bs r = Some True"
        using "1.IH" [OF False c refl refl nn i1 "1.prems"(3) nx "1.prems"(5)] by blast
      have p0: "bi_pos ?L it \<le> bi_pos ?L (advanceToNextBlock it)"
        using "1.prems"(2) next_pos by (simp add: bi_pos_def)
      have "\<not> bi_bit bs q" if "bi_pos ?L it \<le> q" "q < bi_pos ?L r" for q
        using sc(1) [OF f that(1)] r(3) that(2) next_pos by (metis not_le)
      then show ?thesis using eq r p0 by auto
    next
      case f: False
      let ?r = "advanceInBlock (findFirstSet ?v - 1 - bitOffset it) it"
      have eq: "bi_findFirstSet bs it e = Some ?r"
        by (subst bi_findFirstSet.simps) (use False rng "1.prems"(1) f in \<open>simp add: Let_def\<close>)
      have "bi_pos ?L ?r < bi_pos ?L e"
        using sc(2) [OF f] nx next_pos by (simp add: bi_pos_def)
      moreover have "bi_pos ?L it \<le> bi_pos ?L ?r" using sc(2) [OF f] by (simp add: bi_pos_def)
      ultimately show ?thesis using eq sc(2) [OF f] sc(3) [OF f] by auto
    qed
  next
    case True
    show ?thesis
    proof (cases "bitOffset e = 0")
      case o: True
      have "bi_findFirstSet bs it e = Some e"
        by (subst bi_findFirstSet.simps) (simp add: True o)
      moreover have "bi_pos ?L it = bi_pos ?L e" using "1.prems"(4) True o by (simp add: bi_pos_def)
      ultimately show ?thesis by auto
    next
      case o: False
      then have rng: "nat (base_reference it) < length bs" using "1.prems"(5) True by simp
      let ?v = "?w AND NOT (push_bit (bitOffset it) 1 - 1) AND (push_bit (bitOffset e) 1 - 1)"
      have v: "bit ?v j \<longleftrightarrow> bit ?w j \<and> bitOffset it \<le> j \<and> j < bitOffset e" for j
        using bit_imp_le_length [of ?w j]
        by (auto simp: low_mask bit_and_iff bit_not_iff bit_mask_iff)
      have le: "bitOffset e \<le> ?L" using "1.prems"(3) by simp
      note sc = scan_block [OF v refl le "1.prems"(1) rng refl]
      have epos: "base_reference it * int ?L + int (bitOffset e) = bi_pos ?L e"
        using True by (simp add: bi_pos_def)
      show ?thesis
      proof (cases "findFirstSet ?v = 0")
        case f: True
        have "bi_findFirstSet bs it e = Some e"
          by (subst bi_findFirstSet.simps) (use True o rng "1.prems"(1) f in \<open>simp add: Let_def\<close>)
        then show ?thesis using sc(1) [OF f] "1.prems"(4) epos by auto
      next
        case f: False
        let ?r = "advanceInBlock (findFirstSet ?v - 1 - bitOffset it) it"
        have eq: "bi_findFirstSet bs it e = Some ?r"
          by (subst bi_findFirstSet.simps) (use True o rng "1.prems"(1) f in \<open>simp add: Let_def\<close>)
        have "bi_pos ?L ?r < bi_pos ?L e" "bi_pos ?L it \<le> bi_pos ?L ?r"
          using sc(2) [OF f] epos by (simp_all add: bi_pos_def)
        then show ?thesis using eq sc(2) [OF f] sc(3) [OF f] by auto
      qed
    qed
  qed
qed

lemma bi_findFirstSet_witness:
  "\<exists>r. bi_findFirstSet [0, 16 :: 8 word] (makeBitIterator 0) \<lparr> base_reference = 1, bitOffset = 6 \<rparr> = Some r \<and>
    bi_pos LENGTH(8) (makeBitIterator 0) \<le> bi_pos LENGTH(8) r \<and>
    (\<forall>q. bi_pos LENGTH(8) (makeBitIterator 0) \<le> q \<and> q < bi_pos LENGTH(8) r \<longrightarrow>
      \<not> bi_bit [0, 16 :: 8 word] q) \<and>
    (r = \<lparr> base_reference = 1, bitOffset = 6 \<rparr> \<or>
      bi_pos LENGTH(8) r < bi_pos LENGTH(8) \<lparr> base_reference = 1, bitOffset = 6 \<rparr> \<and>
      bi_dereference [0, 16 :: 8 word] r = Some True)"
  by (rule bi_findFirstSet_correct) (simp_all add: makeBitIterator_def bi_pos_def)

text \<open>
  Moving back does not go back: the signed count is divided as an unsigned one, so that a
  negative distance moves the iterator forward by $2^{64}$ bits less that distance.
\<close>

lemma bi_advance_back:
  assumes "0 < bpb" "bitOffset it < bpb" "n < 0" "- (2 ^ 64) \<le> n"
  shows "bi_pos bpb (bi_advance bpb n it) = bi_pos bpb it + n + 2 ^ 64"
proof -
  have "n mod 2 ^ 64 = (n + 2 ^ 64) mod 2 ^ 64" by simp
  also have "\<dots> = n + 2 ^ 64" using assms by (intro mod_pos_pos_trivial) auto
  finally show ?thesis using bi_advance_pos(1) [OF assms(1,2), of n] by (simp only: add.assoc)
qed

end
