(* ===== verification/Tc_Int.thy ===== *)
theory Tc_Int imports Prelude begin

text \<open>
  The thread cached integer of src/include/folly/ThreadCachedInt.h, the counter behind the entry
  counts of the atomic hash array: a shared target and a cache for every thread, which
  collects that thread's increments and is flushed into the target after cacheSize updates.
  Threads are numbers below the length of the list of caches; None is a thread without a cache. The counter is the 64 bit one the hash
  array uses.
\<close>

subsection \<open>The counter and its caches\<close>

record int_cache =
  cval :: "64 word"
  numUpdates :: "32 word"
  reset_flag :: bool

record tci =
  target :: "64 word"
  cacheSize :: "32 word"
  caches :: "int_cache option list"

definition tci_new :: "64 word \<Rightarrow> 32 word \<Rightarrow> nat \<Rightarrow> tci" where
  "tci_new initialVal sz threads =
    \<lparr> target = initialVal, cacheSize = sz, caches = replicate threads None \<rparr>"

definition cache_new :: "int_cache" where
  "cache_new = \<lparr> cval = 0, numUpdates = 0, reset_flag = False \<rparr>"

definition cache_flush :: "nat \<Rightarrow> int_cache \<Rightarrow> tci \<Rightarrow> tci" where
  "cache_flush th c t = t\<lparr> target := target t + cval c,
     caches := (caches t)[th := Some (c\<lparr> cval := 0, numUpdates := 0 \<rparr>)] \<rparr>"

definition cache_increment :: "nat \<Rightarrow> int_cache \<Rightarrow> 64 word \<Rightarrow> tci \<Rightarrow> tci" where
  "cache_increment th c inc t =
    (let c = (if \<not> reset_flag c then c\<lparr> cval := cval c + inc \<rparr> else c\<lparr> cval := inc, reset_flag := False \<rparr>);
       c = c\<lparr> numUpdates := numUpdates c + 1 \<rparr> in
     if numUpdates c > cacheSize t then cache_flush th c t
     else t\<lparr> caches := (caches t)[th := Some c] \<rparr>)"

definition tci_increment :: "nat \<Rightarrow> 64 word \<Rightarrow> tci \<Rightarrow> tci" where
  "tci_increment th inc t = (case caches t ! th of
      None \<Rightarrow> cache_increment th cache_new inc t
    | Some c \<Rightarrow> cache_increment th c inc t)"

definition tci_decrement :: "nat \<Rightarrow> 64 word \<Rightarrow> tci \<Rightarrow> tci" where
  "tci_decrement th inc t = tci_increment th (- inc) t"

definition tci_readFast :: "tci \<Rightarrow> 64 word" where
  "tci_readFast t = target t"

definition cached :: "int_cache option \<Rightarrow> 64 word" where
  "cached co = (case co of None \<Rightarrow> 0 | Some c \<Rightarrow> if \<not> reset_flag c then cval c else 0)"

definition tci_readFull :: "tci \<Rightarrow> 64 word" where
  "tci_readFull t = tci_readFast t + sum_list (map cached (caches t))"

definition tci_readFastAndReset :: "tci \<Rightarrow> 64 word \<times> tci" where
  "tci_readFastAndReset t = (target t, t\<lparr> target := 0 \<rparr>)"

definition mark_reset :: "tci \<Rightarrow> tci" where
  "mark_reset t = t\<lparr> caches := map (map_option (\<lambda>c. c\<lparr> reset_flag := True \<rparr>)) (caches t) \<rparr>"

definition tci_readFullAndReset :: "tci \<Rightarrow> 64 word \<times> tci" where
  "tci_readFullAndReset t = (let (ret, t') = tci_readFastAndReset t in
     (ret + sum_list (map cached (caches t)), mark_reset t'))"

definition tci_setCacheSize :: "32 word \<Rightarrow> tci \<Rightarrow> tci" where
  "tci_setCacheSize sz t = t\<lparr> cacheSize := sz \<rparr>"

definition tci_set :: "64 word \<Rightarrow> tci \<Rightarrow> tci" where
  "tci_set newVal t = (mark_reset t)\<lparr> target := newVal \<rparr>"

text \<open>The thread ends while the counter is alive: its cache is flushed and gone.\<close>

definition tci_thread_exit :: "nat \<Rightarrow> tci \<Rightarrow> tci" where
  "tci_thread_exit th t = (case caches t ! th of
      None \<Rightarrow> t
    | Some c \<Rightarrow> (let t' = cache_flush th c t in t'\<lparr> caches := (caches t')[th := None] \<rparr>))"

subsection \<open>What the full read returns\<close>

definition tci_threads :: "tci \<Rightarrow> nat" where
  "tci_threads t = length (caches t)"

lemma tci_threads_simps [simp]:
  "tci_threads (tci_new v s n) = n" "tci_threads (tci_increment th i t) = tci_threads t"
  "tci_threads (tci_decrement th i t) = tci_threads t" "tci_threads (tci_set v t) = tci_threads t"
  "tci_threads (tci_setCacheSize s t) = tci_threads t" "tci_threads (tci_thread_exit th t) = tci_threads t"
  by (simp_all add: tci_threads_def tci_new_def tci_increment_def tci_decrement_def tci_set_def
      mark_reset_def tci_setCacheSize_def tci_thread_exit_def cache_increment_def cache_flush_def
      Let_def split: option.splits)

lemma sum_list_update_word:
  "i < length xs \<Longrightarrow> sum_list (xs[i := (y :: 64 word)]) = sum_list xs + (y - xs ! i)"
  by (induction xs arbitrary: i) (auto split: nat.splits)

lemma readFull_update:
  assumes "th < tci_threads t"
  shows "tci_readFull (t\<lparr> target := v, caches := (caches t)[th := co] \<rparr>) =
    v + (tci_readFull t - target t) + (cached co - cached (caches t ! th))"
  using assms by (simp add: tci_readFull_def tci_readFast_def tci_threads_def map_update
      sum_list_update_word)

lemma readFull_new [simp]: "tci_readFull (tci_new v s n) = v"
  by (simp add: tci_readFull_def tci_readFast_def tci_new_def cached_def sum_list_replicate)

lemma readFull_cache:
  assumes "th < tci_threads t"
  shows "tci_readFull (t\<lparr> caches := (caches t)[th := co] \<rparr>) =
    tci_readFull t + (cached co - cached (caches t ! th))"
  using assms by (simp add: tci_readFull_def tci_readFast_def tci_threads_def map_update
      sum_list_update_word)

lemma cache_increment_full:
  assumes "th < tci_threads t"
  shows "tci_readFull (cache_increment th c inc t) =
    tci_readFull t + inc + (cached (Some c) - cached (caches t ! th))"
  by (auto simp: cache_increment_def cache_flush_def Let_def readFull_update [OF assms]
      readFull_cache [OF assms] cached_def)

lemma readFull_increment [simp]:
  "th < tci_threads t \<Longrightarrow> tci_readFull (tci_increment th inc t) = tci_readFull t + inc"
  by (auto simp: tci_increment_def cache_increment_full cached_def cache_new_def split: option.split)

lemma readFull_decrement [simp]:
  "th < tci_threads t \<Longrightarrow> tci_readFull (tci_decrement th inc t) = tci_readFull t - inc"
  by (simp add: tci_decrement_def)

lemma readFull_mark_reset: "tci_readFull (mark_reset t) = target t"
proof -
  have z: "cached (map_option (\<lambda>c. c\<lparr> reset_flag := True \<rparr>) co) = 0" for co
    by (simp add: cached_def split: option.split)
  have "sum_list (map cached (map (map_option (\<lambda>c. c\<lparr> reset_flag := True \<rparr>)) cs)) = 0" for cs
    by (induction cs) (simp_all only: list.map sum_list.Cons sum_list.Nil z add_0)
  then show ?thesis
    by (simp add: tci_readFull_def tci_readFast_def mark_reset_def)
qed

lemma readFull_set [simp]: "tci_readFull (tci_set v t) = v"
  using readFull_mark_reset [of "t\<lparr> target := v \<rparr>"]
  by (simp add: tci_set_def mark_reset_def tci_readFull_def tci_readFast_def)

lemma readFull_and_reset:
  "fst (tci_readFullAndReset t) = tci_readFull t" "tci_readFull (snd (tci_readFullAndReset t)) = 0"
  by (simp_all add: tci_readFullAndReset_def tci_readFastAndReset_def tci_readFull_def [of t]
      tci_readFast_def readFull_mark_reset)

lemma readFull_setCacheSize [simp]: "tci_readFull (tci_setCacheSize s t) = tci_readFull t"
  by (simp add: tci_readFull_def tci_readFast_def tci_setCacheSize_def)

text \<open>
  A thread that ends hands its count over, unless the counter was set since its last increment:
  the flush does not look at the reset flag and brings back what the set had wiped out.
\<close>

lemma thread_exit_full:
  assumes "th < tci_threads t"
  shows "tci_readFull (tci_thread_exit th t) = tci_readFull t + (case caches t ! th of
      Some c \<Rightarrow> if reset_flag c then cval c else 0 | None \<Rightarrow> 0)"
  using readFull_update [OF assms]
  by (auto simp: tci_thread_exit_def cache_flush_def Let_def cached_def split: option.split)

lemma set_then_exit:
  "tci_readFull (tci_thread_exit 0 (tci_set 0 (tci_increment 0 5 (tci_new 0 1000 1)))) = (5 :: 64 word)"
  by (simp add: thread_exit_full) (simp add: tci_set_def mark_reset_def tci_increment_def
      tci_new_def cache_increment_def cache_new_def Let_def)

text \<open>The fast read lags behind the full one by what the caches hold.\<close>

lemma readFast_lags: "tci_readFull t - tci_readFast t = sum_list (map cached (caches t))"
  by (simp add: tci_readFull_def)

end
