(* ===== verification/Hash_Array.thy ===== *)
theory Hash_Array imports Bit_Ops Tc_Int begin

text \<open>
  The atomic hash array, src/include/folly/AtomicHashArray.h and AtomicHashArray-inl.h: the open
  addressing table behind the maps of the vector's trackers, latches and splinters. A cell is its
  key and its value, None while no value has been constructed in it; three keys are set apart for
  cells that are empty, locked by an insertion in progress, and erased. The operations are given
  statement by statement, a step for every access to shared memory, so that the same definitions
  run alone and interleaved; the counters are those of the theory Tc_Int, the argument th is the
  thread's number. A constructor of a value is its result, None if it throws.
\<close>

subsection \<open>The table\<close>

record ('k, 'v) aha =
  aha_capacity :: nat
  maxEntries :: nat
  emptyKey :: 'k
  lockedKey :: 'k
  erasedKey :: 'k
  anchorMask :: "64 word"
  numEntries :: tci
  numPending :: tci
  isFull :: int
  numErases :: "64 word"
  aha_cells :: "('k \<times> 'v option) list"

datatype probe_fcn = LinearProbe | QuadraticProbe

record 'k aha_fns =
  HashFcn :: "'k \<Rightarrow> 64 word"
  ProbeFcn :: probe_fcn

definition linear_probe :: "nat \<Rightarrow> nat \<Rightarrow> nat \<Rightarrow> nat" where
  "linear_probe idx numProbes cap = (let idx = idx + 1 in if idx < cap then idx else idx - cap)"

definition quadratic_probe :: "nat \<Rightarrow> nat \<Rightarrow> nat \<Rightarrow> nat" where
  "quadratic_probe idx numProbes cap = (let idx = idx + numProbes in if idx < cap then idx else idx - cap)"

definition probe :: "probe_fcn \<Rightarrow> nat \<Rightarrow> nat \<Rightarrow> nat \<Rightarrow> nat" where
  "probe p = (case p of LinearProbe \<Rightarrow> linear_probe | QuadraticProbe \<Rightarrow> quadratic_probe)"

definition keyToAnchorIdx :: "'k aha_fns \<Rightarrow> nat \<Rightarrow> 64 word \<Rightarrow> 'k \<Rightarrow> nat" where
  "keyToAnchorIdx F cap msk k = (let hashVal = HashFcn F k; p = hashVal AND msk in
     if unat p < cap then unat p else unat hashVal mod cap)"

definition checkLegalKey :: "('k, 'v) aha \<Rightarrow> 'k \<Rightarrow> bool" where
  "checkLegalKey a k \<longleftrightarrow> k \<noteq> emptyKey a \<and> k \<noteq> lockedKey a \<and> k \<noteq> erasedKey a"

definition key_at :: "('k, 'v) aha \<Rightarrow> nat \<Rightarrow> 'k" where
  "key_at a i = fst (aha_cells a ! i)"

definition value_at :: "('k, 'v) aha \<Rightarrow> nat \<Rightarrow> 'v option" where
  "value_at a i = snd (aha_cells a ! i)"

definition set_key :: "nat \<Rightarrow> 'k \<Rightarrow> ('k, 'v) aha \<Rightarrow> ('k, 'v) aha" where
  "set_key i k a = a\<lparr> aha_cells := (aha_cells a)[i := (k, value_at a i)] \<rparr>"

definition set_value :: "nat \<Rightarrow> 'v \<Rightarrow> ('k, 'v) aha \<Rightarrow> ('k, 'v) aha" where
  "set_value i v a = a\<lparr> aha_cells := (aha_cells a)[i := (key_at a i, Some v)] \<rparr>"

text \<open>The constructor and the filling of the cells with the empty key.\<close>

definition aha_construct :: "nat \<Rightarrow> nat \<Rightarrow> 'k \<Rightarrow> 'k \<Rightarrow> 'k \<Rightarrow> 32 word \<Rightarrow> nat \<Rightarrow> ('k \<times> 'v option) list \<Rightarrow> ('k, 'v) aha" where
  "aha_construct cap maxE eK lK rK cacheSz nthreads mem =
    \<lparr> aha_capacity = cap, maxEntries = maxE, emptyKey = eK, lockedKey = lK, erasedKey = rK,
      anchorMask = nextPowTwo (word_of_nat cap) - 1,
      numEntries = tci_new 0 cacheSz nthreads, numPending = tci_new 0 cacheSz nthreads,
      isFull = 0, numErases = 0, aha_cells = mem \<rparr>"

subsection \<open>Insertion\<close>

datatype ins_pc =
    I_Load nat nat          \<comment> \<open>is the cell's key the empty one?\<close>
  | I_Pend nat nat          \<comment> \<open>++numPendingEntries\<close>
  | I_LoadFull nat nat      \<comment> \<open>is isFull set?\<close>
  | I_UnpendFull nat nat    \<comment> \<open>--numPendingEntries\<close>
  | I_WaitFull nat nat      \<comment> \<open>spin: isFull is not NO\_PENDING\_INSERTS, and\<close>
  | I_WaitPending nat nat   \<comment> \<open>spin: there are pending entries\<close>
  | I_StoreNoPending nat nat
  | I_Recheck nat nat       \<comment> \<open>is the cell's key still the empty one?\<close>
  | I_TryLock nat nat
  | I_Construct nat nat
  | I_Unlock nat nat        \<comment> \<open>publish the new key\<close>
  | I_Rollback nat nat      \<comment> \<open>the constructor threw: the cell becomes empty again\<close>
  | I_UnpendThrow
  | I_UnpendOk nat
  | I_Count nat             \<comment> \<open>++numEntries\<close>
  | I_CheckMax nat
  | I_MarkFull nat          \<comment> \<open>isFull is NO\_NEW\_INSERTS\<close>
  | I_UnpendLost nat nat    \<comment> \<open>--numPendingEntries, the lock was lost\<close>
  | I_TestLocked nat nat    \<comment> \<open>spin while the cell is locked\<close>
  | I_Compare nat nat
  | I_Ret nat bool
  | I_Throw

fun ins_step :: "'k aha_fns \<Rightarrow> nat \<Rightarrow> 'k \<Rightarrow> 'v option \<Rightarrow> ('k, 'v) aha \<Rightarrow> ins_pc \<Rightarrow> ('k, 'v) aha \<times> ins_pc" where
  "ins_step F th k mv a (I_Load i n) =
     (a, if key_at a i = emptyKey a then I_Pend i n else I_TestLocked i n)"
| "ins_step F th k mv a (I_Pend i n) = (a\<lparr> numPending := tci_increment th 1 (numPending a) \<rparr>, I_LoadFull i n)"
| "ins_step F th k mv a (I_LoadFull i n) = (a, if isFull a \<noteq> 0 then I_UnpendFull i n else I_TryLock i n)"
| "ins_step F th k mv a (I_UnpendFull i n) =
     (a\<lparr> numPending := tci_decrement th 1 (numPending a) \<rparr>, I_WaitFull i n)"
| "ins_step F th k mv a (I_WaitFull i n) = (a, if isFull a \<noteq> 2 then I_WaitPending i n else I_StoreNoPending i n)"
| "ins_step F th k mv a (I_WaitPending i n) =
     (a, if tci_readFull (numPending a) \<noteq> 0 then I_WaitFull i n else I_StoreNoPending i n)"
| "ins_step F th k mv a (I_StoreNoPending i n) = (a\<lparr> isFull := 2 \<rparr>, I_Recheck i n)"
| "ins_step F th k mv a (I_Recheck i n) =
     (a, if key_at a i = emptyKey a then I_Ret (aha_capacity a) False else I_TestLocked i n)"
| "ins_step F th k mv a (I_TryLock i n) =
     (if key_at a i = emptyKey a then (set_key i (lockedKey a) a, I_Construct i n) else (a, I_UnpendLost i n))"
| "ins_step F th k mv a (I_Construct i n) =
     (case mv of Some v \<Rightarrow> (set_value i v a, I_Unlock i n) | None \<Rightarrow> (a, I_Rollback i n))"
| "ins_step F th k mv a (I_Unlock i n) = (set_key i k a, I_UnpendOk i)"
| "ins_step F th k mv a (I_Rollback i n) = (set_key i (emptyKey a) a, I_UnpendThrow)"
| "ins_step F th k mv a I_UnpendThrow = (a\<lparr> numPending := tci_decrement th 1 (numPending a) \<rparr>, I_Throw)"
| "ins_step F th k mv a (I_UnpendOk i) = (a\<lparr> numPending := tci_decrement th 1 (numPending a) \<rparr>, I_Count i)"
| "ins_step F th k mv a (I_Count i) = (a\<lparr> numEntries := tci_increment th 1 (numEntries a) \<rparr>, I_CheckMax i)"
| "ins_step F th k mv a (I_CheckMax i) =
     (a, if unat (tci_readFast (numEntries a)) \<ge> maxEntries a then I_MarkFull i else I_Ret i True)"
| "ins_step F th k mv a (I_MarkFull i) = (a\<lparr> isFull := 1 \<rparr>, I_Ret i True)"
| "ins_step F th k mv a (I_UnpendLost i n) =
     (a\<lparr> numPending := tci_decrement th 1 (numPending a) \<rparr>, I_TestLocked i n)"
| "ins_step F th k mv a (I_TestLocked i n) =
     (a, if key_at a i = lockedKey a then I_TestLocked i n else I_Compare i n)"
| "ins_step F th k mv a (I_Compare i n) = (a,
     if key_at a i = k then I_Ret i False
     else if key_at a i = emptyKey a \<or> key_at a i = lockedKey a then I_Load i n
     else if Suc n \<ge> aha_capacity a then I_Ret (aha_capacity a) False
     else I_Load (probe (ProbeFcn F) i (Suc n) (aha_capacity a)) (Suc n))"
| "ins_step F th k mv a (I_Ret i b) = (a, I_Ret i b)"
| "ins_step F th k mv a I_Throw = (a, I_Throw)"

subsection \<open>Lookup and removal\<close>

datatype find_pc = F_Load nat nat | F_Ret nat bool

fun find_step :: "'k aha_fns \<Rightarrow> 'k \<Rightarrow> ('k, 'v) aha \<Rightarrow> find_pc \<Rightarrow> find_pc" where
  "find_step F k a (F_Load i n) =
    (if key_at a i = k then F_Ret i True
     else if key_at a i = emptyKey a then F_Ret (aha_capacity a) False
     else if Suc n \<ge> aha_capacity a then F_Ret (aha_capacity a) False
     else F_Load (probe (ProbeFcn F) i (Suc n) (aha_capacity a)) (Suc n))"
| "find_step F k a (F_Ret i b) = F_Ret i b"

datatype erase_pc = E_Load nat nat | E_Cas nat | E_Count | E_Ret nat

fun erase_step :: "'k aha_fns \<Rightarrow> 'k \<Rightarrow> ('k, 'v) aha \<Rightarrow> erase_pc \<Rightarrow> ('k, 'v) aha \<times> erase_pc" where
  "erase_step F k a (E_Load i n) = (a,
     if key_at a i = emptyKey a \<or> key_at a i = lockedKey a then E_Ret 0
     else if key_at a i = k then E_Cas i
     else if Suc n \<ge> aha_capacity a then E_Ret 0
     else E_Load (probe (ProbeFcn F) i (Suc n) (aha_capacity a)) (Suc n))"
| "erase_step F k a (E_Cas i) =
     (if key_at a i = k then (set_key i (erasedKey a) a, E_Count) else (a, E_Ret 0))"
| "erase_step F k a E_Count = (a\<lparr> numErases := numErases a + 1 \<rparr>, E_Ret 1)"
| "erase_step F k a (E_Ret r) = (a, E_Ret r)"

subsection \<open>Threads\<close>

datatype ('k, 'v) job =
    Idle
  | InsertJob 'k "'v option" ins_pc
  | FindJob 'k find_pc
  | EraseJob 'k erase_pc

fun job_step :: "'k aha_fns \<Rightarrow> nat \<Rightarrow> ('k, 'v) aha \<Rightarrow> ('k, 'v) job \<Rightarrow> ('k, 'v) aha \<times> ('k, 'v) job" where
  "job_step F th a Idle = (a, Idle)"
| "job_step F th a (InsertJob k mv pc) = (let (a', pc') = ins_step F th k mv a pc in (a', InsertJob k mv pc'))"
| "job_step F th a (FindJob k pc) = (a, FindJob k (find_step F k a pc))"
| "job_step F th a (EraseJob k pc) = (let (a', pc') = erase_step F k a pc in (a', EraseJob k pc'))"

fun job_over :: "('k, 'v) job \<Rightarrow> bool" where
  "job_over Idle = True"
| "job_over (InsertJob k mv pc) = (case pc of I_Ret _ _ \<Rightarrow> True | I_Throw \<Rightarrow> True | _ \<Rightarrow> False)"
| "job_over (FindJob k pc) = (case pc of F_Ret _ _ \<Rightarrow> True | _ \<Rightarrow> False)"
| "job_over (EraseJob k pc) = (case pc of E_Ret _ \<Rightarrow> True | _ \<Rightarrow> False)"

definition anchor :: "'k aha_fns \<Rightarrow> ('k, 'v) aha \<Rightarrow> 'k \<Rightarrow> nat" where
  "anchor F a k = keyToAnchorIdx F (aha_capacity a) (anchorMask a) k"

definition start_insert :: "'k aha_fns \<Rightarrow> ('k, 'v) aha \<Rightarrow> 'k \<Rightarrow> 'v option \<Rightarrow> ('k, 'v) job" where
  "start_insert F a k mv = InsertJob k mv (I_Load (anchor F a k) 0)"

definition start_find :: "'k aha_fns \<Rightarrow> ('k, 'v) aha \<Rightarrow> 'k \<Rightarrow> ('k, 'v) job" where
  "start_find F a k = FindJob k (F_Load (anchor F a k) 0)"

definition start_erase :: "'k aha_fns \<Rightarrow> ('k, 'v) aha \<Rightarrow> 'k \<Rightarrow> ('k, 'v) job" where
  "start_erase F a k = EraseJob k (E_Load (anchor F a k) 0)"

inductive aha_step :: "'k aha_fns \<Rightarrow> ('k, 'v) aha \<times> ('k, 'v) job list \<Rightarrow> ('k, 'v) aha \<times> ('k, 'v) job list \<Rightarrow> bool"
  for F where
  run: "i < length js \<Longrightarrow> \<not> job_over (js ! i) \<Longrightarrow> job_step F i a (js ! i) = (a', j) \<Longrightarrow>
    aha_step F (a, js) (a', js[i := j])"
| call: "i < length js \<Longrightarrow> job_over (js ! i) \<Longrightarrow> checkLegalKey a k \<Longrightarrow>
    j \<in> {start_insert F a k mv, start_find F a k, start_erase F a k} \<Longrightarrow>
    aha_step F (a, js) (a, js[i := j])"

inductive_cases aha_stepE: "aha_step F (a, js) s'"

end
