(* ===== verification/Hash_Array_Inv.thy ===== *)
theory Hash_Array_Inv imports Hash_Array begin

text \<open>
  The invariant of the atomic hash array under any interleaving of insertions, lookups and
  removals: a key is stored on its probe path behind cells that are settled, neither empty nor
  locked, and hold other keys; a locked cell has one holder. A settled cell never becomes
  empty or locked again, so that what a thread has walked past stays passed.
\<close>

subsection \<open>The probe path\<close>

fun probe_path :: "'k aha_fns \<Rightarrow> nat \<Rightarrow> 64 word \<Rightarrow> 'k \<Rightarrow> nat \<Rightarrow> nat" where
  "probe_path F cap msk k 0 = keyToAnchorIdx F cap msk k"
| "probe_path F cap msk k (Suc n) = probe (ProbeFcn F) (probe_path F cap msk k n) (Suc n) cap"

definition path :: "'k aha_fns \<Rightarrow> ('k, 'v) aha \<Rightarrow> 'k \<Rightarrow> nat \<Rightarrow> nat" where
  "path F a k n = probe_path F (aha_capacity a) (anchorMask a) k n"

lemma anchor_lt: "0 < cap \<Longrightarrow> keyToAnchorIdx F cap msk k < cap"
  by (simp add: keyToAnchorIdx_def Let_def)

lemma probe_lt: "i < cap \<Longrightarrow> n \<le> cap \<Longrightarrow> probe p i n cap < cap"
  by (auto simp: probe_def linear_probe_def quadratic_probe_def Let_def split: probe_fcn.split)

lemma probe_path_lt: "0 < cap \<Longrightarrow> n < cap \<Longrightarrow> probe_path F cap msk k n < cap"
  by (induction n) (auto simp: anchor_lt probe_lt)

lemma path_lt: "0 < aha_capacity a \<Longrightarrow> n < aha_capacity a \<Longrightarrow> path F a k n < aha_capacity a"
  by (simp add: path_def probe_path_lt)

lemma path_0: "path F a k 0 = anchor F a k"
  by (simp add: path_def anchor_def)

lemma path_Suc: "path F a k (Suc n) = probe (ProbeFcn F) (path F a k n) (Suc n) (aha_capacity a)"
  by (simp add: path_def)

subsection \<open>Cells\<close>

definition same_frame :: "('k, 'v) aha \<Rightarrow> ('k, 'v) aha \<Rightarrow> bool" where
  "same_frame a b \<longleftrightarrow> aha_capacity b = aha_capacity a \<and> maxEntries b = maxEntries a \<and>
    emptyKey b = emptyKey a \<and> lockedKey b = lockedKey a \<and> erasedKey b = erasedKey a \<and>
    anchorMask b = anchorMask a \<and> length (aha_cells b) = length (aha_cells a)"

lemma frame_simps [simp]:
  "same_frame a a" "same_frame a (set_key i k a)" "same_frame a (set_value i v a)"
  "same_frame a (a\<lparr> numPending := p \<rparr>)" "same_frame a (a\<lparr> numEntries := p \<rparr>)"
  "same_frame a (a\<lparr> isFull := f \<rparr>)" "same_frame a (a\<lparr> numErases := e \<rparr>)"
  by (simp_all add: same_frame_def set_key_def set_value_def)

lemma cell_simps [simp]:
  "key_at (a\<lparr> numPending := p \<rparr>) i = key_at a i" "value_at (a\<lparr> numPending := p \<rparr>) i = value_at a i"
  "key_at (a\<lparr> numEntries := p \<rparr>) i = key_at a i" "value_at (a\<lparr> numEntries := p \<rparr>) i = value_at a i"
  "key_at (a\<lparr> isFull := f \<rparr>) i = key_at a i" "value_at (a\<lparr> isFull := f \<rparr>) i = value_at a i"
  "key_at (a\<lparr> numErases := e \<rparr>) i = key_at a i" "value_at (a\<lparr> numErases := e \<rparr>) i = value_at a i"
  by (simp_all add: key_at_def value_at_def)

lemma nth_update_any: "xs[j := y] ! i = (if i = j \<and> j < length xs then y else xs ! i)"
proof (cases "j < length xs")
  case False
  then have "xs[j := y] = xs" by (intro list_update_beyond) simp
  then show ?thesis using False by simp
qed (simp add: nth_list_update)

lemma set_cell_simps [simp]:
  "key_at (set_key j k a) i = (if i = j \<and> j < length (aha_cells a) then k else key_at a i)"
  "value_at (set_key j k a) i = value_at a i"
  "key_at (set_value j v a) i = key_at a i"
  "value_at (set_value j v a) i = (if i = j \<and> j < length (aha_cells a) then Some v else value_at a i)"
  by (simp_all add: key_at_def value_at_def set_key_def set_value_def nth_update_any)

lemma field_simps_set [simp]:
  "aha_capacity (set_key j k a) = aha_capacity a" "aha_capacity (set_value j v a) = aha_capacity a"
  "emptyKey (set_key j k a) = emptyKey a" "emptyKey (set_value j v a) = emptyKey a"
  "lockedKey (set_key j k a) = lockedKey a" "lockedKey (set_value j v a) = lockedKey a"
  "erasedKey (set_key j k a) = erasedKey a" "erasedKey (set_value j v a) = erasedKey a"
  "numPending (set_key j k a) = numPending a" "numPending (set_value j v a) = numPending a"
  "numEntries (set_key j k a) = numEntries a" "numEntries (set_value j v a) = numEntries a"
  "numErases (set_key j k a) = numErases a" "numErases (set_value j v a) = numErases a"
  "isFull (set_key j k a) = isFull a" "isFull (set_value j v a) = isFull a"
  "maxEntries (set_key j k a) = maxEntries a" "maxEntries (set_value j v a) = maxEntries a"
  "anchorMask (set_key j k a) = anchorMask a" "anchorMask (set_value j v a) = anchorMask a"
  "length (aha_cells (set_key j k a)) = length (aha_cells a)"
  "length (aha_cells (set_value j v a)) = length (aha_cells a)"
  by (simp_all add: set_key_def set_value_def)

definition aha_wf :: "('k, 'v) aha \<Rightarrow> bool" where
  "aha_wf a \<longleftrightarrow> 0 < aha_capacity a \<and> length (aha_cells a) = aha_capacity a \<and>
    emptyKey a \<noteq> lockedKey a \<and> emptyKey a \<noteq> erasedKey a \<and> lockedKey a \<noteq> erasedKey a"

definition settled_cell :: "('k, 'v) aha \<Rightarrow> nat \<Rightarrow> bool" where
  "settled_cell a i \<longleftrightarrow> key_at a i \<noteq> emptyKey a \<and> key_at a i \<noteq> lockedKey a"

definition passed :: "('k, 'v) aha \<Rightarrow> 'k \<Rightarrow> nat \<Rightarrow> bool" where
  "passed a k i \<longleftrightarrow> settled_cell a i \<and> key_at a i \<noteq> k"

definition reached :: "'k aha_fns \<Rightarrow> ('k, 'v) aha \<Rightarrow> 'k \<Rightarrow> nat \<Rightarrow> nat \<Rightarrow> bool" where
  "reached F a k i n \<longleftrightarrow> n < aha_capacity a \<and> i = path F a k n \<and> (\<forall>q < n. passed a k (path F a k q))"

definition keys_ok :: "'k aha_fns \<Rightarrow> ('k, 'v) aha \<Rightarrow> bool" where
  "keys_ok F a \<longleftrightarrow> (\<forall>i < aha_capacity a. checkLegalKey a (key_at a i) \<longrightarrow>
    (\<exists>n. reached F a (key_at a i) i n) \<and> value_at a i \<noteq> None)"

definition keeps_cells :: "('k, 'v) aha \<Rightarrow> ('k, 'v) aha \<Rightarrow> bool" where
  "keeps_cells a b \<longleftrightarrow> same_frame a b \<and>
    (\<forall>i. settled_cell a i \<longrightarrow> key_at b i = key_at a i \<or> key_at b i = erasedKey a)"

lemma same_frame_path: "same_frame a b \<Longrightarrow> path F b k n = path F a k n"
  by (simp add: same_frame_def path_def)

lemma same_frame_legal: "same_frame a b \<Longrightarrow> checkLegalKey b k = checkLegalKey a k"
  by (simp add: same_frame_def checkLegalKey_def)

lemma same_frame_wf: "same_frame a b \<Longrightarrow> aha_wf b = aha_wf a"
  by (simp add: same_frame_def aha_wf_def)

lemma keeps_passed:
  assumes "keeps_cells a b" "aha_wf a" "checkLegalKey a k" "passed a k i"
  shows "passed b k i"
  using assms by (auto simp: keeps_cells_def same_frame_def passed_def settled_cell_def aha_wf_def checkLegalKey_def)

lemma keeps_reached:
  assumes "keeps_cells a b" "aha_wf a" "checkLegalKey a k" "reached F a k i n"
  shows "reached F b k i n"
proof -
  have f: "same_frame a b" using assms(1) by (simp add: keeps_cells_def)
  have "passed b k (path F a k q)" if "q < n" for q
    using assms(4) that by (intro keeps_passed [OF assms(1-3)]) (simp add: reached_def)
  moreover have "n < aha_capacity b" using assms(4) f by (simp add: reached_def same_frame_def)
  moreover have "i = path F a k n" using assms(4) by (simp add: reached_def)
  ultimately show ?thesis unfolding reached_def same_frame_path [OF f] by blast
qed

lemma reached_0: "aha_wf a \<Longrightarrow> reached F a k (anchor F a k) 0"
  by (simp add: reached_def path_0 aha_wf_def)

lemma reached_Suc:
  "reached F a k i n \<Longrightarrow> passed a k i \<Longrightarrow> Suc n < aha_capacity a \<Longrightarrow>
    reached F a k (probe (ProbeFcn F) i (Suc n) (aha_capacity a)) (Suc n)"
  by (auto simp: reached_def path_Suc less_Suc_eq)

lemma reached_lt: "aha_wf a \<Longrightarrow> reached F a k i n \<Longrightarrow> i < aha_capacity a \<and> i < length (aha_cells a)"
  by (auto simp: reached_def path_lt aha_wf_def)

text \<open>A key has one cell: of two on its path, the later would lie behind the earlier.\<close>

lemma keys_unique:
  assumes "keys_ok F a" "i < aha_capacity a" "j < aha_capacity a" "checkLegalKey a (key_at a i)"
    "key_at a j = key_at a i"
  shows "i = j"
proof -
  define k where "k = key_at a i"
  obtain n m where n: "reached F a k i n" and m: "reached F a k j m"
    using assms unfolding k_def keys_ok_def by metis
  have i: "i = path F a k n" and j: "j = path F a k m" using n m by (simp_all add: reached_def)
  have p: "passed a k (path F a k q)" if "q < n \<or> q < m" for q
    using n m that by (auto simp: reached_def)
  have "\<not> passed a k i" "\<not> passed a k j" using assms(5) by (simp_all add: passed_def k_def)
  then have "\<not> n < m" "\<not> m < n" using p [of n] p [of m] i j by auto
  then show ?thesis using i j by simp
qed

lemma keys_ok_step:
  assumes k: "keys_ok F a" and ab: "keeps_cells a b" and wf: "aha_wf a"
    and new: "\<And>i. i < aha_capacity a \<Longrightarrow> checkLegalKey a (key_at b i) \<Longrightarrow>
      key_at b i = key_at a i \<and> (value_at b i = value_at a i \<or> value_at b i \<noteq> None) \<or>
      (\<exists>n. reached F a (key_at b i) i n) \<and> value_at b i \<noteq> None"
  shows "keys_ok F b"
  unfolding keys_ok_def
proof (intro allI impI)
  fix i assume i: "i < aha_capacity b" and l: "checkLegalKey b (key_at b i)"
  have f: "same_frame a b" using ab by (simp add: keeps_cells_def)
  have i': "i < aha_capacity a" and l': "checkLegalKey a (key_at b i)"
    using i l f by (simp_all add: same_frame_legal) (simp add: same_frame_def)
  have "(\<exists>n. reached F a (key_at b i) i n) \<and> value_at b i \<noteq> None"
    using new [OF i' l'] k i' l' by (auto simp: keys_ok_def)
  then show "(\<exists>n. reached F b (key_at b i) i n) \<and> value_at b i \<noteq> None"
    using keeps_reached [OF ab wf l'] by blast
qed

subsection \<open>Threads\<close>

fun ins_at :: "ins_pc \<Rightarrow> (nat \<times> nat) option" where
  "ins_at (I_Load i n) = Some (i, n)" | "ins_at (I_Pend i n) = Some (i, n)"
| "ins_at (I_LoadFull i n) = Some (i, n)" | "ins_at (I_UnpendFull i n) = Some (i, n)"
| "ins_at (I_WaitFull i n) = Some (i, n)" | "ins_at (I_WaitPending i n) = Some (i, n)"
| "ins_at (I_StoreNoPending i n) = Some (i, n)" | "ins_at (I_Recheck i n) = Some (i, n)"
| "ins_at (I_TryLock i n) = Some (i, n)" | "ins_at (I_Construct i n) = Some (i, n)"
| "ins_at (I_Unlock i n) = Some (i, n)" | "ins_at (I_Rollback i n) = Some (i, n)"
| "ins_at (I_UnpendLost i n) = Some (i, n)" | "ins_at (I_TestLocked i n) = Some (i, n)"
| "ins_at (I_Compare i n) = Some (i, n)" | "ins_at _ = None"

fun ins_holds :: "ins_pc \<Rightarrow> nat option" where
  "ins_holds (I_Construct i n) = Some i" | "ins_holds (I_Unlock i n) = Some i"
| "ins_holds (I_Rollback i n) = Some i" | "ins_holds _ = None"

fun job_holds :: "('k, 'v) job \<Rightarrow> nat option" where
  "job_holds (InsertJob k mv pc) = ins_holds pc"
| "job_holds _ = None"

fun job_ok :: "'k aha_fns \<Rightarrow> ('k, 'v) aha \<Rightarrow> ('k, 'v) job \<Rightarrow> bool" where
  "job_ok F a Idle = True"
| "job_ok F a (InsertJob k mv pc) = (checkLegalKey a k \<and>
     (case ins_at pc of Some (i, n) \<Rightarrow> reached F a k i n | None \<Rightarrow> True) \<and>
     (case ins_holds pc of Some i \<Rightarrow> key_at a i = lockedKey a | None \<Rightarrow> True) \<and>
     (case pc of I_Unlock i n \<Rightarrow> value_at a i \<noteq> None | _ \<Rightarrow> True))"
| "job_ok F a (FindJob k pc) = (checkLegalKey a k \<and>
     (case pc of F_Load i n \<Rightarrow> n < aha_capacity a \<and> i < aha_capacity a | F_Ret _ _ \<Rightarrow> True))"
| "job_ok F a (EraseJob k pc) = (checkLegalKey a k \<and>
     (case pc of E_Load i n \<Rightarrow> reached F a k i n | E_Cas i \<Rightarrow> i < aha_capacity a | _ \<Rightarrow> True))"

definition exclusive :: "('k, 'v) job list \<Rightarrow> bool" where
  "exclusive js \<longleftrightarrow> (\<forall>i < length js. \<forall>j < length js. i \<noteq> j \<longrightarrow>
    job_holds (js ! i) \<noteq> None \<longrightarrow> job_holds (js ! i) \<noteq> job_holds (js ! j))"

definition aha_inv :: "'k aha_fns \<Rightarrow> ('k, 'v) aha \<Rightarrow> ('k, 'v) job list \<Rightarrow> bool" where
  "aha_inv F a js \<longleftrightarrow> aha_wf a \<and> keys_ok F a \<and> (\<forall>i < length js. job_ok F a (js ! i)) \<and> exclusive js"

text \<open>What a step may do to the cells.\<close>

definition effect_ok :: "'k aha_fns \<Rightarrow> ('k, 'v) aha \<Rightarrow> ('k, 'v) job \<Rightarrow> ('k, 'v) aha \<Rightarrow> ('k, 'v) job \<Rightarrow> bool" where
  "effect_ok F a j b j' \<longleftrightarrow> keeps_cells a b \<and> keys_ok F b \<and> job_ok F b j' \<and>
    (\<forall>x. key_at b x = key_at a x \<and> value_at b x = value_at a x \<or> job_holds j = Some x \<or>
      key_at a x \<noteq> lockedKey a) \<and>
    (\<forall>x. job_holds j' = Some x \<longrightarrow> job_holds j = Some x \<or> key_at a x \<noteq> lockedKey a)"

lemma effect_same_cells:
  assumes "keys_ok F a" "aha_wf a" "same_frame a b" "\<And>x. key_at b x = key_at a x"
    "\<And>x. value_at b x = value_at a x" "job_ok F b j'"
    "\<And>x. job_holds j' = Some x \<Longrightarrow> job_holds j = Some x"
  shows "effect_ok F a j b j'"
proof -
  have "keeps_cells a b" using assms by (auto simp: keeps_cells_def)
  then show ?thesis
    using assms keys_ok_step [OF assms(1) \<open>keeps_cells a b\<close> assms(2)] by (auto simp: effect_ok_def)
qed

lemma reached_same_cells:
  "same_frame a b \<Longrightarrow> (\<And>x. key_at b x = key_at a x) \<Longrightarrow> reached F b k i n = reached F a k i n"
  by (auto simp: reached_def passed_def settled_cell_def same_frame_path) (simp_all add: same_frame_def)

lemma key_change_keeps:
  assumes "aha_wf a" "\<not> settled_cell a i \<or> x = erasedKey a"
  shows "keeps_cells a (set_key i x a)"
  using assms by (auto simp: keeps_cells_def)

lemma value_change_keeps: "keeps_cells a (set_value i v a)"
  by (simp add: keeps_cells_def)

lemma keeps_same_cells: "same_frame a b \<Longrightarrow> (\<And>x. key_at b x = key_at a x) \<Longrightarrow> keeps_cells a b"
  by (simp add: keeps_cells_def)

lemma keeps_keys_ok:
  assumes "keys_ok F a" "aha_wf a" "same_frame a b" "\<And>x. key_at b x = key_at a x"
    "\<And>x. value_at b x = value_at a x \<or> value_at b x \<noteq> None"
  shows "keys_ok F b"
  by (rule keys_ok_step [OF assms(1) keeps_same_cells [OF assms(3,4)] assms(2)])
    (use assms(4,5) in auto)

lemma set_key_keys_ok:
  assumes "keys_ok F a" "aha_wf a" "\<not> settled_cell a i \<or> x = erasedKey a"
    "checkLegalKey a x \<Longrightarrow> (\<exists>n. reached F a x i n) \<and> value_at a i \<noteq> None"
  shows "keys_ok F (set_key i x a)"
  by (rule keys_ok_step [OF assms(1) key_change_keeps [OF assms(2,3)] assms(2)])
    (use assms(4) in \<open>auto split: if_splits\<close>)

lemmas reached_keep = keeps_reached [OF keeps_same_cells]

lemma ins_effect:
  assumes k: "keys_ok F a" and wf: "aha_wf a" and j: "job_ok F a (InsertJob k mv pc)"
    and st: "ins_step F th k mv a pc = (b, pc')"
  shows "effect_ok F a (InsertJob k mv pc) b (InsertJob k mv pc')"
proof -
  have l: "checkLegalKey a k" using j by simp
  have nl: "k \<noteq> emptyKey a" "k \<noteq> lockedKey a" using l by (simp_all add: checkLegalKey_def)
  have pos: "reached F a k i n" if "ins_at pc = Some (i, n)" for i n using j that by simp
  have lt: "i < aha_capacity a \<and> i < length (aha_cells a)" if "ins_at pc = Some (i, n)" for i n
    using reached_lt [OF wf pos [OF that]] .
  have same: "effect_ok F a (InsertJob k mv pc) b (InsertJob k mv pc')"
    if "same_frame a b" "\<And>x. key_at b x = key_at a x" "\<And>x. value_at b x = value_at a x"
      "ins_holds pc' = None \<or> ins_holds pc' = ins_holds pc" "\<And>i n. pc' \<noteq> I_Unlock i n"
      "\<And>i n. ins_at pc' = Some (i, n) \<Longrightarrow> reached F a k i n"
    for b pc'
  proof (rule effect_same_cells [OF k wf that(1-3)])
    have "case ins_at pc' of Some (i, n) \<Rightarrow> reached F b k i n | None \<Rightarrow> True"
      using that(6) by (auto simp: reached_same_cells [OF that(1,2)] split: option.split)
    moreover have "case ins_holds pc' of Some i \<Rightarrow> key_at b i = lockedKey b | None \<Rightarrow> True"
    proof (cases "ins_holds pc'")
      case (Some i)
      then have "ins_holds pc = Some i" using that(4) by simp
      then have "key_at a i = lockedKey a" using j by simp
      then show ?thesis using Some that(1,2) by (simp add: same_frame_def)
    qed simp
    moreover have "case pc' of I_Unlock i n \<Rightarrow> value_at b i \<noteq> None | _ \<Rightarrow> True"
      using that(5) by (cases pc') auto
    ultimately show "job_ok F b (InsertJob k mv pc')"
      using l by (simp add: same_frame_legal [OF that(1)])
    show "job_holds (InsertJob k mv pc) = Some x" if "job_holds (InsertJob k mv pc') = Some x" for x
      using \<open>ins_holds pc' = None \<or> ins_holds pc' = ins_holds pc\<close> that by auto
  qed
  show ?thesis
  proof (cases pc)
    case (I_TryLock i n)
    show ?thesis
    proof (cases "key_at a i = emptyKey a")
      case True
      then have ns: "\<not> settled_cell a i \<or> lockedKey a = erasedKey a" by (simp add: settled_cell_def)
      have kp: "keeps_cells a (set_key i (lockedKey a) a)" by (rule key_change_keeps [OF wf ns])
      have "keys_ok F (set_key i (lockedKey a) a)"
        by (rule set_key_keys_ok [OF k wf ns]) (simp add: checkLegalKey_def)
      moreover have "reached F (set_key i (lockedKey a) a) k i n"
        using keeps_reached [OF kp wf l] pos I_TryLock by simp
      ultimately show ?thesis
        using kp st I_TryLock True l lt [of i n] wf
        by (auto simp: effect_ok_def same_frame_legal aha_wf_def checkLegalKey_def)
    next
      case False
      then have "b = a" "pc' = I_UnpendLost i n" using st I_TryLock by auto
      then show ?thesis by (intro same) (use pos I_TryLock in auto)
    qed
  next
    case (I_Construct i n)
    show ?thesis
    proof (cases mv)
      case (Some v)
      have kp: "keeps_cells a (set_value i v a)" by (rule value_change_keeps)
      have "keys_ok F (set_value i v a)" by (rule keeps_keys_ok [OF k wf]) auto
      moreover have "reached F (set_value i v a) k i n"
        using keeps_reached [OF kp wf l] pos I_Construct by simp
      ultimately show ?thesis
        using kp st I_Construct Some l lt [of i n] j
        by (auto simp: effect_ok_def checkLegalKey_def)
    next
      case None
      then have "b = a" "pc' = I_Rollback i n" using st I_Construct by auto
      then show ?thesis by (intro same) (use pos I_Construct in auto)
    qed
  next
    case (I_Unlock i n)
    have r: "reached F a k i n" using pos I_Unlock by simp
    have "key_at a i = lockedKey a" "value_at a i \<noteq> None" using j I_Unlock by auto
    then have ns: "\<not> settled_cell a i \<or> k = erasedKey a" by (simp add: settled_cell_def)
    have kp: "keeps_cells a (set_key i k a)" by (rule key_change_keeps [OF wf ns])
    have "keys_ok F (set_key i k a)"
      by (rule set_key_keys_ok [OF k wf ns]) (use r \<open>value_at a i \<noteq> None\<close> in auto)
    then show ?thesis using kp st I_Unlock l by (auto simp: effect_ok_def checkLegalKey_def)
  next
    case (I_Rollback i n)
    have "key_at a i = lockedKey a" using j I_Rollback by auto
    then have ns: "\<not> settled_cell a i \<or> emptyKey a = erasedKey a" by (simp add: settled_cell_def)
    have kp: "keeps_cells a (set_key i (emptyKey a) a)" by (rule key_change_keeps [OF wf ns])
    have "keys_ok F (set_key i (emptyKey a) a)"
      by (rule set_key_keys_ok [OF k wf ns]) (simp add: checkLegalKey_def)
    then show ?thesis using kp st I_Rollback l by (auto simp: effect_ok_def checkLegalKey_def)
  next
    case (I_Compare i n)
    have r: "reached F a k i n" using pos I_Compare by simp
    have "reached F a k (probe (ProbeFcn F) i (Suc n) (aha_capacity a)) (Suc n)"
      if "key_at a i \<noteq> k" "key_at a i \<noteq> emptyKey a" "key_at a i \<noteq> lockedKey a" "\<not> aha_capacity a \<le> Suc n"
      using that by (intro reached_Suc [OF r]) (simp_all add: passed_def settled_cell_def)
    then show ?thesis by (intro same) (use st I_Compare r in \<open>auto split: if_splits\<close>)
  qed (intro same; use st pos in \<open>auto split: if_splits\<close>)+
qed

lemma find_effect:
  assumes k: "keys_ok F a" and wf: "aha_wf a" and j: "job_ok F a (FindJob k pc)"
  shows "effect_ok F a (FindJob k pc) a (FindJob k (find_step F k a pc))"
  by (rule effect_same_cells [OF k wf])
    (use j in \<open>auto simp: probe_lt split: find_pc.splits if_splits\<close>)

lemma erase_effect:
  assumes k: "keys_ok F a" and wf: "aha_wf a" and j: "job_ok F a (EraseJob k pc)"
    and st: "erase_step F k a pc = (b, pc')"
  shows "effect_ok F a (EraseJob k pc) b (EraseJob k pc')"
proof -
  have l: "checkLegalKey a k" using j by simp
  have same: "effect_ok F a (EraseJob k pc) b (EraseJob k pc')"
    if "same_frame a b" "\<And>x. key_at b x = key_at a x" "\<And>x. value_at b x = value_at a x"
      "job_ok F a (EraseJob k pc')" for b pc'
  proof (rule effect_same_cells [OF k wf that(1-3)])
    show "job_ok F b (EraseJob k pc')"
      using that(4) that(1) by (auto simp: same_frame_legal reached_same_cells [OF that(1,2)]
          split: erase_pc.splits) (simp add: same_frame_def)
  qed simp
  show ?thesis
  proof (cases pc)
    case (E_Load i n)
    have r: "reached F a k i n" using j E_Load by simp
    have "reached F a k (probe (ProbeFcn F) i (Suc n) (aha_capacity a)) (Suc n)"
      if "key_at a i \<noteq> k" "key_at a i \<noteq> emptyKey a" "key_at a i \<noteq> lockedKey a" "\<not> aha_capacity a \<le> Suc n"
      using that by (intro reached_Suc [OF r]) (simp_all add: passed_def settled_cell_def)
    moreover have "b = a" using st E_Load by simp
    ultimately show ?thesis
      by (intro same) (use st E_Load l reached_lt [OF wf r] in \<open>auto split: if_splits\<close>)
  next
    case (E_Cas i)
    show ?thesis
    proof (cases "key_at a i = k")
      case True
      have kp: "keeps_cells a (set_key i (erasedKey a) a)" by (rule key_change_keeps [OF wf]) simp
      have "keys_ok F (set_key i (erasedKey a) a)"
        by (rule set_key_keys_ok [OF k wf]) (auto simp: checkLegalKey_def)
      then show ?thesis using kp st E_Cas True l by (auto simp: effect_ok_def checkLegalKey_def)
    next
      case False
      then have "b = a" "pc' = E_Ret 0" using st E_Cas by auto
      then show ?thesis by (intro same) (use l in auto)
    qed
  next
    case E_Count
    then show ?thesis using st l by (intro same) auto
  next
    case (E_Ret r)
    then show ?thesis using st l by (intro same) auto
  qed
qed

lemma job_effect:
  assumes "keys_ok F a" "aha_wf a" "job_ok F a j" "job_step F th a j = (b, j')"
  shows "effect_ok F a j b j'"
proof (cases j)
  case Idle
  then show ?thesis using assms by (auto intro!: effect_same_cells)
next
  case (InsertJob k mv pc)
  then show ?thesis using assms ins_effect [OF assms(1,2)] by (auto split: prod.splits)
next
  case (FindJob k pc)
  then show ?thesis using assms find_effect [OF assms(1,2)] by auto
next
  case (EraseJob k pc)
  then show ?thesis using assms erase_effect [OF assms(1,2)] by (auto split: prod.splits)
qed

lemma job_ok_other:
  assumes "job_ok F a j" "keeps_cells a b" "aha_wf a"
    and same: "\<And>x. job_holds j = Some x \<Longrightarrow> key_at b x = key_at a x \<and> value_at b x = value_at a x"
  shows "job_ok F b j"
proof (cases j)
  case (InsertJob k mv pc)
  have f: "same_frame a b" using assms(2) by (simp add: keeps_cells_def)
  have l: "checkLegalKey a k" using assms(1) InsertJob by simp
  have "case ins_at pc of Some (i, n) \<Rightarrow> reached F b k i n | None \<Rightarrow> True"
    using assms(1) InsertJob keeps_reached [OF assms(2,3) l] by (auto split: option.splits)
  moreover have "case ins_holds pc of Some i \<Rightarrow> key_at b i = lockedKey b | None \<Rightarrow> True"
    using assms(1) same f InsertJob by (auto simp: same_frame_def split: option.splits)
  moreover have "case pc of I_Unlock i n \<Rightarrow> value_at b i \<noteq> None | _ \<Rightarrow> True"
    using assms(1) same InsertJob by (cases pc) auto
  ultimately show ?thesis using InsertJob l by (simp add: same_frame_legal [OF f])
next
  case (FindJob k pc)
  then show ?thesis using assms
    by (auto simp: keeps_cells_def same_frame_legal split: find_pc.splits) (simp_all add: same_frame_def)
next
  case (EraseJob k pc)
  have f: "same_frame a b" using assms(2) by (simp add: keeps_cells_def)
  have l: "checkLegalKey a k" using assms(1) EraseJob by simp
  have c: "aha_capacity b = aha_capacity a" using f by (simp add: same_frame_def)
  show ?thesis using assms(1) EraseJob keeps_reached [OF assms(2,3) l] c
    by (auto simp: same_frame_legal [OF f] split: erase_pc.splits)
qed simp

lemma aha_inv_update:
  assumes inv: "aha_inv F a js" and i: "i < length js" and eff: "effect_ok F a (js ! i) b j'"
  shows "aha_inv F b (js[i := j'])"
proof -
  have wf: "aha_wf a" and ok: "\<And>m. m < length js \<Longrightarrow> job_ok F a (js ! m)" and ex: "exclusive js"
    using inv by (simp_all add: aha_inv_def)
  have kp: "keeps_cells a b" and kb: "keys_ok F b" and jb: "job_ok F b j'" using eff by (simp_all add: effect_ok_def)
  have held: "key_at a x = lockedKey a" if "m < length js" "job_holds (js ! m) = Some x" for m x
    using ok [OF that(1)] that(2) by (cases "js ! m") (auto split: option.splits)
  have other: "job_ok F b (js ! m)" if m: "m < length js" "m \<noteq> i" for m
  proof (rule job_ok_other [OF ok [OF m(1)] kp wf])
    fix x assume x: "job_holds (js ! m) = Some x"
    have "job_holds (js ! i) \<noteq> Some x" using ex m i x unfolding exclusive_def by (metis option.distinct(1))
    then show "key_at b x = key_at a x \<and> value_at b x = value_at a x"
      using eff held [OF m(1) x] unfolding effect_ok_def by metis
  qed
  have nh: "job_holds (js ! m) \<noteq> job_holds j'" if "m < length js" "m \<noteq> i" "job_holds j' \<noteq> None" for m
  proof
    assume e: "job_holds (js ! m) = job_holds j'"
    obtain x where x: "job_holds j' = Some x" using \<open>job_holds j' \<noteq> None\<close> by blast
    have "key_at a x = lockedKey a" using held [of m x] e x \<open>m < length js\<close> by simp
    then have "job_holds (js ! i) = Some x" using eff x unfolding effect_ok_def by blast
    then show False using ex \<open>m < length js\<close> \<open>m \<noteq> i\<close> i x e
      unfolding exclusive_def by (metis option.distinct(1))
  qed
  have "exclusive (js[i := j'])"
    unfolding exclusive_def
  proof (intro allI impI)
    fix m n assume mn: "m < length (js[i := j'])" "n < length (js[i := j'])" "m \<noteq> n"
      "job_holds (js[i := j'] ! m) \<noteq> None"
    show "job_holds (js[i := j'] ! m) \<noteq> job_holds (js[i := j'] ! n)"
    proof (cases "m = i")
      case True then show ?thesis using nh [of n] mn i by auto
    next
      case False
      have e: "job_holds (js ! m) \<noteq> job_holds (js ! n)"
        using ex mn False unfolding exclusive_def by simp
      show ?thesis
      proof (cases "n = i")
        case True then show ?thesis using nh [of m] mn False i by auto
      next
        case n: False then show ?thesis using e False by simp
      qed
    qed
  qed
  moreover have "aha_wf b" using wf kp by (simp add: keeps_cells_def same_frame_wf [of a b])
  ultimately show ?thesis using kb jb other i by (auto simp: aha_inv_def nth_list_update)
qed

lemma start_ok:
  assumes "aha_wf a" "checkLegalKey a k" "j \<in> {start_insert F a k mv, start_find F a k, start_erase F a k}"
  shows "job_ok F a j" "job_holds j = None"
  using assms reached_0 [OF assms(1), of F k] reached_lt [OF assms(1) reached_0 [OF assms(1)], of F k]
  by (auto simp: start_insert_def start_find_def start_erase_def aha_wf_def)

lemma aha_inv_step:
  assumes "aha_inv F a js" "aha_step F (a, js) (b, js')"
  shows "aha_inv F b js'"
proof -
  have wf: "aha_wf a" "keys_ok F a" using assms(1) by (simp_all add: aha_inv_def)
  from assms(2) show ?thesis
  proof (cases rule: aha_step.cases)
    case (run i j)
    then have "effect_ok F a (js ! i) b j"
      using assms(1) by (intro job_effect [of F a "js ! i" i]) (auto simp: aha_inv_def)
    then show ?thesis using run aha_inv_update [OF assms(1)] by simp
  next
    case (call i k j mv)
    have "effect_ok F a (js ! i) a j"
      by (rule effect_same_cells [OF wf(2,1)]) (use start_ok [OF wf(1) call(5,6)] in auto)
    then show ?thesis using call aha_inv_update [OF assms(1) call(3)] by simp
  qed
qed

end
