(* ===== verification/Hash_Array_Safe.thy ===== *)
theory Hash_Array_Safe imports Hash_Array_Inv begin

text \<open>
  What holds of the atomic hash array in every interleaving: a key is stored at most once, and
  once no operation is running the size the array reports is the number of keys it stores. The
  size is the counter of entries less the counter of erases; an insertion that has published
  its key and an erasure that has taken one are accounted for until they have counted it.
\<close>

subsection \<open>The size\<close>

definition aha_size :: "('k, 'v) aha \<Rightarrow> 64 word" where
  "aha_size a = tci_readFull (numEntries a) - numErases a"

definition aha_empty :: "('k, 'v) aha \<Rightarrow> bool" where
  "aha_empty a \<longleftrightarrow> aha_size a = 0"

definition stored :: "('k, 'v) aha \<Rightarrow> 64 word" where
  "stored a = sum_list (map (\<lambda>c. if checkLegalKey a (fst c) then 1 else 0) (aha_cells a))"

fun owed :: "('k, 'v) job \<Rightarrow> 64 word" where
  "owed (InsertJob k mv pc) = (case pc of I_UnpendOk _ \<Rightarrow> 1 | I_Count _ \<Rightarrow> 1 | _ \<Rightarrow> 0)"
| "owed (EraseJob k pc) = (case pc of E_Count \<Rightarrow> -1 | _ \<Rightarrow> 0)"
| "owed _ = 0"

definition size_ok :: "('k, 'v) aha \<Rightarrow> ('k, 'v) job list \<Rightarrow> bool" where
  "size_ok a js \<longleftrightarrow> length js \<le> tci_threads (numEntries a) \<and>
    stored a = aha_size a + sum_list (map owed js)"

lemma sum_list_all_zero: "(\<And>x. x \<in> set xs \<Longrightarrow> f x = 0) \<Longrightarrow> sum_list (map f xs) = (0 :: 64 word)"
  by (induction xs) auto

lemma legal_set [simp]:
  "checkLegalKey (set_key i x a) k = checkLegalKey a k" "checkLegalKey (set_value i v a) k = checkLegalKey a k"
  by (simp_all add: checkLegalKey_def)

lemma legal_fields [simp]:
  "checkLegalKey (a\<lparr> numPending := p \<rparr>) k = checkLegalKey a k"
  "checkLegalKey (a\<lparr> numEntries := p \<rparr>) k = checkLegalKey a k"
  "checkLegalKey (a\<lparr> isFull := f \<rparr>) k = checkLegalKey a k"
  "checkLegalKey (a\<lparr> numErases := e \<rparr>) k = checkLegalKey a k"
  by (simp_all add: checkLegalKey_def)

lemma stored_set_key:
  assumes "i < length (aha_cells a)"
  shows "stored (set_key i x a) = stored a + (if checkLegalKey a x then 1 else 0) -
    (if checkLegalKey a (key_at a i) then 1 else 0)"
proof -
  let ?f = "\<lambda>c :: 'a \<times> 'b option. (if checkLegalKey a (fst c) then 1 else 0) :: 64 word"
  have "stored (set_key i x a) = sum_list (map ?f ((aha_cells a)[i := (x, value_at a i)]))"
    by (simp add: stored_def) (simp add: set_key_def)
  also have "\<dots> = sum_list ((map ?f (aha_cells a))[i := ?f (x, value_at a i)])"
    by (simp only: map_update)
  also have "\<dots> = stored a + (?f (x, value_at a i) - map ?f (aha_cells a) ! i)"
    using assms by (subst sum_list_update_word) (simp_all add: stored_def)
  finally show ?thesis using assms by (simp add: key_at_def)
qed

lemma stored_set_value: "stored (set_value i v a) = stored a"
proof (cases "i < length (aha_cells a)")
  case True
  let ?f = "\<lambda>c :: 'a \<times> 'b option. (if checkLegalKey a (fst c) then 1 else 0) :: 64 word"
  have "stored (set_value i v a) = sum_list (map ?f ((aha_cells a)[i := (key_at a i, Some v)]))"
    by (simp add: stored_def) (simp add: set_value_def)
  also have "\<dots> = sum_list ((map ?f (aha_cells a))[i := ?f (key_at a i, Some v)])"
    by (simp only: map_update)
  also have "\<dots> = stored a"
    using True by (subst sum_list_update_word) (simp_all add: stored_def key_at_def)
  finally show ?thesis .
next
  case False
  then show ?thesis by (simp add: stored_def) (simp add: set_value_def list_update_beyond)
qed

lemma stored_fields [simp]:
  "stored (a\<lparr> numPending := p \<rparr>) = stored a" "stored (a\<lparr> numEntries := t \<rparr>) = stored a"
  "stored (a\<lparr> isFull := f \<rparr>) = stored a" "stored (a\<lparr> numErases := e \<rparr>) = stored a"
  by (simp_all add: stored_def)

lemma job_size:
  assumes wf: "aha_wf a" and j: "job_ok F a j" and th: "th < tci_threads (numEntries a)"
    and st: "job_step F th a j = (b, j')"
  shows "stored b - aha_size b - owed j' = stored a - aha_size a - owed j"
    "tci_threads (numEntries b) = tci_threads (numEntries a)"
proof -
  have special: "\<not> checkLegalKey a (emptyKey a)" "\<not> checkLegalKey a (lockedKey a)"
    "\<not> checkLegalKey a (erasedKey a)" by (simp_all add: checkLegalKey_def)
  note sz = stored_set_key stored_set_value aha_size_def special
  have "stored b - aha_size b - owed j' = stored a - aha_size a - owed j \<and>
    tci_threads (numEntries b) = tci_threads (numEntries a)"
  proof (cases j)
    case Idle then show ?thesis using st by auto
  next
    case (FindJob k pc) then show ?thesis using st by auto
  next
    case (EraseJob k pc)
    then have l: "checkLegalKey a k" using j by simp
    show ?thesis
      using st EraseJob j l wf th by (cases pc) (auto simp: sz aha_wf_def split: if_splits)
  next
    case (InsertJob k mv pc)
    then have l: "checkLegalKey a k" using j by simp
    have lt: "i < length (aha_cells a)" if "ins_at pc = Some (i, n)" for i n
      using reached_lt [OF wf, of F k i n] j InsertJob that by simp
    show ?thesis
      using st InsertJob j l lt th by (cases pc) (auto simp: sz split: if_splits option.splits)
  qed
  then show "stored b - aha_size b - owed j' = stored a - aha_size a - owed j"
    "tci_threads (numEntries b) = tci_threads (numEntries a)" by blast+
qed

lemma size_ok_step:
  assumes inv: "aha_inv F a js" and sz: "size_ok a js" and st: "aha_step F (a, js) (b, js')"
  shows "size_ok b js'"
  using st
proof (cases rule: aha_step.cases)
  case (run i j)
  have th: "i < tci_threads (numEntries a)" using sz run(2) by (simp add: size_ok_def)
  have "aha_wf a" "job_ok F a (js ! i)" using inv run(2) by (simp_all add: aha_inv_def)
  note js = job_size [OF this th run(4)]
  have "sum_list (map owed js') = sum_list (map owed js) + (owed j - owed (js ! i))"
    using run by (simp add: map_update sum_list_update_word)
  moreover have "stored b = aha_size b + (stored a - aha_size a) + (owed j - owed (js ! i))"
    using js(1) by (simp add: algebra_simps)
  ultimately show ?thesis using sz js(2) run by (simp add: size_ok_def)
next
  case (call i k j mv)
  have "owed (js ! i) = 0" using call(4)
    by (cases "js ! i") (auto split: ins_pc.splits erase_pc.splits)
  moreover have "owed j = 0" using call(6) by (auto simp: start_insert_def start_find_def start_erase_def)
  moreover have "sum_list (map owed js') = sum_list (map owed js) + (owed j - owed (js ! i))"
    using call by (simp add: map_update sum_list_update_word)
  ultimately show ?thesis using sz call by (simp add: size_ok_def)
qed

subsection \<open>Reachable states\<close>

definition aha_start :: "('k, 'v) aha \<Rightarrow> ('k, 'v) job list \<Rightarrow> bool" where
  "aha_start a js \<longleftrightarrow> aha_wf a \<and> list_all (\<lambda>c. fst c = emptyKey a) (aha_cells a) \<and>
    aha_size a = 0 \<and> length js \<le> tci_threads (numEntries a) \<and> list_all (\<lambda>j. j = Idle) js"

lemma aha_start_inv:
  assumes "aha_start a js"
  shows "aha_inv F a js" "size_ok a js"
proof -
  have e: "key_at a i = emptyKey a" if "i < aha_capacity a" for i
    using assms that by (auto simp: aha_start_def aha_wf_def list_all_length key_at_def)
  have idle: "js ! i = Idle" if "i < length js" for i
    using assms that by (auto simp: aha_start_def list_all_length)
  show "aha_inv F a js"
    using assms e idle by (auto simp: aha_inv_def keys_ok_def checkLegalKey_def exclusive_def aha_start_def)
  have "stored a = 0" unfolding stored_def
    by (rule sum_list_all_zero) (use assms in \<open>auto simp: aha_start_def list_all_iff checkLegalKey_def\<close>)
  moreover have "sum_list (map owed js) = 0"
    by (rule sum_list_all_zero) (use assms in \<open>auto simp: aha_start_def list_all_iff\<close>)
  ultimately show "size_ok a js" using assms by (simp add: size_ok_def aha_start_def)
qed

lemma aha_reach_inv:
  assumes "(aha_step F)\<^sup>*\<^sup>* (a, js) (b, js')" "aha_start a js"
  shows "aha_inv F b js' \<and> size_ok b js'"
  using assms(1)
proof (induction "(b, js')" arbitrary: b js' rule: rtranclp_induct)
  case base
  then show ?case using aha_start_inv [OF assms(2)] by simp
next
  case (step y)
  obtain c cs where y: "y = (c, cs)" by (cases y)
  have i: "aha_inv F c cs" "size_ok c cs" using step(3) [OF y] by simp_all
  have st: "aha_step F (c, cs) (b, js')" using step(2) y by simp
  show ?case using aha_inv_step [OF i(1) st] size_ok_step [OF i st] by simp
qed

end
