(* ===== verification/Hash_Array_Run.thy ===== *)
theory Hash_Array_Run imports Hash_Array_Safe begin

text \<open>
  An operation of the atomic hash array that runs alone: the steps of its thread are iterated until
  it returns, and None is a run that never does. Started in a state without locked cells and
  without pending entries, every operation returns, and it acts on the abstract map the array stores
  as a partial function from keys to values.
\<close>

subsection \<open>Running one thread\<close>

partial_function (option) run_job ::
  "'k aha_fns \<Rightarrow> nat \<Rightarrow> ('k, 'v) aha \<Rightarrow> ('k, 'v) job \<Rightarrow> (('k, 'v) aha \<times> ('k, 'v) job) option" where
  "run_job F th a j = (if job_over j then Some (a, j)
     else (case job_step F th a j of (a', j') \<Rightarrow> run_job F th a' j'))"

declare run_job.simps [code]

datatype simple_ret = SimpleRet nat bool | Thrown

fun ins_ret :: "ins_pc \<Rightarrow> simple_ret" where
  "ins_ret (I_Ret i b) = SimpleRet i b"
| "ins_ret _ = Thrown"

definition aha_insertInternal ::
  "'k aha_fns \<Rightarrow> nat \<Rightarrow> ('k, 'v) aha \<Rightarrow> 'k \<Rightarrow> 'v option \<Rightarrow> (('k, 'v) aha \<times> simple_ret) option" where
  "aha_insertInternal F th a k mv = (case run_job F th a (start_insert F a k mv) of
      Some (b, InsertJob _ _ pc) \<Rightarrow> Some (b, ins_ret pc) | _ \<Rightarrow> None)"

definition aha_findInternal :: "'k aha_fns \<Rightarrow> nat \<Rightarrow> ('k, 'v) aha \<Rightarrow> 'k \<Rightarrow> (nat \<times> bool) option" where
  "aha_findInternal F th a k = (case run_job F th a (start_find F a k) of
      Some (_, FindJob _ (F_Ret i b)) \<Rightarrow> Some (i, b) | _ \<Rightarrow> None)"

definition aha_erase :: "'k aha_fns \<Rightarrow> nat \<Rightarrow> ('k, 'v) aha \<Rightarrow> 'k \<Rightarrow> (('k, 'v) aha \<times> nat) option" where
  "aha_erase F th a k = (case run_job F th a (start_erase F a k) of
      Some (b, EraseJob _ (E_Ret r)) \<Rightarrow> Some (b, r) | _ \<Rightarrow> None)"

lemma run_over: "job_over j \<Longrightarrow> run_job F th a j = Some (a, j)"
  by (subst run_job.simps) simp

lemma run_more: "\<not> job_over j \<Longrightarrow> job_step F th a j = (b, j') \<Longrightarrow> run_job F th a j = run_job F th b j'"
  by (subst run_job.simps) simp

lemma run_ins:
  "run_job F th a (InsertJob k mv (I_Ret i b)) = Some (a, InsertJob k mv (I_Ret i b))"
  "run_job F th a (InsertJob k mv I_Throw) = Some (a, InsertJob k mv I_Throw)"
  "run_job F th a (InsertJob k mv (I_Pend i n)) =
    run_job F th (a\<lparr> numPending := tci_increment th 1 (numPending a) \<rparr>) (InsertJob k mv (I_LoadFull i n))"
  "isFull a \<noteq> 0 \<Longrightarrow> run_job F th a (InsertJob k mv (I_LoadFull i n)) = run_job F th a (InsertJob k mv (I_UnpendFull i n))"
  "isFull a = 0 \<Longrightarrow> run_job F th a (InsertJob k mv (I_LoadFull i n)) = run_job F th a (InsertJob k mv (I_TryLock i n))"
  "run_job F th a (InsertJob k mv (I_UnpendFull i n)) =
    run_job F th (a\<lparr> numPending := tci_decrement th 1 (numPending a) \<rparr>) (InsertJob k mv (I_WaitFull i n))"
  "run_job F th a (InsertJob k mv (I_WaitFull i n)) =
    run_job F th a (InsertJob k mv (if isFull a \<noteq> 2 then I_WaitPending i n else I_StoreNoPending i n))"
  "tci_readFull (numPending a) = 0 \<Longrightarrow> run_job F th a (InsertJob k mv (I_WaitPending i n)) =
    run_job F th a (InsertJob k mv (I_StoreNoPending i n))"
  "run_job F th a (InsertJob k mv (I_StoreNoPending i n)) =
    run_job F th (a\<lparr> isFull := 2 \<rparr>) (InsertJob k mv (I_Recheck i n))"
  "key_at a i = emptyKey a \<Longrightarrow> run_job F th a (InsertJob k mv (I_Recheck i n)) =
    Some (a, InsertJob k mv (I_Ret (aha_capacity a) False))"
  "key_at a i = emptyKey a \<Longrightarrow> run_job F th a (InsertJob k mv (I_TryLock i n)) =
    run_job F th (set_key i (lockedKey a) a) (InsertJob k mv (I_Construct i n))"
  "run_job F th a (InsertJob k (Some v) (I_Construct i n)) =
    run_job F th (set_value i v a) (InsertJob k (Some v) (I_Unlock i n))"
  "run_job F th a (InsertJob k None (I_Construct i n)) = run_job F th a (InsertJob k None (I_Rollback i n))"
  "run_job F th a (InsertJob k mv (I_Unlock i n)) = run_job F th (set_key i k a) (InsertJob k mv (I_UnpendOk i))"
  "run_job F th a (InsertJob k mv (I_Rollback i n)) =
    run_job F th (set_key i (emptyKey a) a) (InsertJob k mv I_UnpendThrow)"
  "run_job F th a (InsertJob k mv I_UnpendThrow) =
    Some (a\<lparr> numPending := tci_decrement th 1 (numPending a) \<rparr>, InsertJob k mv I_Throw)"
  "run_job F th a (InsertJob k mv (I_UnpendOk i)) =
    run_job F th (a\<lparr> numPending := tci_decrement th 1 (numPending a) \<rparr>) (InsertJob k mv (I_Count i))"
  "run_job F th a (InsertJob k mv (I_Count i)) =
    run_job F th (a\<lparr> numEntries := tci_increment th 1 (numEntries a) \<rparr>) (InsertJob k mv (I_CheckMax i))"
  "run_job F th a (InsertJob k mv (I_CheckMax i)) =
    Some (if unat (tci_readFast (numEntries a)) \<ge> maxEntries a then a\<lparr> isFull := 1 \<rparr> else a,
      InsertJob k mv (I_Ret i True))"
  "key_at a i \<noteq> lockedKey a \<Longrightarrow> run_job F th a (InsertJob k mv (I_TestLocked i n)) =
    run_job F th a (InsertJob k mv (I_Compare i n))"
  by (simp_all add: run_job.simps)

lemma run_ins_load:
  "key_at a i = emptyKey a \<Longrightarrow> run_job F th a (InsertJob k mv (I_Load i n)) =
    run_job F th a (InsertJob k mv (I_Pend i n))"
  "key_at a i \<noteq> emptyKey a \<Longrightarrow> run_job F th a (InsertJob k mv (I_Load i n)) =
    run_job F th a (InsertJob k mv (I_TestLocked i n))"
  by (subst run_job.simps, simp)+

lemma run_ins_compare:
  "key_at a i = k \<Longrightarrow> run_job F th a (InsertJob k mv (I_Compare i n)) = Some (a, InsertJob k mv (I_Ret i False))"
  "passed a k i \<Longrightarrow> aha_capacity a \<le> Suc n \<Longrightarrow> run_job F th a (InsertJob k mv (I_Compare i n)) =
    Some (a, InsertJob k mv (I_Ret (aha_capacity a) False))"
  "passed a k i \<Longrightarrow> Suc n < aha_capacity a \<Longrightarrow> run_job F th a (InsertJob k mv (I_Compare i n)) =
    run_job F th a (InsertJob k mv (I_Load (probe (ProbeFcn F) i (Suc n) (aha_capacity a)) (Suc n)))"
  by (subst run_job.simps, simp add: passed_def settled_cell_def run_over)+

subsection \<open>Keys that are not there\<close>

definition key_absent :: "('k, 'v) aha \<Rightarrow> 'k \<Rightarrow> bool" where
  "key_absent a k \<longleftrightarrow> (\<forall>i < aha_capacity a. key_at a i \<noteq> k)"

definition aha_seq :: "'k aha_fns \<Rightarrow> nat \<Rightarrow> ('k, 'v) aha \<Rightarrow> bool" where
  "aha_seq F th a \<longleftrightarrow> aha_wf a \<and> keys_ok F a \<and> (\<forall>i < aha_capacity a. key_at a i \<noteq> lockedKey a) \<and>
    tci_readFull (numPending a) = 0 \<and> th < tci_threads (numPending a) \<and> th < tci_threads (numEntries a)"

lemma absent_empty:
  assumes "aha_seq F th a" "checkLegalKey a k" "reached F a k i n" "key_at a i = emptyKey a"
  shows "key_absent a k"
  unfolding key_absent_def
proof (intro allI impI notI)
  fix j assume j: "j < aha_capacity a" "key_at a j = k"
  then obtain m where m: "reached F a k j m"
    using assms(1,2) by (auto simp: aha_seq_def keys_ok_def)
  consider "m < n" | "m = n" | "n < m" by linarith
  then show False
  proof cases
    case 1
    then have "passed a k (path F a k m)" using assms(3) by (simp add: reached_def)
    then show False using m j by (simp add: reached_def passed_def)
  next
    case 2
    then have "i = j" using m assms(3) by (simp add: reached_def)
    then show False using j assms(2,4) by (simp add: checkLegalKey_def)
  next
    case 3
    then have "passed a k (path F a k n)" using m by (simp add: reached_def)
    then show False using assms(3,4) by (simp add: reached_def passed_def settled_cell_def)
  qed
qed

lemma all_passed:
  assumes "reached F a k i n" "passed a k i" "aha_capacity a \<le> Suc n" "m < aha_capacity a"
  shows "passed a k (path F a k m)"
proof (cases "m = n")
  case True then show ?thesis using assms by (simp add: reached_def)
next
  case False
  then have "m < n" using assms by simp
  then show ?thesis using assms(1) by (simp add: reached_def)
qed

lemma absent_all:
  assumes "aha_seq F th a" "checkLegalKey a k" "reached F a k i n" "passed a k i" "aha_capacity a \<le> Suc n"
  shows "key_absent a k"
  unfolding key_absent_def
proof (intro allI impI notI)
  fix j assume j: "j < aha_capacity a" "key_at a j = k"
  then obtain m where m: "reached F a k j m"
    using assms(1,2) by (auto simp: aha_seq_def keys_ok_def)
  then have "passed a k (path F a k m)"
    by (intro all_passed [OF assms(3-5)]) (simp add: reached_def)
  then show False using m j by (simp add: reached_def passed_def)
qed

lemma cell_cases:
  assumes "aha_seq F th a" "reached F a k i n"
  obtains "key_at a i = k" | "key_at a i \<noteq> k" "key_at a i = emptyKey a" | "key_at a i \<noteq> k" "passed a k i"
  using assms reached_lt [of a F k i n] by (auto simp: aha_seq_def passed_def settled_cell_def)

subsection \<open>Lookup and removal\<close>

lemma find_run:
  assumes "aha_seq F th a" "checkLegalKey a k" "reached F a k i n"
  shows "\<exists>x b. run_job F th a (FindJob k (F_Load i n)) = Some (a, FindJob k (F_Ret x b)) \<and>
    (if b then x < aha_capacity a \<and> key_at a x = k else x = aha_capacity a \<and> key_absent a k)"
  using assms(3)
proof (induction "aha_capacity a - n" arbitrary: i n rule: less_induct)
  case less
  note r = less.prems
  have nk: "emptyKey a \<noteq> k" using assms(2) by (auto simp: checkLegalKey_def)
  have lt: "i < aha_capacity a" using reached_lt [OF _ r] assms(1) by (simp add: aha_seq_def)
  have n: "n < aha_capacity a" using r by (simp add: reached_def)
  show ?case
  proof (cases rule: cell_cases [OF assms(1) r])
    case 1
    then show ?thesis using lt
      by (simp add: run_more [of "FindJob k (F_Load i n)"] run_over ex_bool_eq)
  next
    case 2
    then show ?thesis using absent_empty [OF assms(1,2) r]
      by (simp add: run_more [of "FindJob k (F_Load i n)"] run_over ex_bool_eq)
  next
    case 3
    then have ne: "key_at a i \<noteq> emptyKey a" by (simp add: passed_def settled_cell_def)
    show ?thesis
    proof (cases "Suc n < aha_capacity a")
      case True
      let ?p = "probe (ProbeFcn F) i (Suc n) (aha_capacity a)"
      have "run_job F th a (FindJob k (F_Load i n)) = run_job F th a (FindJob k (F_Load ?p (Suc n)))"
        using 3 True ne by (intro run_more) simp_all
      moreover have "aha_capacity a - Suc n < aha_capacity a - n" using n by simp
      ultimately show ?thesis using less.hyps [OF _ reached_Suc [OF r 3(2) True]] by simp
    next
      case False
      then show ?thesis using 3 ne absent_all [OF assms(1,2) r 3(2)]
        by (simp add: run_more [of "FindJob k (F_Load i n)"] run_over ex_bool_eq)
    qed
  qed
qed

lemma aha_findInternal_spec:
  assumes "aha_seq F th a" "checkLegalKey a k"
  shows "\<exists>x b. aha_findInternal F th a k = Some (x, b) \<and>
    (if b then x < aha_capacity a \<and> key_at a x = k else x = aha_capacity a \<and> key_absent a k)"
proof -
  have "reached F a k (anchor F a k) 0" using assms(1) by (intro reached_0) (simp add: aha_seq_def)
  from find_run [OF assms this] obtain x b where
    r: "run_job F th a (FindJob k (F_Load (anchor F a k) 0)) = Some (a, FindJob k (F_Ret x b))"
    and xb: "if b then x < aha_capacity a \<and> key_at a x = k else x = aha_capacity a \<and> key_absent a k"
    by blast
  have "aha_findInternal F th a k = Some (x, b)" by (simp add: aha_findInternal_def start_find_def r)
  with xb show ?thesis by blast
qed

lemma erase_run:
  assumes "aha_seq F th a" "checkLegalKey a k" "reached F a k i n"
  shows "\<exists>b r. run_job F th a (EraseJob k (E_Load i n)) = Some (b, EraseJob k (E_Ret r)) \<and>
    (r = 0 \<and> b = a \<and> key_absent a k \<or>
     r = 1 \<and> (\<exists>x < aha_capacity a. key_at a x = k \<and>
       b = (set_key x (erasedKey a) a)\<lparr> numErases := numErases a + 1 \<rparr>))"
  using assms(3)
proof (induction "aha_capacity a - n" arbitrary: i n rule: less_induct)
  case less
  note r = less.prems
  have nk: "emptyKey a \<noteq> k" "lockedKey a \<noteq> k" using assms(2) by (auto simp: checkLegalKey_def)
  have lt: "i < aha_capacity a" using reached_lt [OF _ r] assms(1) by (simp add: aha_seq_def)
  have n: "n < aha_capacity a" using r by (simp add: reached_def)
  have nl: "key_at a i \<noteq> lockedKey a" using lt assms(1) by (simp add: aha_seq_def)
  show ?case
  proof (cases rule: cell_cases [OF assms(1) r])
    case 1
    have "run_job F th a (EraseJob k (E_Load i n)) = run_job F th a (EraseJob k (E_Cas i))"
      using 1 nk by (intro run_more) auto
    also have "\<dots> = run_job F th (set_key i (erasedKey a) a) (EraseJob k E_Count)"
      using 1 by (intro run_more) auto
    also have "\<dots> = Some ((set_key i (erasedKey a) a)\<lparr> numErases := numErases a + 1 \<rparr>, EraseJob k (E_Ret 1))"
      by (simp add: run_more [of "EraseJob k E_Count"] run_over)
    finally show ?thesis using 1 lt by auto
  next
    case 2
    then show ?thesis using absent_empty [OF assms(1,2) r]
      by (simp add: run_more [of "EraseJob k (E_Load i n)"] run_over)
  next
    case 3
    then have ne: "key_at a i \<noteq> emptyKey a" by (simp add: passed_def settled_cell_def)
    show ?thesis
    proof (cases "Suc n < aha_capacity a")
      case True
      let ?p = "probe (ProbeFcn F) i (Suc n) (aha_capacity a)"
      have "run_job F th a (EraseJob k (E_Load i n)) = run_job F th a (EraseJob k (E_Load ?p (Suc n)))"
        using 3 True ne nl by (intro run_more) simp_all
      moreover have "aha_capacity a - Suc n < aha_capacity a - n" using n by simp
      ultimately show ?thesis using less.hyps [OF _ reached_Suc [OF r 3(2) True]] by simp
    next
      case False
      then show ?thesis using 3 ne nl absent_all [OF assms(1,2) r 3(2)]
        by (simp add: run_more [of "EraseJob k (E_Load i n)"] run_over)
    qed
  qed
qed

lemma aha_erase_spec:
  assumes "aha_seq F th a" "checkLegalKey a k"
  shows "\<exists>b r. aha_erase F th a k = Some (b, r) \<and>
    (r = 0 \<and> b = a \<and> key_absent a k \<or>
     r = 1 \<and> (\<exists>x < aha_capacity a. key_at a x = k \<and>
       b = (set_key x (erasedKey a) a)\<lparr> numErases := numErases a + 1 \<rparr>))"
proof -
  have "reached F a k (anchor F a k) 0" using assms(1) by (intro reached_0) (simp add: aha_seq_def)
  from erase_run [OF assms this] obtain b r where
    r: "run_job F th a (EraseJob k (E_Load (anchor F a k) 0)) = Some (b, EraseJob k (E_Ret r))"
    and br: "r = 0 \<and> b = a \<and> key_absent a k \<or>
     r = 1 \<and> (\<exists>x < aha_capacity a. key_at a x = k \<and>
       b = (set_key x (erasedKey a) a)\<lparr> numErases := numErases a + 1 \<rparr>)"
    by blast
  have "aha_erase F th a k = Some (b, r)" by (simp add: aha_erase_def start_erase_def r)
  with br show ?thesis by blast
qed

subsection \<open>Insertion\<close>

definition aha_closed :: "'k aha_fns \<Rightarrow> ('k, 'v) aha \<Rightarrow> 'k \<Rightarrow> bool" where
  "aha_closed F a k \<longleftrightarrow> isFull a \<noteq> 0 \<or> (\<forall>n < aha_capacity a. key_at a (path F a k n) \<noteq> emptyKey a)"

text \<open>The outcomes of an insertion: the key was there, it is now, there is no room, the constructor threw.\<close>

definition ins_present :: "('k, 'v) aha \<Rightarrow> 'k \<Rightarrow> ('k, 'v) aha \<Rightarrow> ins_pc \<Rightarrow> bool" where
  "ins_present a k b pc \<longleftrightarrow> b = a \<and> (\<exists>i < aha_capacity a. key_at a i = k \<and> pc = I_Ret i False)"

definition ins_stored :: "'k aha_fns \<Rightarrow> nat \<Rightarrow> ('k, 'v) aha \<Rightarrow> 'k \<Rightarrow> 'v option \<Rightarrow> ('k, 'v) aha \<Rightarrow> ins_pc \<Rightarrow> bool" where
  "ins_stored F th a k mv b pc \<longleftrightarrow> key_absent a k \<and> isFull a = 0 \<and> (\<exists>i n. i < aha_capacity a \<and>
    reached F a k i n \<and> key_at a i = emptyKey a \<and> pc = I_Ret i True \<and> mv \<noteq> None \<and>
    same_frame a b \<and> aha_cells b = (aha_cells a)[i := (k, mv)] \<and> tci_readFull (numPending b) = 0 \<and>
    tci_threads (numPending b) = tci_threads (numPending a) \<and>
    numEntries b = tci_increment th 1 (numEntries a) \<and> numErases b = numErases a)"

definition ins_full :: "'k aha_fns \<Rightarrow> ('k, 'v) aha \<Rightarrow> 'k \<Rightarrow> ('k, 'v) aha \<Rightarrow> ins_pc \<Rightarrow> bool" where
  "ins_full F a k b pc \<longleftrightarrow> key_absent a k \<and> pc = I_Ret (aha_capacity a) False \<and> same_frame a b \<and>
    aha_cells b = aha_cells a \<and> tci_readFull (numPending b) = 0 \<and>
    tci_threads (numPending b) = tci_threads (numPending a) \<and>
    numEntries b = numEntries a \<and> numErases b = numErases a \<and> aha_closed F a k \<and> aha_closed F b k \<and>
    (isFull a \<noteq> 0 \<longrightarrow> isFull b \<noteq> 0)"

definition ins_threw :: "'k aha_fns \<Rightarrow> ('k, 'v) aha \<Rightarrow> 'k \<Rightarrow> 'v option \<Rightarrow> ('k, 'v) aha \<Rightarrow> ins_pc \<Rightarrow> bool" where
  "ins_threw F a k mv b pc \<longleftrightarrow> key_absent a k \<and> \<not> aha_closed F a k \<and> mv = None \<and> pc = I_Throw \<and> same_frame a b \<and>
    aha_cells b = aha_cells a \<and> tci_readFull (numPending b) = 0 \<and>
    tci_threads (numPending b) = tci_threads (numPending a) \<and>
    numEntries b = numEntries a \<and> numErases b = numErases a \<and> isFull b = isFull a"

definition ins_outcome :: "'k aha_fns \<Rightarrow> nat \<Rightarrow> ('k, 'v) aha \<Rightarrow> 'k \<Rightarrow> 'v option \<Rightarrow> ('k, 'v) aha \<Rightarrow> ins_pc \<Rightarrow> bool" where
  "ins_outcome F th a k mv b pc \<longleftrightarrow> ins_present a k b pc \<or> ins_stored F th a k mv b pc \<or>
    ins_full F a k b pc \<or> ins_threw F a k mv b pc"

lemma ins_at_empty:
  assumes seq: "aha_seq F th a" and l: "checkLegalKey a k" and r: "reached F a k i n"
    and e: "key_at a i = emptyKey a"
  shows "\<exists>b pc. run_job F th a (InsertJob k mv (I_Load i n)) = Some (b, InsertJob k mv pc) \<and>
    ins_outcome F th a k mv b pc"
proof -
  have ab: "key_absent a k" by (rule absent_empty [OF seq l r e])
  have wf: "aha_wf a" and p0: "tci_readFull (numPending a) = 0" and th: "th < tci_threads (numPending a)"
    using seq by (simp_all add: aha_seq_def)
  have lt: "i < aha_capacity a" "i < length (aha_cells a)" using reached_lt [OF wf r] by simp_all
  note run = run_ins run_ins_load
  have open_a: "\<not> aha_closed F a k" if "isFull a = 0"
    using r e that by (auto simp: aha_closed_def reached_def)
  show ?thesis
  proof (cases "isFull a = 0")
    case False
    obtain b where b: "run_job F th a (InsertJob k mv (I_Load i n)) =
        Some (b, InsertJob k mv (I_Ret (aha_capacity a) False))"
      "b = a\<lparr> numPending := tci_decrement th 1 (tci_increment th 1 (numPending a)), isFull := 2 \<rparr>"
      using False e p0 th by (cases "isFull a = 2") (simp_all add: run)
    have "ins_full F a k b (I_Ret (aha_capacity a) False)"
      using b(2) ab False p0 th
      by (simp add: ins_full_def aha_closed_def same_frame_def)
    then show ?thesis using b(1) unfolding ins_outcome_def by blast
  next
    case full: True
    show ?thesis
    proof (cases mv)
      case None
      define b where "b = (set_key i (emptyKey a) (set_key i (lockedKey a)
          (a\<lparr> numPending := tci_increment th 1 (numPending a) \<rparr>)))\<lparr>
            numPending := tci_decrement th 1 (tci_increment th 1 (numPending a)) \<rparr>"
      have run_b: "run_job F th a (InsertJob k mv (I_Load i n)) = Some (b, InsertJob k mv I_Throw)"
        using full e None by (simp add: run b_def)
      have "(emptyKey a, snd (aha_cells a ! i)) = aha_cells a ! i" using e by (simp add: key_at_def prod_eq_iff)
      then have "aha_cells b = aha_cells a"
        by (simp add: b_def set_key_def value_at_def lt list_update_same_conv)
      moreover have "same_frame a b" by (simp add: b_def same_frame_def set_key_def)
      ultimately have "ins_threw F a k mv b I_Throw"
        using ab None th p0 full open_a [OF full] by (simp add: ins_threw_def) (simp add: b_def)
      then show ?thesis using run_b unfolding ins_outcome_def by blast
    next
      case (Some v)
      define c where "c = (set_key i k (set_value i v (set_key i (lockedKey a)
          (a\<lparr> numPending := tci_increment th 1 (numPending a) \<rparr>))))\<lparr>
            numPending := tci_decrement th 1 (tci_increment th 1 (numPending a)),
            numEntries := tci_increment th 1 (numEntries a) \<rparr>"
      define b where "b = (if maxEntries a \<le> unat (tci_readFast (numEntries c)) then c\<lparr> isFull := 1 \<rparr> else c)"
      have run_b: "run_job F th a (InsertJob k mv (I_Load i n)) = Some (b, InsertJob k mv (I_Ret i True))"
        using full e Some by (simp add: run b_def c_def)
      have "aha_cells b = (aha_cells a)[i := (k, mv)]"
        by (simp add: b_def c_def set_key_def set_value_def value_at_def key_at_def Some lt)
      moreover have "same_frame a b" by (simp add: b_def c_def same_frame_def set_key_def set_value_def)
      moreover have "numPending b = tci_decrement th 1 (tci_increment th 1 (numPending a))"
        "numEntries b = tci_increment th 1 (numEntries a)" "numErases b = numErases a"
        by (simp_all add: b_def c_def)
      ultimately have "ins_stored F th a k mv b (I_Ret i True)"
        using ab full e r lt Some th p0 by (auto simp: ins_stored_def)
      then show ?thesis using run_b unfolding ins_outcome_def by blast
    qed
  qed
qed

lemma insert_run:
  assumes "aha_seq F th a" "checkLegalKey a k" "reached F a k i n"
  shows "\<exists>b pc. run_job F th a (InsertJob k mv (I_Load i n)) = Some (b, InsertJob k mv pc) \<and>
    ins_outcome F th a k mv b pc"
  using assms(3)
proof (induction "aha_capacity a - n" arbitrary: i n rule: less_induct)
  case less
  note r = less.prems
  have nk: "emptyKey a \<noteq> k" "lockedKey a \<noteq> k" using assms(2) by (auto simp: checkLegalKey_def)
  have wf: "aha_wf a" using assms(1) by (simp add: aha_seq_def)
  have lt: "i < aha_capacity a" using reached_lt [OF wf r] by simp
  have n: "n < aha_capacity a" using r by (simp add: reached_def)
  have nl: "key_at a i \<noteq> lockedKey a" using lt assms(1) by (simp add: aha_seq_def)
  show ?case
  proof (cases rule: cell_cases [OF assms(1) r])
    case 1
    then have "run_job F th a (InsertJob k mv (I_Load i n)) = Some (a, InsertJob k mv (I_Ret i False))"
      using nk by (simp add: run_ins run_ins_load run_ins_compare)
    moreover have "ins_present a k a (I_Ret i False)" using 1 lt by (auto simp: ins_present_def)
    ultimately show ?thesis unfolding ins_outcome_def by blast
  next
    case 2
    then show ?thesis using ins_at_empty [OF assms(1,2) r] by simp
  next
    case 3
    then have ne: "key_at a i \<noteq> emptyKey a" by (simp add: passed_def settled_cell_def)
    show ?thesis
    proof (cases "Suc n < aha_capacity a")
      case True
      let ?p = "probe (ProbeFcn F) i (Suc n) (aha_capacity a)"
      have "run_job F th a (InsertJob k mv (I_Load i n)) = run_job F th a (InsertJob k mv (I_Load ?p (Suc n)))"
        using 3 True ne nl by (simp add: run_ins run_ins_load run_ins_compare)
      moreover have "aha_capacity a - Suc n < aha_capacity a - n" using n by simp
      ultimately show ?thesis using less.hyps [OF _ reached_Suc [OF r 3(2) True]] by simp
    next
      case False
      then have "run_job F th a (InsertJob k mv (I_Load i n)) =
          Some (a, InsertJob k mv (I_Ret (aha_capacity a) False))"
        using 3 ne nl by (simp add: run_ins run_ins_load run_ins_compare)
      moreover have "key_at a (path F a k m) \<noteq> emptyKey a" if "m < aha_capacity a" for m
        using all_passed [OF r 3(2) _ that] False by (simp add: passed_def settled_cell_def)
      then have "aha_closed F a k" by (simp add: aha_closed_def)
      then have "ins_full F a k a (I_Ret (aha_capacity a) False)"
        using absent_all [OF assms(1,2) r 3(2)] False assms(1) by (simp add: ins_full_def aha_seq_def)
      ultimately show ?thesis unfolding ins_outcome_def by blast
    qed
  qed
qed

lemma aha_insert_spec:
  assumes "aha_seq F th a" "checkLegalKey a k"
  shows "\<exists>b pc. aha_insertInternal F th a k mv = Some (b, ins_ret pc) \<and> ins_outcome F th a k mv b pc"
proof -
  have "reached F a k (anchor F a k) 0" using assms(1) by (intro reached_0) (simp add: aha_seq_def)
  from insert_run [OF assms this] obtain b pc where
    r: "run_job F th a (InsertJob k mv (I_Load (anchor F a k) 0)) = Some (b, InsertJob k mv pc)"
    and o: "ins_outcome F th a k mv b pc" by blast
  have "aha_insertInternal F th a k mv = Some (b, ins_ret pc)"
    by (simp add: aha_insertInternal_def start_insert_def r)
  with o show ?thesis by blast
qed

end
