(* ===== verification/Table_Spec.thy ===== *)
theory Table_Spec imports Prelude begin

text \<open>
  The contract of a table that never overwrites: an insertion adds a key that is not there,
  leaves a key that is there alone, or finds no room; a removal says whether it removed anything. The
  lemma of the locale runs a sequence of operations against the abstract map and is proved once for
  all implementations.
\<close>

datatype ins_answer = Added | Present | NoRoom

datatype ('k, 'v) table_op = T_Insert 'k 'v | T_Find 'k | T_Erase 'k

datatype 'v table_answer = A_Insert ins_answer | A_Find "'v option" | A_Erase nat

text \<open>The abstract map after an operation that gave this answer, None if it may not give it.\<close>

fun abs_op :: "('k \<rightharpoonup> 'v) \<Rightarrow> ('k, 'v) table_op \<Rightarrow> 'v table_answer \<Rightarrow> ('k \<rightharpoonup> 'v) option" where
  "abs_op m (T_Insert k v) (A_Insert r) = (case r of
      Added \<Rightarrow> if m k = None then Some (m(k \<mapsto> v)) else None
    | Present \<Rightarrow> if m k = None then None else Some m
    | NoRoom \<Rightarrow> if m k = None then Some m else None)"
| "abs_op m (T_Find k) (A_Find r) = (if r = m k then Some m else None)"
| "abs_op m (T_Erase k) (A_Erase n) =
    (if n = (if m k = None then 0 else 1) then Some (m(k := None)) else None)"
| "abs_op m _ _ = None"

fun abs_run :: "('k \<rightharpoonup> 'v) \<Rightarrow> ('k, 'v) table_op list \<Rightarrow> 'v table_answer list \<Rightarrow> ('k \<rightharpoonup> 'v) option" where
  "abs_run m [] [] = Some m"
| "abs_run m (x # xs) (r # rs) = (case abs_op m x r of None \<Rightarrow> None | Some m' \<Rightarrow> abs_run m' xs rs)"
| "abs_run m _ _ = None"

fun op_key :: "('k, 'v) table_op \<Rightarrow> 'k" where
  "op_key (T_Insert k v) = k"
| "op_key (T_Find k) = k"
| "op_key (T_Erase k) = k"

text \<open>Running the operations of an implementation one after the other.\<close>

definition do_op where
  "do_op ins fnd era s x = (case x of
      T_Insert k v \<Rightarrow> map_option (\<lambda>(s', r). (s', A_Insert r)) (ins s k v)
    | T_Find k \<Rightarrow> map_option (\<lambda>r. (s, A_Find r)) (fnd s k)
    | T_Erase k \<Rightarrow> map_option (\<lambda>(s', n). (s', A_Erase n)) (era s k))"

fun do_ops where
  "do_ops ins fnd era s [] = Some (s, [])"
| "do_ops ins fnd era s (x # xs) = (case do_op ins fnd era s x of None \<Rightarrow> None | Some (s', r) \<Rightarrow>
     (case do_ops ins fnd era s' xs of None \<Rightarrow> None | Some (s'', rs) \<Rightarrow> Some (s'', r # rs)))"

locale table =
  fixes inv :: "'s \<Rightarrow> bool"
    and legal :: "'s \<Rightarrow> 'k \<Rightarrow> bool"
    and lookup :: "'s \<Rightarrow> 'k \<Rightarrow> 'v option"
    and ins :: "'s \<Rightarrow> 'k \<Rightarrow> 'v \<Rightarrow> ('s \<times> ins_answer) option"
    and fnd :: "'s \<Rightarrow> 'k \<Rightarrow> 'v option option"
    and era :: "'s \<Rightarrow> 'k \<Rightarrow> ('s \<times> nat) option"
  assumes ins_law: "inv s \<Longrightarrow> legal s k \<Longrightarrow> \<exists>s' r. ins s k v = Some (s', r) \<and> inv s' \<and> legal s' = legal s \<and>
      abs_op (lookup s) (T_Insert k v) (A_Insert r) = Some (lookup s')"
    and fnd_law: "inv s \<Longrightarrow> legal s k \<Longrightarrow> fnd s k = Some (lookup s k)"
    and era_law: "inv s \<Longrightarrow> legal s k \<Longrightarrow> \<exists>s' n. era s k = Some (s', n) \<and> inv s' \<and> legal s' = legal s \<and>
      abs_op (lookup s) (T_Erase k) (A_Erase n) = Some (lookup s')"
begin

lemma do_op_refines:
  assumes "inv s" "legal s (op_key x)"
  shows "\<exists>s' r. do_op ins fnd era s x = Some (s', r) \<and> inv s' \<and> legal s' = legal s \<and>
    abs_op (lookup s) x r = Some (lookup s')"
proof (cases x)
  case (T_Insert k v)
  then have "legal s k" using assms by simp
  from ins_law [OF assms(1) this, of v] obtain s' r where
    "ins s k v = Some (s', r)" "inv s'" "legal s' = legal s"
    "abs_op (lookup s) (T_Insert k v) (A_Insert r) = Some (lookup s')" by blast
  then show ?thesis using T_Insert by (intro exI [of _ s'] exI [of _ "A_Insert r"]) (simp add: do_op_def)
next
  case (T_Find k)
  then have "legal s k" using assms by simp
  from fnd_law [OF assms(1) this] show ?thesis using T_Find assms
    by (intro exI [of _ s] exI [of _ "A_Find (lookup s k)"]) (simp add: do_op_def)
next
  case (T_Erase k)
  then have "legal s k" using assms by simp
  from era_law [OF assms(1) this] obtain s' n where
    "era s k = Some (s', n)" "inv s'" "legal s' = legal s"
    "abs_op (lookup s) (T_Erase k) (A_Erase n) = Some (lookup s')" by blast
  then show ?thesis using T_Erase by (intro exI [of _ s'] exI [of _ "A_Erase n"]) (simp add: do_op_def)
qed

lemma do_ops_refine:
  assumes "inv s" "\<And>x. x \<in> set xs \<Longrightarrow> legal s (op_key x)"
  shows "\<exists>s' rs. do_ops ins fnd era s xs = Some (s', rs) \<and> inv s' \<and>
    abs_run (lookup s) xs rs = Some (lookup s')"
  using assms
proof (induction xs arbitrary: s)
  case Nil
  then show ?case by (intro exI [of _ s] exI [of _ "[]"]) simp
next
  case (Cons x xs)
  have "legal s (op_key x)" using Cons.prems(2) [of x] by simp
  from do_op_refines [OF Cons.prems(1) this] obtain s' r where
    1: "do_op ins fnd era s x = Some (s', r)" "inv s'" "legal s' = legal s"
    "abs_op (lookup s) x r = Some (lookup s')" by blast
  have "legal s' (op_key y)" if "y \<in> set xs" for y
    using Cons.prems(2) [of y] that 1(3) by simp
  from Cons.IH [OF 1(2) this] obtain s'' rs where
    2: "do_ops ins fnd era s' xs = Some (s'', rs)" "inv s''" "abs_run (lookup s') xs rs = Some (lookup s'')"
    by blast
  show ?case by (intro exI [of _ s''] exI [of _ "r # rs"]) (use 1 2 in simp)
qed

end

end
