(* ===== verification/Hash_Array_Map.thy ===== *)
theory Hash_Array_Map imports Hash_Array_Run Table_Spec begin

text \<open>
  The array as a table: the partial function its cells store, and the interpretation of the table
  contract on the array's operations run one at a time.
\<close>

subsection \<open>The map an array stores\<close>

definition aha_map :: "('k, 'v) aha \<Rightarrow> 'k \<Rightarrow> 'v option" where
  "aha_map a k = (if checkLegalKey a k then
     (case filter (\<lambda>i. key_at a i = k) [0..<aha_capacity a] of [] \<Rightarrow> None | i # _ \<Rightarrow> value_at a i) else None)"

definition aha_insert :: "'k aha_fns \<Rightarrow> nat \<Rightarrow> ('k, 'v) aha \<Rightarrow> 'k \<Rightarrow> 'v \<Rightarrow> (('k, 'v) aha \<times> ins_answer) option" where
  "aha_insert F th a k v = (case aha_insertInternal F th a k (Some v) of
      Some (b, SimpleRet i True) \<Rightarrow> Some (b, Added)
    | Some (b, SimpleRet i False) \<Rightarrow> Some (b, if i = aha_capacity a then NoRoom else Present)
    | _ \<Rightarrow> None)"

definition aha_find :: "'k aha_fns \<Rightarrow> nat \<Rightarrow> ('k, 'v) aha \<Rightarrow> 'k \<Rightarrow> 'v option option" where
  "aha_find F th a k = (case aha_findInternal F th a k of
      Some (i, b) \<Rightarrow> Some (if i = aha_capacity a then None else value_at a i) | None \<Rightarrow> None)"

lemma aha_map_absent: "key_absent a k \<Longrightarrow> aha_map a k = None"
proof -
  assume "key_absent a k"
  then have "filter (\<lambda>i. key_at a i = k) [0..<aha_capacity a] = []"
    by (auto simp: filter_empty_conv key_absent_def)
  then show ?thesis by (simp add: aha_map_def)
qed

lemma aha_map_at:
  assumes "keys_ok F a" "i < aha_capacity a" "key_at a i = k" "checkLegalKey a k"
  shows "aha_map a k = value_at a i" "aha_map a k \<noteq> None"
proof -
  obtain j js where f: "filter (\<lambda>i. key_at a i = k) [0..<aha_capacity a] = j # js"
    using assms(2,3) by (cases "filter (\<lambda>i. key_at a i = k) [0..<aha_capacity a]")
      (auto simp: filter_empty_conv)
  then have "j \<in> set (filter (\<lambda>i. key_at a i = k) [0..<aha_capacity a])" by simp
  then have "j < aha_capacity a" "key_at a j = k" by simp_all
  then have "j = i" using keys_unique [OF assms(1), of j i] assms by simp
  then show m: "aha_map a k = value_at a i" using f assms(4) by (simp add: aha_map_def)
  show "aha_map a k \<noteq> None" using assms m by (simp add: keys_ok_def)
qed

lemma aha_map_Some:
  assumes "keys_ok F a"
  shows "aha_map a k = Some v \<longleftrightarrow> checkLegalKey a k \<and>
    (\<exists>i < aha_capacity a. key_at a i = k \<and> value_at a i = Some v)"
proof
  assume m: "aha_map a k = Some v"
  then have l: "checkLegalKey a k" by (simp add: aha_map_def split: if_splits)
  have "\<not> key_absent a k" using m aha_map_absent [of a k] by auto
  then obtain i where i: "i < aha_capacity a" "key_at a i = k" by (auto simp: key_absent_def)
  then have "value_at a i = Some v" using aha_map_at(1) [OF assms i l] m by simp
  then show "checkLegalKey a k \<and> (\<exists>i < aha_capacity a. key_at a i = k \<and> value_at a i = Some v)"
    using l i by blast
next
  assume "checkLegalKey a k \<and> (\<exists>i < aha_capacity a. key_at a i = k \<and> value_at a i = Some v)"
  then show "aha_map a k = Some v" using aha_map_at(1) [OF assms] by auto
qed

lemma map_eqI: "(\<And>k v. m k = Some v \<longleftrightarrow> m' k = Some v) \<Longrightarrow> m = m'"
  by (rule ext) (metis not_Some_eq)

lemma aha_map_same_cells:
  assumes "same_frame a b" "aha_cells b = aha_cells a"
  shows "aha_map b = aha_map a"
proof (rule ext)
  fix k
  have "key_at b = key_at a" "value_at b = value_at a" "aha_capacity b = aha_capacity a"
    using assms by (auto simp: fun_eq_iff key_at_def value_at_def same_frame_def)
  then show "aha_map b k = aha_map a k"
    unfolding aha_map_def same_frame_legal [OF assms(1)] by (simp only:)
qed

subsection \<open>The operations keep the array well formed\<close>

lemma seq_same_cells:
  assumes "aha_seq F th a" "same_frame a b" "aha_cells b = aha_cells a" "tci_readFull (numPending b) = 0"
    "tci_threads (numPending b) = tci_threads (numPending a)" "tci_threads (numEntries b) = tci_threads (numEntries a)"
  shows "aha_seq F th b"
proof -
  have c: "key_at b x = key_at a x" "value_at b x = value_at a x" for x
    using assms(3) by (simp_all add: key_at_def value_at_def)
  have "keys_ok F b"
    by (rule keeps_keys_ok [OF _ _ assms(2)]) (use assms(1) c in \<open>auto simp: aha_seq_def\<close>)
  moreover have "aha_wf b" using assms(1) same_frame_wf [OF assms(2)] by (simp add: aha_seq_def)
  moreover have "aha_capacity b = aha_capacity a" "lockedKey b = lockedKey a"
    using assms(2) by (simp_all add: same_frame_def)
  ultimately show ?thesis using assms c by (simp add: aha_seq_def)
qed

lemma stored_seq:
  assumes "aha_seq F th a" "checkLegalKey a k" "ins_stored F th a k (Some v) b pc"
  shows "aha_seq F th b" "aha_map b = (aha_map a)(k \<mapsto> v)" "aha_map a k = None"
proof -
  obtain i n where i: "i < aha_capacity a" "reached F a k i n" "key_at a i = emptyKey a"
    and f: "same_frame a b" and c: "aha_cells b = (aha_cells a)[i := (k, Some v)]"
    and p: "tci_readFull (numPending b) = 0" "tci_threads (numPending b) = tci_threads (numPending a)"
      "numEntries b = tci_increment th 1 (numEntries a)" and ab: "key_absent a k"
    using assms(3) unfolding ins_stored_def by blast
  have wf: "aha_wf a" and ka: "keys_ok F a" using assms(1) by (simp_all add: aha_seq_def)
  have lt: "i < length (aha_cells a)" using i(1) wf by (simp add: aha_wf_def)
  have kb: "key_at b x = (if x = i then k else key_at a x)"
    "value_at b x = (if x = i then Some v else value_at a x)" for x
    using lt by (simp_all add: key_at_def value_at_def c nth_update_any)
  have kp: "keeps_cells a b" using f i(3) kb by (auto simp: keeps_cells_def settled_cell_def)
  have kob: "keys_ok F b"
  proof (rule keys_ok_step [OF ka kp wf])
    fix x assume "x < aha_capacity a" "checkLegalKey a (key_at b x)"
    show "key_at b x = key_at a x \<and> (value_at b x = value_at a x \<or> value_at b x \<noteq> None) \<or>
        (\<exists>n. reached F a (key_at b x) x n) \<and> value_at b x \<noteq> None"
      using i(2) by (cases "x = i") (auto simp: kb)
  qed
  have cap: "aha_capacity b = aha_capacity a" "lockedKey b = lockedKey a"
    using f by (simp_all add: same_frame_def)
  show "aha_seq F th b"
    using assms(1,2) p kob cap same_frame_wf [OF f] by (auto simp: aha_seq_def kb checkLegalKey_def)
  show "aha_map a k = None" by (rule aha_map_absent [OF ab])
  have ne: "key_at a i \<noteq> k'" if "checkLegalKey a k'" for k' using that i(3) by (auto simp: checkLegalKey_def)
  show "aha_map b = (aha_map a)(k \<mapsto> v)"
  proof (rule map_eqI)
    fix k' w
    show "aha_map b k' = Some w \<longleftrightarrow> ((aha_map a)(k \<mapsto> v)) k' = Some w"
    proof (cases "k' = k")
      case True
      have "aha_map b k = value_at b i"
        using assms(2) i(1) cap by (intro aha_map_at(1) [OF kob]) (simp_all add: kb same_frame_legal [OF f])
      then show ?thesis using True by (simp add: kb)
    next
      case False
      have "key_at b j = k' \<and> value_at b j = Some w \<longleftrightarrow> key_at a j = k' \<and> value_at a j = Some w"
        if "checkLegalKey a k'" for j
        using ne [OF that] False by (cases "j = i") (auto simp: kb)
      then have "aha_map b k' = Some w \<longleftrightarrow> aha_map a k' = Some w"
        unfolding aha_map_Some [OF kob] aha_map_Some [OF ka] same_frame_legal [OF f] cap by auto
      then show ?thesis using False by simp
    qed
  qed
qed

lemma erased_seq:
  assumes "aha_seq F th a" "checkLegalKey a k" "x < aha_capacity a" "key_at a x = k"
    and b: "b = (set_key x (erasedKey a) a)\<lparr> numErases := e \<rparr>"
  shows "aha_seq F th b" "aha_map b = (aha_map a)(k := None)"
proof -
  let ?c = "set_key x (erasedKey a) a"
  have wf: "aha_wf a" and ka: "keys_ok F a" using assms(1) by (simp_all add: aha_seq_def)
  have lt: "x < length (aha_cells a)" using assms(3) wf by (simp add: aha_wf_def)
  have f: "same_frame a b" by (simp add: b same_frame_def set_key_def)
  have kc: "keys_ok F ?c"
    by (rule set_key_keys_ok [OF ka wf]) (auto simp: checkLegalKey_def)
  have kob: "keys_ok F b"
    by (rule keeps_keys_ok [OF kc, of b]) (use wf same_frame_wf [of a ?c] in \<open>simp_all add: b\<close>)
  have kb: "key_at b y = (if y = x then erasedKey a else key_at a y)" "value_at b y = value_at a y" for y
    using lt by (simp_all add: b)
  have cap: "aha_capacity b = aha_capacity a" "lockedKey b = lockedKey a"
    using f by (simp_all add: same_frame_def)
  show "aha_seq F th b"
    using assms(1) wf kob cap same_frame_wf [OF f] by (auto simp: aha_seq_def kb aha_wf_def b)
  have u: "y = x" if "y < aha_capacity a" "key_at a y = k" for y
    using keys_unique [OF ka assms(3) that(1)] assms(2,4) that(2) by simp
  show "aha_map b = (aha_map a)(k := None)"
  proof (rule map_eqI)
    fix k' w
    have "key_at b j = k' \<and> value_at b j = Some w \<longleftrightarrow>
        key_at a j = k' \<and> value_at a j = Some w \<and> k' \<noteq> k"
      if l': "checkLegalKey a k'" and j: "j < aha_capacity a" for j
    proof (cases "j = x")
      case True
      have "erasedKey a \<noteq> k'" using l' by (simp add: checkLegalKey_def eq_commute)
      then have "key_at b j \<noteq> k'" using True kb(1) [of x] by simp
      then show ?thesis using True assms(4) by blast
    next
      case False
      then have "key_at a j \<noteq> k" using u [OF j] by blast
      moreover have "key_at b j = key_at a j" "value_at b j = value_at a j"
        using kb [of j] False by simp_all
      ultimately show ?thesis by metis
    qed
    then have "aha_map b k' = Some w \<longleftrightarrow> aha_map a k' = Some w \<and> k' \<noteq> k"
      unfolding aha_map_Some [OF kob] aha_map_Some [OF ka] same_frame_legal [OF f] cap by auto
    then show "aha_map b k' = Some w \<longleftrightarrow> ((aha_map a)(k := None)) k' = Some w" by auto
  qed
qed

subsection \<open>The table contract\<close>

lemma aha_ins_law:
  assumes seq: "aha_seq F th a" and l: "checkLegalKey a k"
  shows "\<exists>b r. aha_insert F th a k v = Some (b, r) \<and> aha_seq F th b \<and> checkLegalKey b = checkLegalKey a \<and>
    abs_op (aha_map a) (T_Insert k v) (A_Insert r) = Some (aha_map b)"
proof -
  obtain b pc where run: "aha_insertInternal F th a k (Some v) = Some (b, ins_ret pc)"
    and o: "ins_outcome F th a k (Some v) b pc" using aha_insert_spec [OF seq l] by blast
  have ka: "keys_ok F a" using seq by (simp add: aha_seq_def)
  from o consider "ins_present a k b pc" | "ins_stored F th a k (Some v) b pc" | "ins_full F a k b pc"
    by (auto simp: ins_outcome_def ins_threw_def)
  then show ?thesis
  proof cases
    case 1
    then obtain i where i: "i < aha_capacity a" "key_at a i = k" "pc = I_Ret i False" "b = a"
      by (auto simp: ins_present_def)
    have "aha_insert F th a k v = Some (a, Present)" using run i by (simp add: aha_insert_def)
    moreover have "aha_map a k \<noteq> None" by (rule aha_map_at(2) [OF ka i(1,2) l])
    ultimately show ?thesis using seq by (intro exI [of _ a] exI [of _ Present]) simp
  next
    case 2
    then obtain i where pc: "pc = I_Ret i True" and f: "same_frame a b" by (auto simp: ins_stored_def)
    have "aha_insert F th a k v = Some (b, Added)" using run pc by (simp add: aha_insert_def)
    moreover have "checkLegalKey b = checkLegalKey a" using same_frame_legal [OF f] by (simp add: fun_eq_iff)
    moreover note st = stored_seq [OF seq l 2]
    have "abs_op (aha_map a) (T_Insert k v) (A_Insert Added) = Some (aha_map b)" by (simp only: st abs_op.simps ins_answer.case simp_thms if_True)
    ultimately show ?thesis using st(1) by blast
  next
    case 3
    then have pc: "pc = I_Ret (aha_capacity a) False" and f: "same_frame a b" and c: "aha_cells b = aha_cells a"
      and ab: "key_absent a k" by (simp_all add: ins_full_def)
    have "aha_insert F th a k v = Some (b, NoRoom)" using run pc by (simp add: aha_insert_def)
    moreover have "checkLegalKey b = checkLegalKey a" using same_frame_legal [OF f] by (simp add: fun_eq_iff)
    moreover have "aha_seq F th b" by (rule seq_same_cells [OF seq f c]) (use 3 in \<open>simp_all add: ins_full_def\<close>)
    ultimately show ?thesis using aha_map_same_cells [OF f c] aha_map_absent [OF ab]
      by (intro exI [of _ b] exI [of _ NoRoom]) simp
  qed
qed

lemma aha_fnd_law:
  assumes seq: "aha_seq F th a" and l: "checkLegalKey a k"
  shows "aha_find F th a k = Some (aha_map a k)"
proof -
  obtain x b where r: "aha_findInternal F th a k = Some (x, b)"
    and xb: "if b then x < aha_capacity a \<and> key_at a x = k else x = aha_capacity a \<and> key_absent a k"
    using aha_findInternal_spec [OF seq l] by blast
  have ka: "keys_ok F a" using seq by (simp add: aha_seq_def)
  show ?thesis
  proof (cases b)
    case True
    then have x: "x < aha_capacity a" "key_at a x = k" using xb by simp_all
    show ?thesis using r x aha_map_at(1) [OF ka x l] by (simp add: aha_find_def)
  next
    case False
    then show ?thesis using r xb aha_map_absent [of a k] by (simp add: aha_find_def)
  qed
qed

lemma aha_era_law:
  assumes seq: "aha_seq F th a" and l: "checkLegalKey a k"
  shows "\<exists>b n. aha_erase F th a k = Some (b, n) \<and> aha_seq F th b \<and> checkLegalKey b = checkLegalKey a \<and>
    abs_op (aha_map a) (T_Erase k) (A_Erase n) = Some (aha_map b)"
proof -
  obtain b n where r: "aha_erase F th a k = Some (b, n)" and o: "n = 0 \<and> b = a \<and> key_absent a k \<or>
     n = 1 \<and> (\<exists>x < aha_capacity a. key_at a x = k \<and> b = (set_key x (erasedKey a) a)\<lparr> numErases := numErases a + 1 \<rparr>)"
    using aha_erase_spec [OF seq l] by blast
  have ka: "keys_ok F a" using seq by (simp add: aha_seq_def)
  from o show ?thesis
  proof (elim disjE conjE exE)
    assume "n = 0" "b = a" "key_absent a k"
    then show ?thesis using r seq aha_map_absent [of a k]
      by (intro exI [of _ a] exI [of _ 0]) (auto simp: fun_eq_iff)
  next
    fix x assume n: "n = 1" and x: "x < aha_capacity a" "key_at a x = k"
      and b: "b = (set_key x (erasedKey a) a)\<lparr> numErases := numErases a + 1 \<rparr>"
    have "aha_map a k \<noteq> None" by (rule aha_map_at(2) [OF ka x l])
    moreover have "checkLegalKey b = checkLegalKey a" by (simp add: fun_eq_iff b)
    ultimately show ?thesis using r n erased_seq [OF seq l x b]
      by (intro exI [of _ b] exI [of _ 1]) simp
  qed
qed

interpretation aha: table "aha_seq F th" checkLegalKey aha_map "aha_insert F th" "aha_find F th" "aha_erase F th"
  for F th
  by unfold_locales (fact aha_ins_law aha_fnd_law aha_era_law)+

end
