(* ===== verification/Hash_Array_Ops.thy ===== *)
theory Hash_Array_Ops imports Hash_Array_Map Complex_Main begin

text \<open>
  Making, clearing, destroying and traversing an atomic hash array, and the properties of the
  array as a whole. The floating point arithmetic of the sizes is that of the rationals followed by
  the rounding of the format, which is a parameter.
\<close>

subsection \<open>Creation\<close>

text \<open>The rounding to double and to float, and the power function of the library on doubles.\<close>

record fpu =
  dbl :: "rat \<Rightarrow> rat"
  flt :: "rat \<Rightarrow> rat"
  fpow :: "rat \<Rightarrow> int \<Rightarrow> rat"

record 'k aha_config =
  cfg_emptyKey :: 'k
  cfg_lockedKey :: 'k
  cfg_erasedKey :: 'k
  maxLoadFactor :: rat
  growthFactor :: rat
  entryCountThreadCacheSize :: "32 word"

definition default_config :: "fpu \<Rightarrow> 64 word aha_config" where
  "default_config U = \<lparr> cfg_emptyKey = -1, cfg_lockedKey = -2, cfg_erasedKey = -3,
     maxLoadFactor = dbl U (4 / 5), growthFactor = -1, entryCountThreadCacheSize = 1000 \<rparr>"

definition trunc :: "rat \<Rightarrow> nat" where
  "trunc x = nat \<lfloor>x\<rfloor>"

definition ctor_maxEntries :: "fpu \<Rightarrow> rat \<Rightarrow> nat \<Rightarrow> nat" where
  "ctor_maxEntries U mlf cap = trunc (dbl U (dbl U (mlf * dbl U (of_nat cap)) + 1 / 2))"

definition create_capacity :: "fpu \<Rightarrow> rat \<Rightarrow> nat \<Rightarrow> nat" where
  "create_capacity U mlf maxSize = trunc (dbl U (dbl U (of_nat maxSize) / mlf))"

text \<open>
  The memory of the cells is what the allocator returns, mem; the cells are marked empty one by one.
\<close>

fun mark_empty :: "nat \<Rightarrow> ('k, 'v) aha \<Rightarrow> ('k, 'v) aha" where
  "mark_empty 0 a = a"
| "mark_empty (Suc n) a = set_key n (emptyKey a) (mark_empty n a)"

definition aha_create :: "fpu \<Rightarrow> nat \<Rightarrow> 'k \<Rightarrow> nat \<Rightarrow> 'k aha_config \<Rightarrow> ('k, 'v) aha option" where
  "aha_create U nthreads mem maxSize c =
    (if maxLoadFactor c \<le> 1 \<and> maxLoadFactor c > 0 \<and> cfg_emptyKey c \<noteq> cfg_lockedKey c then
       let cap = create_capacity U (maxLoadFactor c) maxSize;
         a = aha_construct cap (ctor_maxEntries U (maxLoadFactor c) cap) (cfg_emptyKey c) (cfg_lockedKey c)
           (cfg_erasedKey c) (entryCountThreadCacheSize c) nthreads (replicate cap (mem, None))
       in Some (mark_empty (aha_capacity a) a)
     else None)"

definition aha_clear :: "('k, 'v) aha \<Rightarrow> ('k, 'v) aha" where
  "aha_clear a = a\<lparr>
     aha_cells := map (\<lambda>c. if fst c \<noteq> emptyKey a then (emptyKey a, None) else c) (aha_cells a),
     numEntries := tci_set 0 (numEntries a), numPending := tci_set 0 (numPending a),
     isFull := 0, numErases := 0 \<rparr>"

text \<open>The values whose destructors run when the array is destroyed.\<close>

definition aha_destroy :: "('k, 'v) aha \<Rightarrow> 'v option list" where
  "aha_destroy a = map snd (filter (\<lambda>c. fst c \<noteq> emptyKey a) (aha_cells a))"

subsection \<open>What creation promises\<close>

text \<open>
  Documented of the rounding of doubles: it is monotone and leaves the multiples of a half below
  $2^{52}$ alone.
\<close>

definition rounds_double :: "(rat \<Rightarrow> rat) \<Rightarrow> bool" where
  "rounds_double r \<longleftrightarrow> mono r \<and> (\<forall>n :: nat. n < 2 ^ 53 \<longrightarrow> r (of_nat n / 2) = of_nat n / 2)"

lemma rounds_nat: "rounds_double r \<Longrightarrow> n < 2 ^ 52 \<Longrightarrow> r (of_nat n) = of_nat n"
proof -
  assume r: "rounds_double r" and n: "n < 2 ^ 52"
  then have "2 * n < 2 ^ 53" by simp
  then have "r (of_nat (2 * n) / 2) = of_nat (2 * n) / 2" using r unfolding rounds_double_def by blast
  then show ?thesis by simp
qed

lemma rounds_half: "rounds_double r \<Longrightarrow> n < 2 ^ 52 \<Longrightarrow> r (of_nat n + 1 / 2) = of_nat n + 1 / 2"
proof -
  assume r: "rounds_double r" and n: "n < 2 ^ 52"
  then have "2 * n + 1 < 2 ^ 53" by simp
  then have "r (of_nat (2 * n + 1) / 2) = of_nat (2 * n + 1) / 2" using r unfolding rounds_double_def by blast
  moreover have "(of_nat (2 * n + 1) / 2 :: rat) = of_nat n + 1 / 2" by (simp add: field_simps)
  ultimately show ?thesis by (simp only:)
qed

lemma trunc_mono: "x \<le> y \<Longrightarrow> trunc x \<le> trunc y"
  by (simp add: trunc_def floor_mono nat_mono)

lemma trunc_nat [simp]: "trunc (of_nat n) = n"
  by (simp add: trunc_def)

lemma create_capacity_ge:
  assumes "rounds_double (dbl U)" "0 < mlf" "mlf \<le> 1" "n < 2 ^ 52"
  shows "n \<le> create_capacity U mlf n"
proof -
  have "(of_nat n :: rat) \<le> of_nat n / mlf" using assms(2,3)
    by (simp add: le_divide_eq mult_left_le)
  then have "dbl U (of_nat n) \<le> dbl U (of_nat n / mlf)"
    using assms(1) unfolding rounds_double_def by (blast intro: monoD)
  then have "of_nat n \<le> dbl U (dbl U (of_nat n) / mlf)" by (simp add: rounds_nat [OF assms(1,4)])
  from trunc_mono [OF this] show ?thesis by (simp add: create_capacity_def)
qed

lemma ctor_maxEntries_le:
  assumes "rounds_double (dbl U)" "0 < mlf" "mlf \<le> 1" "cap < 2 ^ 52"
  shows "ctor_maxEntries U mlf cap \<le> cap"
proof -
  have m: "dbl U x \<le> dbl U y" if "x \<le> y" for x y
    using assms(1) that unfolding rounds_double_def by (blast intro: monoD)
  have "mlf * of_nat cap \<le> of_nat cap" using assms(2,3) by (simp add: mult_left_le_one_le)
  from m [OF this] have "dbl U (mlf * of_nat cap) + 1 / 2 \<le> of_nat cap + 1 / 2"
    by (simp add: rounds_nat [OF assms(1,4)])
  from m [OF this] have "dbl U (dbl U (mlf * dbl U (of_nat cap)) + 1 / 2) \<le> of_nat cap + 1 / 2"
    by (simp add: rounds_nat [OF assms(1,4)] rounds_half [OF assms(1,4)])
  then have "ctor_maxEntries U mlf cap \<le> trunc (of_nat cap + 1 / 2)"
    unfolding ctor_maxEntries_def by (rule trunc_mono)
  also have "trunc (of_nat cap + 1 / 2) = cap"
  proof -
    have "\<lfloor>(of_nat cap :: rat) + 1 / 2\<rfloor> = int cap" by (rule floor_unique) simp_all
    then show ?thesis by (simp add: trunc_def)
  qed
  finally show ?thesis .
qed

lemma mark_empty_frame: "same_frame a (mark_empty n a)"
  by (induction n) (auto simp: same_frame_def)

lemma mark_empty_key:
  "n \<le> length (aha_cells a) \<Longrightarrow> key_at (mark_empty n a) i = (if i < n then emptyKey a else key_at a i)"
proof (induction n)
  case (Suc n)
  have "length (aha_cells (mark_empty n a)) = length (aha_cells a)" "emptyKey (mark_empty n a) = emptyKey a"
    using mark_empty_frame [of a n] by (simp_all add: same_frame_def)
  with Suc show ?case by (auto simp: less_Suc_eq)
qed simp

lemma mark_empty_fields [simp]:
  "numEntries (mark_empty n a) = numEntries a" "numPending (mark_empty n a) = numPending a"
  "numErases (mark_empty n a) = numErases a"
  by (induction n) auto

lemma aha_create_start:
  assumes "aha_create U nthreads mem maxSize c = Some a" "0 < create_capacity U (maxLoadFactor c) maxSize"
    "cfg_erasedKey c \<noteq> cfg_emptyKey c" "cfg_erasedKey c \<noteq> cfg_lockedKey c" "n \<le> nthreads"
  shows "aha_start a (replicate n Idle)"
proof -
  define cap where "cap = create_capacity U (maxLoadFactor c) maxSize"
  define b :: "('a, 'b) aha" where "b = aha_construct cap (ctor_maxEntries U (maxLoadFactor c) cap) (cfg_emptyKey c) (cfg_lockedKey c)
    (cfg_erasedKey c) (entryCountThreadCacheSize c) nthreads (replicate cap (mem, None))"
  have el: "cfg_emptyKey c \<noteq> cfg_lockedKey c" and a: "a = mark_empty cap b"
    using assms(1) by (auto simp: aha_create_def Let_def b_def cap_def aha_construct_def split: if_splits)
  have f: "same_frame b a" by (simp add: a mark_empty_frame)
  have lb: "length (aha_cells b) = cap" "aha_capacity b = cap" "emptyKey b = cfg_emptyKey c"
    by (simp_all add: b_def aha_construct_def)
  have k: "key_at a i = cfg_emptyKey c" if "i < cap" for i
    using mark_empty_key [of cap b i] that by (simp add: a lb)
  have wf: "aha_wf a"
    using f assms(2-4) el by (auto simp: aha_wf_def same_frame_def lb cap_def [symmetric] b_def aha_construct_def)
  have "list_all (\<lambda>x. fst x = emptyKey a) (aha_cells a)"
    using f k by (auto simp: list_all_length same_frame_def lb key_at_def)
  moreover have "aha_size a = 0" "tci_threads (numEntries a) = nthreads"
    by (simp_all add: a aha_size_def b_def aha_construct_def)
  ultimately show ?thesis using wf assms(5) by (simp add: aha_start_def list_all_length)
qed

lemma aha_create_seq:
  assumes "aha_create U nthreads mem maxSize c = Some a" "0 < create_capacity U (maxLoadFactor c) maxSize"
    "cfg_erasedKey c \<noteq> cfg_emptyKey c" "cfg_erasedKey c \<noteq> cfg_lockedKey c" "th < nthreads"
  shows "aha_seq F th a" "aha_map a = Map.empty"
proof -
  have st: "aha_start a []" using aha_create_start [OF assms(1-4), of 0] by simp
  have e: "key_at a i = emptyKey a" if "i < aha_capacity a" for i
    using st that by (auto simp: aha_start_def aha_wf_def list_all_length key_at_def)
  have t: "tci_threads (numEntries a) = nthreads" "tci_threads (numPending a) = nthreads"
    "tci_readFull (numPending a) = 0"
    using assms(1) by (auto simp: aha_create_def Let_def aha_construct_def split: if_splits)
  show "aha_seq F th a"
    using aha_start_inv(1) [OF st, of F] st e t assms(5)
    by (auto simp: aha_seq_def aha_inv_def aha_start_def aha_wf_def)
  show "aha_map a = Map.empty"
  proof (rule ext)
    fix k show "aha_map a k = None"
      using aha_map_absent [of a k] e by (cases "checkLegalKey a k")
        (auto simp: key_absent_def checkLegalKey_def aha_map_def)
  qed
qed

subsection \<open>Clearing\<close>

lemma aha_clear_fields:
  "aha_capacity (aha_clear a) = aha_capacity a" "emptyKey (aha_clear a) = emptyKey a"
  "lockedKey (aha_clear a) = lockedKey a" "erasedKey (aha_clear a) = erasedKey a"
  "length (aha_cells (aha_clear a)) = length (aha_cells a)" "aha_size (aha_clear a) = 0"
  by (simp_all add: aha_clear_def aha_size_def)

lemma aha_clear_start:
  assumes "aha_wf a"
  shows "aha_start (aha_clear a) []" "aha_map (aha_clear a) = Map.empty"
proof -
  have k: "list_all (\<lambda>c. fst c = emptyKey (aha_clear a)) (aha_cells (aha_clear a))"
    by (simp add: aha_clear_def list_all_length)
  have "aha_wf (aha_clear a)" using assms by (simp add: aha_wf_def aha_clear_fields)
  then show "aha_start (aha_clear a) []" using k by (simp add: aha_start_def aha_clear_fields)
  have "key_at (aha_clear a) i = emptyKey a" if "i < aha_capacity a" for i
    using assms that by (simp add: key_at_def aha_clear_def aha_wf_def)
  then have "key_absent (aha_clear a) k" if "checkLegalKey (aha_clear a) k" for k
    using that by (auto simp: key_absent_def checkLegalKey_def aha_clear_fields)
  then have "aha_map (aha_clear a) k = None" for k
    using aha_map_absent [of "aha_clear a" k] by (cases "checkLegalKey (aha_clear a) k") (simp_all add: aha_map_def)
  then show "aha_map (aha_clear a) = Map.empty" by (rule ext)
qed

subsection \<open>Iteration\<close>

text \<open>An iterator is the offset of a cell; the end is the capacity.\<close>

definition aha_isValid :: "('k, 'v) aha \<Rightarrow> nat \<Rightarrow> bool" where
  "aha_isValid a off \<longleftrightarrow> (let key = key_at a off in
     key \<noteq> emptyKey a \<and> key \<noteq> lockedKey a \<and> key \<noteq> erasedKey a)"

function aha_advancePastEmpty :: "('k, 'v) aha \<Rightarrow> nat \<Rightarrow> nat" where
  "aha_advancePastEmpty a off =
    (if off < aha_capacity a \<and> \<not> aha_isValid a off then aha_advancePastEmpty a (off + 1) else off)"
  by pat_completeness auto
termination by (relation "measure (\<lambda>(a, off). aha_capacity a - off)") auto

declare aha_advancePastEmpty.simps [simp del]

definition aha_begin :: "('k, 'v) aha \<Rightarrow> nat" where
  "aha_begin a = aha_advancePastEmpty a 0"

definition aha_end :: "('k, 'v) aha \<Rightarrow> nat" where
  "aha_end a = aha_capacity a"

definition aha_increment :: "('k, 'v) aha \<Rightarrow> nat \<Rightarrow> nat" where
  "aha_increment a off = aha_advancePastEmpty a (off + 1)"

definition aha_getIndex :: "nat \<Rightarrow> 32 word" where
  "aha_getIndex off = word_of_nat off"

definition aha_findAt :: "('k, 'v) aha \<Rightarrow> 32 word \<Rightarrow> nat option" where
  "aha_findAt a idx = (if unat idx < aha_capacity a then Some (unat idx) else None)"

text \<open>The loop of a client over the cells from an iterator on.\<close>

lemma advance_ge: "off \<le> aha_advancePastEmpty a off"
  by (induction a off rule: aha_advancePastEmpty.induct) (subst aha_advancePastEmpty.simps, auto)

function aha_traverse :: "('k, 'v) aha \<Rightarrow> nat \<Rightarrow> ('k \<times> 'v option) list" where
  "aha_traverse a off = (if off < aha_end a then aha_cells a ! off # aha_traverse a (aha_increment a off) else [])"
  by pat_completeness auto
termination
proof (relation "measure (\<lambda>(a, off). aha_end a - off)")
  fix a :: "('k, 'v) aha" and off assume "off < aha_end a"
  then show "((a, aha_increment a off), a, off) \<in> measure (\<lambda>(a, off). aha_end a - off)"
    using advance_ge [of "off + 1" a] by (simp add: aha_increment_def)
qed simp

declare aha_traverse.simps [simp del]

lemma drop_cons: "off < length xs \<Longrightarrow> drop off xs = xs ! off # drop (Suc off) xs"
  by (simp add: Cons_nth_drop_Suc)

lemma aha_traverse_filter:
  assumes "aha_wf a"
  shows "aha_traverse a (aha_advancePastEmpty a off) =
    filter (\<lambda>c. checkLegalKey a (fst c)) (drop off (aha_cells a))"
proof (induction "aha_capacity a - off" arbitrary: off)
  case 0
  then have ge: "aha_capacity a \<le> off" by simp
  have "aha_advancePastEmpty a off = off" using ge by (subst aha_advancePastEmpty.simps) simp
  moreover have "aha_traverse a off = []" using ge by (subst aha_traverse.simps) (simp add: aha_end_def)
  ultimately show ?case using ge assms by (simp add: aha_wf_def)
next
  case (Suc n)
  then have lt: "off < aha_capacity a" and n: "n = aha_capacity a - (off + 1)" by simp_all
  have len: "off < length (aha_cells a)" using lt assms by (simp add: aha_wf_def)
  have v: "aha_isValid a off \<longleftrightarrow> checkLegalKey a (fst (aha_cells a ! off))"
    by (simp add: aha_isValid_def checkLegalKey_def key_at_def Let_def)
  note ih = Suc(1) [OF n]
  show ?case
  proof (cases "aha_isValid a off")
    case True
    have "aha_advancePastEmpty a off = off" using True by (subst aha_advancePastEmpty.simps) simp
    moreover have "aha_traverse a off = aha_cells a ! off # aha_traverse a (aha_increment a off)"
      using lt by (subst aha_traverse.simps) (simp add: aha_end_def)
    ultimately show ?thesis using ih v True by (simp add: aha_increment_def drop_cons [OF len])
  next
    case False
    have "aha_advancePastEmpty a off = aha_advancePastEmpty a (off + 1)"
      using False lt by (subst aha_advancePastEmpty.simps) simp
    then show ?thesis using ih v False by (simp add: drop_cons [OF len])
  qed
qed

lemma aha_iteration: "aha_wf a \<Longrightarrow> aha_traverse a (aha_begin a) = filter (\<lambda>c. checkLegalKey a (fst c)) (aha_cells a)"
  using aha_traverse_filter [of a 0] by (simp add: aha_begin_def)

text \<open>
  The index of an iterator is its offset cut to 32 bits, and finds the iterator again only
  in an array of at most $2^{32}$ cells.
\<close>

lemma aha_index_roundtrip:
  "off < aha_capacity a \<Longrightarrow> off < 2 ^ 32 \<Longrightarrow> aha_findAt a (aha_getIndex off) = Some off"
  by (simp add: aha_findAt_def aha_getIndex_def unat_of_nat take_bit_nat_eq_self)

lemma aha_index_truncated: "aha_findAt a (aha_getIndex (2 ^ 32)) = (if 0 < aha_capacity a then Some 0 else None)"
  by (simp add: aha_findAt_def aha_getIndex_def)

end
