(* ===== verification/Hash_Map.thy ===== *)
theory Hash_Map imports Hash_Array_Ops begin

text \<open>
  The atomic hash map, src/include/folly/AtomicHashMap.h and AtomicHashMap-inl.h: up to sixteen
  atomic hash arrays, the first of the size asked for and the others allocated as the ones before
  them fill up. The operations run one at a time; the arrays' operations are those of the theories
  above. Insertion tries the arrays in order and allocates the next one, or throws when it may not;
  None is a run that does not return or a failed assertion.
\<close>

subsection \<open>The map\<close>

definition kNumSubMapBits :: nat where "kNumSubMapBits = 4"

definition kSecondaryMapBit :: "32 word" where "kSecondaryMapBit = push_bit 31 1"

definition kSubMapIndexShift :: nat where "kSubMapIndexShift = 32 - kNumSubMapBits - 1"

definition kSubMapIndexMask :: "32 word" where "kSubMapIndexMask = push_bit kSubMapIndexShift 1 - 1"

definition kNumSubMaps :: nat where "kNumSubMaps = 2 ^ kNumSubMapBits"

text \<open>The slots of the arrays that are allocated are the list subMaps; the others are null pointers.\<close>

record ('k, 'v) ahm =
  kGrowthFrac :: rat
  subMaps :: "('k, 'v) aha list"

definition numMapsAllocated :: "('k, 'v) ahm \<Rightarrow> nat" where
  "numMapsAllocated m = length (subMaps m)"

definition ahm_new :: "fpu \<Rightarrow> nat \<Rightarrow> 'k \<Rightarrow> nat \<Rightarrow> 'k aha_config \<Rightarrow> ('k, 'v) ahm option" where
  "ahm_new U nthreads mem finalSizeEst c =
    (if maxLoadFactor c > 0 \<and> maxLoadFactor c < 1 then
       (case aha_create U nthreads mem finalSizeEst c of
          None \<Rightarrow> None
        | Some a \<Rightarrow> Some \<lparr> kGrowthFrac = flt U (if growthFactor c < 0 then dbl U (1 - maxLoadFactor c) else growthFactor c),
            subMaps = [a] \<rparr>)
     else None)"

datatype ahm_ret = AhmRet nat nat bool | MapFull | AhmThrew

definition sub_config :: "fpu \<Rightarrow> ('k, 'v) aha \<Rightarrow> 'k aha_config" where
  "sub_config U primary = \<lparr> cfg_emptyKey = emptyKey primary, cfg_lockedKey = lockedKey primary,
     cfg_erasedKey = erasedKey primary,
     maxLoadFactor = dbl U (dbl U (of_nat (maxEntries primary)) / dbl U (of_nat (aha_capacity primary))),
     growthFactor = -1, entryCountThreadCacheSize = cacheSize (numEntries primary) \<rparr>"

definition next_size :: "fpu \<Rightarrow> ('k, 'v) ahm \<Rightarrow> nat \<Rightarrow> nat" where
  "next_size U m nextMapIdx = (let
     numCellsAllocated = trunc (dbl U (dbl U (of_nat (aha_capacity (subMaps m ! 0))) *
       fpow U (dbl U (1 + kGrowthFrac m)) (int nextMapIdx - 1)))
   in trunc (flt U (flt U (of_nat numCellsAllocated) * kGrowthFrac m)))"

definition may_grow :: "fpu \<Rightarrow> ('k, 'v) ahm \<Rightarrow> nat \<Rightarrow> bool" where
  "may_grow U m nextMapIdx \<longleftrightarrow> \<not> (nextMapIdx \<ge> kNumSubMaps \<or>
     flt U (flt U (of_nat (aha_capacity (subMaps m ! 0))) * kGrowthFrac m) < 1)"

text \<open>The insertion into the arrays from the i-th on, in order.\<close>

fun try_subs :: "'k aha_fns \<Rightarrow> nat \<Rightarrow> 'k \<Rightarrow> 'v option \<Rightarrow> nat \<Rightarrow> ('k, 'v) aha list \<Rightarrow>
    (('k, 'v) aha list \<times> ahm_ret option) option" where
  "try_subs F th k mv i [] = Some ([], None)"
| "try_subs F th k mv i (a # as) = (case aha_insertInternal F th a k mv of
      None \<Rightarrow> None
    | Some (b, Thrown) \<Rightarrow> Some (b # as, Some AhmThrew)
    | Some (b, SimpleRet j s) \<Rightarrow>
        if j = aha_capacity a then map_option (\<lambda>(bs, r). (b # bs, r)) (try_subs F th k mv (Suc i) as)
        else Some (b # as, Some (AhmRet i j s)))"

lemma try_subs_length: "try_subs F th k mv i as = Some (bs, r) \<Longrightarrow> length bs = length as"
proof (induction as arbitrary: i bs r)
  case (Cons a as)
  then show ?case by (auto split: option.splits prod.splits simple_ret.splits if_splits)
qed simp

function ahm_insertInternal :: "fpu \<Rightarrow> 'k aha_fns \<Rightarrow> nat \<Rightarrow> nat \<Rightarrow> 'k \<Rightarrow> ('k, 'v) ahm \<Rightarrow> 'k \<Rightarrow> 'v option \<Rightarrow>
    (('k, 'v) ahm \<times> ahm_ret) option" where
  "ahm_insertInternal U F nthreads th mem m k mv =
    (case try_subs F th k mv 0 (subMaps m) of
       None \<Rightarrow> None
     | Some (bs, Some r) \<Rightarrow> Some (m\<lparr> subMaps := bs \<rparr>, r)
     | Some (bs, None) \<Rightarrow>
         (let m' = m\<lparr> subMaps := bs \<rparr>; nextMapIdx = numMapsAllocated m in
          if \<not> may_grow U m' nextMapIdx then Some (m', MapFull)
          else (case aha_create U nthreads mem (next_size U m' nextMapIdx) (sub_config U (bs ! 0)) of
              None \<Rightarrow> None
            | Some a \<Rightarrow> (case aha_insertInternal F th a k mv of
                None \<Rightarrow> None
              | Some (b, Thrown) \<Rightarrow> Some (m'\<lparr> subMaps := bs @ [b] \<rparr>, AhmThrew)
              | Some (b, SimpleRet j s) \<Rightarrow>
                  if j \<noteq> aha_capacity a then Some (m'\<lparr> subMaps := bs @ [b] \<rparr>, AhmRet nextMapIdx j s)
                  else ahm_insertInternal U F nthreads th mem (m'\<lparr> subMaps := bs @ [b] \<rparr>) k mv))))"
  by pat_completeness auto
termination
proof (relation "measure (\<lambda>(U, F, nthreads, th, mem, m, k, mv). kNumSubMaps - numMapsAllocated m)")
qed (auto simp: numMapsAllocated_def may_grow_def dest!: try_subs_length)

declare ahm_insertInternal.simps [simp del]

fun find_subs :: "'k aha_fns \<Rightarrow> nat \<Rightarrow> 'k \<Rightarrow> nat \<Rightarrow> ('k, 'v) aha list \<Rightarrow> (nat \<times> nat \<times> bool) option" where
  "find_subs F th k i [] = Some (i, 0, False)"
| "find_subs F th k i (a # as) = (case aha_findInternal F th a k of
      None \<Rightarrow> None
    | Some (j, s) \<Rightarrow> if j \<noteq> aha_capacity a then Some (i, j, s) else find_subs F th k (Suc i) as)"

definition ahm_findInternal :: "'k aha_fns \<Rightarrow> nat \<Rightarrow> ('k, 'v) ahm \<Rightarrow> 'k \<Rightarrow> (nat \<times> nat \<times> bool) option" where
  "ahm_findInternal F th m k = find_subs F th k 0 (subMaps m)"

fun erase_subs :: "'k aha_fns \<Rightarrow> nat \<Rightarrow> 'k \<Rightarrow> ('k, 'v) aha list \<Rightarrow> (('k, 'v) aha list \<times> nat) option" where
  "erase_subs F th k [] = Some ([], 0)"
| "erase_subs F th k (a # as) = (case aha_erase F th a k of
      None \<Rightarrow> None
    | Some (b, n) \<Rightarrow> if n \<noteq> 0 then Some (b # as, 1)
        else map_option (\<lambda>(bs, r). (b # bs, r)) (erase_subs F th k as))"

definition ahm_erase :: "'k aha_fns \<Rightarrow> nat \<Rightarrow> ('k, 'v) ahm \<Rightarrow> 'k \<Rightarrow> (('k, 'v) ahm \<times> nat) option" where
  "ahm_erase F th m k = map_option (\<lambda>(bs, n). (m\<lparr> subMaps := bs \<rparr>, n)) (erase_subs F th k (subMaps m))"

definition ahm_capacity :: "('k, 'v) ahm \<Rightarrow> nat" where
  "ahm_capacity m = sum_list (map aha_capacity (subMaps m))"

definition ahm_size :: "('k, 'v) ahm \<Rightarrow> 64 word" where
  "ahm_size m = sum_list (map aha_size (subMaps m))"

definition ahm_empty :: "('k, 'v) ahm \<Rightarrow> bool" where
  "ahm_empty m \<longleftrightarrow> ahm_size m = 0"

definition ahm_clear :: "('k, 'v) ahm \<Rightarrow> ('k, 'v) ahm" where
  "ahm_clear m = m\<lparr> subMaps := [aha_clear (subMaps m ! 0)] \<rparr>"

definition ahm_destroy :: "('k, 'v) ahm \<Rightarrow> 'v option list" where
  "ahm_destroy m = concat (map aha_destroy (subMaps m))"

subsection \<open>Indices\<close>

text \<open>
  The assertions of encodeIndex as the language reads them: the comparison binds tighter than
  the bitwise and.
\<close>

definition c_bool :: "bool \<Rightarrow> 32 word" where
  "c_bool b = (if b then 1 else 0)"

definition encodeIndex_asserts :: "32 word \<Rightarrow> 32 word \<Rightarrow> bool" where
  "encodeIndex_asserts subMap off \<longleftrightarrow> off AND c_bool (kSecondaryMapBit = 0) \<noteq> 0 \<and>
    (subMap = 0 \<or> drop_bit kNumSubMapBits subMap = 0 \<and>
      off AND c_bool (NOT kSubMapIndexMask OR kSecondaryMapBit = 0) \<noteq> 0)"

definition encodeIndex :: "32 word \<Rightarrow> 32 word \<Rightarrow> 32 word" where
  "encodeIndex subMap off = (if subMap = 0 then off
     else off OR push_bit kSubMapIndexShift subMap OR kSecondaryMapBit)"

definition findAtInternal :: "('k, 'v) ahm \<Rightarrow> 32 word \<Rightarrow> (32 word \<times> 32 word) option" where
  "findAtInternal m idx = (if idx AND kSecondaryMapBit \<noteq> 0 then
       (let idx = idx AND NOT kSecondaryMapBit; subMapIdx = drop_bit kSubMapIndexShift idx in
        if unat subMapIdx < numMapsAllocated m then Some (subMapIdx, idx AND kSubMapIndexMask) else None)
     else Some (0, idx))"

definition ahm_getIndex :: "nat \<Rightarrow> nat \<Rightarrow> 32 word" where
  "ahm_getIndex i j = encodeIndex (word_of_nat i) (aha_getIndex j)"

lemma index_masks: "kSubMapIndexShift = 27" "kSubMapIndexMask = mask 27"
  by (simp_all add: kSubMapIndexShift_def kNumSubMapBits_def kSubMapIndexMask_def mask_eq_exp_minus_1)

lemma bit_secondary: "bit kSecondaryMapBit i \<longleftrightarrow> i = 31"
  by (simp only: kSecondaryMapBit_def bit_push_bit_iff bit_1_iff) auto

text \<open>In a build with assertions every call fails: the operand of the first one's and is 0.\<close>

lemma encodeIndex_asserts_fail: "\<not> encodeIndex_asserts subMap off"
proof -
  have "kSecondaryMapBit \<noteq> 0" by (metis bit_secondary bit_0_eq bot_apply bot_bool_def)
  then show ?thesis by (simp add: encodeIndex_asserts_def c_bool_def)
qed

lemma small_bits:
  fixes w :: "32 word"
  assumes "unat w < 2 ^ n" "bit w i"
  shows "i < n"
proof (rule ccontr)
  assume "\<not> i < n"
  have "take_bit n (unat w) = unat w" using assms(1) by (simp add: take_bit_nat_eq_self)
  then have "take_bit n w = w" by (metis unsigned_take_bit_eq unsigned_word_eqI)
  then have "bit (take_bit n w) i" using assms(2) by simp
  with \<open>\<not> i < n\<close> show False by (simp add: bit_take_bit_iff)
qed

text \<open>An index of the map finds the array and the cell it was made for.

  For a cell below $2^{31}$ of the first array, or below $2^{27}$ of one of the fifteen others that
  is allocated, decoding the index that the encoding of the array's number and the cell gives, yields the
  two again.\<close>

theorem index_roundtrip:
  assumes "unat s < numMapsAllocated m" "unat s < kNumSubMaps"
    "unat off < (if s = 0 then 2 ^ 31 else 2 ^ 27)"
  shows "findAtInternal m (encodeIndex s off) = Some (s, off)"
proof (cases "s = 0")
  case True
  have "off AND kSecondaryMapBit = 0"
    by (rule bit_word_eqI) (use assms(3) True small_bits [of off 31] in \<open>auto simp: bit_and_iff bit_secondary\<close>)
  then show ?thesis using True by (simp add: encodeIndex_def findAtInternal_def)
next
  case False
  have o: "bit off i \<Longrightarrow> i < 27" for i using small_bits [of off 27] assms(3) False by simp
  have s: "bit s i \<Longrightarrow> i < 4" for i
    using small_bits [of s 4] assms(2) by (simp add: kNumSubMaps_def kNumSubMapBits_def)
  let ?e = "off OR push_bit 27 s OR kSecondaryMapBit"
  have e: "encodeIndex s off = ?e" using False by (simp add: encodeIndex_def index_masks)
  have "bit (?e AND kSecondaryMapBit) 31" by (simp add: bit_and_iff bit_or_iff bit_secondary)
  then have ne: "?e AND kSecondaryMapBit \<noteq> 0" by auto
  have low: "?e AND NOT kSecondaryMapBit = off OR push_bit 27 s"
    by (rule bit_word_eqI) (use o [of 31] s [of 4] in \<open>auto simp: bit_and_iff bit_or_iff bit_not_iff bit_push_bit_iff bit_secondary\<close>)
  have sm: "drop_bit 27 (off OR push_bit 27 s) = s"
    by (rule bit_word_eqI) (auto simp: bit_drop_bit_eq bit_or_iff bit_push_bit_iff dest: o s)
  have off: "(off OR push_bit 27 s) AND mask 27 = off"
    by (rule bit_word_eqI) (auto simp: bit_and_iff bit_or_iff bit_push_bit_iff bit_mask_iff dest: o s)
  show ?thesis unfolding e findAtInternal_def index_masks Let_def low sm off using ne assms(1) by (simp only: if_True not_False_eq_True)
qed

definition demo_sub :: "(nat, nat) aha" where
  "demo_sub = \<lparr> aha_capacity = 1, maxEntries = 1, emptyKey = 0, lockedKey = 1, erasedKey = 2, anchorMask = 0,
     numEntries = tci_new 0 1000 1, numPending = tci_new 0 1000 1, isFull = 0, numErases = 0,
     aha_cells = [(0, None)] \<rparr>"

lemma index_roundtrip_witness:
  "findAtInternal \<lparr> kGrowthFrac = 1 / 5, subMaps = [demo_sub, demo_sub, demo_sub] \<rparr> (encodeIndex 2 77) = Some (2, 77)"
  by (rule index_roundtrip) (simp_all add: numMapsAllocated_def kNumSubMaps_def kNumSubMapBits_def)

end
