(* ===== verification/Hash_Map_Table.thy ===== *)
theory Hash_Map_Table imports Hash_Map begin

text \<open>
  The growing map implements the same table contract as one array. The invariant is that the arrays
  are layered: if a key is in a later array, then the earlier ones do not hold it and are closed to
  it, because they are full or have no empty cell on its path, and they stay so. A key is therefore
  in one array at most, and an insertion finds it before it finds room.
\<close>

subsection \<open>Layers\<close>

fun subs_map :: "('k, 'v) aha list \<Rightarrow> 'k \<Rightarrow> 'v option" where
  "subs_map [] k = None"
| "subs_map (a # as) k = (case aha_map a k of Some v \<Rightarrow> Some v | None \<Rightarrow> subs_map as k)"

fun layered :: "'k aha_fns \<Rightarrow> ('k, 'v) aha list \<Rightarrow> bool" where
  "layered F [] = True"
| "layered F (a # as) \<longleftrightarrow> (\<forall>k. subs_map as k \<noteq> None \<longrightarrow> aha_map a k = None \<and> aha_closed F a k) \<and> layered F as"

definition special_keys :: "('k, 'v) aha \<Rightarrow> 'k \<times> 'k \<times> 'k" where
  "special_keys a = (emptyKey a, lockedKey a, erasedKey a)"

definition subs_ok :: "'k aha_fns \<Rightarrow> nat \<Rightarrow> 'k \<times> 'k \<times> 'k \<Rightarrow> ('k, 'v) aha list \<Rightarrow> bool" where
  "subs_ok F th ks as \<longleftrightarrow> (\<forall>a \<in> set as. aha_seq F th a \<and> special_keys a = ks) \<and> layered F as"

definition legal_for :: "'k \<times> 'k \<times> 'k \<Rightarrow> 'k \<Rightarrow> bool" where
  "legal_for ks k \<longleftrightarrow> k \<noteq> fst ks \<and> k \<noteq> fst (snd ks) \<and> k \<noteq> snd (snd ks)"

lemma legal_for_check: "checkLegalKey a k \<longleftrightarrow> legal_for (special_keys a) k"
  by (simp add: checkLegalKey_def legal_for_def special_keys_def)

lemma same_frame_special: "same_frame a b \<Longrightarrow> special_keys b = special_keys a"
  by (simp add: same_frame_def special_keys_def)

lemma subs_map_append:
  "subs_map (as @ bs) k = (case subs_map as k of Some v \<Rightarrow> Some v | None \<Rightarrow> subs_map bs k)"
  by (induction as) (auto split: option.split)

lemma subs_map_None: "subs_map as k = None \<longleftrightarrow> (\<forall>a \<in> set as. aha_map a k = None)"
  by (induction as) (auto split: option.split)

lemma closed_keep:
  assumes "same_frame a b" "\<And>x. key_at a x \<noteq> emptyKey a \<Longrightarrow> key_at b x \<noteq> emptyKey a"
    "isFull a \<noteq> 0 \<Longrightarrow> isFull b \<noteq> 0" "aha_closed F a k"
  shows "aha_closed F b k"
proof (cases "isFull a = 0")
  case True
  then have "key_at a (path F a k n) \<noteq> emptyKey a" if "n < aha_capacity a" for n
    using assms(4) that by (simp add: aha_closed_def)
  then have "key_at b (path F b k n) \<noteq> emptyKey b" if "n < aha_capacity b" for n
    using assms(2) that assms(1) by (simp add: same_frame_path [OF assms(1)]) (simp add: same_frame_def)
  then show ?thesis by (simp add: aha_closed_def)
qed (use assms(3) in \<open>simp add: aha_closed_def\<close>)

lemma closed_not_stored:
  assumes "ins_stored F th a k mv b pc"
  shows "\<not> aha_closed F a k"
proof -
  obtain i n where "isFull a = 0" "reached F a k i n" "key_at a i = emptyKey a"
    using assms unfolding ins_stored_def by blast
  then show ?thesis by (auto simp: aha_closed_def reached_def)
qed

lemma closed_stored:
  assumes "ins_stored F th a k mv b pc" "checkLegalKey a k" "aha_wf a" "aha_closed F a k'"
  shows "aha_closed F b k'"
proof -
  obtain i where f: "same_frame a b" and c: "aha_cells b = (aha_cells a)[i := (k, mv)]" and z: "isFull a = 0"
    using assms(1) unfolding ins_stored_def by blast
  have "key_at b x \<noteq> emptyKey a" if "key_at a x \<noteq> emptyKey a" for x
    using that assms(2) by (auto simp: key_at_def c nth_update_any checkLegalKey_def)
  from closed_keep [OF f this _ assms(4)] z show ?thesis by simp
qed

lemma layered_cons:
  assumes "layered F (a # as)" "layered F bs"
    "\<And>k'. k' \<noteq> k \<Longrightarrow> subs_map bs k' = subs_map as k'"
    "\<And>k'. aha_closed F a k' \<Longrightarrow> aha_closed F b k'" "\<And>k'. k' \<noteq> k \<Longrightarrow> aha_map b k' = aha_map a k'"
    "subs_map bs k \<noteq> None \<Longrightarrow> aha_map b k = None \<and> aha_closed F b k"
  shows "layered F (b # bs)"
proof -
  have "aha_map b k' = None \<and> aha_closed F b k'" if "subs_map bs k' \<noteq> None" for k'
  proof (cases "k' = k")
    case True then show ?thesis using assms(6) that by simp
  next
    case False
    then have "subs_map as k' \<noteq> None" using that assms(3) by simp
    then have "aha_map a k' = None" "aha_closed F a k'" using assms(1) by auto
    then show ?thesis using assms(4,5) False by simp
  qed
  then show ?thesis using assms(2) by simp
qed

subsection \<open>Trying the arrays in order\<close>

definition try_result :: "'k aha_fns \<Rightarrow> 'k \<Rightarrow> 'v \<Rightarrow> ('k, 'v) aha list \<Rightarrow> ('k, 'v) aha list \<Rightarrow> ahm_ret option \<Rightarrow> bool" where
  "try_result F k v as bs r \<longleftrightarrow>
    (\<exists>i j. r = Some (AhmRet i j True) \<and> subs_map as k = None \<and> subs_map bs = (subs_map as)(k \<mapsto> v) \<and>
      (\<exists>a \<in> set as. \<not> aha_closed F a k)) \<or>
    (\<exists>i j. r = Some (AhmRet i j False) \<and> subs_map as k \<noteq> None \<and> subs_map bs = subs_map as) \<or>
    r = None \<and> subs_map as k = None \<and> subs_map bs = subs_map as \<and> (\<forall>a \<in> set as. aha_closed F a k) \<and>
      (\<forall>b \<in> set bs. aha_closed F b k)"

lemma try_subs_spec:
  assumes "subs_ok F th ks as" "legal_for ks k"
  shows "\<exists>bs r. try_subs F th k (Some v) i as = Some (bs, r) \<and> subs_ok F th ks bs \<and>
    list_all2 same_frame as bs \<and> try_result F k v as bs r"
  using assms(1)
proof (induction as arbitrary: i)
  case Nil
  then show ?case by (auto simp: try_result_def)
next
  case (Cons a as)
  have seq: "aha_seq F th a" and sk: "special_keys a = ks" and lay: "layered F (a # as)"
    and ok: "subs_ok F th ks as" using Cons.prems by (auto simp: subs_ok_def)
  have l: "checkLegalKey a k" using assms(2) sk by (simp add: legal_for_check)
  have wf: "aha_wf a" and ka: "keys_ok F a" using seq by (simp_all add: aha_seq_def)
  obtain b pc where run: "aha_insertInternal F th a k (Some v) = Some (b, ins_ret pc)"
    and o: "ins_outcome F th a k (Some v) b pc" using aha_insert_spec [OF seq l] by blast
  from o consider "ins_present a k b pc" | "ins_stored F th a k (Some v) b pc" | "ins_full F a k b pc"
    by (auto simp: ins_outcome_def ins_threw_def)
  then show ?case
  proof cases
    case 1
    then obtain j where j: "j < aha_capacity a" "key_at a j = k" "pc = I_Ret j False" "b = a"
      by (auto simp: ins_present_def)
    have "aha_map a k \<noteq> None" by (rule aha_map_at(2) [OF ka j(1,2) l])
    then have "subs_map (a # as) k \<noteq> None" by auto
    then have "try_result F k v (a # as) (a # as) (Some (AhmRet i j False))"
      unfolding try_result_def by blast
    moreover have "try_subs F th k (Some v) i (a # as) = Some (a # as, Some (AhmRet i j False))"
      using run j by simp
    moreover have "list_all2 same_frame (a # as) (a # as)" by (simp add: list_all2_same)
    ultimately show ?thesis using Cons.prems by blast
  next
    case 2
    then obtain j where j: "j < aha_capacity a" "pc = I_Ret j True" and f: "same_frame a b"
      by (auto simp: ins_stored_def)
    note st = stored_seq [OF seq l 2]
    have none: "subs_map as k = None" using lay closed_not_stored [OF 2] by auto
    have lb: "layered F (b # as)"
      by (rule layered_cons [OF lay, where k = k])
        (use lay closed_stored [OF 2 l wf] st none in auto)
    have "subs_map (b # as) = (subs_map (a # as))(k \<mapsto> v)"
      by (rule ext) (simp add: st(2))
    moreover have "subs_map (a # as) k = None" using st(3) none by simp
    moreover have "\<exists>a \<in> set (a # as). \<not> aha_closed F a k" using closed_not_stored [OF 2] by simp
    ultimately have "try_result F k v (a # as) (b # as) (Some (AhmRet i j True))"
      unfolding try_result_def by blast
    moreover have "try_subs F th k (Some v) i (a # as) = Some (b # as, Some (AhmRet i j True))"
      using run j by simp
    moreover have "list_all2 same_frame (a # as) (b # as)" using f by (simp add: list_all2_same)
    moreover have "subs_ok F th ks (b # as)"
      using ok st(1) lb sk same_frame_special [OF f] by (simp add: subs_ok_def)
    ultimately show ?thesis by blast
  next
    case 3
    then have pc: "pc = I_Ret (aha_capacity a) False" and f: "same_frame a b" and c: "aha_cells b = aha_cells a"
      and ab: "key_absent a k" and cl: "aha_closed F b k" "aha_closed F a k" and fl: "isFull a \<noteq> 0 \<longrightarrow> isFull b \<noteq> 0"
      by (simp_all add: ins_full_def)
    have sb: "aha_seq F th b"
      by (rule seq_same_cells [OF seq f c]) (use 3 in \<open>simp_all add: ins_full_def\<close>)
    have mb: "aha_map b = aha_map a" by (rule aha_map_same_cells [OF f c])
    have nk: "aha_map a k = None" by (rule aha_map_absent [OF ab])
    obtain bs r where rec: "try_subs F th k (Some v) (Suc i) as = Some (bs, r)" "subs_ok F th ks bs"
      "list_all2 same_frame as bs" "try_result F k v as bs r" using Cons.IH [OF ok] by blast
    have cb: "aha_closed F b k'" if "aha_closed F a k'" for k'
      by (rule closed_keep [OF f _ _ that]) (use fl c in \<open>simp_all add: key_at_def\<close>)
    have "subs_map bs k' = subs_map as k'" if "k' \<noteq> k" for k'
      using rec(4) that by (auto simp: try_result_def)
    then have lb: "layered F (b # bs)"
      by (intro layered_cons [OF lay, where k = k]) (use rec(2) cb mb nk cl in \<open>auto simp: subs_ok_def\<close>)
    have eq: "subs_map (b # bs) = (subs_map (a # as))(k \<mapsto> v)" if "subs_map bs = (subs_map as)(k \<mapsto> v)"
      using that mb nk by (auto simp: fun_eq_iff split: option.split)
    have eq': "subs_map (b # bs) = subs_map (a # as)" if "subs_map bs = subs_map as"
      using that mb by (auto simp: fun_eq_iff split: option.split)
    have "try_result F k v (a # as) (b # bs) r"
      using rec(4) eq eq' nk cl unfolding try_result_def by auto
    moreover have "try_subs F th k (Some v) i (a # as) = Some (b # bs, r)" using run pc rec(1) by simp
    moreover have "subs_ok F th ks (b # bs)"
      using rec(2) sb lb sk same_frame_special [OF f] by (auto simp: subs_ok_def)
    ultimately show ?thesis using rec(3) f by auto
  qed
qed

subsection \<open>Growing\<close>

text \<open>What the sizes computed for the next array must be: they are, if the arithmetic rounds as documented.\<close>

definition grows_ok :: "fpu \<Rightarrow> ('k, 'v) ahm \<Rightarrow> bool" where
  "grows_ok U m \<longleftrightarrow> (\<forall>n < kNumSubMaps. 0 < n \<longrightarrow> may_grow U m n \<longrightarrow>
     (let mlf = maxLoadFactor (sub_config U (subMaps m ! 0)) in
      0 < mlf \<and> mlf \<le> 1 \<and> 0 < create_capacity U mlf (next_size U m n)))"

definition ahm_inv :: "fpu \<Rightarrow> 'k aha_fns \<Rightarrow> nat \<Rightarrow> nat \<Rightarrow> ('k, 'v) ahm \<Rightarrow> bool" where
  "ahm_inv U F nthreads th m \<longleftrightarrow> subMaps m \<noteq> [] \<and> numMapsAllocated m \<le> kNumSubMaps \<and>
     subs_ok F th (special_keys (subMaps m ! 0)) (subMaps m) \<and> grows_ok U m \<and> th < nthreads"

definition ahm_map :: "('k, 'v) ahm \<Rightarrow> 'k \<Rightarrow> 'v option" where
  "ahm_map m = subs_map (subMaps m)"

definition ahm_legal :: "('k, 'v) ahm \<Rightarrow> 'k \<Rightarrow> bool" where
  "ahm_legal m = legal_for (special_keys (subMaps m ! 0))"

lemma grows_ok_frame:
  assumes "same_frame (subMaps m ! 0) (subMaps m' ! 0)" "kGrowthFrac m' = kGrowthFrac m"
  shows "grows_ok U m' = grows_ok U m"
  using assms by (simp add: grows_ok_def may_grow_def next_size_def sub_config_def same_frame_def Let_def)

lemma ahm_inv_subs:
  assumes "ahm_inv U F nthreads th m" "subs_ok F th (special_keys (subMaps m ! 0)) bs"
    "list_all2 same_frame (subMaps m) bs"
  shows "ahm_inv U F nthreads th (m\<lparr> subMaps := bs \<rparr>)" "ahm_legal (m\<lparr> subMaps := bs \<rparr>) = ahm_legal m"
    "special_keys (bs ! 0) = special_keys (subMaps m ! 0)" "bs \<noteq> []"
proof -
  have ne: "subMaps m \<noteq> []" using assms(1) by (simp add: ahm_inv_def)
  have len: "length bs = length (subMaps m)" using assms(3) by (metis list_all2_lengthD)
  then show "bs \<noteq> []" using ne by auto
  have f: "same_frame (subMaps m ! 0) (bs ! 0)" using assms(3) ne by (simp add: list_all2_nthD)
  then show sk: "special_keys (bs ! 0) = special_keys (subMaps m ! 0)" by (rule same_frame_special)
  then show "ahm_legal (m\<lparr> subMaps := bs \<rparr>) = ahm_legal m" by (simp add: ahm_legal_def)
  have "grows_ok U (m\<lparr> subMaps := bs \<rparr>) = grows_ok U m" by (rule grows_ok_frame) (use f in simp_all)
  then show "ahm_inv U F nthreads th (m\<lparr> subMaps := bs \<rparr>)"
    using assms(1,2) sk len \<open>bs \<noteq> []\<close> by (simp add: ahm_inv_def numMapsAllocated_def)
qed

lemma layered_snoc:
  assumes "layered F bs" "\<And>c. c \<in> set bs \<Longrightarrow> aha_closed F c k" "subs_map bs k = None"
    "\<And>k'. k' \<noteq> k \<Longrightarrow> aha_map b k' = None"
  shows "layered F (bs @ [b])"
  using assms
proof (induction bs)
  case (Cons a as)
  have ih: "layered F (as @ [b])" by (rule Cons.IH) (use Cons.prems in \<open>auto split: option.splits\<close>)
  have "aha_map a k' = None \<and> aha_closed F a k'" if "subs_map (as @ [b]) k' \<noteq> None" for k'
  proof (cases "k' = k")
    case True then show ?thesis using Cons.prems(2) [of a] Cons.prems(3) by (auto split: option.splits)
  next
    case False
    then have "subs_map as k' \<noteq> None"
      using that Cons.prems(4) by (auto simp: subs_map_append split: option.splits)
    then show ?thesis using Cons.prems(1) by auto
  qed
  then show ?case using ih by simp
qed simp

lemma fresh_stored:
  assumes "aha_create U nthreads mem sz c = Some a" "0 < create_capacity U (maxLoadFactor c) sz"
    "cfg_erasedKey c \<noteq> cfg_emptyKey c" "cfg_erasedKey c \<noteq> cfg_lockedKey c" "th < nthreads"
    "checkLegalKey a k"
  shows "\<exists>b j. aha_insertInternal F th a k (Some v) = Some (b, SimpleRet j True) \<and> j < aha_capacity a \<and>
    aha_seq F th b \<and> aha_map b = [k \<mapsto> v] \<and> same_frame a b"
proof -
  note cr = aha_create_seq [OF assms(1-5)]
  have seq: "aha_seq F th a" by (rule cr(1))
  have wf: "aha_wf a" using seq by (simp add: aha_seq_def)
  have z: "isFull a = 0"
  proof -
    have "isFull (mark_empty n x) = isFull x" for n and x :: "('a, 'b) aha" by (induction n) auto
    then show ?thesis using assms(1) by (auto simp: aha_create_def Let_def aha_construct_def split: if_splits)
  qed
  have r0: "reached F a k (anchor F a k) 0" by (rule reached_0 [OF wf])
  have st: "aha_start a []" using aha_create_start [OF assms(1-4), of 0] by simp
  have e: "key_at a (anchor F a k) = emptyKey a"
    using st reached_lt [OF wf r0] by (auto simp: aha_start_def list_all_length key_at_def)
  have nc: "\<not> aha_closed F a k" using z e wf by (auto simp: aha_closed_def path_0 aha_wf_def intro!: exI [of _ 0])
  obtain b pc where run: "aha_insertInternal F th a k (Some v) = Some (b, ins_ret pc)"
    and o: "ins_outcome F th a k (Some v) b pc" using aha_insert_spec [OF seq assms(6)] by blast
  have np: "\<not> ins_present a k b pc"
  proof
    assume "ins_present a k b pc"
    then obtain i where i: "i < aha_capacity a" "key_at a i = k" by (auto simp: ins_present_def)
    have "keys_ok F a" using seq by (simp add: aha_seq_def)
    from aha_map_at(2) [OF this i assms(6)] cr(2) show False by simp
  qed
  have sto: "ins_stored F th a k (Some v) b pc"
    using o np nc by (auto simp: ins_outcome_def ins_full_def ins_threw_def)
  then obtain j where "j < aha_capacity a" "pc = I_Ret j True" "same_frame a b" by (auto simp: ins_stored_def)
  moreover have "aha_map b = [k \<mapsto> v]" using stored_seq(2) [OF seq assms(6) sto] cr(2) by simp
  ultimately show ?thesis using run stored_seq(1) [OF seq assms(6) sto] by auto
qed

definition ahm_insert :: "fpu \<Rightarrow> 'k aha_fns \<Rightarrow> nat \<Rightarrow> nat \<Rightarrow> 'k \<Rightarrow> ('k, 'v) ahm \<Rightarrow> 'k \<Rightarrow> 'v \<Rightarrow>
    (('k, 'v) ahm \<times> ins_answer) option" where
  "ahm_insert U F nthreads th mem m k v = (case ahm_insertInternal U F nthreads th mem m k (Some v) of
      Some (m', AhmRet i j s) \<Rightarrow> Some (m', if s then Added else Present)
    | Some (m', MapFull) \<Rightarrow> Some (m', NoRoom)
    | _ \<Rightarrow> None)"

definition ahm_find :: "'k aha_fns \<Rightarrow> nat \<Rightarrow> ('k, 'v) ahm \<Rightarrow> 'k \<Rightarrow> 'v option option" where
  "ahm_find F th m k = (case ahm_findInternal F th m k of None \<Rightarrow> None
    | Some (i, j, s) \<Rightarrow> if \<not> s then Some None else Some (value_at (subMaps m ! i) j))"

text \<open>The outcome when all arrays are closed to the key: an exception, or a new array that takes it.\<close>

lemma grow_spec:
  assumes inv: "ahm_inv U F nthreads th m" and l: "ahm_legal m k" and none: "subs_map (subMaps m) k = None"
    and cl: "\<And>c. c \<in> set (subMaps m) \<Longrightarrow> aha_closed F c k"
    and g: "may_grow U m (numMapsAllocated m)"
  obtains a b j where
    "aha_create U nthreads mem (next_size U m (numMapsAllocated m)) (sub_config U (subMaps m ! 0)) = Some a"
    "aha_insertInternal F th a k (Some v) = Some (b, SimpleRet j True)" "j \<noteq> aha_capacity a"
    "ahm_inv U F nthreads th (m\<lparr> subMaps := subMaps m @ [b] \<rparr>)"
    "ahm_map (m\<lparr> subMaps := subMaps m @ [b] \<rparr>) = (ahm_map m)(k \<mapsto> v)"
    "ahm_legal (m\<lparr> subMaps := subMaps m @ [b] \<rparr>) = ahm_legal m"
proof -
  let ?c = "sub_config U (subMaps m ! 0)" and ?n = "numMapsAllocated m"
  have ne: "subMaps m \<noteq> []" and ok: "subs_ok F th (special_keys (subMaps m ! 0)) (subMaps m)"
    and go: "grows_ok U m" and th: "th < nthreads" using inv by (simp_all add: ahm_inv_def)
  have n: "0 < ?n" "?n < kNumSubMaps" using ne g by (auto simp: numMapsAllocated_def may_grow_def)
  have c: "0 < maxLoadFactor ?c" "maxLoadFactor ?c \<le> 1"
    "0 < create_capacity U (maxLoadFactor ?c) (next_size U m ?n)"
    using go n g by (simp_all add: grows_ok_def Let_def)
  have wf0: "aha_wf (subMaps m ! 0)" using ok ne by (simp add: subs_ok_def aha_seq_def)
  then have keys: "cfg_emptyKey ?c \<noteq> cfg_lockedKey ?c" "cfg_erasedKey ?c \<noteq> cfg_emptyKey ?c"
    "cfg_erasedKey ?c \<noteq> cfg_lockedKey ?c" by (auto simp: sub_config_def aha_wf_def)
  obtain a :: "('a, 'b) aha" where a: "aha_create U nthreads mem (next_size U m ?n) ?c = Some a"
    using c keys by (auto simp: aha_create_def Let_def)
  have "same_frame x (mark_empty q x)" for x :: "('a, 'b) aha" and q by (rule mark_empty_frame)
  then have sk: "special_keys a = special_keys (subMaps m ! 0)"
    using a by (auto simp: aha_create_def Let_def special_keys_def same_frame_def aha_construct_def
        sub_config_def split: if_splits)
  have la: "checkLegalKey a k" using l sk by (simp add: legal_for_check ahm_legal_def)
  obtain b j where b: "aha_insertInternal F th a k (Some v) = Some (b, SimpleRet j True)" "j < aha_capacity a"
    "aha_seq F th b" "aha_map b = [k \<mapsto> v]" "same_frame a b"
    using fresh_stored [OF a c(3) keys(2,3) th la] by blast
  let ?m = "m\<lparr> subMaps := subMaps m @ [b] \<rparr>"
  have h0: "subMaps ?m ! 0 = subMaps m ! 0" using ne by (simp add: nth_append)
  have lay: "layered F (subMaps m @ [b])"
    by (rule layered_snoc [where k = k]) (use ok cl none b(4) in \<open>auto simp: subs_ok_def\<close>)
  have so: "subs_ok F th (special_keys (subMaps m ! 0)) (subMaps m @ [b])"
    using ok lay b(3) sk same_frame_special [OF b(5)] by (auto simp: subs_ok_def)
  have gm: "grows_ok U ?m" using go grows_ok_frame [of m ?m U] h0 by simp
  have "ahm_inv U F nthreads th ?m"
    using so gm th n h0 by (simp add: ahm_inv_def numMapsAllocated_def)
  moreover have "ahm_map ?m = (ahm_map m)(k \<mapsto> v)"
    using none b(4) by (auto simp: ahm_map_def fun_eq_iff subs_map_append split: option.split)
  moreover have "ahm_legal ?m = ahm_legal m" using h0 by (simp add: ahm_legal_def)
  ultimately show ?thesis using that a b(1,2) by simp
qed

subsection \<open>The table contract\<close>

lemma ahm_ins_law:
  assumes inv: "ahm_inv U F nthreads th m" and l: "ahm_legal m k"
  shows "\<exists>m' r. ahm_insert U F nthreads th mem m k v = Some (m', r) \<and> ahm_inv U F nthreads th m' \<and>
    ahm_legal m' = ahm_legal m \<and> abs_op (ahm_map m) (T_Insert k v) (A_Insert r) = Some (ahm_map m')"
proof -
  have so: "subs_ok F th (special_keys (subMaps m ! 0)) (subMaps m)" using inv by (simp add: ahm_inv_def)
  obtain bs r where t: "try_subs F th k (Some v) 0 (subMaps m) = Some (bs, r)"
    "subs_ok F th (special_keys (subMaps m ! 0)) bs" "list_all2 same_frame (subMaps m) bs"
    "try_result F k v (subMaps m) bs r"
    using try_subs_spec [OF so, of k v 0] l by (auto simp: ahm_legal_def)
  let ?m = "m\<lparr> subMaps := bs \<rparr>"
  note i = ahm_inv_subs [OF inv t(2,3)]
  have unfold: "ahm_insertInternal U F nthreads th mem m k (Some v) = Some (?m, x)" if "r = Some x" for x
    using t(1) that by (subst ahm_insertInternal.simps) simp
  from t(4) consider
      (added) a b where "r = Some (AhmRet a b True)" "ahm_map m k = None" "ahm_map ?m = (ahm_map m)(k \<mapsto> v)"
    | (present) a b where "r = Some (AhmRet a b False)" "ahm_map m k \<noteq> None" "ahm_map ?m = ahm_map m"
    | (all_full) "r = None" "ahm_map m k = None" "ahm_map ?m = ahm_map m" "\<forall>b \<in> set bs. aha_closed F b k"
    unfolding try_result_def by (fastforce simp: ahm_map_def)
  then show ?thesis
  proof cases
    case added
    then have "ahm_insert U F nthreads th mem m k v = Some (?m, Added)"
      by (simp add: ahm_insert_def unfold)
    then show ?thesis using i added by (intro exI [of _ ?m] exI [of _ Added]) simp
  next
    case present
    then have "ahm_insert U F nthreads th mem m k v = Some (?m, Present)"
      by (simp add: ahm_insert_def unfold)
    then show ?thesis using i present by (intro exI [of _ ?m] exI [of _ Present]) auto
  next
    case all_full
    have len: "length bs = numMapsAllocated m" using t(3) by (metis list_all2_lengthD numMapsAllocated_def)
    show ?thesis
    proof (cases "may_grow U ?m (numMapsAllocated m)")
      case False
      then have "ahm_insert U F nthreads th mem m k v = Some (?m, NoRoom)"
        using t(1) all_full(1) unfolding ahm_insert_def by (subst ahm_insertInternal.simps) (simp add: Let_def)
      then show ?thesis using i all_full by (intro exI [of _ ?m] exI [of _ NoRoom]) simp
    next
      case True
      have n: "numMapsAllocated ?m = numMapsAllocated m" using len by (simp add: numMapsAllocated_def)
      have g: "may_grow U ?m (numMapsAllocated ?m)" using True n by simp
      have l': "ahm_legal ?m k" using l i(2) by simp
      have none: "subs_map (subMaps ?m) k = None" using all_full by (simp add: ahm_map_def)
      have cl: "aha_closed F c k" if "c \<in> set (subMaps ?m)" for c using all_full that by simp
      obtain a b j where
        a: "aha_create U nthreads mem (next_size U ?m (numMapsAllocated ?m)) (sub_config U (subMaps ?m ! 0)) = Some a"
        and b: "aha_insertInternal F th a k (Some v) = Some (b, SimpleRet j True)" "j \<noteq> aha_capacity a"
        and m2: "ahm_inv U F nthreads th (?m\<lparr> subMaps := subMaps ?m @ [b] \<rparr>)"
        "ahm_map (?m\<lparr> subMaps := subMaps ?m @ [b] \<rparr>) = (ahm_map ?m)(k \<mapsto> v)"
        "ahm_legal (?m\<lparr> subMaps := subMaps ?m @ [b] \<rparr>) = ahm_legal ?m"
        using grow_spec [OF i(1) l' none cl g] by blast
      let ?m2 = "?m\<lparr> subMaps := subMaps ?m @ [b] \<rparr>"
      have "ahm_insertInternal U F nthreads th mem m k (Some v) = Some (?m2, AhmRet (numMapsAllocated m) j True)"
        using t(1) all_full(1) True a b n by (subst ahm_insertInternal.simps) (simp add: Let_def)
      then have "ahm_insert U F nthreads th mem m k v = Some (?m2, Added)" by (simp add: ahm_insert_def)
      moreover have "abs_op (ahm_map m) (T_Insert k v) (A_Insert Added) = Some (ahm_map ?m2)"
        using all_full(2,3) m2(2) by simp
      ultimately show ?thesis using m2 i(2) by (intro exI [of _ ?m2] exI [of _ Added]) simp
    qed
  qed
qed

lemma find_subs_spec:
  assumes "subs_ok F th ks as" "legal_for ks k"
  shows "(\<exists>n j. find_subs F th k i as = Some (i + n, j, True) \<and> n < length as \<and>
      subs_map as k = value_at (as ! n) j \<and> subs_map as k \<noteq> None) \<or>
    find_subs F th k i as = Some (i + length as, 0, False) \<and> subs_map as k = None"
  using assms(1)
proof (induction as arbitrary: i)
  case (Cons a as)
  have seq: "aha_seq F th a" and sk: "special_keys a = ks" and ok: "subs_ok F th ks as"
    using Cons.prems by (auto simp: subs_ok_def)
  have l: "checkLegalKey a k" using assms(2) sk by (simp add: legal_for_check)
  have ka: "keys_ok F a" using seq by (simp add: aha_seq_def)
  obtain x b where r: "aha_findInternal F th a k = Some (x, b)"
    and xb: "if b then x < aha_capacity a \<and> key_at a x = k else x = aha_capacity a \<and> key_absent a k"
    using aha_findInternal_spec [OF seq l] by blast
  show ?case
  proof (cases b)
    case True
    then have x: "x < aha_capacity a" "key_at a x = k" using xb by simp_all
    have m: "aha_map a k = value_at a x" "aha_map a k \<noteq> None"
      using aha_map_at [OF ka x l] by simp_all
    have "find_subs F th k i (a # as) = Some (i + 0, x, True)" using r True x by simp
    moreover have "subs_map (a # as) k = value_at ((a # as) ! 0) x" "subs_map (a # as) k \<noteq> None"
      using m by auto
    ultimately show ?thesis by (intro disjI1 exI [of _ 0] exI [of _ x]) simp
  next
    case False
    then have f: "find_subs F th k i (a # as) = find_subs F th k (Suc i) as" using r xb by simp
    have n: "aha_map a k = None" using False xb aha_map_absent [of a k] by simp
    from Cons.IH [OF ok, of "Suc i"] show ?thesis
    proof (elim disjE exE conjE)
      fix q j assume "find_subs F th k (Suc i) as = Some (Suc i + q, j, True)" "q < length as"
        "subs_map as k = value_at (as ! q) j" "subs_map as k \<noteq> None"
      then show ?thesis using f n by (intro disjI1 exI [of _ "Suc q"] exI [of _ j]) simp
    qed (use f n in simp)
  qed
qed simp

lemma ahm_fnd_law:
  assumes "ahm_inv U F nthreads th m" "ahm_legal m k"
  shows "ahm_find F th m k = Some (ahm_map m k)"
proof -
  have so: "subs_ok F th (special_keys (subMaps m ! 0)) (subMaps m)" using assms(1) by (simp add: ahm_inv_def)
  from find_subs_spec [OF so, of k 0] assms(2) show ?thesis
    by (auto simp: ahm_find_def ahm_findInternal_def ahm_map_def ahm_legal_def)
qed

lemma erase_subs_spec:
  assumes "subs_ok F th ks as" "legal_for ks k"
  shows "\<exists>bs n. erase_subs F th k as = Some (bs, n) \<and> subs_ok F th ks bs \<and> list_all2 same_frame as bs \<and>
    n = (if subs_map as k = None then 0 else 1) \<and> subs_map bs = (subs_map as)(k := None)"
  using assms(1)
proof (induction as)
  case (Cons a as)
  have seq: "aha_seq F th a" and sk: "special_keys a = ks" and lay: "layered F (a # as)"
    and ok: "subs_ok F th ks as" using Cons.prems by (auto simp: subs_ok_def)
  have l: "checkLegalKey a k" using assms(2) sk by (simp add: legal_for_check)
  have ka: "keys_ok F a" using seq by (simp add: aha_seq_def)
  obtain b n where r: "aha_erase F th a k = Some (b, n)" and o: "n = 0 \<and> b = a \<and> key_absent a k \<or>
     n = 1 \<and> (\<exists>x < aha_capacity a. key_at a x = k \<and> b = (set_key x (erasedKey a) a)\<lparr> numErases := numErases a + 1 \<rparr>)"
    using aha_erase_spec [OF seq l] by blast
  from o show ?case
  proof (elim disjE conjE exE)
    assume n: "n = 0" "b = a" and ab: "key_absent a k"
    have nk: "aha_map a k = None" by (rule aha_map_absent [OF ab])
    obtain bs n' where rec: "erase_subs F th k as = Some (bs, n')" "subs_ok F th ks bs"
      "list_all2 same_frame as bs" "n' = (if subs_map as k = None then 0 else 1)"
      "subs_map bs = (subs_map as)(k := None)" using Cons.IH [OF ok] by blast
    have "layered F (a # bs)" using lay rec(2,5) by (auto simp: subs_ok_def)
    then have "subs_ok F th ks (a # bs)" using rec(2) seq sk by (simp add: subs_ok_def)
    moreover have "subs_map (a # bs) = (subs_map (a # as))(k := None)"
      using rec(5) nk by (auto simp: fun_eq_iff split: option.split)
    ultimately show ?thesis using r n rec nk by auto
  next
    fix x assume n: "n = 1" and x: "x < aha_capacity a" "key_at a x = k"
      and b: "b = (set_key x (erasedKey a) a)\<lparr> numErases := numErases a + 1 \<rparr>"
    note er = erased_seq [OF seq l x b]
    have mk: "aha_map a k \<noteq> None" by (rule aha_map_at(2) [OF ka x l])
    then have none: "subs_map as k = None" using lay by auto
    have f: "same_frame a b" by (simp add: b same_frame_def set_key_def)
    have cb: "aha_closed F b k'" if "aha_closed F a k'" for k'
    proof (rule closed_keep [OF f _ _ that])
      show "key_at b y \<noteq> emptyKey a" if "key_at a y \<noteq> emptyKey a" for y
        using that seq by (auto simp: b aha_seq_def aha_wf_def)
    qed (simp add: b)
    have "layered F (b # as)" using lay cb er(2) none by auto
    then have "subs_ok F th ks (b # as)" using ok er(1) sk same_frame_special [OF f] by (simp add: subs_ok_def)
    moreover have "subs_map (b # as) = (subs_map (a # as))(k := None)"
      using er(2) none by (auto simp: fun_eq_iff split: option.split)
    moreover have "erase_subs F th k (a # as) = Some (b # as, 1)" using r n by simp
    moreover have "list_all2 same_frame (a # as) (b # as)" using f by (simp add: list_all2_same)
    moreover have "(1 :: nat) = (if subs_map (a # as) k = None then 0 else 1)" using mk by auto
    ultimately show ?thesis by blast
  qed
qed auto

lemma ahm_era_law:
  assumes inv: "ahm_inv U F nthreads th m" and l: "ahm_legal m k"
  shows "\<exists>m' n. ahm_erase F th m k = Some (m', n) \<and> ahm_inv U F nthreads th m' \<and>
    ahm_legal m' = ahm_legal m \<and> abs_op (ahm_map m) (T_Erase k) (A_Erase n) = Some (ahm_map m')"
proof -
  have so: "subs_ok F th (special_keys (subMaps m ! 0)) (subMaps m)" using inv by (simp add: ahm_inv_def)
  obtain bs n where e: "erase_subs F th k (subMaps m) = Some (bs, n)"
    "subs_ok F th (special_keys (subMaps m ! 0)) bs" "list_all2 same_frame (subMaps m) bs"
    "n = (if subs_map (subMaps m) k = None then 0 else 1)" "subs_map bs = (subs_map (subMaps m))(k := None)"
    using erase_subs_spec [OF so, of k] l by (auto simp: ahm_legal_def)
  let ?m = "m\<lparr> subMaps := bs \<rparr>"
  have "ahm_erase F th m k = Some (?m, n)" using e(1) by (simp add: ahm_erase_def)
  moreover have "abs_op (ahm_map m) (T_Erase k) (A_Erase n) = Some (ahm_map ?m)"
    using e(4,5) by (simp add: ahm_map_def)
  ultimately show ?thesis using ahm_inv_subs [OF inv e(2,3)]
    by (intro exI [of _ ?m] exI [of _ n]) simp
qed

interpretation ahm: table "ahm_inv U F nthreads th" ahm_legal ahm_map
    "ahm_insert U F nthreads th mem" "ahm_find F th" "ahm_erase F th"
  for U F nthreads th mem
  by unfold_locales (fact ahm_ins_law ahm_fnd_law ahm_era_law)+

end
