(* ===== verification/Hash_Array_Props.thy ===== *)
theory Hash_Array_Props imports Hash_Array_Ops begin

text \<open>
  The properties of the atomic hash array, with schedules of its threads that
  witness them, and what the schedules show besides.
\<close>

subsection \<open>Schedules\<close>

text \<open>A schedule is the list of the threads that take a step; a thread between operations may not.\<close>

fun aha_sched :: "'k aha_fns \<Rightarrow> nat list \<Rightarrow> ('k, 'v) aha \<times> ('k, 'v) job list \<Rightarrow> (('k, 'v) aha \<times> ('k, 'v) job list) option" where
  "aha_sched F [] s = Some s"
| "aha_sched F (i # is) (a, js) =
     (if i < length js \<and> \<not> job_over (js ! i) then
        (case job_step F i a (js ! i) of (b, j) \<Rightarrow> aha_sched F is (b, js[i := j]))
      else None)"

lemma aha_sched_reach: "aha_sched F is s = Some t \<Longrightarrow> (aha_step F)\<^sup>*\<^sup>* s t"
proof (induction F "is" s rule: aha_sched.induct)
  case (2 F i "is" a js)
  obtain b j where st: "job_step F i a (js ! i) = (b, j)" by (cases "job_step F i a (js ! i)")
  have c: "i < length js \<and> \<not> job_over (js ! i)" and r: "aha_sched F is (b, js[i := j]) = Some t"
    using 2(2) st by (auto split: if_splits)
  have "aha_step F (a, js) (b, js[i := j])" using c st by (intro aha_step.run) simp_all
  then show ?case using 2(1) [OF c st [symmetric] r] by (rule converse_rtranclp_into_rtranclp)
qed simp

definition call_all :: "('k, 'v) job list \<Rightarrow> ('k, 'v) job list \<Rightarrow> nat \<Rightarrow> ('k, 'v) job list" where
  "call_all js cs n = take n cs @ drop n js"

lemma calls_reach:
  assumes "list_all job_over js" "length cs = length js"
    "\<And>j. j \<in> set cs \<Longrightarrow> \<exists>k mv. checkLegalKey a k \<and> j \<in> {start_insert F a k mv, start_find F a k, start_erase F a k}"
  shows "(aha_step F)\<^sup>*\<^sup>* (a, js) (a, cs)"
proof -
  have "(aha_step F)\<^sup>*\<^sup>* (a, js) (a, call_all js cs n)" if "n \<le> length js" for n
    using that
  proof (induction n)
    case (Suc n)
    then have n: "n < length js" by simp
    have "cs ! n \<in> set cs" using n assms(2) by simp
    from assms(3) [OF this] obtain k mv where
      k: "checkLegalKey a k" "cs ! n \<in> {start_insert F a k mv, start_find F a k, start_erase F a k}" by blast
    have i: "n < length (call_all js cs n)" "job_over (call_all js cs n ! n)"
      using n assms(1,2) by (simp_all add: call_all_def nth_append list_all_length)
    have "call_all js cs (Suc n) = (call_all js cs n)[n := cs ! n]"
      using n assms(2) by (simp add: call_all_def list_update_append take_Suc_conv_app_nth
          Cons_nth_drop_Suc [symmetric, of n js])
    then have "aha_step F (a, call_all js cs n) (a, call_all js cs (Suc n))"
      using aha_step.call [OF i k] by simp
    moreover have "(aha_step F)\<^sup>*\<^sup>* (a, js) (a, call_all js cs n)" using Suc by simp
    ultimately show ?case by (meson rtranclp.rtrancl_into_rtrancl)
  qed (simp add: call_all_def)
  from this [of "length js"] show ?thesis using assms(2) by (simp add: call_all_def)
qed

definition demo_fns :: "nat aha_fns" where
  "demo_fns = \<lparr> HashFcn = word_of_nat, ProbeFcn = LinearProbe \<rparr>"

definition demo_aha :: "(nat, nat) aha" where
  "demo_aha = \<lparr> aha_capacity = 2, maxEntries = 2, emptyKey = 0, lockedKey = 1, erasedKey = 2, anchorMask = 1,
     numEntries = tci_new 0 1000 2, numPending = tci_new 0 1000 2, isFull = 0, numErases = 0,
     aha_cells = [(0, None), (0, None)] \<rparr>"

lemma demo_start: "aha_start demo_aha [Idle, Idle]"
  by (simp add: aha_start_def demo_aha_def aha_wf_def aha_size_def)

definition demo_jobs :: "nat option \<Rightarrow> nat option \<Rightarrow> (nat, nat) job list" where
  "demo_jobs v w = [start_insert demo_fns demo_aha 4 v, start_insert demo_fns demo_aha 4 w]"

lemma demo_calls: "(aha_step demo_fns)\<^sup>*\<^sup>* (demo_aha, [Idle, Idle]) (demo_aha, demo_jobs v w)"
proof (rule calls_reach)
  have "checkLegalKey demo_aha 4" by (simp add: checkLegalKey_def demo_aha_def)
  then show "\<exists>k mv. checkLegalKey demo_aha k \<and>
      j \<in> {start_insert demo_fns demo_aha k mv, start_find demo_fns demo_aha k, start_erase demo_fns demo_aha k}"
    if "j \<in> set (demo_jobs v w)" for j using that unfolding demo_jobs_def by auto
qed (simp_all add: demo_jobs_def)

text \<open>Both threads find the cell empty; the first locks it, the second finds the key when it retries.\<close>

definition demo_race :: "nat list" where
  "demo_race = [0, 1, 0, 1, 0, 1, 0, 1, 0, 1, 0, 1, 1, 0, 0, 0]"

definition demo_after :: "(nat, nat) aha" where
  "demo_after = demo_aha\<lparr>
     numEntries := \<lparr> target = 0, cacheSize = 1000,
       caches = [Some \<lparr> cval = 1, numUpdates = 1, reset_flag = False \<rparr>, None] \<rparr>,
     numPending := \<lparr> target = 0, cacheSize = 1000,
       caches = [Some \<lparr> cval = 0, numUpdates = 2, reset_flag = False \<rparr>,
         Some \<lparr> cval = 0, numUpdates = 2, reset_flag = False \<rparr>] \<rparr>,
     aha_cells := [(4, Some 10), (0, None)] \<rparr>"

definition demo_returns :: "(nat, nat) job list" where
  "demo_returns = [InsertJob 4 (Some 10) (I_Ret 0 True), InsertJob 4 (Some 20) (I_Ret 0 False)]"

lemma demo_race_run: "aha_sched demo_fns demo_race (demo_aha, demo_jobs (Some 10) (Some 20)) = Some (demo_after, demo_returns)"
  by code_simp

lemma demo_race_reach: "(aha_step demo_fns)\<^sup>*\<^sup>* (demo_aha, [Idle, Idle]) (demo_after, demo_returns)"
  by (rule rtranclp_trans [OF demo_calls aha_sched_reach [OF demo_race_run]])

subsection \<open>The properties\<close>

text \<open>C19. However the operations interleave, a key is stored in at most one cell.

  In every state reachable from an empty array by any number of threads inserting, looking up and
  erasing, two cells that hold the same key are the same cell: of two insertions of a key
  that race at most one takes effect, whatever cells they find locked and whichever
  constructors throw.\<close>

theorem aha_no_duplicates:
  assumes "aha_start a js" "(aha_step F)\<^sup>*\<^sup>* (a, js) (b, js')"
    "i < aha_capacity b" "j < aha_capacity b" "checkLegalKey b (key_at b i)" "key_at b j = key_at b i"
  shows "i = j"
  using aha_reach_inv [OF assms(2,1)] by (intro keys_unique [of F, OF _ assms(3-6)]) (simp add: aha_inv_def)

lemma aha_no_duplicates_witness:
  "aha_start demo_aha [Idle, Idle] \<and> (aha_step demo_fns)\<^sup>*\<^sup>* (demo_aha, [Idle, Idle]) (demo_after, demo_returns) \<and>
    key_at demo_after 0 = 4 \<and> (0 :: nat) = 0"
proof -
  have "checkLegalKey demo_after (key_at demo_after 0)" "0 < aha_capacity demo_after"
    by (simp_all add: demo_after_def demo_aha_def key_at_def checkLegalKey_def)
  from aha_no_duplicates [OF demo_start demo_race_reach this(2,2,1) refl]
  show ?thesis using demo_start demo_race_reach
    by (auto simp: demo_after_def demo_aha_def key_at_def)
qed

text \<open>C36. Once all operations have returned, the size is the number of keys stored.

  In every reachable state whose threads are all between two operations, the size the array reports,
  the counter of entries with what the threads still cache less the counter of erases, is
  the number of cells that hold a key, modulo the width of the counters.\<close>

theorem aha_size_exact:
  assumes "aha_start a js" "(aha_step F)\<^sup>*\<^sup>* (a, js) (b, js')" "list_all job_over js'"
  shows "aha_size b = word_of_nat (length (filter (\<lambda>c. checkLegalKey b (fst c)) (aha_cells b)))"
proof -
  have "owed j = 0" if "job_over j" for j :: "('a, 'b) job"
    using that by (cases j) (auto split: ins_pc.splits erase_pc.splits)
  then have "sum_list (map owed js') = 0"
    using assms(3) by (intro sum_list_all_zero) (auto simp: list_all_iff)
  moreover have "stored b = aha_size b + sum_list (map owed js')"
    using aha_reach_inv [OF assms(2,1)] by (simp add: size_ok_def)
  moreover have "sum_list (map (\<lambda>c. if P c then 1 else 0) cs) = (word_of_nat (length (filter P cs)) :: 64 word)"
    for P and cs :: "('a \<times> 'b option) list" by (induction cs) auto
  ultimately show ?thesis by (simp add: stored_def)
qed

lemma aha_size_exact_witness:
  "aha_size demo_after = word_of_nat (length (filter (\<lambda>c. checkLegalKey demo_after (fst c)) (aha_cells demo_after)))"
  by (rule aha_size_exact [OF demo_start demo_race_reach]) (simp add: demo_returns_def)

text \<open>C20. Run one at a time, the operations implement a map from keys to values.

  From an array without locked cells and pending insertions every sequence of insertions, lookups
  and removals of legal keys returns, leaves the array so, and its answers are those of a partial
  function: an insertion adds a key that is not there and never overwrites one, a lookup returns the
  value of the insertion that added the key, a removal reports whether it removed anything, and an
  insertion that finds no room leaves the map alone.\<close>

theorem aha_refines_map:
  assumes "aha_seq F th a" "\<And>x. x \<in> set ops \<Longrightarrow> checkLegalKey a (op_key x)"
  shows "\<exists>b rs. do_ops (aha_insert F th) (aha_find F th) (aha_erase F th) a ops = Some (b, rs) \<and>
    aha_seq F th b \<and> abs_run (aha_map a) ops rs = Some (aha_map b)"
  by (rule aha.do_ops_refine [OF assms])

lemma demo_seq: "aha_seq demo_fns 0 demo_aha"
proof -
  have "keys_ok demo_fns demo_aha"
    using aha_start_inv(1) [OF demo_start, of demo_fns] by (simp add: aha_inv_def)
  then show ?thesis
    by (auto simp: aha_seq_def demo_aha_def aha_wf_def key_at_def less_Suc_eq numeral_2_eq_2)
qed

lemma aha_refines_map_witness:
  "\<exists>b rs. do_ops (aha_insert demo_fns 0) (aha_find demo_fns 0) (aha_erase demo_fns 0) demo_aha
      [T_Insert 4 10, T_Insert 6 20, T_Insert 8 30, T_Erase 4, T_Find 6] = Some (b, rs) \<and>
    aha_seq demo_fns 0 b \<and>
    abs_run (aha_map demo_aha) [T_Insert 4 10, T_Insert 6 20, T_Insert 8 30, T_Erase 4, T_Find 6] rs = Some (aha_map b)"
  by (rule aha_refines_map [OF demo_seq]) (auto simp: checkLegalKey_def demo_aha_def)

subsection \<open>An assertion that a throwing constructor violates\<close>

text \<open>
  After an insertion has lost the race for a cell it asserts that the cell's key is not the empty one
  before it waits for the winner. If the winner's constructor throws, the cell has become empty again:
  the state the loop below the assertion handles fails the assertion first.
\<close>

definition demo_throw :: "nat list" where
  "demo_throw = [0, 1, 0, 1, 0, 1, 0, 1, 1, 0, 0]"

lemma assertion_can_fail:
  "\<exists>b js. (aha_step demo_fns)\<^sup>*\<^sup>* (demo_aha, [Idle, Idle]) (b, js) \<and>
    js ! 1 = InsertJob 4 (Some 20) (I_TestLocked 0 0) \<and> key_at b 0 = emptyKey b"
proof -
  define t where "t = the (aha_sched demo_fns demo_throw (demo_aha, demo_jobs None (Some 20)))"
  have t: "aha_sched demo_fns demo_throw (demo_aha, demo_jobs None (Some 20)) \<noteq> None"
    "snd t ! 1 = InsertJob 4 (Some 20) (I_TestLocked 0 0)" "key_at (fst t) 0 = 0" "emptyKey (fst t) = 0"
    unfolding t_def by code_simp+
  then have "aha_sched demo_fns demo_throw (demo_aha, demo_jobs None (Some 20)) = Some t"
    unfolding t_def by simp
  then have "(aha_step demo_fns)\<^sup>*\<^sup>* (demo_aha, [Idle, Idle]) t"
    by (rule rtranclp_trans [OF demo_calls aha_sched_reach])
  then show ?thesis using t by (intro exI [of _ "fst t"] exI [of _ "snd t"]) simp
qed

subsection \<open>Clearing and threads that end\<close>

text \<open>
  Clearing the array sets its counters to zero, but a thread that inserted before and ends
  afterwards flushes the count it cached: the empty array reports the size that the thread
  had inserted.
\<close>

lemma clear_then_thread_exit:
  "aha_size (aha_clear demo_after) = 0"
  "aha_size ((aha_clear demo_after)\<lparr> numEntries := tci_thread_exit 0 (numEntries (aha_clear demo_after)) \<rparr>) = 1"
  by code_simp+

end
