(* ===== verification/Hash_Map_Props.thy ===== *)
theory Hash_Map_Props imports Hash_Map_Table Hash_Array_Props begin

text \<open>
  The properties of the atomic hash map: a new map is empty and well formed, the operations
  implement a table, an insertion throws exactly when no array has room and none may be added, and the
  iterator visits the entries of all arrays.
\<close>

subsection \<open>A new map\<close>

text \<open>
  Documented of the arithmetic, besides what the theory Hash\_Array\_Ops asks of the rounding to double:
  the quotient of two positive sizes does not underflow, the rounding to float is monotone,
  and a power of a base of at least one is at least one.
\<close>

definition rounds_fpu :: "fpu \<Rightarrow> bool" where
  "rounds_fpu U \<longleftrightarrow> rounds_double (dbl U) \<and> mono (flt U) \<and>
    (\<forall>n m :: nat. 0 < n \<and> 0 < m \<and> m < 2 ^ 64 \<longrightarrow> 0 < dbl U (of_nat n / of_nat m)) \<and>
    (\<forall>x e. 1 \<le> x \<and> 0 \<le> e \<longrightarrow> 1 \<le> fpow U x e) \<and> (\<forall>x. 0 \<le> x \<longrightarrow> 0 \<le> flt U x)"

lemma rounds_fpuD:
  assumes "rounds_fpu U"
  shows "rounds_double (dbl U)" "x \<le> y \<Longrightarrow> dbl U x \<le> dbl U y" "x \<le> y \<Longrightarrow> flt U x \<le> flt U y"
    "dbl U 1 = 1" "n < 2 ^ 52 \<Longrightarrow> dbl U (of_nat n) = of_nat n"
proof -
  show r: "rounds_double (dbl U)" using assms by (simp add: rounds_fpu_def)
  show "dbl U (of_nat n) = of_nat n" if "n < 2 ^ 52" by (rule rounds_nat [OF r that])
  show "dbl U 1 = 1" using rounds_nat [OF r, of 1] by simp
  show "x \<le> y \<Longrightarrow> dbl U x \<le> dbl U y" using r unfolding rounds_double_def by (blast intro: monoD)
  show "x \<le> y \<Longrightarrow> flt U x \<le> flt U y" using assms unfolding rounds_fpu_def by (blast intro: monoD)
qed

lemma trunc_pos: "1 \<le> x \<Longrightarrow> 0 < trunc x"
  using trunc_mono [of 1 x] trunc_nat [of 1] by simp

lemma create_capacity_pos:
  assumes "rounds_fpu U" "0 < mlf" "mlf \<le> 1" "0 < n"
  shows "0 < create_capacity U mlf n"
proof -
  note d = rounds_fpuD [OF assms(1)]
  have "(1 :: rat) \<le> of_nat n" using assms(4) by (cases n) auto
  then have "1 \<le> dbl U (of_nat n)" using d(2) [of 1 "of_nat n"] d(4) by simp
  then have "1 \<le> dbl U (of_nat n) / mlf" using assms(2,3) by (simp add: le_divide_eq)
  then have "1 \<le> dbl U (dbl U (of_nat n) / mlf)" using d(2) [of 1] d(4) by simp
  then show ?thesis unfolding create_capacity_def by (rule trunc_pos)
qed

lemma grows_ok_rounding:
  assumes U: "rounds_fpu U" and e: "0 < maxEntries (subMaps m ! 0)"
    "maxEntries (subMaps m ! 0) \<le> aha_capacity (subMaps m ! 0)" "aha_capacity (subMaps m ! 0) < 2 ^ 52"
    and g: "0 \<le> kGrowthFrac m"
  shows "grows_ok U m"
  unfolding grows_ok_def Let_def
proof (intro allI impI)
  fix n assume n: "n < kNumSubMaps" "0 < n" and grow: "may_grow U m n"
  note d = rounds_fpuD [OF U]
  let ?a = "subMaps m ! 0" and ?c = "of_nat (aha_capacity (subMaps m ! 0)) :: rat"
  let ?mlf = "maxLoadFactor (sub_config U ?a)"
  have cE: "maxEntries ?a < 2 ^ 52" "0 < aha_capacity ?a" using e by simp_all
  have mlf: "?mlf = dbl U (of_nat (maxEntries ?a) / ?c)"
    by (simp add: sub_config_def d(5) [OF cE(1)] d(5) [OF e(3)])
  have "aha_capacity ?a < 2 ^ 64" using e(3) by simp
  then have pos: "0 < ?mlf" using U e(1) cE(2) unfolding mlf rounds_fpu_def by blast
  have "of_nat (maxEntries ?a) / ?c \<le> 1" using e(2) cE(2) by (simp add: divide_le_eq)
  then have le: "?mlf \<le> 1" using d(2) [of _ 1] d(4) by (simp add: mlf)
  define p where "p = fpow U (dbl U (1 + kGrowthFrac m)) (int n - 1)"
  define cells where "cells = trunc (dbl U (?c * p))"
  have "1 \<le> dbl U (1 + kGrowthFrac m)" using d(2) [of 1 "1 + kGrowthFrac m"] d(4) g by simp
  then have p: "1 \<le> p" using U n(2) by (simp add: p_def rounds_fpu_def)
  then have "?c * 1 \<le> ?c * p" by (intro mult_left_mono) simp_all
  then have "?c \<le> dbl U (?c * p)" using d(2) [of ?c "?c * p"] d(5) [OF e(3)] by simp
  from trunc_mono [OF this] have "aha_capacity ?a \<le> cells" by (simp add: cells_def)
  then have "flt U ?c \<le> flt U (of_nat cells)" by (intro d(3)) simp
  then have "flt U (flt U ?c * kGrowthFrac m) \<le> flt U (flt U (of_nat cells) * kGrowthFrac m)"
    using g by (intro d(3) [OF mult_right_mono])
  moreover have "1 \<le> flt U (flt U ?c * kGrowthFrac m)" using grow by (simp add: may_grow_def not_less)
  ultimately have "0 < trunc (flt U (flt U (of_nat cells) * kGrowthFrac m))" by (intro trunc_pos) simp
  moreover have "next_size U m n = trunc (flt U (flt U (of_nat cells) * kGrowthFrac m))"
    by (simp add: next_size_def Let_def cells_def p_def d(5) [OF e(3)])
  ultimately have "0 < next_size U m n" by simp
  then show "0 < ?mlf \<and> ?mlf \<le> 1 \<and> 0 < create_capacity U ?mlf (next_size U m n)"
    using pos le create_capacity_pos [OF U pos le] by simp
qed

text \<open>What a configuration must be: three different keys, and room for an entry.\<close>

definition config_ok :: "fpu \<Rightarrow> 'k aha_config \<Rightarrow> nat \<Rightarrow> bool" where
  "config_ok U c n \<longleftrightarrow> cfg_erasedKey c \<noteq> cfg_emptyKey c \<and> cfg_erasedKey c \<noteq> cfg_lockedKey c \<and>
    (let cap = create_capacity U (maxLoadFactor c) n in 0 < cap \<and> cap < 2 ^ 52 \<and>
      0 < ctor_maxEntries U (maxLoadFactor c) cap)"

lemma ahm_new_inv:
  assumes U: "rounds_fpu U" and c: "config_ok U c n" and new: "ahm_new U nthreads mem n c = Some m"
    and th: "th < nthreads"
  shows "ahm_inv U F nthreads th m" "ahm_map m = Map.empty"
    "ahm_legal m k \<longleftrightarrow> k \<noteq> cfg_emptyKey c \<and> k \<noteq> cfg_lockedKey c \<and> k \<noteq> cfg_erasedKey c"
proof -
  obtain a where a: "aha_create U nthreads mem n c = Some a"
    and m: "m = \<lparr> kGrowthFrac = flt U (if growthFactor c < 0 then dbl U (1 - maxLoadFactor c) else growthFactor c),
            subMaps = [a] \<rparr>" and lf: "0 < maxLoadFactor c" "maxLoadFactor c < 1"
    using new by (auto simp: ahm_new_def split: if_splits option.splits)
  let ?cap = "create_capacity U (maxLoadFactor c) n"
  have c': "0 < ?cap" "?cap < 2 ^ 52" "cfg_erasedKey c \<noteq> cfg_emptyKey c" "cfg_erasedKey c \<noteq> cfg_lockedKey c"
    "0 < ctor_maxEntries U (maxLoadFactor c) ?cap" using c by (simp_all add: config_ok_def Let_def)
  note cr = aha_create_seq [OF a c'(1,3,4) th]
  have fr: "same_frame x (mark_empty q x)" for x :: "('a, 'b) aha" and q by (rule mark_empty_frame)
  have fields: "aha_capacity a = ?cap" "maxEntries a = ctor_maxEntries U (maxLoadFactor c) ?cap"
    "special_keys a = (cfg_emptyKey c, cfg_lockedKey c, cfg_erasedKey c)"
    using a fr by (auto simp: aha_create_def Let_def special_keys_def same_frame_def aha_construct_def split: if_splits)
  have "0 \<le> (if growthFactor c < 0 then dbl U (1 - maxLoadFactor c) else growthFactor c)"
  proof -
    have "(0 :: rat) \<le> 1 - maxLoadFactor c" using lf by simp
    moreover have "dbl U 0 = 0" using rounds_fpuD(5) [OF U, of 0] by simp
    ultimately have "0 \<le> dbl U (1 - maxLoadFactor c)" using rounds_fpuD(2) [OF U, of 0] by metis
    then show ?thesis by simp
  qed
  then have g: "0 \<le> kGrowthFrac m" using U by (simp add: m rounds_fpu_def)
  have "maxEntries a \<le> aha_capacity a"
    using ctor_maxEntries_le [OF rounds_fpuD(1) [OF U] lf(1) _ c'(2)] lf fields by simp
  then have "grows_ok U m"
    using c' g by (intro grows_ok_rounding [OF U]) (simp_all add: m fields)
  then show "ahm_inv U F nthreads th m"
    using cr th by (simp add: ahm_inv_def m numMapsAllocated_def kNumSubMaps_def subs_ok_def)
  show "ahm_map m = Map.empty" using cr by (simp add: ahm_map_def m fun_eq_iff)
  show "ahm_legal m k \<longleftrightarrow> k \<noteq> cfg_emptyKey c \<and> k \<noteq> cfg_lockedKey c \<and> k \<noteq> cfg_erasedKey c"
    by (simp add: ahm_legal_def m fields legal_for_def)
qed


definition exact_fpu :: fpu where
  "exact_fpu = \<lparr> dbl = id, flt = id, fpow = (\<lambda>x e. x ^ nat e) \<rparr>"

lemma exact_fpu_rounds: "rounds_fpu exact_fpu"
  by (simp add: rounds_fpu_def rounds_double_def exact_fpu_def mono_def)

definition demo_config :: "nat aha_config" where
  "demo_config = \<lparr> cfg_emptyKey = 0, cfg_lockedKey = 1, cfg_erasedKey = 2, maxLoadFactor = 1 / 2,
     growthFactor = -1, entryCountThreadCacheSize = 0 \<rparr>"

lemma demo_config_ok: "config_ok exact_fpu demo_config 2"
  by (simp add: config_ok_def demo_config_def exact_fpu_def create_capacity_def ctor_maxEntries_def trunc_def)

lemma demo_new: "ahm_new exact_fpu 1 0 2 demo_config \<noteq> None"
  by (simp add: ahm_new_def aha_create_def demo_config_def Let_def)


subsection \<open>When an insertion throws\<close>

lemma may_grow_frame:
  assumes "same_frame (subMaps m ! 0) (bs ! 0)"
  shows "may_grow U (m\<lparr> subMaps := bs \<rparr>) n = may_grow U m n"
  using assms by (simp add: may_grow_def same_frame_def)

text \<open>An insertion throws exactly when the key is new, no array has room for it and none may be added.

  The exception that the map is full is thrown if and only if the key is not in the map, every
  allocated array is closed to it, marked full or without an empty cell on its probe path, and there are
  sixteen arrays or the first is too small to grow from. It is never thrown for a key that is there.\<close>

theorem ahm_full_iff:
  assumes inv: "ahm_inv U F nthreads th m" and l: "ahm_legal m k"
  shows "(\<exists>m'. ahm_insertInternal U F nthreads th mem m k (Some v) = Some (m', MapFull)) \<longleftrightarrow>
    ahm_map m k = None \<and> (\<forall>a \<in> set (subMaps m). aha_closed F a k) \<and> \<not> may_grow U m (numMapsAllocated m)"
proof -
  have so: "subs_ok F th (special_keys (subMaps m ! 0)) (subMaps m)" using inv by (simp add: ahm_inv_def)
  obtain bs r where t: "try_subs F th k (Some v) 0 (subMaps m) = Some (bs, r)"
    "subs_ok F th (special_keys (subMaps m ! 0)) bs" "list_all2 same_frame (subMaps m) bs"
    "try_result F k v (subMaps m) bs r"
    using try_subs_spec [OF so, of k v 0] l by (auto simp: ahm_legal_def)
  let ?m = "m\<lparr> subMaps := bs \<rparr>"
  note i = ahm_inv_subs [OF inv t(2,3)]
  have ne: "subMaps m \<noteq> []" using inv by (simp add: ahm_inv_def)
  have g: "may_grow U ?m n = may_grow U m n" for n
    using t(3) ne by (intro may_grow_frame) (simp add: list_all2_nthD)
  have unfold: "ahm_insertInternal U F nthreads th mem m k (Some v) = Some (?m, x)" if "r = Some x" for x
    using t(1) that by (subst ahm_insertInternal.simps) simp
  show ?thesis
  proof (cases r)
    case (Some x)
    then show ?thesis using t(4) unfold [OF Some] by (auto simp: try_result_def ahm_map_def)
  next
    case None
    then have st: "subs_map (subMaps m) k = None" "\<forall>a \<in> set (subMaps m). aha_closed F a k"
      "subs_map bs = subs_map (subMaps m)" "\<forall>b \<in> set bs. aha_closed F b k"
      using t(4) by (auto simp: try_result_def)
    show ?thesis
    proof (cases "may_grow U m (numMapsAllocated m)")
      case False
      have "ahm_insertInternal U F nthreads th mem m k (Some v) = Some (?m, MapFull)"
        using t(1) None False g by (subst ahm_insertInternal.simps) (simp add: Let_def)
      then show ?thesis using st False by (simp add: ahm_map_def)
    next
      case True
      have n: "numMapsAllocated ?m = numMapsAllocated m"
        using t(3) by (simp add: numMapsAllocated_def list_all2_lengthD)
      have g': "may_grow U ?m (numMapsAllocated ?m)" using True g n by simp
      have l': "ahm_legal ?m k" using l i(2) by simp
      have cl: "aha_closed F c k" if "c \<in> set (subMaps ?m)" for c using st(4) that by simp
      have none: "subs_map (subMaps ?m) k = None" using st by simp
      obtain a b j where
        "aha_create U nthreads mem (next_size U ?m (numMapsAllocated ?m)) (sub_config U (subMaps ?m ! 0)) = Some a"
        "aha_insertInternal F th a k (Some v) = Some (b, SimpleRet j True)" "j \<noteq> aha_capacity a"
        using grow_spec [OF i(1) l' none cl g'] by blast
      then have "ahm_insertInternal U F nthreads th mem m k (Some v) =
          Some (?m\<lparr> subMaps := subMaps ?m @ [b] \<rparr>, AhmRet (numMapsAllocated m) j True)"
        using t(1) None g' n by (subst ahm_insertInternal.simps) (simp add: Let_def)
      then show ?thesis using True by simp
    qed
  qed
qed

lemma ahm_full_iff_witness:
  "\<not> (\<exists>m'. ahm_insertInternal exact_fpu demo_fns 1 0 0 (the (ahm_new exact_fpu 1 0 2 demo_config)) 3 (Some (10 :: nat)) =
      Some (m', MapFull))"
proof -
  have new: "ahm_new exact_fpu 1 0 2 demo_config = Some (the (ahm_new exact_fpu 1 0 2 demo_config) :: (nat, nat) ahm)"
    by (rule option.collapse [OF demo_new, symmetric])
  let ?m = "the (ahm_new exact_fpu 1 0 2 demo_config) :: (nat, nat) ahm"
  have inv: "ahm_inv exact_fpu demo_fns 1 0 ?m" and l: "ahm_legal ?m 3"
    using ahm_new_inv(1,3) [OF exact_fpu_rounds demo_config_ok new] by (simp_all add: demo_config_def)
  have "may_grow exact_fpu ?m (numMapsAllocated ?m)"
    by (simp add: ahm_new_def aha_create_def demo_config_def Let_def may_grow_def numMapsAllocated_def
        kNumSubMaps_def kNumSubMapBits_def exact_fpu_def create_capacity_def trunc_def aha_construct_def
        eval_nat_numeral)
  then show ?thesis using ahm_full_iff [OF inv l, where mem = 0 and v = 10] by simp
qed

subsection \<open>Clearing\<close>

lemma ahm_clear_map:
  assumes "ahm_inv U F nthreads th m"
  shows "ahm_map (ahm_clear m) = Map.empty" "numMapsAllocated (ahm_clear m) = 1" "ahm_size (ahm_clear m) = 0"
proof -
  have "aha_wf (subMaps m ! 0)" using assms by (auto simp: ahm_inv_def subs_ok_def aha_seq_def)
  from aha_clear_start(2) [OF this] show "ahm_map (ahm_clear m) = Map.empty"
    by (simp add: ahm_map_def ahm_clear_def fun_eq_iff)
  show "numMapsAllocated (ahm_clear m) = 1" "ahm_size (ahm_clear m) = 0"
    by (simp_all add: ahm_clear_def numMapsAllocated_def ahm_size_def aha_clear_fields)
qed

subsection \<open>Iteration\<close>

datatype ahm_iter = AhmEnd | AhmAt nat nat

definition sub_end :: "('k, 'v) ahm \<Rightarrow> nat \<Rightarrow> nat" where
  "sub_end m i = aha_end (subMaps m ! i)"

function checkAdvance :: "('k, 'v) ahm \<Rightarrow> nat \<Rightarrow> nat \<Rightarrow> ahm_iter" where
  "checkAdvance m i off =
    (if off = sub_end m i then
       if i + 1 < numMapsAllocated m then checkAdvance m (i + 1) (aha_begin (subMaps m ! (i + 1)))
       else AhmEnd
     else AhmAt i off)"
  by pat_completeness auto
termination by (relation "measure (\<lambda>(m, i, off). numMapsAllocated m - i)") auto

declare checkAdvance.simps [simp del]

definition ahm_begin :: "('k, 'v) ahm \<Rightarrow> ahm_iter" where
  "ahm_begin m = checkAdvance m 0 (aha_begin (subMaps m ! 0))"

fun ahm_increment :: "('k, 'v) ahm \<Rightarrow> ahm_iter \<Rightarrow> ahm_iter option" where
  "ahm_increment m AhmEnd = None"
| "ahm_increment m (AhmAt i off) = Some (checkAdvance m i (aha_increment (subMaps m ! i) off))"

fun ahm_iter_equal :: "ahm_iter \<Rightarrow> ahm_iter \<Rightarrow> bool" where
  "ahm_iter_equal (AhmAt i a) (AhmAt j b) \<longleftrightarrow> i = j \<and> a = b"
| "ahm_iter_equal AhmEnd AhmEnd = True"
| "ahm_iter_equal _ _ = False"

fun ahm_dereference :: "('k, 'v) ahm \<Rightarrow> ahm_iter \<Rightarrow> ('k \<times> 'v option) option" where
  "ahm_dereference m AhmEnd = None"
| "ahm_dereference m (AhmAt i off) = Some (aha_cells (subMaps m ! i) ! off)"

text \<open>The entries a client's loop visits, at most n of them.\<close>

fun ahm_visit :: "nat \<Rightarrow> ('k, 'v) ahm \<Rightarrow> ahm_iter \<Rightarrow> ('k \<times> 'v option) list" where
  "ahm_visit 0 m it = []"
| "ahm_visit (Suc n) m AhmEnd = []"
| "ahm_visit (Suc n) m (AhmAt i off) = aha_cells (subMaps m ! i) ! off #
     ahm_visit n m (checkAdvance m i (aha_increment (subMaps m ! i) off))"

definition entries :: "('k, 'v) aha \<Rightarrow> ('k \<times> 'v option) list" where
  "entries a = filter (\<lambda>c. checkLegalKey a (fst c)) (aha_cells a)"

lemma traverse_bound: "aha_traverse a off \<noteq> [] \<longleftrightarrow> off < aha_end a"
  by (subst aha_traverse.simps) simp

lemma advance_le: "off \<le> aha_capacity a \<Longrightarrow> aha_advancePastEmpty a off \<le> aha_capacity a"
  by (induction a off rule: aha_advancePastEmpty.induct) (subst aha_advancePastEmpty.simps, auto)

lemma visit_from:
  assumes wf: "\<And>a. a \<in> set (subMaps m) \<Longrightarrow> aha_wf a"
  shows "i < numMapsAllocated m \<Longrightarrow> off \<le> sub_end m i \<Longrightarrow>
    length (aha_traverse (subMaps m ! i) off @ concat (map entries (drop (Suc i) (subMaps m)))) \<le> n \<Longrightarrow>
    ahm_visit n m (checkAdvance m i off) =
      aha_traverse (subMaps m ! i) off @ concat (map entries (drop (Suc i) (subMaps m)))"
proof (induction "n + (numMapsAllocated m - i)" arbitrary: n i off rule: less_induct)
  case less
  let ?a = "subMaps m ! i"
  have ai: "?a \<in> set (subMaps m)" using less.prems(1) by (simp add: numMapsAllocated_def)
  show ?case
  proof (cases "off = sub_end m i")
    case e: True
    have t0: "aha_traverse ?a off = []" using e by (subst aha_traverse.simps) (simp add: sub_end_def)
    show ?thesis
    proof (cases "i + 1 < numMapsAllocated m")
      case True
      let ?b = "subMaps m ! (i + 1)"
      have bi: "?b \<in> set (subMaps m)" using True by (simp add: numMapsAllocated_def)
      have tb: "aha_traverse ?b (aha_begin ?b) = entries ?b"
        using aha_iteration [OF wf [OF bi]] by (simp add: entries_def)
      have dr: "drop (Suc i) (subMaps m) = ?b # drop (Suc (i + 1)) (subMaps m)"
        using True by (simp add: numMapsAllocated_def Cons_nth_drop_Suc)
      have le: "aha_begin ?b \<le> sub_end m (i + 1)"
        using advance_le [of 0 ?b] by (simp add: aha_begin_def sub_end_def aha_end_def)
      have "ahm_visit n m (checkAdvance m (i + 1) (aha_begin ?b)) =
          aha_traverse ?b (aha_begin ?b) @ concat (map entries (drop (Suc (i + 1)) (subMaps m)))"
        by (rule less.hyps [OF _ True le]) (use less.prems True t0 tb dr in simp_all)
      moreover have "checkAdvance m i off = checkAdvance m (i + 1) (aha_begin ?b)"
        using e True by (subst checkAdvance.simps) simp
      ultimately show ?thesis using t0 tb dr by simp
    next
      case False
      have "checkAdvance m i off = AhmEnd" using e False by (subst checkAdvance.simps) simp
      moreover have "drop (Suc i) (subMaps m) = []" using False by (simp add: numMapsAllocated_def)
      ultimately show ?thesis using t0 by (cases n) simp_all
    qed
  next
    case ne: False
    then have lt: "off < aha_end ?a" using less.prems(2) by (simp add: sub_end_def)
    have ca: "checkAdvance m i off = AhmAt i off" using ne by (subst checkAdvance.simps) simp
    have tr: "aha_traverse ?a off = aha_cells ?a ! off # aha_traverse ?a (aha_increment ?a off)"
      using lt by (subst aha_traverse.simps) simp
    obtain n' where n: "n = Suc n'" using less.prems(3) tr by (cases n) auto
    have le: "aha_increment ?a off \<le> sub_end m i"
      using advance_le [of "off + 1" ?a] lt by (simp add: aha_increment_def sub_end_def aha_end_def)
    have "ahm_visit n' m (checkAdvance m i (aha_increment ?a off)) =
        aha_traverse ?a (aha_increment ?a off) @ concat (map entries (drop (Suc i) (subMaps m)))"
      by (rule less.hyps [OF _ less.prems(1) le]) (use less.prems n tr in simp_all)
    then show ?thesis using ca tr n by simp
  qed
qed

text \<open>The loop from the beginning visits every entry of every array once, and comes to its end.\<close>

lemma ahm_iteration:
  assumes "ahm_inv U F nthreads th m" "length (concat (map entries (subMaps m))) \<le> n"
  shows "ahm_visit n m (ahm_begin m) = concat (map entries (subMaps m))"
proof -
  have wf: "aha_wf a" if "a \<in> set (subMaps m)" for a
    using assms(1) that by (auto simp: ahm_inv_def subs_ok_def aha_seq_def)
  have ne: "subMaps m \<noteq> []" using assms(1) by (simp add: ahm_inv_def)
  then obtain a as where m: "subMaps m = a # as" by (cases "subMaps m") auto
  have t: "aha_traverse a (aha_begin a) = entries a"
    using aha_iteration [of a] wf [of a] m by (simp add: entries_def)
  have le: "aha_begin (subMaps m ! 0) \<le> sub_end m 0"
    using advance_le [of 0 a] by (simp add: aha_begin_def sub_end_def aha_end_def m)
  have "0 < numMapsAllocated m" using m by (simp add: numMapsAllocated_def)
  from visit_from [OF wf this le, of n] assms(2) t show ?thesis by (simp add: ahm_begin_def m)
qed

end
