(* ===== verification/Mem_Pool.thy ===== *)
theory Mem_Pool imports Prelude begin

text \<open>
  The indexed memory pool of src/include/folly/IndexedMemPool.h, which hands out the wait nodes of
  the LIFO semaphore: local free lists of bounded length, a global list of lists for what overflows
  them, and slots that have not been used yet. The compare-and-swaps succeed at once here: an
  operation runs without interference; the argument stripe is the local list the calling thread
  is spread to. None is a failed assertion, or an element constructed over a living one or destroyed
  while it is raw.
\<close>

subsection \<open>Tagged pointers\<close>

record tagged_ptr =
  t_idx :: id32
  tagAndSize :: id32

definition SizeBits :: nat where "SizeBits = 8"

definition SizeMask :: id32 where "SizeMask = push_bit SizeBits 1 - 1"

definition TagIncr :: id32 where "TagIncr = push_bit SizeBits 1"

definition tp_size :: "tagged_ptr \<Rightarrow> id32" where
  "tp_size t = tagAndSize t AND SizeMask"

definition withSize :: "nat \<Rightarrow> id32 \<Rightarrow> tagged_ptr \<Rightarrow> tagged_ptr option" where
  "withSize limit repl t = (if unat repl \<le> limit
     then Some (t\<lparr> tagAndSize := (tagAndSize t AND NOT SizeMask) OR repl \<rparr>) else None)"

definition withSizeIncr :: "nat \<Rightarrow> tagged_ptr \<Rightarrow> tagged_ptr option" where
  "withSizeIncr limit t = (if unat (tp_size t) < limit then Some (t\<lparr> tagAndSize := tagAndSize t + 1 \<rparr>) else None)"

definition withSizeDecr :: "tagged_ptr \<Rightarrow> tagged_ptr option" where
  "withSizeDecr t = (if tp_size t > 0 then Some (t\<lparr> tagAndSize := tagAndSize t - 1 \<rparr>) else None)"

definition withIdx :: "id32 \<Rightarrow> tagged_ptr \<Rightarrow> tagged_ptr" where
  "withIdx repl t = \<lparr> t_idx = repl, tagAndSize = tagAndSize t + TagIncr \<rparr>"

definition withEmpty :: "nat \<Rightarrow> tagged_ptr \<Rightarrow> tagged_ptr option" where
  "withEmpty limit t = withSize limit 0 (withIdx 0 t)"

lemma SizeMask_mask: "SizeMask = mask 8"
  by (simp add: SizeMask_def SizeBits_def mask_eq_exp_minus_1)

lemma tp_size_take_bit: "tp_size t = take_bit 8 (tagAndSize t)"
  by (simp only: tp_size_def SizeMask_mask take_bit_eq_mask)

lemma unat_tp_size: "unat (tp_size t) = unat (tagAndSize t) mod 256"
proof -
  have "unat (tp_size t) = take_bit 8 (unat (tagAndSize t))"
    unfolding tp_size_take_bit by (rule unsigned_take_bit_eq)
  then show ?thesis by (simp add: take_bit_eq_mod)
qed

lemma size_withIdx [simp]: "tp_size (withIdx i t) = tp_size t"
proof -
  have "unat (tagAndSize t + 256) mod 256 = unat (tagAndSize t) mod 256"
    by (simp add: unat_word_ariths mod_mod_cancel)
  then have "unat (tp_size (withIdx i t)) = unat (tp_size t)"
    by (simp add: unat_tp_size withIdx_def TagIncr_def SizeBits_def)
  then show ?thesis by (rule unsigned_word_eqI)
qed

lemma idx_withIdx [simp]: "t_idx (withIdx i t) = i"
  by (simp add: withIdx_def)

lemma size_incr:
  assumes "withSizeIncr limit t = Some t'" "limit \<le> 255"
  shows "unat (tp_size t') = Suc (unat (tp_size t))" "t_idx t' = t_idx t"
proof -
  have lt: "unat (tagAndSize t) mod 256 < 255" and t': "t' = t\<lparr> tagAndSize := tagAndSize t + 1 \<rparr>"
    using assms by (auto simp: withSizeIncr_def unat_tp_size split: if_splits)
  have "unat (tagAndSize t + 1) mod 256 = (unat (tagAndSize t) + 1) mod 256"
    by (simp add: unat_word_ariths mod_mod_cancel)
  also have "\<dots> = Suc (unat (tagAndSize t) mod 256)" using lt by (simp add: mod_Suc)
  finally show "unat (tp_size t') = Suc (unat (tp_size t))" "t_idx t' = t_idx t"
    by (simp_all add: unat_tp_size t')
qed

lemma size_decr:
  assumes "withSizeDecr t = Some t'"
  shows "Suc (unat (tp_size t')) = unat (tp_size t)" "t_idx t' = t_idx t"
proof -
  have gt: "0 < unat (tagAndSize t) mod 256" and t': "t' = t\<lparr> tagAndSize := tagAndSize t - 1 \<rparr>"
    using assms by (auto simp: withSizeDecr_def unat_tp_size [symmetric] unat_gt_0 word_gt_0 split: if_splits)
  then have "tagAndSize t \<noteq> 0" by auto
  then have "unat (tagAndSize t - 1) = unat (tagAndSize t) - 1" by (metis unat_minus_one)
  moreover have "Suc ((n - 1) mod 256) = n mod 256" if "0 < n mod 256" for n :: nat
    using that by (cases n) (auto simp: mod_Suc split: if_splits)
  ultimately show "Suc (unat (tp_size t')) = unat (tp_size t)" "t_idx t' = t_idx t"
    using gt by (simp_all add: unat_tp_size t')
qed

lemma size_set:
  assumes "withSize limit r t = Some t'" "limit \<le> 255"
  shows "tp_size t' = r" "t_idx t' = t_idx t"
proof -
  have r: "unat r < 2 ^ 8" and t': "t' = t\<lparr> tagAndSize := (tagAndSize t AND NOT SizeMask) OR r \<rparr>"
    using assms by (auto simp: withSize_def split: if_splits)
  have "take_bit 8 (unat r) = unat r" using r by (simp add: take_bit_nat_eq_self)
  then have tr: "take_bit 8 r = r" by (metis unsigned_take_bit_eq unsigned_word_eqI)
  have "take_bit 8 ((tagAndSize t AND NOT (mask 8)) OR r) = take_bit 8 r"
    by (rule bit_word_eqI) (auto simp: bit_take_bit_iff bit_or_iff bit_and_iff bit_not_iff bit_mask_iff)
  then show "tp_size t' = r" "t_idx t' = t_idx t" using tr by (simp_all add: tp_size_take_bit t' SizeMask_mask)
qed

subsection \<open>The pool\<close>

record mem_pool =
  actualCapacity :: nat
  limit :: nat
  eagerRecycle :: bool
  slots_made :: id32
  localNext :: "id32 \<Rightarrow> id32"
  globalNext :: "id32 \<Rightarrow> id32"
  alive :: "id32 \<Rightarrow> bool"
  local_heads :: "tagged_ptr list"
  globalHead :: tagged_ptr

definition null_ptr :: tagged_ptr where
  "null_ptr = \<lparr> t_idx = 0, tagAndSize = 0 \<rparr>"

definition maxIndexForCapacity :: "nat \<Rightarrow> nat \<Rightarrow> id32 \<Rightarrow> id32" where
  "maxIndexForCapacity nl lim cap = word_of_nat (min (unat cap + (nl - 1) * lim) (2 ^ 32 - 2))"

definition capacityForMaxIndex :: "nat \<Rightarrow> nat \<Rightarrow> id32 \<Rightarrow> id32" where
  "capacityForMaxIndex nl lim maxIndex = maxIndex - word_of_nat ((nl - 1) * lim)"

definition pool_create :: "nat \<Rightarrow> nat \<Rightarrow> bool \<Rightarrow> id32 \<Rightarrow> mem_pool" where
  "pool_create nl lim eager cap = \<lparr> actualCapacity = unat (maxIndexForCapacity nl lim cap),
     limit = lim, eagerRecycle = eager, slots_made = 0, localNext = (\<lambda>_. 0), globalNext = (\<lambda>_. 0),
     alive = (\<lambda>_. False), local_heads = replicate nl null_ptr, globalHead = null_ptr \<rparr>"

definition pool_capacity :: "mem_pool \<Rightarrow> id32" where
  "pool_capacity p = capacityForMaxIndex (length (local_heads p)) (limit p) (word_of_nat (actualCapacity p))"

definition slotIndex :: "mem_pool \<Rightarrow> id32 \<Rightarrow> bool" where
  "slotIndex p i \<longleftrightarrow> 0 < i \<and> unat i \<le> actualCapacity p \<and> i \<le> slots_made p"

definition globalPush :: "id32 \<Rightarrow> mem_pool \<Rightarrow> mem_pool" where
  "globalPush i p = (let gh = globalHead p in
     p\<lparr> globalNext := (globalNext p)(i := t_idx gh), globalHead := withIdx i gh \<rparr>)"

definition localPush :: "nat \<Rightarrow> id32 \<Rightarrow> mem_pool \<Rightarrow> mem_pool option" where
  "localPush stripe i p = (if \<not> slotIndex p i then None else
     let h = local_heads p ! stripe; p = p\<lparr> localNext := (localNext p)(i := t_idx h) \<rparr> in
     if unat (tp_size h) = limit p then
       (case withEmpty (limit p) h of None \<Rightarrow> None
        | Some h' \<Rightarrow> Some (globalPush i (p\<lparr> local_heads := (local_heads p)[stripe := h'] \<rparr>)))
     else (case withSizeIncr (limit p) (withIdx i h) of None \<Rightarrow> None
        | Some h' \<Rightarrow> Some (p\<lparr> local_heads := (local_heads p)[stripe := h'] \<rparr>)))"

definition globalPop :: "mem_pool \<Rightarrow> (mem_pool \<times> id32) option" where
  "globalPop p = (let gh = globalHead p in
     if t_idx gh = 0 then Some (p, 0)
     else if \<not> slotIndex p (t_idx gh) then None
     else Some (p\<lparr> globalHead := withIdx (globalNext p (t_idx gh)) gh \<rparr>, t_idx gh))"

definition construct :: "id32 \<Rightarrow> mem_pool \<Rightarrow> mem_pool option" where
  "construct i p = (if alive p i then None else Some (p\<lparr> alive := (alive p)(i := True) \<rparr>))"

definition destruct :: "id32 \<Rightarrow> mem_pool \<Rightarrow> mem_pool option" where
  "destruct i p = (if alive p i then Some (p\<lparr> alive := (alive p)(i := False) \<rparr>) else None)"

definition mark_allocated :: "id32 \<Rightarrow> mem_pool \<Rightarrow> mem_pool" where
  "mark_allocated i p = p\<lparr> localNext := (localNext p)(i := -1) \<rparr>"

text \<open>A slot that has never been used.\<close>

definition new_slot :: "mem_pool \<Rightarrow> (mem_pool \<times> id32) option" where
  "new_slot p = (if unat (slots_made p) \<ge> actualCapacity p then Some (p, 0)
     else let i = slots_made p + 1; p = p\<lparr> slots_made := i \<rparr> in
       if unat i > actualCapacity p then Some (p, 0)
       else if \<not> slotIndex p i then None
       else (case (if \<not> eagerRecycle p then construct i p else Some p) of None \<Rightarrow> None
          | Some p \<Rightarrow> Some (mark_allocated i p, i)))"

definition localPop :: "nat \<Rightarrow> mem_pool \<Rightarrow> (mem_pool \<times> id32) option" where
  "localPop stripe p = (let h = local_heads p ! stripe in
     if t_idx h \<noteq> 0 then
       if \<not> slotIndex p (t_idx h) then None
       else (case withSizeDecr (withIdx (localNext p (t_idx h)) h) of None \<Rightarrow> None
          | Some h' \<Rightarrow> Some (mark_allocated (t_idx h) (p\<lparr> local_heads := (local_heads p)[stripe := h'] \<rparr>), t_idx h))
     else (case globalPop p of None \<Rightarrow> None
        | Some (p, i) \<Rightarrow>
            if i = 0 then new_slot p
            else if \<not> slotIndex p i then None
            else (case withSize (limit p) (word_of_nat (limit p)) (withIdx (localNext p i) h) of None \<Rightarrow> None
               | Some h' \<Rightarrow> Some (mark_allocated i (p\<lparr> local_heads := (local_heads p)[stripe := h'] \<rparr>), i))))"

definition allocIndex :: "nat \<Rightarrow> mem_pool \<Rightarrow> (mem_pool \<times> id32) option" where
  "allocIndex stripe p = (case localPop stripe p of None \<Rightarrow> None
    | Some (p, i) \<Rightarrow> if i \<noteq> 0 \<and> eagerRecycle p then map_option (\<lambda>q. (q, i)) (construct i p) else Some (p, i))"

definition isAllocated :: "id32 \<Rightarrow> mem_pool \<Rightarrow> bool" where
  "isAllocated i p \<longleftrightarrow> slotIndex p i \<and> localNext p i = -1"

definition recycleIndex :: "nat \<Rightarrow> id32 \<Rightarrow> mem_pool \<Rightarrow> mem_pool option" where
  "recycleIndex stripe i p = (if \<not> isAllocated i p then None
     else (case (if eagerRecycle p then destruct i p else Some p) of None \<Rightarrow> None
       | Some p \<Rightarrow> localPush stripe i p))"

text \<open>The elements whose destructors run with that of the pool, the last slot first.\<close>

definition pool_destroy :: "mem_pool \<Rightarrow> id32 list" where
  "pool_destroy p = (if \<not> eagerRecycle p then map word_of_nat (rev [1..<Suc (unat (slots_made p))]) else [])"

end
