(* ===== verification/Mem_Pool_Correct.thy ===== *)
theory Mem_Pool_Correct imports Mem_Pool "HOL-Library.Multiset" begin

text \<open>
  What the indexed memory pool of src/include/folly/IndexedMemPool.h promises: an index is handed out
  to one caller at a time, no operation fails, and an allocation is refused only when as many elements
  are out as the capacity promises. The invariant splits the slots in use into the local lists,
  the blocks of the global list and the elements handed out.
\<close>

subsection \<open>Chained lists\<close>

fun chain :: "(id32 \<Rightarrow> id32) \<Rightarrow> id32 \<Rightarrow> id32 list \<Rightarrow> bool" where
  "chain nx i [] \<longleftrightarrow> i = 0"
| "chain nx i (x # xs) \<longleftrightarrow> i = x \<and> x \<noteq> 0 \<and> chain nx (nx x) xs"

lemma chain_upd [simp]: "i \<notin> set xs \<Longrightarrow> chain (nx(i := v)) j xs = chain nx j xs"
  by (induction xs arbitrary: j) auto

lemma chain_next: "chain nx i xs \<Longrightarrow> x \<in> set xs \<Longrightarrow> nx x = 0 \<or> nx x \<in> set xs"
proof (induction xs arbitrary: i)
  case (Cons y ys)
  then show ?case by (cases "x = y"; cases ys) auto
qed simp

definition local_ok :: "(id32 \<Rightarrow> id32) \<Rightarrow> nat \<Rightarrow> tagged_ptr \<Rightarrow> id32 list \<Rightarrow> bool" where
  "local_ok nx lim h xs \<longleftrightarrow> chain nx (t_idx h) xs \<and> unat (tp_size h) = length xs \<and> length xs \<le> lim"

definition block_ok :: "(id32 \<Rightarrow> id32) \<Rightarrow> nat \<Rightarrow> id32 list \<Rightarrow> bool" where
  "block_ok nx lim g \<longleftrightarrow> length g = Suc lim \<and> chain nx (hd g) g"

lemma id32_less: "unat (n :: id32) < 2 ^ 32"
  by (rule order_less_le_trans [OF unsigned_less]) simp

lemma unat_id32: "k < 2 ^ 32 \<Longrightarrow> unat (word_of_nat k :: id32) = k"
  by (simp add: unsigned_of_nat take_bit_nat_eq_self)

definition slots_upto :: "id32 \<Rightarrow> id32 list" where
  "slots_upto n = map word_of_nat [1..<Suc (unat n)]"

lemma slots_upto_simps [simp]:
  "slots_upto 0 = []" "length (slots_upto n) = unat n"
  by (simp_all add: slots_upto_def)

lemma set_slots_upto [simp]: "set (slots_upto n) = {i. 0 < i \<and> i \<le> n}"
proof -
  have "i \<in> word_of_nat ` {1..<Suc (unat n)}" if "0 < i" "i \<le> n" for i :: id32
    by (rule image_eqI [of _ _ "unat i"]) (use that in \<open>auto simp: word_le_nat_alt unat_gt_0 word_gt_0 Suc_le_eq\<close>)
  moreover have "(0::id32) < word_of_nat k \<and> word_of_nat k \<le> n" if "1 \<le> k" "k < Suc (unat n)" for k
  proof -
    have "k < 2 ^ 32" using that id32_less [of n] by simp
    then have "unat (word_of_nat k :: id32) = k" by (rule unat_id32)
    then show ?thesis using that by (simp add: word_less_nat_alt word_le_nat_alt)
  qed
  ultimately show ?thesis by (auto simp: slots_upto_def simp del: upt_Suc)
qed

lemma distinct_slots_upto [simp]: "distinct (slots_upto n)"
proof -
  have "inj_on (word_of_nat :: nat \<Rightarrow> id32) {1..<Suc (unat n)}"
  proof (rule inj_onI)
    fix a b assume ab: "a \<in> {1..<Suc (unat n)}" "b \<in> {1..<Suc (unat n)}" "(word_of_nat a :: id32) = word_of_nat b"
    then have "a < 2 ^ 32" "b < 2 ^ 32" using id32_less [of n] by simp_all
    then show "a = b" using ab(3) by (metis unat_id32)
  qed
  then show ?thesis by (simp add: slots_upto_def distinct_map del: upt_Suc)
qed

lemma slots_upto_Suc: "unat (n + 1) = Suc (unat n) \<Longrightarrow> slots_upto (n + 1) = slots_upto n @ [n + 1]"
  by (simp add: slots_upto_def)

lemma mset_concat_update:
  "s < length ls \<Longrightarrow> mset (concat (ls[s := xs])) + mset (ls ! s) = mset (concat ls) + mset xs"
proof (induction ls arbitrary: s)
  case (Cons l ls)
  then show ?case by (cases s) (auto simp: algebra_simps)
qed simp

lemma take_hd:
  "s < length ls \<Longrightarrow> ls ! s = i # xs \<Longrightarrow> mset (concat ls) = add_mset i (mset (concat (ls[s := xs])))"
  using mset_concat_update [of s ls xs] by simp

lemma one_empty:
  "\<forall>xs\<in>set ls. length xs \<le> lim \<Longrightarrow> ls ! s = [] \<Longrightarrow> s < length ls \<Longrightarrow> length (concat ls) \<le> (length ls - 1) * lim"
proof (induction ls arbitrary: s)
  case (Cons l ls)
  have all: "length (concat ls) \<le> length ls * lim" if "\<forall>xs\<in>set ls. length xs \<le> lim" for ls :: "'a list list"
    using that by (induction ls) auto
  show ?case
  proof (cases s)
    case 0
    then show ?thesis using Cons.prems all [of ls] by simp
  next
    case (Suc k)
    then have "length (concat ls) \<le> (length ls - 1) * lim" "0 < length ls" using Cons by auto
    then show ?thesis using Cons.prems(1) by (cases "length ls") auto
  qed
qed simp

subsection \<open>The invariant\<close>

definition imp_ok :: "mem_pool \<Rightarrow> id32 list list \<Rightarrow> id32 list list \<Rightarrow> id32 list \<Rightarrow> bool" where
  "imp_ok p ls gs al \<longleftrightarrow> limit p \<le> 255 \<and> actualCapacity p < 2 ^ 32 - 1 \<and> unat (slots_made p) \<le> actualCapacity p
    \<and> list_all2 (local_ok (localNext p) (limit p)) (local_heads p) ls
    \<and> list_all (block_ok (localNext p) (limit p)) gs
    \<and> chain (globalNext p) (t_idx (globalHead p)) (map hd gs)
    \<and> (\<forall>i\<in>set al. localNext p i = -1)
    \<and> mset (concat ls @ concat gs @ al) = mset (slots_upto (slots_made p))
    \<and> (\<forall>i. alive p i \<longleftrightarrow> (if eagerRecycle p then i \<in> set al else 0 < i \<and> i \<le> slots_made p))"

lemma imp_okD:
  assumes "imp_ok p ls gs al"
  shows "distinct (concat ls @ concat gs @ al)"
    "set (concat ls @ concat gs @ al) = {i. 0 < i \<and> i \<le> slots_made p}"
    "length (concat ls @ concat gs @ al) = unat (slots_made p)"
    "length ls = length (local_heads p)"
proof -
  have m: "mset (concat ls @ concat gs @ al) = mset (slots_upto (slots_made p))"
    using assms unfolding imp_ok_def by blast
  show "distinct (concat ls @ concat gs @ al)"
    using mset_eq_imp_distinct_iff [OF m] by (simp only: distinct_slots_upto)
  show "set (concat ls @ concat gs @ al) = {i. 0 < i \<and> i \<le> slots_made p}"
    using mset_eq_setD [OF m] by (simp only: set_slots_upto)
  show "length (concat ls @ concat gs @ al) = unat (slots_made p)"
    using mset_eq_length [OF m] by (simp only: slots_upto_simps)
  show "length ls = length (local_heads p)"
    using assms unfolding imp_ok_def by (metis list_all2_lengthD)
qed

lemma imp_slotIndex:
  assumes "imp_ok p ls gs al" "i \<in> set (concat ls @ concat gs @ al)"
  shows "slotIndex p i" "i \<noteq> 0" "i \<noteq> -1"
proof -
  have i: "0 < i" "i \<le> slots_made p" using assms imp_okD(2) by blast+
  have c: "unat (slots_made p) \<le> actualCapacity p" "actualCapacity p < 2 ^ 32 - 1"
    using assms(1) by (auto simp: imp_ok_def)
  show "slotIndex p i" using i c by (auto simp: slotIndex_def word_le_nat_alt)
  show "i \<noteq> 0" using i by auto
  have "unat i < 2 ^ 32 - 1" using i c by (simp add: word_le_nat_alt)
  moreover have "unat (- 1 :: id32) = 2 ^ 32 - 1"
    by (simp add: unsigned_minus_1_eq_mask mask_eq_exp_minus_1)
  ultimately show "i \<noteq> -1" by auto
qed

lemma locals_upd:
  "i \<notin> set (concat ls) \<Longrightarrow> list_all2 (local_ok nx lim) hs ls \<Longrightarrow> list_all2 (local_ok (nx(i := v)) lim) hs ls"
  by (erule list.rel_mono_strong) (auto simp: local_ok_def)

lemma blocks_upd:
  "i \<notin> set (concat gs) \<Longrightarrow> list_all (block_ok nx lim) gs \<Longrightarrow> list_all (block_ok (nx(i := v)) lim) gs"
  by (auto simp: list_all_iff block_ok_def)

lemma hd_blocks: "list_all (block_ok nx lim) gs \<Longrightarrow> set (map hd gs) \<subseteq> set (concat gs)"
proof (induction gs)
  case (Cons g gs)
  then show ?case by (cases g) (auto simp: block_ok_def)
qed simp

lemma imp_chains:
  assumes "imp_ok p ls gs al" "xs \<in> set ls \<or> xs \<in> set gs"
  shows "\<exists>j. chain (localNext p) j xs"
proof (cases "xs \<in> set gs")
  case True
  then show ?thesis using assms(1) by (auto simp: imp_ok_def list_all_iff block_ok_def)
next
  case False
  then obtain k where "k < length ls" "xs = ls ! k" using assms(2) by (auto simp: in_set_conv_nth)
  then show ?thesis
    using assms(1) unfolding imp_ok_def local_ok_def list_all2_conv_all_nth by metis
qed

text \<open>An index is marked as handed out exactly if it is.\<close>

lemma imp_isAllocated:
  assumes "imp_ok p ls gs al"
  shows "isAllocated i p \<longleftrightarrow> i \<in> set al"
proof
  assume "i \<in> set al"
  then show "isAllocated i p"
    using assms imp_slotIndex(1) [OF assms, of i] by (auto simp: isAllocated_def imp_ok_def)
next
  assume a: "isAllocated i p"
  show "i \<in> set al"
  proof (rule ccontr)
    assume "i \<notin> set al"
    moreover have "i \<in> set (concat ls @ concat gs @ al)"
      unfolding imp_okD(2) [OF assms] using a by (simp add: isAllocated_def slotIndex_def)
    ultimately obtain xs where i: "i \<in> set xs" and mem: "xs \<in> set ls \<or> xs \<in> set gs" by auto
    from imp_chains [OF assms mem] obtain j where "chain (localNext p) j xs" by blast
    from chain_next [OF this i] have "localNext p i = 0 \<or> localNext p i \<in> set (concat ls @ concat gs @ al)"
      using mem by auto
    then show False using a imp_slotIndex(3) [OF assms] by (auto simp: isAllocated_def)
  qed
qed

subsection \<open>Taking an index\<close>

lemma list_all2_set:
  "list_all2 P xs ys \<Longrightarrow> P x y \<Longrightarrow> list_all2 P (xs[i := x]) (ys[i := y])"
  by (rule list_all2_update_cong)

lemma imp_alive_unused:
  assumes "imp_ok p ls gs al" "eagerRecycle p" "i \<notin> set al"
  shows "\<not> alive p i"
  using assms by (simp add: imp_ok_def)

text \<open>
  Handing out a slot that a free list gave up: the lists are without it, and it is not yet
  constructed if that is due.
\<close>

lemma hand_out:
  assumes "limit p \<le> 255" "actualCapacity p < 2 ^ 32 - 1" "unat (slots_made p) \<le> actualCapacity p"
    "list_all2 (local_ok (localNext p) (limit p)) (local_heads p) ls"
    "list_all (block_ok (localNext p) (limit p)) gs"
    "chain (globalNext p) (t_idx (globalHead p)) (map hd gs)"
    "\<forall>j\<in>set al. localNext p j = -1"
    "mset (concat ls @ concat gs @ i # al) = mset (slots_upto (slots_made p))"
    "\<forall>j. alive p j \<longleftrightarrow> (if eagerRecycle p then j \<in> set al else 0 < j \<and> j \<le> slots_made p)"
  shows "\<exists>p'. (if eagerRecycle p then construct i (mark_allocated i p) else Some (mark_allocated i p)) = Some p'
    \<and> imp_ok p' ls gs (i # al) \<and> i \<notin> set al \<and> i \<noteq> 0 \<and> i \<le> slots_made p"
proof -
  have "distinct (concat ls @ concat gs @ i # al)"
    using mset_eq_imp_distinct_iff [OF assms(8)] by (simp only: distinct_slots_upto)
  then have i: "i \<notin> set (concat ls)" "i \<notin> set (concat gs)" "i \<notin> set al" by auto
  have "i \<in> {j. 0 < j \<and> j \<le> slots_made p}"
    using mset_eq_setD [OF assms(8)] unfolding set_slots_upto [symmetric] by auto
  then have r: "i \<noteq> 0" "i \<le> slots_made p" by auto
  let ?q = "if eagerRecycle p then (mark_allocated i p)\<lparr> alive := (alive p)(i := True) \<rparr> else mark_allocated i p"
  have "(if eagerRecycle p then construct i (mark_allocated i p) else Some (mark_allocated i p)) = Some ?q"
    using assms(9) i(3) by (auto simp: construct_def mark_allocated_def)
  moreover have "imp_ok ?q ls gs (i # al)"
    unfolding imp_ok_def
    using assms locals_upd [OF i(1) assms(4)] blocks_upd [OF i(2) assms(5)]
    by (auto simp: mark_allocated_def)
  ultimately show ?thesis using i(3) r by blast
qed

text \<open>A slot that was never used is made one of the free ones for a moment.\<close>

lemma new_slot_ok:
  assumes "imp_ok p ls gs al"
  shows "new_slot p = Some (p, 0) \<and> unat (slots_made p) = actualCapacity p
    \<or> (\<exists>q i. new_slot p = Some (mark_allocated i q, i) \<and> eagerRecycle q = eagerRecycle p
        \<and> (\<exists>p'. (if eagerRecycle q then construct i (mark_allocated i q) else Some (mark_allocated i q)) = Some p'
          \<and> imp_ok p' ls gs (i # al) \<and> i \<notin> set al \<and> i \<noteq> 0 \<and> i \<le> slots_made q))"
proof (cases "unat (slots_made p) = actualCapacity p")
  case True
  then show ?thesis using assms by (simp add: new_slot_def)
next
  case False
  let ?i = "slots_made p + 1"
  have cap: "actualCapacity p < 2 ^ 32 - 1" "unat (slots_made p) < actualCapacity p"
    using assms False by (auto simp: imp_ok_def)
  then have ui: "unat ?i = Suc (unat (slots_made p))"
    by (simp add: unat_word_ariths)
  have i0: "?i \<noteq> 0" using ui by (metis unsigned_0 nat.distinct(1))
  define q where "q = p\<lparr> slots_made := ?i \<rparr>"
  define r where "r = (if eagerRecycle p then q else q\<lparr> alive := (alive p)(?i := True) \<rparr>)"
  have al: "alive p j \<longleftrightarrow> (if eagerRecycle p then j \<in> set al else 0 < j \<and> j \<le> slots_made p)" for j
    using assms by (simp add: imp_ok_def)
  have le: "j \<le> ?i \<longleftrightarrow> j = ?i \<or> j \<le> slots_made p" for j
    using ui by (auto simp: word_le_nat_alt word_unat_eq_iff)
  have "new_slot p = Some (mark_allocated ?i r, ?i)"
    using cap ui i0 al [of ?i]
    by (auto simp: new_slot_def Let_def slotIndex_def construct_def r_def q_def word_gt_0 word_le_nat_alt)
  moreover have "\<exists>p''. (if eagerRecycle r then construct ?i (mark_allocated ?i r) else Some (mark_allocated ?i r)) = Some p''
      \<and> imp_ok p'' ls gs (?i # al) \<and> ?i \<notin> set al \<and> ?i \<noteq> 0 \<and> ?i \<le> slots_made r"
  proof (rule hand_out)
    show "mset (concat ls @ concat gs @ ?i # al) = mset (slots_upto (slots_made r))"
      using assms slots_upto_Suc [OF ui] by (simp add: imp_ok_def r_def q_def)
    show "\<forall>j. alive r j \<longleftrightarrow> (if eagerRecycle r then j \<in> set al else 0 < j \<and> j \<le> slots_made r)"
      using al le i0 by (auto simp: r_def q_def word_gt_0)
  qed (use assms cap ui in \<open>auto simp: imp_ok_def r_def q_def\<close>)
  moreover have "eagerRecycle r = eagerRecycle p" by (simp add: r_def q_def)
  ultimately show ?thesis by blast
qed

lemma local_nil: "local_ok nx lim h xs \<Longrightarrow> t_idx h = 0 \<longleftrightarrow> xs = []"
  by (cases xs) (auto simp: local_ok_def)

lemma alloc_ok:
  assumes ok: "imp_ok p ls gs al" and s: "s < length ls"
  shows "allocIndex s p = Some (p, 0) \<and> ls ! s = [] \<and> gs = [] \<and> unat (slots_made p) = actualCapacity p
    \<or> (\<exists>p' i ls' gs'. allocIndex s p = Some (p', i) \<and> i \<noteq> 0 \<and> i \<notin> set al \<and> imp_ok p' ls' gs' (i # al))"
proof -
  let ?h = "local_heads p ! s"
  note d = ok [unfolded imp_ok_def]
  have len: "s < length (local_heads p)" using s imp_okD(4) [OF ok] by simp
  have h: "local_ok (localNext p) (limit p) ?h (ls ! s)"
    using d len by (auto dest: list_all2_nthD)
  have alloc: "\<exists>p' i ls' gs'. allocIndex s p = Some (p', i) \<and> i \<noteq> 0 \<and> i \<notin> set al \<and> imp_ok p' ls' gs' (i # al)"
    if "localPop s p = Some (mark_allocated i q, i)" "eagerRecycle q = eagerRecycle p"
      "\<exists>p'. (if eagerRecycle q then construct i (mark_allocated i q) else Some (mark_allocated i q)) = Some p'
        \<and> imp_ok p' ls' gs' (i # al) \<and> i \<notin> set al \<and> i \<noteq> 0 \<and> i \<le> slots_made q" for q i ls' gs'
  proof -
    from that(3) obtain p' where p': "(if eagerRecycle q then construct i (mark_allocated i q) else Some (mark_allocated i q)) = Some p'"
      "imp_ok p' ls' gs' (i # al)" "i \<notin> set al" "i \<noteq> 0" by blast
    from p'(1) have "allocIndex s p = Some (p', i)"
      using that(1,2) p'(4) by (cases "eagerRecycle p") (auto simp: allocIndex_def mark_allocated_def)
    then show ?thesis using p' by blast
  qed
  show ?thesis
  proof (cases "ls ! s")
    case (Cons i xs)
    have hi: "t_idx ?h = i" "i \<noteq> 0" "chain (localNext p) (localNext p i) xs" "unat (tp_size ?h) = Suc (length xs)"
      "Suc (length xs) \<le> limit p" using h Cons by (auto simp: local_ok_def)
    have mem: "i \<in> set (concat ls @ concat gs @ al)" using Cons s by (metis UnI1 list.set_intros(1) nth_mem set_append set_concat UN_I)
    obtain h' where h': "withSizeDecr (withIdx (localNext p i) ?h) = Some h'"
      using hi(4) by (simp add: withSizeDecr_def word_less_nat_alt)
    have "local_ok (localNext p) (limit p) h' xs"
      using size_decr [OF h'] hi by (simp add: local_ok_def)
    define q where "q = p\<lparr> local_heads := (local_heads p)[s := h'] \<rparr>"
    have "localPop s p = Some (mark_allocated i q, i)"
      using hi(1,2) h' imp_slotIndex [OF ok mem] by (simp add: localPop_def Let_def q_def)
    moreover have "\<exists>p'. (if eagerRecycle q then construct i (mark_allocated i q) else Some (mark_allocated i q)) = Some p'
      \<and> imp_ok p' (ls[s := xs]) gs (i # al) \<and> i \<notin> set al \<and> i \<noteq> 0 \<and> i \<le> slots_made q"
    proof (rule hand_out)
      show "list_all2 (local_ok (localNext q) (limit q)) (local_heads q) (ls[s := xs])"
        using d \<open>local_ok _ _ h' xs\<close> by (simp add: q_def list_all2_set)
      show "mset (concat (ls[s := xs]) @ concat gs @ i # al) = mset (slots_upto (slots_made q))"
        using d take_hd [OF s Cons] by (simp add: q_def)
    qed (use d in \<open>auto simp: q_def\<close>)
    ultimately show ?thesis using alloc [of i q "ls[s := xs]" gs] by (simp add: q_def)
  next
    case Nil
    then have h0: "t_idx ?h = 0" using local_nil [OF h] by simp
    show ?thesis
    proof (cases gs)
      case gs: Nil
      then have "globalPop p = Some (p, 0)" using d by (simp add: globalPop_def)
      then have pop: "localPop s p = new_slot p" using h0 by (simp add: localPop_def Let_def)
      from new_slot_ok [OF ok] show ?thesis
      proof
        assume "new_slot p = Some (p, 0) \<and> unat (slots_made p) = actualCapacity p"
        then show ?thesis using pop Nil gs by (simp add: allocIndex_def)
      next
        assume "\<exists>q i. new_slot p = Some (mark_allocated i q, i) \<and> eagerRecycle q = eagerRecycle p
          \<and> (\<exists>p'. (if eagerRecycle q then construct i (mark_allocated i q) else Some (mark_allocated i q)) = Some p'
            \<and> imp_ok p' ls gs (i # al) \<and> i \<notin> set al \<and> i \<noteq> 0 \<and> i \<le> slots_made q)"
        then obtain q i where "new_slot p = Some (mark_allocated i q, i)" "eagerRecycle q = eagerRecycle p"
          "\<exists>p'. (if eagerRecycle q then construct i (mark_allocated i q) else Some (mark_allocated i q)) = Some p'
            \<and> imp_ok p' ls gs (i # al) \<and> i \<notin> set al \<and> i \<noteq> 0 \<and> i \<le> slots_made q" by blast
        then show ?thesis using alloc [of i q ls gs] pop by simp
      qed
    next
      case (Cons g gs')
      define i where "i = hd g"
      define xs where "xs = tl g"
      have g: "g = i # xs" "length xs = limit p" "chain (localNext p) i g"
        and gh: "t_idx (globalHead p) = i" "i \<noteq> 0" "chain (globalNext p) (globalNext p i) (map hd gs')"
        using d Cons by (cases g; auto simp: block_ok_def i_def xs_def)+
      have mem: "i \<in> set (concat ls @ concat gs @ al)" using Cons g by simp
      have gp: "globalPop p = Some (p\<lparr> globalHead := withIdx (globalNext p i) (globalHead p) \<rparr>, i)"
        using gh imp_slotIndex [OF ok mem] by (simp add: globalPop_def)
      have lim: "unat (word_of_nat (limit p) :: id32) = limit p" using d by (intro unat_id32) simp
      then obtain h' where h': "withSize (limit p) (word_of_nat (limit p)) (withIdx (localNext p i) ?h) = Some h'"
        by (simp add: withSize_def)
      have "local_ok (localNext p) (limit p) h' xs"
        using size_set [OF h'] d g lim by (simp add: local_ok_def)
      define q where "q = p\<lparr> globalHead := withIdx (globalNext p i) (globalHead p),
        local_heads := (local_heads p)[s := h'] \<rparr>"
      have "localPop s p = Some (mark_allocated i q, i)"
        using h0 gp gh h' imp_slotIndex [OF ok mem] by (simp add: localPop_def Let_def q_def slotIndex_def)
      moreover have "\<exists>p'. (if eagerRecycle q then construct i (mark_allocated i q) else Some (mark_allocated i q)) = Some p'
        \<and> imp_ok p' (ls[s := xs]) gs' (i # al) \<and> i \<notin> set al \<and> i \<noteq> 0 \<and> i \<le> slots_made q"
      proof (rule hand_out)
        show "list_all2 (local_ok (localNext q) (limit q)) (local_heads q) (ls[s := xs])"
          using d \<open>local_ok _ _ h' xs\<close> by (simp add: q_def list_all2_set)
        show "mset (concat (ls[s := xs]) @ concat gs' @ i # al) = mset (slots_upto (slots_made q))"
          using d mset_concat_update [OF s, of xs] Cons g Nil by (simp add: q_def ac_simps)
        show "chain (globalNext q) (t_idx (globalHead q)) (map hd gs')"
          using gh by (simp add: q_def)
      qed (use d Cons in \<open>auto simp: q_def\<close>)
      ultimately show ?thesis using alloc [of i q "ls[s := xs]" gs'] by (simp add: q_def)
    qed
  qed
qed

subsection \<open>Giving an index back\<close>

lemma push_ok:
  assumes ok: "imp_ok p ls gs (i # al)" and s: "s < length ls"
  shows "\<exists>p' ls' gs'. recycleIndex s i p = Some p' \<and> imp_ok p' ls' gs' al"
proof -
  let ?h = "local_heads p ! s"
  note d = ok [unfolded imp_ok_def]
  have len: "s < length (local_heads p)" using s imp_okD(4) [OF ok] by simp
  have h: "chain (localNext p) (t_idx ?h) (ls ! s)" "unat (tp_size ?h) = length (ls ! s)" "length (ls ! s) \<le> limit p"
    using d len by (auto dest!: list_all2_nthD simp: local_ok_def)
  have i: "i \<notin> set (concat ls)" "i \<notin> set (concat gs)" "i \<notin> set al" using imp_okD(1) [OF ok] by auto
  have i0: "slotIndex p i" "i \<noteq> 0" using imp_slotIndex [OF ok] by auto
  have ins: "i \<notin> set (ls ! s)" using i(1) nth_mem [OF s] by auto
  define q where "q = (if eagerRecycle p then p\<lparr> alive := (alive p)(i := False) \<rparr> else p)
    \<lparr> localNext := (localNext p)(i := t_idx ?h) \<rparr>"
  have q: "limit q = limit p" "actualCapacity q = actualCapacity p" "slots_made q = slots_made p"
    "local_heads q = local_heads p" "globalNext q = globalNext p" "globalHead q = globalHead p"
    "eagerRecycle q = eagerRecycle p" "localNext q = (localNext p)(i := t_idx ?h)"
    "alive q = (if eagerRecycle p then (alive p)(i := False) else alive p)"
    by (simp_all add: q_def)
  have al: "alive p j \<longleftrightarrow> (if eagerRecycle p then j \<in> set (i # al) else 0 < j \<and> j \<le> slots_made p)" for j
    using d by simp
  have rec: "recycleIndex s i p = (if unat (tp_size ?h) = limit p then
       (case withEmpty (limit p) ?h of None \<Rightarrow> None
        | Some h' \<Rightarrow> Some (globalPush i (q\<lparr> local_heads := (local_heads p)[s := h'] \<rparr>)))
     else (case withSizeIncr (limit p) (withIdx i ?h) of None \<Rightarrow> None
        | Some h' \<Rightarrow> Some (q\<lparr> local_heads := (local_heads p)[s := h'] \<rparr>)))"
    using imp_isAllocated [OF ok, of i] i0 al [of i]
    by (auto simp: recycleIndex_def destruct_def localPush_def Let_def slotIndex_def q_def split: option.splits)
  have al': "(if eagerRecycle p then (alive p)(i := False) else alive p) j
      \<longleftrightarrow> (if eagerRecycle p then j \<in> set al else 0 < j \<and> j \<le> slots_made p)" for j
    using al [of j] i(3) by auto
  have next_i: "chain (localNext q) i (i # ls ! s)" using h(1) ins i0 by (simp add: q)
  have others: "list_all2 (local_ok (localNext q) (limit p)) (local_heads p) ls"
    "list_all (block_ok (localNext q) (limit p)) gs" "\<forall>j\<in>set al. localNext q j = -1"
    using d i locals_upd blocks_upd by (auto simp: q)
  show ?thesis
  proof (cases "unat (tp_size ?h) = limit p")
    case True
    obtain h' where h': "withEmpty (limit p) ?h = Some h'" by (simp add: withEmpty_def withSize_def)
    have "local_ok (localNext q) (limit p) h' []"
      using size_set [OF h' [unfolded withEmpty_def]] d by (simp add: local_ok_def)
    then have l: "list_all2 (local_ok (localNext q) (limit p)) ((local_heads p)[s := h']) (ls[s := []])"
      using others(1) by (rule list_all2_set [rotated])
    define r where "r = globalPush i (q\<lparr> local_heads := (local_heads p)[s := h'] \<rparr>)"
    have "i \<notin> set (map hd gs)" using i(2) hd_blocks d by blast
    then have g: "chain (globalNext r) (t_idx (globalHead r)) (map hd ((i # ls ! s) # gs))"
      using d i0 by (simp add: r_def globalPush_def Let_def q)
    have "imp_ok r (ls[s := []]) ((i # ls ! s) # gs) al"
      unfolding imp_ok_def
    proof (intro conjI)
      show "mset (concat (ls[s := []]) @ concat ((i # ls ! s) # gs) @ al) = mset (slots_upto (slots_made r))"
        using d mset_concat_update [OF s, of "[]"] by (simp add: r_def globalPush_def Let_def q add.assoc [symmetric])
    qed (use d l g others next_i True h(2) al' in \<open>auto simp: r_def globalPush_def Let_def q block_ok_def\<close>)
    then show ?thesis using rec True h' unfolding r_def by auto
  next
    case False
    then have lt: "length (ls ! s) < limit p" using h by simp
    obtain h' where h': "withSizeIncr (limit p) (withIdx i ?h) = Some h'"
      using lt h(2) by (simp add: withSizeIncr_def)
    have "local_ok (localNext q) (limit p) h' (i # ls ! s)"
      using size_incr [OF h'] d h(2) lt next_i by (simp add: local_ok_def)
    then have l: "list_all2 (local_ok (localNext q) (limit p)) ((local_heads p)[s := h']) (ls[s := i # ls ! s])"
      using others(1) by (rule list_all2_set [rotated])
    have "imp_ok (q\<lparr> local_heads := (local_heads p)[s := h'] \<rparr>) (ls[s := i # ls ! s]) gs al"
      unfolding imp_ok_def
    proof (intro conjI)
      show "mset (concat (ls[s := i # ls ! s]) @ concat gs @ al)
          = mset (slots_upto (slots_made (q\<lparr> local_heads := (local_heads p)[s := h'] \<rparr>)))"
        using d mset_concat_update [OF s, of "i # ls ! s"] by (simp add: q)
    qed (use d l others al' in \<open>auto simp: q\<close>)
    then show ?thesis using rec False h' by auto
  qed
qed

subsection \<open>Any run of the pool\<close>

text \<open>
  A run is a list of calls: any list of the pool may serve an allocation or take a recycled element
  back, and the elements recycled are among those that are out.
\<close>

datatype pool_act = Take nat | Give nat nat

fun act_stripe :: "pool_act \<Rightarrow> nat" where
  "act_stripe (Take s) = s"
| "act_stripe (Give s k) = s"

fun imp_act :: "pool_act \<Rightarrow> mem_pool \<times> id32 list \<Rightarrow> (mem_pool \<times> id32 list) option" where
  "imp_act (Take s) (p, al) = map_option (\<lambda>(p', i). (p', if i = 0 then al else i # al)) (allocIndex s p)"
| "imp_act (Give s k) (p, al) = (if k < length al
     then map_option (\<lambda>p'. (p', remove1 (al ! k) al)) (recycleIndex s (al ! k) p) else Some (p, al))"

fun imp_run :: "pool_act list \<Rightarrow> mem_pool \<times> id32 list \<Rightarrow> (mem_pool \<times> id32 list) option" where
  "imp_run [] x = Some x"
| "imp_run (c # cs) x = (case imp_act c x of None \<Rightarrow> None | Some y \<Rightarrow> imp_run cs y)"

definition pool_shape :: "mem_pool \<Rightarrow> nat \<times> nat \<times> nat" where
  "pool_shape p = (actualCapacity p, limit p, length (local_heads p))"

lemma alloc_shape: "allocIndex s p = Some (p', i) \<Longrightarrow> pool_shape p' = pool_shape p"
  by (auto simp: allocIndex_def localPop_def globalPop_def new_slot_def construct_def mark_allocated_def pool_shape_def Let_def
      split: if_splits option.splits prod.splits)

lemma recycle_shape: "recycleIndex s i p = Some p' \<Longrightarrow> pool_shape p' = pool_shape p"
  by (auto simp: recycleIndex_def destruct_def localPush_def globalPush_def pool_shape_def Let_def
      split: if_splits option.splits)

lemma imp_ok_perm: "imp_ok p ls gs al \<Longrightarrow> mset al = mset al' \<Longrightarrow> imp_ok p ls gs al'"
  by (auto simp: imp_ok_def dest: mset_eq_setD)

lemma act_ok:
  assumes "imp_ok p ls gs al" "act_stripe c < length (local_heads p)"
  shows "\<exists>p' al' ls' gs'. imp_act c (p, al) = Some (p', al') \<and> imp_ok p' ls' gs' al' \<and> pool_shape p' = pool_shape p"
proof (cases c)
  case (Take s)
  with assms imp_okD(4) [OF assms(1)] alloc_ok [OF assms(1), of s] show ?thesis by (auto intro: alloc_shape)
next
  case (Give s k)
  show ?thesis
  proof (cases "k < length al")
    case True
    then have "imp_ok p ls gs (al ! k # remove1 (al ! k) al)" using assms(1) by (auto elim: imp_ok_perm)
    from push_ok [OF this, of s] show ?thesis
      using Give True assms(2) imp_okD(4) [OF assms(1)] by (auto intro: recycle_shape)
  qed (use Give assms(1) in auto)
qed

lemma run_ok:
  "imp_ok p ls gs al \<Longrightarrow> \<forall>c\<in>set cs. act_stripe c < length (local_heads p) \<Longrightarrow>
    \<exists>p' al' ls' gs'. imp_run cs (p, al) = Some (p', al') \<and> imp_ok p' ls' gs' al' \<and> pool_shape p' = pool_shape p"
proof (induction cs arbitrary: p ls gs al)
  case (Cons c cs)
  from act_ok [OF Cons.prems(1), of c] Cons.prems(2) obtain p' al' ls' gs' where
    1: "imp_act c (p, al) = Some (p', al')" "imp_ok p' ls' gs' al'" "pool_shape p' = pool_shape p" by auto
  have "length (local_heads p') = length (local_heads p)" using 1(3) by (simp add: pool_shape_def)
  then show ?case using Cons.IH [OF 1(2)] Cons.prems(2) 1 by auto
qed auto

lemma max_index: "unat (maxIndexForCapacity nl lim cap) = min (unat cap + (nl - 1) * lim) (2 ^ 32 - 2)"
  unfolding maxIndexForCapacity_def by (rule unat_id32) auto

lemma create_ok:
  assumes "lim \<le> 255"
  shows "imp_ok (pool_create nl lim eager cap) (replicate nl []) [] []"
proof -
  have "mset (concat (replicate nl ([] :: id32 list))) = {#}" by (induction nl) auto
  then show ?thesis
    using assms by (auto simp: imp_ok_def pool_create_def max_index list_all2_conv_all_nth local_ok_def null_ptr_def tp_size_def)
qed

lemma create_shape:
  "pool_shape (pool_create nl lim eager cap) = (unat (maxIndexForCapacity nl lim cap), lim, nl)"
  by (simp add: pool_shape_def pool_create_def)

lemma create_run:
  assumes "lim \<le> 255" "\<forall>c\<in>set cs. act_stripe c < nl"
  shows "\<exists>p al ls gs. imp_run cs (pool_create nl lim eager cap, []) = Some (p, al) \<and> imp_ok p ls gs al
    \<and> actualCapacity p = unat (maxIndexForCapacity nl lim cap) \<and> limit p = lim \<and> length (local_heads p) = nl"
proof -
  have "\<forall>c\<in>set cs. act_stripe c < length (local_heads (pool_create nl lim eager cap))"
    using assms(2) by (simp add: pool_create_def)
  from run_ok [OF create_ok [OF assms(1)] this] show ?thesis
    unfolding create_shape by (auto simp: pool_shape_def)
qed

text \<open>C38. A pool never fails an assertion and never constructs over a living element or destroys a raw
  one, whatever is allocated from which local list and whatever is recycled to which; the elements that
  are out are different and numbered up to the maximal index for the capacity, and exactly they are
  reported as allocated.\<close>

theorem pool_hands_out_once:
  assumes "lim \<le> 255" "\<forall>c\<in>set cs. act_stripe c < nl"
  shows "\<exists>p al. imp_run cs (pool_create nl lim eager cap, []) = Some (p, al) \<and> distinct al
    \<and> (\<forall>i\<in>set al. i \<noteq> 0 \<and> i \<le> maxIndexForCapacity nl lim cap) \<and> (\<forall>i. isAllocated i p \<longleftrightarrow> i \<in> set al)"
proof -
  obtain p al ls gs where r: "imp_run cs (pool_create nl lim eager cap, []) = Some (p, al)"
    and ok: "imp_ok p ls gs al" and c: "actualCapacity p = unat (maxIndexForCapacity nl lim cap)"
    using create_run [OF assms] by blast
  have "i \<noteq> 0 \<and> i \<le> maxIndexForCapacity nl lim cap" if "i \<in> set al" for i
    using imp_slotIndex(1,2) [OF ok, of i] that c by (simp add: slotIndex_def word_le_nat_alt)
  then show ?thesis using r imp_okD(1) [OF ok] imp_isAllocated [OF ok] by auto
qed

lemma pool_hands_out_once_witness:
  "\<exists>p al. imp_run [Take 0, Take 1, Take 0, Give 1 0, Give 1 0, Take 0] (pool_create 2 1 True 4, []) = Some (p, al)
    \<and> distinct al \<and> (\<forall>i\<in>set al. i \<noteq> 0 \<and> i \<le> maxIndexForCapacity 2 1 4) \<and> (\<forall>i. isAllocated i p \<longleftrightarrow> i \<in> set al)"
  by (rule pool_hands_out_once) auto

text \<open>C39. If the promised capacity and the room for the other local lists fit below $2^{32} - 1$, then an
  allocation is refused only when at least as many elements are out as the pool was created for, which is
  what capacity() reports; never more are out than that and the room for the other local lists.\<close>

theorem pool_capacity_promise:
  assumes "0 < nl" "lim \<le> 255" "unat cap + (nl - 1) * lim < 2 ^ 32 - 1" "\<forall>c\<in>set cs. act_stripe c < nl" "s < nl"
    "imp_run cs (pool_create nl lim eager cap, []) = Some (p, al)"
  shows "pool_capacity p = cap \<and> length al \<le> unat cap + (nl - 1) * lim
    \<and> (allocIndex s p = Some (p', 0) \<longrightarrow> unat cap \<le> length al)"
proof -
  obtain ls gs where ok: "imp_ok p ls gs al" and shape: "actualCapacity p = unat (maxIndexForCapacity nl lim cap)"
      "limit p = lim" "length (local_heads p) = nl"
    using create_run [OF assms(2,4), of eager cap] assms(6) by auto
  have act: "actualCapacity p = unat cap + (nl - 1) * lim" using assms(3) by (simp add: shape max_index)
  have out: "length (concat ls) + length (concat gs) + length al = unat (slots_made p)"
    using imp_okD(3) [OF ok] by simp
  have le: "unat (slots_made p) \<le> actualCapacity p" using ok by (simp add: imp_ok_def)
  have "unat cap \<le> length al" if "allocIndex s p = Some (p', 0)"
  proof -
    have s: "s < length ls" using imp_okD(4) [OF ok] shape assms(5) by simp
    then have e: "ls ! s = []" "gs = []" "unat (slots_made p) = actualCapacity p"
      using alloc_ok [OF ok s] that by auto
    have "\<forall>xs\<in>set ls. length xs \<le> lim"
      using ok shape by (force simp: imp_ok_def local_ok_def list_all2_conv_all_nth in_set_conv_nth)
    then have "length (concat ls) \<le> (length ls - 1) * lim" using e(1) s by (rule one_empty)
    then show ?thesis using out e act shape imp_okD(4) [OF ok] by simp
  qed
  moreover have "pool_capacity p = cap"
    by (simp add: pool_capacity_def capacityForMaxIndex_def shape(2,3) act)
  ultimately show ?thesis using out le act by simp
qed

definition demo_acts :: "pool_act list" where
  "demo_acts = [Take 0, Take 0, Take 1, Give 1 0]"

lemma demo_acts_refused:
  "map_option (\<lambda>(p, al). (map_option snd (allocIndex 0 p), length al)) (imp_run demo_acts (pool_create 2 1 True 2, []))
    = Some (Some 0, 2)"
proof -
  have cap: "unat (maxIndexForCapacity 2 (Suc 0) 2) = 3" by (simp add: max_index)
  have two: "replicate 2 null_ptr = [null_ptr, null_ptr]" by (simp add: numeral_2_eq_2)
  show ?thesis
    by (simp add: demo_acts_def pool_create_def cap two null_ptr_def allocIndex_def localPop_def
        globalPop_def new_slot_def slotIndex_def construct_def destruct_def mark_allocated_def recycleIndex_def
        isAllocated_def localPush_def withSizeIncr_def withIdx_def tp_size_def SizeMask_def SizeBits_def TagIncr_def
        Let_def)
qed

text \<open>An element in the other list is out of reach: with two out of three the pool refuses.\<close>

lemma pool_capacity_promise_witness:
  "\<exists>p p' al. imp_run demo_acts (pool_create 2 1 True 2, []) = Some (p, al) \<and> allocIndex 0 p = Some (p', 0)
    \<and> pool_capacity p = 2 \<and> 2 \<le> length al \<and> length al = 2"
proof -
  obtain p p' al where r: "imp_run demo_acts (pool_create 2 1 True 2, []) = Some (p, al)"
      "allocIndex 0 p = Some (p', 0)" "length al = 2"
    using demo_acts_refused by (auto split: prod.splits)
  have "\<forall>c\<in>set demo_acts. act_stripe c < 2" by (auto simp: demo_acts_def)
  from pool_capacity_promise [OF _ _ _ this _ r(1), of 0] r show ?thesis by auto
qed

end
