(* ===== verification/Spec2Isabelle.thy ===== *)
theory Spec2Isabelle imports
  Assign_Correct Vec_Typed Reduce_Correct Foreach_Correct Stencil_Correct Spsc Lifo_Aba Lifo_System Pool_Runs Hash_Mix Spooky_Stream Hash_Map_Props Mem_Pool_Correct
begin

text \<open>
  Contentious: persistent vectors that threads may write and reduce at the same time.

  \<^bold>\<open>The program.\<close> src/contentious/ is a C++ library of header files. Its core is a vector stored
  as a bit-partitioned trie (bp_vector.h and the files that implement it): persistent vectors
  (ps_vector) share nodes and are never changed, transient ones (tr_vector) write in place into the
  nodes that carry their id. On top of it a cont_vector (cont_vector.h, cont_vector-impl.h) lets the
  program go on while threads work: freeze hands a persistent snapshot to a dependent, detach gives
  each thread a splinter of the dependent, reattach merges what a thread changed, and when the last
  thread is back a resolution applies to the dependent what the program wrote to the original
  meanwhile. contentious.h has the partition of the work, the index maps, the operators and the
  functions the threads run; threadpool.h and threadpool.cc run them. The pool and the vector rest on
  parts of folly that the repository bundles (src/include/folly/): the single-producer
  single-consumer queue, the LIFO semaphore and its baton, and the atomic hash map that holds a
  vector's trackers, latches and splinters, with its counters, hashes and bit operations.

  \<^bold>\<open>Theories and code.\<close> Paths are below src/.
  \<^item> Prelude: hint collections, bounds-checked list access, option binds, digits of an index.
  \<^item> Bp_Node, Bp_Store: bp_node of contentious/bp_vector.h in an explicit store of nodes, so that
    sharing and in-place writes are visible; the loops that walk, and copy on write, a path. None is
    an access outside an array, to a missing node or to a node of the wrong kind.
  \<^item> Bp_Vector, Bp_Push: bp_vector_base-impl.h, element access, set and push_back.
  \<^item> Vec_Typed: type safety of the unions in the nodes, over sequences of set and push_back.
  \<^item> Vec_Classes, Transient, Vec_System: the three classes, ids and conversions (bp_vector.h,
    bp_vector-impl.h, tr_vector-impl.h), batches of transient writes, and runs of whole programs.
  \<^item> Bp_Iterator, Bp_Mut_Iter: bp_vector_iterator.h, const and mutable iterators.
  \<^item> Bp_Diff, Bp_Assign, Assign_Correct: next_diff_ids, get_branch, contained_at_shift and assign.
  \<^item> Contentious, Cont_Vector, Cont_Splt: contentious.h, contentious.cc and cont_vector-impl.h:
    helpers, the protocol from freeze to the resolution, the bodies of the threads.
  \<^item> Vec_Share, Bp_Fence: vectors that share nodes and are written by several threads, each with an
    id of its own; the nodes of one writer as nodes no one else points to.
  \<^item> Cont_Reduce, Reduce_System, Reduce_Correct: a reduction as an interleaved system.
  \<^item> Cont_Settle, Chunk_Share, Chunk_System, Chunk_Runs, Chunk_Start: operations whose workers each
    fill a chunk of the dependent, as an interleaved system; the locale chunk_work is their contract.
  \<^item> Cont_Foreach, Foreach_Correct: foreach keeps that contract, and what its callers rely on.
  \<^item> Cont_Stencil, Stencil_Work, Stencil_Correct: the same for stencil.
  \<^item> PC_Queue, Spsc: include/folly/ProducerConsumerQueue.h, the operations on 32 bit indices, and one
    producer and one consumer interleaved statement by statement.
  \<^item> Baton, Lifo_Head, Lifo_Sem, Lifo_System, Lifo_Aba: include/folly/Baton.h and LifoSem.h, the baton
    access by access, the packed head word, the operations of the semaphore, runs of it, and the
    compare-and-swap of a pop against nodes that are reused.
  \<^item> Thread_Pool, Pool_Correct, Pool_Runs: contentious/threadpool.h and threadpool.cc, the program
    points of the workers and of the thread that submits, finishes and stops.
  \<^item> Bit_Ops, Hash_Mix, Tc_Int: include/folly/Bits.h, Hash.h and ThreadCachedInt.h.
  \<^item> Spooky, Spooky_Correct, Spooky_Stream: include/folly/SpookyHashV1.h, SpookyHashV1.cpp,
    SpookyHashV2.h and SpookyHashV2.cpp, the hash of bytes in one call and in pieces.
  \<^item> Hash_Array, Hash_Array_Inv, Hash_Array_Safe: include/folly/AtomicHashArray.h and
    AtomicHashArray-inl.h, the operations statement by statement, any number of threads interleaved.
  \<^item> Hash_Array_Run, Table_Spec, Hash_Array_Map, Hash_Array_Ops, Hash_Array_Props: the same steps run
    one operation at a time, the contract of a table, creation, clearing and the iterator.
  \<^item> Hash_Map, Hash_Map_Table, Hash_Map_Props: include/folly/AtomicHashMap.h and AtomicHashMap-inl.h,
    the growing map built of arrays.
  \<^item> Mem_Pool, Mem_Pool_Correct: include/folly/IndexedMemPool.h, the pool the wait nodes of the
    semaphore come from, with its local free lists and the global list of blocks.
\<close>

text \<open>
  \<^bold>\<open>What the lemmas show.\<close>
  \<^item> Vectors: a valid vector is a list (the abstraction reads the trie through its root); set,
    push_back, assign, the iterators and transient batches do to the list what they should, never
    fail, and change no other live vector. assign on an exactly full leaf is outside its contract and
    the development says what happens there.
  \<^item> Reduction: in every interleaving of the workers' picks, work and reattachments with the
    program's writes, the resolution leaves the sum of what the program's vector holds at that moment; no step
    fails, and the workers are never stuck.
  \<^item> foreach: in every such interleaving the dependent ends with what each worker found in its chunk,
    multiplied; without writes it is map. Writes of the program reach no dependent once a worker has
    begun, and do before. The vector is not exactly full and has a value for every worker; the code
    fails an assertion otherwise.
  \<^item> stencil, with offsets -1, 0 and 1: in every interleaving the dependent ends with the stencil of
    what each worker found, plus, at the bounds of the chunks, what the resolution adds for neighbours
    that were written since. Without writes it is the stencil of the vector with its two ends left
    alone. The vector has at least two values; with one, and one worker, the loop of the code runs past its end.
  \<^item> Queue: it is a bounded list when run alone, and first in first out between two threads; a second
    producer or the destruction of a moved-from queue breaks it.
  \<^item> Baton and semaphore: no wake-up is lost, permits are conserved, a post wakes the waiter that
    came last, shutdown wakes all, and the pop is safe below 2 to the 30 turns of other threads.
  \<^item> Pool: tasks run once and in order, at most one worker resolves, the workers come to rest with
    all work done; finish may miss its only wake-up and hang.
  \<^item> Hash array and map: a key is stored at most once and the reported size is exact, in every
    interleaving; run one at a time, the array and the growing map implement a partial function that
    is never overwritten. The interfaces are locales (bounded_queue, table and others), interpreted on
    the model of the code.
  \<^item> Memory pool: an index is out once at a time, no call fails an assertion, and an allocation is
    refused only when the capacity promised is out.
  \<^item> Hashes and bits: the mixing functions are undone by their inverses, indices survive their
    encoding, the search over bit iterators finds the first set bit. SpookyHash gives a message added in pieces the hash of the whole, with
    no access outside a buffer.

  \<^bold>\<open>Bounds and fuel.\<close> Integers whose width matters are words: the indices of the queue, the head of
  the semaphore, hashes, counters, encoded indices, and the int32 that get_branch and the difference
  iterators compute with. Sizes and shifts of vectors are natural numbers, of which the code uses the
  part that fits 64 bits; what SpookyHash is given is shorter than 2 to the 64 bytes. Loops that may
  not end in the code (the walk of a shutdown, the operations of the hash array, the iteration to an end that is not reached) are partial functions into option, so that a loop that does not return is None, and the properties state
  that they return. No fuel is used.

  \<^bold>\<open>Assumptions.\<close> In the systems of reduce, foreach and stencil a worker's detach and its work on the splinter
  are one step, its reattach, a write of the program and a resolution another each: what lies between
  the locks touches only nodes of the thread's own id. Shared memory is sequentially consistent: an access is one step and steps are
  interleaved. An operation of the thread cached integer, of a lock and of a queue inside the pool is
  one step, and the memory pool runs one call at a time. The values of a reduction and of a stencil are of a
  commutative ring, so the order of additions plays no part. Spurious failures of try_lock are not modelled. Rounding of floating point numbers is a
  parameter with its monotonicity as hypothesis where the sizes of the hash map need it; the ceiling in
  the partition is the exact one. Allocation of the semaphore's nodes succeeds, as the code presumes.
  The growing hash map is run one operation at a time, in a build without assertions where its index
  encoding asserts what cannot hold.

  \<^bold>\<open>Not modelled.\<close> Reclamation of nodes by boost::intrusive_ptr (a node stays in the store), time
  measurement and printing, insert and remove, which the vector declares and never defines; of folly the
  futex, cache topology, memory idler and thread-local storage (system calls and platform glue),
  Function.h, Traits.h and the other language support;
  the formatting library fmt, which the benchmarks print with; tests and benchmarks.
\<close>

end
